(* ===== verification/Prelude.thy ===== *)
theory Prelude
  imports Main "HOL-Library.Word"
begin

text \<open>
  What every component of the development shares: the names of the machine
  types, byte buffers with \<^verbatim>\<open>memcpy\<close> and \<^verbatim>\<open>memset\<close>, splitting a byte string into
  blocks, and the lemma collections the component proofs simplify with.

  A C array is a list. A write is \<open>mem_write\<close>, which replaces the bytes it
  covers and lengthens the list when it runs past the end; so an invariant that
  a buffer keeps its declared length also says that no write leaves the buffer.
\<close>

unbundle bit_operations_syntax

type_synonym u8 = "8 word"
type_synonym u16 = "16 word"
type_synonym u32 = "32 word"
type_synonym u64 = "64 word"
type_synonym bytes = "8 word list"

named_theorems mem_simps
  \<open>rewriting of buffer writes\<close>
named_theorems block_simps
  \<open>rewriting of block decomposition\<close>
named_theorems word_model
  \<open>definitions of word-level macros, unfolded for bitwise reasoning\<close>


section \<open>Bits of bounded words\<close>

lemma bit_u8_ge [simp]: "8 \<le> n \<Longrightarrow> \<not> bit (b::u8) n"
  by (auto dest: bit_imp_le_length)

lemma bit_u32_ge [simp]: "32 \<le> n \<Longrightarrow> \<not> bit (b::u32) n"
  by (auto dest: bit_imp_le_length)

lemma bit_u64_ge [simp]: "64 \<le> n \<Longrightarrow> \<not> bit (b::u64) n"
  by (auto dest: bit_imp_le_length)

lemma word_xor_eq_0_iff: "(x::'a::len word) XOR y = 0 \<longleftrightarrow> x = y"
  by (metis xor.assoc xor.left_neutral xor.right_neutral xor_self_eq)

text \<open>A statement about every byte is checked by evaluating it at each of the 256 bytes.\<close>

lemma u8_forall:
  assumes "list_all (\<lambda>n. P (of_nat n)) [0..<256]"
  shows "P (b::u8)"
proof -
  have "unat b < 256" using unsigned_less [of b] by simp
  then have "unat b \<in> set [0..<256]" by simp
  with assms have "P (of_nat (unat b))" unfolding list_all_iff by (rule bspec)
  then show ?thesis by simp
qed

lemma not_bit_nat_small:
  assumes "n < 2 ^ k" "k \<le> i"
  shows "\<not> bit (n::nat) i"
proof -
  have "n < 2 ^ i" using assms by (meson less_le_trans one_le_numeral power_increasing)
  then show ?thesis by (simp add: bit_iff_odd)
qed

lemma nat_and_63: "(n::nat) AND 63 = n mod 64"
proof -
  have "(63::nat) = mask 6" by (simp add: mask_eq_exp_minus_1)
  then have "n AND 63 = take_bit 6 n" by (simp only: take_bit_eq_mask)
  then show ?thesis by (simp add: take_bit_eq_mod)
qed


section \<open>Buffers\<close>

text \<open>\<^verbatim>\<open>memcpy(buf + off, src, len)\<close>, for a source of exactly \<open>len\<close> elements.\<close>

definition mem_write :: "'a list \<Rightarrow> nat \<Rightarrow> 'a list \<Rightarrow> 'a list" where
  "mem_write buf off src = take off buf @ src @ drop (off + length src) buf"

text \<open>\<^verbatim>\<open>memset(buf + off, v, len)\<close>.\<close>

definition mem_set :: "'a list \<Rightarrow> nat \<Rightarrow> 'a \<Rightarrow> nat \<Rightarrow> 'a list" where
  "mem_set buf off v len = mem_write buf off (replicate len v)"

lemma length_mem_write [mem_simps]:
  "off + length src \<le> length buf \<Longrightarrow> length (mem_write buf off src) = length buf"
  by (simp add: mem_write_def)

lemma mem_write_Nil [simp]: "off \<le> length buf \<Longrightarrow> mem_write buf off [] = buf"
  by (simp add: mem_write_def)

lemma take_mem_write [mem_simps]:
  "off \<le> length buf \<Longrightarrow> take (off + length src) (mem_write buf off src) = take off buf @ src"
  by (simp add: mem_write_def)

lemma mem_write_full:
  "off \<le> length buf \<Longrightarrow> length buf \<le> off + length src \<Longrightarrow>
    mem_write buf off src = take off buf @ src"
  by (simp add: mem_write_def)

lemma length_mem_set [mem_simps]:
  "off + len \<le> length buf \<Longrightarrow> length (mem_set buf off v len) = length buf"
  by (simp add: mem_set_def length_mem_write)

lemma take_mem_write_before [mem_simps]:
  "n \<le> off \<Longrightarrow> off \<le> length buf \<Longrightarrow> take n (mem_write buf off src) = take n buf"
  by (simp add: mem_write_def)


lemma mem_write_adjacent:
  "off \<le> length buf \<Longrightarrow> k = off + length xs \<Longrightarrow>
    mem_write (mem_write buf off xs) k ys = mem_write buf off (xs @ ys)"
  by (simp add: mem_write_def ac_simps)

lemma mem_set_after_write:
  "off \<le> length buf \<Longrightarrow> k = off + length xs \<Longrightarrow>
    mem_set (mem_write buf off xs) k v n = mem_write buf off (xs @ replicate n v)"
  by (simp add: mem_set_def mem_write_adjacent)

lemma mem_write_to_end:
  "off \<le> length buf \<Longrightarrow> off + length xs = length buf \<Longrightarrow> mem_write buf off xs = take off buf @ xs"
  by (simp add: mem_write_def)


text \<open>A loop that reads every element by index maps over the list.\<close>

lemma map_nth_upt: "length xs = n \<Longrightarrow> map (\<lambda>i. f (xs ! i)) [0..<n] = map f xs"
  by (rule nth_equalityI) simp_all


section \<open>Block decomposition\<close>

text \<open>The full blocks of a byte string, and what is left after them.\<close>

definition full_len :: "nat \<Rightarrow> 'a list \<Rightarrow> nat" where
  "full_len bs xs = bs * (length xs div bs)"

definition full_part :: "nat \<Rightarrow> 'a list \<Rightarrow> 'a list" where
  "full_part bs xs = take (full_len bs xs) xs"

definition rest_part :: "nat \<Rightarrow> 'a list \<Rightarrow> 'a list" where
  "rest_part bs xs = drop (full_len bs xs) xs"

lemma mod_0_if_le: "(n::nat) \<le> b * (n div b) \<Longrightarrow> n mod b = 0"
  by (metis diff_is_0_eq minus_mult_div_eq_mod)

lemma full_rest [simp]: "full_part bs xs @ rest_part bs xs = xs"
  by (simp add: full_part_def rest_part_def)

lemma full_len_le: "full_len bs xs \<le> length xs"
  by (simp add: full_len_def)

lemma length_rest_part [block_simps]: "length (rest_part bs xs) = length xs mod bs"
  by (simp add: rest_part_def full_len_def minus_mult_div_eq_mod)

lemma length_full_part [block_simps]: "length (full_part bs xs) = full_len bs xs"
  by (simp add: full_part_def full_len_le min_absorb2)

lemma full_len_small [block_simps]: "length xs < bs \<Longrightarrow> full_len bs xs = 0"
  by (simp add: full_len_def)

lemma rest_part_small [block_simps]: "length xs < bs \<Longrightarrow> rest_part bs xs = xs"
  by (simp add: rest_part_def full_len_small)

lemma length_div_append_full:
  assumes "0 < bs" "length xs = bs * q"
  shows "length (xs @ ys) div bs = q + length ys div bs"
  using assms by simp

lemma rest_part_append_full:
  assumes "0 < bs" "length xs = bs * q"
  shows "rest_part bs (xs @ ys) = rest_part bs ys"
  using assms by (simp add: rest_part_def full_len_def distrib_left)

text \<open>
  The blocks as a list, of which only the last may be short: the way every
  \<^verbatim>\<open>while (len)\<close> loop of the library walks a message.
\<close>

function chunks :: "nat \<Rightarrow> 'a list \<Rightarrow> 'a list list" where
  "chunks n xs = (if xs = [] \<or> n = 0 then [] else take n xs # chunks n (drop n xs))"
  by pat_completeness auto
termination
  by (relation "measure (\<lambda>(n, xs). length xs)") auto

declare chunks.simps [simp del]

lemma chunks_Nil [simp]: "chunks n [] = []"
  by (simp add: chunks.simps)

lemma chunks_step:
  "xs \<noteq> [] \<Longrightarrow> 0 < n \<Longrightarrow> chunks n xs = take n xs # chunks n (drop n xs)"
  by (simp add: chunks.simps [of n xs])

lemma concat_chunks [simp]: "0 < n \<Longrightarrow> concat (chunks n xs) = xs"
proof (induction n xs rule: chunks.induct)
  case (1 n xs)
  then show ?case by (cases "xs = []") (simp_all add: chunks_step)
qed

lemma chunks_append:
  assumes "0 < n" "length xs = n"
  shows "chunks n (xs @ ys) = xs # chunks n ys"
proof -
  from assms have "xs @ ys \<noteq> []" by auto
  with assms show ?thesis by (simp add: chunks_step)
qed

end
