(* ===== verification/Gm_Mem.thy ===== *)
theory Gm_Mem
  imports Prelude
begin

text \<open>
  GmSSL, \<^verbatim>\<open>src/hex.c\<close>: hexadecimal decoding and the byte-string helpers that live in
  the same file. A C string is its bytes without the terminating zero.
\<close>

section \<open>Hexadecimal digits\<close>

text \<open>The switch of \<^verbatim>\<open>OPENSSL_hexchar2int\<close>, over the character codes.\<close>

definition OPENSSL_hexchar2int :: "u8 \<Rightarrow> int" where
  "OPENSSL_hexchar2int c =
     (if c = 0x30 then 0 else if c = 0x31 then 1 else if c = 0x32 then 2 else if c = 0x33 then 3
      else if c = 0x34 then 4 else if c = 0x35 then 5 else if c = 0x36 then 6
      else if c = 0x37 then 7 else if c = 0x38 then 8 else if c = 0x39 then 9
      else if c = 0x61 \<or> c = 0x41 then 0x0A else if c = 0x62 \<or> c = 0x42 then 0x0B
      else if c = 0x63 \<or> c = 0x43 then 0x0C else if c = 0x64 \<or> c = 0x44 then 0x0D
      else if c = 0x65 \<or> c = 0x45 then 0x0E else if c = 0x66 \<or> c = 0x46 then 0x0F
      else -1)"

text \<open>
  The loop of \<^verbatim>\<open>OPENSSL_hexstr2buf\<close>; \<open>None\<close> is a null result. \<^verbatim>\<open>malloc\<close> is taken to
  succeed.
\<close>

fun OPENSSL_hexstr2buf :: "bytes \<Rightarrow> bytes option" where
  "OPENSSL_hexstr2buf [] = Some []"
| "OPENSSL_hexstr2buf (ch # p) =
     (if ch = 0x3A then OPENSSL_hexstr2buf p
      else case p of
        [] \<Rightarrow> None
      | cl # p' \<Rightarrow>
          let cli = OPENSSL_hexchar2int cl; chi = OPENSSL_hexchar2int ch in
          if cli < 0 \<or> chi < 0 then None
          else map_option (\<lambda>q. word_of_int (push_bit 4 chi OR cli) # q) (OPENSSL_hexstr2buf p'))"

text \<open>\<^verbatim>\<open>char\<close> is signed here: the comparisons are those of the two's complement value.\<close>

definition hexchar2int :: "u8 \<Rightarrow> int" where
  "hexchar2int c =
     (let c = sint c in
      if 0x30 \<le> c \<and> c \<le> 0x39 then c - 0x30
      else if 0x61 \<le> c \<and> c \<le> 0x66 then c - 0x61 + 10
      else if 0x41 \<le> c \<and> c \<le> 0x46 then c - 0x41 + 10
      else -1)"

text \<open>The loop of \<^verbatim>\<open>hex2bin\<close> on an input of even length; \<open>None\<close> is the result \<^verbatim>\<open>-1\<close>.\<close>

fun hex2bin_loop :: "bytes \<Rightarrow> bytes option" where
  "hex2bin_loop (a # b # p) =
     (let c = hexchar2int a in
      if c < 0 then None
      else let x = push_bit 4 (word_of_int c :: u8); c = hexchar2int b in
        if c < 0 then None
        else map_option (\<lambda>out. (x OR word_of_int c) # out) (hex2bin_loop p))"
| "hex2bin_loop _ = Some []"

definition hex2bin :: "bytes \<Rightarrow> bytes option" where
  "hex2bin str = (if length str mod 2 \<noteq> 0 then None else hex2bin_loop str)"

definition hex_to_bytes :: "bytes \<Rightarrow> bytes option \<times> nat" where
  "hex_to_bytes str = (hex2bin str, length str div 2)"


section \<open>Byte strings\<close>

text \<open>\<^verbatim>\<open>memxor(r, a, len)\<close> is the new \<^verbatim>\<open>r\<close>.\<close>

definition memxor :: "bytes \<Rightarrow> bytes \<Rightarrow> nat \<Rightarrow> bytes" where
  "memxor r a len = map2 (XOR) (take len r) (take len a) @ drop len r"

text \<open>\<^verbatim>\<open>gmssl_memxor(r, a, b, len)\<close>: the \<open>len\<close> bytes written to \<^verbatim>\<open>r\<close>.\<close>

definition gmssl_memxor :: "bytes \<Rightarrow> bytes \<Rightarrow> nat \<Rightarrow> bytes" where
  "gmssl_memxor a b len = map2 (XOR) (take len a) (take len b)"

definition gmssl_secure_memcmp :: "bytes \<Rightarrow> bytes \<Rightarrow> nat \<Rightarrow> int" where
  "gmssl_secure_memcmp a b len =
     uint (fold (\<lambda>i x. x OR (a ! i XOR b ! i)) [0..<len] (0::u8))"

definition mem_is_zero :: "bytes \<Rightarrow> nat \<Rightarrow> bool" where
  "mem_is_zero buf len = fold (\<lambda>i ret. if buf ! i \<noteq> 0 then False else ret) [0..<len] True"


section \<open>Exclusive or\<close>

lemma length_memxor [simp]: "len \<le> length r \<Longrightarrow> len \<le> length a \<Longrightarrow> length (memxor r a len) = length r"
  by (simp add: memxor_def)

lemma length_gmssl_memxor [simp]:
  "length (gmssl_memxor a b len) = min (min (length a) len) (min (length b) len)"
  by (simp add: gmssl_memxor_def)

lemma map2_xor_cancel:
  "length a = length b \<Longrightarrow> map2 (XOR) (map2 (XOR) a b) b = (a :: 'a::len word list)"
  by (induction a b rule: list_induct2) (simp_all add: xor.assoc)

lemma map2_xor_commute: "map2 (XOR) a b = map2 (XOR) b (a :: 'a::len word list)"
proof (induction a arbitrary: b)
  case (Cons x a)
  then show ?case by (cases b) (simp_all add: xor.commute)
qed simp

lemma memxor_memxor:
  assumes "len \<le> length r" "len \<le> length a"
  shows "memxor (memxor r a len) a len = r"
  using assms by (simp add: memxor_def map2_xor_cancel)

lemma memxor_full: "length a = length r \<Longrightarrow> memxor r a (length r) = map2 (XOR) r a"
  by (simp add: memxor_def)


section \<open>Comparison\<close>

lemma fold_or_xor_zero:
  "fold (\<lambda>i x. x OR (a ! i XOR b ! i)) is c = 0 \<longleftrightarrow> c = 0 \<and> (\<forall>i\<in>set is. a ! i = (b ! i :: u8))"
proof (induction "is" arbitrary: c)
  case (Cons i "is")
  then show ?case by (auto simp: or_eq_0_iff word_xor_eq_0_iff)
qed simp

lemma secure_memcmp_zero:
  "gmssl_secure_memcmp a b len = 0 \<longleftrightarrow> (\<forall>i<len. a ! i = b ! i)"
  unfolding gmssl_secure_memcmp_def uint_0_iff fold_or_xor_zero by auto

lemma mem_is_zero_iff: "mem_is_zero buf len \<longleftrightarrow> (\<forall>i<len. buf ! i = 0)"
proof -
  have "fold (\<lambda>i ret. if buf ! i \<noteq> 0 then False else ret) is r \<longleftrightarrow> r \<and> (\<forall>i\<in>set is. buf ! i = 0)"
    for "is" r by (induction "is" arbitrary: r) auto
  then show ?thesis unfolding mem_is_zero_def by auto
qed


section \<open>Decoding\<close>

text \<open>The two digit decoders, one a switch and one three range tests, are one function.\<close>

lemma sint_u8: "sint (c::u8) = (uint c + 128) mod 256 - 128"
  by (simp add: sint_uint signed_take_bit_eq_take_bit_shift take_bit_eq_mod)

lemma sint_u8_cases: "sint (c::u8) = (if uint c < 128 then uint c else uint c - 256)"
proof -
  have r: "0 \<le> uint c" "uint c < 256" using uint_lt2p [of c] by simp_all
  show ?thesis
  proof (cases "uint c < 128")
    case False
    then have "(uint c + 128) mod 256 = uint c - 128"
      using mod_add_self2 [of "uint c - 128" 256] r by (simp add: algebra_simps)
    with False show ?thesis by (simp add: sint_u8)
  qed (use r in \<open>simp add: sint_u8\<close>)
qed

lemma hex_ranges:
  fixes i :: int
  shows "48 \<le> i \<Longrightarrow> i \<le> 57 \<Longrightarrow> i \<in> {48, 49, 50, 51, 52, 53, 54, 55, 56, 57}"
    and "97 \<le> i \<Longrightarrow> i \<le> 102 \<Longrightarrow> i \<in> {97, 98, 99, 100, 101, 102}"
    and "65 \<le> i \<Longrightarrow> i \<le> 70 \<Longrightarrow> i \<in> {65, 66, 67, 68, 69, 70}"
  unfolding insert_iff empty_iff by presburger+

lemma hexchar2int_agree: "OPENSSL_hexchar2int c = hexchar2int c"
proof -
  define i where "i = uint c"
  have eq: "c = word_of_int i" by (simp add: i_def)
  have s: "sint c = (if i < 128 then i else i - 256)" by (simp add: sint_u8_cases i_def)
  consider (digit) "i \<in> {48, 49, 50, 51, 52, 53, 54, 55, 56, 57}"
    | (lower) "i \<in> {97, 98, 99, 100, 101, 102}" | (upper) "i \<in> {65, 66, 67, 68, 69, 70}"
    | (other) "i \<notin> {48, 49, 50, 51, 52, 53, 54, 55, 56, 57}" "i \<notin> {97, 98, 99, 100, 101, 102}"
      "i \<notin> {65, 66, 67, 68, 69, 70}"
    by blast
  then show ?thesis
  proof cases
    case other
    then have "OPENSSL_hexchar2int c = -1"
      unfolding OPENSSL_hexchar2int_def word_uint_eq_iff [of c] i_def [symmetric] by simp
    moreover from other have "\<not> (48 \<le> i \<and> i \<le> 57)" "\<not> (97 \<le> i \<and> i \<le> 102)" "\<not> (65 \<le> i \<and> i \<le> 70)"
      using hex_ranges [of i] by blast+
    moreover have "\<not> 0 \<le> i - 256" using uint_lt2p [of c] by (simp add: i_def)
    ultimately show ?thesis unfolding hexchar2int_def Let_def s by simp
  qed (auto simp: eq OPENSSL_hexchar2int_def hexchar2int_def)
qed

lemma hexchar2int_range: "hexchar2int c < 16"
  by (simp add: hexchar2int_def Let_def)

lemma word_of_int_shift_or:
  "word_of_int (push_bit 4 x OR y) = (push_bit 4 (word_of_int x) OR word_of_int y :: u8)"
  by (rule bit_word_eqI) (auto simp: bit_simps)

lemma hex2bin_loop_length: "hex2bin_loop str = Some out \<Longrightarrow> length out = length str div 2"
  by (induction str arbitrary: out rule: hex2bin_loop.induct)
    (auto simp: Let_def split: if_splits)

lemma hexstr2buf_length: "OPENSSL_hexstr2buf str = Some out \<Longrightarrow> length out \<le> length str div 2"
proof (induction str arbitrary: out rule: OPENSSL_hexstr2buf.induct)
  case (2 ch p)
  show ?case
  proof (cases "ch = 0x3A")
    case True
    with 2 have "length out \<le> length p div 2" by simp
    then show ?thesis by (simp add: div_le_mono le_trans [OF _ div_le_mono])
  next
    case False
    with "2.prems" obtain cl p' q where "p = cl # p'" "OPENSSL_hexstr2buf p' = Some q"
      "length out = Suc (length q)"
      by (auto simp: Let_def split: list.splits if_splits)
    with 2(2) [OF False, of cl p'] show ?thesis
      using "2.prems" False by (fastforce simp: Let_def split: if_splits)
  qed
qed simp

lemma hexstr2buf_hex2bin:
  "0x3A \<notin> set str \<Longrightarrow> OPENSSL_hexstr2buf str = hex2bin str"
proof (induction str rule: hex2bin_loop.induct)
  case (1 a b p)
  then show ?case
    by (auto simp: hex2bin_def Let_def hexchar2int_agree word_of_int_shift_or)
qed (auto simp: hex2bin_def)

text \<open>Encoding, as a reference: two lower-case digits per byte.\<close>

definition hex_digit :: "nat \<Rightarrow> u8" where
  "hex_digit n = (if n < 10 then of_nat (0x30 + n) else of_nat (0x61 + n - 10))"

definition hex_encode :: "bytes \<Rightarrow> bytes" where
  "hex_encode bs = concat (map (\<lambda>b. [hex_digit (unat b div 16), hex_digit (unat b mod 16)]) bs)"

lemma hexchar2int_hex_digit: "n < 16 \<Longrightarrow> hexchar2int (hex_digit n) = int n"
proof -
  have "list_all (\<lambda>n. hexchar2int (hex_digit n) = int n) [0..<16]" by code_simp
  then show "n < 16 \<Longrightarrow> ?thesis" by (simp add: list_all_iff)
qed

lemma nibbles_of_byte:
  "push_bit 4 (of_nat (unat b div 16)) OR of_nat (unat b mod 16) = (b::u8)"
proof -
  have "unat b div 16 = unat (drop_bit 4 b)" "unat b mod 16 = unat (take_bit 4 b)"
    by (simp_all add: drop_bit_eq_div take_bit_eq_mod unat_div unat_mod)
  then have "push_bit 4 (of_nat (unat b div 16)) OR of_nat (unat b mod 16)
      = push_bit 4 (drop_bit 4 b) OR take_bit 4 b" by simp
  also have "\<dots> = b" by (rule bit_word_eqI) (auto simp: bit_simps)
  finally show ?thesis .
qed

lemma hex2bin_hex_encode: "hex2bin (hex_encode bs) = Some bs"
proof -
  have "hex2bin_loop (hex_encode bs) = Some bs"
  proof (induction bs)
    case (Cons b bs)
    have "unat b < 256" using unsigned_less [of b, where ?'a = nat] by simp
    then have "unat b div 16 < 16" by simp
    with Cons show ?case
      by (simp add: hex_encode_def hexchar2int_hex_digit nibbles_of_byte)
  qed (simp add: hex_encode_def)
  moreover have "even (length (hex_encode bs))"
    by (induction bs) (simp_all add: hex_encode_def)
  ultimately show ?thesis by (simp add: hex2bin_def even_iff_mod_2_eq_zero)
qed


section \<open>Properties\<close>

text \<open>
  Hexadecimal decoding inverts encoding; on input without colons the decoder taken
  from OpenSSL and the library's own are the same function, errors included; and
  what \<^verbatim>\<open>OPENSSL_hexstr2buf\<close> writes fits the \<^verbatim>\<open>len >> 1\<close> bytes it allocates.
\<close>

theorem hex_decoders_correct:
  "hex2bin (hex_encode bs) = Some bs
   \<and> (0x3A \<notin> set str \<longrightarrow> OPENSSL_hexstr2buf str = hex2bin str)
   \<and> (OPENSSL_hexstr2buf str = Some out \<longrightarrow> length out \<le> length str div 2)"
  using hex2bin_hex_encode hexstr2buf_hex2bin hexstr2buf_length by blast

theorem hex_decoders_correct_witness:
  "OPENSSL_hexstr2buf [0x31, 0x41] = Some [0x1A] \<and> length [0x1A] \<le> length [0x31, 0x41] div 2
   \<and> hex2bin [0x31, 0x41] = Some [0x1A]"
proof -
  have 1: "OPENSSL_hexstr2buf [0x31, 0x41] = Some [0x1A]" by code_simp
  from 1 show ?thesis using hex_decoders_correct [of "[]" "[0x31, 0x41]" "[0x1A]"] by simp
qed

text \<open>
  The constant-time comparison returns 0 exactly when the first \<open>len\<close> bytes agree,
  the zero test is exact, and xor-ing the same bytes in twice restores the buffer.
\<close>

theorem memory_helpers_correct:
  assumes "len \<le> length a" "len \<le> length b"
  shows "(gmssl_secure_memcmp a b len = 0 \<longleftrightarrow> take len a = take len b)
    \<and> (mem_is_zero a len \<longleftrightarrow> take len a = replicate len 0)
    \<and> memxor (memxor a b len) b len = a"
  using assms memxor_memxor [of len a b]
  by (simp add: secure_memcmp_zero mem_is_zero_iff list_eq_iff_nth_eq)

theorem memory_helpers_correct_witness:
  "(gmssl_secure_memcmp [1, 2] [1, 3] 2 = 0 \<longleftrightarrow> take 2 [1, 2::u8] = take 2 [1, 3])
    \<and> memxor (memxor [1, 2] [1, 3] 2) [1, 3] 2 = [1, 2]"
  using memory_helpers_correct [of 2 "[1, 2]" "[1, 3]"] by simp

end
