(* ===== verification/Gm_Base64.thy ===== *)
theory Gm_Base64
  imports Gm_Mem
begin

text \<open>
  GmSSL, \<^verbatim>\<open>src/base64.c\<close>: the block coder, and the streaming encoder and decoder with
  their context of at most 80 pending bytes. The encoder is shown to give, for every split
  of the message, the lines of 64 characters; the decoder is shown to give the message back
  for every split of that text.

  An output pointer is the list of the bytes counted by the length the function
  reports; the terminating NUL the encoder stores after them is outside that length.
\<close>

section \<open>Character tables\<close>

definition data_bin2ascii :: bytes where
  "data_bin2ascii = map of_char (''ABCDEFGHIJKLMNOPQRSTUVWXYZ'' @
     ''abcdefghijklmnopqrstuvwxyz0123456789+/'')"

definition conv_bin2ascii :: "u64 \<Rightarrow> u8" where
  "conv_bin2ascii a = data_bin2ascii ! unat (a AND 0x3f)"

definition B64_EOLN :: u8 where "B64_EOLN = 0xF0"
definition B64_CR :: u8 where "B64_CR = 0xF1"
definition B64_EOF :: u8 where "B64_EOF = 0xF2"
definition B64_WS :: u8 where "B64_WS = 0xE0"
definition B64_ERROR :: u8 where "B64_ERROR = 0xFF"

definition B64_NOT_BASE64 :: "u8 \<Rightarrow> bool" where
  "B64_NOT_BASE64 a \<longleftrightarrow> (a OR 0x13) = 0xF3"

definition B64_BASE64 :: "u8 \<Rightarrow> bool" where
  "B64_BASE64 a \<longleftrightarrow> \<not> B64_NOT_BASE64 a"

definition data_ascii2bin :: bytes where
  "data_ascii2bin = concat [
    [0xFF, 0xFF, 0xFF, 0xFF, 0xFF, 0xFF, 0xFF, 0xFF],
    [0xFF, 0xE0, 0xF0, 0xFF, 0xFF, 0xF1, 0xFF, 0xFF],
    [0xFF, 0xFF, 0xFF, 0xFF, 0xFF, 0xFF, 0xFF, 0xFF],
    [0xFF, 0xFF, 0xFF, 0xFF, 0xFF, 0xFF, 0xFF, 0xFF],
    [0xE0, 0xFF, 0xFF, 0xFF, 0xFF, 0xFF, 0xFF, 0xFF],
    [0xFF, 0xFF, 0xFF, 0x3E, 0xFF, 0xF2, 0xFF, 0x3F],
    [0x34, 0x35, 0x36, 0x37, 0x38, 0x39, 0x3A, 0x3B],
    [0x3C, 0x3D, 0xFF, 0xFF, 0xFF, 0x00, 0xFF, 0xFF],
    [0xFF, 0x00, 0x01, 0x02, 0x03, 0x04, 0x05, 0x06],
    [0x07, 0x08, 0x09, 0x0A, 0x0B, 0x0C, 0x0D, 0x0E],
    [0x0F, 0x10, 0x11, 0x12, 0x13, 0x14, 0x15, 0x16],
    [0x17, 0x18, 0x19, 0xFF, 0xFF, 0xFF, 0xFF, 0xFF],
    [0xFF, 0x1A, 0x1B, 0x1C, 0x1D, 0x1E, 0x1F, 0x20],
    [0x21, 0x22, 0x23, 0x24, 0x25, 0x26, 0x27, 0x28],
    [0x29, 0x2A, 0x2B, 0x2C, 0x2D, 0x2E, 0x2F, 0x30],
    [0x31, 0x32, 0x33, 0xFF, 0xFF, 0xFF, 0xFF, 0xFF]]"

definition conv_ascii2bin :: "u8 \<Rightarrow> u8" where
  "conv_ascii2bin a = (if a AND 0x80 \<noteq> 0 then B64_ERROR else data_ascii2bin ! unat a)"


section \<open>Context and encoder\<close>

record BASE64_CTX =
  b64_num :: nat
  b64_length :: nat
  b64_enc_data :: bytes
  b64_line_num :: int
  b64_expect_nl :: int

definition base64_ctx_num :: "BASE64_CTX \<Rightarrow> nat" where
  "base64_ctx_num ctx = b64_num ctx"

definition base64_encode_init :: "BASE64_CTX \<Rightarrow> BASE64_CTX" where
  "base64_encode_init ctx = ctx\<lparr>b64_length := 48, b64_num := 0, b64_line_num := 0\<rparr>"

text \<open>One round of the loop takes three bytes, the last one or two bytes with \<^verbatim>\<open>=\<close> for the rest.\<close>

fun base64_encode_block :: "bytes \<Rightarrow> bytes" where
  "base64_encode_block [] = []"
| "base64_encode_block [f0] =
     (let l = push_bit 16 (ucast f0 :: u64)
      in [conv_bin2ascii (drop_bit 18 l), conv_bin2ascii (drop_bit 12 l), of_char CHR ''='',
          of_char CHR ''=''])"
| "base64_encode_block [f0, f1] =
     (let l = push_bit 16 (ucast f0 :: u64) OR push_bit 8 (ucast f1)
      in [conv_bin2ascii (drop_bit 18 l), conv_bin2ascii (drop_bit 12 l),
          conv_bin2ascii (drop_bit 6 l), of_char CHR ''=''])"
| "base64_encode_block (f0 # f1 # f2 # f) =
     (let l = push_bit 16 (ucast f0 :: u64) OR push_bit 8 (ucast f1) OR ucast f2
      in conv_bin2ascii (drop_bit 18 l) # conv_bin2ascii (drop_bit 12 l) #
         conv_bin2ascii (drop_bit 6 l) # conv_bin2ascii l # base64_encode_block f)"

definition BASE64_ENCODE_LENGTH :: "nat \<Rightarrow> nat" where
  "BASE64_ENCODE_LENGTH l = ((l + 2) div 3 * 4) + (l div 48 + 1) * 2 + 80"

definition INT_MAX :: nat where "INT_MAX = 2147483647"

text \<open>The loop over whole lines: the input that is left, the output and its length so far.\<close>

function base64_encode_lines :: "nat \<Rightarrow> bytes \<Rightarrow> bytes \<Rightarrow> nat \<Rightarrow> bytes \<times> bytes \<times> nat" where
  "base64_encode_lines len inp out tot =
     (if len \<le> length inp \<and> tot \<le> INT_MAX then
        let j = base64_encode_block (take len inp)
        in base64_encode_lines len (drop len inp) (out @ j @ [of_char CHR 0x0A])
             (tot + (length j + 1))
      else (inp, out, tot))"
  by pat_completeness auto
termination
  by (relation "measure (\<lambda>(len, inp, out, tot). INT_MAX + 1 - tot)") auto

declare base64_encode_lines.simps [simp del]

text \<open>
  The return value, the context, and the \<^verbatim>\<open>*outl\<close> bytes of output; first the part of the update
  from the \<^verbatim>\<open>while\<close> loop on.
\<close>

definition base64_encode_rest ::
  "BASE64_CTX \<Rightarrow> bytes \<Rightarrow> bytes \<Rightarrow> nat \<Rightarrow> int \<times> BASE64_CTX \<times> bytes" where
  "base64_encode_rest ctx inp out tot =
     (let (inp, out, tot) = base64_encode_lines (b64_length ctx) inp out tot
      in if tot > INT_MAX then (0, ctx, [])
         else
           let ctx = (if inp \<noteq> [] then ctx\<lparr>b64_enc_data := mem_write (b64_enc_data ctx) 0 inp\<rparr>
                      else ctx)
           in (1, ctx\<lparr>b64_num := length inp\<rparr>, out))"

definition base64_encode_update :: "BASE64_CTX \<Rightarrow> bytes \<Rightarrow> int \<times> BASE64_CTX \<times> bytes" where
  "base64_encode_update ctx inp =
     (if inp = [] then (0, ctx, [])
      else if int (b64_length ctx) - int (b64_num ctx) > int (length inp) then
        (1, ctx\<lparr>b64_enc_data := mem_write (b64_enc_data ctx) (b64_num ctx) inp,
                b64_num := b64_num ctx + length inp\<rparr>, [])
      else if b64_num ctx \<noteq> 0 then
        let i = b64_length ctx - b64_num ctx;
            ctx = ctx\<lparr>b64_enc_data := mem_write (b64_enc_data ctx) (b64_num ctx) (take i inp)\<rparr>;
            j = base64_encode_block (take (b64_length ctx) (b64_enc_data ctx))
        in base64_encode_rest (ctx\<lparr>b64_num := 0\<rparr>) (drop i inp)
             (j @ [of_char CHR 0x0A]) (length j + 1)
      else base64_encode_rest ctx inp [] 0)"

definition base64_encode_finish :: "BASE64_CTX \<Rightarrow> BASE64_CTX \<times> bytes" where
  "base64_encode_finish ctx =
     (if b64_num ctx \<noteq> 0
      then (ctx\<lparr>b64_num := 0\<rparr>,
            base64_encode_block (take (b64_num ctx) (b64_enc_data ctx)) @ [of_char CHR 0x0A])
      else (ctx, []))"


section \<open>Decoder\<close>

definition base64_decode_init :: "BASE64_CTX \<Rightarrow> BASE64_CTX" where
  "base64_decode_init ctx =
     ctx\<lparr>b64_num := 0, b64_length := 0, b64_line_num := 0, b64_expect_nl := 0\<rparr>"

text \<open>The two trimming loops and the loop over groups of four, \<^const>\<open>None\<close> for \<^verbatim>\<open>-1\<close>.\<close>

fun base64_strip :: "bytes \<Rightarrow> bytes" where
  "base64_strip f =
     (if length f > 3 \<and> B64_NOT_BASE64 (conv_ascii2bin (last f)) then base64_strip (butlast f) else f)"

declare base64_strip.simps [simp del]

fun base64_decode_quads :: "bytes \<Rightarrow> bytes option" where
  "base64_decode_quads (f0 # f1 # f2 # f3 # f) =
     (let a = conv_ascii2bin f0; b = conv_ascii2bin f1; c = conv_ascii2bin f2; d = conv_ascii2bin f3
      in if a AND 0x80 \<noteq> 0 \<or> b AND 0x80 \<noteq> 0 \<or> c AND 0x80 \<noteq> 0 \<or> d AND 0x80 \<noteq> 0 then None
         else
           let l = push_bit 18 (ucast a :: u64) OR push_bit 12 (ucast b) OR
                   push_bit 6 (ucast c) OR ucast d
           in map_option (\<lambda>t. ucast (drop_bit 16 l) # ucast (drop_bit 8 l) # ucast l # t)
                (base64_decode_quads f))"
| "base64_decode_quads _ = Some []"

definition base64_decode_block :: "bytes \<Rightarrow> bytes option" where
  "base64_decode_block f =
     (let f = dropWhile (\<lambda>c. conv_ascii2bin c = B64_WS) f;
          f = base64_strip f
      in if length f mod 4 \<noteq> 0 then None else base64_decode_quads f)"

text \<open>
  The state of the scan: the pending characters \<^verbatim>\<open>d\<close> and their number \<^verbatim>\<open>n\<close>, the count of padding
  characters, the output. A scan leaves by \<^verbatim>\<open>goto end\<close> with \<^verbatim>\<open>rv = -1\<close>, or reaches \<^verbatim>\<open>tail\<close>.
\<close>

record b64_scan =
  scan_d :: bytes
  scan_n :: nat
  scan_eof :: nat
  scan_out :: bytes

datatype b64_exit = Goto_End b64_scan | Goto_Tail bool b64_scan

text \<open>The flush of the pending characters, in the loop and at the tail.\<close>

definition base64_flush :: "b64_scan \<Rightarrow> b64_scan option" where
  "base64_flush s =
     (case base64_decode_block (take (scan_n s) (scan_d s)) of
        None \<Rightarrow> None
      | Some t \<Rightarrow>
          if scan_eof s > length t then None
          else Some (s\<lparr>scan_n := 0, scan_out := scan_out s @ take (length t - scan_eof s) t\<rparr>))"

primrec base64_scan :: "bytes \<Rightarrow> b64_scan \<Rightarrow> b64_exit" where
  "base64_scan [] s = Goto_Tail False s"
| "base64_scan (tmp # inp) s =
     (let v = conv_ascii2bin tmp in
      if v = B64_ERROR then Goto_End s
      else
        let old = scan_eof s;
            s = (if tmp = of_char CHR ''='' then s\<lparr>scan_eof := scan_eof s + 1\<rparr> else s) in
        if tmp \<noteq> of_char CHR ''='' \<and> old > 0 \<and> B64_BASE64 v then Goto_End s
        else if scan_eof s > 2 then Goto_End s
        else if v = B64_EOF then Goto_Tail True s
        else if B64_BASE64 v \<and> scan_n s \<ge> 64 then Goto_End s
        else
          let s = (if B64_BASE64 v
                   then s\<lparr>scan_d := mem_write (scan_d s) (scan_n s) [tmp], scan_n := scan_n s + 1\<rparr>
                   else s) in
          if scan_n s = 64
          then (case base64_flush s of
                  None \<Rightarrow> Goto_End (s\<lparr>scan_n := 0\<rparr>)
                | Some s' \<Rightarrow> base64_scan inp s')
          else base64_scan inp s)"

text \<open>The code from \<^verbatim>\<open>tail\<close> on: the return value and the final scan state.\<close>

definition base64_tail :: "bool \<Rightarrow> b64_scan \<Rightarrow> int \<times> b64_scan" where
  "base64_tail seof s =
     (let rv = (\<lambda>s. if seof \<or> (scan_n s = 0 \<and> scan_eof s \<noteq> 0) then 0 else 1) in
      if scan_n s > 0 then
        if scan_n s AND 3 = 0 then
          (case base64_flush s of
             None \<Rightarrow> (-1, s\<lparr>scan_n := 0\<rparr>)
           | Some s' \<Rightarrow> (rv s', s'))
        else if seof then (-1, s)
        else (rv s, s)
      else (rv s, s))"

definition base64_decode_update :: "BASE64_CTX \<Rightarrow> bytes \<Rightarrow> int \<times> BASE64_CTX \<times> bytes" where
  "base64_decode_update ctx inp =
     (let n = b64_num ctx; d = b64_enc_data ctx;
          eof = (if n > 0 \<and> d ! (n - 1) = of_char CHR ''=''
                 then (if n > 1 \<and> d ! (n - 2) = of_char CHR ''='' then 2 else 1) else 0);
          s = \<lparr>scan_d = d, scan_n = n, scan_eof = eof, scan_out = []\<rparr>;
          (rv, s) = (if inp = [] then (0, s)
                     else case base64_scan inp s of
                            Goto_End s \<Rightarrow> (-1, s)
                          | Goto_Tail seof s \<Rightarrow> base64_tail seof s)
      in (rv, ctx\<lparr>b64_enc_data := scan_d s, b64_num := scan_n s\<rparr>, scan_out s))"

definition base64_decode_finish :: "BASE64_CTX \<Rightarrow> int \<times> BASE64_CTX \<times> bytes" where
  "base64_decode_finish ctx =
     (if b64_num ctx \<noteq> 0 then
        (case base64_decode_block (take (b64_num ctx) (b64_enc_data ctx)) of
           None \<Rightarrow> (-1, ctx, [])
         | Some t \<Rightarrow> (1, ctx\<lparr>b64_num := 0\<rparr>, t))
      else (1, ctx, []))"


section \<open>Characters\<close>

abbreviation eqc :: u8 where "eqc \<equiv> 61"
abbreviation nlc :: u8 where "nlc \<equiv> 10"

text \<open>What the decoder's table says of the characters of encoded text.\<close>

lemma conv_bin2ascii_table:
  "list_all (\<lambda>n. let c = data_bin2ascii ! n in
     c \<noteq> eqc \<and> c \<noteq> nlc \<and> conv_ascii2bin c = of_nat n) [0..<64]"
  by code_simp

lemma length_data_bin2ascii: "length data_bin2ascii = 64"
  by (simp add: data_bin2ascii_def)

lemma conv_bin2ascii_facts:
  "conv_bin2ascii a \<noteq> eqc" "conv_bin2ascii a \<noteq> nlc"
  "conv_ascii2bin (conv_bin2ascii a) = ucast (a AND 0x3f)"
proof -
  let ?n = "unat (a AND 0x3f)"
  have "a AND 0x3f \<le> 0x3f" by (rule word_and_le1)
  then have "?n \<le> unat (0x3f :: u64)" by (simp only: word_le_nat_alt)
  then have "?n \<in> set [0..<64]" by simp
  with conv_bin2ascii_table have
    "data_bin2ascii ! ?n \<noteq> eqc \<and> data_bin2ascii ! ?n \<noteq> nlc \<and>
      conv_ascii2bin (data_bin2ascii ! ?n) = of_nat ?n"
    unfolding list_all_iff Let_def by (rule bspec)
  then show "conv_bin2ascii a \<noteq> eqc" "conv_bin2ascii a \<noteq> nlc"
    "conv_ascii2bin (conv_bin2ascii a) = ucast (a AND 0x3f)"
    by (simp_all add: conv_bin2ascii_def)
qed

lemma bin_value_facts:
  assumes "v AND 0x80 = 0"
  shows "v \<noteq> B64_ERROR \<and> v \<noteq> B64_EOF \<and> v \<noteq> B64_WS \<and> B64_BASE64 v"
proof -
  have "(v OR 0x13) AND 0x80 = 0" using assms by (simp add: bit.conj_disj_distrib2)
  then have "v OR 0x13 \<noteq> 0xF3" by auto
  with assms show ?thesis
    by (auto simp: B64_ERROR_def B64_EOF_def B64_WS_def B64_BASE64_def B64_NOT_BASE64_def)
qed

lemma and_0x3f: "(a :: 'a::len word) AND 0x3f = take_bit 6 a"
  by (simp add: take_bit_eq_mask mask_eq_exp_minus_1)

lemma conv_bin2ascii_low: "conv_ascii2bin (conv_bin2ascii a) AND 0x80 = 0"
proof -
  have "ucast (a AND 0x3f) = (ucast a :: u8) AND 0x3f"
    unfolding and_0x3f by (rule bit_word_eqI) (simp add: bit_simps)
  then show ?thesis unfolding conv_bin2ascii_facts by (simp add: and.assoc)
qed

lemma eqc_low: "conv_ascii2bin eqc AND 0x80 = 0"
  by code_simp

lemma nlc_value: "conv_ascii2bin nlc = B64_EOLN" "\<not> B64_BASE64 B64_EOLN"
  "B64_EOLN \<noteq> B64_ERROR" "B64_EOLN \<noteq> B64_EOF"
  by code_simp+


section \<open>The block coder\<close>

text \<open>The characters of three bytes, and the bytes of four characters.\<close>

definition b64_group :: "u8 \<Rightarrow> u8 \<Rightarrow> u8 \<Rightarrow> bytes" where
  "b64_group f0 f1 f2 =
     (let l = push_bit 16 (ucast f0 :: u64) OR push_bit 8 (ucast f1) OR ucast f2
      in [conv_bin2ascii (drop_bit 18 l), conv_bin2ascii (drop_bit 12 l),
          conv_bin2ascii (drop_bit 6 l), conv_bin2ascii l])"

definition b64_pad :: "bytes \<Rightarrow> nat" where
  "b64_pad m = (3 - length m mod 3) mod 3"

lemma encode_block_groups:
  "base64_encode_block [] = []"
  "base64_encode_block [f0] = take 2 (b64_group f0 0 0) @ [eqc, eqc]"
  "base64_encode_block [f0, f1] = take 3 (b64_group f0 f1 0) @ [eqc]"
  "base64_encode_block (f0 # f1 # f2 # f) = b64_group f0 f1 f2 @ base64_encode_block f"
  by (simp_all add: b64_group_def Let_def)

declare base64_encode_block.simps [simp del] encode_block_groups [simp]

lemma length_b64_group [simp]: "length (b64_group f0 f1 f2) = 4"
  by (simp add: b64_group_def Let_def)

lemma b64_group_char:
  "c \<in> set (b64_group f0 f1 f2) \<Longrightarrow> c \<noteq> eqc \<and> c \<noteq> nlc \<and> conv_ascii2bin c AND 0x80 = 0"
  using conv_bin2ascii_facts conv_bin2ascii_low by (auto simp: b64_group_def Let_def)

lemma length_encode_block: "length (base64_encode_block m) = 4 * ((length m + 2) div 3)"
proof (induction m rule: base64_encode_block.induct)
  case (4 f0 f1 f2 f)
  have "(5 + length f) div 3 = Suc ((2 + length f) div 3)" by presburger
  with 4 show ?case by simp
qed simp_all

lemma encode_block_char:
  "c \<in> set (base64_encode_block m) \<Longrightarrow> c \<noteq> nlc \<and> conv_ascii2bin c AND 0x80 = 0"
  by (induction m rule: base64_encode_block.induct)
    (auto simp: eqc_low dest!: in_set_takeD b64_group_char)

lemma take_drop_3:
  "take (3 * Suc i) (a # b # c # f) = a # b # c # take (3 * i) f"
  "drop (3 * Suc i) (a # b # c # f) = drop (3 * i) f"
  by (simp_all add: numeral_3_eq_3)

lemma take_encode_block:
  "take (4 * i) (base64_encode_block m) = base64_encode_block (take (3 * i) m)"
proof (induction m arbitrary: i rule: base64_encode_block.induct)
  case (4 f0 f1 f2 f)
  show ?case
  proof (cases i)
    case (Suc k)
    then show ?thesis unfolding Suc take_drop_3 using 4 by simp
  qed simp
qed (case_tac [!] i, simp_all)

lemma drop_encode_block:
  "drop (4 * i) (base64_encode_block m) = base64_encode_block (drop (3 * i) m)"
proof (induction m arbitrary: i rule: base64_encode_block.induct)
  case (4 f0 f1 f2 f)
  show ?case
  proof (cases i)
    case (Suc k)
    then show ?thesis unfolding Suc take_drop_3 using 4 by simp
  qed simp
qed (case_tac [!] i, simp_all)

lemma encode_block_append:
  "length x mod 3 = 0 \<Longrightarrow> base64_encode_block (x @ y) = base64_encode_block x @ base64_encode_block y"
  by (induction x rule: base64_encode_block.induct) simp_all

lemma quad_join:
  fixes l :: u64
  shows "push_bit 18 (ucast (ucast (drop_bit 18 l AND 0x3f) :: u8) :: u64) OR
     push_bit 12 (ucast (ucast (drop_bit 12 l AND 0x3f) :: u8)) OR
     push_bit 6 (ucast (ucast (drop_bit 6 l AND 0x3f) :: u8)) OR ucast (ucast (l AND 0x3f) :: u8)
     = take_bit 24 l" (is "?k = _")
proof (rule bit_word_eqI)
  fix n assume "n < LENGTH(64)"
  consider "n < 6" | "6 \<le> n" "n < 12" | "12 \<le> n" "n < 18" | "18 \<le> n" "n < 24" | "24 \<le> n"
    by linarith
  then show "bit ?k n = bit (take_bit 24 l) n"
    by cases (simp_all add: and_0x3f bit_simps less_diff_conv2 not_less)
qed

lemma quad_bytes:
  fixes b0 b1 b2 :: u8
  defines "k \<equiv> take_bit 24 (push_bit 16 (ucast b0 :: u64) OR push_bit 8 (ucast b1) OR ucast b2)"
  shows "ucast (drop_bit 16 k) = b0" "ucast (drop_bit 8 k) = b1" "ucast k = b2"
  unfolding k_def by (auto intro!: bit_word_eqI simp: bit_simps)


lemma decode_group:
  "base64_decode_quads (b64_group b0 b1 b2 @ f) =
     map_option (\<lambda>t. b0 # b1 # b2 # t) (base64_decode_quads f)"
  by (simp add: b64_group_def Let_def conv_bin2ascii_low del: drop_bit_or)
    (simp only: conv_bin2ascii_facts quad_join quad_bytes)

lemma pad_values: "conv_ascii2bin eqc = 0"
  "conv_ascii2bin (b64_group f0 0 0 ! 2) = 0" "conv_ascii2bin (b64_group f0 f1 0 ! 3) = 0"
proof -
  have 1: "drop_bit 6 (push_bit 16 (ucast f0 :: u64)) AND 0x3f = 0"
    "(push_bit 16 (ucast f0 :: u64) OR push_bit 8 (ucast f1)) AND 0x3f = 0"
    unfolding and_0x3f by (rule bit_word_eqI; simp add: bit_simps)+
  show "conv_ascii2bin eqc = 0" by code_simp
  show "conv_ascii2bin (b64_group f0 0 0 ! 2) = 0" "conv_ascii2bin (b64_group f0 f1 0 ! 3) = 0"
    by (simp_all add: b64_group_def Let_def conv_bin2ascii_facts 1 del: drop_bit_or)
qed

lemma decode_quads_cong:
  "map conv_ascii2bin f = map conv_ascii2bin g \<Longrightarrow> base64_decode_quads f = base64_decode_quads g"
proof (induction f arbitrary: g rule: base64_decode_quads.induct)
  case (1 f0 f1 f2 f3 f)
  from 1(2) obtain g0 g1 g2 g3 g' where g: "g = g0 # g1 # g2 # g3 # g'"
    and "map conv_ascii2bin f = map conv_ascii2bin g'" by (auto simp: Cons_eq_map_conv)
  then have "\<not> (conv_ascii2bin f0 AND 0x80 \<noteq> 0 \<or> conv_ascii2bin f1 AND 0x80 \<noteq> 0 \<or>
      conv_ascii2bin f2 AND 0x80 \<noteq> 0 \<or> conv_ascii2bin f3 AND 0x80 \<noteq> 0) \<Longrightarrow>
      base64_decode_quads f = base64_decode_quads g'"
    using 1(1) by blast
  with 1(2) show ?case by (auto simp: g Let_def)
qed (auto simp: Cons_eq_map_conv map_eq_Cons_conv)

lemma decode_quads_encode:
  "base64_decode_quads (base64_encode_block m) = Some (m @ replicate (b64_pad m) 0)"
proof (induction m rule: base64_encode_block.induct)
  case (2 f0)
  have "map conv_ascii2bin (take 2 (b64_group f0 0 0) @ [eqc, eqc]) =
      map conv_ascii2bin (b64_group f0 0 0 @ [])"
    using pad_values(1,2) pad_values(3) [of f0 0] by (simp add: b64_group_def Let_def)
  from decode_quads_cong [OF this] show ?case
    by (simp only: encode_block_groups decode_group) (simp add: b64_pad_def numeral_2_eq_2)
next
  case (3 f0 f1)
  have "map conv_ascii2bin (take 3 (b64_group f0 f1 0) @ [eqc]) =
      map conv_ascii2bin (b64_group f0 f1 0 @ [])"
    using pad_values(1,3) by (simp add: b64_group_def Let_def)
  from decode_quads_cong [OF this] show ?case
    by (simp only: encode_block_groups decode_group) (simp add: b64_pad_def)
next
  case (4 f0 f1 f2 f)
  then show ?case by (simp add: decode_group b64_pad_def)
qed (simp add: b64_pad_def)

lemma decode_block_encode:
  "base64_decode_block (base64_encode_block m) = Some (m @ replicate (b64_pad m) 0)"
proof -
  let ?C = "base64_encode_block m"
  have "dropWhile (\<lambda>c. conv_ascii2bin c = B64_WS) ?C = ?C"
    using bin_value_facts encode_block_char by (auto simp: dropWhile_eq_self_iff)
  moreover have "base64_strip ?C = ?C"
  proof (cases "?C = []")
    case False
    then have "last ?C \<in> set ?C" by simp
    then have "\<not> B64_NOT_BASE64 (conv_ascii2bin (last ?C))"
      using bin_value_facts encode_block_char unfolding B64_BASE64_def by blast
    then show ?thesis by (simp add: base64_strip.simps)
  qed (simp add: base64_strip.simps)
  ultimately show ?thesis
    by (simp add: base64_decode_block_def decode_quads_encode length_encode_block)
qed


section \<open>Padding characters\<close>

lemma eqc_not_in_group: "eqc \<notin> set (b64_group f0 f1 f2)"
  using b64_group_char by blast

lemma count_group: "count_list (take j (b64_group f0 f1 f2)) eqc = 0"
  unfolding count_list_0_iff using eqc_not_in_group by (blast dest: in_set_takeD)

lemma group_nth: "j < 4 \<Longrightarrow> b64_group f0 f1 f2 ! j \<noteq> eqc"
  using eqc_not_in_group nth_mem [of j "b64_group f0 f1 f2"] by (metis length_b64_group)

lemma count_group_all: "count_list (b64_group f0 f1 f2) eqc = 0"
  using count_group [of 4] by simp

lemma count_encode: "count_list (base64_encode_block m) eqc = b64_pad m"
  by (induction m rule: base64_encode_block.induct)
    (simp_all add: count_group count_group_all b64_pad_def)

lemma less_four: "j < 4 \<Longrightarrow> j = 0 \<or> j = 1 \<or> j = 2 \<or> j = (3::nat)"
  by linarith

lemma encode_block_eq_end:
  assumes "j < length (base64_encode_block m)"
  shows "base64_encode_block m ! j \<noteq> eqc \<Longrightarrow> count_list (take j (base64_encode_block m)) eqc = 0"
    and "base64_encode_block m ! j = eqc \<Longrightarrow> 2 \<le> j mod 4"
  using assms
proof (induction m arbitrary: j rule: base64_encode_block.induct)
  case (2 f0)
  { case 1 then show ?case using less_four [of j] count_group [of _ f0 0 0]
      by (auto simp: nth_append split: if_splits) }
  { case 2 then show ?case using less_four [of j] group_nth [of j f0 0 0]
      by (auto simp: nth_append split: if_splits) }
next
  case (3 f0 f1)
  { case 1 then show ?case using less_four [of j] count_group [of _ f0 f1 0]
      by (auto simp: nth_append split: if_splits) }
  { case 2 then show ?case using less_four [of j] group_nth [of j f0 f1 0]
      by (auto simp: nth_append split: if_splits) }
next
  case (4 f0 f1 f2 f)
  note IH = 4
  { case 1 then show ?case using IH(1) [OF refl, of "j - 4"]
      by (auto simp: nth_append count_group count_group_all split: if_splits) }
  { case 2 then show ?case using IH(2) [OF refl, of "j - 4"] group_nth [of j f0 f1 f2]
      by (auto simp: nth_append le_mod_geq split: if_splits) }
qed simp_all


section \<open>The streaming encoder\<close>

text \<open>The text the encoder stands for: a line per 48 bytes.\<close>

definition b64_line :: "bytes \<Rightarrow> bytes" where
  "b64_line l = base64_encode_block l @ [nlc]"

definition b64_lines :: "bytes \<Rightarrow> bytes" where
  "b64_lines m = concat (map b64_line (chunks 48 m))"

primrec b64_feed ::
  "(BASE64_CTX \<Rightarrow> bytes \<Rightarrow> int \<times> BASE64_CTX \<times> bytes) \<Rightarrow> BASE64_CTX \<Rightarrow> bytes list \<Rightarrow>
    int list \<times> BASE64_CTX \<times> bytes" where
  "b64_feed upd ctx [] = ([], ctx, [])"
| "b64_feed upd ctx (d # ds) =
     (let (rv, ctx, out) = upd ctx d;
          (rvs, ctx, outs) = b64_feed upd ctx ds
      in (rv # rvs, ctx, out @ outs))"

lemma b64_lines_Nil [simp]: "b64_lines [] = []"
  by (simp add: b64_lines_def)

lemma b64_lines_line: "length l = 48 \<Longrightarrow> b64_lines (l @ m) = b64_line l @ b64_lines m"
  by (simp add: b64_lines_def chunks_append)

lemma b64_lines_short: "m \<noteq> [] \<Longrightarrow> length m \<le> 48 \<Longrightarrow> b64_lines m = b64_line m"
  by (simp add: b64_lines_def chunks_step)

lemma b64_lines_append: "length p = 48 * q \<Longrightarrow> b64_lines (p @ m) = b64_lines p @ b64_lines m"
proof (induction q arbitrary: p)
  case (Suc q)
  then have "length (take 48 p) = 48" "length (drop 48 p) = 48 * q" by simp_all
  with Suc.IH [of "drop 48 p"] show ?case
    using b64_lines_line [of "take 48 p" "drop 48 p"] b64_lines_line [of "take 48 p" "drop 48 p @ m"]
    by (simp flip: append_assoc)
qed simp

lemma encode_lines_result:
  "tot + 65 * (length inp div 48) \<le> INT_MAX \<Longrightarrow>
    \<exists>p r. inp = p @ r \<and> length r < 48 \<and> length p = 48 * (length inp div 48) \<and>
      base64_encode_lines 48 inp out tot = (r, out @ b64_lines p, tot + 65 * (length inp div 48))"
proof (induction "length inp div 48" arbitrary: inp out tot)
  case 0
  then have "length inp < 48" by (simp add: div_eq_0_iff)
  with 0 show ?case by (simp add: base64_encode_lines.simps [of 48 inp])
next
  case (Suc q)
  then have len: "48 \<le> length inp" by (metis div_less nat.distinct(1) not_le)
  let ?d = "drop 48 inp"
  have q: "q = length ?d div 48" using Suc.hyps(2) len by (simp add: div_if [of "length inp"])
  have "tot + 65 + 65 * (length ?d div 48) \<le> INT_MAX"
    using Suc.prems unfolding Suc.hyps(2) [symmetric] q [symmetric] by simp
  from Suc.hyps(1) [OF q this, of "out @ b64_line (take 48 inp)"] obtain p r where
    pr: "?d = p @ r" "length r < 48" "length p = 48 * q"
    "base64_encode_lines 48 ?d (out @ b64_line (take 48 inp)) (tot + 65) =
      (r, out @ b64_line (take 48 inp) @ b64_lines p, tot + 65 + 65 * q)"
    unfolding q [symmetric] by auto
  have "base64_encode_lines 48 inp out tot =
      base64_encode_lines 48 ?d (out @ b64_line (take 48 inp)) (tot + 65)"
    using len Suc.prems
    by (simp add: base64_encode_lines.simps [of 48 inp] b64_line_def length_encode_block Let_def
        add.commute)
  moreover have "b64_lines (take 48 inp @ p) = b64_line (take 48 inp) @ b64_lines p"
    using len by (intro b64_lines_line) simp
  moreover have "inp = (take 48 inp @ p) @ r" using pr(1) by (metis append_assoc append_take_drop_id)
  moreover have "length (take 48 inp @ p) = 48 * Suc q" using pr(3) len by simp
  ultimately show ?case unfolding Suc.hyps(2) [symmetric] using pr(2,4)
    by (intro exI [of _ "take 48 inp @ p"] exI [of _ r]) simp
qed

text \<open>The context after a message \<open>m\<close> of which the output \<open>out\<close> has been produced.\<close>

definition b64_enc_holds :: "BASE64_CTX \<Rightarrow> bytes \<Rightarrow> bytes \<Rightarrow> bool" where
  "b64_enc_holds ctx m out \<longleftrightarrow>
     b64_length ctx = 48 \<and> b64_num ctx < 48 \<and> length (b64_enc_data ctx) = 80 \<and>
     (\<exists>p q. m = p @ take (b64_num ctx) (b64_enc_data ctx) \<and> length p = 48 * q \<and> out = b64_lines p)"

lemma encode_rest_holds:
  assumes ctx: "b64_length ctx = 48" "length (b64_enc_data ctx) = 80"
    and tot: "tot + 65 * (length inp div 48) \<le> INT_MAX"
    and m: "length p = 48 * q" "out @ o0 = b64_lines p"
  obtains ctx' out' where "base64_encode_rest ctx inp o0 tot = (1, ctx', out')"
    "b64_enc_holds ctx' (p @ inp) (out @ out')"
proof -
  from encode_lines_result [OF tot, of o0] obtain p' r where
    pr: "inp = p' @ r" "length r < 48" "length p' = 48 * (length inp div 48)"
    "base64_encode_lines 48 inp o0 tot = (r, o0 @ b64_lines p', tot + 65 * (length inp div 48))"
    by blast
  define ctx' where "ctx' = (if r \<noteq> [] then ctx\<lparr>b64_enc_data := mem_write (b64_enc_data ctx) 0 r\<rparr>
     else ctx)\<lparr>b64_num := length r\<rparr>"
  have "base64_encode_rest ctx inp o0 tot = (1, ctx', o0 @ b64_lines p')"
    using tot ctx by (simp add: base64_encode_rest_def pr(4) ctx'_def)
  moreover have "b64_enc_holds ctx' (p @ inp) (out @ o0 @ b64_lines p')"
  proof -
    have "b64_length ctx' = 48" "b64_num ctx' = length r" "length (b64_enc_data ctx') = 80"
      "take (length r) (b64_enc_data ctx') = r"
      using ctx pr(2) by (auto simp: ctx'_def mem_simps) (simp_all add: mem_write_def)
    moreover have "b64_lines (p @ p') = out @ o0 @ b64_lines p'"
      using m by (simp add: b64_lines_append flip: append_assoc)
    moreover have "length (p @ p') = 48 * (q + length inp div 48)" using m pr(3) by simp
    ultimately show ?thesis using pr(1,2) unfolding b64_enc_holds_def
      by (intro conjI exI [of _ "p @ p'"] exI [of _ "q + length inp div 48"]) simp_all
  qed
  ultimately show thesis by (rule that)
qed

lemma encode_update_holds:
  assumes holds: "b64_enc_holds ctx m out" and d: "d \<noteq> []" "65 * (length d div 48 + 1) \<le> INT_MAX"
  obtains ctx' out' where "base64_encode_update ctx d = (1, ctx', out')"
    "b64_enc_holds ctx' (m @ d) (out @ out')"
proof -
  let ?n = "b64_num ctx" and ?e = "b64_enc_data ctx"
  from holds obtain p q where
    c: "b64_length ctx = 48" "?n < 48" "length ?e = 80"
    and m: "m = p @ take ?n ?e" "length p = 48 * q" "out = b64_lines p"
    unfolding b64_enc_holds_def by blast
  consider (short) "?n + length d < 48" | (zero) "48 \<le> length d" "?n = 0"
    | (line) "48 \<le> ?n + length d" "?n \<noteq> 0" by linarith
  then show thesis
  proof cases
    case short
    let ?ctx' = "ctx\<lparr>b64_enc_data := mem_write ?e ?n d, b64_num := ?n + length d\<rparr>"
    have "base64_encode_update ctx d = (1, ?ctx', [])"
      using short c d(1) by (simp add: base64_encode_update_def)
    moreover have "b64_enc_holds ?ctx' (m @ d) (out @ [])"
      using short c m by (auto simp: b64_enc_holds_def mem_simps)
    ultimately show thesis by (rule that)
  next
    case zero
    have "out @ [] = b64_lines p" using m by simp
    moreover have "0 + 65 * (length d div 48) \<le> INT_MAX" using d(2) by simp
    ultimately obtain ctx' out' where "base64_encode_rest ctx d [] 0 = (1, ctx', out')"
      "b64_enc_holds ctx' (p @ d) (out @ out')"
      using encode_rest_holds [OF c(1,3) _ m(2)] by blast
    then show thesis using that zero m(1) d(1) c by (simp add: base64_encode_update_def)
  next
    case line
    let ?i = "48 - ?n"
    define l where "l = take ?n ?e @ take ?i d"
    define ctx1 where "ctx1 = ctx\<lparr>b64_enc_data := mem_write ?e ?n (take ?i d), b64_num := 0\<rparr>"
    have l: "length l = 48" "take 48 (b64_enc_data ctx1) = l" "b64_length ctx1 = 48"
      "length (b64_enc_data ctx1) = 80"
      using c line by (auto simp: l_def ctx1_def mem_write_def)
    have e64: "length (base64_encode_block l) = 64" using l(1) by (simp add: length_encode_block)
    have "base64_encode_update ctx d = base64_encode_rest ctx1 (drop ?i d) (b64_line l) 65"
      using line c l(2) d(1) e64
      by (simp add: base64_encode_update_def b64_line_def Let_def ctx1_def)
    moreover have bound: "65 + 65 * (length (drop ?i d) div 48) \<le> INT_MAX"
      using d(2) div_le_mono [of "length d - ?i" "length d" 48] by simp
    moreover have pl: "length (p @ l) = 48 * (q + 1)" "out @ b64_line l = b64_lines (p @ l)"
      using m l(1) b64_lines_line [of l "[]"] by (simp_all add: b64_lines_append [OF m(2)])
    ultimately obtain ctx' out' where "base64_encode_update ctx d = (1, ctx', out')"
      "b64_enc_holds ctx' ((p @ l) @ drop ?i d) (out @ out')"
      using encode_rest_holds [OF l(3,4) bound pl] by auto
    then show thesis using that m(1) by (simp add: l_def)
  qed
qed

lemma encode_feed_holds:
  assumes "\<forall>d \<in> set ds. d \<noteq> [] \<and> 65 * (length d div 48 + 1) \<le> INT_MAX"
    and "b64_enc_holds ctx m out"
  shows "\<exists>ctx' out'. b64_feed base64_encode_update ctx ds = (replicate (length ds) 1, ctx', out') \<and>
    b64_enc_holds ctx' (m @ concat ds) (out @ out')"
  using assms
proof (induction ds arbitrary: ctx m out)
  case (Cons d ds)
  from Cons.prems have "d \<noteq> []" "65 * (length d div 48 + 1) \<le> INT_MAX" by simp_all
  from encode_update_holds [OF Cons.prems(2) this] obtain ctx1 out1 where
    1: "base64_encode_update ctx d = (1, ctx1, out1)" "b64_enc_holds ctx1 (m @ d) (out @ out1)" .
  from Cons.IH [OF _ 1(2)] Cons.prems(1) obtain ctx2 out2 where
    "b64_feed base64_encode_update ctx1 ds = (replicate (length ds) 1, ctx2, out2)"
    "b64_enc_holds ctx2 ((m @ d) @ concat ds) ((out @ out1) @ out2)" by auto
  with 1(1) show ?case by simp
qed simp

lemma encode_finish_holds:
  assumes "b64_enc_holds ctx m out"
  shows "out @ snd (base64_encode_finish ctx) = b64_lines m" "b64_num (fst (base64_encode_finish ctx)) = 0"
proof -
  let ?n = "b64_num ctx" and ?e = "b64_enc_data ctx"
  from assms obtain p q where
    c: "?n < 48" "length ?e = 80"
    and m: "m = p @ take ?n ?e" "length p = 48 * q" "out = b64_lines p"
    unfolding b64_enc_holds_def by blast
  show "b64_num (fst (base64_encode_finish ctx)) = 0" by (simp add: base64_encode_finish_def)
  have "b64_lines (take ?n ?e) = snd (base64_encode_finish ctx)"
  proof (cases "?n = 0")
    case False
    then have "take ?n ?e \<noteq> []" "length (take ?n ?e) \<le> 48" using c by auto
    then show ?thesis using False b64_lines_short by (simp add: base64_encode_finish_def b64_line_def)
  qed (simp add: base64_encode_finish_def)
  then show "out @ snd (base64_encode_finish ctx) = b64_lines m"
    using m by (simp add: b64_lines_append)
qed

lemma length_b64_lines:
  "length (b64_lines m) = 4 * ((length m + 2) div 3) + (length m + 47) div 48"
proof (induction "length m" arbitrary: m rule: less_induct)
  case less
  show ?case
  proof (cases "48 < length m")
    case True
    have "length (b64_lines m) = 65 + length (b64_lines (drop 48 m))"
      using True b64_lines_line [of "take 48 m" "drop 48 m"]
      by (simp add: b64_line_def length_encode_block)
    moreover have "length (b64_lines (drop 48 m)) =
        4 * ((length m - 48 + 2) div 3) + (length m - 48 + 47) div 48"
      using less [of "drop 48 m"] True by simp
    moreover obtain k where k: "length m = 48 + k" using True by (metis le_add_diff_inverse less_imp_le)
    have "(k + 2 + 16 * 3) div 3 = 16 + (k + 2) div 3" "(k + 47 + 1 * 48) div 48 = 1 + (k + 47) div 48"
      by (rule div_mult_self1, simp)+
    with calculation show ?thesis by (simp add: k add.commute)
  next
    case False
    then have "(length m + 47) div 48 = 1" if "m \<noteq> []" using that
      by (cases m) (simp_all add: div_if)
    with False show ?thesis
      by (cases "m = []") (simp_all add: b64_lines_short b64_line_def length_encode_block)
  qed
qed


section \<open>The streaming decoder\<close>

text \<open>
  A scan of encoded text for \<open>m\<close> that has read \<open>j\<close> of its characters: whole groups have been
  decoded into the output after \<open>prev\<close>, the rest is pending.
\<close>

definition b64_scan_at :: "bytes \<Rightarrow> bytes \<Rightarrow> b64_scan \<Rightarrow> nat \<Rightarrow> nat \<Rightarrow> bool" where
  "b64_scan_at m prev s i j \<longleftrightarrow>
     (let C = base64_encode_block m in
      4 * i \<le> j \<and> j \<le> length C \<and> scan_n s = j - 4 * i \<and> scan_n s \<le> 64 \<and> length (scan_d s) = 80 \<and>
      take (scan_n s) (scan_d s) = drop (4 * i) (take j C) \<and>
      prev @ scan_out s = take (3 * i) m \<and>
      (scan_eof s = count_list (take j C) eqc \<or> scan_n s = 0 \<and> j = length C \<and> scan_eof s = 0))"

lemma count_take_le: "count_list (take j xs) c \<le> count_list xs c"
  by (metis append_take_drop_id count_list_append le_add1)

lemma b64_pad_le: "b64_pad m \<le> 2"
  using mod_less_divisor [of 3 "3 - length m mod 3"] unfolding b64_pad_def by linarith

lemma scan_eof_le: "b64_scan_at m prev s i j \<Longrightarrow> scan_eof s \<le> 2"
  using count_take_le [of j "base64_encode_block m" eqc] b64_pad_le [of m]
  by (auto simp: b64_scan_at_def Let_def count_encode)

lemma scan_flush:
  assumes at: "b64_scan_at m prev s i j" and n: "scan_n s = 4 * q" "0 < q"
  obtains s' where "base64_flush s = Some s'" "b64_scan_at m prev s' (i + q) j" "scan_n s' = 0"
proof -
  let ?C = "base64_encode_block m"
  define x where "x = drop (3 * i) (take (3 * (i + q)) m)"
  have j: "j = 4 * (i + q)" and jC: "j \<le> length ?C"
    and pend: "take (scan_n s) (scan_d s) = drop (4 * i) (take j ?C)"
    and eof: "scan_eof s = count_list (take j ?C) eqc"
    and out: "prev @ scan_out s = take (3 * i) m" and d: "length (scan_d s) = 80"
    using at n by (auto simp: b64_scan_at_def Let_def)
  have "take j ?C = base64_encode_block (take (3 * (i + q)) m)"
    unfolding j by (rule take_encode_block)
  then have tC: "take j ?C = base64_encode_block (take (3 * (i + q)) m)"
    "drop (4 * i) (take j ?C) = base64_encode_block x"
    by (simp_all only: x_def drop_encode_block)
  have "i + q \<le> (length m + 2) div 3" using jC j by (simp add: length_encode_block)
  then have le: "3 * i \<le> length (take (3 * (i + q)) m)" using n(2) by auto
  then have "length (take (3 * (i + q)) m) mod 3 = length x mod 3"
    unfolding x_def length_drop
    by (metis le_add_diff_inverse mod_mult_self4)
  then have "b64_pad (take (3 * (i + q)) m) = b64_pad x" by (simp only: b64_pad_def)
  then have eofx: "scan_eof s = b64_pad x" unfolding eof tC(1) count_encode .
  define s' where "s' = s\<lparr>scan_n := 0, scan_out := scan_out s @ x\<rparr>"
  have "base64_flush s = Some s'"
    unfolding base64_flush_def pend tC(2) decode_block_encode by (simp add: eofx s'_def)
  moreover have "take (3 * i) m @ x = take (3 * (i + q)) m"
    using le unfolding x_def by (metis append_take_drop_id min.absorb1 min.commute mult_le_mono2 le_add1 take_take)
  then have "b64_scan_at m prev s' (i + q) j"
    using d jC eof out j by (simp add: b64_scan_at_def Let_def s'_def flip: append_assoc)
  moreover have "scan_n s' = 0" by (simp add: s'_def)
  ultimately show thesis by (rule that)
qed


lemma scan_char:
  assumes at: "b64_scan_at m prev s i j" and n: "scan_n s < 64"
    and j: "j < length (base64_encode_block m)"
  obtains s' i' where "base64_scan (base64_encode_block m ! j # inp) s = base64_scan inp s'"
    "b64_scan_at m prev s' i' (Suc j)" "scan_n s' < 64"
proof -
  let ?C = "base64_encode_block m"
  define c where "c = ?C ! j"
  have "c \<in> set ?C" using j by (simp add: c_def)
  then have "conv_ascii2bin c AND 0x80 = 0" by (simp add: encode_block_char)
  note v = bin_value_facts [OF this]
  have tj: "take (Suc j) ?C = take j ?C @ [c]" using j by (simp add: c_def take_Suc_conv_app_nth)
  have eof: "scan_eof s = count_list (take j ?C) eqc"
    and sn: "scan_n s = j - 4 * i" "4 * i \<le> j" and d: "length (scan_d s) = 80"
    and pend: "take (scan_n s) (scan_d s) = drop (4 * i) (take j ?C)"
    and out: "prev @ scan_out s = take (3 * i) m"
    using at j by (auto simp: b64_scan_at_def Let_def)
  define s1 where "s1 = s\<lparr>scan_eof := count_list (take (Suc j) ?C) eqc,
    scan_d := mem_write (scan_d s) (scan_n s) [c], scan_n := Suc (scan_n s)\<rparr>"
  have at1: "b64_scan_at m prev s1 i (Suc j)"
    unfolding b64_scan_at_def Let_def
  proof (intro conjI)
    show "take (scan_n s1) (scan_d s1) = drop (4 * i) (take (Suc j) ?C)"
      using take_mem_write [of "scan_n s" "scan_d s" "[c]"] pend n d sn j by (simp add: s1_def tj)
  qed (use j n d sn out in \<open>simp_all add: s1_def mem_simps\<close>)
  have eof1: "scan_eof s1 \<le> 2" by (rule scan_eof_le [OF at1])
  have "s1 = (if c = eqc then s\<lparr>scan_eof := scan_eof s + 1\<rparr> else s)
      \<lparr>scan_d := mem_write (scan_d s) (scan_n s) [c], scan_n := Suc (scan_n s)\<rparr>"
    by (auto simp: s1_def tj eof)
  moreover have "scan_eof s = 0" if "c \<noteq> eqc" using encode_block_eq_end(1) [OF j] that eof by (simp add: c_def)
  ultimately have step: "base64_scan (c # inp) s =
      (if scan_n s1 = 64 then (case base64_flush s1 of None \<Rightarrow> Goto_End (s1\<lparr>scan_n := 0\<rparr>)
        | Some s' \<Rightarrow> base64_scan inp s') else base64_scan inp s1)"
    using v n eof1 by (auto simp: Let_def not_le split: option.split)
  show thesis
  proof (cases "scan_n s1 = 64")
    case True
    from scan_flush [OF at1, of 16] True obtain s' where
      "base64_flush s1 = Some s'" "b64_scan_at m prev s' (i + 16) (Suc j)" "scan_n s' = 0" by auto
    then show thesis using that [of s'] step True by (simp add: c_def)
  next
    case False
    with at1 have "scan_n s1 < 64" by (auto simp: b64_scan_at_def Let_def)
    then show thesis using that [OF _ at1] step False by (simp add: c_def)
  qed
qed

lemma scan_newline:
  assumes "b64_scan_at m prev s i j" "scan_n s < 64"
  shows "base64_scan (nlc # inp) s = base64_scan inp s"
  using assms(2) scan_eof_le [OF assms(1)] nlc_value by (auto simp: Let_def)

lemma scan_text:
  assumes "filter (\<lambda>c. c \<noteq> nlc) t = take k (drop j (base64_encode_block m))"
    "j + k \<le> length (base64_encode_block m)" "b64_scan_at m prev s i j" "scan_n s < 64"
  shows "\<exists>s' i'. base64_scan t s = Goto_Tail False s' \<and> b64_scan_at m prev s' i' (j + k) \<and> scan_n s' < 64"
  using assms
proof (induction t arbitrary: s i j k)
  case Nil
  then have "k = 0" by auto
  with Nil show ?case by auto
next
  case (Cons c t)
  let ?C = "base64_encode_block m"
  show ?case
  proof (cases "c = nlc")
    case True
    with Cons.IH [of k j s i] Cons.prems show ?thesis by (simp add: scan_newline del: base64_scan.simps)
  next
    case False
    with Cons.prems obtain k' where k: "k = Suc k'" by (cases k) auto
    then have j: "j < length ?C" using Cons.prems(2) by simp
    then have c: "c = ?C ! j" "filter (\<lambda>c. c \<noteq> nlc) t = take k' (drop (Suc j) ?C)"
      using Cons.prems(1) False by (simp_all add: k Cons_nth_drop_Suc [symmetric])
    from scan_char [OF Cons.prems(3,4) j, of t] obtain s' i' where
      s': "base64_scan (c # t) s = base64_scan t s'" "b64_scan_at m prev s' i' (Suc j)" "scan_n s' < 64"
      unfolding c(1) .
    from Cons.IH [OF c(2) _ s'(2,3)] Cons.prems(2) show ?thesis
      unfolding s'(1) by (simp add: k)
  qed
qed

lemma scan_tail:
  assumes at: "b64_scan_at m prev s i j" and n: "scan_n s < 64"
  obtains rv s' i' where "base64_tail False s = (rv, s')" "rv = 0 \<or> rv = 1" "b64_scan_at m prev s' i' j"
    "scan_n s' < 64" "scan_n s' = 0 \<or> scan_n s' mod 4 \<noteq> 0"
proof -
  have and3: "scan_n s AND 3 = scan_n s mod 4"
    using take_bit_eq_mask [of 2 "scan_n s"] by (simp add: take_bit_eq_mod mask_eq_exp_minus_1)
  show thesis
  proof (cases "0 < scan_n s \<and> scan_n s mod 4 = 0")
    case True
    then have "scan_n s = 4 * (scan_n s div 4)" "0 < scan_n s div 4" by auto
    from scan_flush [OF at this] obtain s' where
      "base64_flush s = Some s'" "b64_scan_at m prev s' (i + scan_n s div 4) j" "scan_n s' = 0" .
    then show thesis using True
      by (intro that [of "if scan_eof s' \<noteq> 0 then 0 else 1" s']) (simp_all add: base64_tail_def and3)
  next
    case False
    then show thesis using at n
      by (intro that [of "if scan_n s = 0 \<and> scan_eof s \<noteq> 0 then 0 else 1" s i])
        (auto simp: base64_tail_def and3)
  qed
qed

text \<open>The context between calls.\<close>

definition b64_dec_holds :: "bytes \<Rightarrow> BASE64_CTX \<Rightarrow> nat \<Rightarrow> bytes \<Rightarrow> bool" where
  "b64_dec_holds m ctx j out \<longleftrightarrow>
     (let C = base64_encode_block m; n = b64_num ctx in
      \<exists>i. 4 * i \<le> j \<and> j \<le> length C \<and> n = j - 4 * i \<and> n < 64 \<and> (n = 0 \<or> n mod 4 \<noteq> 0) \<and>
        length (b64_enc_data ctx) = 80 \<and> take n (b64_enc_data ctx) = drop (4 * i) (take j C) \<and>
        out = take (3 * i) m)"


lemma dec_holds_scan:
  fixes ctx
  defines "n \<equiv> b64_num ctx" and "d \<equiv> b64_enc_data ctx"
  assumes "b64_dec_holds m ctx j out"
  shows "\<exists>i. b64_scan_at m out
     \<lparr>scan_d = d, scan_n = n,
      scan_eof = (if n > 0 \<and> d ! (n - 1) = eqc then (if n > 1 \<and> d ! (n - 2) = eqc then 2 else 1) else 0),
      scan_out = []\<rparr> i j \<and> n < 64"
proof -
  let ?C = "base64_encode_block m"
  define e :: nat where "e = (if n > 0 \<and> d ! (n - 1) = eqc then (if n > 1 \<and> d ! (n - 2) = eqc then 2 else 1) else 0)"
  from assms(3) obtain i where
    h: "4 * i \<le> j" "j \<le> length ?C" "n = j - 4 * i" "n < 64" "n = 0 \<or> n mod 4 \<noteq> 0"
      "length d = 80" "take n d = drop (4 * i) (take j ?C)" "out = take (3 * i) m"
    unfolding b64_dec_holds_def Let_def n_def d_def by blast
  have nth: "d ! k = ?C ! (4 * i + k)" if "k < n" for k
  proof -
    have "d ! k = take n d ! k" using that by simp
    then show ?thesis using that h(1-3) unfolding h(7) by simp
  qed
  have "e = count_list (take j ?C) eqc \<or> n = 0 \<and> j = length ?C \<and> e = 0"
  proof (cases "n = 0")
    case True
    then have j: "j = 4 * i" using h by simp
    have "count_list (take j ?C) eqc = b64_pad (take (3 * i) m)"
      unfolding j take_encode_block by (rule count_encode)
    moreover have "b64_pad (take (3 * i) m) = 0" if "3 * i \<le> length m"
      using that by (simp add: b64_pad_def)
    moreover have "j = length ?C" if "\<not> 3 * i \<le> length m"
      using that h(2) j by (simp add: length_encode_block)
    ultimately show ?thesis using True by (auto simp: e_def)
  next
    case False
    then obtain n' where n': "n = Suc n'" by (cases n) auto
    have j: "j = Suc (4 * i + n')" "4 * i + n' < length ?C" using h n' by simp_all
    have tj: "take j ?C = take (4 * i + n') ?C @ [?C ! (4 * i + n')]"
      unfolding j(1) by (rule take_Suc_conv_app_nth [OF j(2)])
    have dn: "d ! (n - 1) = ?C ! (4 * i + n')" using nth [of n'] n' by simp
    show ?thesis
    proof (cases "?C ! (4 * i + n') = eqc")
      case eq: True
      have "2 \<le> n' mod 4" using encode_block_eq_end(2) [OF j(2) eq] by simp
      then obtain k where k: "n' = Suc k" by (cases n') auto
      have j2: "4 * i + k < length ?C" using j k by simp
      have tj2: "take (4 * i + n') ?C = take (4 * i + k) ?C @ [?C ! (4 * i + k)]"
        using take_Suc_conv_app_nth [OF j2] by (simp add: k)
      have dn2: "d ! (n - 2) = ?C ! (4 * i + k)" using nth [of k] n' k by simp
      have le: "count_list (take j ?C) eqc \<le> 2"
        using count_take_le [of j ?C eqc] b64_pad_le [of m] by (simp add: count_encode)
      have "count_list (take j ?C) eqc =
          count_list (take (4 * i + k) ?C) eqc + (if ?C ! (4 * i + k) = eqc then 1 else 0) + 1"
        by (simp add: tj tj2 eq)
      moreover have "e = (if ?C ! (4 * i + k) = eqc then 2 else (1 :: nat))"
        unfolding e_def dn dn2 eq using n' k by simp
      ultimately show ?thesis using le encode_block_eq_end(1) [OF j2]
        by (cases "?C ! (4 * i + k) = eqc") simp_all
    next
      case False
      then show ?thesis using encode_block_eq_end(1) [OF j(2)] unfolding e_def dn by (simp add: tj)
    qed
  qed
  with h show ?thesis unfolding b64_scan_at_def Let_def e_def by (intro exI [of _ i]) auto
qed

lemma decode_update_holds:
  assumes "b64_dec_holds m ctx j out" "t \<noteq> []"
    "filter (\<lambda>c. c \<noteq> nlc) t = take k (drop j (base64_encode_block m))"
    "j + k \<le> length (base64_encode_block m)"
  obtains rv ctx' out' where "base64_decode_update ctx t = (rv, ctx', out')" "rv = 0 \<or> rv = 1"
    "b64_dec_holds m ctx' (j + k) (out @ out')"
proof -
  define s0 where "s0 = \<lparr>scan_d = b64_enc_data ctx, scan_n = b64_num ctx,
    scan_eof = (if b64_num ctx > 0 \<and> b64_enc_data ctx ! (b64_num ctx - 1) = eqc
      then (if b64_num ctx > 1 \<and> b64_enc_data ctx ! (b64_num ctx - 2) = eqc then 2 else 1) else 0),
    scan_out = []\<rparr>"
  from dec_holds_scan [OF assms(1)] obtain i where
    "b64_scan_at m out s0 i j" "scan_n s0 < 64" unfolding s0_def by auto
  from scan_text [OF assms(3,4) this] obtain s1 i1 where
    1: "base64_scan t s0 = Goto_Tail False s1" "b64_scan_at m out s1 i1 (j + k)" "scan_n s1 < 64" by blast
  from scan_tail [OF 1(2,3)] obtain rv s2 i2 where
    2: "base64_tail False s1 = (rv, s2)" "rv = 0 \<or> rv = 1" "b64_scan_at m out s2 i2 (j + k)"
    "scan_n s2 < 64" "scan_n s2 = 0 \<or> scan_n s2 mod 4 \<noteq> 0" .
  have eq: "of_char CHR ''='' = eqc" by simp
  have "base64_decode_update ctx t =
      (rv, ctx\<lparr>b64_enc_data := scan_d s2, b64_num := scan_n s2\<rparr>, scan_out s2)"
    unfolding base64_decode_update_def Let_def eq s0_def [symmetric] using assms(2) 1(1) 2(1) by simp
  moreover have "b64_dec_holds m (ctx\<lparr>b64_enc_data := scan_d s2, b64_num := scan_n s2\<rparr>) (j + k)
      (out @ scan_out s2)"
    using 2(3,4,5) unfolding b64_dec_holds_def b64_scan_at_def Let_def by (intro exI [of _ i2]) auto
  ultimately show thesis using that 2(2) by blast
qed

lemma decode_feed_holds:
  assumes "\<forall>t \<in> set ts. t \<noteq> []"
    "filter (\<lambda>c. c \<noteq> nlc) (concat ts) = drop j (base64_encode_block m)"
    "b64_dec_holds m ctx j out"
  shows "\<exists>rvs ctx' out'. b64_feed base64_decode_update ctx ts = (rvs, ctx', out') \<and>
    set rvs \<subseteq> {0, 1} \<and> b64_dec_holds m ctx' (length (base64_encode_block m)) (out @ out')"
  using assms
proof (induction ts arbitrary: ctx j out)
  case Nil
  then have "j = length (base64_encode_block m)" by (auto simp: b64_dec_holds_def Let_def)
  with Nil show ?case by simp
next
  case (Cons t ts)
  let ?C = "base64_encode_block m" and ?f = "filter (\<lambda>c. c \<noteq> nlc)"
  define k where "k = length (?f t)"
  have jC: "j \<le> length ?C" using Cons.prems(3) by (auto simp: b64_dec_holds_def Let_def)
  have split: "?f t @ ?f (concat ts) = drop j ?C" using Cons.prems(2) by simp
  then have ft: "?f t = take k (drop j ?C)" and fts: "?f (concat ts) = drop (j + k) ?C"
    using append_eq_conv_conj [of "?f t" "?f (concat ts)" "drop j ?C"]
    by (simp_all add: k_def add.commute)
  have "j + k \<le> length ?C" using arg_cong [OF split, of length] jC by (simp add: k_def)
  from decode_update_holds [OF Cons.prems(3) _ ft this] Cons.prems(1) obtain rv ctx1 out1 where
    1: "base64_decode_update ctx t = (rv, ctx1, out1)" "rv = 0 \<or> rv = 1"
    "b64_dec_holds m ctx1 (j + k) (out @ out1)" by auto
  from Cons.IH [OF _ fts 1(3)] Cons.prems(1) 1(1,2) show ?case by fastforce
qed

lemma dec_holds_end:
  assumes "b64_dec_holds m ctx (length (base64_encode_block m)) out"
  shows "b64_num ctx = 0" "out = m"
proof -
  from assms obtain i where
    h: "4 * i \<le> length (base64_encode_block m)" "b64_num ctx = length (base64_encode_block m) - 4 * i"
      "b64_num ctx = 0 \<or> b64_num ctx mod 4 \<noteq> 0" "out = take (3 * i) m"
    unfolding b64_dec_holds_def Let_def by blast
  have "b64_num ctx = 4 * ((length m + 2) div 3 - i)" using h(2) by (simp add: length_encode_block diff_mult_distrib2)
  with h(3) show 0: "b64_num ctx = 0" by auto
  with h(1,2) have "i = (length m + 2) div 3" by (simp add: length_encode_block)
  then show "out = m" using h(4) by simp
qed

lemma b64_lines_chars: "filter (\<lambda>c. c \<noteq> nlc) (b64_lines m) = base64_encode_block m"
proof (induction "length m" arbitrary: m rule: less_induct)
  case less
  have block: "filter (\<lambda>c. c \<noteq> nlc) (base64_encode_block x) = base64_encode_block x" for x
    using encode_block_char by (auto simp: filter_id_conv)
  show ?case
  proof (cases "48 < length m")
    case True
    then have "length (take 48 m) = 48" by simp
    then have "b64_lines m = b64_line (take 48 m) @ b64_lines (drop 48 m)"
      "base64_encode_block m = base64_encode_block (take 48 m) @ base64_encode_block (drop 48 m)"
      using b64_lines_line [of "take 48 m" "drop 48 m"]
        encode_block_append [of "take 48 m" "drop 48 m"] by simp_all
    moreover have "filter (\<lambda>c. c \<noteq> nlc) (b64_lines (drop 48 m)) = base64_encode_block (drop 48 m)"
      using less True by simp
    ultimately show ?thesis by (simp add: b64_line_def block)
  next
    case False
    then show ?thesis by (cases "m = []") (simp_all add: b64_lines_short b64_line_def block)
  qed
qed


section \<open>Correctness\<close>

text \<open>
  C39. The encoder, fed a message in any non-empty pieces (each below the size whose encoding no
  longer fits an \<^verbatim>\<open>int\<close>), reports success every time, and the output of the updates and of
  \<^verbatim>\<open>base64_encode_finish\<close> together is the message in lines of 48 bytes, each coded in 64
  characters and a newline; it fits the space \<^verbatim>\<open>BASE64_ENCODE_LENGTH\<close> reserves, the context buffer
  is never overrun, and an empty piece is refused.
\<close>

theorem base64_encode_streaming:
  assumes "length (b64_enc_data ctx) = 80"
    and "\<forall>d \<in> set ds. d \<noteq> [] \<and> length d \<le> 1500000000"
  shows "\<exists>ctx' out. b64_feed base64_encode_update (base64_encode_init ctx) ds =
      (replicate (length ds) 1, ctx', out) \<and>
    length (b64_enc_data ctx') = 80 \<and> b64_num ctx' < 48 \<and>
    out @ snd (base64_encode_finish ctx') = b64_lines (concat ds) \<and>
    length (b64_lines (concat ds)) + 1 \<le> BASE64_ENCODE_LENGTH (length (concat ds)) \<and>
    base64_encode_update ctx' [] = (0, ctx', [])"
proof -
  have "\<forall>d \<in> set ds. d \<noteq> [] \<and> 65 * (length d div 48 + 1) \<le> INT_MAX"
    using assms(2) div_le_mono [of _ 1500000000 48] by (fastforce simp: INT_MAX_def)
  moreover have "b64_enc_holds (base64_encode_init ctx) [] []"
    using assms(1) by (simp add: b64_enc_holds_def base64_encode_init_def)
  ultimately obtain ctx' out where
    f: "b64_feed base64_encode_update (base64_encode_init ctx) ds = (replicate (length ds) 1, ctx', out)"
    and h: "b64_enc_holds ctx' (concat ds) out"
    using encode_feed_holds [of ds "base64_encode_init ctx" "[]" "[]"] by auto
  have "(length (concat ds) + 47) div 48 \<le> length (concat ds) div 48 + 1"
    using div_le_mono [of "length (concat ds) + 47" "length (concat ds) + 48" 48] by simp
  then have "length (b64_lines (concat ds)) + 1 \<le> BASE64_ENCODE_LENGTH (length (concat ds))"
    unfolding length_b64_lines BASE64_ENCODE_LENGTH_def by (simp add: mult.commute)
  with f h encode_finish_holds(1) [OF h] show ?thesis
    by (auto simp: b64_enc_holds_def base64_encode_update_def)
qed

theorem base64_encode_streaming_witness:
  "\<exists>ctx' out. b64_feed base64_encode_update
      (base64_encode_init \<lparr>b64_num = 0, b64_length = 0, b64_enc_data = replicate 80 0,
         b64_line_num = 0, b64_expect_nl = 0\<rparr>) [[1, 2], [3]] = ([1, 1], ctx', out)"
  using base64_encode_streaming [of "\<lparr>b64_num = 0, b64_length = 0, b64_enc_data = replicate 80 0,
    b64_line_num = 0, b64_expect_nl = 0\<rparr>" "[[1, 2], [3]]"]
  by (auto simp: numeral_2_eq_2)

text \<open>
  C40. The decoder gives every message back from its encoding, for every way of cutting the encoded
  text into non-empty pieces, also inside a group or between two padding characters: no piece is
  reported as an error, the outputs together are the message, and nothing is left pending, so
  \<^verbatim>\<open>base64_decode_finish\<close> succeeds with no output.
\<close>

theorem base64_decode_streaming:
  assumes "length (b64_enc_data ctx) = 80"
    and "concat ts = b64_lines m" and "\<forall>t \<in> set ts. t \<noteq> []"
  shows "\<exists>rvs ctx'. b64_feed base64_decode_update (base64_decode_init ctx) ts = (rvs, ctx', m) \<and>
    set rvs \<subseteq> {0, 1} \<and> base64_ctx_num ctx' = 0 \<and> base64_decode_finish ctx' = (1, ctx', [])"
proof -
  have "filter (\<lambda>c. c \<noteq> nlc) (concat ts) = drop 0 (base64_encode_block m)"
    unfolding assms(2) b64_lines_chars by simp
  moreover have "b64_dec_holds m (base64_decode_init ctx) 0 []"
    using assms(1) by (simp add: b64_dec_holds_def base64_decode_init_def)
  ultimately obtain rvs ctx' out where
    f: "b64_feed base64_decode_update (base64_decode_init ctx) ts = (rvs, ctx', out)" "set rvs \<subseteq> {0, 1}"
    and h: "b64_dec_holds m ctx' (length (base64_encode_block m)) out"
    using decode_feed_holds [OF assms(3), of 0 m "base64_decode_init ctx" "[]"] by auto
  from dec_holds_end [OF h] f show ?thesis
    by (simp add: base64_decode_finish_def base64_ctx_num_def)
qed

theorem base64_decode_streaming_witness:
  "\<exists>rvs ctx'. b64_feed base64_decode_update
      (base64_decode_init \<lparr>b64_num = 0, b64_length = 0, b64_enc_data = replicate 80 0,
         b64_line_num = 0, b64_expect_nl = 0\<rparr>) [[65, 81, 61], [61, 10]] = (rvs, ctx', [1])"
proof -
  have "concat [[65, 81, 61], [61, 10]] = b64_lines [1]" by code_simp
  then show ?thesis
    using base64_decode_streaming [of "\<lparr>b64_num = 0, b64_length = 0, b64_enc_data = replicate 80 0,
      b64_line_num = 0, b64_expect_nl = 0\<rparr>" "[[65, 81, 61], [61, 10]]" "[1]"]
    by auto
qed

end
