(* ===== verification/Gm_Endian.thy ===== *)
theory Gm_Endian
  imports Prelude
begin

text \<open>
  GmSSL, \<^verbatim>\<open>include/gmssl/endian.h\<close>: reading and writing integers as bytes, and
  rotation. The writers are macros over an integer expression of any width, so
  their model is polymorphic in the width. The \<^verbatim>\<open>_LE\<close> macros go through a pointer
  cast; they are modelled for a little-endian host.
\<close>

section \<open>The macros\<close>

definition GETU16 :: "bytes \<Rightarrow> u16" where
  "GETU16 p = push_bit 8 (ucast (p ! 0)) OR ucast (p ! 1)"

definition GETU32 :: "bytes \<Rightarrow> u32" where
  "GETU32 p = push_bit 24 (ucast (p ! 0)) OR push_bit 16 (ucast (p ! 1))
     OR push_bit 8 (ucast (p ! 2)) OR ucast (p ! 3)"

definition GETU64 :: "bytes \<Rightarrow> u64" where
  "GETU64 p = push_bit 56 (ucast (p ! 0)) OR push_bit 48 (ucast (p ! 1))
     OR push_bit 40 (ucast (p ! 2)) OR push_bit 32 (ucast (p ! 3))
     OR push_bit 24 (ucast (p ! 4)) OR push_bit 16 (ucast (p ! 5))
     OR push_bit 8 (ucast (p ! 6)) OR ucast (p ! 7)"

definition PUTU16 :: "'a::len word \<Rightarrow> bytes" where
  "PUTU16 v = [ucast (drop_bit 8 v), ucast v]"

definition PUTU32 :: "'a::len word \<Rightarrow> bytes" where
  "PUTU32 v = [ucast (drop_bit 24 v), ucast (drop_bit 16 v), ucast (drop_bit 8 v), ucast v]"

definition PUTU64 :: "'a::len word \<Rightarrow> bytes" where
  "PUTU64 v = [ucast (drop_bit 56 v), ucast (drop_bit 48 v), ucast (drop_bit 40 v),
     ucast (drop_bit 32 v), ucast (drop_bit 24 v), ucast (drop_bit 16 v),
     ucast (drop_bit 8 v), ucast v]"

definition GETU32_LE :: "bytes \<Rightarrow> u32" where
  "GETU32_LE p = ucast (p ! 0) OR push_bit 8 (ucast (p ! 1))
     OR push_bit 16 (ucast (p ! 2)) OR push_bit 24 (ucast (p ! 3))"

definition PUTU32_LE :: "u32 \<Rightarrow> bytes" where
  "PUTU32_LE v = [ucast v, ucast (drop_bit 8 v), ucast (drop_bit 16 v), ucast (drop_bit 24 v)]"

definition PUTU64_LE :: "u64 \<Rightarrow> bytes" where
  "PUTU64_LE v = [ucast v, ucast (drop_bit 8 v), ucast (drop_bit 16 v), ucast (drop_bit 24 v),
     ucast (drop_bit 32 v), ucast (drop_bit 40 v), ucast (drop_bit 48 v), ucast (drop_bit 56 v)]"

definition ROL32 :: "u32 \<Rightarrow> nat \<Rightarrow> u32" where
  "ROL32 a n = push_bit n a OR drop_bit (32 - n) (a AND 0xffffffff)"

definition ROR32 :: "u32 \<Rightarrow> nat \<Rightarrow> u32" where
  "ROR32 a n = ROL32 a (32 - n)"

definition ROL64 :: "u64 \<Rightarrow> nat \<Rightarrow> u64" where
  "ROL64 a n = push_bit n a OR drop_bit (64 - n) a"

definition ROR64 :: "u64 \<Rightarrow> nat \<Rightarrow> u64" where
  "ROR64 a n = ROL64 a (64 - n)"


section \<open>Reading back what was written\<close>

lemma length_PUTU [simp]:
  "length (PUTU16 v) = 2" "length (PUTU32 v) = 4" "length (PUTU64 v) = 8"
  "length (PUTU32_LE w) = 4" "length (PUTU64_LE x) = 8"
  by (simp_all add: PUTU16_def PUTU32_def PUTU64_def PUTU32_LE_def PUTU64_LE_def)

lemma byte_position_cases:
  fixes n :: nat
  assumes "n < 64"
  obtains "n < 8" | "8 \<le> n" "n < 16" | "16 \<le> n" "n < 24" | "24 \<le> n" "n < 32"
    | "32 \<le> n" "n < 40" | "40 \<le> n" "n < 48" | "48 \<le> n" "n < 56" | "56 \<le> n" "n < 64"
  using assms by linarith

lemma GETU32_PUTU32 [simp]: "GETU32 (PUTU32 (v::u32) @ xs) = v"
proof (rule bit_word_eqI)
  fix n assume "n < LENGTH(32)"
  then have "n < 64" by simp
  then show "bit (GETU32 (PUTU32 v @ xs)) n = bit v n"
    by (cases n rule: byte_position_cases)
      (simp_all add: GETU32_def PUTU32_def bit_simps less_diff_conv2)
qed

lemma GETU64_PUTU64 [simp]: "GETU64 (PUTU64 (v::u64) @ xs) = v"
proof (rule bit_word_eqI)
  fix n assume "n < LENGTH(64)"
  then have "n < 64" by simp
  then show "bit (GETU64 (PUTU64 v @ xs)) n = bit v n"
    by (cases n rule: byte_position_cases)
      (simp_all add: GETU64_def PUTU64_def bit_simps less_diff_conv2)
qed

lemma GETU32_LE_PUTU32_LE [simp]: "GETU32_LE (PUTU32_LE v @ xs) = v"
proof (rule bit_word_eqI)
  fix n assume "n < LENGTH(32)"
  then have "n < 64" by simp
  then show "bit (GETU32_LE (PUTU32_LE v @ xs)) n = bit v n"
    by (cases n rule: byte_position_cases)
      (simp_all add: GETU32_LE_def PUTU32_LE_def bit_simps less_diff_conv2)
qed

lemma take4: "4 \<le> length p \<Longrightarrow> take 4 p = [p ! 0, p ! 1, p ! 2, p ! 3]"
  by (rule nth_equalityI) (auto simp: less_Suc_eq numeral_eq_Suc)

lemma take8:
  "8 \<le> length p \<Longrightarrow> take 8 p = [p ! 0, p ! 1, p ! 2, p ! 3, p ! 4, p ! 5, p ! 6, p ! 7]"
  by (rule nth_equalityI) (auto simp: less_Suc_eq numeral_eq_Suc)

lemma PUTU32_GETU32: "4 \<le> length p \<Longrightarrow> PUTU32 (GETU32 p) = take 4 p"
  unfolding GETU32_def PUTU32_def
  by (auto intro!: bit_word_eqI simp: bit_simps take4)

lemma PUTU64_GETU64: "8 \<le> length p \<Longrightarrow> PUTU64 (GETU64 p) = take 8 p"
  unfolding GETU64_def PUTU64_def
  by (auto intro!: bit_word_eqI simp: bit_simps take8)

lemma GETU32_take [simp]: "4 \<le> n \<Longrightarrow> GETU32 (take n p) = GETU32 p"
  by (simp add: GETU32_def)

lemma GETU64_take [simp]: "8 \<le> n \<Longrightarrow> GETU64 (take n p) = GETU64 p"
  by (simp add: GETU64_def)

lemma GETU32_LE_take [simp]: "4 \<le> n \<Longrightarrow> GETU32_LE (take n p) = GETU32_LE p"
  by (simp add: GETU32_LE_def)


section \<open>Rotation is linear and composes\<close>

lemma mask32_id: "(a::u32) AND 0xffffffff = a"
proof -
  have "(0xffffffff::u32) = - 1" by simp
  then show ?thesis by (simp only: and.right_neutral)
qed

lemma bit_ROL32:
  "n < 32 \<Longrightarrow> bit (ROL32 a n) i \<longleftrightarrow> i < 32 \<and> bit a (if n \<le> i then i - n else 32 - n + i)"
  unfolding ROL32_def mask32_id
  by (auto simp: bit_simps)

lemma ROL32_xor: "n < 32 \<Longrightarrow> ROL32 (a XOR b) n = ROL32 a n XOR ROL32 b n"
  by (rule bit_word_eqI) (simp add: bit_ROL32 bit_xor_iff)

lemma ROL32_ROL32:
  assumes "m < 32" "n < 32"
  shows "ROL32 (ROL32 a m) n = ROL32 a ((m + n) mod 32)"
proof (rule bit_word_eqI)
  fix i assume "i < LENGTH(32)"
  with assms show "bit (ROL32 (ROL32 a m) n) i = bit (ROL32 a ((m + n) mod 32)) i"
    by (cases "m + n < 32"; cases "n \<le> i"; cases "m \<le> i - n")
      (auto simp: bit_ROL32 mod_if ac_simps)
qed

lemma bit_ROL64:
  "n < 64 \<Longrightarrow> bit (ROL64 a n) i \<longleftrightarrow> i < 64 \<and> bit a (if n \<le> i then i - n else 64 - n + i)"
  by (auto simp: ROL64_def bit_simps)

lemma ROL64_xor: "n < 64 \<Longrightarrow> ROL64 (a XOR b) n = ROL64 a n XOR ROL64 b n"
  by (rule bit_word_eqI) (simp add: bit_ROL64 bit_xor_iff)

end
