(* ===== verification/Gm_Md.thy ===== *)
theory Gm_Md
  imports Gm_Endian
begin

text \<open>
  GmSSL, the streaming hash interface. \<^verbatim>\<open>sm3.c\<close>, \<^verbatim>\<open>sha1.c\<close>, \<^verbatim>\<open>sha256.c\<close>, \<^verbatim>\<open>sha512.c\<close>
  and \<^verbatim>\<open>md5.c\<close> each have a context (the chaining value, the number of blocks
  compressed, a block buffer and its fill) and the same three operations. Here
  are the context, the contract a block compressor has to meet (\<open>md_compress\<close>),
  what \<^verbatim>\<open>update\<close> and \<^verbatim>\<open>finish\<close> do for any such compressor, and the interface the
  clients of a hash use (\<open>stream_hash\<close>). The hashes interpret these locales.
\<close>

section \<open>The context\<close>

text \<open>
  \<^verbatim>\<open>SM3_CTX\<close>, \<^verbatim>\<open>SHA1_CTX\<close>, \<^verbatim>\<open>SHA224_CTX\<close>, \<^verbatim>\<open>SHA256_CTX\<close>, \<^verbatim>\<open>SHA384_CTX\<close>, \<^verbatim>\<open>SHA512_CTX\<close>
  and \<^verbatim>\<open>MD5_CTX\<close> have these four fields in this order; \<^verbatim>\<open>SM3_CTX\<close> calls the first
  one \<^verbatim>\<open>digest\<close>. \<^verbatim>\<open>nblocks\<close> is a 64-bit counter and wraps.
\<close>

record 'w md_ctx =
  state :: "'w list"
  nblocks :: u64
  block :: bytes
  num :: nat

text \<open>\<^verbatim>\<open>update\<close> and \<^verbatim>\<open>finish\<close>, over any block size and block compressor.\<close>

definition md_absorb ::
  "nat \<Rightarrow> ('w list \<Rightarrow> bytes \<Rightarrow> nat \<Rightarrow> 'w list) \<Rightarrow> 'w md_ctx \<Rightarrow> bytes \<Rightarrow> 'w md_ctx" where
  "md_absorb bs cb ctx data =
     (let q = length data div bs in
      ctx\<lparr>state := cb (state ctx) data q, nblocks := nblocks ctx + of_nat q,
          block := mem_write (block ctx) 0 (drop (bs * q) data),
          num := length data mod bs\<rparr>)"

definition md_update ::
  "nat \<Rightarrow> ('w list \<Rightarrow> bytes \<Rightarrow> nat \<Rightarrow> 'w list) \<Rightarrow> 'w md_ctx \<Rightarrow> bytes \<Rightarrow> 'w md_ctx" where
  "md_update bs cb ctx data =
     (if num ctx = 0 then md_absorb bs cb ctx data
      else let left = bs - num ctx in
        if length data < left then
          ctx\<lparr>block := mem_write (block ctx) (num ctx) data, num := num ctx + length data\<rparr>
        else let blk = mem_write (block ctx) (num ctx) (take left data) in
          md_absorb bs cb (ctx\<lparr>block := blk, state := cb (state ctx) blk 1,
            nblocks := nblocks ctx + 1\<rparr>) (drop left data))"

definition md_final ::
  "nat \<Rightarrow> ('w list \<Rightarrow> bytes \<Rightarrow> nat \<Rightarrow> 'w list) \<Rightarrow> bytes \<Rightarrow> 'w md_ctx \<Rightarrow> 'w list" where
  "md_final bs cb len ctx =
     (let n = num ctx; ll = length len; blk = mem_write (block ctx) n [0x80] in
      if n + 1 + ll \<le> bs then
        cb (state ctx) (mem_write (mem_set blk (n + 1) 0 (bs - n - 1 - ll)) (bs - ll) len) 1
      else let blk = mem_set blk (n + 1) 0 (bs - n - 1) in
        cb (cb (state ctx) blk 1) (mem_write (mem_set blk 0 0 (bs - ll)) (bs - ll) len) 1)"

text \<open>
  The Merkle-Damgard padding: a one bit, the fewest zero bytes that fill the
  last block, and the length field.
\<close>

definition md_zeros :: "nat \<Rightarrow> nat \<Rightarrow> nat \<Rightarrow> nat" where
  "md_zeros bs ll n = (bs - (n + 1 + ll) mod bs) mod bs"

definition md_pad :: "nat \<Rightarrow> bytes \<Rightarrow> bytes \<Rightarrow> bytes" where
  "md_pad bs len m = m @ 0x80 # replicate (md_zeros bs (length len) (length m)) 0 @ len"

lemma md_zeros_fill:
  assumes "0 < bs" shows "bs dvd n + 1 + md_zeros bs ll n + ll"
proof -
  let ?r = "(n + 1 + ll) mod bs"
  have "(n + 1 + ll + md_zeros bs ll n) mod bs = (?r + (bs - ?r)) mod bs"
    unfolding md_zeros_def by (simp only: mod_add_left_eq mod_add_right_eq)
  also have "\<dots> = 0" using assms by (simp add: less_imp_le)
  finally show ?thesis by (simp add: dvd_eq_mod_eq_0 ac_simps)
qed

lemma md_zeros_cases:
  assumes "n = bs * q + r" "r < bs" "1 + ll \<le> bs"
  shows "md_zeros bs ll n = (if r + 1 + ll \<le> bs then bs - r - 1 - ll else 2 * bs - r - 1 - ll)"
proof -
  have "(n + 1 + ll) mod bs = (r + 1 + ll) mod bs"
    unfolding assms(1) add.assoc by (rule mod_mult_self4)
  also have "\<dots> = (if r + 1 + ll < bs then r + 1 + ll else r + 1 + ll - bs)"
    using assms(2,3) by (simp add: mod_if)
  finally show ?thesis using assms(2,3) by (auto simp: md_zeros_def)
qed


section \<open>The length field\<close>

text \<open>
  The bit length is assembled from the block counter and the buffer fill. The two
  parts do not overlap, so the two 32-bit halves the code writes are the halves
  of one 64-bit sum.
\<close>

lemma len_words_disjoint:
  fixes nb :: u64
  assumes "n < 2 ^ k" 
  shows "push_bit (3 + k) nb + push_bit 3 (of_nat n) = push_bit (3 + k) nb OR push_bit 3 (of_nat n)"
proof -
  have "push_bit (3 + k) nb AND push_bit 3 (of_nat n) = 0"
    by (rule bit_word_eqI) (auto simp: bit_simps not_bit_nat_small [OF assms])
  then show ?thesis by (rule disjunctive_add_eq_or)
qed

lemma PUTU64_split: "PUTU64 w = PUTU32 (drop_bit 32 w) @ PUTU32 w"
  by (simp add: PUTU64_def PUTU32_def)

lemma len_field_64:
  assumes "n < 64"
  shows "PUTU32 (drop_bit 23 (nb::u64)) @ PUTU32 (push_bit 9 nb + push_bit 3 (of_nat n))
    = PUTU64 (push_bit 9 nb + push_bit 3 (of_nat n))"
proof -
  have n: "n < 2 ^ 6" using assms by simp
  have "PUTU32 (drop_bit 32 (push_bit 9 nb + push_bit 3 (of_nat n))) = PUTU32 (drop_bit 23 nb)"
    using len_words_disjoint [OF n, of nb]
    by (auto simp: PUTU32_def bit_simps not_bit_nat_small [OF n] intro!: bit_word_eqI)
  then show ?thesis by (simp add: PUTU64_split)
qed

lemma len_field_value:
  "push_bit 9 (of_nat q) + push_bit 3 (of_nat n) = (of_nat (8 * (64 * q + n)) :: u64)"
  by (simp add: push_bit_eq_mult algebra_simps)

text \<open>The 64-bit big-endian bit length of a message.\<close>

abbreviation len64 :: "bytes \<Rightarrow> bytes" where
  "len64 m \<equiv> PUTU64 (of_nat (8 * length m) :: u64)"

lemma len64_write:
  assumes "n < 64" "length m = 64 * q + n" "56 \<le> length b"
  shows "mem_write (mem_write b 56 (PUTU32 (drop_bit 23 (of_nat q :: u64)))) 60
      (PUTU32 (push_bit 9 (of_nat q :: u64) + push_bit 3 (of_nat n))) = mem_write b 56 (len64 m)"
  using assms(2,3) len_field_64 [OF assms(1), of "of_nat q"] len_field_value [of q n]
  by (simp add: mem_write_adjacent)

lemma length_concat_PUTU32: "length (concat (map PUTU32 ws)) = 4 * length ws"
  by (induction ws) simp_all


section \<open>The contract of a block compressor\<close>

text \<open>
  \<open>comp\<close> folds one block into the chaining value, \<open>cb\<close> is the exported routine
  that takes a number of consecutive blocks.
\<close>

locale md_compress =
  fixes bs :: nat
    and comp :: "'w list \<Rightarrow> bytes \<Rightarrow> 'w list"
    and cb :: "'w list \<Rightarrow> bytes \<Rightarrow> nat \<Rightarrow> 'w list"
  assumes bs_pos: "0 < bs"
    and cb_0: "cb st data 0 = st"
    and cb_Suc: "cb st data (Suc n) = cb (comp st (take bs data)) (drop bs data) n"
begin

lemma cb_1: "length blk = bs \<Longrightarrow> cb st blk (Suc 0) = comp st blk"
  by (simp add: cb_Suc cb_0)

lemma cb_append:
  "length xs = bs * m \<Longrightarrow> cb st (xs @ ys) (m + n) = cb (cb st xs m) ys n"
proof (induction m arbitrary: st xs)
  case 0
  then show ?case by (simp add: cb_0)
next
  case (Suc m)
  then have "length (drop bs xs) = bs * m" "bs \<le> length xs" by simp_all
  with Suc.IH [of "drop bs xs"] show ?case by (simp add: cb_Suc)
qed

lemma cb_take: "bs * n \<le> k \<Longrightarrow> cb st (take k xs) n = cb st xs n"
proof (induction n arbitrary: st xs k)
  case 0
  then show ?case by (simp add: cb_0)
next
  case (Suc n)
  then have "bs \<le> k" "bs * n \<le> k - bs" by simp_all
  with Suc.IH [of "k - bs" _ "drop bs xs"] show ?case
    by (simp add: cb_Suc drop_take min_def)
qed

definition hash_blocks :: "'w list \<Rightarrow> bytes \<Rightarrow> 'w list" where
  "hash_blocks st m = cb st m (length m div bs)"

lemma hash_blocks_append:
  assumes "length xs = bs * q"
  shows "hash_blocks st (xs @ ys) = hash_blocks (hash_blocks st xs) ys"
  using assms bs_pos cb_append [of xs q st ys "length ys div bs"]
  by (simp add: hash_blocks_def)

lemma hash_blocks_chunks:
  "length m = bs * q \<Longrightarrow> hash_blocks st m = foldl comp st (chunks bs m)"
proof (induction q arbitrary: st m)
  case 0
  then show ?case by (simp add: hash_blocks_def cb_0)
next
  case (Suc q)
  from Suc.prems have le: "bs \<le> length m" and "length (drop bs m) = bs * q" and "m \<noteq> []"
    using bs_pos by auto
  with Suc.IH [of "drop bs m" "comp st (take bs m)"] Suc.prems bs_pos show ?case
    by (simp add: hash_blocks_def cb_Suc chunks_step)
qed

lemma hash_blocks_pad:
  "hash_blocks st (md_pad bs len m) = foldl comp st (chunks bs (md_pad bs len m))"
proof -
  have "length (md_pad bs len m) = length m + 1 + md_zeros bs (length len) (length m) + length len"
    by (simp add: md_pad_def)
  then have "bs dvd length (md_pad bs len m)" using md_zeros_fill [OF bs_pos] by metis
  then obtain q where "length (md_pad bs len m) = bs * q" ..
  then show ?thesis by (rule hash_blocks_chunks)
qed

text \<open>A context holds exactly the message \<open>m\<close>.\<close>

definition holds :: "'w list \<Rightarrow> 'w md_ctx \<Rightarrow> bytes \<Rightarrow> bool" where
  "holds iv ctx m \<longleftrightarrow>
     state ctx = hash_blocks iv m \<and> nblocks ctx = of_nat (length m div bs)
     \<and> num ctx = length m mod bs \<and> length (block ctx) = bs
     \<and> take (num ctx) (block ctx) = rest_part bs m"

lemma holds_init: "state ctx = iv \<Longrightarrow> nblocks ctx = 0 \<Longrightarrow> num ctx = 0 \<Longrightarrow>
    length (block ctx) = bs \<Longrightarrow> holds iv ctx []"
  by (simp add: holds_def hash_blocks_def cb_0 rest_part_def)

lemma holds_num: "holds iv ctx m \<Longrightarrow> num ctx < bs"
  using bs_pos by (simp add: holds_def)

lemma holds_block: "holds iv ctx m \<Longrightarrow> length (block ctx) = bs"
  by (simp add: holds_def)

lemma holdsD:
  assumes "holds iv ctx m"
  shows "state ctx = hash_blocks iv m" "nblocks ctx = of_nat (length m div bs)"
    "num ctx = length m mod bs" "length (block ctx) = bs"
    "take (num ctx) (block ctx) = rest_part bs m"
  using assms unfolding holds_def by blast+

text \<open>A message is its full blocks and the bytes that are in the buffer.\<close>

lemma hash_blocks_full: "hash_blocks iv (full_part bs m) = hash_blocks iv m"
  using bs_pos cb_take [of "length m div bs" "full_len bs m" iv m]
  by (simp add: hash_blocks_def full_part_def full_len_def min_absorb2)

lemma absorb_holds:
  assumes q: "length m = bs * q"
    and st: "state ctx = hash_blocks iv m" and nb: "nblocks ctx = of_nat q"
    and blk: "length (block ctx) = bs"
  shows "holds iv (md_absorb bs cb ctx data) (m @ data)"
proof -
  let ?r = "drop (bs * (length data div bs)) data"
  have r: "length ?r = length data mod bs"
    by (simp add: minus_mult_div_eq_mod)
  with bs_pos blk have "length ?r \<le> length (block ctx)" by (simp add: less_imp_le)
  moreover from this have "take (length ?r) (mem_write (block ctx) 0 ?r) = ?r"
    by (simp add: mem_write_def)
  moreover have "hash_blocks iv (m @ data) = cb (state ctx) data (length data div bs)"
    using hash_blocks_append [OF q] st by (simp add: hash_blocks_def)
  ultimately show ?thesis
    using q nb blk r bs_pos
    by (simp add: holds_def md_absorb_def Let_def rest_part_append_full [OF bs_pos q]
        length_mem_write) (simp add: rest_part_def full_len_def)
qed

theorem update_holds:
  assumes h: "holds iv ctx m"
  shows "holds iv (md_update bs cb ctx data) (m @ data)"
proof -
  let ?full = "full_part bs m" and ?rest = "rest_part bs m" and ?q = "length m div bs"
  let ?left = "bs - num ctx"
  have m: "?full @ ?rest = m" by simp
  have lf: "length ?full = bs * ?q" by (simp add: length_full_part full_len_def)
  have lr: "length ?rest = num ctx" using h by (simp add: holds_def length_rest_part)
  have n: "num ctx < bs" using h by (rule holds_num)
  note facts = holdsD [OF h]
  consider "num ctx = 0" | "num ctx \<noteq> 0" "length data < ?left" | "num ctx \<noteq> 0" "?left \<le> length data"
    by linarith
  then show ?thesis
  proof cases
    case 1
    then have "length m = bs * ?q" using facts by (metis mod_0_imp_dvd dvd_mult_div_cancel)
    with facts 1 show ?thesis by (simp add: md_update_def absorb_holds)
  next
    case 2
    let ?m = "m @ data"
    have eq: "?m = ?full @ (?rest @ data)" by (metis append.assoc m)
    have small: "length (?rest @ data) < bs" using 2 lr by simp
    have "length ?m div bs = ?q" "length ?m mod bs = num ctx + length data"
      unfolding eq length_append [of ?full] lf using small lr bs_pos by simp_all
    moreover have "rest_part bs ?m = ?rest @ data"
      unfolding eq rest_part_append_full [OF bs_pos lf] using small by (simp add: rest_part_small)
    moreover have "hash_blocks iv ?m = hash_blocks iv m"
      unfolding eq hash_blocks_append [OF lf] hash_blocks_full
      using small by (simp add: hash_blocks_def cb_0)
    ultimately show ?thesis
      using 2 facts n by (simp add: md_update_def Let_def holds_def mem_simps)
  next
    case 3
    let ?blk = "mem_write (block ctx) (num ctx) (take ?left data)"
    let ?ctx = "ctx\<lparr>block := ?blk, state := cb (state ctx) ?blk 1, nblocks := nblocks ctx + 1\<rparr>"
    have blk: "?blk = ?rest @ take ?left data" using 3 facts n by (simp add: mem_write_def)
    then have lb: "length ?blk = bs" using 3 lr n by simp
    have "?full @ ?rest @ data = m @ data" by (simp flip: append.assoc)
    then have eq: "m @ data = (?full @ ?blk) @ drop ?left data" by (simp add: blk)
    have l: "length (?full @ ?blk) = bs * Suc ?q" using lf lb by simp
    have "hash_blocks iv (?full @ ?blk) = cb (state ctx) ?blk 1"
      using facts hash_blocks_append [OF lf] lb bs_pos
      by (simp add: hash_blocks_full) (simp add: hash_blocks_def)
    then have "holds iv (md_absorb bs cb ?ctx (drop ?left data)) (m @ data)"
      unfolding eq using lb facts by (intro absorb_holds [OF l]) simp_all
    then show ?thesis using 3 by (simp add: md_update_def Let_def)
  qed
qed

theorem final_holds:
  assumes h: "holds iv ctx m" and ll: "length len + 1 \<le> bs"
  shows "md_final bs cb len ctx = hash_blocks iv (md_pad bs len m)"
proof -
  let ?full = "full_part bs m" and ?rest = "rest_part bs m" and ?q = "length m div bs"
  let ?n = "num ctx" and ?l = "length len"
  have m: "?full @ ?rest = m" by simp
  have lf: "length ?full = bs * ?q" by (simp add: length_full_part full_len_def)
  have lr: "length ?rest = ?n" using h by (simp add: holds_def length_rest_part)
  have n: "?n < bs" using h by (rule holds_num)
  note facts = holdsD [OF h]
  have z: "md_zeros bs ?l (length m)
      = (if ?n + 1 + ?l \<le> bs then bs - ?n - 1 - ?l else 2 * bs - ?n - 1 - ?l)"
    using n ll facts by (intro md_zeros_cases [where q = ?q]) simp_all
  have pad: "md_pad bs len m
      = ?full @ (?rest @ 0x80 # replicate (md_zeros bs ?l (length m)) 0 @ len)"
    by (simp add: md_pad_def flip: append.assoc)
  have start: "hash_blocks iv (?full @ xs) = hash_blocks (state ctx) xs" for xs
    using facts by (simp add: hash_blocks_append [OF lf] hash_blocks_full)
  show ?thesis
  proof (cases "?n + 1 + ?l \<le> bs")
    case True
    then have "mem_write (mem_set (mem_write (block ctx) ?n [0x80]) (?n + 1) 0 (bs - ?n - 1 - ?l))
        (bs - ?l) len = ?rest @ 0x80 # replicate (bs - ?n - 1 - ?l) 0 @ len"
      using facts n by (simp add: mem_set_after_write mem_write_adjacent mem_write_to_end)
    with True lr show ?thesis
      unfolding pad start z by (simp add: md_final_def Let_def hash_blocks_def bs_pos)
  next
    case False
    let ?b1 = "?rest @ 0x80 # replicate (bs - ?n - 1) 0"
    let ?b2 = "replicate (bs - ?l) 0 @ len"
    have b1: "mem_set (mem_write (block ctx) ?n [0x80]) (?n + 1) 0 (bs - ?n - 1) = ?b1"
      using facts n by (simp add: mem_set_after_write mem_write_to_end)
    have l1: "length ?b1 = bs * 1" using lr n by simp
    have b2: "mem_write (mem_set ?b1 0 0 (bs - ?l)) (bs - ?l) len = ?b2"
      using lr n ll by (simp add: mem_set_def mem_write_def)
    have l2: "length ?b2 = bs" using ll by simp
    have "2 * bs - ?n - 1 - ?l = (bs - ?n - 1) + (bs - ?l)" using n ll by simp
    then have split: "?rest @ 0x80 # replicate (2 * bs - ?n - 1 - ?l) 0 @ len = ?b1 @ ?b2"
      by (simp add: replicate_add)
    from False have "md_zeros bs ?l (length m) = 2 * bs - ?n - 1 - ?l" by (simp add: z)
    then have "hash_blocks iv (md_pad bs len m) = hash_blocks (hash_blocks (state ctx) ?b1) ?b2"
      unfolding pad start using split hash_blocks_append [OF l1] by simp
    also have "\<dots> = md_final bs cb len ctx"
      using False l1 l2 b1 b2 bs_pos unfolding md_final_def Let_def
      by (simp add: hash_blocks_def)
    finally show ?thesis by simp
  qed
qed

lemma stream_holds:
  assumes "\<And>ctx data. num ctx < bs \<Longrightarrow> upd ctx data = md_update bs cb ctx data"
    and "holds iv ctx m"
  shows "holds iv (foldl upd ctx ds) (m @ concat ds)"
  using assms(2)
proof (induction ds arbitrary: ctx m)
  case (Cons d ds)
  have "upd ctx d = md_update bs cb ctx d"
    using assms(1) holds_num [OF Cons.prems] by simp
  with update_holds [OF Cons.prems, of d] Cons.IH [of "upd ctx d" "m @ d"] show ?case
    by simp
qed simp

end


section \<open>A hash built on a block compressor\<close>

text \<open>
  A hash provides \<^verbatim>\<open>init\<close>, \<^verbatim>\<open>update\<close> and \<^verbatim>\<open>finish\<close>; \<open>lenf\<close> is the length field it
  appends and \<open>out\<close> how it writes the chaining value out. What it promises: the
  output is that of the padded message, compressed block by block, however the
  message was cut into pieces.
\<close>

locale md_hash = md_compress bs comp cb
  for bs :: nat and comp :: "'w list \<Rightarrow> bytes \<Rightarrow> 'w list"
    and cb :: "'w list \<Rightarrow> bytes \<Rightarrow> nat \<Rightarrow> 'w list" +
  fixes init :: "'w md_ctx"
    and upd :: "'w md_ctx \<Rightarrow> bytes \<Rightarrow> 'w md_ctx"
    and fin :: "'w md_ctx \<Rightarrow> 'w md_ctx \<times> bytes"
    and lenf :: "bytes \<Rightarrow> bytes"
    and out :: "'w list \<Rightarrow> bytes"
  assumes init_fields: "nblocks init = 0" "num init = 0" "length (block init) = bs"
    and upd_md: "num ctx < bs \<Longrightarrow> upd ctx data = md_update bs cb ctx data"
    and lenf_fits: "length (lenf m) + 1 \<le> bs"
    and fin_md: "num ctx < bs \<Longrightarrow> length (block ctx) = bs \<Longrightarrow> nblocks ctx = of_nat q \<Longrightarrow>
      length m = bs * q + num ctx \<Longrightarrow> snd (fin ctx) = out (md_final bs cb (lenf m) ctx)"
begin

definition ref :: "bytes \<Rightarrow> bytes" where
  "ref m = out (foldl comp (state init) (chunks bs (md_pad bs (lenf m) m)))"

lemma holds_stream: "holds (state init) (foldl upd init ds) (concat ds)"
  using stream_holds [OF upd_md holds_init [OF refl init_fields]] by simp

lemma stream_invariant:
  "num (foldl upd init ds) < bs" "length (block (foldl upd init ds)) = bs"
  using holds_num [OF holds_stream] holds_block [OF holds_stream] .

lemma fin_holds:
  assumes h: "holds (state init) ctx m"
  shows "snd (fin ctx) = ref m"
proof -
  have "length m = bs * (length m div bs) + num ctx" by (simp add: holdsD(3) [OF h])
  with holds_num [OF h] holds_block [OF h] holdsD(2) [OF h]
  have "snd (fin ctx) = out (md_final bs cb (lenf m) ctx)" by (rule fin_md)
  also have "md_final bs cb (lenf m) ctx = hash_blocks (state init) (md_pad bs (lenf m) m)"
    using h lenf_fits by (rule final_holds)
  finally show ?thesis by (simp only: hash_blocks_pad ref_def)
qed

theorem fin_stream: "snd (fin (foldl upd init ds)) = ref (concat ds)"
  by (rule fin_holds [OF holds_stream])

corollary fin_one: "snd (fin (upd init m)) = ref m"
  using fin_stream [of "[m]"] by simp

end


section \<open>The interface of a streaming hash\<close>

text \<open>
  What HMAC and the key derivation rely on: however the input is cut into
  pieces, finishing gives the hash of the whole input.
\<close>

locale stream_hash =
  fixes init :: 'c
    and update :: "'c \<Rightarrow> bytes \<Rightarrow> 'c"
    and finish :: "'c \<Rightarrow> 'c \<times> bytes"
    and hash :: "bytes \<Rightarrow> bytes"
    and hlen :: nat
  assumes finish_stream: "snd (finish (foldl update init ds)) = hash (concat ds)"
    and length_hash: "length (hash m) = hlen"
begin

lemma finish_one: "snd (finish (update init m)) = hash m"
  using finish_stream [of "[m]"] by simp

lemma finish_two: "snd (finish (update (update init m) m')) = hash (m @ m')"
  using finish_stream [of "[m, m']"] by simp

lemma finish_more: "snd (finish (foldl update (update init m) ds)) = hash (m @ concat ds)"
  using finish_stream [of "m # ds"] by simp

end

end
