(* ===== verification/Gm_Sm3.thy ===== *)
theory Gm_Sm3
  imports Gm_Md
begin

text \<open>
  GmSSL, \<^verbatim>\<open>src/sm3.c\<close>: the SM3 hash. The compression function is modelled as it is
  compiled, with \<^verbatim>\<open>FULL_UNROLL\<close>: eight registers that stay in place while the macro
  \<^verbatim>\<open>R8\<close> renames them from round to round. The rolled loop of the other branch is
  the reference it is shown equal to. \<^verbatim>\<open>SM3_SSE3\<close> and \<^verbatim>\<open>SM3_AVX_BMI2\<close> are not
  defined in the modelled build.
\<close>

section \<open>Constants and round functions\<close>

definition P0 :: "u32 \<Rightarrow> u32" where
  "P0 x = x XOR ROL32 x 9 XOR ROL32 x 17"

definition P1 :: "u32 \<Rightarrow> u32" where
  "P1 x = x XOR ROL32 x 15 XOR ROL32 x 23"

definition FF00 :: "u32 \<Rightarrow> u32 \<Rightarrow> u32 \<Rightarrow> u32" where
  "FF00 x y z = x XOR y XOR z"

definition FF16 :: "u32 \<Rightarrow> u32 \<Rightarrow> u32 \<Rightarrow> u32" where
  "FF16 x y z = (x AND y) OR (x AND z) OR (y AND z)"

definition GG00 :: "u32 \<Rightarrow> u32 \<Rightarrow> u32 \<Rightarrow> u32" where
  "GG00 x y z = x XOR y XOR z"

definition GG16 :: "u32 \<Rightarrow> u32 \<Rightarrow> u32 \<Rightarrow> u32" where
  "GG16 x y z = ((y XOR z) AND x) XOR z"

definition T00 :: u32 where "T00 = 0x79cc4519"

definition T16 :: u32 where "T16 = 0x7a879d8a"

definition sm3_K :: "u32 list" where
  "sm3_K = [
    0x79cc4519, 0xf3988a32, 0xe7311465, 0xce6228cb, 0x9cc45197, 0x3988a32f, 0x7311465e, 0xe6228cbc,
    0xcc451979, 0x988a32f3, 0x311465e7, 0x6228cbce, 0xc451979c, 0x88a32f39, 0x11465e73, 0x228cbce6,
    0x9d8a7a87, 0x3b14f50f, 0x7629ea1e, 0xec53d43c, 0xd8a7a879, 0xb14f50f3, 0x629ea1e7, 0xc53d43ce,
    0x8a7a879d, 0x14f50f3b, 0x29ea1e76, 0x53d43cec, 0xa7a879d8, 0x4f50f3b1, 0x9ea1e762, 0x3d43cec5,
    0x7a879d8a, 0xf50f3b14, 0xea1e7629, 0xd43cec53, 0xa879d8a7, 0x50f3b14f, 0xa1e7629e, 0x43cec53d,
    0x879d8a7a, 0x0f3b14f5, 0x1e7629ea, 0x3cec53d4, 0x79d8a7a8, 0xf3b14f50, 0xe7629ea1, 0xcec53d43,
    0x9d8a7a87, 0x3b14f50f, 0x7629ea1e, 0xec53d43c, 0xd8a7a879, 0xb14f50f3, 0x629ea1e7, 0xc53d43ce,
    0x8a7a879d, 0x14f50f3b, 0x29ea1e76, 0x53d43cec, 0xa7a879d8, 0x4f50f3b1, 0x9ea1e762, 0x3d43cec5]"


section \<open>The compression function\<close>

text \<open>
  The registers \<open>A\<close> to \<open>H\<close>. One use of the macro \<^verbatim>\<open>R\<close> assigns the second, the
  fourth, the sixth and the eighth of its register arguments.
\<close>

type_synonym sm3_regs = "u32 \<times> u32 \<times> u32 \<times> u32 \<times> u32 \<times> u32 \<times> u32 \<times> u32"

type_synonym sm3_fun = "u32 \<Rightarrow> u32 \<Rightarrow> u32 \<Rightarrow> u32"

fun sm3_R :: "sm3_fun \<Rightarrow> sm3_fun \<Rightarrow> u32 list \<Rightarrow> nat \<Rightarrow> sm3_regs \<Rightarrow> sm3_regs" where
  "sm3_R FF GG W j (A, B, C, D, E, F, G, H) =
     (let SS1 = ROL32 (ROL32 A 12 + E + sm3_K ! j) 7;
          SS2 = SS1 XOR ROL32 A 12;
          TT1 = FF A B C + D + SS2 + (W ! j XOR W ! (j + 4));
          TT2 = GG E F G + H + SS1 + W ! j
      in (A, ROL32 B 9, C, P0 TT2, E, ROL32 F 19, G, TT1))"

fun sm3_R8 :: "sm3_fun \<Rightarrow> sm3_fun \<Rightarrow> u32 list \<Rightarrow> nat \<Rightarrow> sm3_regs \<Rightarrow> sm3_regs" where
  "sm3_R8 FF GG W j (A, B, C, D, E, F, G, H) =
     (let (A, B, C, D, E, F, G, H) = sm3_R FF GG W j (A, B, C, D, E, F, G, H);
          (H, A, B, C, D, E, F, G) = sm3_R FF GG W (j + 1) (H, A, B, C, D, E, F, G);
          (G, H, A, B, C, D, E, F) = sm3_R FF GG W (j + 2) (G, H, A, B, C, D, E, F);
          (F, G, H, A, B, C, D, E) = sm3_R FF GG W (j + 3) (F, G, H, A, B, C, D, E);
          (E, F, G, H, A, B, C, D) = sm3_R FF GG W (j + 4) (E, F, G, H, A, B, C, D);
          (D, E, F, G, H, A, B, C) = sm3_R FF GG W (j + 5) (D, E, F, G, H, A, B, C);
          (C, D, E, F, G, H, A, B) = sm3_R FF GG W (j + 6) (C, D, E, F, G, H, A, B);
          (B, C, D, E, F, G, H, A) = sm3_R FF GG W (j + 7) (B, C, D, E, F, G, H, A)
      in (A, B, C, D, E, F, G, H))"

text \<open>The message schedule: \<^verbatim>\<open>W[0..15]\<close> from the block, \<^verbatim>\<open>W[16..67]\<close> expanded.\<close>

definition sm3_load :: "bytes \<Rightarrow> u32 list" where
  "sm3_load data = map (\<lambda>j. GETU32 (drop (j * 4) data)) [0..<16]"

definition sm3_expand :: "bytes \<Rightarrow> u32 list" where
  "sm3_expand data =
     fold (\<lambda>j W. W @ [P1 (W ! (j - 16) XOR W ! (j - 9) XOR ROL32 (W ! (j - 3)) 15)
                      XOR ROL32 (W ! (j - 13)) 7 XOR W ! (j - 6)])
       [16..<68] (sm3_load data)"

definition sm3_rounds :: "u32 list \<Rightarrow> sm3_regs \<Rightarrow> sm3_regs" where
  "sm3_rounds W s0 =
     (let s1 = sm3_R8 FF00 GG00 W 0 s0;
          s2 = sm3_R8 FF00 GG00 W 8 s1;
          s3 = sm3_R8 FF16 GG16 W 16 s2;
          s4 = sm3_R8 FF16 GG16 W 24 s3;
          s5 = sm3_R8 FF16 GG16 W 32 s4;
          s6 = sm3_R8 FF16 GG16 W 40 s5;
          s7 = sm3_R8 FF16 GG16 W 48 s6
      in sm3_R8 FF16 GG16 W 56 s7)"

definition sm3_xor_digest :: "u32 list \<Rightarrow> sm3_regs \<Rightarrow> u32 list" where
  "sm3_xor_digest d = (\<lambda>(A, B, C, D, E, F, G, H).
     [d ! 0 XOR A, d ! 1 XOR B, d ! 2 XOR C, d ! 3 XOR D,
      d ! 4 XOR E, d ! 5 XOR F, d ! 6 XOR G, d ! 7 XOR H])"

text \<open>One turn of the \<^verbatim>\<open>while (blocks--)\<close> loop, and the loop.\<close>

definition sm3_compress :: "u32 list \<Rightarrow> bytes \<Rightarrow> u32 list" where
  "sm3_compress d data =
     sm3_xor_digest d (sm3_rounds (sm3_expand data)
       (d ! 0, d ! 1, d ! 2, d ! 3, d ! 4, d ! 5, d ! 6, d ! 7))"

primrec sm3_compress_blocks :: "u32 list \<Rightarrow> bytes \<Rightarrow> nat \<Rightarrow> u32 list" where
  "sm3_compress_blocks d data 0 = d"
| "sm3_compress_blocks d data (Suc blocks) =
     sm3_compress_blocks (sm3_compress d data) (drop 64 data) blocks"


section \<open>init, update, finish, digest\<close>

type_synonym SM3_CTX = "u32 md_ctx"

definition sm3_init :: SM3_CTX where
  "sm3_init = \<lparr>state = [0x7380166F, 0x4914B2B9, 0x172442D7, 0xDA8A0600,
      0xA96F30BC, 0x163138AA, 0xE38DEE4D, 0xB0FB0E4E],
    nblocks = 0, block = replicate 64 0, num = 0\<rparr>"

definition sm3_update_blocks :: "SM3_CTX \<Rightarrow> bytes \<Rightarrow> SM3_CTX" where
  "sm3_update_blocks ctx data =
     (let blocks = length data div 64;
          (ctx, data) = (if blocks \<noteq> 0
            then (ctx\<lparr>state := sm3_compress_blocks (state ctx) data blocks,
                      nblocks := nblocks ctx + of_nat blocks\<rparr>, drop (64 * blocks) data)
            else (ctx, data));
          ctx = ctx\<lparr>num := length data\<rparr>
      in if length data \<noteq> 0 then ctx\<lparr>block := mem_write (block ctx) 0 data\<rparr> else ctx)"

definition sm3_update :: "SM3_CTX \<Rightarrow> bytes \<Rightarrow> SM3_CTX" where
  "sm3_update ctx data =
     (let ctx = ctx\<lparr>num := num ctx AND 0x3f\<rparr> in
      if num ctx \<noteq> 0 then
        let left = 64 - num ctx in
        if length data < left then
          ctx\<lparr>block := mem_write (block ctx) (num ctx) data, num := num ctx + length data\<rparr>
        else
          let ctx = ctx\<lparr>block := mem_write (block ctx) (num ctx) (take left data)\<rparr>;
              ctx = ctx\<lparr>state := sm3_compress_blocks (state ctx) (block ctx) 1,
                        nblocks := nblocks ctx + 1\<rparr>
          in sm3_update_blocks ctx (drop left data)
      else sm3_update_blocks ctx data)"

definition sm3_finish :: "SM3_CTX \<Rightarrow> SM3_CTX \<times> bytes" where
  "sm3_finish ctx =
     (let ctx = ctx\<lparr>num := num ctx AND 0x3f\<rparr>;
          ctx = ctx\<lparr>block := mem_write (block ctx) (num ctx) [0x80]\<rparr>;
          ctx = (if num ctx \<le> 64 - 9
            then ctx\<lparr>block := mem_set (block ctx) (num ctx + 1) 0 (64 - num ctx - 9)\<rparr>
            else
              let ctx = ctx\<lparr>block := mem_set (block ctx) (num ctx + 1) 0 (64 - num ctx - 1)\<rparr>;
                  ctx = ctx\<lparr>state := sm3_compress_blocks (state ctx) (block ctx) 1\<rparr>
              in ctx\<lparr>block := mem_set (block ctx) 0 0 (64 - 8)\<rparr>);
          ctx = ctx\<lparr>block := mem_write (block ctx) 56 (PUTU32 (drop_bit 23 (nblocks ctx)))\<rparr>;
          ctx = ctx\<lparr>block := mem_write (block ctx) 60
                     (PUTU32 (push_bit 9 (nblocks ctx) + push_bit 3 (of_nat (num ctx))))\<rparr>;
          ctx = ctx\<lparr>state := sm3_compress_blocks (state ctx) (block ctx) 1\<rparr>
      in (ctx, concat (map (\<lambda>i. PUTU32 (state ctx ! i)) [0..<8])))"

definition sm3_digest :: "bytes \<Rightarrow> bytes" where
  "sm3_digest msg = snd (sm3_finish (sm3_update sm3_init msg))"


section \<open>The reference: SM3 as the standard states it\<close>

text \<open>
  The rolled loop of the branch that is not compiled, with the round constants
  as rotations of \<^verbatim>\<open>T00\<close> and \<^verbatim>\<open>T16\<close>, over the blocks of the padded message.
\<close>

fun sm3_loop_round :: "sm3_fun \<Rightarrow> sm3_fun \<Rightarrow> u32 list \<Rightarrow> nat \<Rightarrow> sm3_regs \<Rightarrow> sm3_regs" where
  "sm3_loop_round FF GG W j (A, B, C, D, E, F, G, H) =
     (let SS1 = ROL32 (ROL32 A 12 + E + ROL32 (if j < 16 then T00 else T16) (j mod 32)) 7;
          SS2 = SS1 XOR ROL32 A 12;
          TT1 = FF A B C + D + SS2 + (W ! j XOR W ! (j + 4));
          TT2 = GG E F G + H + SS1 + W ! j
      in (TT1, A, ROL32 B 9, C, P0 TT2, E, ROL32 F 19, G))"

definition sm3_loop :: "u32 list \<Rightarrow> sm3_regs \<Rightarrow> sm3_regs" where
  "sm3_loop W s =
     fold (sm3_loop_round FF16 GG16 W) [16..<64] (fold (sm3_loop_round FF00 GG00 W) [0..<16] s)"

definition sm3_ref_compress :: "u32 list \<Rightarrow> bytes \<Rightarrow> u32 list" where
  "sm3_ref_compress d data =
     sm3_xor_digest d (sm3_loop (sm3_expand data)
       (d ! 0, d ! 1, d ! 2, d ! 3, d ! 4, d ! 5, d ! 6, d ! 7))"

definition sm3_ref :: "bytes \<Rightarrow> bytes" where
  "sm3_ref m =
     concat (map PUTU32 (foldl sm3_ref_compress (state sm3_init)
       (chunks 64 (md_pad 64 (PUTU64 (of_nat (8 * length m) :: u64)) m))))"


section \<open>The unrolled rounds are the loop\<close>

lemma sm3_K_table: "j < 64 \<Longrightarrow> sm3_K ! j = ROL32 (if j < 16 then T00 else T16) (j mod 32)"
proof -
  have "list_all (\<lambda>j. sm3_K ! j = ROL32 (if j < 16 then T00 else T16) (j mod 32)) [0..<64]"
    by code_simp
  then show "j < 64 \<Longrightarrow> ?thesis" by (simp add: list_all_iff)
qed

text \<open>
  One use of \<^verbatim>\<open>R\<close> is one turn of the loop with the registers renamed by one place.
\<close>

lemma sm3_R_round:
  "j < 64 \<Longrightarrow> sm3_loop_round FF GG W j (A, B, C, D, E, F, G, H) = (a, b, c, d, e, f, g, h) \<Longrightarrow>
    sm3_R FF GG W j (A, B, C, D, E, F, G, H) = (b, c, d, e, f, g, h, a)"
  by (auto simp: sm3_K_table Let_def)

declare sm3_R.simps [simp del] sm3_loop_round.simps [simp del]

lemma sm3_regs_cases:
  fixes s :: sm3_regs
  obtains A B C D E F G H where "s = (A, B, C, D, E, F, G, H)"
  by (metis surj_pair)

lemma sm3_R8_rounds:
  assumes "j + 7 < 64"
  shows "sm3_R8 FF GG W j s = fold (sm3_loop_round FF GG W) (map ((+) j) [0..<8]) s"
proof -
  let ?r = "sm3_loop_round FF GG W"
  obtain A B C D E F G H where s: "s = (A, B, C, D, E, F, G, H)" by (cases s rule: sm3_regs_cases)
  obtain a1 b1 c1 d1 e1 f1 g1 h1 where 1: "?r j s = (a1, b1, c1, d1, e1, f1, g1, h1)"
    by (cases "?r j s" rule: sm3_regs_cases)
  obtain a2 b2 c2 d2 e2 f2 g2 h2 where
    2: "?r (j + 1) (a1, b1, c1, d1, e1, f1, g1, h1) = (a2, b2, c2, d2, e2, f2, g2, h2)"
    by (cases "?r (j + 1) (a1, b1, c1, d1, e1, f1, g1, h1)" rule: sm3_regs_cases)
  obtain a3 b3 c3 d3 e3 f3 g3 h3 where
    3: "?r (j + 2) (a2, b2, c2, d2, e2, f2, g2, h2) = (a3, b3, c3, d3, e3, f3, g3, h3)"
    by (cases "?r (j + 2) (a2, b2, c2, d2, e2, f2, g2, h2)" rule: sm3_regs_cases)
  obtain a4 b4 c4 d4 e4 f4 g4 h4 where
    4: "?r (j + 3) (a3, b3, c3, d3, e3, f3, g3, h3) = (a4, b4, c4, d4, e4, f4, g4, h4)"
    by (cases "?r (j + 3) (a3, b3, c3, d3, e3, f3, g3, h3)" rule: sm3_regs_cases)
  obtain a5 b5 c5 d5 e5 f5 g5 h5 where
    5: "?r (j + 4) (a4, b4, c4, d4, e4, f4, g4, h4) = (a5, b5, c5, d5, e5, f5, g5, h5)"
    by (cases "?r (j + 4) (a4, b4, c4, d4, e4, f4, g4, h4)" rule: sm3_regs_cases)
  obtain a6 b6 c6 d6 e6 f6 g6 h6 where
    6: "?r (j + 5) (a5, b5, c5, d5, e5, f5, g5, h5) = (a6, b6, c6, d6, e6, f6, g6, h6)"
    by (cases "?r (j + 5) (a5, b5, c5, d5, e5, f5, g5, h5)" rule: sm3_regs_cases)
  obtain a7 b7 c7 d7 e7 f7 g7 h7 where
    7: "?r (j + 6) (a6, b6, c6, d6, e6, f6, g6, h6) = (a7, b7, c7, d7, e7, f7, g7, h7)"
    by (cases "?r (j + 6) (a6, b6, c6, d6, e6, f6, g6, h6)" rule: sm3_regs_cases)
  obtain a8 b8 c8 d8 e8 f8 g8 h8 where
    8: "?r (j + 7) (a7, b7, c7, d7, e7, f7, g7, h7) = (a8, b8, c8, d8, e8, f8, g8, h8)"
    by (cases "?r (j + 7) (a7, b7, c7, d7, e7, f7, g7, h7)" rule: sm3_regs_cases)
  have le: "j < 64" "j + 1 < 64" "j + 2 < 64" "j + 3 < 64" "j + 4 < 64" "j + 5 < 64" "j + 6 < 64"
    using assms by simp_all
  have "sm3_R8 FF GG W j s = (a8, b8, c8, d8, e8, f8, g8, h8)"
    by (simp only: s sm3_R8.simps Let_def prod.case
        sm3_R_round [OF le(1) 1 [unfolded s]] sm3_R_round [OF le(2) 2] sm3_R_round [OF le(3) 3]
        sm3_R_round [OF le(4) 4] sm3_R_round [OF le(5) 5] sm3_R_round [OF le(6) 6]
        sm3_R_round [OF le(7) 7] sm3_R_round [OF assms 8])
  moreover have "fold ?r (map ((+) j) [0..<8]) s = (a8, b8, c8, d8, e8, f8, g8, h8)"
    using 1 2 3 4 5 6 7 8 by (simp add: upt_rec numeral_eq_Suc)
  ultimately show ?thesis by simp
qed

lemma sm3_rounds_loop: "sm3_rounds W s = sm3_loop W s"
proof -
  have l: "[0..<16] = map ((+) 0) [0..<8] @ map ((+) 8) [0..<8::nat]"
    "[16..<64] = map ((+) 16) [0..<8] @ map ((+) 24) [0..<8] @ map ((+) 32) [0..<8]
      @ map ((+) 40) [0..<8] @ map ((+) 48) [0..<8] @ map ((+) 56) [0..<8::nat]"
    by code_simp+
  show ?thesis
    unfolding sm3_rounds_def sm3_loop_def l Let_def by (simp add: sm3_R8_rounds)
qed

lemma sm3_compress_ref: "sm3_compress = sm3_ref_compress"
  by (intro ext) (simp add: sm3_compress_def sm3_ref_compress_def sm3_rounds_loop)


section \<open>Streaming\<close>

lemma sm3_load_take: "sm3_load (take 64 data) = sm3_load data"
  by (simp add: sm3_load_def drop_take)

lemma sm3_compress_take: "sm3_compress d (take 64 data) = sm3_compress d data"
  by (simp only: sm3_compress_def sm3_expand_def sm3_load_take)

lemma length_sm3_xor_digest: "length (sm3_xor_digest d s) = 8"
  by (cases s rule: sm3_regs_cases) (simp add: sm3_xor_digest_def)

lemma length_sm3_compress: "length (sm3_compress d data) = 8"
  by (simp only: sm3_compress_def length_sm3_xor_digest)

lemma sm3_update_blocks_md:
  "sm3_update_blocks ctx data = md_absorb 64 sm3_compress_blocks ctx data"
  by (cases "length data div 64 = 0")
    (auto simp: sm3_update_blocks_def md_absorb_def Let_def minus_mult_div_eq_mod
      dest: mod_0_if_le)

lemma sm3_update_md:
  "num ctx < 64 \<Longrightarrow> sm3_update ctx data = md_update 64 sm3_compress_blocks ctx data"
  by (simp add: sm3_update_def md_update_def sm3_update_blocks_md nat_and_63 Let_def)

lemma sm3_finish_md:
  assumes "num ctx < 64" "length (block ctx) = 64" "nblocks ctx = of_nat q"
    "length m = 64 * q + num ctx"
  shows "snd (sm3_finish ctx) = concat (map (\<lambda>i.
    PUTU32 (md_final 64 sm3_compress_blocks (len64 m) ctx ! i)) [0..<8])"
  using assms len64_write [OF assms(1,4)]
  by (simp add: sm3_finish_def md_final_def Let_def nat_and_63 mem_simps)

interpretation sm3: md_hash 64 sm3_compress sm3_compress_blocks sm3_init sm3_update sm3_finish
  len64 "\<lambda>st. concat (map (\<lambda>i. PUTU32 (st ! i)) [0..<8])"
  by unfold_locales (simp_all add: sm3_init_def sm3_update_md sm3_finish_md sm3_compress_take
      del: upt_Suc)

lemma length_sm3_fold: "length d = 8 \<Longrightarrow> length (foldl sm3_compress d bs) = 8"
  by (induction bs arbitrary: d) (simp_all add: length_sm3_compress)

lemma sm3_stream_ref: "snd (sm3_finish (foldl sm3_update sm3_init ds)) = sm3_ref (concat ds)"
proof -
  let ?d = "foldl sm3_compress (state sm3_init) (chunks 64 (md_pad 64 (len64 (concat ds)) (concat ds)))"
  have "length (state sm3_init) = 8" by (simp add: sm3_init_def)
  then have "length ?d = 8" by (rule length_sm3_fold)
  then show ?thesis
    unfolding sm3.fin_stream sm3.ref_def sm3_ref_def
    by (simp only: map_nth_upt sm3_compress_ref)
qed

lemma sm3_digest_eq_ref: "sm3_digest m = sm3_ref m"
  using sm3_stream_ref [of "[m]"] by (simp add: sm3_digest_def)

lemma length_sm3_ref: "length (sm3_ref m) = 32"
proof -
  have "length (state sm3_init) = 8" by (simp add: sm3_init_def)
  from length_sm3_fold [OF this] show ?thesis
    unfolding sm3_ref_def length_concat_PUTU32 sm3_compress_ref by simp
qed

interpretation sm3_h: stream_hash sm3_init sm3_update sm3_finish sm3_digest 32
  by unfold_locales (simp_all add: sm3_stream_ref sm3_digest_eq_ref length_sm3_ref)

section \<open>Properties\<close>


text \<open>
  Every context reached from \<^verbatim>\<open>sm3_init\<close> by updates has fewer than 64 bytes
  buffered, a buffer that no write has left, and a block counter that counts the
  full blocks of the input; the buffered bytes are the input after its last full
  block.
\<close>

theorem sm3_context_invariant:
  "let ctx = foldl sm3_update sm3_init ds; m = concat ds in
     num ctx = length m mod 64 \<and> length (block ctx) = 64
     \<and> nblocks ctx = of_nat (length m div 64)
     \<and> take (num ctx) (block ctx) = drop (64 * (length m div 64)) m"
  using sm3.holdsD [OF sm3.holds_stream [of ds]]
  unfolding Let_def rest_part_def full_len_def by blast

end
