(* ===== verification/Gm_Sha1.thy ===== *)
theory Gm_Sha1
  imports Gm_Md
begin

text \<open>GmSSL, \<^verbatim>\<open>src/sha1.c\<close>: SHA-1.\<close>

section \<open>Constants and round functions\<close>

definition sha1_F0 :: "u32 \<Rightarrow> u32 \<Rightarrow> u32 \<Rightarrow> u32" where
  "sha1_F0 B C D = (B AND C) OR (NOT B AND D)"

definition sha1_F1 :: "u32 \<Rightarrow> u32 \<Rightarrow> u32 \<Rightarrow> u32" where
  "sha1_F1 B C D = B XOR C XOR D"

definition sha1_F2 :: "u32 \<Rightarrow> u32 \<Rightarrow> u32 \<Rightarrow> u32" where
  "sha1_F2 B C D = (B AND C) OR (B AND D) OR (C AND D)"

definition sha1_F3 :: "u32 \<Rightarrow> u32 \<Rightarrow> u32 \<Rightarrow> u32" where
  "sha1_F3 B C D = B XOR C XOR D"

definition sha1_K0 :: u32 where "sha1_K0 = 0x5A827999"

definition sha1_K1 :: u32 where "sha1_K1 = 0x6ED9EBA1"

definition sha1_K2 :: u32 where "sha1_K2 = 0x8F1BBCDC"

definition sha1_K3 :: u32 where "sha1_K3 = 0xCA62C1D6"


section \<open>The compression function\<close>

type_synonym sha1_regs = "u32 \<times> u32 \<times> u32 \<times> u32 \<times> u32"

definition sha1_load :: "bytes \<Rightarrow> u32 list" where
  "sha1_load data = map (\<lambda>i. GETU32 (drop (i * 4) data)) [0..<16]"

definition sha1_expand :: "u32 list \<Rightarrow> u32 list" where
  "sha1_expand W =
     fold (\<lambda>i W. W @ [ROL32 (W ! (i - 3) XOR W ! (i - 8) XOR W ! (i - 14) XOR W ! (i - 16)) 1])
       [16..<80] W"

text \<open>The body of the four round loops, which differ in the function and the constant.\<close>

fun sha1_round :: "(u32 \<Rightarrow> u32 \<Rightarrow> u32 \<Rightarrow> u32) \<Rightarrow> u32 \<Rightarrow> u32 list \<Rightarrow> nat \<Rightarrow> sha1_regs \<Rightarrow> sha1_regs" where
  "sha1_round F K W i (A, B, C, D, E) =
     (let T = E + F B C D + ROL32 A 5 + W ! i + K in (T, A, ROL32 B 30, C, D))"

definition sha1_compress :: "u32 list \<Rightarrow> bytes \<Rightarrow> u32 list" where
  "sha1_compress st data =
     (let W = sha1_expand (sha1_load data);
          s0 = (st ! 0, st ! 1, st ! 2, st ! 3, st ! 4);
          s1 = fold (sha1_round sha1_F0 sha1_K0 W) [0..<20] s0;
          s2 = fold (sha1_round sha1_F1 sha1_K1 W) [20..<40] s1;
          s3 = fold (sha1_round sha1_F2 sha1_K2 W) [40..<60] s2;
          (A, B, C, D, E) = fold (sha1_round sha1_F3 sha1_K3 W) [60..<80] s3
      in [st ! 0 + A, st ! 1 + B, st ! 2 + C, st ! 3 + D, st ! 4 + E])"

primrec sha1_compress_blocks :: "u32 list \<Rightarrow> bytes \<Rightarrow> nat \<Rightarrow> u32 list" where
  "sha1_compress_blocks st data 0 = st"
| "sha1_compress_blocks st data (Suc blocks) =
     sha1_compress_blocks (sha1_compress st data) (drop 64 data) blocks"


section \<open>init, update, finish, digest\<close>

type_synonym SHA1_CTX = "u32 md_ctx"

definition sha1_init :: SHA1_CTX where
  "sha1_init = \<lparr>state = [0x67452301, 0xEFCDAB89, 0x98BADCFE, 0x10325476, 0xC3D2E1F0],
    nblocks = 0, block = replicate 64 0, num = 0\<rparr>"

definition sha1_update_blocks :: "SHA1_CTX \<Rightarrow> bytes \<Rightarrow> SHA1_CTX" where
  "sha1_update_blocks ctx data =
     (let blocks = length data div 64;
          (ctx, data) = (if blocks \<noteq> 0
            then (ctx\<lparr>state := sha1_compress_blocks (state ctx) data blocks,
                      nblocks := nblocks ctx + of_nat blocks\<rparr>, drop (64 * blocks) data)
            else (ctx, data));
          ctx = ctx\<lparr>num := length data\<rparr>
      in if length data \<noteq> 0 then ctx\<lparr>block := mem_write (block ctx) 0 data\<rparr> else ctx)"

definition sha1_update :: "SHA1_CTX \<Rightarrow> bytes \<Rightarrow> SHA1_CTX" where
  "sha1_update ctx data =
     (let ctx = ctx\<lparr>num := num ctx AND 0x3f\<rparr> in
      if num ctx \<noteq> 0 then
        let left = 64 - num ctx in
        if length data < left then
          ctx\<lparr>block := mem_write (block ctx) (num ctx) data, num := num ctx + length data\<rparr>
        else
          let ctx = ctx\<lparr>block := mem_write (block ctx) (num ctx) (take left data)\<rparr>;
              ctx = ctx\<lparr>state := sha1_compress_blocks (state ctx) (block ctx) 1,
                        nblocks := nblocks ctx + 1\<rparr>
          in sha1_update_blocks ctx (drop left data)
      else sha1_update_blocks ctx data)"

definition sha1_finish :: "SHA1_CTX \<Rightarrow> SHA1_CTX \<times> bytes" where
  "sha1_finish ctx =
     (let ctx = ctx\<lparr>num := num ctx AND 0x3f\<rparr>;
          ctx = ctx\<lparr>block := mem_write (block ctx) (num ctx) [0x80]\<rparr>;
          ctx = (if num ctx \<le> 64 - 9
            then ctx\<lparr>block := mem_set (block ctx) (num ctx + 1) 0 (64 - num ctx - 9)\<rparr>
            else
              let ctx = ctx\<lparr>block := mem_set (block ctx) (num ctx + 1) 0 (64 - num ctx - 1)\<rparr>;
                  ctx = ctx\<lparr>state := sha1_compress_blocks (state ctx) (block ctx) 1\<rparr>
              in ctx\<lparr>block := mem_set (block ctx) 0 0 (64 - 8)\<rparr>);
          ctx = ctx\<lparr>block := mem_write (block ctx) 56 (PUTU32 (drop_bit 23 (nblocks ctx)))\<rparr>;
          ctx = ctx\<lparr>block := mem_write (block ctx) 60
                     (PUTU32 (push_bit 9 (nblocks ctx) + push_bit 3 (of_nat (num ctx))))\<rparr>;
          ctx = ctx\<lparr>state := sha1_compress_blocks (state ctx) (block ctx) 1\<rparr>
      in (ctx, concat (map (\<lambda>i. PUTU32 (state ctx ! i)) [0..<5])))"

definition sha1_digest :: "bytes \<Rightarrow> bytes" where
  "sha1_digest data = snd (sha1_finish (sha1_update sha1_init data))"


section \<open>Streaming\<close>

lemma sha1_load_take: "sha1_load (take 64 data) = sha1_load data"
  by (simp add: sha1_load_def drop_take)

lemma sha1_compress_take: "sha1_compress st (take 64 data) = sha1_compress st data"
  by (simp only: sha1_compress_def sha1_load_take)

lemma sha1_update_blocks_md:
  "sha1_update_blocks ctx data = md_absorb 64 sha1_compress_blocks ctx data"
  by (cases "length data div 64 = 0")
    (auto simp: sha1_update_blocks_def md_absorb_def Let_def minus_mult_div_eq_mod
      dest: mod_0_if_le)

lemma sha1_update_md:
  "num ctx < 64 \<Longrightarrow> sha1_update ctx data = md_update 64 sha1_compress_blocks ctx data"
  by (simp add: sha1_update_def md_update_def sha1_update_blocks_md nat_and_63 Let_def)

lemma sha1_finish_md:
  assumes "num ctx < 64" "length (block ctx) = 64" "nblocks ctx = of_nat q"
    "length m = 64 * q + num ctx"
  shows "snd (sha1_finish ctx) = concat (map (\<lambda>i.
    PUTU32 (md_final 64 sha1_compress_blocks (len64 m) ctx ! i)) [0..<5])"
  using assms len64_write [OF assms(1,4)]
  by (simp add: sha1_finish_def md_final_def Let_def nat_and_63 mem_simps)

interpretation sha1: md_hash 64 sha1_compress sha1_compress_blocks sha1_init sha1_update sha1_finish
  len64 "\<lambda>st. concat (map (\<lambda>i. PUTU32 (st ! i)) [0..<5])"
  by unfold_locales (simp_all add: sha1_init_def sha1_update_md sha1_finish_md sha1_compress_take
      del: upt_Suc)

end
