(* ===== verification/Gm_Sha256.thy ===== *)
theory Gm_Sha256
  imports Gm_Md
begin

text \<open>
  GmSSL, \<^verbatim>\<open>src/sha256.c\<close>: SHA-256, and SHA-224, which runs on the same context with
  other initial values and cuts the output to 28 bytes.
\<close>

section \<open>Constants and round functions\<close>

definition sha256_Ch :: "u32 \<Rightarrow> u32 \<Rightarrow> u32 \<Rightarrow> u32" where
  "sha256_Ch X Y Z = (X AND Y) XOR (NOT X AND Z)"

definition sha256_Maj :: "u32 \<Rightarrow> u32 \<Rightarrow> u32 \<Rightarrow> u32" where
  "sha256_Maj X Y Z = (X AND Y) XOR (X AND Z) XOR (Y AND Z)"

definition sha256_Sigma0 :: "u32 \<Rightarrow> u32" where
  "sha256_Sigma0 X = ROR32 X 2 XOR ROR32 X 13 XOR ROR32 X 22"

definition sha256_Sigma1 :: "u32 \<Rightarrow> u32" where
  "sha256_Sigma1 X = ROR32 X 6 XOR ROR32 X 11 XOR ROR32 X 25"

definition sha256_sigma0 :: "u32 \<Rightarrow> u32" where
  "sha256_sigma0 X = ROR32 X 7 XOR ROR32 X 18 XOR drop_bit 3 X"

definition sha256_sigma1 :: "u32 \<Rightarrow> u32" where
  "sha256_sigma1 X = ROR32 X 17 XOR ROR32 X 19 XOR drop_bit 10 X"

definition sha256_K :: "u32 list" where
  "sha256_K = concat [
    [0x428a2f98, 0x71374491, 0xb5c0fbcf, 0xe9b5dba5],
    [0x3956c25b, 0x59f111f1, 0x923f82a4, 0xab1c5ed5],
    [0xd807aa98, 0x12835b01, 0x243185be, 0x550c7dc3],
    [0x72be5d74, 0x80deb1fe, 0x9bdc06a7, 0xc19bf174],
    [0xe49b69c1, 0xefbe4786, 0x0fc19dc6, 0x240ca1cc],
    [0x2de92c6f, 0x4a7484aa, 0x5cb0a9dc, 0x76f988da],
    [0x983e5152, 0xa831c66d, 0xb00327c8, 0xbf597fc7],
    [0xc6e00bf3, 0xd5a79147, 0x06ca6351, 0x14292967],
    [0x27b70a85, 0x2e1b2138, 0x4d2c6dfc, 0x53380d13],
    [0x650a7354, 0x766a0abb, 0x81c2c92e, 0x92722c85],
    [0xa2bfe8a1, 0xa81a664b, 0xc24b8b70, 0xc76c51a3],
    [0xd192e819, 0xd6990624, 0xf40e3585, 0x106aa070],
    [0x19a4c116, 0x1e376c08, 0x2748774c, 0x34b0bcb5],
    [0x391c0cb3, 0x4ed8aa4a, 0x5b9cca4f, 0x682e6ff3],
    [0x748f82ee, 0x78a5636f, 0x84c87814, 0x8cc70208],
    [0x90befffa, 0xa4506ceb, 0xbef9a3f7, 0xc67178f2]]"


section \<open>The compression function\<close>

type_synonym sha256_regs = "u32 \<times> u32 \<times> u32 \<times> u32 \<times> u32 \<times> u32 \<times> u32 \<times> u32"

definition sha256_load :: "bytes \<Rightarrow> u32 list" where
  "sha256_load data = map (\<lambda>i. GETU32 (drop (i * 4) data)) [0..<16]"

definition sha256_expand :: "u32 list \<Rightarrow> u32 list" where
  "sha256_expand W =
     fold (\<lambda>i W. W @ [sha256_sigma1 (W ! (i - 2)) + W ! (i - 7)
                      + sha256_sigma0 (W ! (i - 15)) + W ! (i - 16)]) [16..<64] W"

fun sha256_round :: "u32 list \<Rightarrow> nat \<Rightarrow> sha256_regs \<Rightarrow> sha256_regs" where
  "sha256_round W i (A, B, C, D, E, F, G, H) =
     (let T1 = H + sha256_Sigma1 E + sha256_Ch E F G + sha256_K ! i + W ! i;
          T2 = sha256_Sigma0 A + sha256_Maj A B C
      in (T1 + T2, A, B, C, D + T1, E, F, G))"

definition sha256_compress :: "u32 list \<Rightarrow> bytes \<Rightarrow> u32 list" where
  "sha256_compress st data =
     (let W = sha256_expand (sha256_load data);
          (A, B, C, D, E, F, G, H) = fold (sha256_round W) [0..<64]
            (st ! 0, st ! 1, st ! 2, st ! 3, st ! 4, st ! 5, st ! 6, st ! 7)
      in [st ! 0 + A, st ! 1 + B, st ! 2 + C, st ! 3 + D,
          st ! 4 + E, st ! 5 + F, st ! 6 + G, st ! 7 + H])"

primrec sha256_compress_blocks :: "u32 list \<Rightarrow> bytes \<Rightarrow> nat \<Rightarrow> u32 list" where
  "sha256_compress_blocks st data 0 = st"
| "sha256_compress_blocks st data (Suc blocks) =
     sha256_compress_blocks (sha256_compress st data) (drop 64 data) blocks"


section \<open>init, update, finish, digest\<close>

type_synonym SHA256_CTX = "u32 md_ctx"

type_synonym SHA224_CTX = "u32 md_ctx"

definition sha256_init :: SHA256_CTX where
  "sha256_init = \<lparr>state = [0x6a09e667, 0xbb67ae85, 0x3c6ef372, 0xa54ff53a,
      0x510e527f, 0x9b05688c, 0x1f83d9ab, 0x5be0cd19],
    nblocks = 0, block = replicate 64 0, num = 0\<rparr>"

definition sha256_update_blocks :: "SHA256_CTX \<Rightarrow> bytes \<Rightarrow> SHA256_CTX" where
  "sha256_update_blocks ctx data =
     (let blocks = length data div 64;
          (ctx, data) = (if blocks \<noteq> 0
            then (ctx\<lparr>state := sha256_compress_blocks (state ctx) data blocks,
                      nblocks := nblocks ctx + of_nat blocks\<rparr>, drop (64 * blocks) data)
            else (ctx, data));
          ctx = ctx\<lparr>num := length data\<rparr>
      in if length data \<noteq> 0 then ctx\<lparr>block := mem_write (block ctx) 0 data\<rparr> else ctx)"

definition sha256_update :: "SHA256_CTX \<Rightarrow> bytes \<Rightarrow> SHA256_CTX" where
  "sha256_update ctx data =
     (let ctx = ctx\<lparr>num := num ctx AND 0x3f\<rparr> in
      if num ctx \<noteq> 0 then
        let left = 64 - num ctx in
        if length data < left then
          ctx\<lparr>block := mem_write (block ctx) (num ctx) data, num := num ctx + length data\<rparr>
        else
          let ctx = ctx\<lparr>block := mem_write (block ctx) (num ctx) (take left data)\<rparr>;
              ctx = ctx\<lparr>state := sha256_compress_blocks (state ctx) (block ctx) 1,
                        nblocks := nblocks ctx + 1\<rparr>
          in sha256_update_blocks ctx (drop left data)
      else sha256_update_blocks ctx data)"

definition sha256_finish :: "SHA256_CTX \<Rightarrow> SHA256_CTX \<times> bytes" where
  "sha256_finish ctx =
     (let ctx = ctx\<lparr>num := num ctx AND 0x3f\<rparr>;
          ctx = ctx\<lparr>block := mem_write (block ctx) (num ctx) [0x80]\<rparr>;
          ctx = (if num ctx \<le> 64 - 9
            then ctx\<lparr>block := mem_set (block ctx) (num ctx + 1) 0 (64 - num ctx - 9)\<rparr>
            else
              let ctx = ctx\<lparr>block := mem_set (block ctx) (num ctx + 1) 0 (64 - num ctx - 1)\<rparr>;
                  ctx = ctx\<lparr>state := sha256_compress_blocks (state ctx) (block ctx) 1\<rparr>
              in ctx\<lparr>block := mem_set (block ctx) 0 0 (64 - 8)\<rparr>);
          ctx = ctx\<lparr>block := mem_write (block ctx) 56 (PUTU32 (drop_bit 23 (nblocks ctx)))\<rparr>;
          ctx = ctx\<lparr>block := mem_write (block ctx) 60
                     (PUTU32 (push_bit 9 (nblocks ctx) + push_bit 3 (of_nat (num ctx))))\<rparr>;
          ctx = ctx\<lparr>state := sha256_compress_blocks (state ctx) (block ctx) 1\<rparr>
      in (ctx, concat (map (\<lambda>i. PUTU32 (state ctx ! i)) [0..<8])))"

definition sha256_digest :: "bytes \<Rightarrow> bytes" where
  "sha256_digest data = snd (sha256_finish (sha256_update sha256_init data))"

definition sha224_init :: SHA224_CTX where
  "sha224_init = \<lparr>state = [0xc1059ed8, 0x367cd507, 0x3070dd17, 0xf70e5939,
      0xffc00b31, 0x68581511, 0x64f98fa7, 0xbefa4fa4],
    nblocks = 0, block = replicate 64 0, num = 0\<rparr>"

definition sha224_update :: "SHA224_CTX \<Rightarrow> bytes \<Rightarrow> SHA224_CTX" where
  "sha224_update ctx data = sha256_update ctx data"

definition sha224_finish :: "SHA224_CTX \<Rightarrow> SHA224_CTX \<times> bytes" where
  "sha224_finish ctx = (let (ctx, buf) = sha256_finish ctx in (ctx, take 28 buf))"

definition sha224_digest :: "bytes \<Rightarrow> bytes" where
  "sha224_digest data = snd (sha224_finish (sha224_update sha224_init data))"


section \<open>Streaming\<close>

lemma sha256_load_take: "sha256_load (take 64 data) = sha256_load data"
  by (simp add: sha256_load_def drop_take)

lemma sha256_compress_take: "sha256_compress st (take 64 data) = sha256_compress st data"
  by (simp only: sha256_compress_def sha256_load_take)

lemma sha256_update_blocks_md:
  "sha256_update_blocks ctx data = md_absorb 64 sha256_compress_blocks ctx data"
  by (cases "length data div 64 = 0")
    (auto simp: sha256_update_blocks_def md_absorb_def Let_def minus_mult_div_eq_mod
      dest: mod_0_if_le)

lemma sha256_update_md:
  "num ctx < 64 \<Longrightarrow> sha256_update ctx data = md_update 64 sha256_compress_blocks ctx data"
  by (simp add: sha256_update_def md_update_def sha256_update_blocks_md nat_and_63 Let_def)

lemma sha256_finish_md:
  assumes "num ctx < 64" "length (block ctx) = 64" "nblocks ctx = of_nat q"
    "length m = 64 * q + num ctx"
  shows "snd (sha256_finish ctx) = concat (map (\<lambda>i.
    PUTU32 (md_final 64 sha256_compress_blocks (len64 m) ctx ! i)) [0..<8])"
  using assms len64_write [OF assms(1,4)]
  by (simp add: sha256_finish_def md_final_def Let_def nat_and_63 mem_simps)

interpretation sha256: md_hash 64 sha256_compress sha256_compress_blocks sha256_init sha256_update sha256_finish
  len64 "\<lambda>st. concat (map (\<lambda>i. PUTU32 (st ! i)) [0..<8])"
  by unfold_locales (simp_all add: sha256_init_def sha256_update_md sha256_finish_md sha256_compress_take
      del: upt_Suc)

interpretation sha224: md_hash 64 sha256_compress sha256_compress_blocks
  sha224_init sha224_update sha224_finish len64
  "\<lambda>st. take 28 (concat (map (\<lambda>i. PUTU32 (st ! i)) [0..<8]))"
  by unfold_locales (simp_all add: sha224_init_def sha224_update_def sha224_finish_def
      sha256_update_md sha256_finish_md sha256_compress_take split_beta del: upt_Suc)

section \<open>Properties\<close>

text \<open>
  C25. SHA-256 and SHA-224: however the message is cut into pieces, the output is the
  chaining value after compressing the blocks of the padded message, with the
  64-bit big-endian bit length at the end, and for SHA-224 its first 28 bytes.
\<close>

theorem sha256_streaming_correct:
  "snd (sha256_finish (foldl sha256_update sha256_init ds)) =
     (let m = concat ds;
          st = foldl sha256_compress (state sha256_init) (chunks 64 (md_pad 64 (len64 m) m))
      in concat (map (\<lambda>i. PUTU32 (st ! i)) [0..<8]))
   \<and> snd (sha224_finish (foldl sha224_update sha224_init ds)) =
     (let m = concat ds;
          st = foldl sha256_compress (state sha224_init) (chunks 64 (md_pad 64 (len64 m) m))
      in take 28 (concat (map (\<lambda>i. PUTU32 (st ! i)) [0..<8])))"
  unfolding sha256.fin_stream sha224.fin_stream sha256.ref_def sha224.ref_def Let_def
  by (intro conjI refl)

end
