(* ===== verification/Gm_Sha512.thy ===== *)
theory Gm_Sha512
  imports Gm_Md
begin

text \<open>
  GmSSL, \<^verbatim>\<open>src/sha512.c\<close>: SHA-512, and SHA-384, which runs on the same context with
  other initial values and cuts the output to 48 bytes.
\<close>

section \<open>Constants and round functions\<close>

definition sha512_Ch :: "u64 \<Rightarrow> u64 \<Rightarrow> u64 \<Rightarrow> u64" where
  "sha512_Ch X Y Z = (X AND Y) XOR (NOT X AND Z)"

definition sha512_Maj :: "u64 \<Rightarrow> u64 \<Rightarrow> u64 \<Rightarrow> u64" where
  "sha512_Maj X Y Z = (X AND Y) XOR (X AND Z) XOR (Y AND Z)"

definition sha512_Sigma0 :: "u64 \<Rightarrow> u64" where
  "sha512_Sigma0 X = ROR64 X 28 XOR ROR64 X 34 XOR ROR64 X 39"

definition sha512_Sigma1 :: "u64 \<Rightarrow> u64" where
  "sha512_Sigma1 X = ROR64 X 14 XOR ROR64 X 18 XOR ROR64 X 41"

definition sha512_sigma0 :: "u64 \<Rightarrow> u64" where
  "sha512_sigma0 X = ROR64 X 1 XOR ROR64 X 8 XOR drop_bit 7 X"

definition sha512_sigma1 :: "u64 \<Rightarrow> u64" where
  "sha512_sigma1 X = ROR64 X 19 XOR ROR64 X 61 XOR drop_bit 6 X"

definition sha512_K :: "u64 list" where
  "sha512_K = concat [
    [0x428a2f98d728ae22, 0x7137449123ef65cd, 0xb5c0fbcfec4d3b2f, 0xe9b5dba58189dbbc],
    [0x3956c25bf348b538, 0x59f111f1b605d019, 0x923f82a4af194f9b, 0xab1c5ed5da6d8118],
    [0xd807aa98a3030242, 0x12835b0145706fbe, 0x243185be4ee4b28c, 0x550c7dc3d5ffb4e2],
    [0x72be5d74f27b896f, 0x80deb1fe3b1696b1, 0x9bdc06a725c71235, 0xc19bf174cf692694],
    [0xe49b69c19ef14ad2, 0xefbe4786384f25e3, 0x0fc19dc68b8cd5b5, 0x240ca1cc77ac9c65],
    [0x2de92c6f592b0275, 0x4a7484aa6ea6e483, 0x5cb0a9dcbd41fbd4, 0x76f988da831153b5],
    [0x983e5152ee66dfab, 0xa831c66d2db43210, 0xb00327c898fb213f, 0xbf597fc7beef0ee4],
    [0xc6e00bf33da88fc2, 0xd5a79147930aa725, 0x06ca6351e003826f, 0x142929670a0e6e70],
    [0x27b70a8546d22ffc, 0x2e1b21385c26c926, 0x4d2c6dfc5ac42aed, 0x53380d139d95b3df],
    [0x650a73548baf63de, 0x766a0abb3c77b2a8, 0x81c2c92e47edaee6, 0x92722c851482353b],
    [0xa2bfe8a14cf10364, 0xa81a664bbc423001, 0xc24b8b70d0f89791, 0xc76c51a30654be30],
    [0xd192e819d6ef5218, 0xd69906245565a910, 0xf40e35855771202a, 0x106aa07032bbd1b8],
    [0x19a4c116b8d2d0c8, 0x1e376c085141ab53, 0x2748774cdf8eeb99, 0x34b0bcb5e19b48a8],
    [0x391c0cb3c5c95a63, 0x4ed8aa4ae3418acb, 0x5b9cca4f7763e373, 0x682e6ff3d6b2b8a3],
    [0x748f82ee5defb2fc, 0x78a5636f43172f60, 0x84c87814a1f0ab72, 0x8cc702081a6439ec],
    [0x90befffa23631e28, 0xa4506cebde82bde9, 0xbef9a3f7b2c67915, 0xc67178f2e372532b],
    [0xca273eceea26619c, 0xd186b8c721c0c207, 0xeada7dd6cde0eb1e, 0xf57d4f7fee6ed178],
    [0x06f067aa72176fba, 0x0a637dc5a2c898a6, 0x113f9804bef90dae, 0x1b710b35131c471b],
    [0x28db77f523047d84, 0x32caab7b40c72493, 0x3c9ebe0a15c9bebc, 0x431d67c49c100d4c],
    [0x4cc5d4becb3e42b6, 0x597f299cfc657e2a, 0x5fcb6fab3ad6faec, 0x6c44198c4a475817]]"


section \<open>The compression function\<close>

type_synonym sha512_regs = "u64 \<times> u64 \<times> u64 \<times> u64 \<times> u64 \<times> u64 \<times> u64 \<times> u64"

definition sha512_load :: "bytes \<Rightarrow> u64 list" where
  "sha512_load data = map (\<lambda>i. GETU64 (drop (i * 8) data)) [0..<16]"

definition sha512_expand :: "u64 list \<Rightarrow> u64 list" where
  "sha512_expand W =
     fold (\<lambda>i W. W @ [sha512_sigma1 (W ! (i - 2)) + W ! (i - 7)
                      + sha512_sigma0 (W ! (i - 15)) + W ! (i - 16)]) [16..<80] W"

fun sha512_round :: "u64 list \<Rightarrow> nat \<Rightarrow> sha512_regs \<Rightarrow> sha512_regs" where
  "sha512_round W i (A, B, C, D, E, F, G, H) =
     (let T1 = H + sha512_Sigma1 E + sha512_Ch E F G + sha512_K ! i + W ! i;
          T2 = sha512_Sigma0 A + sha512_Maj A B C
      in (T1 + T2, A, B, C, D + T1, E, F, G))"

definition sha512_compress :: "u64 list \<Rightarrow> bytes \<Rightarrow> u64 list" where
  "sha512_compress st data =
     (let W = sha512_expand (sha512_load data);
          (A, B, C, D, E, F, G, H) = fold (sha512_round W) [0..<80]
            (st ! 0, st ! 1, st ! 2, st ! 3, st ! 4, st ! 5, st ! 6, st ! 7)
      in [st ! 0 + A, st ! 1 + B, st ! 2 + C, st ! 3 + D,
          st ! 4 + E, st ! 5 + F, st ! 6 + G, st ! 7 + H])"

primrec sha512_compress_blocks :: "u64 list \<Rightarrow> bytes \<Rightarrow> nat \<Rightarrow> u64 list" where
  "sha512_compress_blocks st data 0 = st"
| "sha512_compress_blocks st data (Suc blocks) =
     sha512_compress_blocks (sha512_compress st data) (drop 128 data) blocks"


section \<open>init, update, finish, digest\<close>

type_synonym SHA512_CTX = "u64 md_ctx"

type_synonym SHA384_CTX = "u64 md_ctx"

definition sha512_init :: SHA512_CTX where
  "sha512_init = \<lparr>state = [0x6a09e667f3bcc908, 0xbb67ae8584caa73b, 0x3c6ef372fe94f82b, 0xa54ff53a5f1d36f1,
      0x510e527fade682d1, 0x9b05688c2b3e6c1f, 0x1f83d9abfb41bd6b, 0x5be0cd19137e2179],
    nblocks = 0, block = replicate 128 0, num = 0\<rparr>"

definition sha512_update_blocks :: "SHA512_CTX \<Rightarrow> bytes \<Rightarrow> SHA512_CTX" where
  "sha512_update_blocks ctx data =
     (let blocks = length data div 128;
          (ctx, data) = (if blocks \<noteq> 0
            then (ctx\<lparr>state := sha512_compress_blocks (state ctx) data blocks,
                      nblocks := nblocks ctx + of_nat blocks\<rparr>, drop (128 * blocks) data)
            else (ctx, data));
          ctx = ctx\<lparr>num := length data\<rparr>
      in if length data \<noteq> 0 then ctx\<lparr>block := mem_write (block ctx) 0 data\<rparr> else ctx)"

definition sha512_update :: "SHA512_CTX \<Rightarrow> bytes \<Rightarrow> SHA512_CTX" where
  "sha512_update ctx data =
     (if num ctx \<noteq> 0 then
        let left = 128 - num ctx in
        if length data < left then
          ctx\<lparr>block := mem_write (block ctx) (num ctx) data, num := num ctx + length data\<rparr>
        else
          let ctx = ctx\<lparr>block := mem_write (block ctx) (num ctx) (take left data)\<rparr>;
              ctx = ctx\<lparr>state := sha512_compress_blocks (state ctx) (block ctx) 1,
                        nblocks := nblocks ctx + 1\<rparr>
          in sha512_update_blocks ctx (drop left data)
      else sha512_update_blocks ctx data)"

definition sha512_finish :: "SHA512_CTX \<Rightarrow> SHA512_CTX \<times> bytes" where
  "sha512_finish ctx =
     (let ctx = ctx\<lparr>block := mem_write (block ctx) (num ctx) [0x80]\<rparr>;
          ctx = (if num ctx + 17 \<le> 128
            then ctx\<lparr>block := mem_set (block ctx) (num ctx + 1) 0 (128 - num ctx - 17)\<rparr>
            else
              let ctx = ctx\<lparr>block := mem_set (block ctx) (num ctx + 1) 0 (128 - num ctx - 1)\<rparr>;
                  ctx = ctx\<lparr>state := sha512_compress_blocks (state ctx) (block ctx) 1\<rparr>
              in ctx\<lparr>block := mem_set (block ctx) 0 0 (128 - 16)\<rparr>);
          ctx = ctx\<lparr>block := mem_write (block ctx) 112 (PUTU64 (drop_bit 54 (nblocks ctx)))\<rparr>;
          ctx = ctx\<lparr>block := mem_write (block ctx) 120
                     (PUTU64 (push_bit 10 (nblocks ctx) + push_bit 3 (of_nat (num ctx))))\<rparr>;
          ctx = ctx\<lparr>state := sha512_compress_blocks (state ctx) (block ctx) 1\<rparr>
      in (ctx, concat (map (\<lambda>i. PUTU64 (state ctx ! i)) [0..<8])))"

definition sha512_digest :: "bytes \<Rightarrow> bytes" where
  "sha512_digest data = snd (sha512_finish (sha512_update sha512_init data))"

definition sha384_init :: SHA384_CTX where
  "sha384_init = \<lparr>state = [0xcbbb9d5dc1059ed8, 0x629a292a367cd507, 0x9159015a3070dd17, 0x152fecd8f70e5939,
      0x67332667ffc00b31, 0x8eb44a8768581511, 0xdb0c2e0d64f98fa7, 0x47b5481dbefa4fa4],
    nblocks = 0, block = replicate 128 0, num = 0\<rparr>"

definition sha384_update :: "SHA384_CTX \<Rightarrow> bytes \<Rightarrow> SHA384_CTX" where
  "sha384_update ctx data = sha512_update ctx data"

definition sha384_finish :: "SHA384_CTX \<Rightarrow> SHA384_CTX \<times> bytes" where
  "sha384_finish ctx = (let (ctx, buf) = sha512_finish ctx in (ctx, take 48 buf))"

definition sha384_digest :: "bytes \<Rightarrow> bytes" where
  "sha384_digest data = snd (sha384_finish (sha384_update sha384_init data))"


section \<open>Streaming\<close>

text \<open>
  The 128-bit length field: the code takes the high half from the 64-bit block
  counter, so it is the bit length of every message of less than \<open>2 ^ 64\<close> blocks.
\<close>

abbreviation len128 :: "bytes \<Rightarrow> bytes" where
  "len128 m \<equiv> PUTU64 (drop_bit 54 (of_nat (length m div 128) :: u64))
     @ PUTU64 (of_nat (8 * length m) :: u64)"

lemma len128_value: "push_bit 10 (of_nat q) + push_bit 3 (of_nat n) = (of_nat (8 * (128 * q + n)) :: u64)"
  by (simp add: push_bit_eq_mult algebra_simps)

lemma len128_write:
  assumes "n < 128" "length m = 128 * q + n" "112 \<le> length b"
  shows "mem_write (mem_write b 112 (PUTU64 (drop_bit 54 (of_nat q :: u64)))) 120
      (PUTU64 (push_bit 10 (of_nat q :: u64) + push_bit 3 (of_nat n))) = mem_write b 112 (len128 m)"
  using assms by (simp add: mem_write_adjacent len128_value)

lemma sha512_load_take: "sha512_load (take 128 data) = sha512_load data"
  by (simp add: sha512_load_def drop_take)

lemma sha512_compress_take: "sha512_compress st (take 128 data) = sha512_compress st data"
  by (simp only: sha512_compress_def sha512_load_take)

lemma sha512_update_blocks_md:
  "sha512_update_blocks ctx data = md_absorb 128 sha512_compress_blocks ctx data"
  by (cases "length data div 128 = 0")
    (auto simp: sha512_update_blocks_def md_absorb_def Let_def minus_mult_div_eq_mod
      dest: mod_0_if_le)

lemma sha512_update_md:
  "num ctx < 128 \<Longrightarrow> sha512_update ctx data = md_update 128 sha512_compress_blocks ctx data"
  by (simp add: sha512_update_def md_update_def sha512_update_blocks_md Let_def)

lemma sha512_finish_md:
  assumes "num ctx < 128" "length (block ctx) = 128" "nblocks ctx = of_nat q"
    "length m = 128 * q + num ctx"
  shows "snd (sha512_finish ctx) = concat (map (\<lambda>i.
    PUTU64 (md_final 128 sha512_compress_blocks (len128 m) ctx ! i)) [0..<8])"
  using assms(1-3) len128_write [OF assms(1,4)]
  by (simp add: sha512_finish_def md_final_def Let_def mem_simps)

interpretation sha512: md_hash 128 sha512_compress sha512_compress_blocks
  sha512_init sha512_update sha512_finish len128
  "\<lambda>st. concat (map (\<lambda>i. PUTU64 (st ! i)) [0..<8])"
  by unfold_locales (simp_all add: sha512_init_def sha512_update_md sha512_finish_md
      sha512_compress_take del: upt_Suc)

interpretation sha384: md_hash 128 sha512_compress sha512_compress_blocks
  sha384_init sha384_update sha384_finish len128
  "\<lambda>st. take 48 (concat (map (\<lambda>i. PUTU64 (st ! i)) [0..<8]))"
  by unfold_locales (simp_all add: sha384_init_def sha384_update_def sha384_finish_def
      sha512_update_md sha512_finish_md sha512_compress_take split_beta del: upt_Suc)

section \<open>Properties\<close>

text \<open>
  SHA-512 and SHA-384: however the message is cut into pieces, the output is the
  chaining value after compressing the 128-byte blocks of the padded message, with
  the 128-bit length field at the end, and for SHA-384 its first 48 bytes.
\<close>

theorem sha512_streaming_correct:
  "snd (sha512_finish (foldl sha512_update sha512_init ds)) =
     (let m = concat ds;
          st = foldl sha512_compress (state sha512_init) (chunks 128 (md_pad 128 (len128 m) m))
      in concat (map (\<lambda>i. PUTU64 (st ! i)) [0..<8]))
   \<and> snd (sha384_finish (foldl sha384_update sha384_init ds)) =
     (let m = concat ds;
          st = foldl sha512_compress (state sha384_init) (chunks 128 (md_pad 128 (len128 m) m))
      in take 48 (concat (map (\<lambda>i. PUTU64 (st ! i)) [0..<8])))"
  unfolding sha512.fin_stream sha384.fin_stream sha512.ref_def sha384.ref_def Let_def
  by (intro conjI refl)

end
