(* ===== verification/Gm_Md5.thy ===== *)
theory Gm_Md5
  imports Gm_Md
begin

text \<open>
  GmSSL, \<^verbatim>\<open>src/md5.c\<close>: MD5. The header sizes the state by the block size
  (\<^verbatim>\<open>MD5_STATE_WORDS\<close> is 16), of which the code uses the first four words.
\<close>

section \<open>Constants and round functions\<close>

definition md5_F :: "u32 \<Rightarrow> u32 \<Rightarrow> u32 \<Rightarrow> u32" where
  "md5_F B C D = (B AND C) OR (NOT B AND D)"

definition md5_G :: "u32 \<Rightarrow> u32 \<Rightarrow> u32 \<Rightarrow> u32" where
  "md5_G B C D = (B AND D) OR (C AND NOT D)"

definition md5_H :: "u32 \<Rightarrow> u32 \<Rightarrow> u32 \<Rightarrow> u32" where
  "md5_H B C D = B XOR C XOR D"

definition md5_I :: "u32 \<Rightarrow> u32 \<Rightarrow> u32 \<Rightarrow> u32" where
  "md5_I B C D = C XOR (B OR NOT D)"

definition md5_K :: "u32 list" where
  "md5_K = [
    0xd76aa478, 0xe8c7b756, 0x242070db, 0xc1bdceee, 0xf57c0faf, 0x4787c62a, 0xa8304613, 0xfd469501,
    0x698098d8, 0x8b44f7af, 0xffff5bb1, 0x895cd7be, 0x6b901122, 0xfd987193, 0xa679438e, 0x49b40821,
    0xf61e2562, 0xc040b340, 0x265e5a51, 0xe9b6c7aa, 0xd62f105d, 0x02441453, 0xd8a1e681, 0xe7d3fbc8,
    0x21e1cde6, 0xc33707d6, 0xf4d50d87, 0x455a14ed, 0xa9e3e905, 0xfcefa3f8, 0x676f02d9, 0x8d2a4c8a,
    0xfffa3942, 0x8771f681, 0x6d9d6122, 0xfde5380c, 0xa4beea44, 0x4bdecfa9, 0xf6bb4b60, 0xbebfbc70,
    0x289b7ec6, 0xeaa127fa, 0xd4ef3085, 0x04881d05, 0xd9d4d039, 0xe6db99e5, 0x1fa27cf8, 0xc4ac5665,
    0xf4292244, 0x432aff97, 0xab9423a7, 0xfc93a039, 0x655b59c3, 0x8f0ccc92, 0xffeff47d, 0x85845dd1,
    0x6fa87e4f, 0xfe2ce6e0, 0xa3014314, 0x4e0811a1, 0xf7537e82, 0xbd3af235, 0x2ad7d2bb, 0xeb86d391]"

definition md5_S :: "nat list" where
  "md5_S = [
    7, 12, 17, 22, 7, 12, 17, 22, 7, 12, 17, 22, 7, 12, 17, 22,
    5, 9, 14, 20, 5, 9, 14, 20, 5, 9, 14, 20, 5, 9, 14, 20,
    4, 11, 16, 23, 4, 11, 16, 23, 4, 11, 16, 23, 4, 11, 16, 23,
    6, 10, 15, 21, 6, 10, 15, 21, 6, 10, 15, 21, 6, 10, 15, 21]"


section \<open>The compression function\<close>

type_synonym md5_regs = "u32 \<times> u32 \<times> u32 \<times> u32"

definition md5_load :: "bytes \<Rightarrow> u32 list" where
  "md5_load data = map (\<lambda>i. GETU32_LE (drop (i * 4) data)) [0..<16]"

text \<open>The body of the four round loops, which differ in the function and the word index.\<close>

fun md5_round ::
  "(u32 \<Rightarrow> u32 \<Rightarrow> u32 \<Rightarrow> u32) \<Rightarrow> (nat \<Rightarrow> nat) \<Rightarrow> u32 list \<Rightarrow> nat \<Rightarrow> md5_regs \<Rightarrow> md5_regs" where
  "md5_round F g W i (A, B, C, D) =
     (let T = ROL32 (A + F B C D + W ! g i + md5_K ! i) (md5_S ! i) + B in (D, T, B, C))"

definition md5_compress :: "u32 list \<Rightarrow> bytes \<Rightarrow> u32 list" where
  "md5_compress st data =
     (let W = md5_load data;
          s0 = (st ! 0, st ! 1, st ! 2, st ! 3);
          s1 = fold (md5_round md5_F (\<lambda>i. i) W) [0..<16] s0;
          s2 = fold (md5_round md5_G (\<lambda>i. (5 * i + 1) mod 16) W) [16..<32] s1;
          s3 = fold (md5_round md5_H (\<lambda>i. (3 * i + 5) mod 16) W) [32..<48] s2;
          (A, B, C, D) = fold (md5_round md5_I (\<lambda>i. (7 * i) mod 16) W) [48..<64] s3
      in st[0 := st ! 0 + A, 1 := st ! 1 + B, 2 := st ! 2 + C, 3 := st ! 3 + D])"

primrec md5_compress_blocks :: "u32 list \<Rightarrow> bytes \<Rightarrow> nat \<Rightarrow> u32 list" where
  "md5_compress_blocks st data 0 = st"
| "md5_compress_blocks st data (Suc blocks) =
     md5_compress_blocks (md5_compress st data) (drop 64 data) blocks"


section \<open>init, update, finish, digest\<close>

type_synonym MD5_CTX = "u32 md_ctx"

definition md5_init :: MD5_CTX where
  "md5_init = \<lparr>state = [0x67452301, 0xefcdab89, 0x98badcfe, 0x10325476] @ replicate 12 0,
    nblocks = 0, block = replicate 64 0, num = 0\<rparr>"

definition md5_update_blocks :: "MD5_CTX \<Rightarrow> bytes \<Rightarrow> MD5_CTX" where
  "md5_update_blocks ctx data =
     (let blocks = length data div 64;
          ctx = ctx\<lparr>state := md5_compress_blocks (state ctx) data blocks,
                    nblocks := nblocks ctx + of_nat blocks\<rparr>;
          data = drop (64 * blocks) data;
          ctx = ctx\<lparr>num := length data\<rparr>
      in if length data \<noteq> 0 then ctx\<lparr>block := mem_write (block ctx) 0 data\<rparr> else ctx)"

definition md5_update :: "MD5_CTX \<Rightarrow> bytes \<Rightarrow> MD5_CTX" where
  "md5_update ctx data =
     (let ctx = ctx\<lparr>num := num ctx AND 0x3f\<rparr> in
      if num ctx \<noteq> 0 then
        let left = 64 - num ctx in
        if length data < left then
          ctx\<lparr>block := mem_write (block ctx) (num ctx) data, num := num ctx + length data\<rparr>
        else
          let ctx = ctx\<lparr>block := mem_write (block ctx) (num ctx) (take left data)\<rparr>;
              ctx = ctx\<lparr>state := md5_compress_blocks (state ctx) (block ctx) 1,
                        nblocks := nblocks ctx + 1\<rparr>
          in md5_update_blocks ctx (drop left data)
      else md5_update_blocks ctx data)"

definition md5_finish :: "MD5_CTX \<Rightarrow> MD5_CTX \<times> bytes" where
  "md5_finish ctx =
     (let ctx = ctx\<lparr>num := num ctx AND 0x3f\<rparr>;
          ctx = ctx\<lparr>block := mem_write (block ctx) (num ctx) [0x80]\<rparr>;
          ctx = (if num ctx \<le> 64 - 9
            then ctx\<lparr>block := mem_set (block ctx) (num ctx + 1) 0 (64 - num ctx - 9)\<rparr>
            else
              let ctx = ctx\<lparr>block := mem_set (block ctx) (num ctx + 1) 0 (64 - num ctx - 1)\<rparr>;
                  ctx = ctx\<lparr>state := md5_compress_blocks (state ctx) (block ctx) 1\<rparr>
              in ctx\<lparr>block := mem_set (block ctx) 0 0 (64 - 8)\<rparr>);
          ctx = ctx\<lparr>block := mem_write (block ctx) 56
                     (PUTU64_LE (push_bit 9 (nblocks ctx) + push_bit 3 (of_nat (num ctx))))\<rparr>;
          ctx = ctx\<lparr>state := md5_compress_blocks (state ctx) (block ctx) 1\<rparr>
      in (ctx, concat (map (\<lambda>i. PUTU32_LE (state ctx ! i)) [0..<4])))"

definition md5_digest :: "bytes \<Rightarrow> bytes" where
  "md5_digest data = snd (md5_finish (md5_update md5_init data))"


section \<open>Streaming\<close>

abbreviation len64_le :: "bytes \<Rightarrow> bytes" where
  "len64_le m \<equiv> PUTU64_LE (of_nat (8 * length m))"

lemma md5_load_take: "md5_load (take 64 data) = md5_load data"
  by (simp add: md5_load_def drop_take)

lemma md5_compress_take: "md5_compress st (take 64 data) = md5_compress st data"
  by (simp only: md5_compress_def md5_load_take)

lemma md5_update_blocks_md:
  "md5_update_blocks ctx data = md_absorb 64 md5_compress_blocks ctx data"
  by (auto simp: md5_update_blocks_def md_absorb_def Let_def minus_mult_div_eq_mod
      dest: mod_0_if_le)

lemma md5_update_md:
  "num ctx < 64 \<Longrightarrow> md5_update ctx data = md_update 64 md5_compress_blocks ctx data"
  by (simp add: md5_update_def md_update_def md5_update_blocks_md nat_and_63 Let_def)

lemma md5_finish_md:
  assumes "num ctx < 64" "length (block ctx) = 64" "nblocks ctx = of_nat q"
    "length m = 64 * q + num ctx"
  shows "snd (md5_finish ctx) = concat (map (\<lambda>i.
    PUTU32_LE (md_final 64 md5_compress_blocks (len64_le m) ctx ! i)) [0..<4])"
  using assms len_field_value [of q "num ctx"]
  by (simp add: md5_finish_def md_final_def Let_def nat_and_63)

interpretation md5: md_hash 64 md5_compress md5_compress_blocks md5_init md5_update md5_finish
  len64_le "\<lambda>st. concat (map (\<lambda>i. PUTU32_LE (st ! i)) [0..<4])"
  by unfold_locales (simp_all add: md5_init_def md5_update_md md5_finish_md md5_compress_take
      del: upt_Suc)

end
