(* ===== verification/Gm_Digest.thy ===== *)
theory Gm_Digest
  imports Gm_Sm3 Gm_Sha1 Gm_Sha256 Gm_Sha512 Gm_Md5
begin

text \<open>
  GmSSL, \<^verbatim>\<open>src/digest.c\<close>: one interface over all hashes. A \<^verbatim>\<open>DIGEST\<close> is a table of
  function pointers, a \<^verbatim>\<open>DIGEST_CTX\<close> a union of the contexts with the table in use.
  Modelled with \<^verbatim>\<open>ENABLE_BROKEN_CRYPTO\<close>, that is with MD5 and SHA-1 present. A null
  \<^verbatim>\<open>DIGEST\<close> pointer is \<open>None\<close>; null data is the empty string, which the code treats
  alike. Output pointers are taken to be valid.
\<close>

section \<open>The union and the method table\<close>

datatype digest_oid = OID_sm3 | OID_md5 | OID_sha1 | OID_sha224 | OID_sha256 | OID_sha384
  | OID_sha512 | OID_sha512_224 | OID_sha512_256

text \<open>The member last written; \<open>U_zero\<close> is the union after \<^verbatim>\<open>memset\<close>.\<close>

datatype digest_union = U_zero
  | U_sm3 SM3_CTX
  | U_md5 MD5_CTX
  | U_sha1 SHA1_CTX
  | U_sha224 SHA224_CTX
  | U_sha256 SHA256_CTX
  | U_sha384 SHA384_CTX
  | U_sha512 SHA512_CTX

record DIGEST =
  oid :: digest_oid
  digest_size :: nat
  block_size :: nat
  init :: "digest_union \<Rightarrow> digest_union"
  update :: "digest_union \<Rightarrow> bytes \<Rightarrow> digest_union"
  finish :: "digest_union \<Rightarrow> digest_union \<times> bytes"

record DIGEST_CTX =
  u :: digest_union
  digest_alg :: DIGEST


section \<open>The hashes as methods\<close>

definition sm3_digest_init :: "digest_union \<Rightarrow> digest_union" where
  "sm3_digest_init _ = U_sm3 sm3_init"

definition sm3_digest_update :: "digest_union \<Rightarrow> bytes \<Rightarrow> digest_union" where
  "sm3_digest_update x data = (case x of U_sm3 c \<Rightarrow> U_sm3 (sm3_update c data) | _ \<Rightarrow> x)"

definition sm3_digest_finish :: "digest_union \<Rightarrow> digest_union \<times> bytes" where
  "sm3_digest_finish x =
     (case x of U_sm3 c \<Rightarrow> let (c, dgst) = sm3_finish c in (U_sm3 c, dgst) | _ \<Rightarrow> (x, []))"

definition DIGEST_sm3 :: DIGEST where
  "DIGEST_sm3 = \<lparr>oid = OID_sm3, digest_size = 32, block_size = 64,
    init = sm3_digest_init, update = sm3_digest_update, finish = sm3_digest_finish\<rparr>"

definition md5_digest_init :: "digest_union \<Rightarrow> digest_union" where
  "md5_digest_init _ = U_md5 md5_init"

definition md5_digest_update :: "digest_union \<Rightarrow> bytes \<Rightarrow> digest_union" where
  "md5_digest_update x data = (case x of U_md5 c \<Rightarrow> U_md5 (md5_update c data) | _ \<Rightarrow> x)"

definition md5_digest_finish :: "digest_union \<Rightarrow> digest_union \<times> bytes" where
  "md5_digest_finish x =
     (case x of U_md5 c \<Rightarrow> let (c, dgst) = md5_finish c in (U_md5 c, dgst) | _ \<Rightarrow> (x, []))"

definition DIGEST_md5 :: DIGEST where
  "DIGEST_md5 = \<lparr>oid = OID_md5, digest_size = 16, block_size = 64,
    init = md5_digest_init, update = md5_digest_update, finish = md5_digest_finish\<rparr>"

definition sha1_digest_init :: "digest_union \<Rightarrow> digest_union" where
  "sha1_digest_init _ = U_sha1 sha1_init"

definition sha1_digest_update :: "digest_union \<Rightarrow> bytes \<Rightarrow> digest_union" where
  "sha1_digest_update x data = (case x of U_sha1 c \<Rightarrow> U_sha1 (sha1_update c data) | _ \<Rightarrow> x)"

definition sha1_digest_finish :: "digest_union \<Rightarrow> digest_union \<times> bytes" where
  "sha1_digest_finish x =
     (case x of U_sha1 c \<Rightarrow> let (c, dgst) = sha1_finish c in (U_sha1 c, dgst) | _ \<Rightarrow> (x, []))"

definition DIGEST_sha1 :: DIGEST where
  "DIGEST_sha1 = \<lparr>oid = OID_sha1, digest_size = 20, block_size = 64,
    init = sha1_digest_init, update = sha1_digest_update, finish = sha1_digest_finish\<rparr>"

definition sha224_digest_init :: "digest_union \<Rightarrow> digest_union" where
  "sha224_digest_init _ = U_sha224 sha224_init"

definition sha224_digest_update :: "digest_union \<Rightarrow> bytes \<Rightarrow> digest_union" where
  "sha224_digest_update x data = (case x of U_sha224 c \<Rightarrow> U_sha224 (sha224_update c data) | _ \<Rightarrow> x)"

definition sha224_digest_finish :: "digest_union \<Rightarrow> digest_union \<times> bytes" where
  "sha224_digest_finish x =
     (case x of U_sha224 c \<Rightarrow> let (c, dgst) = sha224_finish c in (U_sha224 c, dgst) | _ \<Rightarrow> (x, []))"

definition DIGEST_sha224 :: DIGEST where
  "DIGEST_sha224 = \<lparr>oid = OID_sha224, digest_size = 28, block_size = 64,
    init = sha224_digest_init, update = sha224_digest_update, finish = sha224_digest_finish\<rparr>"

definition sha256_digest_init :: "digest_union \<Rightarrow> digest_union" where
  "sha256_digest_init _ = U_sha256 sha256_init"

definition sha256_digest_update :: "digest_union \<Rightarrow> bytes \<Rightarrow> digest_union" where
  "sha256_digest_update x data = (case x of U_sha256 c \<Rightarrow> U_sha256 (sha256_update c data) | _ \<Rightarrow> x)"

definition sha256_digest_finish :: "digest_union \<Rightarrow> digest_union \<times> bytes" where
  "sha256_digest_finish x =
     (case x of U_sha256 c \<Rightarrow> let (c, dgst) = sha256_finish c in (U_sha256 c, dgst) | _ \<Rightarrow> (x, []))"

definition DIGEST_sha256 :: DIGEST where
  "DIGEST_sha256 = \<lparr>oid = OID_sha256, digest_size = 32, block_size = 64,
    init = sha256_digest_init, update = sha256_digest_update, finish = sha256_digest_finish\<rparr>"

definition sha384_digest_init :: "digest_union \<Rightarrow> digest_union" where
  "sha384_digest_init _ = U_sha384 sha384_init"

definition sha384_digest_update :: "digest_union \<Rightarrow> bytes \<Rightarrow> digest_union" where
  "sha384_digest_update x data = (case x of U_sha384 c \<Rightarrow> U_sha384 (sha384_update c data) | _ \<Rightarrow> x)"

definition sha384_digest_finish :: "digest_union \<Rightarrow> digest_union \<times> bytes" where
  "sha384_digest_finish x =
     (case x of U_sha384 c \<Rightarrow> let (c, dgst) = sha384_finish c in (U_sha384 c, dgst) | _ \<Rightarrow> (x, []))"

definition DIGEST_sha384 :: DIGEST where
  "DIGEST_sha384 = \<lparr>oid = OID_sha384, digest_size = 48, block_size = 128,
    init = sha384_digest_init, update = sha384_digest_update, finish = sha384_digest_finish\<rparr>"

definition sha512_digest_init :: "digest_union \<Rightarrow> digest_union" where
  "sha512_digest_init _ = U_sha512 sha512_init"

definition sha512_digest_update :: "digest_union \<Rightarrow> bytes \<Rightarrow> digest_union" where
  "sha512_digest_update x data = (case x of U_sha512 c \<Rightarrow> U_sha512 (sha512_update c data) | _ \<Rightarrow> x)"

definition sha512_digest_finish :: "digest_union \<Rightarrow> digest_union \<times> bytes" where
  "sha512_digest_finish x =
     (case x of U_sha512 c \<Rightarrow> let (c, dgst) = sha512_finish c in (U_sha512 c, dgst) | _ \<Rightarrow> (x, []))"

definition DIGEST_sha512 :: DIGEST where
  "DIGEST_sha512 = \<lparr>oid = OID_sha512, digest_size = 64, block_size = 128,
    init = sha512_digest_init, update = sha512_digest_update, finish = sha512_digest_finish\<rparr>"

definition sha512_224_digest_finish :: "digest_union \<Rightarrow> digest_union \<times> bytes" where
  "sha512_224_digest_finish x =
     (case x of U_sha512 c \<Rightarrow> let (c, buf) = sha512_finish c in (U_sha512 c, take 28 buf)
      | _ \<Rightarrow> (x, []))"

definition DIGEST_sha512_224 :: DIGEST where
  "DIGEST_sha512_224 = \<lparr>oid = OID_sha512_224, digest_size = 28, block_size = 128,
    init = sha512_digest_init, update = sha512_digest_update,
    finish = sha512_224_digest_finish\<rparr>"

definition sha512_256_digest_finish :: "digest_union \<Rightarrow> digest_union \<times> bytes" where
  "sha512_256_digest_finish x =
     (case x of U_sha512 c \<Rightarrow> let (c, buf) = sha512_finish c in (U_sha512 c, take 32 buf)
      | _ \<Rightarrow> (x, []))"

definition DIGEST_sha512_256 :: DIGEST where
  "DIGEST_sha512_256 = \<lparr>oid = OID_sha512_256, digest_size = 32, block_size = 128,
    init = sha512_digest_init, update = sha512_digest_update,
    finish = sha512_256_digest_finish\<rparr>"


section \<open>The interface\<close>

definition digest_init :: "DIGEST option \<Rightarrow> DIGEST_CTX option" where
  "digest_init algor = (case algor of None \<Rightarrow> None
     | Some d \<Rightarrow> Some \<lparr>u = init d U_zero, digest_alg = d\<rparr>)"

text \<open>Returns 1, or 0 and an unchanged context for empty input.\<close>

definition digest_update :: "DIGEST_CTX \<Rightarrow> bytes \<Rightarrow> int \<times> DIGEST_CTX" where
  "digest_update ctx data =
     (if length data = 0 then (0, ctx)
      else (1, ctx\<lparr>u := update (digest_alg ctx) (u ctx) data\<rparr>))"

text \<open>The output bytes, of which the caller is told that there are \<^verbatim>\<open>digest_size\<close>.\<close>

definition digest_finish :: "DIGEST_CTX \<Rightarrow> DIGEST_CTX \<times> bytes \<times> nat" where
  "digest_finish ctx =
     (let (x, dgst) = finish (digest_alg ctx) (u ctx)
      in (ctx\<lparr>u := x\<rparr>, dgst, digest_size (digest_alg ctx)))"

definition digest :: "DIGEST option \<Rightarrow> bytes \<Rightarrow> (bytes \<times> nat) option" where
  "digest algor data = (case digest_init algor of None \<Rightarrow> None
     | Some ctx \<Rightarrow> let (r, ctx) = digest_update ctx data in
         if r < 0 then None else Some (snd (digest_finish ctx)))"

definition digest_table :: "(digest_oid \<times> string) list" where
  "digest_table = [(OID_sm3, ''sm3''), (OID_md5, ''md5''), (OID_sha1, ''sha1''),
     (OID_sha224, ''sha224''), (OID_sha256, ''sha256''), (OID_sha384, ''sha384''),
     (OID_sha512, ''sha512'')]"

definition digest_name :: "DIGEST \<Rightarrow> string option" where
  "digest_name d = map_of digest_table (oid d)"

definition digest_from_name :: "string \<Rightarrow> DIGEST option" where
  "digest_from_name name =
     (if name = ''sm3'' \<or> name = ''SM3'' then Some DIGEST_sm3
      else if name = ''md5'' \<or> name = ''MD5'' then Some DIGEST_md5
      else if name = ''sha1'' \<or> name = ''SHA1'' then Some DIGEST_sha1
      else if name = ''sha224'' \<or> name = ''SHA224'' then Some DIGEST_sha224
      else if name = ''sha256'' \<or> name = ''SHA256'' then Some DIGEST_sha256
      else if name = ''sha384'' \<or> name = ''SHA384'' then Some DIGEST_sha384
      else if name = ''sha512'' \<or> name = ''SHA512'' then Some DIGEST_sha512
      else if name = ''sha512-224'' \<or> name = ''SHA512-224'' then Some DIGEST_sha512_224
      else if name = ''sha512-256'' \<or> name = ''SHA512-256'' then Some DIGEST_sha512_256
      else None)"


section \<open>The contract of a digest\<close>

text \<open>
  What HMAC and the key derivation functions rely on: a table whose methods
  stream, whose output has the declared size, and whose block holds a digest.
\<close>

locale digest_algorithm =
  fixes d :: DIGEST and hash :: "bytes \<Rightarrow> bytes"
  assumes methods_stream:
      "snd (finish d (foldl (update d) (init d U_zero) ds)) = hash (concat ds)"
    and hash_size: "length (hash m) = digest_size d"
    and size_fits: "0 < digest_size d" "digest_size d \<le> 64" "digest_size d \<le> block_size d"
      "block_size d \<le> 128"
begin

definition start :: DIGEST_CTX where
  "start = \<lparr>u = init d U_zero, digest_alg = d\<rparr>"

definition upd :: "DIGEST_CTX \<Rightarrow> bytes \<Rightarrow> DIGEST_CTX" where
  "upd ctx data = snd (digest_update ctx data)"

definition fin :: "DIGEST_CTX \<Rightarrow> DIGEST_CTX \<times> bytes" where
  "fin ctx = (fst (digest_finish ctx), fst (snd (digest_finish ctx)))"

lemma digest_init_Some: "digest_init (Some d) = Some start"
  by (simp add: digest_init_def start_def)

text \<open>Skipping empty pieces does not change what is hashed.\<close>

lemma upd_fields:
  "foldl upd ctx ds = ctx\<lparr>u := foldl (update (digest_alg ctx)) (u ctx) (filter (\<lambda>x. x \<noteq> []) ds)\<rparr>"
  by (induction ds arbitrary: ctx) (simp_all add: upd_def digest_update_def)

lemma concat_filter_nonempty: "concat (filter (\<lambda>x. x \<noteq> []) ds) = concat ds"
  by (induction ds) auto

sublocale stream_hash start upd fin hash "digest_size d"
  by unfold_locales
    (simp_all add: upd_fields start_def fin_def digest_finish_def split_beta methods_stream
      concat_filter_nonempty hash_size)

lemma digest_stream:
  "\<exists>ctx. digest_init (Some d) = Some ctx
    \<and> snd (digest_finish (foldl (\<lambda>c x. snd (digest_update c x)) ctx ds))
      = (hash (concat ds), digest_size d)"
proof -
  have "(\<lambda>c x. snd (digest_update c x)) = upd" by (simp add: upd_def fun_eq_iff)
  moreover have "fst (snd (digest_finish (foldl upd start ds))) = hash (concat ds)"
    using finish_stream [of ds] by (simp add: fin_def)
  moreover have "snd (snd (digest_finish (foldl upd start ds))) = digest_size d"
    by (simp add: digest_finish_def upd_fields start_def split_beta)
  ultimately show ?thesis by (simp add: digest_init_Some prod_eq_iff)
qed

lemma digest_eq: "digest (Some d) data = Some (hash data, digest_size d)"
proof -
  have "fin (upd start data) = (fst (fin (upd start data)), hash data)"
    using finish_one [of data] by (simp add: prod_eq_iff)
  then show ?thesis
    by (simp add: digest_def digest_init_Some digest_update_def upd_def fin_def
        digest_finish_def split_beta start_def split: if_splits)
qed

end


section \<open>Every table meets it\<close>

lemma method_foldl:
  assumes "\<And>c data. f (C c) data = C (g c data)"
  shows "foldl f (C c) ds = C (foldl g c ds)"
  using assms by (induction ds arbitrary: c) simp_all

lemma length_concat_PUT_upt:
  "length (concat (map (\<lambda>i. PUTU32 (st ! i)) [0..<n])) = 4 * n"
  "length (concat (map (\<lambda>i. PUTU64 (st' ! i)) [0..<n])) = 8 * n"
  "length (concat (map (\<lambda>i. PUTU32_LE (st'' ! i)) [0..<n])) = 4 * n"
  by (induction n) simp_all

interpretation dg_sm3: digest_algorithm DIGEST_sm3 sm3_digest
  by unfold_locales (simp_all add: DIGEST_sm3_def sm3_digest_init_def sm3_digest_finish_def
      method_foldl [where C = U_sm3 and g = sm3_update] sm3_digest_update_def split_beta
      sm3_h.finish_stream sm3_h.length_hash)

lemma md5_stream: "snd (md5_finish (foldl md5_update md5_init ds)) = md5_digest (concat ds)"
  by (simp only: md5_digest_def md5.fin_stream md5.fin_one)

lemma length_md5_digest: "length (md5_digest m) = 16"
  unfolding md5_digest_def md5.fin_one md5.ref_def length_take length_concat_PUT_upt by simp

interpretation dg_md5: digest_algorithm DIGEST_md5 md5_digest
  by unfold_locales (simp_all add: DIGEST_md5_def md5_digest_init_def md5_digest_finish_def
      method_foldl [where C = U_md5 and g = md5_update] md5_digest_update_def split_beta
      md5_stream length_md5_digest)

lemma sha1_stream: "snd (sha1_finish (foldl sha1_update sha1_init ds)) = sha1_digest (concat ds)"
  by (simp only: sha1_digest_def sha1.fin_stream sha1.fin_one)

lemma length_sha1_digest: "length (sha1_digest m) = 20"
  unfolding sha1_digest_def sha1.fin_one sha1.ref_def length_take length_concat_PUT_upt by simp

interpretation dg_sha1: digest_algorithm DIGEST_sha1 sha1_digest
  by unfold_locales (simp_all add: DIGEST_sha1_def sha1_digest_init_def sha1_digest_finish_def
      method_foldl [where C = U_sha1 and g = sha1_update] sha1_digest_update_def split_beta
      sha1_stream length_sha1_digest)

lemma sha224_stream: "snd (sha224_finish (foldl sha224_update sha224_init ds)) = sha224_digest (concat ds)"
  by (simp only: sha224_digest_def sha224.fin_stream sha224.fin_one)

lemma length_sha224_digest: "length (sha224_digest m) = 28"
  unfolding sha224_digest_def sha224.fin_one sha224.ref_def length_take length_concat_PUT_upt by simp

interpretation dg_sha224: digest_algorithm DIGEST_sha224 sha224_digest
  by unfold_locales (simp_all add: DIGEST_sha224_def sha224_digest_init_def sha224_digest_finish_def
      method_foldl [where C = U_sha224 and g = sha224_update] sha224_digest_update_def split_beta
      sha224_stream length_sha224_digest)

lemma sha256_stream: "snd (sha256_finish (foldl sha256_update sha256_init ds)) = sha256_digest (concat ds)"
  by (simp only: sha256_digest_def sha256.fin_stream sha256.fin_one)

lemma length_sha256_digest: "length (sha256_digest m) = 32"
  unfolding sha256_digest_def sha256.fin_one sha256.ref_def length_take length_concat_PUT_upt by simp

interpretation dg_sha256: digest_algorithm DIGEST_sha256 sha256_digest
  by unfold_locales (simp_all add: DIGEST_sha256_def sha256_digest_init_def sha256_digest_finish_def
      method_foldl [where C = U_sha256 and g = sha256_update] sha256_digest_update_def split_beta
      sha256_stream length_sha256_digest)

lemma sha384_stream: "snd (sha384_finish (foldl sha384_update sha384_init ds)) = sha384_digest (concat ds)"
  by (simp only: sha384_digest_def sha384.fin_stream sha384.fin_one)

lemma length_sha384_digest: "length (sha384_digest m) = 48"
  unfolding sha384_digest_def sha384.fin_one sha384.ref_def length_take length_concat_PUT_upt by simp

interpretation dg_sha384: digest_algorithm DIGEST_sha384 sha384_digest
  by unfold_locales (simp_all add: DIGEST_sha384_def sha384_digest_init_def sha384_digest_finish_def
      method_foldl [where C = U_sha384 and g = sha384_update] sha384_digest_update_def split_beta
      sha384_stream length_sha384_digest)

lemma sha512_stream: "snd (sha512_finish (foldl sha512_update sha512_init ds)) = sha512_digest (concat ds)"
  by (simp only: sha512_digest_def sha512.fin_stream sha512.fin_one)

lemma length_sha512_digest: "length (sha512_digest m) = 64"
  unfolding sha512_digest_def sha512.fin_one sha512.ref_def length_take length_concat_PUT_upt by simp

interpretation dg_sha512: digest_algorithm DIGEST_sha512 sha512_digest
  by unfold_locales (simp_all add: DIGEST_sha512_def sha512_digest_init_def sha512_digest_finish_def
      method_foldl [where C = U_sha512 and g = sha512_update] sha512_digest_update_def split_beta
      sha512_stream length_sha512_digest)

interpretation dg_sha512_224: digest_algorithm DIGEST_sha512_224 "\<lambda>m. take 28 (sha512_digest m)"
  by unfold_locales (simp_all add: DIGEST_sha512_224_def sha512_digest_init_def
      sha512_224_digest_finish_def method_foldl [where C = U_sha512 and g = sha512_update]
      sha512_digest_update_def split_beta sha512_stream length_sha512_digest)

interpretation dg_sha512_256: digest_algorithm DIGEST_sha512_256 "\<lambda>m. take 32 (sha512_digest m)"
  by unfold_locales (simp_all add: DIGEST_sha512_256_def sha512_digest_init_def
      sha512_256_digest_finish_def method_foldl [where C = U_sha512 and g = sha512_update]
      sha512_digest_update_def split_beta sha512_stream length_sha512_digest)

text \<open>The tables of the library, each with the function it computes.\<close>

definition digest_impls :: "(DIGEST \<times> (bytes \<Rightarrow> bytes)) list" where
  "digest_impls = [(DIGEST_sm3, sm3_digest), (DIGEST_md5, md5_digest), (DIGEST_sha1, sha1_digest),
     (DIGEST_sha224, sha224_digest), (DIGEST_sha256, sha256_digest),
     (DIGEST_sha384, sha384_digest), (DIGEST_sha512, sha512_digest),
     (DIGEST_sha512_224, \<lambda>m. take 28 (sha512_digest m)),
     (DIGEST_sha512_256, \<lambda>m. take 32 (sha512_digest m))]"

lemma digest_impls_algorithm: "(d, h) \<in> set digest_impls \<Longrightarrow> digest_algorithm d h"
  unfolding digest_impls_def
  using dg_sm3.digest_algorithm_axioms dg_md5.digest_algorithm_axioms
    dg_sha1.digest_algorithm_axioms dg_sha224.digest_algorithm_axioms
    dg_sha256.digest_algorithm_axioms dg_sha384.digest_algorithm_axioms
    dg_sha512.digest_algorithm_axioms dg_sha512_224.digest_algorithm_axioms
    dg_sha512_256.digest_algorithm_axioms
  by auto

section \<open>Properties\<close>



text \<open>
  A name found in the table leads back to the digest it names: every table of the
  library other than the two truncated SHA-512 ones has a name, and looking that
  name up gives the table again. The truncated ones have none, although
  \<^verbatim>\<open>digest_from_name\<close> accepts \<^verbatim>\<open>sha512-224\<close> and \<^verbatim>\<open>sha512-256\<close>.
\<close>

theorem digest_name_roundtrip:
  "\<forall>d \<in> fst ` set digest_impls.
     (case digest_name d of
        Some n \<Rightarrow> digest_from_name n = Some d
      | None \<Rightarrow> d = DIGEST_sha512_224 \<or> d = DIGEST_sha512_256)"
  by (simp add: digest_impls_def digest_name_def digest_table_def digest_from_name_def
      DIGEST_sm3_def DIGEST_md5_def DIGEST_sha1_def DIGEST_sha224_def DIGEST_sha256_def
      DIGEST_sha384_def DIGEST_sha512_def DIGEST_sha512_224_def DIGEST_sha512_256_def)

theorem digest_name_roundtrip_witness:
  "(case digest_name DIGEST_sm3 of
      Some n \<Rightarrow> digest_from_name n = Some DIGEST_sm3
    | None \<Rightarrow> DIGEST_sm3 = DIGEST_sha512_224 \<or> DIGEST_sm3 = DIGEST_sha512_256)"
  using digest_name_roundtrip by (rule bspec) (simp add: digest_impls_def)

end
