(* ===== verification/Gm_Hmac.thy ===== *)
theory Gm_Hmac
  imports Gm_Digest
begin

text \<open>
  GmSSL, \<^verbatim>\<open>src/hmac.c\<close> (HMAC over any \<^verbatim>\<open>DIGEST\<close>) and \<^verbatim>\<open>src/sm3_hmac.c\<close> (HMAC over SM3
  only). Both are shown to compute the HMAC construction that the comment in
  \<^verbatim>\<open>sm3_hmac.c\<close> states, and so to agree with each other.
\<close>

section \<open>The construction\<close>

definition hmac_key_block :: "(bytes \<Rightarrow> bytes) \<Rightarrow> nat \<Rightarrow> bytes \<Rightarrow> bytes" where
  "hmac_key_block h B k =
     (let k' = (if length k \<le> B then k else h k) in k' @ replicate (B - length k') 0)"

definition xor_byte :: "u8 \<Rightarrow> bytes \<Rightarrow> bytes" where
  "xor_byte c xs = map (\<lambda>x. x XOR c) xs"

definition hmac_spec :: "(bytes \<Rightarrow> bytes) \<Rightarrow> nat \<Rightarrow> bytes \<Rightarrow> bytes \<Rightarrow> bytes" where
  "hmac_spec h B k m =
     (let kb = hmac_key_block h B k in h (xor_byte 0x5C kb @ h (xor_byte 0x36 kb @ m)))"

lemma length_xor_byte [simp]: "length (xor_byte c xs) = length xs"
  by (simp add: xor_byte_def)

lemma xor_byte_xor_byte: "xor_byte c (xor_byte c' xs) = xor_byte (c' XOR c) xs"
  by (simp add: xor_byte_def comp_def xor.assoc)

text \<open>The loop \<^verbatim>\<open>for (i = 0; i < n; i++) buf[i] ^= c\<close>.\<close>

definition xor_prefix :: "nat \<Rightarrow> u8 \<Rightarrow> bytes \<Rightarrow> bytes" where
  "xor_prefix n c buf = xor_byte c (take n buf) @ drop n buf"


section \<open>hmac.c\<close>

record HMAC_CTX =
  hmac_digest :: DIGEST
  digest_ctx :: DIGEST_CTX
  i_ctx :: DIGEST_CTX
  o_ctx :: DIGEST_CTX

definition hmac_init :: "DIGEST option \<Rightarrow> bytes \<Rightarrow> HMAC_CTX option" where
  "hmac_init algor key =
     (case algor of None \<Rightarrow> None
      | Some d \<Rightarrow>
        if length key = 0 then None
        else
          let blocksize = block_size d;
              i_key = replicate 128 0;
              o_key = replicate 128 0;
              (i_key, o_key) =
                (if length key \<le> blocksize then (mem_write i_key 0 key, mem_write o_key 0 key)
                 else
                   let ctx = the (digest_init (Some d));
                       ctx = snd (digest_update ctx key);
                       (ctx, dgst, keylen) = digest_finish ctx;
                       i_key = mem_write i_key 0 dgst
                   in (i_key, mem_write o_key 0 (take keylen i_key)));
              i_key = xor_prefix blocksize 0x36 i_key;
              o_key = xor_prefix blocksize 0x5C o_key;
              i = snd (digest_update (the (digest_init (Some d))) (take blocksize i_key));
              ob = snd (digest_update (the (digest_init (Some d))) (take blocksize o_key))
          in Some \<lparr>hmac_digest = d, digest_ctx = i, i_ctx = i, o_ctx = ob\<rparr>)"

definition hmac_update :: "HMAC_CTX \<Rightarrow> bytes \<Rightarrow> int \<times> HMAC_CTX" where
  "hmac_update ctx data =
     (if length data = 0 then (0, ctx)
      else let (r, c) = digest_update (digest_ctx ctx) data;
               ctx = ctx\<lparr>digest_ctx := c\<rparr>
           in if r \<noteq> 1 then (-1, ctx) else (1, ctx))"

definition hmac_finish :: "HMAC_CTX \<Rightarrow> (HMAC_CTX \<times> bytes \<times> nat) option" where
  "hmac_finish ctx =
     (let (c, mac, maclen) = digest_finish (digest_ctx ctx);
          c = o_ctx ctx;
          (r, c) = digest_update c (take maclen mac)
      in if r \<noteq> 1 then None
         else let (c, mac, maclen) = digest_finish c
              in Some (ctx\<lparr>digest_ctx := c\<rparr>, mac, maclen))"

definition hmac_finish_and_verify :: "HMAC_CTX \<Rightarrow> bytes \<Rightarrow> int" where
  "hmac_finish_and_verify ctx mac =
     (case hmac_finish ctx of None \<Rightarrow> -1
      | Some (_, hm, hmaclen) \<Rightarrow>
          if length mac \<noteq> hmaclen \<or> take (length mac) hm \<noteq> mac then -1 else 1)"

definition hmac :: "DIGEST option \<Rightarrow> bytes \<Rightarrow> bytes \<Rightarrow> (bytes \<times> nat) option" where
  "hmac algor key data =
     (case hmac_init algor key of None \<Rightarrow> None
      | Some ctx \<Rightarrow>
        let (r, ctx) = hmac_update ctx data in
        if r \<noteq> 1 then None
        else (case hmac_finish ctx of None \<Rightarrow> None | Some (_, mac) \<Rightarrow> Some mac))"


section \<open>sm3\_hmac.c\<close>

record SM3_HMAC_CTX =
  sm3_ctx :: SM3_CTX
  hkey :: bytes

definition sm3_hmac_init :: "bytes \<Rightarrow> SM3_HMAC_CTX" where
  "sm3_hmac_init key =
     (let k = (if length key \<le> 64 then key @ replicate (64 - length key) 0
               else snd (sm3_finish (sm3_update sm3_init key)) @ replicate (64 - 32) 0);
          k = xor_byte 0x36 k
      in \<lparr>sm3_ctx = sm3_update sm3_init k, hkey = k\<rparr>)"

definition sm3_hmac_update :: "SM3_HMAC_CTX \<Rightarrow> bytes \<Rightarrow> SM3_HMAC_CTX" where
  "sm3_hmac_update ctx data = ctx\<lparr>sm3_ctx := sm3_update (sm3_ctx ctx) data\<rparr>"

text \<open>The context is cleared; what is returned is the MAC.\<close>

definition sm3_hmac_finish :: "SM3_HMAC_CTX \<Rightarrow> bytes" where
  "sm3_hmac_finish ctx =
     (let k = xor_byte (0x36 XOR 0x5C) (hkey ctx);
          (_, mac) = sm3_finish (sm3_ctx ctx);
          c = sm3_update sm3_init k;
          c = sm3_update c mac
      in snd (sm3_finish c))"

definition sm3_hmac :: "bytes \<Rightarrow> bytes \<Rightarrow> bytes" where
  "sm3_hmac key data = sm3_hmac_finish (sm3_hmac_update (sm3_hmac_init key) data)"


section \<open>hmac.c computes HMAC\<close>

lemma xor_prefix_zeros:
  assumes "length k \<le> B" "B \<le> n"
  shows "take B (xor_prefix B c (mem_write (replicate n 0) 0 k))
    = xor_byte c (k @ replicate (B - length k) 0)"
  using assms by (simp add: xor_prefix_def mem_write_def min_def)

lemma length_hmac_key_block:
  "(\<And>m. length (h m) \<le> B) \<Longrightarrow> length (hmac_key_block h B k) = B"
  by (simp add: hmac_key_block_def Let_def)

context digest_algorithm
begin

lemma finish_size: "snd (snd (digest_finish (foldl upd start ds))) = digest_size d"
  by (simp add: digest_finish_def upd_fields start_def split_beta)

lemma start_digest: "the (digest_init (Some d)) = start"
  by (simp add: digest_init_Some)

abbreviation pad_key :: "u8 \<Rightarrow> bytes \<Rightarrow> bytes" where
  "pad_key c k \<equiv> xor_byte c (hmac_key_block hash (block_size d) k)"

lemma finish_upd_start:
  "fst (snd (digest_finish (upd start m))) = hash m" "snd (snd (digest_finish (upd start m))) = digest_size d"
  using finish_one [of m] finish_size [of "[m]"] by (simp_all add: fin_def)

lemma hmac_init_eq:
  assumes "k \<noteq> []"
  shows "hmac_init (Some d) k = Some \<lparr>hmac_digest = d, digest_ctx = upd start (pad_key 0x36 k),
    i_ctx = upd start (pad_key 0x36 k), o_ctx = upd start (pad_key 0x5C k)\<rparr>"
proof (cases "length k \<le> block_size d")
  case True
  then show ?thesis
    using assms size_fits
    by (simp add: hmac_init_def start_digest Let_def xor_prefix_zeros hmac_key_block_def flip: upd_def)
next
  case False
  have "take (digest_size d) (mem_write (replicate 128 0) 0 (hash k)) = hash k"
    using hash_size [of k] by (simp add: mem_write_def)
  with False show ?thesis
    using assms size_fits hash_size [of k]
    by (simp add: hmac_init_def start_digest Let_def split_beta xor_prefix_zeros
        hmac_key_block_def finish_upd_start flip: upd_def)
qed

lemma hmac_update_fields:
  "snd (hmac_update ctx m) = ctx\<lparr>digest_ctx := upd (digest_ctx ctx) m\<rparr>"
  "fst (hmac_update ctx m) = (if m = [] then 0 else 1)"
  by (simp_all add: hmac_update_def upd_def digest_update_def)

lemma hmac_updates:
  "foldl (\<lambda>c m. snd (hmac_update c m)) ctx ds = ctx\<lparr>digest_ctx := foldl upd (digest_ctx ctx) ds\<rparr>"
  by (induction ds arbitrary: ctx) (simp_all add: hmac_update_fields)

theorem hmac_stream:
  assumes "hmac_init (Some d) k = Some ctx"
  shows "\<exists>ctx'. hmac_finish (foldl (\<lambda>c m. snd (hmac_update c m)) ctx ds)
    = Some (ctx', hmac_spec hash (block_size d) k (concat ds), digest_size d)"
proof -
  have k: "k \<noteq> []" using assms by (auto simp: hmac_init_def)
  let ?c = "foldl upd (upd start (pad_key 0x36 k)) ds"
  let ?inner = "hash (pad_key 0x36 k @ concat ds)"
  have inner: "fst (snd (digest_finish ?c)) = ?inner" "snd (snd (digest_finish ?c)) = digest_size d"
    using finish_more [of "pad_key 0x36 k" ds] finish_size [of "pad_key 0x36 k # ds"]
    by (simp_all add: fin_def)
  have ne: "?inner \<noteq> []" using hash_size [of "pad_key 0x36 k @ concat ds"] size_fits(1) by auto
  have outer: "digest_update (upd start (pad_key 0x5C k)) ?inner
      = (1, upd (upd start (pad_key 0x5C k)) ?inner)"
    using ne by (simp add: upd_def digest_update_def)
  have result: "fst (snd (digest_finish (upd (upd start (pad_key 0x5C k)) ?inner)))
      = hmac_spec hash (block_size d) k (concat ds)"
    using finish_two [of "pad_key 0x5C k" ?inner] by (simp add: fin_def hmac_spec_def Let_def)
  have size: "snd (snd (digest_finish (upd (upd start (pad_key 0x5C k)) ?inner))) = digest_size d"
    using finish_size [of "[pad_key 0x5C k, ?inner]"] by simp
  have ctx: "ctx = \<lparr>hmac_digest = d, digest_ctx = upd start (pad_key 0x36 k),
      i_ctx = upd start (pad_key 0x36 k), o_ctx = upd start (pad_key 0x5C k)\<rparr>"
    using assms hmac_init_eq [OF k] by simp
  show ?thesis
    using result size
    by (simp add: ctx hmac_updates hmac_finish_def Let_def split_beta inner hash_size outer prod_eq_iff)
qed

lemma hmac_eq:
  assumes "k \<noteq> []" "m \<noteq> []"
  shows "hmac (Some d) k m = Some (hmac_spec hash (block_size d) k m, digest_size d)"
proof -
  obtain ctx where ctx: "hmac_init (Some d) k = Some ctx" using hmac_init_eq [OF assms(1)] by simp
  from hmac_stream [OF ctx, of "[m]"] obtain ctx' where
    "hmac_finish (snd (hmac_update ctx m))
      = Some (ctx', hmac_spec hash (block_size d) k m, digest_size d)" by auto
  with ctx assms(2) show ?thesis
    by (simp add: hmac_def split_beta hmac_update_fields)
qed

lemma hmac_verify_iff:
  assumes "hmac_init (Some d) k = Some ctx"
  shows "hmac_finish_and_verify (foldl (\<lambda>c m. snd (hmac_update c m)) ctx ds) mac
    = (if mac = hmac_spec hash (block_size d) k (concat ds) then 1 else -1)"
proof -
  from hmac_stream [OF assms, of ds] obtain ctx' where
    "hmac_finish (foldl (\<lambda>c m. snd (hmac_update c m)) ctx ds)
      = Some (ctx', hmac_spec hash (block_size d) k (concat ds), digest_size d)" ..
  then show ?thesis
    by (auto simp: hmac_finish_and_verify_def hmac_spec_def Let_def hash_size)
qed

end


section \<open>sm3\_hmac.c computes HMAC\<close>

lemma sm3_hmac_updates:
  "foldl sm3_hmac_update ctx ds = ctx\<lparr>sm3_ctx := foldl sm3_update (sm3_ctx ctx) ds\<rparr>"
  by (induction ds arbitrary: ctx) (simp_all add: sm3_hmac_update_def)

lemma sm3_hmac_init_eq:
  "sm3_hmac_init k = (let kb = xor_byte 0x36 (hmac_key_block sm3_digest 64 k)
     in \<lparr>sm3_ctx = sm3_update sm3_init kb, hkey = kb\<rparr>)"
  by (simp add: sm3_hmac_init_def hmac_key_block_def Let_def sm3_h.finish_one sm3_h.length_hash)

lemma sm3_hmac_finish_eq:
  "sm3_hmac_finish (foldl sm3_hmac_update (sm3_hmac_init k) ds)
    = hmac_spec sm3_digest 64 k (concat ds)"
  by (simp add: sm3_hmac_updates sm3_hmac_init_eq sm3_hmac_finish_def hmac_spec_def Let_def
      split_beta sm3_h.finish_more sm3_h.finish_two xor_byte_xor_byte flip: xor.assoc)

lemma sm3_hmac_eq: "sm3_hmac k m = hmac_spec sm3_digest 64 k m"
  using sm3_hmac_finish_eq [of k "[m]"] by (simp add: sm3_hmac_def)

lemma length_hmac_spec_sm3: "length (hmac_spec sm3_digest 64 k m) = 32"
  by (simp add: hmac_spec_def Let_def sm3_h.length_hash)

lemma hmac_empty_key: "hmac (Some d) [] m = None"
  by (simp add: hmac_def hmac_init_def)

lemma hmac_no_digest: "hmac None k m = None"
  by (simp add: hmac_def hmac_init_def)

lemma hmac_empty_data: "hmac (Some d) k [] = None"
  by (simp add: hmac_def hmac_update_def split: option.splits)


section \<open>Properties\<close>

text \<open>
  C27. HMAC over any digest of the library: for a non-empty key, and data given in any
  number of updates, the result is HMAC of the whole data under that digest, with
  keys longer than a block hashed first.
\<close>

theorem hmac_streaming_correct:
  assumes "(d, h) \<in> set digest_impls" "k \<noteq> []"
  shows "\<exists>ctx ctx'. hmac_init (Some d) k = Some ctx
    \<and> hmac_finish (foldl (\<lambda>c m. snd (hmac_update c m)) ctx ds)
      = Some (ctx', hmac_spec h (block_size d) k (concat ds), digest_size d)"
  using digest_algorithm.hmac_init_eq [OF digest_impls_algorithm [OF assms(1)] assms(2)]
    digest_algorithm.hmac_stream [OF digest_impls_algorithm [OF assms(1)]] by blast

theorem hmac_streaming_correct_witness:
  "\<exists>ctx ctx'. hmac_init (Some DIGEST_sha256) [7] = Some ctx
    \<and> hmac_finish (foldl (\<lambda>c m. snd (hmac_update c m)) ctx [[1], [], [2, 3]])
      = Some (ctx', hmac_spec sha256_digest 64 [7] [1, 2, 3], 32)"
  using hmac_streaming_correct [of DIGEST_sha256 sha256_digest "[7]" "[[1], [], [2, 3]]"]
  by (simp add: digest_impls_def DIGEST_sha256_def)

text \<open>
  C28. Verification accepts exactly the right MAC: \<^verbatim>\<open>hmac_finish_and_verify\<close> returns 1 when the
  given bytes are the HMAC of the data, in value and in length, and -1 otherwise.
\<close>

theorem hmac_verify_exact:
  assumes "(d, h) \<in> set digest_impls" "hmac_init (Some d) k = Some ctx"
  shows "hmac_finish_and_verify (foldl (\<lambda>c m. snd (hmac_update c m)) ctx ds) mac
    = (if mac = hmac_spec h (block_size d) k (concat ds) then 1 else -1)"
  using digest_algorithm.hmac_verify_iff [OF digest_impls_algorithm [OF assms(1)] assms(2)] .

theorem hmac_verify_exact_witness:
  "hmac_finish_and_verify (snd (hmac_update (the (hmac_init (Some DIGEST_sm3) [1, 2])) [5])) [] = -1"
proof -
  have "\<exists>ctx. hmac_init (Some DIGEST_sm3) [1, 2] = Some ctx"
    using dg_sm3.hmac_init_eq [of "[1, 2]"] by simp
  then obtain ctx where ctx: "hmac_init (Some DIGEST_sm3) [1, 2] = Some ctx" ..
  have "hmac_spec sm3_digest (block_size DIGEST_sm3) [1, 2] [5] \<noteq> []"
    using length_hmac_spec_sm3 [of "[1, 2]" "[5]"] by (auto simp: DIGEST_sm3_def)
  with ctx show ?thesis
    using hmac_verify_exact [of DIGEST_sm3 sm3_digest "[1, 2]" ctx "[[5]]" "[]"]
    by (simp add: digest_impls_def)
qed

text \<open>
  C29. The one-call \<^verbatim>\<open>hmac\<close> succeeds exactly when a digest is given and neither the key nor the
  data is empty; then it is HMAC. Empty data is refused although HMAC is defined on
  it and \<^verbatim>\<open>hmac_init\<close> followed by \<^verbatim>\<open>hmac_finish\<close> computes it.
\<close>

theorem hmac_result:
  assumes "(d, h) \<in> set digest_impls"
  shows "hmac (Some d) k m = (if k = [] \<or> m = [] then None
      else Some (hmac_spec h (block_size d) k m, digest_size d))
    \<and> hmac None k m = None"
  using digest_algorithm.hmac_eq [OF digest_impls_algorithm [OF assms], of k m]
  by (auto simp: hmac_empty_key hmac_empty_data hmac_no_digest)

theorem hmac_result_witness:
  "hmac (Some DIGEST_sm3) [1] [] = None
    \<and> hmac (Some DIGEST_sm3) [1] [2] = Some (hmac_spec sm3_digest 64 [1] [2], 32)"
  using hmac_result [of DIGEST_sm3 sm3_digest "[1]" "[]"]
    hmac_result [of DIGEST_sm3 sm3_digest "[1]" "[2]"]
  by (simp add: digest_impls_def DIGEST_sm3_def)

text \<open>
  The two implementations of HMAC agree: \<^verbatim>\<open>sm3_hmac.c\<close>, which keeps one key block and
  turns the inner pad into the outer one, gives for every key and every split of the
  data what the generic code gives with SM3.
\<close>

theorem sm3_hmac_agrees:
  assumes "hmac_init (Some DIGEST_sm3) k = Some ctx"
  shows "\<exists>ctx'. hmac_finish (foldl (\<lambda>c m. snd (hmac_update c m)) ctx ds)
    = Some (ctx', sm3_hmac_finish (foldl sm3_hmac_update (sm3_hmac_init k) ds), 32)"
  using dg_sm3.hmac_stream [OF assms, of ds]
  by (simp add: sm3_hmac_finish_eq) (simp add: DIGEST_sm3_def)

theorem sm3_hmac_agrees_witness:
  "\<exists>ctx ctx'. hmac_init (Some DIGEST_sm3) [9] = Some ctx
    \<and> hmac_finish (snd (hmac_update ctx [4])) = Some (ctx', sm3_hmac [9] [4], 32)"
proof -
  have "\<exists>ctx. hmac_init (Some DIGEST_sm3) [9] = Some ctx"
    using dg_sm3.hmac_init_eq [of "[9]"] by simp
  then obtain ctx where ctx: "hmac_init (Some DIGEST_sm3) [9] = Some ctx" ..
  then show ?thesis
    using sm3_hmac_agrees [OF ctx, of "[[4]]"] by (simp add: sm3_hmac_def)
qed

end
