(* ===== verification/Gm_Kdf.thy ===== *)
theory Gm_Kdf
  imports Gm_Hmac Gm_Mem
begin

text \<open>
  GmSSL, \<^verbatim>\<open>src/sm3_kdf.c\<close>, \<^verbatim>\<open>src/pbkdf2.c\<close> and \<^verbatim>\<open>src/hkdf.c\<close>: the key derivation functions.
  Each is a loop that produces one block per turn under a counter; each is shown
  to write the first bytes of the blocks its standard defines.

  In \<^verbatim>\<open>pbkdf2_genkey\<close> the result of \<^verbatim>\<open>hmac_init\<close> is not looked at; \<open>None\<close> is the case
  where it failed and the loop would read an uninitialised context.
\<close>

section \<open>Output cut into counted blocks\<close>

definition counted_blocks :: "(nat \<Rightarrow> bytes) \<Rightarrow> nat \<Rightarrow> nat \<Rightarrow> nat \<Rightarrow> bytes" where
  "counted_blocks B hl k n = take n (concat (map B [k..<k + (n + hl - 1) div hl]))"

lemma counted_blocks_0 [simp]: "counted_blocks B hl k 0 = []"
  by (simp add: counted_blocks_def)

lemma counted_blocks_last:
  assumes "length (B k) = hl" "0 < n" "n \<le> hl"
  shows "counted_blocks B hl k n = take n (B k)"
proof -
  have "(n + hl - 1) div hl = 1" using assms by (intro div_nat_eqI) simp_all
  then show ?thesis by (simp add: counted_blocks_def)
qed

lemma counted_blocks_step:
  assumes "length (B k) = hl" "0 < hl" "hl \<le> n"
  shows "counted_blocks B hl k n = B k @ counted_blocks B hl (Suc k) (n - hl)"
proof -
  have "n + hl - 1 = (n - hl + hl - 1) + hl" using assms by simp
  then have "(n + hl - 1) div hl = Suc ((n - hl + hl - 1) div hl)"
    using assms(2) by (simp only: div_add_self2)
  moreover have "[k..<k + Suc m] = k # [Suc k..<Suc k + m]" for m
    by (simp add: upt_conv_Cons)
  ultimately show ?thesis using assms by (simp add: counted_blocks_def)
qed

lemma counted_blocks_take:
  assumes "length (B k) = hl" "0 < hl" "0 < n"
  shows "counted_blocks B hl k n
    = take (min hl n) (B k) @ counted_blocks B hl (Suc k) (n - min hl n)"
proof (cases "hl \<le> n")
  case True
  with assms counted_blocks_step [of B k hl n] show ?thesis by (simp add: min_def)
next
  case False
  with assms counted_blocks_last [of B k hl n] show ?thesis by (simp add: min_def)
qed


section \<open>sm3\_kdf.c\<close>

record SM3_KDF_CTX =
  kdf_sm3_ctx :: SM3_CTX
  outlen :: nat

definition sm3_kdf_init :: "nat \<Rightarrow> SM3_KDF_CTX" where
  "sm3_kdf_init n = \<lparr>kdf_sm3_ctx = sm3_init, outlen = n\<rparr>"

definition sm3_kdf_update :: "SM3_KDF_CTX \<Rightarrow> bytes \<Rightarrow> SM3_KDF_CTX" where
  "sm3_kdf_update ctx data = ctx\<lparr>kdf_sm3_ctx := sm3_update (kdf_sm3_ctx ctx) data\<rparr>"

function sm3_kdf_loop :: "SM3_CTX \<Rightarrow> u32 \<Rightarrow> nat \<Rightarrow> bytes" where
  "sm3_kdf_loop ctx counter n =
     (if n = 0 then []
      else
        let counter_be = PUTU32 counter;
            sm3_ctx = sm3_update ctx counter_be;
            (_, dgst) = sm3_finish sm3_ctx;
            len = (if n < 32 then n else 32)
        in take len dgst @ sm3_kdf_loop ctx (counter + 1) (n - len))"
  by pat_completeness auto
termination
  by (relation "measure (\<lambda>(ctx, counter, n). n)") auto

declare sm3_kdf_loop.simps [simp del]

definition sm3_kdf_finish :: "SM3_KDF_CTX \<Rightarrow> bytes" where
  "sm3_kdf_finish ctx = sm3_kdf_loop (kdf_sm3_ctx ctx) 1 (outlen ctx)"


section \<open>pbkdf2.c\<close>

text \<open>
  The inner loop: \<open>n\<close> more turns on \<^verbatim>\<open>tmp_block\<close> and \<^verbatim>\<open>key_block\<close>, both of \<open>len\<close> bytes.
\<close>

primrec pbkdf2_inner :: "HMAC_CTX \<Rightarrow> nat \<Rightarrow> bytes \<Rightarrow> bytes \<Rightarrow> nat \<Rightarrow> bytes option" where
  "pbkdf2_inner tmpl 0 tmp_block key_block len = Some key_block"
| "pbkdf2_inner tmpl (Suc n) tmp_block key_block len =
     Option.bind (hmac_finish (snd (hmac_update tmpl (take len tmp_block))))
       (\<lambda>(ctx, tmp_block, len).
          pbkdf2_inner tmpl n tmp_block (memxor key_block tmp_block len) len)"

partial_function (option) pbkdf2_loop ::
    "HMAC_CTX \<Rightarrow> bytes \<Rightarrow> nat \<Rightarrow> u32 \<Rightarrow> nat \<Rightarrow> bytes option" where
  "pbkdf2_loop tmpl salt count iter n =
     (if n = 0 then Some []
      else
        Option.bind
          (hmac_finish (snd (hmac_update (snd (hmac_update tmpl salt)) (PUTU32 iter))))
          (\<lambda>(ctx, tmp_block, len).
             Option.bind (pbkdf2_inner tmpl (count - 1) tmp_block tmp_block len)
               (\<lambda>key_block.
                  if n < len then Some (take n key_block)
                  else Option.bind (pbkdf2_loop tmpl salt count (iter + 1) (n - len))
                    (\<lambda>rest. Some (take len key_block @ rest)))))"

definition pbkdf2_genkey ::
    "DIGEST option \<Rightarrow> bytes \<Rightarrow> bytes \<Rightarrow> nat \<Rightarrow> nat \<Rightarrow> bytes option" where
  "pbkdf2_genkey algor pass salt count n =
     Option.bind (hmac_init algor pass) (\<lambda>tmpl. pbkdf2_loop tmpl salt count 1 n)"

primrec pbkdf2_sm3_inner :: "SM3_HMAC_CTX \<Rightarrow> nat \<Rightarrow> bytes \<Rightarrow> bytes \<Rightarrow> bytes" where
  "pbkdf2_sm3_inner tmpl 0 tmp_block key_block = key_block"
| "pbkdf2_sm3_inner tmpl (Suc n) tmp_block key_block =
     (let tmp_block = sm3_hmac_finish (sm3_hmac_update tmpl tmp_block)
      in pbkdf2_sm3_inner tmpl n tmp_block (memxor key_block tmp_block 32))"

function pbkdf2_sm3_loop :: "SM3_HMAC_CTX \<Rightarrow> bytes \<Rightarrow> nat \<Rightarrow> u32 \<Rightarrow> nat \<Rightarrow> bytes" where
  "pbkdf2_sm3_loop tmpl salt count iter n =
     (if n = 0 then []
      else
        let ctx = sm3_hmac_update tmpl salt;
            ctx = sm3_hmac_update ctx (PUTU32 iter);
            tmp_block = sm3_hmac_finish ctx;
            key_block = pbkdf2_sm3_inner tmpl (count - 1) tmp_block tmp_block
        in if n < 32 then take n key_block
           else take 32 key_block @ pbkdf2_sm3_loop tmpl salt count (iter + 1) (n - 32))"
  by pat_completeness auto
termination
  by (relation "measure (\<lambda>(tmpl, salt, count, iter, n). n)") auto

declare pbkdf2_sm3_loop.simps [simp del]

definition pbkdf2_hmac_sm3_genkey :: "bytes \<Rightarrow> bytes \<Rightarrow> nat \<Rightarrow> nat \<Rightarrow> bytes" where
  "pbkdf2_hmac_sm3_genkey pass salt count n =
     pbkdf2_sm3_loop (sm3_hmac_init pass) salt count 1 n"


section \<open>hkdf.c\<close>

definition hkdf_extract :: "DIGEST \<Rightarrow> bytes \<Rightarrow> bytes \<Rightarrow> (bytes \<times> nat) option" where
  "hkdf_extract d salt ikm =
     Option.bind
       (if length salt = 0 then hmac_init (Some d) (take (digest_size d) (replicate 64 0))
        else hmac_init (Some d) salt)
       (\<lambda>ctx. let (r, ctx) = hmac_update ctx ikm in
          if r \<noteq> 1 then None
          else Option.bind (hmac_finish ctx) (\<lambda>(ctx, prk, prklen). Some (prk, prklen)))"

text \<open>
  One block: the chain of calls in the condition. The first block has no previous
  \<^verbatim>\<open>T\<close> to feed in; later ones do.
\<close>

definition hkdf_block ::
    "DIGEST option \<Rightarrow> bytes \<Rightarrow> bytes option \<Rightarrow> bytes \<Rightarrow> u8 \<Rightarrow> (bytes \<times> nat) option" where
  "hkdf_block algor prk prev opt_info counter =
     Option.bind (hmac_init algor prk) (\<lambda>ctx.
     Option.bind (case prev of None \<Rightarrow> Some ctx
       | Some t \<Rightarrow> let (r, ctx) = hmac_update ctx t in if r \<noteq> 1 then None else Some ctx)
     (\<lambda>ctx.
       let (r, ctx) = hmac_update ctx opt_info in
       if r < 0 then None
       else let (r, ctx) = hmac_update ctx [counter] in
         if r \<noteq> 1 then None
         else Option.bind (hmac_finish ctx) (\<lambda>(ctx, T, len). Some (T, len))))"

function hkdf_loop ::
    "DIGEST option \<Rightarrow> bytes \<Rightarrow> bytes \<Rightarrow> bytes \<Rightarrow> nat \<Rightarrow> u8 \<Rightarrow> nat \<Rightarrow> bytes option" where
  "hkdf_loop algor prk opt_info T len counter L =
     (if L = 0 then Some []
      else if counter = 0 then None
      else case hkdf_block algor prk (Some (take len T)) opt_info counter of
        None \<Rightarrow> None
      | Some (T, len) \<Rightarrow>
          let len = (if len > L then L else len)
          in Option.bind (hkdf_loop algor prk opt_info T len (counter + 1) (L - len))
            (\<lambda>okm. Some (take len T @ okm)))"
  by pat_completeness auto
termination
proof (relation "measure (\<lambda>(algor, prk, opt_info, T, len, counter, L). if counter = 0 then 0 else 256 - unat counter)",
    goal_cases)
  case (2 algor prk opt_info T len counter L)
  have c: "counter \<noteq> 0" by fact
  then have "0 < unat counter" by (simp add: unat_gt_0)
  moreover have "unat counter < 256" using unsigned_less [of counter] by simp
  moreover have "unat (counter + 1) = Suc (unat counter)" if "counter + 1 \<noteq> 0"
    using that by (simp add: unatSuc add.commute)
  ultimately show ?case using c by auto
qed simp

declare hkdf_loop.simps [simp del]

definition hkdf_expand :: "DIGEST option \<Rightarrow> bytes \<Rightarrow> bytes \<Rightarrow> nat \<Rightarrow> bytes option" where
  "hkdf_expand algor prk opt_info L =
     (if L > 0 then
        case hkdf_block algor prk None opt_info 1 of
          None \<Rightarrow> None
        | Some (T, len) \<Rightarrow>
            let len = (if len > L then L else len)
            in Option.bind (hkdf_loop algor prk opt_info T len (1 + 1) (L - len))
              (\<lambda>okm. Some (take len T @ okm))
      else Some [])"


section \<open>The standards\<close>

text \<open>PBKDF2: the iterates \<open>U\<close>, numbered from 0, and their exclusive or.\<close>

primrec pbkdf2_U :: "(bytes \<Rightarrow> bytes) \<Rightarrow> bytes \<Rightarrow> nat \<Rightarrow> bytes" where
  "pbkdf2_U prf m 0 = prf m"
| "pbkdf2_U prf m (Suc j) = prf (pbkdf2_U prf m j)"

definition pbkdf2_F :: "(bytes \<Rightarrow> bytes) \<Rightarrow> bytes \<Rightarrow> nat \<Rightarrow> nat \<Rightarrow> bytes" where
  "pbkdf2_F prf salt c i =
     (let m = salt @ PUTU32 (of_nat i :: u32) in
      foldl (map2 (XOR)) (pbkdf2_U prf m 0) (map (pbkdf2_U prf m) [1..<c]))"

definition pbkdf2_spec :: "(bytes \<Rightarrow> bytes) \<Rightarrow> nat \<Rightarrow> bytes \<Rightarrow> nat \<Rightarrow> nat \<Rightarrow> bytes" where
  "pbkdf2_spec prf hl salt c n = counted_blocks (pbkdf2_F prf salt c) hl 1 n"

text \<open>HKDF: the blocks \<open>T(n)\<close>, with \<open>T(0)\<close> empty.\<close>

primrec hkdf_T :: "(bytes \<Rightarrow> bytes) \<Rightarrow> bytes \<Rightarrow> nat \<Rightarrow> bytes" where
  "hkdf_T prf info 0 = []"
| "hkdf_T prf info (Suc n) = prf (hkdf_T prf info n @ info @ [of_nat (Suc n)])"

definition hkdf_spec :: "(bytes \<Rightarrow> bytes) \<Rightarrow> nat \<Rightarrow> bytes \<Rightarrow> nat \<Rightarrow> bytes" where
  "hkdf_spec prf hl info L = counted_blocks (hkdf_T prf info) hl 1 L"

lemma length_pbkdf2_U: "(\<And>m. length (prf m) = hl) \<Longrightarrow> length (pbkdf2_U prf m j) = hl"
  by (cases j) simp_all

lemma pbkdf2_U_shift: "pbkdf2_U prf (prf m) j = pbkdf2_U prf m (Suc j)"
  by (induction j) simp_all

lemma foldl_xor_U:
  "map (pbkdf2_U prf m) [Suc 0..<Suc (Suc n)]
    = prf (prf m) # map (pbkdf2_U prf (prf m)) [Suc 0..<Suc n]"
proof -
  have "map (pbkdf2_U prf (prf m)) [Suc 0..<Suc n] = map (\<lambda>j. pbkdf2_U prf m (Suc j)) [Suc 0..<Suc n]"
    by (rule map_cong [OF refl]) (rule pbkdf2_U_shift)
  also have "\<dots> = map (pbkdf2_U prf m) (map Suc [Suc 0..<Suc n])" by simp
  also have "map Suc [Suc 0..<Suc n] = [Suc (Suc 0)..<Suc (Suc n)]"
    by (simp add: map_Suc_upt del: upt_Suc)
  finally show ?thesis by (simp add: upt_conv_Cons del: upt_Suc)
qed


section \<open>The SM3 key derivation\<close>

lemma sm3_kdf_loop_eq:
  assumes "c0 = foldl sm3_update sm3_init ds"
  shows "sm3_kdf_loop c0 (of_nat i) n
    = counted_blocks (\<lambda>i. sm3_digest (concat ds @ PUTU32 (of_nat i :: u32))) 32 i n"
proof (induction n arbitrary: i rule: less_induct)
  case (less n)
  let ?B = "\<lambda>i. sm3_digest (concat ds @ PUTU32 (of_nat i :: u32))"
  have dgst: "snd (sm3_finish (sm3_update c0 (PUTU32 (of_nat i :: u32)))) = ?B i"
    using sm3_h.finish_stream [of "ds @ [PUTU32 (of_nat i :: u32)]"] assms by simp
  show ?case
  proof (cases "n = 0")
    case False
    have "of_nat i + (1 :: u32) = of_nat (Suc i)" by simp
    with False less.IH [of "n - min 32 n" "Suc i"] dgst
    show ?thesis
      by (subst sm3_kdf_loop.simps)
        (auto simp: counted_blocks_take sm3_h.length_hash Let_def split_beta min_def add.commute
          sm3_kdf_loop.simps [of _ _ 0] split: if_splits)
  qed (simp add: sm3_kdf_loop.simps)
qed

lemma sm3_kdf_updates:
  "foldl sm3_kdf_update (sm3_kdf_init n) ds = \<lparr>kdf_sm3_ctx = foldl sm3_update sm3_init ds, outlen = n\<rparr>"
proof -
  have "foldl sm3_kdf_update ctx ds = ctx\<lparr>kdf_sm3_ctx := foldl sm3_update (kdf_sm3_ctx ctx) ds\<rparr>" for ctx
    by (induction ds arbitrary: ctx) (simp_all add: sm3_kdf_update_def)
  then show ?thesis by (simp add: sm3_kdf_init_def)
qed


section \<open>PBKDF2\<close>

lemma memxor_all:
  "length a = n \<Longrightarrow> length b = n \<Longrightarrow> memxor a b n = map2 (XOR) a b"
  by (simp add: memxor_def)

lemma length_foldl_xor:
  "length a = n \<Longrightarrow> (\<And>x. x \<in> set xs \<Longrightarrow> length x = n) \<Longrightarrow>
    length (foldl (map2 (XOR)) (a :: bytes) xs) = n"
  by (induction xs arbitrary: a) simp_all

lemma length_pbkdf2_F:
  "(\<And>m. length (prf m) = hl) \<Longrightarrow> length (pbkdf2_F prf salt c i) = hl"
  unfolding pbkdf2_F_def Let_def
  by (rule length_foldl_xor) (auto simp: length_pbkdf2_U)

lemma pbkdf2_sm3_inner_eq:
  assumes PRF: "\<And>m. sm3_hmac_finish (sm3_hmac_update tmpl m) = prf m" "\<And>m. length (prf m) = 32"
    and "length key = 32"
  shows "pbkdf2_sm3_inner tmpl n (prf m) key
    = foldl (map2 (XOR)) key (map (pbkdf2_U prf m) [1..<Suc n])"
  using assms(3)
proof (induction n arbitrary: m key)
  case (Suc n)
  have "length (map2 (XOR) key (prf (prf m))) = 32" using Suc.prems PRF(2) by simp
  with Suc.IH [of "map2 (XOR) key (prf (prf m))" "prf m"] Suc.prems show ?case
    by (simp add: foldl_xor_U PRF memxor_all del: upt_Suc)
qed simp

text \<open>The generic code meets the same recurrence, given what \<^verbatim>\<open>hmac_finish\<close> returns.\<close>

lemma pbkdf2_inner_eq:
  assumes PRF: "\<And>m. \<exists>ctx. hmac_finish (snd (hmac_update tmpl m)) = Some (ctx, prf m, hl)"
      "\<And>m. length (prf m) = hl"
    and "length key = hl"
  shows "pbkdf2_inner tmpl n (prf m) key hl
    = Some (foldl (map2 (XOR)) key (map (pbkdf2_U prf m) [1..<Suc n]))"
  using assms(3)
proof (induction n arbitrary: m key)
  case (Suc n)
  obtain ctx where ctx: "hmac_finish (snd (hmac_update tmpl (prf m))) = Some (ctx, prf (prf m), hl)"
    using PRF(1) by blast
  have "length (map2 (XOR) key (prf (prf m))) = hl" using Suc.prems PRF(2) by simp
  with Suc.IH [of "map2 (XOR) key (prf (prf m))" "prf m"] Suc.prems ctx show ?case
    by (simp add: foldl_xor_U PRF(2) memxor_all del: upt_Suc)
qed simp

lemma pbkdf2_F_rounds:
  "foldl (map2 (XOR)) (prf m) (map (pbkdf2_U prf m) [1..<Suc (c - 1)])
    = foldl (map2 (XOR)) (pbkdf2_U prf m 0) (map (pbkdf2_U prf m) [1..<c])"
  by (cases c) (simp_all del: upt_Suc)

lemma pbkdf2_loop_eq:
  assumes PRF: "\<And>m. \<exists>ctx. hmac_finish (snd (hmac_update tmpl m)) = Some (ctx, prf m, hl)"
      "\<And>m. length (prf m) = hl" "0 < hl"
    and two: "\<And>m m'. \<exists>ctx. hmac_finish (snd (hmac_update (snd (hmac_update tmpl m)) m'))
      = Some (ctx, prf (m @ m'), hl)"
  shows "pbkdf2_loop tmpl salt c (of_nat i) n = Some (counted_blocks (pbkdf2_F prf salt c) hl i n)"
proof (induction n arbitrary: i rule: less_induct)
  case (less n)
  let ?m = "salt @ PUTU32 (of_nat i :: u32)"
  let ?F = "pbkdf2_F prf salt c"
  obtain ctx where ctx: "hmac_finish (snd (hmac_update (snd (hmac_update tmpl salt))
      (PUTU32 (of_nat i :: u32)))) = Some (ctx, prf ?m, hl)" using two by blast
  have inner: "pbkdf2_inner tmpl (c - 1) (prf ?m) (prf ?m) hl = Some (?F i)"
    using pbkdf2_inner_eq [OF PRF(1,2) PRF(2), of "c - 1" ?m ?m] pbkdf2_F_rounds [of "prf" ?m c]
    by (simp add: pbkdf2_F_def Let_def del: upt_Suc)
  have len: "length (?F i) = hl" by (rule length_pbkdf2_F [OF PRF(2)])
  consider "n = 0" | "0 < n" "n < hl" | "hl \<le> n" "n \<noteq> 0" by linarith
  then show ?case
  proof cases
    case 2
    then show ?thesis
      by (subst pbkdf2_loop.simps) (simp add: ctx inner [unfolded One_nat_def] counted_blocks_last len)
  next
    case 3
    have "of_nat i + (1 :: u32) = of_nat (Suc i)" by simp
    with 3 less.IH [of "n - hl" "Suc i"] show ?thesis
      by (subst pbkdf2_loop.simps)
        (simp add: ctx inner [unfolded One_nat_def] counted_blocks_step len PRF(3) add.commute)
  qed (simp add: pbkdf2_loop.simps)
qed

lemma pbkdf2_sm3_loop_eq:
  assumes PRF: "\<And>m. sm3_hmac_finish (sm3_hmac_update tmpl m) = prf m" "\<And>m. length (prf m) = 32"
    and two: "\<And>m m'. sm3_hmac_finish (sm3_hmac_update (sm3_hmac_update tmpl m) m') = prf (m @ m')"
  shows "pbkdf2_sm3_loop tmpl salt c (of_nat i) n = counted_blocks (pbkdf2_F prf salt c) 32 i n"
proof (induction n arbitrary: i rule: less_induct)
  case (less n)
  let ?m = "salt @ PUTU32 (of_nat i :: u32)"
  let ?F = "pbkdf2_F prf salt c"
  have inner: "pbkdf2_sm3_inner tmpl (c - 1) (prf ?m) (prf ?m) = ?F i"
    using pbkdf2_sm3_inner_eq [OF PRF PRF(2), of "c - 1" ?m ?m] pbkdf2_F_rounds [of "prf" ?m c]
    by (simp add: pbkdf2_F_def Let_def del: upt_Suc)
  have len: "length (?F i) = 32" by (rule length_pbkdf2_F [OF PRF(2)])
  consider "n = 0" | "0 < n" "n < 32" | "32 \<le> n" by linarith
  then show ?case
  proof cases
    case 2
    then show ?thesis
      by (subst pbkdf2_sm3_loop.simps) (simp add: two Let_def inner [unfolded One_nat_def] counted_blocks_last len)
  next
    case 3
    have "of_nat i + (1 :: u32) = of_nat (Suc i)" by simp
    with 3 less.IH [of "n - 32" "Suc i"] show ?thesis
      by (subst pbkdf2_sm3_loop.simps)
        (simp add: two Let_def inner [unfolded One_nat_def] counted_blocks_step len add.commute)
  qed (simp add: pbkdf2_sm3_loop.simps)
qed


section \<open>HKDF\<close>

lemma length_hkdf_T: "(\<And>m. length (prf m) = hl) \<Longrightarrow> length (hkdf_T prf info (Suc n)) = hl"
  by simp

context digest_algorithm
begin

text \<open>HMAC of this digest under one key, as the functions above use it.\<close>

definition mac :: "bytes \<Rightarrow> bytes \<Rightarrow> bytes" where
  "mac k m = hmac_spec hash (block_size d) k m"

lemma length_mac: "length (mac k m) = digest_size d"
  by (simp add: mac_def hmac_spec_def Let_def hash_size)

lemma mac_one:
  assumes "hmac_init (Some d) k = Some tmpl"
  shows "\<exists>ctx. hmac_finish (snd (hmac_update tmpl m)) = Some (ctx, mac k m, digest_size d)"
  using hmac_stream [OF assms, of "[m]"] by (simp add: mac_def)

lemma mac_two:
  assumes "hmac_init (Some d) k = Some tmpl"
  shows "\<exists>ctx. hmac_finish (snd (hmac_update (snd (hmac_update tmpl m)) m'))
    = Some (ctx, mac k (m @ m'), digest_size d)"
  using hmac_stream [OF assms, of "[m, m']"] by (simp add: mac_def)

lemma pbkdf2_genkey_eq:
  assumes "k \<noteq> []"
  shows "pbkdf2_genkey (Some d) k salt c n = Some (pbkdf2_spec (mac k) (digest_size d) salt c n)"
proof -
  obtain tmpl where tmpl: "hmac_init (Some d) k = Some tmpl" using hmac_init_eq [OF assms] by simp
  show ?thesis
    using pbkdf2_loop_eq [where i = 1, OF mac_one [OF tmpl] length_mac size_fits(1) mac_two [OF tmpl]]
    by (simp add: pbkdf2_genkey_def tmpl pbkdf2_spec_def)
qed

lemma hkdf_block_eq:
  assumes "k \<noteq> []" "prev \<noteq> Some []"
  shows "hkdf_block (Some d) k prev info c
    = Some (mac k ((case prev of None \<Rightarrow> [] | Some t \<Rightarrow> t) @ info @ [c]), digest_size d)"
proof -
  obtain tmpl where tmpl: "hmac_init (Some d) k = Some tmpl" using hmac_init_eq [OF assms(1)] by simp
  have upd: "hmac_update ctx m = (if m = [] then 0 else 1, snd (hmac_update ctx m))" for ctx m
    by (simp add: prod_eq_iff hmac_update_fields)
  show ?thesis
  proof (cases prev)
    case None
    from hmac_stream [OF tmpl, of "[info, [c]]"] obtain ctx where
      "hmac_finish (snd (hmac_update (snd (hmac_update tmpl info)) [c]))
        = Some (ctx, mac k (info @ [c]), digest_size d)" by (auto simp: mac_def)
    with None show ?thesis
      by (simp add: hkdf_block_def tmpl split_beta hmac_update_fields(2))
  next
    case (Some t)
    from hmac_stream [OF tmpl, of "[t, info, [c]]"] obtain ctx where
      "hmac_finish (snd (hmac_update (snd (hmac_update (snd (hmac_update tmpl t)) info)) [c]))
        = Some (ctx, mac k (t @ info @ [c]), digest_size d)" by (auto simp: mac_def)
    with Some assms(2) show ?thesis
      by (simp add: hkdf_block_def tmpl split_beta hmac_update_fields(2))
  qed
qed

text \<open>
  From block \<open>n + 1\<close> on, with \<open>T(n)\<close> at hand: the loop ends normally exactly when
  the counter does not run out before the output is complete.
\<close>

lemma hkdf_loop_eq:
  assumes "k \<noteq> []" "0 < n" "n \<le> 255" "T = hkdf_T (mac k) info n"
    "L = 0 \<or> len = digest_size d"
  shows "hkdf_loop (Some d) k info T len (of_nat (Suc n)) L
    = (if L \<le> (255 - n) * digest_size d
       then Some (counted_blocks (hkdf_T (mac k) info) (digest_size d) (Suc n) L) else None)"
  using assms
proof (induction "255 - n" arbitrary: n T len L)
  case 0
  then have "n = 255" by simp
  then show ?case by (subst hkdf_loop.simps) simp
next
  case (Suc j)
  let ?hl = "digest_size d" and ?T' = "hkdf_T (mac k) info (Suc n)"
  show ?case
  proof (cases "L = 0")
    case True
    then show ?thesis by (subst hkdf_loop.simps) simp
  next
    case False
    let ?l = "if ?hl > L then L else ?hl"
    have c: "(of_nat (Suc n) :: u8) \<noteq> 0"
      using Suc.hyps(2) by (simp add: word_of_nat_eq_0_iff del: of_nat_Suc) (auto dest: dvd_imp_le)
    have len: "length (hkdf_T (mac k) info n) = ?hl"
      using Suc.prems(2) by (cases n) (simp_all add: length_mac)
    then have ne: "Some (take len T) \<noteq> Some []" and T: "take len T = hkdf_T (mac k) info n"
      using Suc.prems False size_fits(1) by auto
    have blk: "hkdf_block (Some d) k (Some (take len T)) info (of_nat (Suc n)) = Some (?T', ?hl)"
      using hkdf_block_eq [OF Suc.prems(1) ne] T by simp
    have "hkdf_loop (Some d) k info ?T' ?l (of_nat (Suc (Suc n))) (L - ?l)
      = (if L - ?l \<le> (255 - Suc n) * ?hl
         then Some (counted_blocks (hkdf_T (mac k) info) ?hl (Suc (Suc n)) (L - ?l)) else None)"
      using Suc.hyps(2) Suc.prems(1) by (intro Suc.hyps(1)) auto
    moreover have "(L - ?l \<le> (255 - Suc n) * ?hl) = (L \<le> (255 - n) * ?hl)"
    proof -
      have eq: "255 - n = Suc (255 - Suc n)" using Suc.hyps(2) by simp
      have "(255 - n) * ?hl = (255 - Suc n) * ?hl + ?hl"
        unfolding eq by simp
      then show ?thesis by auto
    qed
    moreover have "counted_blocks (hkdf_T (mac k) info) ?hl (Suc n) L
      = take ?l ?T' @ counted_blocks (hkdf_T (mac k) info) ?hl (Suc (Suc n)) (L - ?l)"
      using False size_fits(1)
      by (subst counted_blocks_take) (simp_all add: length_mac min_def)
    ultimately show ?thesis
      using False c blk by (subst hkdf_loop.simps) (simp add: Let_def add.commute del: hkdf_T.simps)
  qed
qed

lemma hkdf_expand_eq:
  assumes "k \<noteq> []"
  shows "hkdf_expand (Some d) k info L
    = (if L \<le> 255 * digest_size d then Some (hkdf_spec (mac k) (digest_size d) info L) else None)"
proof (cases "L = 0")
  case True
  then show ?thesis by (simp add: hkdf_expand_def hkdf_spec_def)
next
  case False
  let ?hl = "digest_size d" and ?T = "hkdf_T (mac k) info 1"
  let ?l = "if ?hl > L then L else ?hl"
  have blk: "hkdf_block (Some d) k None info 1 = Some (?T, ?hl)"
    using hkdf_block_eq [OF assms, of None] by simp
  have "hkdf_loop (Some d) k info ?T ?l (of_nat (Suc 1)) (L - ?l)
    = (if L - ?l \<le> (255 - 1) * ?hl
       then Some (counted_blocks (hkdf_T (mac k) info) ?hl (Suc 1) (L - ?l)) else None)"
    using assms by (intro hkdf_loop_eq) auto
  moreover have "(L - ?l \<le> (255 - 1) * ?hl) = (L \<le> 255 * ?hl)" by auto
  moreover have "counted_blocks (hkdf_T (mac k) info) ?hl 1 L
    = take ?l ?T @ counted_blocks (hkdf_T (mac k) info) ?hl (Suc 1) (L - ?l)"
    using False size_fits(1) by (subst counted_blocks_take) (simp_all add: length_mac min_def)
  ultimately show ?thesis
    using False blk by (simp add: hkdf_expand_def hkdf_spec_def Let_def del: hkdf_T.simps)
qed

lemma hkdf_extract_eq:
  "hkdf_extract d salt ikm =
     (if ikm = [] then None
      else Some (mac (if salt = [] then replicate (digest_size d) 0 else salt) ikm, digest_size d))"
proof -
  let ?k = "if salt = [] then replicate (digest_size d) 0 else salt"
  have "?k \<noteq> []" using size_fits(1) by simp
  from hmac_init_eq [OF this] obtain tmpl where tmpl: "hmac_init (Some d) ?k = Some tmpl" by simp
  have zeros: "min (digest_size d) 64 = digest_size d" using size_fits(2) by simp
  from mac_one [OF tmpl, of ikm] obtain ctx where
    "hmac_finish (snd (hmac_update tmpl ikm)) = Some (ctx, mac ?k ikm, digest_size d)" ..
  with tmpl show ?thesis
    by (simp add: hkdf_extract_def zeros split_beta hmac_update_fields(2) split: if_splits)
qed

end


section \<open>Properties\<close>

lemma sm3_pbkdf2_eq:
  "pbkdf2_hmac_sm3_genkey k salt c n = pbkdf2_spec (hmac_spec sm3_digest 64 k) 32 salt c n"
proof -
  have "sm3_hmac_finish (sm3_hmac_update (sm3_hmac_init k) m) = hmac_spec sm3_digest 64 k m" for m
    using sm3_hmac_finish_eq [of k "[m]"] by simp
  moreover have "sm3_hmac_finish (sm3_hmac_update (sm3_hmac_update (sm3_hmac_init k) m) m')
    = hmac_spec sm3_digest 64 k (m @ m')" for m m'
    using sm3_hmac_finish_eq [of k "[m, m']"] by simp
  ultimately show ?thesis
    using pbkdf2_sm3_loop_eq [of "sm3_hmac_init k" "hmac_spec sm3_digest 64 k" salt c 1 n]
    by (simp add: pbkdf2_hmac_sm3_genkey_def pbkdf2_spec_def length_hmac_spec_sm3)
qed

text \<open>
  C30. The SM3 key derivation writes the requested number of bytes, the first ones of
  the hashes of the input followed by the counters 1, 2, ..., each as four bytes.
\<close>

theorem sm3_kdf_correct:
  "sm3_kdf_finish (foldl sm3_kdf_update (sm3_kdf_init n) ds)
     = take n (concat (map (\<lambda>i. sm3_digest (concat ds @ PUTU32 (of_nat i :: u32)))
         [1..<1 + (n + 31) div 32]))
   \<and> length (sm3_kdf_finish (foldl sm3_kdf_update (sm3_kdf_init n) ds)) = n"
proof -
  let ?B = "\<lambda>i. sm3_digest (concat ds @ PUTU32 (of_nat i :: u32))"
  have "length (concat (map ?B [1..<1 + l])) = 32 * l" for l
    by (induction l) (simp_all add: sm3_h.length_hash)
  moreover have "n \<le> 32 * ((n + 31) div 32)" by presburger
  moreover have "n + 32 - 1 = n + 31" by simp
  moreover have "sm3_kdf_finish (foldl sm3_kdf_update (sm3_kdf_init n) ds) = counted_blocks ?B 32 1 n"
    using sm3_kdf_loop_eq [OF refl, of ds 1 n] by (simp add: sm3_kdf_finish_def sm3_kdf_updates)
  ultimately show ?thesis by (simp only: counted_blocks_def length_take min_absorb2)
qed



text \<open>
  The two PBKDF2 implementations agree: the generic one with SM3 and the one
  written for SM3 give the same key for every non-empty password.
\<close>

theorem pbkdf2_implementations_agree:
  assumes "pass \<noteq> []"
  shows "pbkdf2_genkey (Some DIGEST_sm3) pass salt count n
    = Some (pbkdf2_hmac_sm3_genkey pass salt count n)"
proof -
  have "dg_sm3.mac pass = hmac_spec sm3_digest 64 pass"
    by (simp add: fun_eq_iff dg_sm3.mac_def) (simp add: DIGEST_sm3_def)
  then show ?thesis
    using dg_sm3.pbkdf2_genkey_eq [OF assms, of salt count n]
    by (simp add: sm3_pbkdf2_eq) (simp add: DIGEST_sm3_def)
qed

theorem pbkdf2_implementations_agree_witness:
  "pbkdf2_genkey (Some DIGEST_sm3) [1] [] 2 5 = Some (pbkdf2_hmac_sm3_genkey [1] [] 2 5)"
  by (rule pbkdf2_implementations_agree) simp

text \<open>
  C32. HKDF: extraction is HMAC under the salt, or under zeros when there is none, and
  refuses empty key material; expansion terminates, is the function of the standard,
  and reports an error exactly when more than 255 blocks are asked for.
\<close>

theorem hkdf_correct:
  assumes "(d, h) \<in> set digest_impls" "prk \<noteq> []"
  shows "hkdf_expand (Some d) prk info L =
      (if L \<le> 255 * digest_size d
       then Some (hkdf_spec (hmac_spec h (block_size d) prk) (digest_size d) info L) else None)
    \<and> hkdf_extract d salt ikm =
      (if ikm = [] then None
       else Some (hmac_spec h (block_size d)
         (if salt = [] then replicate (digest_size d) 0 else salt) ikm, digest_size d))"
proof -
  have alg: "digest_algorithm d h" using assms(1) by (rule digest_impls_algorithm)
  have "digest_algorithm.mac d h k = hmac_spec h (block_size d) k" for k
    by (simp add: fun_eq_iff digest_algorithm.mac_def [OF alg])
  then show ?thesis
    using digest_algorithm.hkdf_expand_eq [OF alg assms(2)] digest_algorithm.hkdf_extract_eq [OF alg]
    by simp
qed

theorem hkdf_correct_witness:
  "hkdf_expand (Some DIGEST_sha256) [1] [] 8161 = None
    \<and> hkdf_expand (Some DIGEST_sha256) [1] [] 8160
      = Some (hkdf_spec (hmac_spec sha256_digest 64 [1]) 32 [] 8160)"
  using hkdf_correct [of DIGEST_sha256 sha256_digest "[1]" "[]" 8161]
    hkdf_correct [of DIGEST_sha256 sha256_digest "[1]" "[]" 8160]
  by (simp add: digest_impls_def DIGEST_sha256_def)

end
