(* ===== verification/Gm_Sm4.thy ===== *)
theory Gm_Sm4
  imports Gm_Endian Gm_Mem
begin

text \<open>
  GmSSL, the SM4 block cipher: \<^verbatim>\<open>src/sm4_common.c\<close> (tables), \<^verbatim>\<open>src/sm4_lcl.h\<close> (round macros),
  \<^verbatim>\<open>src/sm4_setkey.c\<close> (key schedule) and \<^verbatim>\<open>src/sm4_enc.c\<close> (block encryption and 32-bit
  counter mode), in the portable build.

  The compiled round is the one over the combined table \<^verbatim>\<open>SM4_T\<close>. It is shown to be
  the round over the S-box, and decryption, which is encryption with the round keys
  in reverse, to invert encryption.
\<close>

section \<open>Tables\<close>

definition SM4_S :: "u8 list" where
  "SM4_S = concat [
    [0xd6, 0x90, 0xe9, 0xfe, 0xcc, 0xe1, 0x3d, 0xb7],
    [0x16, 0xb6, 0x14, 0xc2, 0x28, 0xfb, 0x2c, 0x05],
    [0x2b, 0x67, 0x9a, 0x76, 0x2a, 0xbe, 0x04, 0xc3],
    [0xaa, 0x44, 0x13, 0x26, 0x49, 0x86, 0x06, 0x99],
    [0x9c, 0x42, 0x50, 0xf4, 0x91, 0xef, 0x98, 0x7a],
    [0x33, 0x54, 0x0b, 0x43, 0xed, 0xcf, 0xac, 0x62],
    [0xe4, 0xb3, 0x1c, 0xa9, 0xc9, 0x08, 0xe8, 0x95],
    [0x80, 0xdf, 0x94, 0xfa, 0x75, 0x8f, 0x3f, 0xa6],
    [0x47, 0x07, 0xa7, 0xfc, 0xf3, 0x73, 0x17, 0xba],
    [0x83, 0x59, 0x3c, 0x19, 0xe6, 0x85, 0x4f, 0xa8],
    [0x68, 0x6b, 0x81, 0xb2, 0x71, 0x64, 0xda, 0x8b],
    [0xf8, 0xeb, 0x0f, 0x4b, 0x70, 0x56, 0x9d, 0x35],
    [0x1e, 0x24, 0x0e, 0x5e, 0x63, 0x58, 0xd1, 0xa2],
    [0x25, 0x22, 0x7c, 0x3b, 0x01, 0x21, 0x78, 0x87],
    [0xd4, 0x00, 0x46, 0x57, 0x9f, 0xd3, 0x27, 0x52],
    [0x4c, 0x36, 0x02, 0xe7, 0xa0, 0xc4, 0xc8, 0x9e],
    [0xea, 0xbf, 0x8a, 0xd2, 0x40, 0xc7, 0x38, 0xb5],
    [0xa3, 0xf7, 0xf2, 0xce, 0xf9, 0x61, 0x15, 0xa1],
    [0xe0, 0xae, 0x5d, 0xa4, 0x9b, 0x34, 0x1a, 0x55],
    [0xad, 0x93, 0x32, 0x30, 0xf5, 0x8c, 0xb1, 0xe3],
    [0x1d, 0xf6, 0xe2, 0x2e, 0x82, 0x66, 0xca, 0x60],
    [0xc0, 0x29, 0x23, 0xab, 0x0d, 0x53, 0x4e, 0x6f],
    [0xd5, 0xdb, 0x37, 0x45, 0xde, 0xfd, 0x8e, 0x2f],
    [0x03, 0xff, 0x6a, 0x72, 0x6d, 0x6c, 0x5b, 0x51],
    [0x8d, 0x1b, 0xaf, 0x92, 0xbb, 0xdd, 0xbc, 0x7f],
    [0x11, 0xd9, 0x5c, 0x41, 0x1f, 0x10, 0x5a, 0xd8],
    [0x0a, 0xc1, 0x31, 0x88, 0xa5, 0xcd, 0x7b, 0xbd],
    [0x2d, 0x74, 0xd0, 0x12, 0xb8, 0xe5, 0xb4, 0xb0],
    [0x89, 0x69, 0x97, 0x4a, 0x0c, 0x96, 0x77, 0x7e],
    [0x65, 0xb9, 0xf1, 0x09, 0xc5, 0x6e, 0xc6, 0x84],
    [0x18, 0xf0, 0x7d, 0xec, 0x3a, 0xdc, 0x4d, 0x20],
    [0x79, 0xee, 0x5f, 0x3e, 0xd7, 0xcb, 0x39, 0x48]]"

definition SM4_T :: "u32 list" where
  "SM4_T = concat [
    [0x8ed55b5b, 0xd0924242, 0x4deaa7a7, 0x06fdfbfb],
    [0xfccf3333, 0x65e28787, 0xc93df4f4, 0x6bb5dede],
    [0x4e165858, 0x6eb4dada, 0x44145050, 0xcac10b0b],
    [0x8828a0a0, 0x17f8efef, 0x9c2cb0b0, 0x11051414],
    [0x872bacac, 0xfb669d9d, 0xf2986a6a, 0xae77d9d9],
    [0x822aa8a8, 0x46bcfafa, 0x14041010, 0xcfc00f0f],
    [0x02a8aaaa, 0x54451111, 0x5f134c4c, 0xbe269898],
    [0x6d482525, 0x9e841a1a, 0x1e061818, 0xfd9b6666],
    [0xec9e7272, 0x4a430909, 0x10514141, 0x24f7d3d3],
    [0xd5934646, 0x53ecbfbf, 0xf89a6262, 0x927be9e9],
    [0xff33cccc, 0x04555151, 0x270b2c2c, 0x4f420d0d],
    [0x59eeb7b7, 0xf3cc3f3f, 0x1caeb2b2, 0xea638989],
    [0x74e79393, 0x7fb1cece, 0x6c1c7070, 0x0daba6a6],
    [0xedca2727, 0x28082020, 0x48eba3a3, 0xc1975656],
    [0x80820202, 0xa3dc7f7f, 0xc4965252, 0x12f9ebeb],
    [0xa174d5d5, 0xb38d3e3e, 0xc33ffcfc, 0x3ea49a9a],
    [0x5b461d1d, 0x1b071c1c, 0x3ba59e9e, 0x0cfff3f3],
    [0x3ff0cfcf, 0xbf72cdcd, 0x4b175c5c, 0x52b8eaea],
    [0x8f810e0e, 0x3d586565, 0xcc3cf0f0, 0x7d196464],
    [0x7ee59b9b, 0x91871616, 0x734e3d3d, 0x08aaa2a2],
    [0xc869a1a1, 0xc76aadad, 0x85830606, 0x7ab0caca],
    [0xb570c5c5, 0xf4659191, 0xb2d96b6b, 0xa7892e2e],
    [0x18fbe3e3, 0x47e8afaf, 0x330f3c3c, 0x674a2d2d],
    [0xb071c1c1, 0x0e575959, 0xe99f7676, 0xe135d4d4],
    [0x661e7878, 0xb4249090, 0x360e3838, 0x265f7979],
    [0xef628d8d, 0x38596161, 0x95d24747, 0x2aa08a8a],
    [0xb1259494, 0xaa228888, 0x8c7df1f1, 0xd73becec],
    [0x05010404, 0xa5218484, 0x9879e1e1, 0x9b851e1e],
    [0x84d75353, 0x00000000, 0x5e471919, 0x0b565d5d],
    [0xe39d7e7e, 0x9fd04f4f, 0xbb279c9c, 0x1a534949],
    [0x7c4d3131, 0xee36d8d8, 0x0a020808, 0x7be49f9f],
    [0x20a28282, 0xd4c71313, 0xe8cb2323, 0xe69c7a7a],
    [0x42e9abab, 0x43bdfefe, 0xa2882a2a, 0x9ad14b4b],
    [0x40410101, 0xdbc41f1f, 0xd838e0e0, 0x61b7d6d6],
    [0x2fa18e8e, 0x2bf4dfdf, 0x3af1cbcb, 0xf6cd3b3b],
    [0x1dfae7e7, 0xe5608585, 0x41155454, 0x25a38686],
    [0x60e38383, 0x16acbaba, 0x295c7575, 0x34a69292],
    [0xf7996e6e, 0xe434d0d0, 0x721a6868, 0x01545555],
    [0x19afb6b6, 0xdf914e4e, 0xfa32c8c8, 0xf030c0c0],
    [0x21f6d7d7, 0xbc8e3232, 0x75b3c6c6, 0x6fe08f8f],
    [0x691d7474, 0x2ef5dbdb, 0x6ae18b8b, 0x962eb8b8],
    [0x8a800a0a, 0xfe679999, 0xe2c92b2b, 0xe0618181],
    [0xc0c30303, 0x8d29a4a4, 0xaf238c8c, 0x07a9aeae],
    [0x390d3434, 0x1f524d4d, 0x764f3939, 0xd36ebdbd],
    [0x81d65757, 0xb7d86f6f, 0xeb37dcdc, 0x51441515],
    [0xa6dd7b7b, 0x09fef7f7, 0xb68c3a3a, 0x932fbcbc],
    [0x0f030c0c, 0x03fcffff, 0xc26ba9a9, 0xba73c9c9],
    [0xd96cb5b5, 0xdc6db1b1, 0x375a6d6d, 0x15504545],
    [0xb98f3636, 0x771b6c6c, 0x13adbebe, 0xda904a4a],
    [0x57b9eeee, 0xa9de7777, 0x4cbef2f2, 0x837efdfd],
    [0x55114444, 0xbdda6767, 0x2c5d7171, 0x45400505],
    [0x631f7c7c, 0x50104040, 0x325b6969, 0xb8db6363],
    [0x220a2828, 0xc5c20707, 0xf531c4c4, 0xa88a2222],
    [0x31a79696, 0xf9ce3737, 0x977aeded, 0x49bff6f6],
    [0x992db4b4, 0xa475d1d1, 0x90d34343, 0x5a124848],
    [0x58bae2e2, 0x71e69797, 0x64b6d2d2, 0x70b2c2c2],
    [0xad8b2626, 0xcd68a5a5, 0xcb955e5e, 0x624b2929],
    [0x3c0c3030, 0xce945a5a, 0xab76dddd, 0x867ff9f9],
    [0xf1649595, 0x5dbbe6e6, 0x35f2c7c7, 0x2d092424],
    [0xd1c61717, 0xd66fb9b9, 0xdec51b1b, 0x94861212],
    [0x78186060, 0x30f3c3c3, 0x897cf5f5, 0x5cefb3b3],
    [0xd23ae8e8, 0xacdf7373, 0x794c3535, 0xa0208080],
    [0x9d78e5e5, 0x56edbbbb, 0x235e7d7d, 0xc63ef8f8],
    [0x8bd45f5f, 0xe7c82f2f, 0xdd39e4e4, 0x68492121]]"

definition FK :: "u32 list" where
  "FK = [0xa3b1bac6, 0x56aa3350, 0x677d9197, 0xb27022dc]"

definition CK :: "u32 list" where
  "CK = concat [
    [0x00070e15, 0x1c232a31, 0x383f464d, 0x545b6269],
    [0x70777e85, 0x8c939aa1, 0xa8afb6bd, 0xc4cbd2d9],
    [0xe0e7eef5, 0xfc030a11, 0x181f262d, 0x343b4249],
    [0x50575e65, 0x6c737a81, 0x888f969d, 0xa4abb2b9],
    [0xc0c7ced5, 0xdce3eaf1, 0xf8ff060d, 0x141b2229],
    [0x30373e45, 0x4c535a61, 0x686f767d, 0x848b9299],
    [0xa0a7aeb5, 0xbcc3cad1, 0xd8dfe6ed, 0xf4fb0209],
    [0x10171e25, 0x2c333a41, 0x484f565d, 0x646b7279]]"


section \<open>Round functions\<close>

definition S32 :: "u32 \<Rightarrow> u32" where
  "S32 A =
     push_bit 24 (ucast (SM4_S ! unat (drop_bit 24 A))) XOR
     push_bit 16 (ucast (SM4_S ! unat (drop_bit 16 A AND 0xff))) XOR
     push_bit 8 (ucast (SM4_S ! unat (drop_bit 8 A AND 0xff))) XOR
     ucast (SM4_S ! unat (A AND 0xff))"

definition L32 :: "u32 \<Rightarrow> u32" where
  "L32 x = x XOR ROL32 x 2 XOR ROL32 x 10 XOR ROL32 x 18 XOR ROL32 x 24"

definition L32' :: "u32 \<Rightarrow> u32" where
  "L32' x = x XOR ROL32 x 13 XOR ROL32 x 23"

text \<open>
  A round macro works on five registers. \<^verbatim>\<open>ROUNDS\<close> is 32 uses of it, each with the
  registers renamed by one place; \<open>ROUNDS\<close> rotates the tuple instead, so that after
  the last round the tuple holds the registers \<^verbatim>\<open>x2, x3, x4, x0, x1\<close> of the macro.
\<close>

type_synonym sm4_regs = "u32 \<times> u32 \<times> u32 \<times> u32 \<times> u32"

fun ROUND_SBOX :: "u32 list \<Rightarrow> nat \<Rightarrow> sm4_regs \<Rightarrow> sm4_regs" where
  "ROUND_SBOX rks i (x0, x1, x2, x3, x4) =
     (let x4 = x1 XOR x2 XOR x3 XOR rks ! i;
          x4 = S32 x4;
          x4 = x0 XOR L32 x4
      in (x0, x1, x2, x3, x4))"

fun ROUND_TBOX :: "u32 list \<Rightarrow> nat \<Rightarrow> sm4_regs \<Rightarrow> sm4_regs" where
  "ROUND_TBOX rks i (x0, x1, x2, x3, x4) =
     (let x4 = x1 XOR x2 XOR x3 XOR rks ! i;
          t0 = ROL32 (SM4_T ! unat (ucast x4 :: u8)) 8;
          x4 = drop_bit 8 x4;
          x0 = x0 XOR t0;
          t0 = ROL32 (SM4_T ! unat (ucast x4 :: u8)) 16;
          x4 = drop_bit 8 x4;
          x0 = x0 XOR t0;
          t0 = ROL32 (SM4_T ! unat (ucast x4 :: u8)) 24;
          x4 = drop_bit 8 x4;
          x0 = x0 XOR t0;
          t1 = SM4_T ! unat x4;
          x4 = x0 XOR t1
      in (x0, x1, x2, x3, x4))"

fun rename_regs :: "sm4_regs \<Rightarrow> sm4_regs" where
  "rename_regs (x0, x1, x2, x3, x4) = (x1, x2, x3, x4, x0)"

definition ROUNDS :: "(nat \<Rightarrow> sm4_regs \<Rightarrow> sm4_regs) \<Rightarrow> sm4_regs \<Rightarrow> sm4_regs" where
  "ROUNDS rnd s = fold (\<lambda>i s. rename_regs (rnd i s)) [0..<32] s"


section \<open>Key schedule\<close>

record SM4_KEY =
  rk :: "u32 list"

text \<open>\<^verbatim>\<open>ENC_ROUND\<close> and \<^verbatim>\<open>DEC_ROUND\<close> differ in where they store the round key.\<close>

fun ENC_ROUND :: "nat \<Rightarrow> u32 list \<times> sm4_regs \<Rightarrow> u32 list \<times> sm4_regs" where
  "ENC_ROUND i (ks, x0, x1, x2, x3, x4) =
     (let x4 = x1 XOR x2 XOR x3 XOR CK ! i;
          x4 = S32 x4;
          x4 = x0 XOR L32' x4
      in (ks[i := x4], x0, x1, x2, x3, x4))"

fun DEC_ROUND :: "nat \<Rightarrow> u32 list \<times> sm4_regs \<Rightarrow> u32 list \<times> sm4_regs" where
  "DEC_ROUND i (ks, x0, x1, x2, x3, x4) =
     (let x4 = x1 XOR x2 XOR x3 XOR CK ! i;
          x4 = S32 x4;
          x4 = x0 XOR L32' x4
      in (ks[31 - i := x4], x0, x1, x2, x3, x4))"

definition KEY_ROUNDS ::
    "(nat \<Rightarrow> u32 list \<times> sm4_regs \<Rightarrow> u32 list \<times> sm4_regs) \<Rightarrow> u32 list \<times> sm4_regs \<Rightarrow> u32 list \<times> sm4_regs"
  where
  "KEY_ROUNDS rnd s = fold (\<lambda>i s. let (ks, x) = rnd i s in (ks, rename_regs x)) [0..<32] s"

definition sm4_load_key :: "bytes \<Rightarrow> sm4_regs" where
  "sm4_load_key user_key =
     (GETU32 user_key XOR FK ! 0, GETU32 (drop 4 user_key) XOR FK ! 1,
      GETU32 (drop 8 user_key) XOR FK ! 2, GETU32 (drop 12 user_key) XOR FK ! 3, 0)"

definition sm4_set_encrypt_key :: "bytes \<Rightarrow> SM4_KEY" where
  "sm4_set_encrypt_key user_key =
     \<lparr>rk = fst (KEY_ROUNDS ENC_ROUND (replicate 32 0, sm4_load_key user_key))\<rparr>"

definition sm4_set_decrypt_key :: "bytes \<Rightarrow> SM4_KEY" where
  "sm4_set_decrypt_key user_key =
     \<lparr>rk = fst (KEY_ROUNDS DEC_ROUND (replicate 32 0, sm4_load_key user_key))\<rparr>"


section \<open>Encryption\<close>

definition sm4_encrypt :: "SM4_KEY \<Rightarrow> bytes \<Rightarrow> bytes" where
  "sm4_encrypt key inp =
     (let (x2, x3, x4, x0, x1) = ROUNDS (ROUND_TBOX (rk key))
        (GETU32 inp, GETU32 (drop 4 inp), GETU32 (drop 8 inp), GETU32 (drop 12 inp), 0)
      in PUTU32 x0 @ PUTU32 x4 @ PUTU32 x3 @ PUTU32 x2)"

abbreviation (input) sm4_decrypt :: "SM4_KEY \<Rightarrow> bytes \<Rightarrow> bytes" where
  "sm4_decrypt \<equiv> sm4_encrypt"

primrec sm4_ctr32_loop ::
    "SM4_KEY \<Rightarrow> u32 \<Rightarrow> u32 \<Rightarrow> u32 \<Rightarrow> u32 \<Rightarrow> bytes \<Rightarrow> nat \<Rightarrow> bytes" where
  "sm4_ctr32_loop key c0 c1 c2 c3 inp 0 = []"
| "sm4_ctr32_loop key c0 c1 c2 c3 inp (Suc blocks) =
     (let (x2, x3, x4, x0, x1) = ROUNDS (ROUND_TBOX (rk key)) (c0, c1, c2, c3, 0)
      in PUTU32 (GETU32 inp XOR x0) @ PUTU32 (GETU32 (drop 4 inp) XOR x4)
         @ PUTU32 (GETU32 (drop 8 inp) XOR x3) @ PUTU32 (GETU32 (drop 12 inp) XOR x2)
         @ sm4_ctr32_loop key c0 c1 c2 (c3 + 1) (drop 16 inp) blocks)"

definition sm4_ctr32_encrypt_blocks :: "bytes \<Rightarrow> nat \<Rightarrow> SM4_KEY \<Rightarrow> bytes \<Rightarrow> bytes" where
  "sm4_ctr32_encrypt_blocks inp blocks key iv =
     sm4_ctr32_loop key (GETU32 iv) (GETU32 (drop 4 iv)) (GETU32 (drop 8 iv)) (GETU32 (drop 12 iv))
       inp blocks"


section \<open>The table round is the S-box round\<close>

lemma SM4_T_table: "SM4_T = map (\<lambda>s. L32 (push_bit 24 (ucast s))) SM4_S"
  by (simp add: SM4_T_def SM4_S_def L32_def ROL32_def)

lemma length_SM4_S: "length SM4_S = 256"
  by (simp add: SM4_S_def)

lemma SM4_T_nth: "i < 256 \<Longrightarrow> SM4_T ! i = L32 (push_bit 24 (ucast (SM4_S ! i)))"
  by (simp add: SM4_T_table length_SM4_S)

lemma L32_xor: "L32 (a XOR b) = L32 a XOR L32 b"
  unfolding L32_def by (simp add: ROL32_xor ac_simps)

lemma L32_ROL32: "n < 32 \<Longrightarrow> L32 (ROL32 a n) = ROL32 (L32 a) n"
  unfolding L32_def by (simp add: ROL32_xor ROL32_ROL32 add.commute)

lemma ROL32_byte:
  fixes s :: u8
  shows "ROL32 (push_bit 24 (ucast s)) 8 = ucast s"
    and "ROL32 (push_bit 24 (ucast s)) 16 = push_bit 8 (ucast s)"
    and "ROL32 (push_bit 24 (ucast s)) 24 = push_bit 16 (ucast s)"
  unfolding ROL32_def mask32_id
  by (auto intro!: bit_word_eqI simp: bit_simps) (rule ccontr; simp)+

lemma byte_index:
  fixes w :: u32
  shows "unat (ucast w :: u8) = unat (w AND 0xff)" and "unat (w AND 0xff) < 256"
    and "unat (drop_bit 24 w) < 256"
proof -
  have "w AND 0xff = take_bit 8 w" by (simp add: take_bit_eq_mask mask_eq_exp_minus_1)
  then have m: "unat (w AND 0xff) = unat w mod 256" by (simp add: unat_mod take_bit_eq_mod)
  then show "unat (ucast w :: u8) = unat (w AND 0xff)" "unat (w AND 0xff) < 256"
    by (simp_all add: unsigned_ucast_eq take_bit_eq_mod)
  have "unat w < 2 ^ 32" using unsigned_less [of w] by simp
  then show "unat (drop_bit 24 w) < 256" by (simp add: drop_bit_eq_div unat_div less_mult_imp_div_less)
qed

lemma T_lookups:
  "ROL32 (SM4_T ! unat (ucast w :: u8)) 8 XOR ROL32 (SM4_T ! unat (ucast (drop_bit 8 w) :: u8)) 16
    XOR ROL32 (SM4_T ! unat (ucast (drop_bit 16 w) :: u8)) 24 XOR SM4_T ! unat (drop_bit 24 w)
   = L32 (S32 w)"
  unfolding S32_def
  by (simp add: byte_index SM4_T_nth L32_xor ROL32_byte ac_simps flip: L32_ROL32)


lemma ROUND_TBOX_SBOX:
  "rename_regs (ROUND_TBOX ks i (a, b, c, d, e))
    = (b, c, d, a XOR L32 (S32 (b XOR c XOR d XOR ks ! i)), snd (snd (snd (snd
      (rename_regs (ROUND_TBOX ks i (a, b, c, d, e)))))))"
  "rename_regs (ROUND_SBOX ks i (a, b, c, d, e))
    = (b, c, d, a XOR L32 (S32 (b XOR c XOR d XOR ks ! i)), a)"
  using T_lookups [of "b XOR c XOR d XOR ks ! i", symmetric]
  by (simp_all add: Let_def ac_simps)

text \<open>One round on the four words that matter, and reading a block backwards.\<close>

type_synonym sm4_words = "u32 \<times> u32 \<times> u32 \<times> u32"

fun sm4_step :: "u32 \<Rightarrow> sm4_words \<Rightarrow> sm4_words" where
  "sm4_step k (a, b, c, d) = (b, c, d, a XOR L32 (S32 (b XOR c XOR d XOR k)))"

fun sm4_rev :: "sm4_words \<Rightarrow> sm4_words" where
  "sm4_rev (a, b, c, d) = (d, c, b, a)"

fun four :: "sm4_regs \<Rightarrow> sm4_words" where
  "four (a, b, c, d, e) = (a, b, c, d)"

lemma four_round: "four (rename_regs (ROUND_TBOX ks i s)) = sm4_step (ks ! i) (four s)"
  "four (rename_regs (ROUND_SBOX ks i s)) = sm4_step (ks ! i) (four s)"
proof -
  obtain a b c d e where s: "s = (a, b, c, d, e)" by (metis surj_pair)
  show "four (rename_regs (ROUND_TBOX ks i s)) = sm4_step (ks ! i) (four s)"
    unfolding s by (subst ROUND_TBOX_SBOX(1)) (simp del: ROUND_TBOX.simps)
  show "four (rename_regs (ROUND_SBOX ks i s)) = sm4_step (ks ! i) (four s)"
    unfolding s by (subst ROUND_TBOX_SBOX(2)) (simp del: ROUND_TBOX.simps)
qed

lemma fold_nth_upt: "length xs = n \<Longrightarrow> fold (\<lambda>i. f (xs ! i)) [0..<n] = fold f xs"
proof -
  assume "length xs = n"
  then have "map ((!) xs) [0..<n] = xs" by (auto intro: nth_equalityI)
  moreover have "fold (\<lambda>i. f (xs ! i)) [0..<n] = fold f (map ((!) xs) [0..<n])"
    by (simp add: fold_map comp_def)
  ultimately show ?thesis by simp
qed

lemma four_ROUNDS:
  assumes "\<And>i s. four (rename_regs (rnd i s)) = sm4_step (ks ! i) (four s)" "length ks = 32"
  shows "four (ROUNDS rnd s) = fold sm4_step ks (four s)"
proof -
  have "four (fold (\<lambda>i s. rename_regs (rnd i s)) is s) = fold (\<lambda>i. sm4_step (ks ! i)) is (four s)" for "is" s
    by (induction "is" arbitrary: s) (simp_all add: assms(1))
  then show ?thesis unfolding ROUNDS_def using fold_nth_upt [OF assms(2), of sm4_step] by (simp only:)
qed

definition block_words :: "bytes \<Rightarrow> sm4_words" where
  "block_words b = (GETU32 b, GETU32 (drop 4 b), GETU32 (drop 8 b), GETU32 (drop 12 b))"

fun words_block :: "sm4_words \<Rightarrow> bytes" where
  "words_block (a, b, c, d) = PUTU32 a @ PUTU32 b @ PUTU32 c @ PUTU32 d"

definition sm4_ref :: "u32 list \<Rightarrow> bytes \<Rightarrow> bytes" where
  "sm4_ref ks b = words_block (sm4_rev (fold sm4_step ks (block_words b)))"

lemma sm4_out:
  "(let (x2, x3, x4, x0, x1) = s in PUTU32 x0 @ PUTU32 x4 @ PUTU32 x3 @ PUTU32 x2)
    = words_block (sm4_rev (four s))"
proof -
  obtain a b c d e where s: "s = (a, b, c, d, e)" by (metis surj_pair)
  show ?thesis by (simp add: s)
qed

lemma sm4_encrypt_ref: "length (rk key) = 32 \<Longrightarrow> sm4_encrypt key b = sm4_ref (rk key) b"
  unfolding sm4_encrypt_def sm4_out
  by (simp add: four_ROUNDS [OF four_round(1)] sm4_ref_def block_words_def)

lemma block_words_block: "block_words (words_block w) = w"
proof -
  obtain a b c d where w: "w = (a, b, c, d)" by (metis surj_pair)
  show ?thesis using GETU32_PUTU32 [of d "[]"] by (simp add: w block_words_def)
qed

lemma words_block_words:
  assumes "length b = 16"
  shows "words_block (block_words b) = b"
proof -
  have "take 4 (drop 8 b) @ drop 12 b = drop 8 b" "take 4 (drop 4 b) @ drop 8 b = drop 4 b"
    using append_take_drop_id [of 4 "drop 8 b"] append_take_drop_id [of 4 "drop 4 b"] by simp_all
  with assms show ?thesis by (simp add: block_words_def PUTU32_GETU32)
qed

lemma sm4_step_rev: "sm4_step k (sm4_rev (sm4_step k s)) = sm4_rev s"
proof -
  obtain a b c d where s: "s = (a, b, c, d)" by (metis surj_pair)
  show ?thesis by (simp add: s ac_simps)
qed

lemma fold_step_rev: "fold sm4_step (rev ks) (sm4_rev (fold sm4_step ks s)) = sm4_rev s"
  by (induction ks arbitrary: s) (simp_all add: sm4_step_rev)

lemma sm4_rev_rev [simp]: "sm4_rev (sm4_rev s) = s"
  by (cases s rule: sm4_rev.cases) simp

lemma sm4_ref_inverse: "length b = 16 \<Longrightarrow> sm4_ref (rev ks) (sm4_ref ks b) = b"
  by (simp add: sm4_ref_def block_words_block fold_step_rev words_block_words)


section \<open>Key schedule\<close>

lemma key_rounds_rev:
  assumes "length ks = 32" "\<And>i. i \<in> set is \<Longrightarrow> i < 32"
  shows "(let (ks', x') = fold (\<lambda>i s. let (ks, x) = ENC_ROUND i s in (ks, rename_regs x)) is (ks, x)
      in length ks' = 32 \<and>
        fold (\<lambda>i s. let (ks, x) = DEC_ROUND i s in (ks, rename_regs x)) is (rev ks, x) = (rev ks', x'))"
  using assms
proof (induction "is" arbitrary: ks x)
  case (Cons i "is")
  obtain a b c d e where x: "x = (a, b, c, d, e)" by (metis surj_pair)
  have "(rev ks)[31 - i := v] = rev (ks[i := v])" for v
    using Cons.prems by (simp add: rev_update)
  with Cons.IH [of "ks[i := _]"] Cons.prems show ?case by (simp add: x Let_def)
qed simp

lemma sm4_keys:
  "length (rk (sm4_set_encrypt_key k)) = 32"
  "rk (sm4_set_decrypt_key k) = rev (rk (sm4_set_encrypt_key k))"
proof -
  have "length (replicate 32 0 :: u32 list) = 32" "rev (replicate 32 0) = (replicate 32 0 :: u32 list)"
    by simp_all
  with key_rounds_rev [of "replicate 32 0" "[0..<32]" "sm4_load_key k"]
  show "length (rk (sm4_set_encrypt_key k)) = 32"
    "rk (sm4_set_decrypt_key k) = rev (rk (sm4_set_encrypt_key k))"
    unfolding sm4_set_encrypt_key_def sm4_set_decrypt_key_def KEY_ROUNDS_def
    by (simp_all only: SM4_KEY.simps Let_def split_beta set_upt atLeastLessThan_iff) auto
qed

lemma length_words_block [simp]: "length (words_block w) = 16"
  by (cases w rule: words_block.cases) simp

lemma length_sm4_encrypt: "length (sm4_encrypt key b) = 16"
  by (simp add: sm4_encrypt_def split_beta)

lemma sm4_decrypt_encrypt:
  "length b = 16 \<Longrightarrow> sm4_decrypt (sm4_set_decrypt_key k) (sm4_encrypt (sm4_set_encrypt_key k) b) = b"
  by (simp add: sm4_encrypt_ref sm4_keys sm4_ref_inverse)

lemma sm4_encrypt_decrypt:
  "length b = 16 \<Longrightarrow> sm4_encrypt (sm4_set_encrypt_key k) (sm4_decrypt (sm4_set_decrypt_key k) b) = b"
  using sm4_ref_inverse [of b "rev (rk (sm4_set_encrypt_key k))"]
  by (simp add: sm4_encrypt_ref sm4_keys)


section \<open>Counter mode over blocks\<close>

lemma PUTU32_xor: "PUTU32 (a XOR b :: u32) = map2 (XOR) (PUTU32 a) (PUTU32 b)"
  by (simp add: PUTU32_def) (auto intro!: bit_word_eqI simp: bit_simps)

lemma map2_append:
  "length a = length b \<Longrightarrow> map2 f (a @ c) (b @ d) = map2 f a b @ map2 f c d"
  by simp

lemma ctr32_block:
  assumes "16 \<le> length inp"
  shows "(let (x2, x3, x4, x0, x1) = ROUNDS (ROUND_TBOX (rk key)) (c0, c1, c2, c3, 0)
      in PUTU32 (GETU32 inp XOR x0) @ PUTU32 (GETU32 (drop 4 inp) XOR x4)
         @ PUTU32 (GETU32 (drop 8 inp) XOR x3) @ PUTU32 (GETU32 (drop 12 inp) XOR x2) @ rest)
    = map2 (XOR) (take 16 inp) (sm4_encrypt key (words_block (c0, c1, c2, c3))) @ rest"
proof -
  obtain x2 x3 x4 x0 x1 where R: "ROUNDS (ROUND_TBOX (rk key)) (c0, c1, c2, c3, 0) = (x2, x3, x4, x0, x1)"
    by (metis surj_pair)
  have w: "block_words (words_block (c0, c1, c2, c3)) = (c0, c1, c2, c3)" by (rule block_words_block)
  have e: "sm4_encrypt key (words_block (c0, c1, c2, c3)) = PUTU32 x0 @ PUTU32 x4 @ PUTU32 x3 @ PUTU32 x2"
    using w R by (simp add: sm4_encrypt_def block_words_def del: words_block.simps)
  have "length (take 16 inp) = 16" using assms by simp
  from words_block_words [OF this] have "take 16 inp = PUTU32 (GETU32 inp) @ PUTU32 (GETU32 (drop 4 inp))
      @ PUTU32 (GETU32 (drop 8 inp)) @ PUTU32 (GETU32 (drop 12 inp))"
    by (simp add: block_words_def drop_take)
  then show ?thesis unfolding R e by (simp add: PUTU32_xor)
qed

lemma sm4_ctr32_loop_eq:
  "16 * n \<le> length inp \<Longrightarrow> sm4_ctr32_loop key c0 c1 c2 c3 inp n
    = map2 (XOR) (take (16 * n) inp)
        (concat (map (\<lambda>i. sm4_encrypt key (words_block (c0, c1, c2, c3 + of_nat i))) [0..<n]))"
proof (induction n arbitrary: inp c3)
  case (Suc n)
  let ?E = "\<lambda>c i. sm4_encrypt key (words_block (c0, c1, c2, c + of_nat i))"
  have "map (?E (c3 + 1)) [0..<n] = map (?E c3) (map Suc [0..<n])" by (simp add: ac_simps)
  also have "\<dots> = map (?E c3) [1..<Suc n]" by (simp only: map_Suc_upt One_nat_def)
  finally have E: "map (?E c3) [0..<Suc n] = ?E c3 0 # map (?E (c3 + 1)) [0..<n]"
    by (simp add: upt_conv_Cons del: upt_Suc)
  have "take (16 * Suc n) inp = take 16 inp @ take (16 * n) (drop 16 inp)"
    by (simp add: take_add)
  moreover have "length (take 16 inp) = length (?E c3 0)" using Suc.prems by (simp add: length_sm4_encrypt)
  moreover have le: "16 \<le> length inp" using Suc.prems by simp
  ultimately show ?case
    using Suc.IH [of "drop 16 inp" "c3 + 1"] Suc.prems
    by (simp only: sm4_ctr32_loop.simps ctr32_block [OF le] E concat.simps list.map) simp
qed simp

lemma sm4_ctr32_eq:
  assumes "16 * n \<le> length inp" "length iv = 16"
  shows "sm4_ctr32_encrypt_blocks inp n key iv = map2 (XOR) (take (16 * n) inp)
    (concat (map (\<lambda>i. sm4_encrypt key (take 12 iv @ PUTU32 (GETU32 (drop 12 iv) + of_nat i))) [0..<n]))"
proof -
  have "take 4 (drop 4 iv) @ take 4 (drop 8 iv) = take 8 (drop 4 iv)"
    using take_add [of 4 4 "drop 4 iv"] by simp
  moreover have "take 4 iv @ take 8 (drop 4 iv) = take 12 iv"
    using take_add [of 4 8 iv] by simp
  ultimately have "words_block (GETU32 iv, GETU32 (drop 4 iv), GETU32 (drop 8 iv), c) = take 12 iv @ PUTU32 c" for c
    using assms(2) by (simp add: PUTU32_GETU32 flip: append_assoc)
  then show ?thesis
    unfolding sm4_ctr32_encrypt_blocks_def sm4_ctr32_loop_eq [OF assms(1)] by (simp only:)
qed


section \<open>The interface to the modes of operation\<close>

text \<open>
  A mode needs a block function of 16 bytes, and to decrypt its inverse.
\<close>

locale block_fun =
  fixes E :: "bytes \<Rightarrow> bytes"
  assumes length_E: "length (E b) = 16"

locale block_cipher = block_fun E for E :: "bytes \<Rightarrow> bytes" +
  fixes D :: "bytes \<Rightarrow> bytes"
  assumes length_D: "length (D b) = 16"
    and D_E: "length b = 16 \<Longrightarrow> D (E b) = b"

interpretation sm4_fun: block_fun "sm4_encrypt key" for key
  by unfold_locales (rule length_sm4_encrypt)

interpretation sm4: block_cipher "sm4_encrypt (sm4_set_encrypt_key k)"
  "sm4_decrypt (sm4_set_decrypt_key k)" for k
  by unfold_locales (simp_all add: length_sm4_encrypt sm4_decrypt_encrypt)


section \<open>Properties\<close>

text \<open>
  The optimised round is right: block encryption by lookups in the combined table
  \<^verbatim>\<open>SM4_T\<close> is encryption by the S-box and the linear map of the cipher.
\<close>

theorem sm4_table_rounds:
  assumes "length (rk key) = 32"
  shows "sm4_encrypt key inp =
    (let (x2, x3, x4, x0, x1) = ROUNDS (ROUND_SBOX (rk key))
        (GETU32 inp, GETU32 (drop 4 inp), GETU32 (drop 8 inp), GETU32 (drop 12 inp), 0)
     in PUTU32 x0 @ PUTU32 x4 @ PUTU32 x3 @ PUTU32 x2)"
  using assms unfolding sm4_out
  by (simp add: sm4_encrypt_ref four_ROUNDS [OF four_round(2)] sm4_ref_def block_words_def)

theorem sm4_table_rounds_witness:
  "sm4_encrypt (sm4_set_encrypt_key []) [] =
    (let (x2, x3, x4, x0, x1) = ROUNDS (ROUND_SBOX (rk (sm4_set_encrypt_key [])))
        (GETU32 [], GETU32 (drop 4 []), GETU32 (drop 8 []), GETU32 (drop 12 []), 0)
     in PUTU32 x0 @ PUTU32 x4 @ PUTU32 x3 @ PUTU32 x2)"
  by (rule sm4_table_rounds) (rule sm4_keys)

text \<open>
  C33. Decryption inverts encryption and encryption inverts decryption, for every key and
  block; the two key schedules give 32 round keys, the one in the reverse order of
  the other.
\<close>

theorem sm4_inverse:
  assumes "length b = 16"
  shows "sm4_decrypt (sm4_set_decrypt_key k) (sm4_encrypt (sm4_set_encrypt_key k) b) = b
    \<and> sm4_encrypt (sm4_set_encrypt_key k) (sm4_decrypt (sm4_set_decrypt_key k) b) = b
    \<and> rk (sm4_set_decrypt_key k) = rev (rk (sm4_set_encrypt_key k))
    \<and> length (rk (sm4_set_encrypt_key k)) = 32"
  using sm4_decrypt_encrypt [OF assms] sm4_encrypt_decrypt [OF assms] sm4_keys by blast

theorem sm4_inverse_witness:
  "sm4_decrypt (sm4_set_decrypt_key (replicate 16 1))
     (sm4_encrypt (sm4_set_encrypt_key (replicate 16 1)) (replicate 16 7)) = replicate 16 7"
  using sm4_inverse [of "replicate 16 7" "replicate 16 1"] by (auto simp only: length_replicate)

text \<open>
  Counter mode over whole blocks: the output is the input xor-ed with the encryption
  of the counter blocks, of which the last word counts modulo \<open>2 ^ 32\<close>.
\<close>

theorem sm4_ctr32_correct:
  assumes "16 * n \<le> length inp" "length iv = 16"
  shows "sm4_ctr32_encrypt_blocks inp n key iv = map2 (XOR) (take (16 * n) inp)
    (concat (map (\<lambda>i. sm4_encrypt key (take 12 iv @ PUTU32 (GETU32 (drop 12 iv) + of_nat i))) [0..<n]))"
  using assms by (rule sm4_ctr32_eq)

theorem sm4_ctr32_correct_witness:
  "sm4_ctr32_encrypt_blocks (replicate 16 3) 1 (sm4_set_encrypt_key []) (replicate 16 255) = map2 (XOR) (replicate 16 3)
    (sm4_encrypt (sm4_set_encrypt_key []) (replicate 16 255))"
proof -
  have "take 12 (replicate 16 255) @ PUTU32 (GETU32 (drop 12 (replicate 16 255)) + of_nat 0)
      = (replicate 16 255 :: bytes)" by code_simp
  then show ?thesis
    using sm4_ctr32_correct [of 1 "replicate 16 3" "replicate 16 255" "sm4_set_encrypt_key []"] by simp
qed

end
