(* ===== verification/Gm_Gcm.thy ===== *)
theory Gm_Gcm
  imports Gm_Sm4 Gm_Md
begin

text \<open>
  GmSSL, \<^verbatim>\<open>src/gf128.c\<close> (the field of \<open>2 ^ 128\<close> elements) and the GHASH of \<^verbatim>\<open>src/gcm.c\<close>, in
  one call and streamed. The multiplication is shown to be that of a commutative
  ring in which \<open>x ^ 128 = x ^ 7 + x ^ 2 + x + 1\<close>.
\<close>

section \<open>gf128.c\<close>

record gf128_t =
  hi :: u64
  lo :: u64

definition reverse_step :: "u64 \<times> u64 \<Rightarrow> u64 \<times> u64" where
  "reverse_step = (\<lambda>(r, a). (push_bit 1 (r OR (a AND 1)), drop_bit 1 a))"

definition reverse_bits :: "u64 \<Rightarrow> u64" where
  "reverse_bits a = (let (r, a) = (reverse_step ^^ 63) (0, a) in r OR (a AND 1))"

definition gf128_from_bytes :: "bytes \<Rightarrow> gf128_t" where
  "gf128_from_bytes p =
     (let l = GETU64 p; h = GETU64 (drop 8 p)
      in \<lparr>hi = reverse_bits h, lo = reverse_bits l\<rparr>)"

definition gf128_to_bytes :: "gf128_t \<Rightarrow> bytes" where
  "gf128_to_bytes a = PUTU64 (reverse_bits (lo a)) @ PUTU64 (reverse_bits (hi a))"

definition gf128_zero :: gf128_t where
  "gf128_zero = gf128_from_bytes (replicate 16 0)"

definition gf128_add :: "gf128_t \<Rightarrow> gf128_t \<Rightarrow> gf128_t" where
  "gf128_add a b = \<lparr>hi = hi a XOR hi b, lo = lo a XOR lo b\<rparr>"

definition gf128_mask :: u64 where
  "gf128_mask = push_bit 63 1"

text \<open>One turn of either loop of \<^verbatim>\<open>gf128_mul\<close>, on \<^verbatim>\<open>r\<close> and the half of \<^verbatim>\<open>b\<close> being read.\<close>

definition gf128_mul_step :: "gf128_t \<Rightarrow> gf128_t \<times> u64 \<Rightarrow> gf128_t \<times> u64" where
  "gf128_mul_step a = (\<lambda>(r, b).
     let r = (if hi r AND gf128_mask \<noteq> 0
              then \<lparr>hi = push_bit 1 (hi r) OR drop_bit 63 (lo r), lo = push_bit 1 (lo r) XOR 0x87\<rparr>
              else \<lparr>hi = push_bit 1 (hi r) OR drop_bit 63 (lo r), lo = push_bit 1 (lo r)\<rparr>);
         r = (if b AND gf128_mask \<noteq> 0 then \<lparr>hi = hi r XOR hi a, lo = lo r XOR lo a\<rparr> else r)
     in (r, push_bit 1 b))"

definition gf128_mul :: "gf128_t \<Rightarrow> gf128_t \<Rightarrow> gf128_t" where
  "gf128_mul a b =
     (let r = \<lparr>hi = 0, lo = 0\<rparr>;
          (r, bh) = (gf128_mul_step a ^^ 64) (r, hi b);
          (r, bl) = (gf128_mul_step a ^^ 64) (r, lo b)
      in r)"

definition gf128_mul2 :: "gf128_t \<Rightarrow> gf128_t" where
  "gf128_mul2 a =
     (if hi a AND push_bit 63 1 \<noteq> 0
      then \<lparr>hi = push_bit 1 (hi a) OR drop_bit 63 (lo a), lo = push_bit 1 (lo a) XOR 0x87\<rparr>
      else \<lparr>hi = push_bit 1 (hi a) OR drop_bit 63 (lo a), lo = push_bit 1 (lo a)\<rparr>)"


section \<open>GHASH\<close>

text \<open>
  The loop that absorbs additional data and ciphertext, the last block filled with
  zeros.
\<close>

function ghash_loop :: "gf128_t \<Rightarrow> gf128_t \<Rightarrow> bytes \<Rightarrow> gf128_t" where
  "ghash_loop H X c =
     (if length c = 0 then X
      else
        let (C, c) = (if length c \<ge> 16 then (gf128_from_bytes c, drop 16 c)
                      else (gf128_from_bytes (mem_write (replicate 16 0) 0 c), []));
            X = gf128_add X C;
            X = gf128_mul X H
        in ghash_loop H X c)"
  by pat_completeness auto
termination
  by (relation "measure (\<lambda>(H, X, c). length c)") (auto split: if_splits)

declare ghash_loop.simps [simp del]

definition ghash_length_block :: "nat \<Rightarrow> nat \<Rightarrow> bytes" where
  "ghash_length_block aadlen clen =
     PUTU64 (push_bit 3 (of_nat aadlen :: u64)) @ PUTU64 (push_bit 3 (of_nat clen :: u64))"

definition ghash :: "bytes \<Rightarrow> bytes \<Rightarrow> bytes \<Rightarrow> bytes" where
  "ghash h aad c =
     (let H = gf128_from_bytes h;
          X = gf128_zero;
          L = gf128_from_bytes (ghash_length_block (length aad) (length c));
          X = ghash_loop H X aad;
          X = ghash_loop H X c;
          X = gf128_add X L;
          H = gf128_mul X H
      in gf128_to_bytes H)"

record GHASH_CTX =
  gh_H :: gf128_t
  gh_X :: gf128_t
  gh_aadlen :: nat
  gh_clen :: nat
  gh_block :: bytes
  gh_num :: nat

definition ghash_init :: "bytes \<Rightarrow> bytes \<Rightarrow> GHASH_CTX" where
  "ghash_init h aad =
     (let H = gf128_from_bytes h; r = length aad mod 16
      in \<lparr>gh_H = H, gh_X = ghash_loop H gf128_zero aad, gh_aadlen = length aad, gh_clen = 0,
          gh_block = (if r = 0 then replicate 16 0
                      else mem_write (replicate 16 0) 0 (drop (length aad - r) aad)),
          gh_num = 0\<rparr>)"

text \<open>\<^verbatim>\<open>while (clen >= 16)\<close>: the whole blocks.\<close>

function ghash_blocks :: "gf128_t \<Rightarrow> gf128_t \<Rightarrow> bytes \<Rightarrow> gf128_t \<times> bytes" where
  "ghash_blocks H X c =
     (if length c \<ge> 16
      then ghash_blocks H (gf128_mul (gf128_add X (gf128_from_bytes c)) H) (drop 16 c)
      else (X, c))"
  by pat_completeness auto
termination
  by (relation "measure (\<lambda>(H, X, c). length c)") auto

declare ghash_blocks.simps [simp del]

definition ghash_update_tail :: "GHASH_CTX \<Rightarrow> bytes \<Rightarrow> GHASH_CTX" where
  "ghash_update_tail ctx c =
     (let (X, c) = ghash_blocks (gh_H ctx) (gh_X ctx) c;
          ctx = ctx\<lparr>gh_X := X, gh_num := length c\<rparr>
      in if length c \<noteq> 0 then ctx\<lparr>gh_block := mem_write (gh_block ctx) 0 c\<rparr> else ctx)"

text \<open>\<open>None\<close> is the failed assertion.\<close>

definition ghash_update :: "GHASH_CTX \<Rightarrow> bytes \<Rightarrow> GHASH_CTX option" where
  "ghash_update ctx c =
     (if \<not> gh_num ctx < 16 then None
      else
        let ctx = ctx\<lparr>gh_clen := gh_clen ctx + length c\<rparr> in
        if gh_num ctx \<noteq> 0 then
          let left = 16 - gh_num ctx in
          if length c < left then
            Some (ctx\<lparr>gh_block := mem_write (gh_block ctx) (gh_num ctx) c,
                      gh_num := gh_num ctx + length c\<rparr>)
          else
            let ctx = ctx\<lparr>gh_block := mem_write (gh_block ctx) (gh_num ctx) (take left c)\<rparr>;
                C = gf128_from_bytes (gh_block ctx);
                ctx = ctx\<lparr>gh_X := gf128_add (gh_X ctx) C\<rparr>;
                ctx = ctx\<lparr>gh_X := gf128_mul (gh_X ctx) (gh_H ctx)\<rparr>
            in Some (ghash_update_tail ctx (drop left c))
        else Some (ghash_update_tail ctx c))"

definition ghash_finish :: "GHASH_CTX \<Rightarrow> bytes" where
  "ghash_finish ctx =
     (let ctx = (if gh_num ctx \<noteq> 0 then
            let ctx = ctx\<lparr>gh_block := mem_set (gh_block ctx) (gh_num ctx) 0 (16 - gh_num ctx)\<rparr>;
                C = gf128_from_bytes (gh_block ctx);
                ctx = ctx\<lparr>gh_X := gf128_add (gh_X ctx) C\<rparr>
            in ctx\<lparr>gh_X := gf128_mul (gh_X ctx) (gh_H ctx)\<rparr>
          else ctx);
          ctx = ctx\<lparr>gh_block := mem_write (gh_block ctx) 0 (PUTU64 (push_bit 3 (of_nat (gh_aadlen ctx) :: u64)))\<rparr>;
          ctx = ctx\<lparr>gh_block := mem_write (gh_block ctx) 8 (PUTU64 (push_bit 3 (of_nat (gh_clen ctx) :: u64)))\<rparr>;
          L = gf128_from_bytes (gh_block ctx);
          X = gf128_add (gh_X ctx) L
      in gf128_to_bytes (gf128_mul X (gh_H ctx)))"


section \<open>Bits\<close>

lemma bit_and_one: "bit (a AND 1 :: u64) i \<longleftrightarrow> i = 0 \<and> bit a 0"
  by (auto simp: bit_and_iff bit_1_iff simp del: and_one_eq)

lemma reverse_bits_loop:
  "n < 64 \<Longrightarrow> (reverse_step ^^ n) (0, a) = (r, a') \<Longrightarrow>
    (\<forall>i. bit r i \<longleftrightarrow> 0 < i \<and> i \<le> n \<and> bit a (n - i)) \<and> a' = drop_bit n a"
proof (induction n arbitrary: r a')
  case (Suc n)
  obtain r0 a0 where s: "(reverse_step ^^ n) (0, a) = (r0, a0)" by (metis surj_pair)
  with Suc have IH: "\<And>i. bit r0 i \<longleftrightarrow> 0 < i \<and> i \<le> n \<and> bit a (n - i)" "a0 = drop_bit n a" by auto
  have r: "r = push_bit 1 (r0 OR (a0 AND 1))" "a' = drop_bit 1 a0"
    using Suc.prems(2) s by (simp_all add: reverse_step_def del: and_one_eq)
  have "bit r i \<longleftrightarrow> 0 < i \<and> i \<le> Suc n \<and> bit a (Suc n - i)" for i
  proof (cases i)
    case 0
    then show ?thesis unfolding r bit_push_bit_iff by simp
  next
    case (Suc j)
    have "bit (r0 OR (a0 AND 1)) j \<longleftrightarrow> j \<le> n \<and> bit a (n - j)"
      by (cases "j = 0") (auto simp: bit_or_iff bit_and_one IH bit_drop_bit_eq)
    with Suc \<open>Suc n < 64\<close> show ?thesis
      unfolding r bit_push_bit_iff by auto
  qed
  then show ?case by (simp add: r IH drop_bit_drop_bit)
qed auto

lemma bit_reverse_bits: "bit (reverse_bits a) i \<longleftrightarrow> i < 64 \<and> bit a (63 - i)"
proof -
  obtain r a' where s: "(reverse_step ^^ 63) (0, a) = (r, a')" by (metis surj_pair)
  have "bit r i \<longleftrightarrow> 0 < i \<and> i \<le> 63 \<and> bit a (63 - i)" "a' = drop_bit 63 a"
    using reverse_bits_loop [OF _ s] by auto
  then show ?thesis
    unfolding reverse_bits_def s Let_def prod.case bit_or_iff bit_and_one by (auto simp: bit_drop_bit_eq)
qed

lemma reverse_bits_reverse_bits [simp]: "reverse_bits (reverse_bits a) = a"
  by (rule bit_word_eqI) (auto simp: bit_reverse_bits)

lemma gf128_from_to_bytes: "gf128_from_bytes (gf128_to_bytes a) = a"
  using GETU64_PUTU64 [of "reverse_bits (hi a)" "[]"]
  by (simp add: gf128_from_bytes_def gf128_to_bytes_def)

lemma gf128_to_from_bytes: "length p = 16 \<Longrightarrow> gf128_to_bytes (gf128_from_bytes p) = p"
  by (simp add: gf128_from_bytes_def gf128_to_bytes_def PUTU64_GETU64)


section \<open>The field as 128-bit words\<close>

type_synonym u128 = "128 word"

definition gf_word :: "gf128_t \<Rightarrow> u128" where
  "gf_word a = push_bit 64 (ucast (hi a)) OR ucast (lo a)"

lemma bit_gf_word: "bit (gf_word a) n \<longleftrightarrow> (if n < 64 then bit (lo a) n else bit (hi a) (n - 64))"
  by (auto simp: gf_word_def bit_simps dest: bit_imp_le_length)

lemma gf_word_inject: "gf_word a = gf_word b \<longleftrightarrow> a = b"
proof
  assume eq: "gf_word a = gf_word b"
  have "bit (lo a) n = bit (lo b) n" if "n < 64" for n
    using arg_cong [OF eq, of "\<lambda>w. bit w n"] that by (simp add: bit_gf_word)
  moreover have "bit (hi a) n = bit (hi b) n" for n
    using arg_cong [OF eq, of "\<lambda>w. bit w (64 + n)"] by (simp add: bit_gf_word)
  ultimately show "a = b" by (cases a; cases b) (auto intro: bit_word_eqI)
qed simp

definition xtime :: "u128 \<Rightarrow> u128" where
  "xtime w = push_bit 1 w XOR (if bit w 127 then 0x87 else 0)"

lemma xtime_xor: "xtime (a XOR b) = xtime a XOR xtime b"
  by (rule bit_word_eqI) (auto simp: xtime_def bit_simps)

lemma xtime_0 [simp]: "xtime 0 = 0"
  by (simp add: xtime_def)

lemma xtime_pow_xor: "(xtime ^^ n) (a XOR b) = (xtime ^^ n) a XOR (xtime ^^ n) b"
  by (induction n) (simp_all add: xtime_xor)

lemma xtime_pow_0 [simp]: "(xtime ^^ n) 0 = 0"
  by (induction n) simp_all

lemma gf_word_add: "gf_word (gf128_add a b) = gf_word a XOR gf_word b"
  by (rule bit_word_eqI) (simp add: bit_gf_word bit_xor_iff gf128_add_def)

lemma top_bit: "(w AND push_bit 63 1 \<noteq> 0) \<longleftrightarrow> bit (w :: u64) 63"
proof -
  have "bit (w AND push_bit 63 1) n \<longleftrightarrow> bit w 63 \<and> n = 63" for n
    unfolding bit_and_iff bit_push_bit_iff bit_1_iff by auto
  then show ?thesis by (auto simp: bit_eq_iff [of _ 0] simp del: push_bit_of_1)
qed

lemma bit_0x87_high: "64 \<le> n \<Longrightarrow> \<not> bit (0x87 :: u128) n"
proof -
  assume "64 \<le> n"
  moreover have "(0x87 :: u128) = of_nat 0x87" by simp
  ultimately show ?thesis
    using not_bit_nat_small [of "0x87" 64 n] by (simp only: bit_of_nat_iff) simp
qed

lemma bit_0x87_low: "bit (0x87 :: u128) n \<longleftrightarrow> bit (0x87 :: u64) n" if "n < 64"
proof -
  have "(0x87 :: u128) = of_nat 0x87" "(0x87 :: u64) = of_nat 0x87" by simp_all
  then show ?thesis using that by (simp only: bit_of_nat_iff) simp
qed

lemma bit_xtime:
  "bit (xtime w) n \<longleftrightarrow> n < 128 \<and> (0 < n \<and> bit w (n - 1)) \<noteq> (bit w 127 \<and> n < 64 \<and> bit (0x87 :: u64) n)"
proof (cases "n < 64")
  case True
  then show ?thesis
    unfolding xtime_def bit_xor_iff bit_push_bit_iff by (auto simp: bit_0x87_low simp del: bit_numeral_iff)
next
  case False
  then have "\<not> bit (0x87 :: u128) n" by (intro bit_0x87_high) simp
  with False show ?thesis
    unfolding xtime_def bit_xor_iff bit_push_bit_iff by auto
qed

lemma shift_left_bits:
  fixes a :: gf128_t
  shows "bit (push_bit 1 (hi a) OR drop_bit 63 (lo a)) n \<longleftrightarrow>
      n < 64 \<and> (if n = 0 then bit (lo a) 63 else bit (hi a) (n - 1))"
    "bit (push_bit 1 (lo a)) n \<longleftrightarrow> 0 < n \<and> n < 64 \<and> bit (lo a) (n - 1)"
  unfolding bit_or_iff bit_push_bit_iff bit_drop_bit_eq by auto

lemma gf_word_mul2: "gf_word (gf128_mul2 a) = xtime (gf_word a)"
proof (rule bit_word_eqI)
  fix n assume "n < LENGTH(128)"
  then show "bit (gf_word (gf128_mul2 a)) n = bit (xtime (gf_word a)) n"
    unfolding gf128_mul2_def top_bit bit_xtime
    by (auto simp: bit_gf_word shift_left_bits bit_xor_iff simp del: push_bit_Suc bit_numeral_iff
       One_nat_def)
qed


section \<open>Multiplication\<close>

text \<open>Horner's rule over the bits of the second factor, from the highest.\<close>

definition horner :: "u128 \<Rightarrow> (nat \<Rightarrow> bool) \<Rightarrow> nat list \<Rightarrow> u128 \<Rightarrow> u128" where
  "horner a b is r = fold (\<lambda>i r. xtime r XOR (if b i then a else 0)) is r"

lemma gf_mul_step:
  "gf_word (fst (gf128_mul_step a (r, b)))
    = xtime (gf_word r) XOR (if bit b 63 then gf_word a else 0)"
  "snd (gf128_mul_step a (r, b)) = push_bit 1 b"
proof -
  have "fst (gf128_mul_step a (r, b)) = (if bit b 63 then gf128_add (gf128_mul2 r) a else gf128_mul2 r)"
    by (simp only: gf128_mul_step_def gf128_mul2_def gf128_add_def gf128_mask_def top_bit Let_def
        prod.case fst_conv)
  then show "gf_word (fst (gf128_mul_step a (r, b)))
    = xtime (gf_word r) XOR (if bit b 63 then gf_word a else 0)"
    by (simp add: gf_word_add gf_word_mul2)
  show "snd (gf128_mul_step a (r, b)) = push_bit 1 b"
    by (simp only: gf128_mul_step_def Let_def prod.case snd_conv)
qed

lemma gf_mul_steps:
  "n \<le> 64 \<Longrightarrow> gf_word (fst ((gf128_mul_step a ^^ n) (r, b)))
      = horner (gf_word a) (bit b) (rev [64 - n..<64]) (gf_word r)
    \<and> snd ((gf128_mul_step a ^^ n) (r, b)) = push_bit n b"
proof (induction n)
  case (Suc n)
  let ?s = "(gf128_mul_step a ^^ n) (r, b)"
  have s: "?s = (fst ?s, push_bit n b)" using Suc by (simp add: prod_eq_iff)
  have "bit (push_bit n b) 63 \<longleftrightarrow> bit b (63 - n)"
    using Suc.prems unfolding bit_push_bit_iff by auto
  moreover have "rev [64 - Suc n..<64] = rev [64 - n..<64] @ [63 - n]"
  proof -
    have "64 - Suc n = 63 - n" "64 - n = Suc (63 - n)" "63 - n < 64" using Suc.prems by simp_all
    then show ?thesis by (simp only: upt_conv_Cons rev.simps)
  qed
  moreover have "gf_word (fst ?s) = horner (gf_word a) (bit b) (rev [64 - n..<64]) (gf_word r)"
    using Suc by simp
  ultimately have "gf_word (fst (gf128_mul_step a (fst ?s, push_bit n b)))
      = horner (gf_word a) (bit b) (rev [64 - Suc n..<64]) (gf_word r)"
    by (simp only: gf_mul_step horner_def fold_append fold_simps comp_apply id_apply)
  moreover have "snd (gf128_mul_step a (fst ?s, push_bit n b)) = push_bit (Suc n) b"
    unfolding gf_mul_step by (simp only: push_bit_push_bit plus_1_eq_Suc)
  ultimately show ?case unfolding funpow.simps comp_apply using s by (metis)
qed (simp add: horner_def)

definition mulw :: "u128 \<Rightarrow> u128 \<Rightarrow> u128" where
  "mulw a b = horner a (bit b) (rev [0..<128]) 0"

lemma gf_word_mul: "gf_word (gf128_mul a b) = mulw (gf_word a) (gf_word b)"
proof -
  let ?z = "\<lparr>hi = 0, lo = 0\<rparr>" and ?a = "gf_word a"
  define s where "s = (gf128_mul_step a ^^ 64) (?z, hi b)"
  define t where "t = (gf128_mul_step a ^^ 64) (fst s, lo b)"
  have mul: "gf128_mul a b = fst t"
    unfolding gf128_mul_def Let_def s_def t_def by (simp only: split_beta)
  have "gf_word ?z = 0" by (rule bit_word_eqI) (simp add: bit_gf_word)
  then have s: "gf_word (fst s) = horner ?a (bit (hi b)) (rev [0..<64]) 0"
    unfolding s_def using gf_mul_steps [of 64 a ?z "hi b"] by (simp only:) simp
  have t: "gf_word (fst t) = horner ?a (bit (lo b)) (rev [0..<64]) (gf_word (fst s))"
    unfolding t_def using gf_mul_steps [of 64 a "fst s" "lo b"] by (simp only:) simp
  have H: "horner ?a (bit (hi b)) (rev [0..<64]) 0 = horner ?a (bit (gf_word b)) (rev [64..<128]) 0"
  proof -
    have "rev [64..<128] = map ((+) 64) (rev [0..<64])"
      by code_simp
    then show ?thesis
      unfolding horner_def by (simp only: fold_map comp_def bit_gf_word) simp
  qed
  have L: "horner ?a (bit (lo b)) (rev [0..<64]) r = horner ?a (bit (gf_word b)) (rev [0..<64]) r" for r
    unfolding horner_def by (rule fold_cong) (simp_all only: bit_gf_word set_rev set_upt atLeastLessThan_iff, simp)
  have "rev [0..<128] = rev [64..<128] @ rev [0..<64]"
    by (simp add: upt_add_eq_append [of 0 64 64, simplified] flip: rev_append del: upt_Suc)
  then show ?thesis
    unfolding mul t s H L mulw_def by (simp only: horner_def fold_append comp_apply)
qed


text \<open>Products are sums, over the bits of a factor, of the other one times a power of \<open>x\<close>.\<close>

primrec xor_sum :: "(nat \<Rightarrow> u128) \<Rightarrow> nat \<Rightarrow> u128" where
  "xor_sum f 0 = 0"
| "xor_sum f (Suc n) = xor_sum f n XOR f n"

lemma xor_sum_xor: "xor_sum (\<lambda>i. f i XOR g i) n = xor_sum f n XOR xor_sum g n"
  by (induction n) (simp_all add: ac_simps)

lemma xor_sum_cong: "(\<And>i. i < n \<Longrightarrow> f i = g i) \<Longrightarrow> xor_sum f n = xor_sum g n"
  by (induction n) simp_all

lemma xor_sum_0 [simp]: "xor_sum (\<lambda>i. 0) n = 0"
  by (induction n) simp_all

lemma xor_sum_swap: "xor_sum (\<lambda>i. xor_sum (f i) n) m = xor_sum (\<lambda>j. xor_sum (\<lambda>i. f i j) m) n"
  by (induction m) (simp_all add: xor_sum_xor)

lemma xtime_xor_sum: "(xtime ^^ k) (xor_sum f n) = xor_sum (\<lambda>i. (xtime ^^ k) (f i)) n"
  by (induction n) (simp_all add: xtime_pow_xor)

lemma horner_sum:
  "horner a b (rev [0..<n]) r = (xtime ^^ n) r XOR xor_sum (\<lambda>i. if b i then (xtime ^^ i) a else 0) n"
proof (induction n arbitrary: r)
  case (Suc n)
  have "horner a b (rev [0..<Suc n]) r = horner a b (rev [0..<n]) (xtime r XOR (if b n then a else 0))"
    by (simp add: horner_def)
  also have "\<dots> = (xtime ^^ n) (xtime r) XOR (if b n then (xtime ^^ n) a else 0)
      XOR xor_sum (\<lambda>i. if b i then (xtime ^^ i) a else 0) n"
    by (simp add: Suc.IH xtime_pow_xor xor.assoc)
  finally show ?case by (simp add: funpow_swap1 ac_simps)
qed (simp add: horner_def)

lemma mulw_sum: "mulw a b = xor_sum (\<lambda>i. if bit b i then (xtime ^^ i) a else 0) 128"
  unfolding mulw_def horner_sum by (simp only: xtime_pow_0 xor.left_neutral)

lemma mulw_xor_left: "mulw (a XOR b) c = mulw a c XOR mulw b c"
  unfolding mulw_sum xor_sum_xor [symmetric]
  by (rule xor_sum_cong) (simp add: xtime_pow_xor)

lemma mulw_0_left: "mulw 0 c = 0"
  unfolding mulw_sum by (simp only: xtime_pow_0 if_cancel xor_sum_0)

lemma xtime_mulw: "(xtime ^^ k) (mulw a b) = mulw ((xtime ^^ k) a) b"
  unfolding mulw_sum xtime_xor_sum
proof (rule xor_sum_cong)
  fix i
  have "(xtime ^^ k) ((xtime ^^ i) a) = (xtime ^^ i) ((xtime ^^ k) a)"
    by (metis add.commute comp_apply funpow_add)
  then show "(xtime ^^ k) (if bit b i then (xtime ^^ i) a else 0)
      = (if bit b i then (xtime ^^ i) ((xtime ^^ k) a) else 0)" by simp
qed

lemma xtime_power_of_x: "i < 128 \<Longrightarrow> (xtime ^^ i) 1 = push_bit i 1"
proof (induction i)
  case (Suc i)
  have "bit (xtime (push_bit i 1)) n \<longleftrightarrow> bit (push_bit (Suc i) 1 :: u128) n" for n
    unfolding bit_xtime bit_push_bit_iff bit_1_iff using Suc.prems by auto
  then have "xtime (push_bit i 1) = push_bit (Suc i) 1" by (rule bit_eqI)
  with Suc show ?case by (simp only: funpow.simps comp_apply Suc_lessD)
qed simp

lemma word_as_sum: "a = xor_sum (\<lambda>i. if bit a i then (xtime ^^ i) 1 else 0) 128"
proof -
  have "bit (xor_sum (\<lambda>i. if bit a i then (xtime ^^ i) 1 else 0) n) k \<longleftrightarrow> k < n \<and> bit a k" if "n \<le> 128" for n k
    using that
  proof (induction n)
    case (Suc n)
    have "bit (push_bit n 1 :: u128) k \<longleftrightarrow> k = n"
      unfolding bit_push_bit_iff bit_1_iff using Suc.prems by auto
    with Suc show ?case by (auto simp: bit_xor_iff xtime_power_of_x less_Suc_eq simp del: push_bit_of_1)
  qed simp
  from this [of 128] show ?thesis by (intro bit_word_eqI) simp
qed

lemma mulw_1: "mulw a 1 = a" "mulw 1 a = a"
proof -
  have "xor_sum (\<lambda>i. if bit (1 :: u128) i then (xtime ^^ i) a else 0) (Suc n) = a" for n
    by (induction n) (simp_all add: bit_1_iff)
  from this [of 127] show "mulw a 1 = a" unfolding mulw_sum by simp
  show "mulw 1 a = a" unfolding mulw_sum by (rule word_as_sum [symmetric])
qed

lemma mulw_basis: "mulw a b = xor_sum (\<lambda>i. xor_sum (\<lambda>j.
    if bit b i \<and> bit a j then (xtime ^^ (i + j)) 1 else 0) 128) 128"
  unfolding mulw_sum
proof (rule xor_sum_cong)
  fix i
  have "(xtime ^^ i) a = (xtime ^^ i) (xor_sum (\<lambda>j. if bit a j then (xtime ^^ j) 1 else 0) 128)"
    using word_as_sum [of a] by simp
  also have "\<dots> = xor_sum (\<lambda>j. if bit a j then (xtime ^^ (i + j)) 1 else 0) 128"
    unfolding xtime_xor_sum by (rule xor_sum_cong) (simp add: funpow_add)
  finally show "(if bit b i then (xtime ^^ i) a else 0)
      = xor_sum (\<lambda>j. if bit b i \<and> bit a j then (xtime ^^ (i + j)) 1 else 0) 128"
    by (cases "bit b i") (simp_all only: if_True if_False simp_thms xor_sum_0)
qed

lemma mulw_commute: "mulw a b = mulw b a"
  unfolding mulw_basis [of a b] mulw_basis [of b a]
  by (subst xor_sum_swap) (simp only: add.commute conj_commute)

lemma mulw_assoc: "mulw (mulw a b) c = mulw a (mulw b c)"
proof -
  have lin: "mulw a (xor_sum f n) = xor_sum (\<lambda>i. mulw a (f i)) n" for f n
    unfolding mulw_commute [of a]
    by (induction n) (simp_all only: xor_sum.simps mulw_0_left mulw_xor_left)
  have "mulw a (mulw b c) = xor_sum (\<lambda>i. mulw a (if bit c i then (xtime ^^ i) b else 0)) 128"
    unfolding mulw_sum [of b c] lin ..
  also have "\<dots> = mulw (mulw a b) c"
    unfolding mulw_sum [of "mulw a b" c]
    by (rule xor_sum_cong) (simp add: xtime_mulw mulw_commute [of a] mulw_0_left)
  finally show ?thesis ..
qed


section \<open>GHASH over blocks\<close>

definition pad16 :: "bytes \<Rightarrow> bytes" where
  "pad16 c = c @ replicate ((16 - length c mod 16) mod 16) 0"

definition ghash_step :: "gf128_t \<Rightarrow> gf128_t \<Rightarrow> bytes \<Rightarrow> gf128_t" where
  "ghash_step H X blk = gf128_mul (gf128_add X (gf128_from_bytes blk)) H"

definition ghash_spec :: "bytes \<Rightarrow> bytes \<Rightarrow> bytes \<Rightarrow> bytes" where
  "ghash_spec h aad c =
     gf128_to_bytes (foldl (ghash_step (gf128_from_bytes h)) gf128_zero
       (chunks 16 (pad16 aad @ pad16 c @ ghash_length_block (length aad) (length c))))"

lemma gf128_from_bytes_take: "16 \<le> n \<Longrightarrow> gf128_from_bytes (take n p) = gf128_from_bytes p"
  by (simp add: gf128_from_bytes_def drop_take)

lemma ghash_step_take: "ghash_step H X (take 16 p) = ghash_step H X p"
  by (simp add: ghash_step_def gf128_from_bytes_take)

lemma pad16_short:
  "0 < length c \<Longrightarrow> length c < 16 \<Longrightarrow> pad16 c = mem_write (replicate 16 0) 0 c"
  by (simp add: pad16_def mem_write_def)

lemma pad16_long: "16 \<le> length c \<Longrightarrow> pad16 c = take 16 c @ pad16 (drop 16 c)"
  by (simp add: pad16_def mod_if [of "length c"] le_mod_geq)

lemma length_pad16_dvd: "16 dvd length (pad16 c)"
proof -
  have "16 dvd n + (16 - n mod 16) mod 16" for n :: nat
  proof (cases "n mod 16 = 0")
    case False
    have "16 - n mod 16 < 16" using False by simp
    moreover have "n + (16 - n mod 16) = 16 * (n div 16 + 1)"
    proof -
      have "n + (16 - n mod 16) = 16 * (n div 16) + (n mod 16 + (16 - n mod 16))"
        by (simp only: add.assoc [symmetric] mult_div_mod_eq)
      also have "n mod 16 + (16 - n mod 16) = 16" by (simp add: less_imp_le)
      finally show ?thesis by simp
    qed
    ultimately show ?thesis by (metis dvd_triv_left mod_less)
  qed auto
  then show ?thesis by (simp add: pad16_def)
qed

lemma ghash_loop_chunks: "ghash_loop H X c = foldl (ghash_step H) X (chunks 16 (pad16 c))"
proof (induction H X c rule: ghash_loop.induct)
  case (1 H X c)
  consider "length c = 0" | "0 < length c" "length c < 16" | "16 \<le> length c" by linarith
  then show ?case
  proof cases
    case 1
    then show ?thesis by (simp add: ghash_loop.simps pad16_def)
  next
    case 2
    then have "length (mem_write (replicate 16 0) 0 c) = 16" by (simp add: mem_write_def)
    with chunks_append [of 16 "mem_write (replicate 16 0) 0 c" "[]"] 2
    have "chunks 16 (pad16 c) = [mem_write (replicate 16 0) 0 c]" by (simp add: pad16_short)
    with 2 show ?thesis
      by (simp add: ghash_loop.simps [of H X] ghash_loop.simps [of _ _ "[]"] ghash_step_def)
  next
    case 3
    then have "chunks 16 (pad16 c) = take 16 c # chunks 16 (pad16 (drop 16 c))"
      by (simp add: pad16_long chunks_append)
    moreover have "c \<noteq> []" using 3 by auto
    ultimately show ?thesis
      using 3 "1.IH" by (simp add: ghash_loop.simps [of H X] ghash_step_take) (simp add: ghash_step_def)
  qed
qed

lemma chunks_dvd_append:
  "n dvd length xs \<Longrightarrow> 0 < n \<Longrightarrow> chunks n (xs @ ys) = chunks n xs @ chunks n ys"
proof (induction n xs rule: chunks.induct)
  case (1 n xs)
  show ?case
  proof (cases "xs = []")
    case False
    with 1 have le: "n \<le> length xs" by (auto dest: dvd_imp_le)
    then have "n dvd length (drop n xs)" using "1.prems" by simp
    with 1 False le show ?thesis by (simp add: chunks_step)
  qed simp
qed

lemma ghash_eq_spec: "ghash h aad c = ghash_spec h aad c"
proof -
  have "length (ghash_length_block (length aad) (length c)) = 16" by (simp add: ghash_length_block_def)
  from chunks_append [OF _ this, of "[]"]
  have "chunks 16 (ghash_length_block (length aad) (length c)) = [ghash_length_block (length aad) (length c)]"
    by simp
  then show ?thesis
    by (simp add: ghash_def ghash_spec_def Let_def ghash_loop_chunks chunks_dvd_append length_pad16_dvd
        ghash_step_def)
qed


section \<open>Streaming GHASH\<close>

text \<open>The accumulator as the chaining value of a block compressor.\<close>

primrec ghash_cb :: "gf128_t \<Rightarrow> gf128_t list \<Rightarrow> bytes \<Rightarrow> nat \<Rightarrow> gf128_t list" where
  "ghash_cb H st data 0 = st"
| "ghash_cb H st data (Suc n) = ghash_cb H [ghash_step H (hd st) data] (drop 16 data) n"

interpretation ghash_md: md_compress 16 "\<lambda>st blk. [ghash_step H (hd st) blk]" "ghash_cb H" for H
  by unfold_locales (simp_all add: ghash_step_take)

lemma ghash_blocks_cb:
  "ghash_blocks H X c = (hd (ghash_cb H [X] c (length c div 16)), drop (16 * (length c div 16)) c)"
proof (induction H X c rule: ghash_blocks.induct)
  case (1 H X c)
  show ?case
  proof (cases "16 \<le> length c")
    case True
    then obtain q where q: "length c div 16 = Suc q" "length (drop 16 c) div 16 = q"
      by (metis Suc_diff_1 div_greater_zero_iff le_div_geq length_drop zero_less_numeral diff_Suc_1)
    with True "1.IH" show ?thesis
      by (subst ghash_blocks.simps) (simp add: ghash_step_def add.commute)
  qed (simp add: ghash_blocks.simps)
qed

text \<open>A GHASH context seen as a block-hash context.\<close>

definition ghash_view :: "GHASH_CTX \<Rightarrow> gf128_t md_ctx" where
  "ghash_view ctx = \<lparr>state = [gh_X ctx], nblocks = of_nat (gh_clen ctx div 16),
     block = gh_block ctx, num = gh_num ctx\<rparr>"

definition ghash_holds :: "bytes \<Rightarrow> bytes \<Rightarrow> GHASH_CTX \<Rightarrow> bytes \<Rightarrow> bool" where
  "ghash_holds h aad ctx c \<longleftrightarrow>
     gh_H ctx = gf128_from_bytes h \<and> gh_aadlen ctx = length aad \<and> gh_clen ctx = length c
     \<and> ghash_md.holds (gf128_from_bytes h) [ghash_loop (gf128_from_bytes h) gf128_zero aad]
         (ghash_view ctx) c"


lemma ghash_tail_view:
  assumes "length (gh_block ctx) = 16"
  shows "\<exists>n. ghash_view (ghash_update_tail ctx c)
      = (md_absorb 16 (ghash_cb (gh_H ctx)) (ghash_view ctx) c)\<lparr>nblocks := n\<rparr>"
proof -
  have one: "[hd (ghash_cb H [X] c n)] = ghash_cb H [X] c n" for H X c n
    by (induction n arbitrary: X c) simp_all
  show "\<exists>n. ghash_view (ghash_update_tail ctx c)
      = (md_absorb 16 (ghash_cb (gh_H ctx)) (ghash_view ctx) c)\<lparr>nblocks := n\<rparr>"
    by (auto simp: ghash_view_def ghash_update_tail_def md_absorb_def Let_def ghash_blocks_cb one
        minus_mult_div_eq_mod dest: mod_0_if_le)
qed

lemma ghash_tail_fields:
  "gh_H (ghash_update_tail ctx c) = gh_H ctx" "gh_clen (ghash_update_tail ctx c) = gh_clen ctx"
  "gh_aadlen (ghash_update_tail ctx c) = gh_aadlen ctx"
  by (simp_all add: ghash_update_tail_def split_beta Let_def)


lemma ghash_update_view:
  assumes "gh_num ctx < 16" "length (gh_block ctx) = 16"
  shows "\<exists>ctx' n. ghash_update ctx c = Some ctx'
    \<and> ghash_view ctx' = (md_update 16 (ghash_cb (gh_H ctx)) (ghash_view ctx) c)\<lparr>nblocks := n\<rparr>
    \<and> gh_H ctx' = gh_H ctx \<and> gh_clen ctx' = gh_clen ctx + length c \<and> gh_aadlen ctx' = gh_aadlen ctx"
proof -
  let ?left = "16 - gh_num ctx"
  consider "gh_num ctx = 0" | "gh_num ctx \<noteq> 0" "length c < ?left" | "gh_num ctx \<noteq> 0" "?left \<le> length c"
    by linarith
  then show ?thesis
  proof cases
    case 1
    let ?ctx = "ctx\<lparr>gh_clen := gh_clen ctx + length c\<rparr>"
    obtain n where "ghash_view (ghash_update_tail ?ctx c)
        = (md_absorb 16 (ghash_cb (gh_H ctx)) (ghash_view ?ctx) c)\<lparr>nblocks := n\<rparr>"
      using ghash_tail_view [of ?ctx c] assms by auto
    then have "ghash_view (ghash_update_tail ?ctx c)
        = (md_absorb 16 (ghash_cb (gh_H ctx)) (ghash_view ctx) c)\<lparr>nblocks := n\<rparr>"
      by (simp add: md_absorb_def ghash_view_def Let_def)
    moreover have "ghash_update ctx c = Some (ghash_update_tail ?ctx c)"
      using 1 by (simp add: ghash_update_def Let_def)
    moreover have "md_update 16 (ghash_cb (gh_H ctx)) (ghash_view ctx) c
        = md_absorb 16 (ghash_cb (gh_H ctx)) (ghash_view ctx) c"
      using 1 by (simp add: md_update_def ghash_view_def)
    ultimately show ?thesis
      using ghash_tail_fields [of ?ctx c] by auto
  next
    case 2
    then show ?thesis
      using assms by (auto simp: ghash_update_def md_update_def ghash_view_def Let_def)
  next
    case 3
    let ?blk = "mem_write (gh_block ctx) (gh_num ctx) (take ?left c)"
    let ?ctx = "ctx\<lparr>gh_clen := gh_clen ctx + length c, gh_block := ?blk,
      gh_X := ghash_step (gh_H ctx) (gh_X ctx) ?blk\<rparr>"
    let ?g = "(ghash_view ctx)\<lparr>block := ?blk, state := [ghash_step (gh_H ctx) (gh_X ctx) ?blk],
      nblocks := nblocks (ghash_view ctx) + 1\<rparr>"
    have lb: "length ?blk = 16" using 3 assms by (simp add: length_mem_write)
    obtain n where "ghash_view (ghash_update_tail ?ctx (drop ?left c))
        = (md_absorb 16 (ghash_cb (gh_H ctx)) (ghash_view ?ctx) (drop ?left c))\<lparr>nblocks := n\<rparr>"
      using ghash_tail_view [of ?ctx "drop ?left c"] lb by auto
    then have "ghash_view (ghash_update_tail ?ctx (drop ?left c))
        = (md_absorb 16 (ghash_cb (gh_H ctx)) ?g (drop ?left c))\<lparr>nblocks := n\<rparr>"
      by (simp add: md_absorb_def ghash_view_def Let_def)
    moreover have "ghash_update ctx c = Some (ghash_update_tail ?ctx (drop ?left c))"
      using 3 assms by (simp add: ghash_update_def Let_def ghash_step_def)
    moreover have "md_update 16 (ghash_cb (gh_H ctx)) (ghash_view ctx) c
        = md_absorb 16 (ghash_cb (gh_H ctx)) ?g (drop ?left c)"
      using 3 by (simp add: md_update_def ghash_view_def Let_def)
    ultimately show ?thesis
      using ghash_tail_fields [of ?ctx "drop ?left c"] by auto
  qed
qed

lemma ghash_holds_update:
  assumes "ghash_holds h aad ctx m"
  shows "\<exists>ctx'. ghash_update ctx c = Some ctx' \<and> ghash_holds h aad ctx' (m @ c)"
proof -
  let ?H = "gf128_from_bytes h"
  let ?iv = "[ghash_loop ?H gf128_zero aad]"
  have h: "ghash_md.holds ?H ?iv (ghash_view ctx) m" and H: "gh_H ctx = ?H"
    using assms by (simp_all add: ghash_holds_def)
  have "gh_num ctx < 16" "length (gh_block ctx) = 16"
    using ghash_md.holds_num [OF h] ghash_md.holds_block [OF h] by (simp_all add: ghash_view_def)
  from ghash_update_view [OF this, of c] obtain ctx' n where
    u: "ghash_update ctx c = Some ctx'"
    and v: "ghash_view ctx' = (md_update 16 (ghash_cb ?H) (ghash_view ctx) c)\<lparr>nblocks := n\<rparr>"
    and f: "gh_H ctx' = ?H" "gh_clen ctx' = length (m @ c)" "gh_aadlen ctx' = length aad"
    using assms H by (auto simp: ghash_holds_def)
  have nb: "nblocks (ghash_view ctx') = of_nat (length (m @ c) div 16)"
    using f(2) by (simp add: ghash_view_def)
  have "ghash_md.holds ?H ?iv (ghash_view ctx') (m @ c)"
    using ghash_md.holdsD [OF ghash_md.update_holds [OF h, of c]] nb v
    unfolding ghash_md.holds_def by simp
  with u f show ?thesis by (auto simp: ghash_holds_def)
qed

lemma ghash_holds_init: "ghash_holds h aad (ghash_init h aad) []"
proof -
  have "length (gh_block (ghash_init h aad)) = 16"
    by (simp add: ghash_init_def Let_def mem_write_def)
  then show ?thesis
    unfolding ghash_holds_def
    by (intro conjI ghash_md.holds_init) (simp_all add: ghash_init_def ghash_view_def Let_def)
qed

lemma pad16_parts: "pad16 c = full_part 16 c @ pad16 (rest_part 16 c)"
  by (simp add: pad16_def length_rest_part flip: append_assoc)

lemma chunks_one: "length b = n \<Longrightarrow> 0 < n \<Longrightarrow> chunks n b = [b]"
  using chunks_append [of n b "[]"] by simp

lemma ghash_holds_X:
  assumes "ghash_md.holds H [X0] (ghash_view ctx) c"
  shows "gh_X ctx = foldl (ghash_step H) X0 (chunks 16 (full_part 16 c))"
proof -
  have one: "foldl (\<lambda>st blk. [ghash_step H (hd st) blk]) [X] bs = [foldl (ghash_step H) X bs]" for X bs
    by (induction bs arbitrary: X) simp_all
  have "[gh_X ctx] = ghash_md.hash_blocks H [X0] (full_part 16 c)"
    using ghash_md.holdsD(1) [OF assms] by (simp add: ghash_view_def ghash_md.hash_blocks_full)
  also have "\<dots> = [foldl (ghash_step H) X0 (chunks 16 (full_part 16 c))]"
    unfolding one [symmetric]
    by (rule ghash_md.hash_blocks_chunks [where q = "length c div 16"])
      (simp add: length_full_part full_len_def)
  finally show ?thesis by simp
qed

lemma ghash_holds_finish:
  assumes "ghash_holds h aad ctx c"
  shows "ghash_finish ctx = ghash h aad c"
proof -
  let ?H = "gf128_from_bytes h" and ?r = "rest_part 16 c" and ?L = "ghash_length_block (length aad) (length c)"
  let ?X = "ghash_loop ?H gf128_zero aad"
  have h: "ghash_md.holds ?H [?X] (ghash_view ctx) c"
    and f: "gh_H ctx = ?H" "gh_aadlen ctx = length aad" "gh_clen ctx = length c"
    using assms by (simp_all add: ghash_holds_def)
  have b: "gh_num ctx = length ?r" "length (gh_block ctx) = 16" "take (gh_num ctx) (gh_block ctx) = ?r"
    and lt: "gh_num ctx < 16"
    using ghash_md.holdsD [OF h] ghash_md.holds_num [OF h]
    by (simp_all add: ghash_view_def length_rest_part)
  have full: "16 dvd length (full_part 16 c)" by (simp add: length_full_part full_len_def)
  have loop: "ghash_loop ?H ?X c = foldl (ghash_step ?H) (gh_X ctx) (chunks 16 (pad16 ?r))"
    by (simp add: ghash_loop_chunks [of ?H ?X c] pad16_parts [of c] chunks_dvd_append full
        ghash_holds_X [OF h])
  have lw: "mem_write (mem_write blk 0 (PUTU64 (push_bit 3 (of_nat (length aad) :: u64)))) 8
      (PUTU64 (push_bit 3 (of_nat (length c) :: u64))) = ?L" if "length blk = 16" for blk
    using that by (simp add: mem_write_def ghash_length_block_def)
  have fin: "ghash_finish ctx = gf128_to_bytes (gf128_mul (gf128_add (ghash_loop ?H ?X c) (gf128_from_bytes ?L)) ?H)"
  proof (cases "gh_num ctx = 0")
    case True
    then have "ghash_loop ?H ?X c = gh_X ctx" unfolding loop using b by (simp add: pad16_def)
    with True show ?thesis by (simp add: ghash_finish_def Let_def f lw b)
  next
    case False
    let ?blk = "mem_set (gh_block ctx) (gh_num ctx) 0 (16 - gh_num ctx)"
    have blk: "?blk = pad16 ?r"
      using lt b False by (simp add: mem_set_def mem_write_def pad16_def)
    have len: "length ?blk = 16" using lt b(2) by (simp add: length_mem_set)
    have "ghash_loop ?H ?X c = ghash_step ?H (gh_X ctx) ?blk"
      unfolding loop using len by (simp add: blk chunks_one)
    with False show ?thesis by (simp add: ghash_finish_def Let_def f lw len ghash_step_def)
  qed
  then show ?thesis by (simp add: ghash_def Let_def)
qed

primrec ghash_updates :: "GHASH_CTX \<Rightarrow> bytes list \<Rightarrow> GHASH_CTX option" where
  "ghash_updates ctx [] = Some ctx"
| "ghash_updates ctx (c # cs) = Option.bind (ghash_update ctx c) (\<lambda>ctx. ghash_updates ctx cs)"

lemma ghash_holds_updates:
  "ghash_holds h aad ctx m \<Longrightarrow>
    \<exists>ctx'. ghash_updates ctx cs = Some ctx' \<and> ghash_holds h aad ctx' (m @ concat cs)"
proof (induction cs arbitrary: ctx m)
  case (Cons c cs)
  from ghash_holds_update [OF Cons.prems] obtain ctx1 where
    "ghash_update ctx c = Some ctx1" "ghash_holds h aad ctx1 (m @ c)" by blast
  with Cons.IH [of ctx1 "m @ c"] show ?case by simp
qed simp


section \<open>Properties\<close>

definition gf128_one :: gf128_t where
  "gf128_one = \<lparr>hi = 0, lo = 1\<rparr>"

definition gf128_x :: gf128_t where
  "gf128_x = \<lparr>hi = 0, lo = 2\<rparr>"

lemma gf_word_one: "gf_word gf128_one = 1"
  by (simp add: gf_word_def gf128_one_def)

lemma gf_word_x: "gf_word gf128_x = xtime 1"
proof -
  have "gf_word gf128_x = push_bit 1 1" by (simp add: gf_word_def gf128_x_def)
  then show ?thesis using xtime_power_of_x [of 1] by simp
qed

lemmas gf_word_simps = gf_word_inject [symmetric] gf_word_mul gf_word_add gf_word_one gf_word_x gf_word_mul2

text \<open>
  C34. Multiplication in \<^verbatim>\<open>gf128.c\<close> is that of a commutative ring with unit: it is
  commutative, associative and distributes over the exclusive or, doubling is
  multiplication by \<open>x\<close>, and \<open>x ^ 128 = x ^ 7 + x ^ 2 + x + 1\<close>.
\<close>

theorem gf128_ring:
  "gf128_mul a b = gf128_mul b a
   \<and> gf128_mul (gf128_mul a b) c = gf128_mul a (gf128_mul b c)
   \<and> gf128_mul (gf128_add a b) c = gf128_add (gf128_mul a c) (gf128_mul b c)
   \<and> gf128_mul a gf128_one = a
   \<and> gf128_mul2 a = gf128_mul a gf128_x
   \<and> gf128_mul2 \<lparr>hi = push_bit 63 1, lo = 0\<rparr> = \<lparr>hi = 0, lo = 0x87\<rparr>"
proof (intro conjI)
  have x: "xtime w = mulw w (xtime 1)" for w
    using xtime_mulw [of 1 1 w] mulw_commute [of w "xtime 1"] by (simp add: mulw_1)
  show "gf128_mul a b = gf128_mul b a"
    unfolding gf_word_simps by (rule mulw_commute)
  show "gf128_mul (gf128_mul a b) c = gf128_mul a (gf128_mul b c)"
    unfolding gf_word_simps by (rule mulw_assoc)
  show "gf128_mul (gf128_add a b) c = gf128_add (gf128_mul a c) (gf128_mul b c)"
    unfolding gf_word_simps by (rule mulw_xor_left)
  show "gf128_mul a gf128_one = a" unfolding gf_word_simps by (rule mulw_1)
  show "gf128_mul2 a = gf128_mul a gf128_x" unfolding gf_word_simps by (rule x)
  show "gf128_mul2 \<lparr>hi = push_bit 63 1, lo = 0\<rparr> = \<lparr>hi = 0, lo = 0x87\<rparr>" by code_simp
qed

text \<open>
  Reading 16 bytes as a field element and writing it back, in either order, changes
  nothing; \<^verbatim>\<open>reverse_bits\<close> puts bit \<open>i\<close> at place \<open>63 - i\<close>.
\<close>

theorem gf128_bytes_roundtrip:
  assumes "length p = 16"
  shows "gf128_to_bytes (gf128_from_bytes p) = p \<and> gf128_from_bytes (gf128_to_bytes a) = a
    \<and> (bit (reverse_bits w) i \<longleftrightarrow> i < 64 \<and> bit w (63 - i))"
  using gf128_to_from_bytes [OF assms] gf128_from_to_bytes bit_reverse_bits by blast

theorem gf128_bytes_roundtrip_witness:
  "gf128_to_bytes (gf128_from_bytes (replicate 16 5)) = replicate 16 5"
  using gf128_bytes_roundtrip [of "replicate 16 5"] by (simp only: length_replicate)

text \<open>
  C35. GHASH: over additional data and ciphertext of any length the result is the
  polynomial in \<open>H\<close> over the blocks of both, each filled with zeros, and the block
  of the two bit lengths; and the streamed computation never fails its assertion and
  gives the same value for every split of the ciphertext.
\<close>

theorem ghash_correct:
  "ghash h aad c = ghash_spec h aad c
   \<and> (\<exists>ctx. ghash_updates (ghash_init h aad) cs = Some ctx \<and> gh_num ctx < 16
       \<and> length (gh_block ctx) = 16 \<and> ghash_finish ctx = ghash h aad (concat cs))"
proof -
  from ghash_holds_updates [OF ghash_holds_init, of h aad cs] obtain ctx where
    ctx: "ghash_updates (ghash_init h aad) cs = Some ctx" and h: "ghash_holds h aad ctx (concat cs)"
    by auto
  have "ghash_md.holds (gf128_from_bytes h) [ghash_loop (gf128_from_bytes h) gf128_zero aad]
      (ghash_view ctx) (concat cs)" using h by (simp add: ghash_holds_def)
  from ghash_md.holds_num [OF this] ghash_md.holds_block [OF this]
  have "gh_num ctx < 16" "length (gh_block ctx) = 16" by (simp_all add: ghash_view_def)
  with ctx ghash_holds_finish [OF h] show ?thesis by (auto simp: ghash_eq_spec)
qed

end
