(* ===== verification/Gm_Sm4_Modes.thy ===== *)
theory Gm_Sm4_Modes
  imports Gm_Gcm
begin

text \<open>
  GmSSL, \<^verbatim>\<open>src/sm4_modes.c\<close>: SM4 in CBC mode with and without padding, in counter mode
  and in Galois counter mode, each in one call. Input and output buffers are distinct.

  A result \<open>Inl n\<close> is the return value \<open>n\<close> of a call that failed.
\<close>

type_synonym 'a c_result = "int + 'a"

section \<open>CBC\<close>

primrec sm4_cbc_encrypt :: "SM4_KEY \<Rightarrow> bytes \<Rightarrow> bytes \<Rightarrow> nat \<Rightarrow> bytes" where
  "sm4_cbc_encrypt key iv inp 0 = []"
| "sm4_cbc_encrypt key iv inp (Suc n) =
     (let out = gmssl_memxor inp iv 16;
          out = sm4_encrypt key out
      in out @ sm4_cbc_encrypt key out (drop 16 inp) n)"

primrec sm4_cbc_decrypt :: "SM4_KEY \<Rightarrow> bytes \<Rightarrow> bytes \<Rightarrow> nat \<Rightarrow> bytes" where
  "sm4_cbc_decrypt key iv inp 0 = []"
| "sm4_cbc_decrypt key iv inp (Suc n) =
     (let out = sm4_encrypt key inp;
          out = memxor out iv 16
      in out @ sm4_cbc_decrypt key (take 16 inp) (drop 16 inp) n)"

definition sm4_cbc_padding_encrypt :: "SM4_KEY \<Rightarrow> bytes \<Rightarrow> bytes \<Rightarrow> bytes \<times> nat" where
  "sm4_cbc_padding_encrypt key iv inp =
     (let inlen = length inp;
          rem = inlen mod 16;
          padding = 16 - inlen mod 16;
          block = drop (inlen - rem) inp @ replicate padding (of_nat padding);
          (out, iv) = (if inlen div 16 \<noteq> 0
            then let out = sm4_cbc_encrypt key iv inp (inlen div 16) in (out, drop (inlen - rem - 16) out)
            else ([], iv))
      in (out @ sm4_cbc_encrypt key iv block 1, inlen - rem + 16))"

definition sm4_cbc_padding_decrypt :: "SM4_KEY \<Rightarrow> bytes \<Rightarrow> bytes \<Rightarrow> (bytes \<times> nat) c_result" where
  "sm4_cbc_padding_decrypt key iv inp =
     (let inlen = length inp in
      if inlen = 0 then Inl 0
      else if inlen mod 16 \<noteq> 0 \<or> inlen < 16 then Inl (-1)
      else
        let (out, iv) = (if inlen > 16
              then (sm4_cbc_decrypt key iv inp (inlen div 16 - 1), take 16 (drop (inlen - 32) inp))
              else ([], iv));
            block = sm4_cbc_decrypt key iv (drop (inlen - 16) inp) 1;
            padding = unat (block ! 15)
        in if padding < 1 \<or> padding > 16 then Inl (-1)
           else Inr (out @ take (16 - padding) block, inlen - padding))"


section \<open>Counter mode\<close>

text \<open>From byte \<open>i\<close> down: add one, and carry on while the byte wrapped to zero.\<close>

primrec ctr_incr_from :: "nat \<Rightarrow> bytes \<Rightarrow> bytes" where
  "ctr_incr_from 0 a = a[0 := a ! 0 + 1]"
| "ctr_incr_from (Suc i) a =
     (let a = a[Suc i := a ! Suc i + 1]
      in if a ! Suc i \<noteq> 0 then a else ctr_incr_from i a)"

definition ctr_incr :: "bytes \<Rightarrow> bytes" where
  "ctr_incr a = ctr_incr_from 15 a"

text \<open>Returns the counter, which the code updates in place, and the output.\<close>

function sm4_ctr_encrypt :: "SM4_KEY \<Rightarrow> bytes \<Rightarrow> bytes \<Rightarrow> bytes \<times> bytes" where
  "sm4_ctr_encrypt key ctr inp =
     (if length inp = 0 then (ctr, [])
      else
        let len = (if length inp < 16 then length inp else 16);
            block = sm4_encrypt key ctr;
            out = gmssl_memxor inp block len;
            (ctr, rest) = sm4_ctr_encrypt key (ctr_incr ctr) (drop len inp)
        in (ctr, out @ rest))"
  by pat_completeness auto
termination
  by (relation "measure (\<lambda>(key, ctr, inp). length inp)") auto

declare sm4_ctr_encrypt.simps [simp del]


section \<open>Galois counter mode\<close>

function sm4_gcm_crypt :: "SM4_KEY \<Rightarrow> bytes \<Rightarrow> bytes \<Rightarrow> bytes" where
  "sm4_gcm_crypt key Y inp =
     (if length inp = 0 then []
      else
        let len = (if length inp < 16 then length inp else 16);
            Y = ctr_incr Y;
            block = sm4_encrypt key Y
        in gmssl_memxor inp block len @ sm4_gcm_crypt key Y (drop len inp))"
  by pat_completeness auto
termination
  by (relation "measure (\<lambda>(key, Y, inp). length inp)") auto

declare sm4_gcm_crypt.simps [simp del]

definition sm4_gcm_Y0 :: "bytes \<Rightarrow> bytes \<Rightarrow> bytes" where
  "sm4_gcm_Y0 H iv = (if length iv = 12 then iv @ [0, 0, 0, 1] else ghash H [] iv)"

definition sm4_gcm_encrypt ::
    "SM4_KEY \<Rightarrow> bytes \<Rightarrow> bytes \<Rightarrow> bytes \<Rightarrow> nat \<Rightarrow> (bytes \<times> bytes) c_result" where
  "sm4_gcm_encrypt key iv aad inp taglen =
     (if taglen > 16 then Inl (-1)
      else
        let H = sm4_encrypt key (replicate 16 0);
            Y = sm4_gcm_Y0 H iv;
            T = sm4_encrypt key Y;
            out = sm4_gcm_crypt key Y inp;
            H = ghash H aad out
        in Inr (out, gmssl_memxor T H taglen))"

text \<open>
  The length of the tag is not checked here; for more than 16 bytes the code reads and
  writes past \<^verbatim>\<open>T\<close>, so the definition speaks of the code for tags of at most 16.
\<close>

definition sm4_gcm_decrypt :: "SM4_KEY \<Rightarrow> bytes \<Rightarrow> bytes \<Rightarrow> bytes \<Rightarrow> bytes \<Rightarrow> bytes c_result" where
  "sm4_gcm_decrypt key iv aad inp tag =
     (let H = sm4_encrypt key (replicate 16 0);
          Y = sm4_gcm_Y0 H iv;
          H = ghash H aad inp;
          T = sm4_encrypt key Y;
          T = gmssl_memxor T H (length tag) @ drop (length tag) T
      in if take (length tag) T \<noteq> tag then Inl (-1) else Inr (sm4_gcm_crypt key Y inp))"


section \<open>CBC inverts\<close>

lemma length_sm4_cbc_encrypt [simp]: "length (sm4_cbc_encrypt key iv inp n) = 16 * n"
  by (induction n arbitrary: iv inp) (simp_all add: Let_def length_sm4_encrypt)

lemma length_sm4_cbc_decrypt [simp]:
  "length iv = 16 \<Longrightarrow> 16 * n \<le> length inp \<Longrightarrow> length (sm4_cbc_decrypt key iv inp n) = 16 * n"
  by (induction n arbitrary: iv inp) (simp_all add: Let_def length_sm4_encrypt)

lemma sm4_encrypt_take: "16 \<le> k \<Longrightarrow> sm4_encrypt key (take k b) = sm4_encrypt key b"
  by (simp add: sm4_encrypt_def drop_take)

lemma sm4_cbc_encrypt_take: "16 * n \<le> k \<Longrightarrow> sm4_cbc_encrypt key iv (take k inp) n = sm4_cbc_encrypt key iv inp n"
proof (induction n arbitrary: iv inp k)
  case (Suc n)
  then show ?case using Suc.IH [of "k - 16" _ "drop 16 inp"] by (simp add: gmssl_memxor_def drop_take min_def)
qed simp

lemma sm4_cbc_decrypt_take: "16 * n \<le> k \<Longrightarrow> sm4_cbc_decrypt key iv (take k inp) n = sm4_cbc_decrypt key iv inp n"
proof (induction n arbitrary: iv inp k)
  case (Suc n)
  then show ?case
    using Suc.IH [of "k - 16" _ "drop 16 inp"] sm4_encrypt_take [of k key inp]
    by (simp add: drop_take min_def)
qed simp

text \<open>Encrypting on after \<open>n\<close> blocks starts from the last block written.\<close>

definition last16 :: "bytes \<Rightarrow> bytes" where
  "last16 st = drop (length st - 16) st"

lemma last16_append [simp]: "length b = 16 \<Longrightarrow> last16 (st @ b) = b"
  by (simp add: last16_def)

lemma last16_id [simp]: "length b = 16 \<Longrightarrow> last16 b = b"
  by (simp add: last16_def)

lemma length_last16: "16 \<le> length st \<Longrightarrow> length (last16 st) = 16"
  by (simp add: last16_def)

lemma last16_append_long: "16 \<le> length b \<Longrightarrow> last16 (st @ b) = last16 b"
  by (simp add: last16_def)

lemma sm4_cbc_encrypt_add:
  assumes "length iv = 16"
  shows "sm4_cbc_encrypt key iv inp (m + n) = sm4_cbc_encrypt key iv inp m
    @ sm4_cbc_encrypt key (last16 (iv @ sm4_cbc_encrypt key iv inp m)) (drop (16 * m) inp) n"
  using assms
proof (induction m arbitrary: iv inp)
  case (Suc m)
  let ?o = "sm4_encrypt key (gmssl_memxor inp iv 16)"
  have "last16 (iv @ ?o @ sm4_cbc_encrypt key ?o (drop 16 inp) m)
      = last16 (?o @ sm4_cbc_encrypt key ?o (drop 16 inp) m)"
    by (rule last16_append_long) (simp add: length_sm4_encrypt)
  with Suc.IH [of ?o "drop 16 inp"] show ?case
    by (simp add: Let_def length_sm4_encrypt add.commute)
qed simp

lemma sm4_cbc_decrypt_add:
  assumes "length iv = 16" "16 * m \<le> length inp"
  shows "sm4_cbc_decrypt key iv inp (m + n) = sm4_cbc_decrypt key iv inp m
    @ sm4_cbc_decrypt key (last16 (iv @ take (16 * m) inp)) (drop (16 * m) inp) n"
  using assms
proof (induction m arbitrary: iv inp)
  case (Suc m)
  have l: "length (take 16 inp) = 16" "16 * m \<le> length (drop 16 inp)" using Suc.prems by simp_all
  have "take (16 * Suc m) inp = take 16 inp @ take (16 * m) (drop 16 inp)" by (simp add: take_add)
  then have "last16 (iv @ take (16 * Suc m) inp) = last16 (take 16 inp @ take (16 * m) (drop 16 inp))"
    using last16_append_long [of "take 16 inp @ take (16 * m) (drop 16 inp)" iv] l by simp
  with Suc.IH [OF l] show ?case by (simp add: Let_def add.commute)
qed simp

lemma sm4_cbc_roundtrip:
  "length iv = 16 \<Longrightarrow> 16 * n \<le> length inp \<Longrightarrow>
    sm4_cbc_decrypt (sm4_set_decrypt_key k) iv (sm4_cbc_encrypt (sm4_set_encrypt_key k) iv inp n) n
      = take (16 * n) inp"
proof (induction n arbitrary: iv inp)
  case (Suc n)
  let ?x = "gmssl_memxor inp iv 16"
  let ?o = "sm4_encrypt (sm4_set_encrypt_key k) ?x"
  have x: "?x = map2 (XOR) (take 16 inp) iv" using Suc.prems by (simp add: gmssl_memxor_def)
  have lx: "length ?x = 16" using Suc.prems by (simp add: x)
  have "sm4_encrypt (sm4_set_decrypt_key k) (?o @ rest) = ?x" for rest
    using sm4.D_E [OF lx, of k] sm4_encrypt_take [of 16 "sm4_set_decrypt_key k" "?o @ rest"]
    by (simp add: length_sm4_encrypt)
  moreover have "memxor ?x iv 16 = take 16 inp"
    using Suc.prems lx map2_xor_cancel [of "take 16 inp" iv] by (simp add: memxor_def x)
  moreover have "take (16 + 16 * n) inp = take 16 inp @ take (16 * n) (drop 16 inp)" by (simp add: take_add)
  ultimately show ?case
    using Suc.IH [of ?o "drop 16 inp"] Suc.prems by (simp add: Let_def length_sm4_encrypt)
qed simp

text \<open>The padding is that of the standard: between 1 and 16 bytes, each the number of them.\<close>

definition cbc_pad :: "bytes \<Rightarrow> bytes" where
  "cbc_pad m = m @ replicate (16 - length m mod 16) (of_nat (16 - length m mod 16))"

lemma length_cbc_pad: "length (cbc_pad m) = 16 * (length m div 16 + 1)"
proof -
  have "length m + (16 - length m mod 16) = 16 * (length m div 16) + (length m mod 16 + (16 - length m mod 16))"
    by (simp only: add.assoc [symmetric] mult_div_mod_eq)
  also have "length m mod 16 + (16 - length m mod 16) = 16" by (simp add: less_imp_le)
  finally show ?thesis by (simp add: cbc_pad_def)
qed

lemma sm4_cbc_padding_encrypt_eq:
  assumes "length iv = 16"
  shows "sm4_cbc_padding_encrypt key iv m
    = (sm4_cbc_encrypt key iv (cbc_pad m) (length m div 16 + 1), 16 * (length m div 16 + 1))"
proof -
  let ?q = "length m div 16"
  have q: "length m - length m mod 16 = 16 * ?q" by (simp add: minus_mod_eq_mult_div)
  have pre: "sm4_cbc_encrypt key iv (cbc_pad m) ?q = sm4_cbc_encrypt key iv m ?q"
    using sm4_cbc_encrypt_take [of ?q "length m" key iv "cbc_pad m"] by (simp add: cbc_pad_def)
  have blk: "drop (16 * ?q) (cbc_pad m) = drop (16 * ?q) m @ replicate (16 - length m mod 16) (of_nat (16 - length m mod 16))"
    by (simp add: cbc_pad_def)
  have iv: "(if ?q \<noteq> 0 then drop (16 * ?q - 16) (sm4_cbc_encrypt key iv m ?q) else iv)
      = last16 (iv @ sm4_cbc_encrypt key iv m ?q)"
  proof (cases "?q = 0")
    case False
    then have "16 \<le> length (sm4_cbc_encrypt key iv m ?q)" by simp
    from last16_append_long [OF this, of iv] False show ?thesis by (simp add: last16_def)
  qed (use assms in simp)
  have "sm4_cbc_padding_encrypt key iv m = (sm4_cbc_encrypt key iv m ?q
      @ sm4_cbc_encrypt key (last16 (iv @ sm4_cbc_encrypt key iv m ?q)) (drop (16 * ?q) (cbc_pad m)) 1, 16 * ?q + 16)"
    unfolding sm4_cbc_padding_encrypt_def Let_def q blk iv [symmetric]
    by (cases "?q = 0") simp_all
  then show ?thesis unfolding sm4_cbc_encrypt_add [OF assms] pre by simp
qed

lemma sm4_cbc_padding_decrypt_eq:
  assumes "length iv = 16" "length c = 16 * Suc q"
  shows "sm4_cbc_padding_decrypt key iv c =
    (let P = sm4_cbc_decrypt key iv c (Suc q); p = unat (P ! (16 * q + 15)) in
     if p < 1 \<or> p > 16 then Inl (-1) else Inr (take (16 * Suc q - p) P, 16 * Suc q - p))"
proof -
  let ?O = "sm4_cbc_decrypt key iv c q"
  let ?iv = "last16 (iv @ take (16 * q) c)"
  let ?b = "sm4_cbc_decrypt key ?iv (drop (16 * q) c) 1"
  have P: "sm4_cbc_decrypt key iv c (Suc q) = ?O @ ?b"
    using sm4_cbc_decrypt_add [OF assms(1), of q c key 1] assms(2) by simp
  have lo: "length ?O = 16 * q" using assms by simp
  have iv: "(if 16 < length c then (sm4_cbc_decrypt key iv c (length c div 16 - 1), take 16 (drop (length c - 32) c)) else ([], iv))
      = (?O, ?iv)"
  proof (cases "q = 0")
    case False
    then obtain j where q: "q = Suc j" by (cases q) simp_all
    have "take (16 * q) c = take (16 * j) c @ take 16 (drop (16 * j) c)" using take_add [of "16 * j" 16 c] by (simp add: q add.commute)
    moreover have "length (take 16 (drop (16 * j) c)) = 16" using assms(2) q by simp
    ultimately have "?iv = take 16 (drop (16 * j) c)" by (simp flip: append_assoc)
    then show ?thesis using assms(2) q by (simp del: sm4_cbc_decrypt.simps)
  qed (use assms in simp)
  have d: "drop (length c - 16) c = drop (16 * q) c" using assms(2) by simp
  have nth: "(?O @ ?b) ! (16 * q + 15) = ?b ! 15" using lo by (simp add: nth_append del: sm4_cbc_decrypt.simps)
  have tk: "take (16 * Suc q - p) (?O @ ?b) = ?O @ take (16 - p) ?b" if "p \<le> 16" for p
    using lo that by (simp add: le_diff_conv2 del: sm4_cbc_decrypt.simps)
  have m: "length c mod 16 = 0" "\<not> length c < 16" "length c \<noteq> 0" using assms(2) by simp_all
  show ?thesis
    unfolding sm4_cbc_padding_decrypt_def Let_def P nth iv d prod.case
    using m assms(2) tk by (simp del: sm4_cbc_decrypt.simps)
qed

lemma cbc_pad_last:
  "cbc_pad m ! (16 * (length m div 16) + 15) = of_nat (16 - length m mod 16)"
proof -
  let ?n = "16 - length m mod 16"
  obtain j where j: "?n = Suc j" by (cases ?n) simp_all
  have "cbc_pad m = (m @ replicate j (of_nat ?n)) @ [of_nat ?n]"
    unfolding cbc_pad_def j by (simp only: append_assoc replicate_append_same replicate_Suc)
  moreover from this have "length (m @ replicate j (of_nat ?n :: u8)) = 16 * (length m div 16) + 15"
    using length_cbc_pad [of m] by (simp del: of_nat_diff)
  ultimately show ?thesis by (metis nth_append_length)
qed

lemma sm4_cbc_padding_roundtrip:
  assumes "length iv = 16"
  shows "sm4_cbc_padding_decrypt (sm4_set_decrypt_key k) iv
    (fst (sm4_cbc_padding_encrypt (sm4_set_encrypt_key k) iv m)) = Inr (m, length m)"
proof -
  let ?ek = "sm4_set_encrypt_key k" and ?dk = "sm4_set_decrypt_key k" and ?q = "length m div 16"
  let ?c = "sm4_cbc_encrypt ?ek iv (cbc_pad m) (Suc ?q)"
  have lc: "length ?c = 16 * Suc ?q" by (rule length_sm4_cbc_encrypt)
  have D: "sm4_cbc_decrypt ?dk iv ?c (Suc ?q) = cbc_pad m"
    using sm4_cbc_roundtrip [OF assms, of "Suc ?q" "cbc_pad m" k] length_cbc_pad [of m]
    by (simp del: sm4_cbc_decrypt.simps sm4_cbc_encrypt.simps)
  let ?n = "16 - length m mod 16"
  have "unat (of_nat n :: u8) = n" if "n \<le> 16" for n
    using that by (simp add: unsigned_of_nat take_bit_nat_eq_self)
  from this [of ?n] have p: "unat (cbc_pad m ! (16 * ?q + 15)) = ?n"
    by (simp only: cbc_pad_last diff_le_self)
  have "16 * Suc ?q = length m + ?n" using length_cbc_pad [of m] by (simp add: cbc_pad_def)
  then have l: "16 * Suc ?q - ?n = length m" by simp
  have ok: "\<not> (?n < 1 \<or> ?n > 16)" by (simp add: not_le)
  have tk: "take (length m) (cbc_pad m) = m" by (simp add: cbc_pad_def)
  show ?thesis
    using sm4_cbc_padding_decrypt_eq [OF assms lc, of ?dk]
    unfolding sm4_cbc_padding_encrypt_eq [OF assms] D Let_def p l fst_conv Suc_eq_plus1 [symmetric]
    by (simp only: ok tk if_False)
qed


section \<open>The counter\<close>

text \<open>The counter block as a number, first byte highest.\<close>

primrec be_val :: "bytes \<Rightarrow> nat" where
  "be_val [] = 0"
| "be_val (b # a) = unat b * 256 ^ length a + be_val a"

lemma be_val_append: "be_val (a @ b) = be_val a * 256 ^ length b + be_val b"
  by (induction a) (simp_all add: power_add distrib_right)

lemma be_val_less: "be_val a < 256 ^ length a"
proof (induction a rule: rev_induct)
  case (snoc b a)
  have "unat b < 256" using unsigned_less [of b] by simp
  with snoc show ?case by (simp add: be_val_append)
qed simp

lemma length_ctr_incr_from [simp]: "length (ctr_incr_from i a) = length a"
  by (induction i arbitrary: a) (simp_all add: Let_def)

lemma length_ctr_incr [simp]: "length (ctr_incr a) = length a"
  by (simp add: ctr_incr_def)

lemma unat_plus_1: "unat ((b::u8) + 1) = (if b + 1 = 0 then 0 else unat b + 1)"
  by (simp add: unatSuc add.commute)

lemma wrap_byte: "(b::u8) + 1 = 0 \<Longrightarrow> unat b = 255"
proof -
  assume "b + 1 = 0"
  moreover have "(255::u8) = - 1" by simp
  ultimately have "b = 255" by (metis add.commute add_eq_0_iff)
  then show ?thesis by simp
qed

lemma ctr_incr_from_val:
  "i < length a \<Longrightarrow> be_val (take (Suc i) (ctr_incr_from i a)) = (be_val (take (Suc i) a) + 1) mod 256 ^ Suc i
    \<and> drop (Suc i) (ctr_incr_from i a) = drop (Suc i) a"
proof (induction i arbitrary: a)
  case 0
  then obtain b a' where a: "a = b # a'" by (cases a) auto
  have "unat (b + 1) < 256" using unsigned_less [of "b + 1"] by simp
  then show ?case using wrap_byte [of b] by (auto simp: a unat_plus_1 split: if_splits)
next
  case (Suc i)
  let ?a = "a[Suc i := a ! Suc i + 1]"
  have t: "take (Suc (Suc i)) a = take (Suc i) a @ [a ! Suc i]" "take (Suc (Suc i)) ?a = take (Suc i) a @ [a ! Suc i + 1]"
    using Suc.prems by (simp_all add: take_Suc_conv_app_nth)
  have lt: "be_val (take (Suc i) a) < 256 ^ Suc i" using be_val_less [of "take (Suc i) a"] Suc.prems by simp
  show ?case
  proof (cases "a ! Suc i + 1 = 0")
    case False
    let ?v = "be_val (take (Suc i) a)"
    have "unat (a ! Suc i + 1) = unat (a ! Suc i) + 1" using False by (simp add: unat_plus_1)
    moreover have "unat (a ! Suc i + 1) < 256" using unsigned_less [of "a ! Suc i + 1"] by simp
    ultimately have "?v * 256 + unat (a ! Suc i) + 1 < 256 ^ Suc (Suc i)"
      using lt by simp
    with False t Suc.prems \<open>unat (a ! Suc i + 1) = unat (a ! Suc i) + 1\<close> show ?thesis
      by (simp add: Let_def be_val_append)
  next
    case True
    let ?b = "ctr_incr_from i ?a"
    have IH: "be_val (take (Suc i) ?b) = (be_val (take (Suc i) a) + 1) mod 256 ^ Suc i"
        "drop (Suc i) ?b = drop (Suc i) ?a"
      using Suc.IH [of ?a] Suc.prems by simp_all
    have "?b ! Suc i = 0"
    proof -
      have "?b ! Suc i = drop (Suc i) ?b ! 0" using Suc.prems by simp
      also have "\<dots> = ?a ! Suc i" unfolding IH(2) using Suc.prems by simp
      finally show ?thesis using True Suc.prems by simp
    qed
    then have "take (Suc (Suc i)) ?b = take (Suc i) ?b @ [0]"
      using Suc.prems by (simp add: take_Suc_conv_app_nth)
    moreover have "drop (Suc (Suc i)) ?b = drop (Suc (Suc i)) a"
      using arg_cong [OF IH(2), of "drop 1"] by simp
    moreover have "(be_val (take (Suc i) a) * 256 + 255 + 1) mod 256 ^ Suc (Suc i)
        = (be_val (take (Suc i) a) + 1) mod 256 ^ Suc i * 256"
    proof -
      have "be_val (take (Suc i) a) * 256 + 255 + 1 = (be_val (take (Suc i) a) + 1) * 256" by simp
      moreover have "(256::nat) ^ Suc (Suc i) = 256 ^ Suc i * 256" by simp
      ultimately show ?thesis by (simp only: mod_mult_mult2)
    qed
    ultimately show ?thesis
      using True Suc.prems IH(1) wrap_byte [OF True] t
      by (simp add: Let_def be_val_append)
  qed
qed

lemma ctr_incr_val: "length a = 16 \<Longrightarrow> be_val (ctr_incr a) = (be_val a + 1) mod 2 ^ 128"
proof -
  assume "length a = 16"
  with ctr_incr_from_val [of 15 a] have "be_val (ctr_incr a) = (be_val a + 1) mod 256 ^ 16"
    by (simp add: ctr_incr_def)
  then show ?thesis by simp
qed


section \<open>Counter mode over a key stream\<close>

definition key_stream :: "SM4_KEY \<Rightarrow> bytes \<Rightarrow> nat \<Rightarrow> bytes" where
  "key_stream key ctr n = concat (map (\<lambda>i. sm4_encrypt key ((ctr_incr ^^ i) ctr)) [0..<n])"

definition stream_xor :: "SM4_KEY \<Rightarrow> bytes \<Rightarrow> bytes \<Rightarrow> bytes" where
  "stream_xor key ctr inp = map2 (XOR) inp (take (length inp) (key_stream key ctr (length inp div 16 + 1)))"

lemma length_key_stream [simp]: "length (key_stream key ctr n) = 16 * n"
  by (induction n) (simp_all add: key_stream_def length_sm4_encrypt)

lemma key_stream_Suc: "key_stream key ctr (Suc n) = sm4_encrypt key ctr @ key_stream key (ctr_incr ctr) n"
proof -
  have "map (\<lambda>i. sm4_encrypt key ((ctr_incr ^^ i) (ctr_incr ctr))) [0..<n]
      = map (\<lambda>i. sm4_encrypt key ((ctr_incr ^^ i) ctr)) (map Suc [0..<n])"
    by (simp add: funpow_swap1)
  also have "\<dots> = map (\<lambda>i. sm4_encrypt key ((ctr_incr ^^ i) ctr)) [1..<Suc n]"
    by (simp only: map_Suc_upt One_nat_def)
  finally show ?thesis by (simp add: key_stream_def upt_conv_Cons del: upt_Suc)
qed

lemma length_stream_xor [simp]: "length (stream_xor key ctr inp) = length inp"
proof -
  have "length inp \<le> 16 * (length inp div 16 + 1)"
    using dividend_less_times_div [of 16 "length inp"] by simp
  then show ?thesis by (simp add: stream_xor_def)
qed

lemma stream_xor_short:
  "length inp < 16 \<Longrightarrow> stream_xor key ctr inp = map2 (XOR) inp (take (length inp) (sm4_encrypt key ctr))"
  by (simp add: stream_xor_def key_stream_def length_sm4_encrypt)

lemma stream_xor_long:
  assumes "16 \<le> length inp"
  shows "stream_xor key ctr inp = map2 (XOR) (take 16 inp) (sm4_encrypt key ctr)
    @ stream_xor key (ctr_incr ctr) (drop 16 inp)"
proof -
  obtain n where n: "length inp div 16 = Suc n" "(length inp - 16) div 16 = n"
    using assms by (metis Suc_diff_1 div_greater_zero_iff le_div_geq zero_less_numeral diff_Suc_1)
  have "take (length inp) (key_stream key ctr (Suc (Suc n)))
      = sm4_encrypt key ctr @ take (length inp - 16) (key_stream key (ctr_incr ctr) (Suc n))"
    using assms by (simp add: key_stream_Suc [of key ctr "Suc n"] length_sm4_encrypt)
  then have "stream_xor key ctr inp = map2 (XOR) (take 16 inp @ drop 16 inp)
      (sm4_encrypt key ctr @ take (length inp - 16) (key_stream key (ctr_incr ctr) (Suc n)))"
    by (simp add: stream_xor_def n)
  also have "\<dots> = map2 (XOR) (take 16 inp) (sm4_encrypt key ctr)
      @ map2 (XOR) (drop 16 inp) (take (length inp - 16) (key_stream key (ctr_incr ctr) (Suc n)))"
    using assms by (subst map2_append) (simp_all add: length_sm4_encrypt)
  finally show ?thesis by (simp add: stream_xor_def n)
qed

lemma stream_xor_Nil [simp]: "stream_xor key ctr [] = []"
  by (simp add: stream_xor_def)

lemma sm4_ctr_encrypt_eq:
  "sm4_ctr_encrypt key ctr inp = ((ctr_incr ^^ ((length inp + 15) div 16)) ctr, stream_xor key ctr inp)"
proof (induction key ctr inp rule: sm4_ctr_encrypt.induct)
  case (1 key ctr inp)
  consider "length inp = 0" | "0 < length inp" "length inp < 16" | "16 \<le> length inp" by linarith
  then show ?case
  proof cases
    case 1
    then show ?thesis by (simp add: sm4_ctr_encrypt.simps)
  next
    case 2
    then have "(length inp + 15) div 16 = 1" by (intro div_nat_eqI) (simp_all add: Suc_le_eq)
    with 2 show ?thesis
      by (simp add: sm4_ctr_encrypt.simps [of key ctr] sm4_ctr_encrypt.simps [of _ _ "[]"]
          stream_xor_short gmssl_memxor_def)
  next
    case 3
    have "length inp + 15 = (length inp - 16 + 15) + 16" using 3 by simp
    then have n: "(length inp + 15) div 16 = Suc ((length inp - 16 + 15) div 16)" by (simp only: div_add_self2)
    from 3 have ne: "length inp \<noteq> 0" "\<not> length inp < 16" by auto
    from "1.IH" [OF ne(1) refl refl refl] ne(2)
    have "sm4_ctr_encrypt key (ctr_incr ctr) (drop 16 inp)
        = ((ctr_incr ^^ ((length inp - 16 + 15) div 16)) (ctr_incr ctr), stream_xor key (ctr_incr ctr) (drop 16 inp))"
      by simp
    with 3 ne n show ?thesis
      by (subst sm4_ctr_encrypt.simps)
        (simp add: stream_xor_long gmssl_memxor_def length_sm4_encrypt funpow_swap1 del: div_add_self2)
  qed
qed

lemma stream_xor_twice: "stream_xor key ctr (stream_xor key ctr inp) = inp"
proof -
  let ?ks = "take (length inp) (key_stream key ctr (length inp div 16 + 1))"
  have "length inp = length ?ks"
    using length_stream_xor [of key ctr inp] by (simp add: stream_xor_def)
  then have "map2 (XOR) (map2 (XOR) inp ?ks) ?ks = inp" by (rule map2_xor_cancel)
  then show ?thesis
    using length_stream_xor [of key ctr inp] by (simp add: stream_xor_def [of key ctr "stream_xor key ctr inp"])
      (simp add: stream_xor_def)
qed

lemma sm4_gcm_crypt_eq: "sm4_gcm_crypt key Y inp = stream_xor key (ctr_incr Y) inp"
proof (induction key Y inp rule: sm4_gcm_crypt.induct)
  case (1 key Y inp)
  consider "length inp = 0" | "0 < length inp" "length inp < 16" | "16 \<le> length inp" by linarith
  then show ?case
  proof cases
    case 1
    then show ?thesis by (simp add: sm4_gcm_crypt.simps)
  next
    case 2
    then show ?thesis
      by (simp add: sm4_gcm_crypt.simps [of key Y] sm4_gcm_crypt.simps [of _ _ "[]"]
          stream_xor_short gmssl_memxor_def Let_def)
  next
    case 3
    then have ne: "length inp \<noteq> 0" "\<not> length inp < 16" by auto
    with "1.IH" [OF ne(1) refl refl refl] 3 show ?thesis
      by (subst sm4_gcm_crypt.simps) (simp add: stream_xor_long gmssl_memxor_def length_sm4_encrypt Let_def)
  qed
qed


section \<open>Galois counter mode\<close>

definition gcm_tag :: "SM4_KEY \<Rightarrow> bytes \<Rightarrow> bytes \<Rightarrow> bytes \<Rightarrow> bytes" where
  "gcm_tag key iv aad c =
     (let H = sm4_encrypt key (replicate 16 0)
      in map2 (XOR) (sm4_encrypt key (sm4_gcm_Y0 H iv)) (ghash H aad c))"

lemma length_ghash: "length (ghash h aad c) = 16"
  by (simp add: ghash_def gf128_to_bytes_def Let_def)

lemma length_gcm_tag: "length (gcm_tag key iv aad c) = 16"
  by (simp add: gcm_tag_def Let_def length_sm4_encrypt length_ghash)

lemma sm4_gcm_encrypt_eq:
  "sm4_gcm_encrypt key iv aad inp n =
     (if n > 16 then Inl (-1)
      else let c = stream_xor key (ctr_incr (sm4_gcm_Y0 (sm4_encrypt key (replicate 16 0)) iv)) inp
        in Inr (c, take n (gcm_tag key iv aad c)))"
  by (simp add: sm4_gcm_encrypt_def Let_def sm4_gcm_crypt_eq gcm_tag_def gmssl_memxor_def take_map take_zip)

lemma sm4_gcm_decrypt_eq:
  assumes "length tag \<le> 16"
  shows "sm4_gcm_decrypt key iv aad c tag =
     (if tag = take (length tag) (gcm_tag key iv aad c)
      then Inr (stream_xor key (ctr_incr (sm4_gcm_Y0 (sm4_encrypt key (replicate 16 0)) iv)) c)
      else Inl (-1))"
proof -
  let ?H = "sm4_encrypt key (replicate 16 0)"
  let ?T = "sm4_encrypt key (sm4_gcm_Y0 ?H iv)"
  have "take (length tag) (gmssl_memxor ?T (ghash ?H aad c) (length tag) @ drop (length tag) ?T)
      = take (length tag) (gcm_tag key iv aad c)"
    using assms by (simp add: gcm_tag_def Let_def gmssl_memxor_def take_map take_zip length_sm4_encrypt length_ghash)
  then show ?thesis by (auto simp: sm4_gcm_decrypt_def Let_def sm4_gcm_crypt_eq)
qed


section \<open>Properties\<close>

text \<open>
  C36. CBC with padding: decryption returns the plaintext, of its right length, for every
  key, initial vector and message; without padding whole blocks come back unchanged.
\<close>

theorem sm4_cbc_decrypt_inverts:
  assumes "length iv = 16"
  shows "sm4_cbc_padding_decrypt (sm4_set_decrypt_key k) iv
      (fst (sm4_cbc_padding_encrypt (sm4_set_encrypt_key k) iv m)) = Inr (m, length m)
    \<and> (16 * n \<le> length m \<longrightarrow> sm4_cbc_decrypt (sm4_set_decrypt_key k) iv
        (sm4_cbc_encrypt (sm4_set_encrypt_key k) iv m n) n = take (16 * n) m)"
  using sm4_cbc_padding_roundtrip [OF assms] sm4_cbc_roundtrip [OF assms] by blast

theorem sm4_cbc_decrypt_inverts_witness:
  "sm4_cbc_padding_decrypt (sm4_set_decrypt_key (replicate 16 2)) (replicate 16 9)
      (fst (sm4_cbc_padding_encrypt (sm4_set_encrypt_key (replicate 16 2)) (replicate 16 9) [1, 2, 3]))
    = Inr ([1, 2, 3], length [1, 2, 3::u8])"
  using sm4_cbc_decrypt_inverts [of "replicate 16 9" "replicate 16 2" "[1, 2, 3]"]
  by (simp only: length_replicate)

text \<open>
  C20. Galois counter mode: with a tag of at most 16 bytes, decryption of what encryption
  produced returns the plaintext, and decryption succeeds exactly when the tag is the
  right one for the associated data and ciphertext; longer tags are refused by
  encryption.
\<close>

theorem sm4_gcm_correct:
  assumes "length tag \<le> 16" "n \<le> 16"
  shows "(\<exists>c t. sm4_gcm_encrypt key iv aad inp n = Inr (c, t) \<and> length t = n
      \<and> sm4_gcm_decrypt key iv aad c t = Inr inp)
    \<and> (sm4_gcm_decrypt key iv aad c tag =
        (if tag = take (length tag) (gcm_tag key iv aad c)
         then Inr (stream_xor key (ctr_incr (sm4_gcm_Y0 (sm4_encrypt key (replicate 16 0)) iv)) c)
         else Inl (-1)))
    \<and> sm4_gcm_encrypt key iv aad inp 17 = Inl (-1)"
  using assms
  by (auto simp: sm4_gcm_encrypt_eq sm4_gcm_decrypt_eq Let_def length_gcm_tag stream_xor_twice)

theorem sm4_gcm_correct_witness:
  "\<exists>c t. sm4_gcm_encrypt (sm4_set_encrypt_key []) [1] [2] [3] 12 = Inr (c, t) \<and> length t = 12
      \<and> sm4_gcm_decrypt (sm4_set_encrypt_key []) [1] [2] c t = Inr [3]"
  using sm4_gcm_correct [of "[]" 12 "sm4_set_encrypt_key []" "[1]" "[2]" "[3]"] by auto

end
