(* ===== verification/Gm_Sm4_Stream.thy ===== *)
theory Gm_Sm4_Stream
  imports Gm_Sm4_Modes
begin

text \<open>
  GmSSL, the streaming contexts of \<^verbatim>\<open>src/sm4_modes.c\<close> over CBC and counter mode, and
  \<^verbatim>\<open>src/sm4_cbc_mac.c\<close>. Each keeps a partial block between calls; each is shown to give,
  for every split of the input, what the one-call function gives.
\<close>

section \<open>Streaming CBC\<close>

record SM4_CBC_CTX =
  cbc_key :: SM4_KEY
  cbc_iv :: bytes
  cbc_block :: bytes
  cbc_nbytes :: nat

definition sm4_cbc_encrypt_init :: "bytes \<Rightarrow> bytes \<Rightarrow> SM4_CBC_CTX" where
  "sm4_cbc_encrypt_init key iv =
     \<lparr>cbc_key = sm4_set_encrypt_key key, cbc_iv = iv, cbc_block = replicate 16 0, cbc_nbytes = 0\<rparr>"

text \<open>The part of the update after the buffered block has been dealt with.\<close>

definition sm4_cbc_encrypt_rest :: "SM4_CBC_CTX \<Rightarrow> bytes \<Rightarrow> SM4_CBC_CTX \<times> bytes" where
  "sm4_cbc_encrypt_rest ctx inp =
     (let (ctx, inp, out) = (if length inp \<ge> 16
            then let nblocks = length inp div 16;
                     len = nblocks * 16;
                     out = sm4_cbc_encrypt (cbc_key ctx) (cbc_iv ctx) inp nblocks
                 in (ctx\<lparr>cbc_iv := drop (len - 16) out\<rparr>, drop len inp, out)
            else (ctx, inp, []));
          ctx = (if length inp \<noteq> 0 then ctx\<lparr>cbc_block := mem_write (cbc_block ctx) 0 inp\<rparr> else ctx)
      in (ctx\<lparr>cbc_nbytes := length inp\<rparr>, out))"

definition sm4_cbc_encrypt_update :: "SM4_CBC_CTX \<Rightarrow> bytes \<Rightarrow> (SM4_CBC_CTX \<times> bytes) c_result" where
  "sm4_cbc_encrypt_update ctx inp =
     (if cbc_nbytes ctx \<ge> 16 then Inl (-1)
      else if cbc_nbytes ctx \<noteq> 0 then
        let left = 16 - cbc_nbytes ctx in
        if length inp < left then
          Inr (ctx\<lparr>cbc_block := mem_write (cbc_block ctx) (cbc_nbytes ctx) inp,
                   cbc_nbytes := cbc_nbytes ctx + length inp\<rparr>, [])
        else
          let ctx = ctx\<lparr>cbc_block := mem_write (cbc_block ctx) (cbc_nbytes ctx) (take left inp)\<rparr>;
              out = sm4_cbc_encrypt (cbc_key ctx) (cbc_iv ctx) (cbc_block ctx) 1;
              ctx = ctx\<lparr>cbc_iv := out\<rparr>;
              (ctx, out') = sm4_cbc_encrypt_rest ctx (drop left inp)
          in Inr (ctx, out @ out')
      else Inr (sm4_cbc_encrypt_rest ctx inp))"

definition sm4_cbc_encrypt_finish :: "SM4_CBC_CTX \<Rightarrow> (bytes \<times> nat) c_result" where
  "sm4_cbc_encrypt_finish ctx =
     (if cbc_nbytes ctx \<ge> 16 then Inl (-1)
      else Inr (sm4_cbc_padding_encrypt (cbc_key ctx) (cbc_iv ctx)
        (take (cbc_nbytes ctx) (cbc_block ctx))))"

definition sm4_cbc_decrypt_init :: "bytes \<Rightarrow> bytes \<Rightarrow> SM4_CBC_CTX" where
  "sm4_cbc_decrypt_init key iv =
     \<lparr>cbc_key = sm4_set_decrypt_key key, cbc_iv = iv, cbc_block = replicate 16 0, cbc_nbytes = 0\<rparr>"

definition sm4_cbc_decrypt_rest :: "SM4_CBC_CTX \<Rightarrow> bytes \<Rightarrow> SM4_CBC_CTX \<times> bytes" where
  "sm4_cbc_decrypt_rest ctx inp =
     (let (ctx, inp, out) = (if length inp > 16
            then let nblocks = (length inp - 1) div 16;
                     len = nblocks * 16;
                     out = sm4_cbc_decrypt (cbc_key ctx) (cbc_iv ctx) inp nblocks
                 in (ctx\<lparr>cbc_iv := take 16 (drop (len - 16) inp)\<rparr>, drop len inp, out)
            else (ctx, inp, []))
      in (ctx\<lparr>cbc_block := mem_write (cbc_block ctx) 0 inp, cbc_nbytes := length inp\<rparr>, out))"

definition sm4_cbc_decrypt_update :: "SM4_CBC_CTX \<Rightarrow> bytes \<Rightarrow> (SM4_CBC_CTX \<times> bytes) c_result" where
  "sm4_cbc_decrypt_update ctx inp =
     (if cbc_nbytes ctx > 16 then Inl (-1)
      else if cbc_nbytes ctx \<noteq> 0 then
        let left = 16 - cbc_nbytes ctx in
        if length inp \<le> left then
          Inr (ctx\<lparr>cbc_block := mem_write (cbc_block ctx) (cbc_nbytes ctx) inp,
                   cbc_nbytes := cbc_nbytes ctx + length inp\<rparr>, [])
        else
          let ctx = ctx\<lparr>cbc_block := mem_write (cbc_block ctx) (cbc_nbytes ctx) (take left inp)\<rparr>;
              out = sm4_cbc_decrypt (cbc_key ctx) (cbc_iv ctx) (cbc_block ctx) 1;
              ctx = ctx\<lparr>cbc_iv := cbc_block ctx\<rparr>;
              (ctx, out') = sm4_cbc_decrypt_rest ctx (drop left inp)
          in Inr (ctx, out @ out')
      else Inr (sm4_cbc_decrypt_rest ctx inp))"

definition sm4_cbc_decrypt_finish :: "SM4_CBC_CTX \<Rightarrow> (bytes \<times> nat) c_result" where
  "sm4_cbc_decrypt_finish ctx =
     (if cbc_nbytes ctx \<noteq> 16 then Inl (-1)
      else case sm4_cbc_padding_decrypt (cbc_key ctx) (cbc_iv ctx) (cbc_block ctx) of
        Inl _ \<Rightarrow> Inl (-1)
      | Inr r \<Rightarrow> Inr r)"


section \<open>Streaming counter mode\<close>

record SM4_CTR_CTX =
  ctr_key :: SM4_KEY
  ctr_ctr :: bytes
  ctr_block :: bytes
  ctr_nbytes :: nat

definition sm4_ctr_encrypt_init :: "bytes \<Rightarrow> bytes \<Rightarrow> SM4_CTR_CTX" where
  "sm4_ctr_encrypt_init key ctr =
     \<lparr>ctr_key = sm4_set_encrypt_key key, ctr_ctr = ctr, ctr_block = replicate 16 0, ctr_nbytes = 0\<rparr>"

definition sm4_ctr_encrypt_rest :: "SM4_CTR_CTX \<Rightarrow> bytes \<Rightarrow> SM4_CTR_CTX \<times> bytes" where
  "sm4_ctr_encrypt_rest ctx inp =
     (let (ctx, inp, out) = (if length inp \<ge> 16
            then let nblocks = length inp div 16;
                     len = nblocks * 16;
                     (c, out) = sm4_ctr_encrypt (ctr_key ctx) (ctr_ctr ctx) (take len inp)
                 in (ctx\<lparr>ctr_ctr := c\<rparr>, drop len inp, out)
            else (ctx, inp, []));
          ctx = (if length inp \<noteq> 0 then ctx\<lparr>ctr_block := mem_write (ctr_block ctx) 0 inp\<rparr> else ctx)
      in (ctx\<lparr>ctr_nbytes := length inp\<rparr>, out))"

definition sm4_ctr_encrypt_update :: "SM4_CTR_CTX \<Rightarrow> bytes \<Rightarrow> (SM4_CTR_CTX \<times> bytes) c_result" where
  "sm4_ctr_encrypt_update ctx inp =
     (if ctr_nbytes ctx \<ge> 16 then Inl (-1)
      else if ctr_nbytes ctx \<noteq> 0 then
        let left = 16 - ctr_nbytes ctx in
        if length inp < left then
          Inr (ctx\<lparr>ctr_block := mem_write (ctr_block ctx) (ctr_nbytes ctx) inp,
                   ctr_nbytes := ctr_nbytes ctx + length inp\<rparr>, [])
        else
          let ctx = ctx\<lparr>ctr_block := mem_write (ctr_block ctx) (ctr_nbytes ctx) (take left inp)\<rparr>;
              (c, out) = sm4_ctr_encrypt (ctr_key ctx) (ctr_ctr ctx) (take 16 (ctr_block ctx));
              ctx = ctx\<lparr>ctr_ctr := c\<rparr>;
              (ctx, out') = sm4_ctr_encrypt_rest ctx (drop left inp)
          in Inr (ctx, out @ out')
      else Inr (sm4_ctr_encrypt_rest ctx inp))"

definition sm4_ctr_encrypt_finish :: "SM4_CTR_CTX \<Rightarrow> (bytes \<times> nat) c_result" where
  "sm4_ctr_encrypt_finish ctx =
     (if ctr_nbytes ctx \<ge> 16 then Inl (-1)
      else Inr (snd (sm4_ctr_encrypt (ctr_key ctx) (ctr_ctr ctx)
        (take (ctr_nbytes ctx) (ctr_block ctx))), ctr_nbytes ctx))"


section \<open>CBC-MAC\<close>

record SM4_CBC_MAC_CTX =
  mac_key :: SM4_KEY
  mac_iv :: bytes
  mac_ivlen :: nat

definition sm4_cbc_mac_init :: "bytes \<Rightarrow> SM4_CBC_MAC_CTX" where
  "sm4_cbc_mac_init key = \<lparr>mac_key = sm4_set_encrypt_key key, mac_iv = replicate 16 0, mac_ivlen = 0\<rparr>"

text \<open>
  The loop ends because \<^verbatim>\<open>ivlen\<close> is below 16 at its head; \<open>None\<close> would be a loop that
  makes no progress.
\<close>

partial_function (option) sm4_cbc_mac_update :: "SM4_CBC_MAC_CTX \<Rightarrow> bytes \<Rightarrow> SM4_CBC_MAC_CTX option" where
  "sm4_cbc_mac_update ctx data =
     (if length data = 0 then Some ctx
      else
        let ivleft = 16 - mac_ivlen ctx;
            len = (if length data < ivleft then length data else ivleft);
            iv = mem_write (mac_iv ctx) (mac_ivlen ctx)
              (gmssl_memxor (drop (mac_ivlen ctx) (mac_iv ctx)) data len);
            ivlen = mac_ivlen ctx + len;
            ctx = (if ivlen \<ge> 16 then ctx\<lparr>mac_iv := sm4_encrypt (mac_key ctx) iv, mac_ivlen := 0\<rparr>
                   else ctx\<lparr>mac_iv := iv, mac_ivlen := ivlen\<rparr>)
        in sm4_cbc_mac_update ctx (drop len data))"

definition sm4_cbc_mac_finish :: "SM4_CBC_MAC_CTX \<Rightarrow> bytes" where
  "sm4_cbc_mac_finish ctx =
     (if mac_ivlen ctx \<noteq> 0 then sm4_encrypt (mac_key ctx) (mac_iv ctx) else mac_iv ctx)"


section \<open>Streams of updates\<close>

text \<open>
  A sequence of updates: the last context and all the output, or the first error.
\<close>

primrec run_updates ::
    "('c \<Rightarrow> bytes \<Rightarrow> ('c \<times> bytes) c_result) \<Rightarrow> 'c \<Rightarrow> bytes list \<Rightarrow> ('c \<times> bytes) c_result" where
  "run_updates upd ctx [] = Inr (ctx, [])"
| "run_updates upd ctx (d # ds) =
     (case upd ctx d of Inl e \<Rightarrow> Inl e
      | Inr (ctx, out) \<Rightarrow>
        (case run_updates upd ctx ds of Inl e \<Rightarrow> Inl e
         | Inr (ctx, out') \<Rightarrow> Inr (ctx, out @ out')))"

text \<open>
  What a streaming cipher promises of its update: it succeeds, and the context goes
  on to stand for all input and output so far.
\<close>

locale stream_cipher =
  fixes upd :: "'c \<Rightarrow> bytes \<Rightarrow> ('c \<times> bytes) c_result"
    and stands :: "'c \<Rightarrow> bytes \<Rightarrow> bytes \<Rightarrow> bool"
  assumes upd_stands: "stands ctx m out \<Longrightarrow>
    \<exists>ctx' out'. upd ctx d = Inr (ctx', out') \<and> stands ctx' (m @ d) (out @ out')"
begin

lemma run_stands:
  "stands ctx m out \<Longrightarrow>
    \<exists>ctx' out'. run_updates upd ctx ds = Inr (ctx', out') \<and> stands ctx' (m @ concat ds) (out @ out')"
proof (induction ds arbitrary: ctx m out)
  case (Cons d ds)
  from upd_stands [OF Cons.prems] obtain ctx1 out1 where
    1: "upd ctx d = Inr (ctx1, out1)" "stands ctx1 (m @ d) (out @ out1)" by blast
  from Cons.IH [OF 1(2)] 1(1) show ?case by auto
qed simp

end


section \<open>Streaming CBC encryption\<close>

text \<open>
  The output so far, after the initial vector, as the chaining value of a block
  compressor: the context keeps its last 16 bytes.
\<close>

definition cbc_cb :: "SM4_KEY \<Rightarrow> bytes \<Rightarrow> bytes \<Rightarrow> nat \<Rightarrow> bytes" where
  "cbc_cb key st data n = st @ sm4_cbc_encrypt key (last16 st) data n"

definition cbc_comp :: "SM4_KEY \<Rightarrow> bytes \<Rightarrow> bytes \<Rightarrow> bytes" where
  "cbc_comp key st blk = st @ sm4_encrypt key (gmssl_memxor blk (last16 st) 16)"

interpretation cbc_md: md_compress 16 "cbc_comp key" "cbc_cb key" for key
  by unfold_locales
    (simp_all add: cbc_cb_def cbc_comp_def Let_def length_sm4_encrypt gmssl_memxor_def)

definition cbc_view :: "bytes \<Rightarrow> u64 \<Rightarrow> SM4_CBC_CTX \<Rightarrow> u8 md_ctx" where
  "cbc_view st nb ctx = \<lparr>state = st, nblocks = nb, block = cbc_block ctx, num = cbc_nbytes ctx\<rparr>"

definition cbc_holds :: "SM4_KEY \<Rightarrow> bytes \<Rightarrow> SM4_CBC_CTX \<Rightarrow> bytes \<Rightarrow> bytes \<Rightarrow> bool" where
  "cbc_holds key iv ctx m out \<longleftrightarrow>
     cbc_key ctx = key \<and> cbc_iv ctx = last16 (iv @ out) \<and> length iv = 16
     \<and> (\<exists>nb. cbc_md.holds key iv (cbc_view (iv @ out) nb ctx) m)"

lemma cbc_rest:
  assumes "length (cbc_block ctx) = 16" "cbc_iv ctx = last16 st" "16 \<le> length st"
  shows "\<exists>ctx' out nb'. sm4_cbc_encrypt_rest ctx inp = (ctx', out)
    \<and> cbc_view (st @ out) nb' ctx' = md_absorb 16 (cbc_cb (cbc_key ctx)) (cbc_view st nb ctx) inp
    \<and> cbc_key ctx' = cbc_key ctx \<and> cbc_iv ctx' = last16 (st @ out)"
proof (cases "length inp \<ge> 16")
  case True
  let ?q = "length inp div 16"
  let ?o = "sm4_cbc_encrypt (cbc_key ctx) (cbc_iv ctx) inp ?q"
  have "16 \<le> length ?o" using True by simp
  then have "last16 (st @ ?o) = drop (?q * 16 - 16) ?o"
    by (subst last16_append_long) (simp_all add: last16_def mult.commute)
  with True assms show ?thesis
    by (auto simp: sm4_cbc_encrypt_rest_def Let_def cbc_view_def md_absorb_def cbc_cb_def
        mult.commute minus_mult_div_eq_mod dest: mod_0_if_le)
next
  case False
  with assms show ?thesis
    by (auto simp: sm4_cbc_encrypt_rest_def Let_def cbc_view_def md_absorb_def cbc_cb_def)
qed

lemma cbc_update:
  assumes "cbc_holds key iv ctx m out"
  shows "\<exists>ctx' out'. sm4_cbc_encrypt_update ctx inp = Inr (ctx', out')
    \<and> cbc_holds key iv ctx' (m @ inp) (out @ out')"
proof -
  let ?st = "iv @ out" and ?left = "16 - cbc_nbytes ctx"
  from assms obtain nb where k: "cbc_key ctx = key" and i: "cbc_iv ctx = last16 ?st" and l: "length iv = 16"
    and h: "cbc_md.holds key iv (cbc_view ?st nb ctx) m" by (auto simp: cbc_holds_def)
  have n: "cbc_nbytes ctx < 16" and b: "length (cbc_block ctx) = 16"
    using cbc_md.holds_num [OF h] cbc_md.holds_block [OF h] by (simp_all add: cbc_view_def)
  have goal: ?thesis if "sm4_cbc_encrypt_update ctx inp = Inr (ctx', out')"
    "cbc_view (?st @ out') nb' ctx' = md_update 16 (cbc_cb key) (cbc_view ?st nb ctx) inp"
    "cbc_key ctx' = key" "cbc_iv ctx' = last16 (?st @ out')" for ctx' out' nb'
  proof -
    have "cbc_md.holds key iv (cbc_view (iv @ out @ out') nb' ctx') (m @ inp)"
      using cbc_md.update_holds [OF h, of inp] that(2) by simp
    with that(1,3,4) l show ?thesis by (auto simp: cbc_holds_def)
  qed
  consider "cbc_nbytes ctx = 0" | "cbc_nbytes ctx \<noteq> 0" "length inp < ?left"
    | "cbc_nbytes ctx \<noteq> 0" "?left \<le> length inp" by linarith
  then show ?thesis
  proof cases
    case 1
    from cbc_rest [OF b i, where nb = nb and inp = inp] l obtain ctx' out' nb' where
      "sm4_cbc_encrypt_rest ctx inp = (ctx', out')"
      "cbc_view (?st @ out') nb' ctx' = md_absorb 16 (cbc_cb key) (cbc_view ?st nb ctx) inp"
      "cbc_key ctx' = key" "cbc_iv ctx' = last16 (?st @ out')" by (auto simp: k)
    with 1 show ?thesis
      by (intro goal) (simp_all add: sm4_cbc_encrypt_update_def md_update_def cbc_view_def)
  next
    case 2
    with n k i show ?thesis
      by (intro goal [where out' = "[]" and nb' = nb
            and ctx' = "ctx\<lparr>cbc_block := mem_write (cbc_block ctx) (cbc_nbytes ctx) inp,
              cbc_nbytes := cbc_nbytes ctx + length inp\<rparr>"])
        (simp_all add: sm4_cbc_encrypt_update_def md_update_def cbc_view_def Let_def)
  next
    case 3
    let ?blk = "mem_write (cbc_block ctx) (cbc_nbytes ctx) (take ?left inp)"
    let ?o = "sm4_cbc_encrypt key (cbc_iv ctx) ?blk 1"
    let ?ctx = "ctx\<lparr>cbc_block := ?blk, cbc_iv := ?o\<rparr>"
    have "length ?blk = 16" using 3 b n by (simp add: length_mem_write)
    then have b': "length (cbc_block ?ctx) = 16" by simp
    have lo: "length ?o = 16" using length_sm4_cbc_encrypt [of key "cbc_iv ctx" ?blk 1] by simp
    have i': "cbc_iv ?ctx = last16 (?st @ ?o)"
      using last16_append [OF lo, of ?st] by (simp del: append_assoc last16_append sm4_cbc_encrypt.simps)
    from cbc_rest [OF b' i', where nb = "nb + 1" and inp = "drop ?left inp"] l obtain ctx' out' nb' where
      r: "sm4_cbc_encrypt_rest ?ctx (drop ?left inp) = (ctx', out')"
      "cbc_view ((?st @ ?o) @ out') nb' ctx'
        = md_absorb 16 (cbc_cb key) (cbc_view (?st @ ?o) (nb + 1) ?ctx) (drop ?left inp)"
      "cbc_key ctx' = key" "cbc_iv ctx' = last16 ((?st @ ?o) @ out')" by (auto simp: k)
    have "sm4_cbc_encrypt_update ctx inp = Inr (ctx', ?o @ out')"
      using 3 n r(1) k by (simp add: sm4_cbc_encrypt_update_def Let_def del: sm4_cbc_encrypt.simps)
    moreover have "cbc_view (?st @ ?o @ out') nb' ctx' = md_update 16 (cbc_cb key) (cbc_view ?st nb ctx) inp"
      using 3 r(2) i by (simp add: md_update_def cbc_view_def Let_def cbc_cb_def del: sm4_cbc_encrypt.simps)
    ultimately show ?thesis using r(3,4) by (intro goal) simp_all
  qed
qed


interpretation cbc_enc: stream_cipher sm4_cbc_encrypt_update "cbc_holds key iv" for key iv
  by unfold_locales (rule cbc_update)

lemma cbc_pad_rest: "drop (16 * (length m div 16)) (cbc_pad m) = cbc_pad (rest_part 16 m)"
  by (simp add: cbc_pad_def rest_part_def full_len_def minus_mult_div_eq_mod)

lemma cbc_finish:
  assumes "cbc_holds key iv ctx m out"
  shows "\<exists>fin n. sm4_cbc_encrypt_finish ctx = Inr (fin, n)
    \<and> out @ fin = fst (sm4_cbc_padding_encrypt key iv m) \<and> n = length fin"
proof -
  let ?q = "length m div 16" and ?iv = "last16 (iv @ out)"
  from assms obtain nb where k: "cbc_key ctx = key" and i: "cbc_iv ctx = ?iv" and l: "length iv = 16"
    and h: "cbc_md.holds key iv (cbc_view (iv @ out) nb ctx) m" by (auto simp: cbc_holds_def)
  have out: "out = sm4_cbc_encrypt key iv m ?q"
    using cbc_md.holdsD(1) [OF h] l by (simp add: cbc_view_def cbc_md.hash_blocks_def cbc_cb_def)
  have n: "cbc_nbytes ctx < 16" and r: "take (cbc_nbytes ctx) (cbc_block ctx) = rest_part 16 m"
    using cbc_md.holds_num [OF h] cbc_md.holdsD(5) [OF h] by (simp_all add: cbc_view_def)
  have li: "length ?iv = 16" using l by (simp add: length_last16)
  have small: "length (rest_part 16 m) div 16 = 0" by (simp add: length_rest_part)
  have pre: "sm4_cbc_encrypt key iv (cbc_pad m) ?q = out"
    using sm4_cbc_encrypt_take [of ?q "length m" key iv "cbc_pad m"] by (simp add: cbc_pad_def out)
  have "sm4_cbc_encrypt key iv (cbc_pad m) (?q + 1) = out @ sm4_cbc_encrypt key ?iv (cbc_pad (rest_part 16 m)) 1"
    unfolding sm4_cbc_encrypt_add [OF l] pre cbc_pad_rest ..
  then show ?thesis
    using n k i by (simp add: sm4_cbc_encrypt_finish_def r sm4_cbc_padding_encrypt_eq [OF li]
        sm4_cbc_padding_encrypt_eq [OF l] small length_sm4_encrypt Let_def)
qed

lemma cbc_holds_init:
  "length iv = 16 \<Longrightarrow> cbc_holds (sm4_set_encrypt_key k) iv (sm4_cbc_encrypt_init k iv) [] []"
  by (auto simp: cbc_holds_def sm4_cbc_encrypt_init_def cbc_view_def intro!: exI [of _ 0] cbc_md.holds_init)


section \<open>Streaming counter mode\<close>

text \<open>The chaining value is the counter followed by the output so far.\<close>

definition ctr_comp :: "SM4_KEY \<Rightarrow> bytes \<Rightarrow> bytes \<Rightarrow> bytes" where
  "ctr_comp key st blk =
     ctr_incr (take 16 st) @ drop 16 st @ gmssl_memxor blk (sm4_encrypt key (take 16 st)) 16"

primrec ctr_cb :: "SM4_KEY \<Rightarrow> bytes \<Rightarrow> bytes \<Rightarrow> nat \<Rightarrow> bytes" where
  "ctr_cb key st data 0 = st"
| "ctr_cb key st data (Suc n) = ctr_cb key (ctr_comp key st data) (drop 16 data) n"

interpretation ctr_md: md_compress 16 "ctr_comp key" "ctr_cb key" for key
  by unfold_locales (simp_all add: ctr_comp_def gmssl_memxor_def)

lemma length_funpow_ctr_incr [simp]: "length ((ctr_incr ^^ n) c) = length c"
  by (induction n) simp_all

lemma stream_xor_append:
  "length a = 16 * n \<Longrightarrow> stream_xor key c (a @ b) = stream_xor key c a @ stream_xor key ((ctr_incr ^^ n) c) b"
proof (induction n arbitrary: a c)
  case (Suc n)
  have "drop 16 (a @ b) = drop 16 a @ b" "take 16 (a @ b) = take 16 a" using Suc.prems by simp_all
  with Suc.IH [of "drop 16 a" "ctr_incr c"] Suc.prems show ?case
    by (simp add: stream_xor_long [of "a @ b"] stream_xor_long [of a] funpow_swap1)
qed simp

lemma ctr_cb_eq:
  "length c = 16 \<Longrightarrow> 16 * n \<le> length data \<Longrightarrow>
    ctr_cb key (c @ out) data n = (ctr_incr ^^ n) c @ out @ stream_xor key c (take (16 * n) data)"
proof (induction n arbitrary: c out data)
  case (Suc n)
  let ?x = "gmssl_memxor data (sm4_encrypt key c) 16"
  have "take (16 * Suc n) data = take 16 data @ take (16 * n) (drop 16 data)" by (simp add: take_add)
  then have "stream_xor key c (take (16 * Suc n) data) = ?x @ stream_xor key (ctr_incr c) (take (16 * n) (drop 16 data))"
    using Suc.prems stream_xor_append [of "take 16 data" 1 key c "take (16 * n) (drop 16 data)"]
      stream_xor_long [of "take 16 data" key c]
    by (simp add: gmssl_memxor_def length_sm4_encrypt)
  with Suc.IH [of "ctr_incr c" "drop 16 data" "out @ ?x"] Suc.prems show ?case
    by (simp add: ctr_comp_def funpow_swap1)
qed simp

definition ctr_view :: "bytes \<Rightarrow> u64 \<Rightarrow> SM4_CTR_CTX \<Rightarrow> u8 md_ctx" where
  "ctr_view out nb ctx = \<lparr>state = ctr_ctr ctx @ out, nblocks = nb, block = ctr_block ctx, num = ctr_nbytes ctx\<rparr>"

definition ctr_holds :: "SM4_KEY \<Rightarrow> bytes \<Rightarrow> SM4_CTR_CTX \<Rightarrow> bytes \<Rightarrow> bytes \<Rightarrow> bool" where
  "ctr_holds key c0 ctx m out \<longleftrightarrow>
     ctr_key ctx = key \<and> length (ctr_ctr ctx) = 16 \<and> length c0 = 16
     \<and> (\<exists>nb. ctr_md.holds key c0 (ctr_view out nb ctx) m)"

lemma ctr_rest:
  assumes "length (ctr_block ctx) = 16" "length (ctr_ctr ctx) = 16"
  shows "\<exists>ctx' out' nb'. sm4_ctr_encrypt_rest ctx inp = (ctx', out')
    \<and> ctr_view (out @ out') nb' ctx' = md_absorb 16 (ctr_cb (ctr_key ctx)) (ctr_view out nb ctx) inp
    \<and> ctr_key ctx' = ctr_key ctx \<and> length (ctr_ctr ctx') = 16"
proof (cases "length inp \<ge> 16")
  case True
  let ?q = "length inp div 16"
  have q: "length (take (?q * 16) inp) = 16 * ?q" by (simp add: mult.commute)
  have "(16 * ?q + 15) div 16 = ?q" by simp
  then have "sm4_ctr_encrypt (ctr_key ctx) (ctr_ctr ctx) (take (?q * 16) inp)
      = ((ctr_incr ^^ ?q) (ctr_ctr ctx), stream_xor (ctr_key ctx) (ctr_ctr ctx) (take (16 * ?q) inp))"
    unfolding sm4_ctr_encrypt_eq q by (simp add: mult.commute)
  with True assms show ?thesis
    by (auto simp: sm4_ctr_encrypt_rest_def Let_def ctr_view_def md_absorb_def ctr_cb_eq
        mult.commute minus_mult_div_eq_mod dest: mod_0_if_le)
next
  case False
  with assms show ?thesis
    by (auto simp: sm4_ctr_encrypt_rest_def Let_def ctr_view_def md_absorb_def)
qed

lemma ctr_update:
  assumes "ctr_holds key c0 ctx m out"
  shows "\<exists>ctx' out'. sm4_ctr_encrypt_update ctx inp = Inr (ctx', out')
    \<and> ctr_holds key c0 ctx' (m @ inp) (out @ out')"
proof -
  let ?left = "16 - ctr_nbytes ctx"
  from assms obtain nb where k: "ctr_key ctx = key" and c: "length (ctr_ctr ctx) = 16" and l: "length c0 = 16"
    and h: "ctr_md.holds key c0 (ctr_view out nb ctx) m" by (auto simp: ctr_holds_def)
  have n: "ctr_nbytes ctx < 16" and b: "length (ctr_block ctx) = 16"
    using ctr_md.holds_num [OF h] ctr_md.holds_block [OF h] by (simp_all add: ctr_view_def)
  have goal: ?thesis if "sm4_ctr_encrypt_update ctx inp = Inr (ctx', out')"
    "ctr_view (out @ out') nb' ctx' = md_update 16 (ctr_cb key) (ctr_view out nb ctx) inp"
    "ctr_key ctx' = key" "length (ctr_ctr ctx') = 16" for ctx' out' nb'
  proof -
    have "ctr_md.holds key c0 (ctr_view (out @ out') nb' ctx') (m @ inp)"
      using ctr_md.update_holds [OF h, of inp] that(2) by simp
    with that(1,3,4) l show ?thesis by (auto simp: ctr_holds_def)
  qed
  consider "ctr_nbytes ctx = 0" | "ctr_nbytes ctx \<noteq> 0" "length inp < ?left"
    | "ctr_nbytes ctx \<noteq> 0" "?left \<le> length inp" by linarith
  then show ?thesis
  proof cases
    case 1
    from ctr_rest [OF b c, of inp out nb] obtain ctx' out' nb' where
      "sm4_ctr_encrypt_rest ctx inp = (ctx', out')"
      "ctr_view (out @ out') nb' ctx' = md_absorb 16 (ctr_cb key) (ctr_view out nb ctx) inp"
      "ctr_key ctx' = key" "length (ctr_ctr ctx') = 16" by (auto simp: k)
    with 1 show ?thesis
      by (intro goal) (simp_all add: sm4_ctr_encrypt_update_def md_update_def ctr_view_def)
  next
    case 2
    with n k c show ?thesis
      by (intro goal [where out' = "[]" and nb' = nb
            and ctx' = "ctx\<lparr>ctr_block := mem_write (ctr_block ctx) (ctr_nbytes ctx) inp,
              ctr_nbytes := ctr_nbytes ctx + length inp\<rparr>"])
        (simp_all add: sm4_ctr_encrypt_update_def md_update_def ctr_view_def Let_def)
  next
    case 3
    let ?blk = "mem_write (ctr_block ctx) (ctr_nbytes ctx) (take ?left inp)"
    let ?c = "ctr_incr (ctr_ctr ctx)" and ?o = "stream_xor key (ctr_ctr ctx) ?blk"
    let ?ctx = "ctx\<lparr>ctr_block := ?blk, ctr_ctr := ?c\<rparr>"
    have lb: "length ?blk = 16" using 3 b n by (simp add: length_mem_write)
    have e: "sm4_ctr_encrypt key (ctr_ctr ctx) ?blk = (?c, ?o)" by (simp add: sm4_ctr_encrypt_eq lb)
    have "length (ctr_block ?ctx) = 16" "length (ctr_ctr ?ctx) = 16" using lb c by simp_all
    from ctr_rest [OF this, of "drop ?left inp" "out @ ?o" "nb + 1"] obtain ctx' out' nb' where
      r: "sm4_ctr_encrypt_rest ?ctx (drop ?left inp) = (ctx', out')"
      "ctr_view ((out @ ?o) @ out') nb' ctx'
        = md_absorb 16 (ctr_cb key) (ctr_view (out @ ?o) (nb + 1) ?ctx) (drop ?left inp)"
      "ctr_key ctx' = key" "length (ctr_ctr ctx') = 16" by (auto simp: k)
    have "sm4_ctr_encrypt_update ctx inp = Inr (ctx', ?o @ out')"
      using 3 n r(1) k e lb by (simp add: sm4_ctr_encrypt_update_def Let_def)
    moreover have "ctr_view (out @ ?o @ out') nb' ctx' = md_update 16 (ctr_cb key) (ctr_view out nb ctx) inp"
      using 3 r(2) c lb ctr_cb_eq [OF c, of 1 ?blk key out]
      by (simp add: md_update_def ctr_view_def Let_def)
    ultimately show ?thesis using r(3,4) by (intro goal) simp_all
  qed
qed

interpretation ctr_enc: stream_cipher sm4_ctr_encrypt_update "ctr_holds key c0" for key c0
  by unfold_locales (rule ctr_update)

lemma ctr_finish:
  assumes "ctr_holds key c0 ctx m out"
  shows "\<exists>fin n. sm4_ctr_encrypt_finish ctx = Inr (fin, n)
    \<and> out @ fin = snd (sm4_ctr_encrypt key c0 m) \<and> n = length fin"
proof -
  let ?q = "length m div 16"
  from assms obtain nb where k: "ctr_key ctx = key" and c: "length (ctr_ctr ctx) = 16" and l: "length c0 = 16"
    and h: "ctr_md.holds key c0 (ctr_view out nb ctx) m" by (auto simp: ctr_holds_def)
  have "ctr_ctr ctx @ out = (ctr_incr ^^ ?q) c0 @ stream_xor key c0 (take (16 * ?q) m)"
    using ctr_md.holdsD(1) [OF h] ctr_cb_eq [OF l, of ?q m key "[]"]
    by (simp add: ctr_view_def ctr_md.hash_blocks_def)
  then have cc: "ctr_ctr ctx = (ctr_incr ^^ ?q) c0" and out: "out = stream_xor key c0 (take (16 * ?q) m)"
    using c l by simp_all
  have n: "ctr_nbytes ctx < 16" "ctr_nbytes ctx = length m mod 16"
    and r: "take (ctr_nbytes ctx) (ctr_block ctx) = drop (16 * ?q) m"
    using ctr_md.holds_num [OF h] ctr_md.holdsD(3,5) [OF h]
    by (simp_all add: ctr_view_def rest_part_def full_len_def)
  have "stream_xor key c0 m = out @ stream_xor key ((ctr_incr ^^ ?q) c0) (drop (16 * ?q) m)"
    using stream_xor_append [of "take (16 * ?q) m" ?q key c0 "drop (16 * ?q) m"] by (simp add: out)
  moreover have "sm4_ctr_encrypt_finish ctx
      = Inr (stream_xor key ((ctr_incr ^^ ?q) c0) (drop (16 * ?q) m), ctr_nbytes ctx)"
    using n(1) unfolding sm4_ctr_encrypt_finish_def r k cc sm4_ctr_encrypt_eq by (simp add: not_le)
  moreover have "length (drop (16 * ?q) m) = ctr_nbytes ctx"
    using n(2) by (simp add: minus_mult_div_eq_mod)
  ultimately show ?thesis by (simp add: sm4_ctr_encrypt_eq)
qed

lemma ctr_holds_init:
  "length c = 16 \<Longrightarrow> ctr_holds (sm4_set_encrypt_key k) c (sm4_ctr_encrypt_init k c) [] []"
  by (auto simp: ctr_holds_def sm4_ctr_encrypt_init_def ctr_view_def intro!: exI [of _ 0] ctr_md.holds_init)


section \<open>Streaming CBC decryption\<close>

text \<open>
  Decryption holds the last block back, because it may be the padded one: the input
  is whole blocks that have been decrypted and a non-empty rest of at most one block.
\<close>

definition dec_holds :: "SM4_KEY \<Rightarrow> bytes \<Rightarrow> SM4_CBC_CTX \<Rightarrow> bytes \<Rightarrow> bytes \<Rightarrow> bool" where
  "dec_holds key iv ctx m out \<longleftrightarrow>
     cbc_key ctx = key \<and> length iv = 16 \<and> length (cbc_block ctx) = 16 \<and> cbc_nbytes ctx \<le> 16
     \<and> (\<exists>p q. m = p @ take (cbc_nbytes ctx) (cbc_block ctx) \<and> length p = 16 * q
          \<and> out = sm4_cbc_decrypt key iv p q \<and> cbc_iv ctx = last16 (iv @ p)
          \<and> (cbc_nbytes ctx = 0 \<longrightarrow> p = []))"

lemma dec_holdsI:
  assumes "cbc_key ctx = key" "length iv = 16" "length (cbc_block ctx) = 16" "cbc_nbytes ctx \<le> 16"
    "m = p @ take (cbc_nbytes ctx) (cbc_block ctx)" "length p = 16 * q"
    "out = sm4_cbc_decrypt key iv p q" "cbc_iv ctx = last16 (iv @ p)" "cbc_nbytes ctx = 0 \<longrightarrow> p = []"
  shows "dec_holds key iv ctx m out"
  unfolding dec_holds_def by (intro conjI exI [of _ p] exI [of _ q]) (rule assms)+

lemma last16_take: "0 < q \<Longrightarrow> length p = 16 * q \<Longrightarrow> last16 (iv @ p) = take 16 (drop (q * 16 - 16) p)"
  by (subst last16_append_long) (simp_all add: last16_def mult.commute)

lemma sm4_cbc_decrypt_append:
  assumes "length iv = 16" "length p = 16 * q" "length x = 16 * n"
  shows "sm4_cbc_decrypt key iv (p @ x) (q + n)
    = sm4_cbc_decrypt key iv p q @ sm4_cbc_decrypt key (last16 (iv @ p)) x n"
  using assms sm4_cbc_decrypt_add [of iv q "p @ x" key n] sm4_cbc_decrypt_take [of q "16 * q" key iv "p @ x"]
  by simp

lemma dec_rest:
  assumes "cbc_key ctx = key" "length iv = 16" "length (cbc_block ctx) = 16"
    "length p = 16 * q" "cbc_iv ctx = last16 (iv @ p)" "inp = [] \<longrightarrow> p = []"
  shows "\<exists>ctx' out'. sm4_cbc_decrypt_rest ctx inp = (ctx', out')
    \<and> dec_holds key iv ctx' (p @ inp) (sm4_cbc_decrypt key iv p q @ out')"
proof (cases "length inp > 16")
  case True
  let ?n = "(length inp - 1) div 16"
  let ?x = "take (?n * 16) inp" and ?r = "drop (?n * 16) inp"
  let ?o = "sm4_cbc_decrypt key (cbc_iv ctx) inp ?n"
  have n: "0 < ?n" using True by (simp add: div_greater_zero_iff)
  have le: "?n * 16 \<le> length inp - 1" by simp
  have lt: "length inp - 1 < ?n * 16 + 16" using dividend_less_times_div [of 16 "length inp - 1"] by simp
  have lx: "length ?x = 16 * ?n" using le by simp
  have lr: "0 < length ?r" "length ?r \<le> 16" using True le lt by simp_all
  have iv: "last16 (iv @ p @ ?x) = take 16 (drop (?n * 16 - 16) inp)"
  proof -
    have "last16 ((iv @ p) @ ?x) = take 16 (drop (?n * 16 - 16) ?x)" using n lx by (rule last16_take)
    then show ?thesis using n by (simp add: drop_take min_def)
  qed
  have o: "sm4_cbc_decrypt key iv (p @ ?x) (q + ?n) = sm4_cbc_decrypt key iv p q @ ?o"
    using sm4_cbc_decrypt_append [OF assms(2,4) lx] assms(5) sm4_cbc_decrypt_take [of ?n "?n * 16"] by simp
  let ?ctx = "ctx\<lparr>cbc_iv := take 16 (drop (?n * 16 - 16) inp), cbc_block := mem_write (cbc_block ctx) 0 ?r,
    cbc_nbytes := length ?r\<rparr>"
  have "sm4_cbc_decrypt_rest ctx inp = (?ctx, ?o)"
    using True assms(1) by (simp add: sm4_cbc_decrypt_rest_def Let_def)
  moreover have "dec_holds key iv ?ctx (p @ inp) (sm4_cbc_decrypt key iv p q @ ?o)"
    using assms lx lr iv o
    by (intro dec_holdsI [where p = "p @ ?x" and q = "q + ?n"])
      (simp_all add: mem_write_def)
  ultimately show ?thesis by blast
next
  case False
  let ?ctx = "ctx\<lparr>cbc_block := mem_write (cbc_block ctx) 0 inp, cbc_nbytes := length inp\<rparr>"
  have "sm4_cbc_decrypt_rest ctx inp = (?ctx, [])"
    using False by (simp add: sm4_cbc_decrypt_rest_def Let_def)
  moreover have "dec_holds key iv ?ctx (p @ inp) (sm4_cbc_decrypt key iv p q @ [])"
    using assms False
    by (intro dec_holdsI [where p = p and q = q]) (simp_all add: mem_write_def)
  ultimately show ?thesis by blast
qed

lemma dec_update:
  assumes "dec_holds key iv ctx m out"
  shows "\<exists>ctx' out'. sm4_cbc_decrypt_update ctx inp = Inr (ctx', out')
    \<and> dec_holds key iv ctx' (m @ inp) (out @ out')"
proof -
  let ?n = "cbc_nbytes ctx" and ?left = "16 - cbc_nbytes ctx"
  from assms obtain p q where
    k: "cbc_key ctx = key" "length iv = 16" "length (cbc_block ctx) = 16" "?n \<le> 16"
    and m: "m = p @ take ?n (cbc_block ctx)" "length p = 16 * q" "out = sm4_cbc_decrypt key iv p q"
      "cbc_iv ctx = last16 (iv @ p)" "?n = 0 \<longrightarrow> p = []" by (auto simp: dec_holds_def)
  consider "?n = 0" | "?n \<noteq> 0" "length inp \<le> ?left" | "?n \<noteq> 0" "?left < length inp" by linarith
  then show ?thesis
  proof cases
    case 1
    from dec_rest [OF k(1-3) m(2,4), of inp] 1 m(5) show ?thesis
      by (simp add: sm4_cbc_decrypt_update_def m(1,3))
  next
    case 2
    let ?ctx = "ctx\<lparr>cbc_block := mem_write (cbc_block ctx) ?n inp, cbc_nbytes := ?n + length inp\<rparr>"
    have "sm4_cbc_decrypt_update ctx inp = Inr (?ctx, [])"
      using 2 k(4) by (simp add: sm4_cbc_decrypt_update_def Let_def)
    moreover have "dec_holds key iv ?ctx (m @ inp) (out @ [])"
      using 2 k m by (intro dec_holdsI [where p = p and q = q]) (simp_all add: mem_write_def)
    ultimately show ?thesis by blast
  next
    case 3
    let ?blk = "mem_write (cbc_block ctx) ?n (take ?left inp)"
    let ?o = "sm4_cbc_decrypt key (cbc_iv ctx) ?blk 1"
    let ?ctx = "ctx\<lparr>cbc_block := ?blk, cbc_iv := ?blk\<rparr>"
    have blk: "?blk = take ?n (cbc_block ctx) @ take ?left inp" and lb: "length ?blk = 16"
      using 3 k(3,4) by (simp_all add: mem_write_def)
    have "length (p @ ?blk) = 16 * (q + 1)" using lb m(2) by simp
    moreover have "cbc_iv ?ctx = last16 (iv @ p @ ?blk)"
      using last16_append [OF lb, of "iv @ p"] by simp
    moreover have "drop ?left inp = [] \<longrightarrow> p @ ?blk = []" using 3 by simp
    ultimately obtain ctx' out' where
      r: "sm4_cbc_decrypt_rest ?ctx (drop ?left inp) = (ctx', out')"
      "dec_holds key iv ctx' ((p @ ?blk) @ drop ?left inp) (sm4_cbc_decrypt key iv (p @ ?blk) (q + 1) @ out')"
      using dec_rest [of ?ctx key iv "p @ ?blk" "q + 1" "drop ?left inp"] k lb by auto
    have "sm4_cbc_decrypt_update ctx inp = Inr (ctx', ?o @ out')"
      using 3 k r(1) by (simp add: sm4_cbc_decrypt_update_def Let_def del: sm4_cbc_decrypt.simps)
    moreover have "sm4_cbc_decrypt key iv (p @ ?blk) (q + 1) = out @ ?o"
      using sm4_cbc_decrypt_append [OF k(2) m(2), of ?blk 1] lb m(3,4) by simp
    moreover have "(p @ ?blk) @ drop ?left inp = m @ inp" by (simp add: blk m(1))
    ultimately show ?thesis using r(2) by (metis append_assoc)
  qed
qed

interpretation cbc_dec: stream_cipher sm4_cbc_decrypt_update "dec_holds key iv" for key iv
  by unfold_locales (rule dec_update)

lemma dec_holds_init:
  "length iv = 16 \<Longrightarrow> dec_holds (sm4_set_decrypt_key k) iv (sm4_cbc_decrypt_init k iv) [] []"
  by (intro dec_holdsI [where p = "[]" and q = 0]) (simp_all add: sm4_cbc_decrypt_init_def)

text \<open>Finishing gives what the one-call decryption gives, up to the code of the failure.\<close>

lemma dec_finish:
  assumes "dec_holds key iv ctx m out"
  shows "case sm4_cbc_padding_decrypt key iv m of
      Inl _ \<Rightarrow> sm4_cbc_decrypt_finish ctx = Inl (-1)
    | Inr (pt, n) \<Rightarrow> \<exists>fin k. sm4_cbc_decrypt_finish ctx = Inr (fin, k) \<and> out @ fin = pt \<and> length out + k = n"
proof -
  let ?n = "cbc_nbytes ctx" and ?b = "cbc_block ctx"
  from assms obtain p q where
    k: "cbc_key ctx = key" "length iv = 16" "length ?b = 16" "?n \<le> 16"
    and m: "m = p @ take ?n ?b" "length p = 16 * q" "out = sm4_cbc_decrypt key iv p q"
      "cbc_iv ctx = last16 (iv @ p)" "?n = 0 \<longrightarrow> p = []" by (auto simp: dec_holds_def)
  show ?thesis
  proof (cases "?n = 16")
    case False
    then have "length m mod 16 = ?n" using m(1,2) k by simp
    moreover have "m = [] \<or> ?n \<noteq> 0" using m(1,5) by auto
    ultimately have "m = [] \<or> length m mod 16 \<noteq> 0" by simp
    then have "sm4_cbc_padding_decrypt key iv m = Inl 0 \<or> sm4_cbc_padding_decrypt key iv m = Inl (-1)"
      by (auto simp: sm4_cbc_padding_decrypt_def Let_def)
    with False show ?thesis by (auto simp: sm4_cbc_decrypt_finish_def)
  next
    case True
    define pt where "pt = sm4_cbc_decrypt key (cbc_iv ctx) ?b 1"
    have lm: "length m = 16 * Suc q" using True k m by simp
    have D: "sm4_cbc_decrypt key iv m (Suc q) = out @ pt"
      unfolding pt_def using sm4_cbc_decrypt_append [OF k(2) m(2), of ?b 1] k(3) True m by simp
    have li: "length (cbc_iv ctx) = 16" using k(2) m(4) by (simp add: length_last16)
    have lo: "length out = 16 * q" using k(2) m by simp
    have nth: "(out @ pt) ! (16 * q + 15) = pt ! 15" using lo by (simp add: nth_append)
    have fin: "sm4_cbc_padding_decrypt key (cbc_iv ctx) ?b =
        (let p = unat (pt ! 15) in if p < 1 \<or> p > 16 then Inl (-1) else Inr (take (16 - p) pt, 16 - p))"
      unfolding pt_def One_nat_def using sm4_cbc_padding_decrypt_eq [OF li, of ?b 0 key] k(3)
      by (simp add: Let_def del: sm4_cbc_decrypt.simps)
    show ?thesis
    proof (cases "unat (pt ! 15) < 1 \<or> unat (pt ! 15) > 16")
      case bad: True
      then show ?thesis
        unfolding sm4_cbc_padding_decrypt_eq [OF k(2) lm] D Let_def nth
        using True k(1) fin by (simp add: sm4_cbc_decrypt_finish_def)
    next
      case good: False
      let ?p = "unat (pt ! 15)"
      have "16 * Suc q = length out + 16" "?p \<le> 16" using good lo by simp_all
      then have e: "16 * Suc q - ?p = length out + (16 - ?p)" by (simp only: diff_add_assoc)
      have t: "take (length out + (16 - ?p)) (out @ pt) = out @ take (16 - ?p) pt"
        by (simp only: take_append) simp
      have "sm4_cbc_padding_decrypt key iv m = Inr (out @ take (16 - ?p) pt, length out + (16 - ?p))"
        unfolding sm4_cbc_padding_decrypt_eq [OF k(2) lm] D Let_def nth e t using good by simp
      moreover have "sm4_cbc_decrypt_finish ctx = Inr (take (16 - ?p) pt, 16 - ?p)"
        using True k(1) fin good by (simp add: sm4_cbc_decrypt_finish_def Let_def)
      ultimately show ?thesis by simp
    qed
  qed
qed


section \<open>CBC-MAC\<close>

definition cbc_mac_step :: "SM4_KEY \<Rightarrow> bytes \<Rightarrow> bytes \<Rightarrow> bytes" where
  "cbc_mac_step key iv blk = sm4_encrypt key (map2 (XOR) iv blk)"

definition cbc_mac_full :: "SM4_KEY \<Rightarrow> bytes \<Rightarrow> bytes" where
  "cbc_mac_full key m = foldl (cbc_mac_step key) (replicate 16 0) (chunks 16 m)"

definition mac_holds :: "SM4_KEY \<Rightarrow> SM4_CBC_MAC_CTX \<Rightarrow> bytes \<Rightarrow> bool" where
  "mac_holds key ctx m \<longleftrightarrow>
     mac_key ctx = key \<and> mac_ivlen ctx = length m mod 16
     \<and> mac_iv ctx = map2 (XOR) (cbc_mac_full key (full_part 16 m))
         (rest_part 16 m @ replicate (16 - length m mod 16) 0)"

lemma length_cbc_mac_full [simp]: "length (cbc_mac_full key m) = 16"
proof -
  have "length iv = 16 \<Longrightarrow> length (foldl (cbc_mac_step key) iv bs) = 16" for iv bs
    by (induction bs arbitrary: iv) (simp_all add: cbc_mac_step_def length_sm4_encrypt)
  then show ?thesis by (simp add: cbc_mac_full_def)
qed

lemma map2_xor_zeros: "length a = n \<Longrightarrow> map2 (XOR) a (replicate n 0) = (a :: bytes)"
  by (induction a arbitrary: n) auto

lemma map2_xor_assoc:
  "map2 (XOR) (map2 (XOR) a b) c = map2 (XOR) (a :: bytes) (map2 (XOR) b c)"
proof (induction a arbitrary: b c)
  case (Cons x a)
  then show ?case by (cases b; cases c) (simp_all add: xor.assoc)
qed simp

text \<open>Xor-ing \<open>x\<close> in at place \<open>n\<close>, after \<open>r\<close> has been xor-ed in before it.\<close>

lemma xor_in_place_parts:
  assumes "length i1 = length r" "length i2 = length x" "length i3 = k"
  shows "mem_write (map2 (XOR) (i1 @ i2 @ i3) (r @ replicate (length x + k) 0)) (length r)
      (gmssl_memxor (drop (length r) (map2 (XOR) (i1 @ i2 @ i3) (r @ replicate (length x + k) 0))) (x @ y) (length x))
    = map2 (XOR) (i1 @ i2 @ i3) ((r @ x) @ replicate k (0::u8))"
proof -
  have "map2 (XOR) (i1 @ i2 @ i3) (r @ replicate (length x + k) 0) = map2 (XOR) i1 r @ i2 @ i3"
    using assms by (simp add: replicate_add map2_xor_zeros)
  moreover have "map2 (XOR) (i1 @ i2 @ i3) ((r @ x) @ replicate k 0) = map2 (XOR) i1 r @ map2 (XOR) i2 x @ i3"
    using assms by (simp add: map2_xor_zeros)
  ultimately show ?thesis using assms by (simp add: mem_write_def gmssl_memxor_def)
qed

lemma xor_in_place:
  assumes "length iv = 16" "length r + length x \<le> 16"
  shows "mem_write (map2 (XOR) iv (r @ replicate (16 - length r) 0)) (length r)
      (gmssl_memxor (drop (length r) (map2 (XOR) iv (r @ replicate (16 - length r) 0))) (x @ y) (length x))
    = map2 (XOR) iv ((r @ x) @ replicate (16 - (length r + length x)) 0)"
proof -
  have iv: "take (length r) iv @ take (length x) (drop (length r) iv) @ drop (length r + length x) iv = iv"
    by (metis append_take_drop_id drop_drop add.commute)
  have "16 - length r = length x + (16 - (length r + length x))" using assms(2) by simp
  then show ?thesis
    using assms xor_in_place_parts [of "take (length r) iv" r "take (length x) (drop (length r) iv)" x
        "drop (length r + length x) iv" "16 - (length r + length x)" y]
    unfolding iv by simp
qed

lemma full_part_append_short:
  "length (rest_part n m @ x) < n \<Longrightarrow> full_part n (m @ x) = full_part n m \<and> rest_part n (m @ x) = rest_part n m @ x"
proof -
  assume lt: "length (rest_part n m @ x) < n"
  have "length (m @ x) div n = length m div n"
  proof -
    have e: "length (m @ x) = length (rest_part n m @ x) + n * (length m div n)"
      by (simp add: length_rest_part)
    have "(r + n * q) div n = q" if "r < n" for r q using that by simp
    from this [OF lt] show ?thesis unfolding e .
  qed
  then show ?thesis
    by (simp add: full_part_def rest_part_def full_len_def)
qed

lemma full_part_append_exact:
  assumes "length (rest_part n m @ x) = n" "0 < n"
  shows "full_part n (m @ x) = m @ x" "rest_part n (m @ x) = []" "length (m @ x) mod n = 0"
proof -
  have l: "length (m @ x) = n * (length m div n + 1)"
  proof -
    have "length (m @ x) = n * (length m div n) + (length m mod n + length x)" by simp
    also have "length m mod n + length x = n" using assms(1) by (simp add: length_rest_part)
    finally show ?thesis by simp
  qed
  then have "full_len n (m @ x) = length (m @ x)" using assms(2) by (simp add: full_len_def)
  then show "full_part n (m @ x) = m @ x" "rest_part n (m @ x) = []"
    by (simp_all add: full_part_def rest_part_def)
  show "length (m @ x) mod n = 0" using l by simp
qed

lemma mac_step:
  assumes h: "mac_holds key ctx m" and x: "x \<noteq> []" "mac_ivlen ctx + length x \<le> 16"
  shows "mac_holds key
    (let iv = mem_write (mac_iv ctx) (mac_ivlen ctx)
           (gmssl_memxor (drop (mac_ivlen ctx) (mac_iv ctx)) (x @ y) (length x));
         ivlen = mac_ivlen ctx + length x
     in if ivlen \<ge> 16 then ctx\<lparr>mac_iv := sm4_encrypt (mac_key ctx) iv, mac_ivlen := 0\<rparr>
        else ctx\<lparr>mac_iv := iv, mac_ivlen := ivlen\<rparr>) (m @ x)"
proof -
  let ?f = "full_part 16 m" and ?r = "rest_part 16 m"
  have k: "mac_key ctx = key" and n: "mac_ivlen ctx = length ?r"
    and iv: "mac_iv ctx = map2 (XOR) (cbc_mac_full key ?f) (?r @ replicate (16 - length ?r) 0)"
    using h by (simp_all add: mac_holds_def length_rest_part)
  have X: "mem_write (mac_iv ctx) (length ?r)
      (gmssl_memxor (drop (length ?r) (mac_iv ctx)) (x @ y) (length x))
    = map2 (XOR) (cbc_mac_full key ?f) ((?r @ x) @ replicate (16 - (length ?r + length x)) 0)"
    unfolding iv using x(2) n by (intro xor_in_place) simp_all
  show ?thesis
  proof (cases "length (?r @ x) < 16")
    case True
    note short = full_part_append_short [OF True]
    have lm: "length (m @ x) mod 16 = length ?r + length x"
      using length_rest_part [of 16 "m @ x"] short by simp
    show ?thesis
      using True short unfolding mac_holds_def Let_def n lm X by (simp add: k)
  next
    case False
    then have l: "length (?r @ x) = 16" using x(2) n by simp
    note full = full_part_append_exact [OF l]
    have dv: "16 dvd length ?f" by (simp add: length_full_part full_len_def)
    have "m @ x = ?f @ ?r @ x" by (simp flip: append_assoc)
    then have "chunks 16 (m @ x) = chunks 16 ?f @ [?r @ x]"
      using dv l by (simp only: chunks_dvd_append chunks_one zero_less_numeral)
    then have "cbc_mac_full key (m @ x) = sm4_encrypt key (map2 (XOR) (cbc_mac_full key ?f) (?r @ x))"
      by (simp add: cbc_mac_full_def cbc_mac_step_def)
    with l full show ?thesis
      unfolding mac_holds_def Let_def n X by (simp add: k map2_xor_zeros length_sm4_encrypt)
  qed
qed

lemma mac_update:
  "mac_holds key ctx m \<Longrightarrow> \<exists>ctx'. sm4_cbc_mac_update ctx data = Some ctx' \<and> mac_holds key ctx' (m @ data)"
proof (induction "length data" arbitrary: ctx m data rule: less_induct)
  case less
  show ?case
  proof (cases "data = []")
    case False
    let ?left = "16 - mac_ivlen ctx"
    let ?len = "if length data < ?left then length data else ?left"
    let ?x = "take ?len data"
    have n: "mac_ivlen ctx < 16" using less.prems by (simp add: mac_holds_def)
    have lx: "length ?x = ?len" "?x \<noteq> []" "mac_ivlen ctx + length ?x \<le> 16" using n False by auto
    from mac_step [OF less.prems lx(2,3), of "drop ?len data"]
    obtain ctx1 where c: "mac_holds key ctx1 (m @ ?x)" and
      c1: "ctx1 = (let iv = mem_write (mac_iv ctx) (mac_ivlen ctx)
           (gmssl_memxor (drop (mac_ivlen ctx) (mac_iv ctx)) data ?len);
         ivlen = mac_ivlen ctx + ?len
     in if ivlen \<ge> 16 then ctx\<lparr>mac_iv := sm4_encrypt (mac_key ctx) iv, mac_ivlen := 0\<rparr>
        else ctx\<lparr>mac_iv := iv, mac_ivlen := ivlen\<rparr>)"
      unfolding lx(1) by simp
    have "length (drop ?len data) < length data" using lx(1,2) False by auto
    from less.hyps [OF this c] obtain ctx' where
      "sm4_cbc_mac_update ctx1 (drop ?len data) = Some ctx'" "mac_holds key ctx' (m @ data)" by auto
    with False c1 show ?thesis by (subst sm4_cbc_mac_update.simps) (simp add: Let_def)
  qed (use less.prems in \<open>simp add: sm4_cbc_mac_update.simps\<close>)
qed


text \<open>The MAC of a message: the last block, when it is short, is filled with zeros.\<close>

definition cbc_mac_spec :: "SM4_KEY \<Rightarrow> bytes \<Rightarrow> bytes" where
  "cbc_mac_spec key m = cbc_mac_full key (pad16 m)"

lemma mac_finish: "mac_holds key ctx m \<Longrightarrow> sm4_cbc_mac_finish ctx = cbc_mac_spec key m"
proof -
  assume h: "mac_holds key ctx m"
  let ?f = "full_part 16 m" and ?r = "rest_part 16 m"
  have dv: "16 dvd length ?f" by (simp add: length_full_part full_len_def)
  show ?thesis
  proof (cases "length m mod 16 = 0")
    case True
    then have "?r = []" using length_rest_part [of 16 m] by simp
    then have "m = ?f" using full_rest [of 16 m] by simp
    then show ?thesis
      using h True \<open>?r = []\<close> by (simp add: mac_holds_def sm4_cbc_mac_finish_def cbc_mac_spec_def pad16_def map2_xor_zeros)
  next
    case False
    let ?b = "?r @ replicate (16 - length m mod 16) 0"
    have "pad16 m = ?f @ ?b" using pad16_parts [of m] False by (simp add: pad16_def length_rest_part)
    moreover have "length ?b = 16" by (simp add: length_rest_part less_imp_le)
    ultimately have "chunks 16 (pad16 m) = chunks 16 ?f @ [?b]" using dv by (simp add: chunks_dvd_append chunks_one)
    then show ?thesis
      using h False by (simp add: mac_holds_def sm4_cbc_mac_finish_def cbc_mac_spec_def cbc_mac_full_def cbc_mac_step_def)
  qed
qed

primrec mac_updates :: "SM4_CBC_MAC_CTX \<Rightarrow> bytes list \<Rightarrow> SM4_CBC_MAC_CTX option" where
  "mac_updates ctx [] = Some ctx"
| "mac_updates ctx (d # ds) = Option.bind (sm4_cbc_mac_update ctx d) (\<lambda>ctx. mac_updates ctx ds)"

lemma mac_holds_updates:
  "mac_holds key ctx m \<Longrightarrow> \<exists>ctx'. mac_updates ctx ds = Some ctx' \<and> mac_holds key ctx' (m @ concat ds)"
proof (induction ds arbitrary: ctx m)
  case (Cons d ds)
  from mac_update [OF Cons.prems, of d] obtain ctx1 where
    "sm4_cbc_mac_update ctx d = Some ctx1" "mac_holds key ctx1 (m @ d)" by blast
  with Cons.IH [of ctx1 "m @ d"] show ?case by simp
qed simp

lemma mac_holds_init: "mac_holds (sm4_set_encrypt_key k) (sm4_cbc_mac_init k) []"
  by (simp add: mac_holds_def sm4_cbc_mac_init_def full_part_def rest_part_def full_len_def cbc_mac_full_def
      map2_xor_zeros)


section \<open>Properties\<close>

text \<open>
  Streamed CBC encryption: for every split of the message the updates succeed, keep
  the buffer within its 16 bytes, and the concatenated output is that of the one-call
  encryption with padding.
\<close>

theorem sm4_cbc_encrypt_streaming:
  assumes "length iv = 16"
  shows "\<exists>ctx out fin n. run_updates sm4_cbc_encrypt_update (sm4_cbc_encrypt_init k iv) ds = Inr (ctx, out)
    \<and> cbc_nbytes ctx < 16 \<and> length (cbc_block ctx) = 16
    \<and> sm4_cbc_encrypt_finish ctx = Inr (fin, n) \<and> n = length fin
    \<and> out @ fin = fst (sm4_cbc_padding_encrypt (sm4_set_encrypt_key k) iv (concat ds))"
proof -
  from cbc_enc.run_stands [OF cbc_holds_init [OF assms, of k], of ds] obtain ctx out where
    r: "run_updates sm4_cbc_encrypt_update (sm4_cbc_encrypt_init k iv) ds = Inr (ctx, out)"
    and h: "cbc_holds (sm4_set_encrypt_key k) iv ctx (concat ds) out" by auto
  from h obtain nb where "cbc_md.holds (sm4_set_encrypt_key k) iv (cbc_view (iv @ out) nb ctx) (concat ds)"
    by (auto simp: cbc_holds_def)
  from cbc_md.holds_num [OF this] cbc_md.holds_block [OF this]
  have "cbc_nbytes ctx < 16" "length (cbc_block ctx) = 16" by (simp_all add: cbc_view_def)
  with r cbc_finish [OF h] show ?thesis by blast
qed

theorem sm4_cbc_encrypt_streaming_witness:
  "\<exists>ctx out fin n. run_updates sm4_cbc_encrypt_update
      (sm4_cbc_encrypt_init (replicate 16 1) (replicate 16 0)) [[1, 2], [], [3]] = Inr (ctx, out)
    \<and> cbc_nbytes ctx < 16 \<and> length (cbc_block ctx) = 16
    \<and> sm4_cbc_encrypt_finish ctx = Inr (fin, n) \<and> n = length fin
    \<and> out @ fin = fst (sm4_cbc_padding_encrypt (sm4_set_encrypt_key (replicate 16 1)) (replicate 16 0)
        (concat [[1, 2], [], [3]]))"
  by (rule sm4_cbc_encrypt_streaming) (rule length_replicate)

text \<open>
  C37. Streamed CBC decryption agrees with the one-call decryption: it gives the same
  plaintext when that succeeds, and fails when that fails.
\<close>

theorem sm4_cbc_decrypt_streaming:
  assumes "length iv = 16"
  shows "\<exists>ctx out. run_updates sm4_cbc_decrypt_update (sm4_cbc_decrypt_init k iv) ds = Inr (ctx, out)
    \<and> (case sm4_cbc_padding_decrypt (sm4_set_decrypt_key k) iv (concat ds) of
        Inl _ \<Rightarrow> sm4_cbc_decrypt_finish ctx = Inl (-1)
      | Inr (pt, n) \<Rightarrow> \<exists>fin j. sm4_cbc_decrypt_finish ctx = Inr (fin, j)
          \<and> out @ fin = pt \<and> length out + j = n)"
proof -
  from cbc_dec.run_stands [OF dec_holds_init [OF assms, of k], of ds] obtain ctx out where
    "run_updates sm4_cbc_decrypt_update (sm4_cbc_decrypt_init k iv) ds = Inr (ctx, out)"
    and h: "dec_holds (sm4_set_decrypt_key k) iv ctx (concat ds) out" by auto
  with dec_finish [OF h] show ?thesis by blast
qed

theorem sm4_cbc_decrypt_streaming_witness:
  "\<exists>ctx out. run_updates sm4_cbc_decrypt_update
      (sm4_cbc_decrypt_init (replicate 16 1) (replicate 16 0)) [[1, 2], [3]] = Inr (ctx, out)
    \<and> sm4_cbc_decrypt_finish ctx = Inl (-1)"
proof -
  have "sm4_cbc_padding_decrypt key iv (concat [[1, 2], [3]]) = Inl (-1)" for key iv
    by (simp add: sm4_cbc_padding_decrypt_def)
  then show ?thesis
    using sm4_cbc_decrypt_streaming [of "replicate 16 0" "replicate 16 1" "[[1, 2], [3]]"]
    by (simp only: length_replicate sum.case simp_thms)
qed

text \<open>
  C38. Counter mode: the output is the input xor-ed with the encrypted counters, the counter
  block counts as a 128-bit big-endian number with wrap-around, applying it twice
  gives the input back, and the streamed form gives the one-call result.
\<close>

theorem sm4_ctr_correct:
  assumes "length ctr = 16"
  shows "snd (sm4_ctr_encrypt key ctr inp) = stream_xor key ctr inp
    \<and> snd (sm4_ctr_encrypt key ctr (snd (sm4_ctr_encrypt key ctr inp))) = inp
    \<and> be_val (ctr_incr ctr) = (be_val ctr + 1) mod 2 ^ 128
    \<and> (\<exists>ctx out fin n. run_updates sm4_ctr_encrypt_update (sm4_ctr_encrypt_init k ctr) ds = Inr (ctx, out)
        \<and> sm4_ctr_encrypt_finish ctx = Inr (fin, n) \<and> n = length fin
        \<and> out @ fin = snd (sm4_ctr_encrypt (sm4_set_encrypt_key k) ctr (concat ds)))"
proof -
  from ctr_enc.run_stands [OF ctr_holds_init [OF assms, of k], of ds] obtain ctx out where
    "run_updates sm4_ctr_encrypt_update (sm4_ctr_encrypt_init k ctr) ds = Inr (ctx, out)"
    and h: "ctr_holds (sm4_set_encrypt_key k) ctr ctx (concat ds) out" by auto
  with ctr_finish [OF h] show ?thesis
    using ctr_incr_val [OF assms] by (simp add: sm4_ctr_encrypt_eq stream_xor_twice)
qed

theorem sm4_ctr_correct_witness:
  "snd (sm4_ctr_encrypt (sm4_set_encrypt_key []) (replicate 16 255)
     (snd (sm4_ctr_encrypt (sm4_set_encrypt_key []) (replicate 16 255) [1, 2, 3]))) = [1, 2, 3]"
  using sm4_ctr_correct [of "replicate 16 255" "sm4_set_encrypt_key []" "[1, 2, 3]" "[]" "[]", OF length_replicate] by blast

text \<open>
  CBC-MAC: every update returns, and for every split of the message the result is the
  chain of encryptions over its blocks, the last filled with zeros.
\<close>

theorem sm4_cbc_mac_correct:
  "\<exists>ctx. mac_updates (sm4_cbc_mac_init k) ds = Some ctx
    \<and> sm4_cbc_mac_finish ctx = cbc_mac_spec (sm4_set_encrypt_key k) (concat ds)"
  using mac_holds_updates [OF mac_holds_init, of k ds] mac_finish by auto

end
