(* ===== verification/Ngx_Steps.thy ===== *)
theory Ngx_Steps
  imports Prelude
begin

text \<open>
  What the models of nginx's shared-memory locks have in common: invariants of a transition
  system by induction over its runs, and counting the processes at given program counters.
\<close>

section \<open>Invariants by rule induction\<close>

locale transition_invariant =
  fixes step :: "'s \<Rightarrow> 's \<Rightarrow> bool" and init :: 's and inv :: "'s \<Rightarrow> bool"
  assumes inv_init: "inv init"
    and inv_step: "inv s \<Longrightarrow> step s s' \<Longrightarrow> inv s'"
begin

lemma reachable_inv: "step\<^sup>*\<^sup>* init s \<Longrightarrow> inv s"
  by (induction rule: rtranclp_induct) (auto intro: inv_init inv_step)

end


section \<open>Counting processes\<close>

definition pc_count :: "nat \<Rightarrow> ('l \<Rightarrow> bool) \<Rightarrow> (nat \<Rightarrow> 'l) \<Rightarrow> nat" where
  "pc_count N P pc = (\<Sum>p<N. of_bool (P (pc p)))"

lemma pc_count_le: "pc_count N P pc \<le> N"
proof -
  have "pc_count N P pc \<le> (\<Sum>p<N. 1)" unfolding pc_count_def by (rule sum_mono) simp
  then show ?thesis by simp
qed

lemma pc_count_update:
  assumes "p < N" "pc' = pc(p := l)"
  shows "int (pc_count N P pc') = int (pc_count N P pc) - of_bool (P (pc p)) + of_bool (P l)"
proof -
  have N: "{..<N} = insert p ({..<N} - {p})" using assms(1) by auto
  have "(\<Sum>q \<in> {..<N} - {p}. of_bool (P (pc' q)) :: nat) = (\<Sum>q \<in> {..<N} - {p}. of_bool (P (pc q)))"
    by (rule sum.cong) (simp_all add: assms(2))
  then show ?thesis unfolding pc_count_def
    by (subst (1 2) N, subst (1 2) sum.insert) (auto simp: assms(2))
qed

lemma pc_count_pos: "p < N \<Longrightarrow> P (pc p) \<Longrightarrow> 0 < pc_count N P pc"
  unfolding pc_count_def by (auto simp: card_gt_0_iff)

lemma pc_count_obtain:
  assumes "0 < pc_count N P pc"
  obtains p where "p < N" "P (pc p)"
proof -
  have "\<exists>p<N. P (pc p)"
  proof (rule ccontr)
    assume "\<not> ?thesis"
    then have "pc_count N P pc = 0" unfolding pc_count_def by (intro sum.neutral) auto
    with assms show False by simp
  qed
  with that show thesis by blast
qed

lemma pc_count_0: "pc_count N P pc = 0 \<longleftrightarrow> (\<forall>p<N. \<not> P (pc p))"
  using pc_count_pos pc_count_obtain by (metis gr0I less_irrefl_nat)

lemma pc_count_two:
  assumes "p < N" "q < N" "p \<noteq> q" "P (pc p)" "P (pc q)"
  shows "2 \<le> pc_count N P pc"
proof -
  have "(\<Sum>r \<in> {p, q}. of_bool (P (pc r)) :: nat) \<le> pc_count N P pc"
    unfolding pc_count_def using assms by (intro sum_mono2) auto
  with assms show ?thesis by simp
qed

end
