(* ===== verification/Ngx_Shmtx.thy ===== *)
theory Ngx_Shmtx
  imports Ngx_Steps
begin

text \<open>
  nginx, \<^verbatim>\<open>src/core/ngx_shmtx.c\<close> (the branch with atomic operations and POSIX semaphores): the mutex in
  shared memory that the worker processes use. A process is a program counter; one step is one
  access to shared memory, so that every interleaving of the accesses of all processes is a run
  of \<open>shm_step\<close>. Processes may crash, and the master then releases their lock by force.
\<close>

section \<open>Shared state and program counters\<close>

type_synonym ngx_atomic_t = u64

text \<open>What \<^verbatim>\<open>ngx_shmtx_create\<close> has stored in the process-local structure, and the number of processors.\<close>

record ngx_shmtx_t =
  mtx_semaphore :: bool
  mtx_spin :: u64

text \<open>
  The points of the code between two accesses to shared memory. \<open>Lock_Read\<close> and \<open>Lock_Cas\<close> carry the
  spin count \<^verbatim>\<open>n\<close>, \<^const>\<open>None\<close> for the attempt before the spin loop.
\<close>

datatype shm_pc =
  Idle | Critical
| Try_Read | Try_Cas
| Lock_Read "u64 option" | Lock_Cas "u64 option"
| Wait_Add | Wait_Read | Wait_Cas | Wait_Dec | Sem_Wait
| Unlock_Cas | Force_Cas nat
| Wake_Read | Wake_Cas u64 | Wake_Post

record shm_state =
  sh_lock :: ngx_atomic_t
  sh_wait :: ngx_atomic_t
  sh_sem :: nat
  sh_pc :: "nat \<Rightarrow> shm_pc"
  sh_dead :: "nat set"

text \<open>\<^verbatim>\<open>sem_init_ok\<close> is the outcome of \<^verbatim>\<open>sem_init\<close>.\<close>

definition ngx_shmtx_create :: "ngx_shmtx_t \<Rightarrow> bool \<Rightarrow> ngx_shmtx_t" where
  "ngx_shmtx_create mtx sem_init_ok =
     (if mtx_spin mtx = - 1 then mtx
      else let mtx = mtx\<lparr>mtx_spin := 2048\<rparr>
           in if sem_init_ok then mtx\<lparr>mtx_semaphore := True\<rparr> else mtx)"


section \<open>Operations, one shared access at a time\<close>

definition goto :: "nat \<Rightarrow> shm_pc \<Rightarrow> shm_state \<Rightarrow> shm_state" where
  "goto p l s = s\<lparr>sh_pc := (sh_pc s)(p := l)\<rparr>"

text \<open>Where \<^verbatim>\<open>ngx_shmtx_lock\<close> goes on after a failed attempt.\<close>

definition lock_next :: "ngx_shmtx_t \<Rightarrow> nat \<Rightarrow> u64 option \<Rightarrow> shm_pc" where
  "lock_next mtx ncpu at =
     (let n = (case at of None \<Rightarrow> 1 | Some n \<Rightarrow> push_bit 1 n)
      in if (at \<noteq> None \<or> ncpu > 1) \<and> n < mtx_spin mtx then Lock_Read (Some n)
         else if mtx_semaphore mtx then Wait_Add
         else Lock_Read None)"

definition ngx_shmtx_trylock :: "u64 \<Rightarrow> nat \<Rightarrow> shm_state \<Rightarrow> shm_state" where
  "ngx_shmtx_trylock pid p s =
     (case sh_pc s p of
        Try_Read \<Rightarrow> if sh_lock s = 0 then goto p Try_Cas s else goto p Idle s
      | Try_Cas \<Rightarrow> if sh_lock s = 0 then goto p Critical (s\<lparr>sh_lock := pid\<rparr>) else goto p Idle s
      | _ \<Rightarrow> s)"

text \<open>\<^const>\<open>None\<close>: the process sleeps in \<^verbatim>\<open>sem_wait\<close>.\<close>

definition ngx_shmtx_lock :: "ngx_shmtx_t \<Rightarrow> nat \<Rightarrow> u64 \<Rightarrow> nat \<Rightarrow> shm_state \<Rightarrow> shm_state option" where
  "ngx_shmtx_lock mtx ncpu pid p s =
     (case sh_pc s p of
        Lock_Read at \<Rightarrow>
          Some (if sh_lock s = 0 then goto p (Lock_Cas at) s else goto p (lock_next mtx ncpu at) s)
      | Lock_Cas at \<Rightarrow>
          Some (if sh_lock s = 0 then goto p Critical (s\<lparr>sh_lock := pid\<rparr>)
                else goto p (lock_next mtx ncpu at) s)
      | Wait_Add \<Rightarrow> Some (goto p Wait_Read (s\<lparr>sh_wait := sh_wait s + 1\<rparr>))
      | Wait_Read \<Rightarrow> Some (if sh_lock s = 0 then goto p Wait_Cas s else goto p Sem_Wait s)
      | Wait_Cas \<Rightarrow>
          Some (if sh_lock s = 0 then goto p Wait_Dec (s\<lparr>sh_lock := pid\<rparr>) else goto p Sem_Wait s)
      | Wait_Dec \<Rightarrow> Some (goto p Critical (s\<lparr>sh_wait := sh_wait s - 1\<rparr>))
      | Sem_Wait \<Rightarrow>
          if sh_sem s > 0 then Some (goto p (Lock_Read None) (s\<lparr>sh_sem := sh_sem s - 1\<rparr>)) else None
      | _ \<Rightarrow> Some s)"

definition wake_entry :: "ngx_shmtx_t \<Rightarrow> shm_pc" where
  "wake_entry mtx = (if mtx_semaphore mtx then Wake_Read else Idle)"

definition ngx_shmtx_unlock :: "ngx_shmtx_t \<Rightarrow> u64 \<Rightarrow> nat \<Rightarrow> shm_state \<Rightarrow> shm_state" where
  "ngx_shmtx_unlock mtx pid p s =
     (if sh_lock s = pid then goto p (wake_entry mtx) (s\<lparr>sh_lock := 0\<rparr>) else goto p Idle s)"

definition ngx_shmtx_force_unlock :: "ngx_shmtx_t \<Rightarrow> u64 \<Rightarrow> nat \<Rightarrow> shm_state \<Rightarrow> shm_state" where
  "ngx_shmtx_force_unlock mtx pid p s =
     (if sh_lock s = pid then goto p (wake_entry mtx) (s\<lparr>sh_lock := 0\<rparr>) else goto p Idle s)"

definition ngx_shmtx_wakeup :: "nat \<Rightarrow> shm_state \<Rightarrow> shm_state" where
  "ngx_shmtx_wakeup p s =
     (case sh_pc s p of
        Wake_Read \<Rightarrow> if sint (sh_wait s) \<le> 0 then goto p Idle s else goto p (Wake_Cas (sh_wait s)) s
      | Wake_Cas w \<Rightarrow>
          if sh_wait s = w then goto p Wake_Post (s\<lparr>sh_wait := w - 1\<rparr>) else goto p Wake_Read s
      | Wake_Post \<Rightarrow> goto p Idle (s\<lparr>sh_sem := sh_sem s + 1\<rparr>)
      | _ \<Rightarrow> s)"

text \<open>The next access of process \<open>p\<close>; \<^const>\<open>None\<close> when it is outside the mutex code or asleep.\<close>

definition shm_run :: "ngx_shmtx_t \<Rightarrow> nat \<Rightarrow> (nat \<Rightarrow> u64) \<Rightarrow> nat \<Rightarrow> shm_state \<Rightarrow> shm_state option" where
  "shm_run mtx ncpu pid p s =
     (case sh_pc s p of
        Idle \<Rightarrow> None | Critical \<Rightarrow> None
      | Try_Read \<Rightarrow> Some (ngx_shmtx_trylock (pid p) p s)
      | Try_Cas \<Rightarrow> Some (ngx_shmtx_trylock (pid p) p s)
      | Unlock_Cas \<Rightarrow> Some (ngx_shmtx_unlock mtx (pid p) p s)
      | Force_Cas q \<Rightarrow> Some (ngx_shmtx_force_unlock mtx (pid q) p s)
      | Wake_Read \<Rightarrow> Some (ngx_shmtx_wakeup p s)
      | Wake_Cas w \<Rightarrow> Some (ngx_shmtx_wakeup p s)
      | Wake_Post \<Rightarrow> Some (ngx_shmtx_wakeup p s)
      | _ \<Rightarrow> ngx_shmtx_lock mtx ncpu (pid p) p s)"

text \<open>
  A step of the system of \<open>N\<close> processes: an access of a live process, a call, a crash, or the
  forced unlock of a process that has crashed. \<open>crash\<close> says whether processes may crash.
\<close>

inductive shm_step ::
  "ngx_shmtx_t \<Rightarrow> nat \<Rightarrow> (nat \<Rightarrow> u64) \<Rightarrow> nat \<Rightarrow> bool \<Rightarrow> shm_state \<Rightarrow> shm_state \<Rightarrow> bool"
  for mtx ncpu pid N crash where
  run: "p < N \<Longrightarrow> p \<notin> sh_dead s \<Longrightarrow> shm_run mtx ncpu pid p s = Some s' \<Longrightarrow>
    shm_step mtx ncpu pid N crash s s'"
| call_trylock: "p < N \<Longrightarrow> p \<notin> sh_dead s \<Longrightarrow> sh_pc s p = Idle \<Longrightarrow>
    shm_step mtx ncpu pid N crash s (goto p Try_Read s)"
| call_lock: "p < N \<Longrightarrow> p \<notin> sh_dead s \<Longrightarrow> sh_pc s p = Idle \<Longrightarrow>
    shm_step mtx ncpu pid N crash s (goto p (Lock_Read None) s)"
| call_unlock: "p < N \<Longrightarrow> p \<notin> sh_dead s \<Longrightarrow> sh_pc s p = Critical \<Longrightarrow>
    shm_step mtx ncpu pid N crash s (goto p Unlock_Cas s)"
| die: "crash \<Longrightarrow> p < N \<Longrightarrow> shm_step mtx ncpu pid N crash s (s\<lparr>sh_dead := insert p (sh_dead s)\<rparr>)"
| call_force: "p < N \<Longrightarrow> p \<notin> sh_dead s \<Longrightarrow> sh_pc s p = Idle \<Longrightarrow> q \<in> sh_dead s \<Longrightarrow> q < N \<Longrightarrow>
    shm_step mtx ncpu pid N crash s (goto p (Force_Cas q) s)"

definition shm_init :: shm_state where
  "shm_init = \<lparr>sh_lock = 0, sh_wait = 0, sh_sem = 0, sh_pc = (\<lambda>_. Idle), sh_dead = {}\<rparr>"

definition shm_reachable ::
  "ngx_shmtx_t \<Rightarrow> nat \<Rightarrow> (nat \<Rightarrow> u64) \<Rightarrow> nat \<Rightarrow> bool \<Rightarrow> shm_state \<Rightarrow> bool" where
  "shm_reachable mtx ncpu pid N crash = (shm_step mtx ncpu pid N crash)\<^sup>*\<^sup>* shm_init"

text \<open>Process identifiers are distinct and not 0, the value of a free lock.\<close>

definition pids_ok :: "(nat \<Rightarrow> u64) \<Rightarrow> nat \<Rightarrow> bool" where
  "pids_ok pid N \<longleftrightarrow> inj_on pid {..<N} \<and> (\<forall>p < N. pid p \<noteq> 0)"

lemmas shm_defs = shm_run_def ngx_shmtx_trylock_def ngx_shmtx_lock_def ngx_shmtx_unlock_def
  ngx_shmtx_force_unlock_def ngx_shmtx_wakeup_def

lemma goto_simps [simp]:
  "sh_pc (goto p l s) = (sh_pc s)(p := l)" "sh_lock (goto p l s) = sh_lock s"
  "sh_wait (goto p l s) = sh_wait s" "sh_sem (goto p l s) = sh_sem s" "sh_dead (goto p l s) = sh_dead s"
  by (simp_all add: goto_def)


section \<open>Invariants\<close>

text \<open>The lock word names the live process that is between taking and releasing the lock.\<close>

definition shm_holding :: "shm_pc \<Rightarrow> bool" where
  "shm_holding l \<longleftrightarrow> l = Critical \<or> l = Wait_Dec \<or> l = Unlock_Cas"

definition shm_owner_inv :: "(nat \<Rightarrow> u64) \<Rightarrow> nat \<Rightarrow> shm_state \<Rightarrow> bool" where
  "shm_owner_inv pid N s \<longleftrightarrow>
     (\<forall>p < N. p \<notin> sh_dead s \<longrightarrow> (sh_lock s = pid p \<longleftrightarrow> shm_holding (sh_pc s p))) \<and>
     (\<forall>p < N. p \<notin> sh_dead s \<longrightarrow> (\<forall>q. sh_pc s p = Force_Cas q \<longrightarrow> q < N \<and> q \<in> sh_dead s)) \<and>
     (sh_lock s = 0 \<or> (\<exists>q < N. sh_lock s = pid q))"

lemma lock_next_cases: "lock_next mtx ncpu at = Wait_Add \<or> (\<exists>x. lock_next mtx ncpu at = Lock_Read x)"
  by (simp add: lock_next_def Let_def)

lemma not_holding [simp]:
  "\<not> shm_holding Idle" "\<not> shm_holding Try_Read" "\<not> shm_holding Try_Cas" "\<not> shm_holding (Lock_Read x)"
  "\<not> shm_holding (Lock_Cas x)" "\<not> shm_holding Wait_Add" "\<not> shm_holding Wait_Read"
  "\<not> shm_holding Wait_Cas" "\<not> shm_holding Sem_Wait" "\<not> shm_holding (Force_Cas q)"
  "\<not> shm_holding Wake_Read" "\<not> shm_holding (Wake_Cas w)" "\<not> shm_holding Wake_Post"
  "shm_holding Critical" "shm_holding Wait_Dec" "shm_holding Unlock_Cas"
  "\<not> shm_holding (lock_next mtx ncpu at)" "\<not> shm_holding (wake_entry mtx)"
  using lock_next_cases [of mtx ncpu at] by (auto simp: shm_holding_def wake_entry_def)

lemma next_not_force [simp]:
  "lock_next mtx ncpu at \<noteq> Force_Cas q" "wake_entry mtx \<noteq> Force_Cas q"
  using lock_next_cases [of mtx ncpu at] by (auto simp: wake_entry_def)

lemma pids_ok_eq: "pids_ok pid N \<Longrightarrow> p < N \<Longrightarrow> q < N \<Longrightarrow> pid p = pid q \<longleftrightarrow> p = q"
  by (auto simp: pids_ok_def inj_on_def)

lemma pids_ok_0: "pids_ok pid N \<Longrightarrow> p < N \<Longrightarrow> pid p \<noteq> 0"
  by (auto simp: pids_ok_def)

lemma shm_ownerD:
  assumes "shm_owner_inv pid N s" "p < N" "p \<notin> sh_dead s"
  shows "sh_lock s = pid p \<longleftrightarrow> shm_holding (sh_pc s p)"
    and "sh_pc s p = Force_Cas q \<Longrightarrow> q < N \<and> q \<in> sh_dead s"
  using assms unfolding shm_owner_inv_def by blast+

lemma shm_owner_lock: "shm_owner_inv pid N s \<Longrightarrow> sh_lock s = 0 \<or> (\<exists>q < N. sh_lock s = pid q)"
  unfolding shm_owner_inv_def by blast

lemma shm_owner_update:
  assumes "shm_owner_inv pid N s" "p < N" "p \<notin> sh_dead s"
    "sh_pc s' = (sh_pc s)(p := l)" "sh_dead s' = sh_dead s"
    "sh_lock s' = pid p \<longleftrightarrow> shm_holding l"
    "\<And>q. l = Force_Cas q \<Longrightarrow> q < N \<and> q \<in> sh_dead s"
    "\<And>r. r < N \<Longrightarrow> r \<noteq> p \<Longrightarrow> r \<notin> sh_dead s \<Longrightarrow> sh_lock s' = pid r \<longleftrightarrow> sh_lock s = pid r"
    "sh_lock s' = sh_lock s \<or> sh_lock s' = 0 \<or> sh_lock s' = pid p"
  shows "shm_owner_inv pid N s'"
  unfolding shm_owner_inv_def
proof (intro conjI allI impI)
  show "sh_lock s' = 0 \<or> (\<exists>q < N. sh_lock s' = pid q)"
    using assms(2,9) shm_owner_lock [OF assms(1)] by auto
  fix r assume r: "r < N" "r \<notin> sh_dead s'"
  show "sh_lock s' = pid r \<longleftrightarrow> shm_holding (sh_pc s' r)"
    using r assms(4-6,8) shm_ownerD(1) [OF assms(1), of r] by (cases "r = p") simp_all
  fix q assume q: "sh_pc s' r = Force_Cas q"
  have "q < N \<and> q \<in> sh_dead s"
  proof (cases "r = p")
    case True
    then show ?thesis using q assms(4) by (intro assms(7)) simp
  next
    case False
    then show ?thesis using q r assms(4,5) by (intro shm_ownerD(2) [OF assms(1) r(1)]) simp_all
  qed
  then show "q < N" "q \<in> sh_dead s'" unfolding assms(5) by simp_all
qed

text \<open>Who changes the lock word: it is taken when free, and given back by its owner or for a dead one.\<close>

definition shm_lock_change :: "(nat \<Rightarrow> u64) \<Rightarrow> nat \<Rightarrow> nat \<Rightarrow> shm_state \<Rightarrow> u64 \<Rightarrow> shm_pc \<Rightarrow> bool" where
  "shm_lock_change pid N p s lock l \<longleftrightarrow>
     lock = sh_lock s \<and> (shm_holding l \<longleftrightarrow> shm_holding (sh_pc s p)) \<or>
     sh_lock s = 0 \<and> lock = pid p \<and> shm_holding l \<or>
     sh_lock s = pid p \<and> lock = 0 \<and> \<not> shm_holding l \<or>
     (\<exists>q \<in> sh_dead s. q < N \<and> sh_lock s = pid q) \<and> lock = 0 \<and> \<not> shm_holding l"

lemma shm_run_lock:
  assumes "shm_run mtx ncpu pid p s = Some s'" "shm_owner_inv pid N s" "p < N" "p \<notin> sh_dead s"
  shows "\<exists>l. sh_pc s' = (sh_pc s)(p := l) \<and> sh_dead s' = sh_dead s \<and> (\<forall>q. l \<noteq> Force_Cas q) \<and>
    shm_lock_change pid N p s (sh_lock s') l"
proof (cases "sh_pc s p")
  case Unlock_Cas
  then have "sh_lock s = pid p" using shm_ownerD(1) [OF assms(2-4)] by simp
  with Unlock_Cas show ?thesis using assms(1)
    by (intro exI [of _ "wake_entry mtx"]) (auto simp: shm_defs shm_lock_change_def)
next
  case (Force_Cas q)
  then have q: "q < N" "q \<in> sh_dead s" using shm_ownerD(2) [OF assms(2-4)] by simp_all
  then show ?thesis using assms(1) Force_Cas
    by (intro exI [of _ "if sh_lock s = pid q then wake_entry mtx else Idle"])
      (auto simp: shm_defs shm_lock_change_def)
qed (use assms(1) in \<open>auto simp: shm_defs shm_lock_change_def split: if_splits\<close>)

lemma shm_owner_step:
  assumes pid: "pids_ok pid N" and inv: "shm_owner_inv pid N s"
    and step: "shm_step mtx ncpu pid N crash s s'"
  shows "shm_owner_inv pid N s'"
  using step
proof cases
  case (run p)
  note pid' = pids_ok_eq [OF pid] pids_ok_0 [OF pid]
  have hp: "sh_lock s = pid p \<longleftrightarrow> shm_holding (sh_pc s p)" by (rule shm_ownerD(1) [OF inv run(1,2)])
  from shm_run_lock [OF run(3) inv run(1,2)] obtain l where
    l: "sh_pc s' = (sh_pc s)(p := l)" "sh_dead s' = sh_dead s" "\<forall>q. l \<noteq> Force_Cas q" and
    change: "shm_lock_change pid N p s (sh_lock s') l" by blast
  show ?thesis
  proof (rule shm_owner_update [OF inv run(1,2) l(1,2)])
    show "sh_lock s' = pid p \<longleftrightarrow> shm_holding l" using change hp pid'(2) [OF run(1)] by (auto simp: shm_lock_change_def)
    show "sh_lock s' = pid r \<longleftrightarrow> sh_lock s = pid r" if "r < N" "r \<noteq> p" "r \<notin> sh_dead s" for r
    proof -
      have "pid r \<noteq> 0" "pid p \<noteq> pid r" using pid' run(1) that by auto
      moreover have "\<forall>q \<in> sh_dead s. q < N \<longrightarrow> pid q \<noteq> pid r"
        using pid'(1) [of _ r] that by auto
      ultimately show ?thesis using change unfolding shm_lock_change_def by metis
    qed
    show "sh_lock s' = sh_lock s \<or> sh_lock s' = 0 \<or> sh_lock s' = pid p"
      using change unfolding shm_lock_change_def by blast
  qed (use l(3) in simp)
next
  case (call_trylock p)
  then show ?thesis using shm_ownerD(1) [OF inv, of p] by (auto intro!: shm_owner_update [OF inv, of p])
next
  case (call_lock p)
  then show ?thesis using shm_ownerD(1) [OF inv, of p] by (auto intro!: shm_owner_update [OF inv, of p])
next
  case (call_unlock p)
  then show ?thesis using shm_ownerD(1) [OF inv, of p] by (auto intro!: shm_owner_update [OF inv, of p])
next
  case (die p)
  have "sh_lock s' = sh_lock s" "sh_pc s' = sh_pc s" "sh_dead s' = insert p (sh_dead s)"
    unfolding die(1) by simp_all
  then show ?thesis using inv unfolding shm_owner_inv_def by (simp only: insert_iff) blast
next
  case (call_force p q)
  then show ?thesis using shm_ownerD(1) [OF inv, of p] by (auto intro!: shm_owner_update [OF inv, of p])
qed

interpretation shm_owner: transition_invariant "shm_step mtx ncpu pid N crash" shm_init
  "\<lambda>s. pids_ok pid N \<longrightarrow> shm_owner_inv pid N s" for mtx ncpu pid N crash
proof
  show "pids_ok pid N \<longrightarrow> shm_owner_inv pid N shm_init"
    using pids_ok_0 [THEN not_sym] by (auto simp: shm_init_def shm_owner_inv_def)
qed (blast intro: shm_owner_step)


text \<open>
  The wait counter, read as a signed number, is the number of processes that have announced
  themselves, less the wake-ups that are under way or not yet consumed; none of these numbers
  exceeds the number of processes, so the counter does not wrap.
\<close>

definition shm_waiting :: "shm_pc \<Rightarrow> bool" where
  "shm_waiting l \<longleftrightarrow> l = Wait_Read \<or> l = Wait_Cas \<or> l = Wait_Dec \<or> l = Sem_Wait"

abbreviation shm_count :: "nat \<Rightarrow> (shm_pc \<Rightarrow> bool) \<Rightarrow> shm_state \<Rightarrow> nat" where
  "shm_count N P s \<equiv> pc_count N P (sh_pc s)"

abbreviation shm_posting :: "shm_pc \<Rightarrow> bool" where
  "shm_posting l \<equiv> l = Wake_Post"

definition shm_wait_value :: "nat \<Rightarrow> shm_state \<Rightarrow> int" where
  "shm_wait_value N s =
     int (shm_count N shm_waiting s) - int (sh_sem s) - int (shm_count N shm_posting s)"

definition shm_wait_inv :: "ngx_shmtx_t \<Rightarrow> nat \<Rightarrow> shm_state \<Rightarrow> bool" where
  "shm_wait_inv mtx N s \<longleftrightarrow>
     sh_dead s = {} \<and> sh_wait s = word_of_int (shm_wait_value N s) \<and>
     sh_sem s + shm_count N shm_posting s \<le> N \<and>
     (\<forall>p<N. \<not> mtx_semaphore mtx \<longrightarrow> \<not> shm_waiting (sh_pc s p) \<and> sh_pc s p \<noteq> Wait_Add) \<and>
     (\<forall>p<N. \<forall>w. sh_pc s p = Wake_Cas w \<longrightarrow> 0 < sint w)"

lemma sint_u64_of_int: "- (2 ^ 63) \<le> k \<Longrightarrow> k < 2 ^ 63 \<Longrightarrow> sint (word_of_int k :: u64) = k"
  by transfer (simp add: signed_take_bit_int_eq_self)

lemma shm_wait_bounds:
  assumes "shm_wait_inv mtx N s" "N < 2 ^ 62"
  shows "sint (sh_wait s) = shm_wait_value N s"
    and "- int N \<le> shm_wait_value N s" "shm_wait_value N s \<le> int N"
proof -
  show b: "- int N \<le> shm_wait_value N s" "shm_wait_value N s \<le> int N"
    using assms(1) pc_count_le [of N shm_waiting "sh_pc s"]
    unfolding shm_wait_inv_def shm_wait_value_def by linarith+
  have "int N < 2 ^ 62" using assms(2) by simp
  then have "- (2 ^ 63) \<le> shm_wait_value N s" "shm_wait_value N s < 2 ^ 63" using b by simp_all
  then show "sint (sh_wait s) = shm_wait_value N s"
    using assms(1) sint_u64_of_int by (simp add: shm_wait_inv_def)
qed


lemma shm_waiting_simps [simp]:
  "\<not> shm_waiting Idle" "\<not> shm_waiting Try_Read" "\<not> shm_waiting Try_Cas" "\<not> shm_waiting (Lock_Read x)"
  "\<not> shm_waiting (Lock_Cas x)" "\<not> shm_waiting Wait_Add" "shm_waiting Wait_Read"
  "shm_waiting Wait_Cas" "shm_waiting Sem_Wait" "\<not> shm_waiting (Force_Cas q)"
  "\<not> shm_waiting Wake_Read" "\<not> shm_waiting (Wake_Cas w)" "\<not> shm_waiting Wake_Post"
  "\<not> shm_waiting Critical" "shm_waiting Wait_Dec" "\<not> shm_waiting Unlock_Cas"
  "\<not> shm_waiting (lock_next mtx ncpu at)" "\<not> shm_waiting (wake_entry mtx)"
  using lock_next_cases [of mtx ncpu at] by (auto simp: shm_waiting_def wake_entry_def)

lemma next_simps [simp]:
  "lock_next mtx ncpu at \<noteq> Wake_Post" "wake_entry mtx \<noteq> Wake_Post"
  "lock_next mtx ncpu at \<noteq> Wake_Cas w" "wake_entry mtx \<noteq> Wake_Cas w" "wake_entry mtx \<noteq> Wait_Add"
  "lock_next mtx ncpu at \<noteq> Sem_Wait" "wake_entry mtx \<noteq> Sem_Wait"
  using lock_next_cases [of mtx ncpu at] by (auto simp: wake_entry_def)

lemma lock_next_no_sem: "\<not> mtx_semaphore mtx \<Longrightarrow> lock_next mtx ncpu at \<noteq> Wait_Add"
  by (simp add: lock_next_def Let_def)

lemma shm_wait_update:
  assumes inv: "shm_wait_inv mtx N s" and p: "p < N" "sh_pc s' = (sh_pc s)(p := l)"
    and dead: "sh_dead s' = {}"
    and wait: "sh_wait s' = sh_wait s + word_of_int (of_bool (shm_waiting l) - of_bool (shm_waiting (sh_pc s p)) -
      (int (sh_sem s') - int (sh_sem s)) - (of_bool (shm_posting l) - of_bool (shm_posting (sh_pc s p))))"
    and bound: "int (sh_sem s') + of_bool (shm_posting l) \<le> int (sh_sem s) + of_bool (shm_posting (sh_pc s p)) \<or>
      0 < shm_wait_value N s \<and> int (sh_sem s') + of_bool (shm_posting l) \<le> int (sh_sem s) + of_bool (shm_posting (sh_pc s p)) + 1"
    and l: "\<not> mtx_semaphore mtx \<Longrightarrow> \<not> shm_waiting l \<and> l \<noteq> Wait_Add" "\<And>w. l = Wake_Cas w \<Longrightarrow> 0 < sint w"
  shows "shm_wait_inv mtx N s'"
proof -
  note cnt = pc_count_update [OF p]
  have v: "shm_wait_value N s' = shm_wait_value N s + (of_bool (shm_waiting l) - of_bool (shm_waiting (sh_pc s p)) -
      (int (sh_sem s') - int (sh_sem s)) - (of_bool (shm_posting l) - of_bool (shm_posting (sh_pc s p))))"
    unfolding shm_wait_value_def cnt by simp
  have "sh_wait s' = word_of_int (shm_wait_value N s')"
    unfolding v wait using inv by (simp add: shm_wait_inv_def)
  moreover have "int (sh_sem s') + int (shm_count N shm_posting s') \<le> int N"
    using bound inv pc_count_le [of N shm_waiting "sh_pc s"]
    unfolding cnt shm_wait_inv_def shm_wait_value_def by linarith
  moreover have "\<forall>q<N. \<not> mtx_semaphore mtx \<longrightarrow> \<not> shm_waiting (sh_pc s' q) \<and> sh_pc s' q \<noteq> Wait_Add"
    using inv l(1) p(2) unfolding shm_wait_inv_def by simp
  moreover have "\<forall>q<N. \<forall>w. sh_pc s' q = Wake_Cas w \<longrightarrow> 0 < sint w"
    using inv l(2) p(2) unfolding shm_wait_inv_def by simp
  ultimately show ?thesis using dead by (simp add: shm_wait_inv_def)
qed

lemma shm_wait_run:
  assumes inv: "shm_wait_inv mtx N s" and N: "N < 2 ^ 62" and p: "p < N"
    and run: "shm_run mtx ncpu pid p s = Some s'"
  shows "shm_wait_inv mtx N s'"
proof -
  have dead: "sh_dead s = {}" and sem: "\<not> mtx_semaphore mtx \<Longrightarrow> \<not> shm_waiting (sh_pc s p) \<and> sh_pc s p \<noteq> Wait_Add"
    and cas: "\<And>w. sh_pc s p = Wake_Cas w \<Longrightarrow> 0 < sint w"
    using inv p unfolding shm_wait_inv_def by blast+
  note update = shm_wait_update [OF inv p]
  show ?thesis
  proof (cases "sh_pc s p")
    case (Wake_Cas w)
    show ?thesis
    proof (cases "sh_wait s = w")
      case True
      then have "0 < shm_wait_value N s" using cas [OF Wake_Cas] shm_wait_bounds(1) [OF inv N] by simp
      then show ?thesis using run Wake_Cas True dead
        by (intro update [of s' Wake_Post]) (auto simp: shm_defs)
    next
      case False
      then show ?thesis using run Wake_Cas dead by (intro update [of s' Wake_Read]) (auto simp: shm_defs)
    qed
  next
    case Sem_Wait
    then show ?thesis using run dead sem
      by (intro update [of s' "Lock_Read None"]) (auto simp: shm_defs split: if_splits)
  next
    case (Lock_Read x)
    show ?thesis
      by (rule update [of s' "if sh_lock s = 0 then Lock_Cas x else lock_next mtx ncpu x"])
        (use run Lock_Read dead lock_next_no_sem in \<open>auto simp: shm_defs split: if_splits\<close>)
  next
    case (Lock_Cas x)
    show ?thesis
      by (rule update [of s' "if sh_lock s = 0 then Critical else lock_next mtx ncpu x"])
        (use run Lock_Cas dead lock_next_no_sem in \<open>auto simp: shm_defs split: if_splits\<close>)
  next
    case Wake_Read
    show ?thesis
      by (rule update [of s' "if sint (sh_wait s) \<le> 0 then Idle else Wake_Cas (sh_wait s)"])
        (use run Wake_Read dead in \<open>auto simp: shm_defs split: if_splits\<close>)
  next
    case Try_Read
    show ?thesis
      by (rule update [of s' "if sh_lock s = 0 then Try_Cas else Idle"])
        (use run Try_Read dead in \<open>auto simp: shm_defs split: if_splits\<close>)
  next
    case Try_Cas
    show ?thesis
      by (rule update [of s' "if sh_lock s = 0 then Critical else Idle"])
        (use run Try_Cas dead in \<open>auto simp: shm_defs split: if_splits\<close>)
  next
    case Wait_Add
    then show ?thesis using run dead sem by (intro update [of s' Wait_Read]) (auto simp: shm_defs)
  next
    case Wait_Read
    show ?thesis
      by (rule update [of s' "if sh_lock s = 0 then Wait_Cas else Sem_Wait"])
        (use run Wait_Read dead sem in \<open>auto simp: shm_defs split: if_splits\<close>)
  next
    case Wait_Cas
    show ?thesis
      by (rule update [of s' "if sh_lock s = 0 then Wait_Dec else Sem_Wait"])
        (use run Wait_Cas dead sem in \<open>auto simp: shm_defs split: if_splits\<close>)
  next
    case Wait_Dec
    then show ?thesis using run dead by (intro update [of s' Critical]) (auto simp: shm_defs)
  next
    case Unlock_Cas
    show ?thesis
      by (rule update [of s' "if sh_lock s = pid p then wake_entry mtx else Idle"])
        (use run Unlock_Cas dead in \<open>auto simp: shm_defs split: if_splits\<close>)
  next
    case (Force_Cas q)
    show ?thesis
      by (rule update [of s' "if sh_lock s = pid q then wake_entry mtx else Idle"])
        (use run Force_Cas dead in \<open>auto simp: shm_defs split: if_splits\<close>)
  next
    case Wake_Post
    then show ?thesis using run dead by (intro update [of s' Idle]) (auto simp: shm_defs)
  qed (use run in \<open>simp_all add: shm_run_def\<close>)
qed


text \<open>
  No wake-up is lost: while the lock is free and a process sleeps in \<^verbatim>\<open>sem_wait\<close>, the semaphore is
  positive or some process is at work in the mutex code.
\<close>

definition shm_active :: "shm_pc \<Rightarrow> bool" where
  "shm_active l \<longleftrightarrow> l \<noteq> Idle \<and> l \<noteq> Critical \<and> l \<noteq> Sem_Wait"

definition shm_awake_inv :: "nat \<Rightarrow> shm_state \<Rightarrow> bool" where
  "shm_awake_inv N s \<longleftrightarrow>
     (sh_lock s = 0 \<and> (\<exists>p<N. sh_pc s p = Sem_Wait) \<longrightarrow> 0 < sh_sem s \<or> (\<exists>p<N. shm_active (sh_pc s p)))"

lemma shm_awake_active: "p < N \<Longrightarrow> shm_active (sh_pc s p) \<Longrightarrow> shm_awake_inv N s"
  unfolding shm_awake_inv_def by blast

lemma shm_awake_locked: "sh_lock s \<noteq> 0 \<Longrightarrow> shm_awake_inv N s"
  unfolding shm_awake_inv_def by blast

lemma shm_active_simps [simp]:
  "shm_active Try_Read" "shm_active Try_Cas" "shm_active (Lock_Read x)" "shm_active (Lock_Cas x)"
  "shm_active Wait_Add" "shm_active Wait_Read" "shm_active Wait_Cas" "shm_active Wait_Dec"
  "shm_active Unlock_Cas" "shm_active (Force_Cas q)" "shm_active Wake_Read" "shm_active (Wake_Cas w)"
  "shm_active Wake_Post" "shm_active (lock_next mtx ncpu at)"
  using lock_next_cases [of mtx ncpu at] by (auto simp: shm_active_def)

definition shm_live_inv :: "ngx_shmtx_t \<Rightarrow> (nat \<Rightarrow> u64) \<Rightarrow> nat \<Rightarrow> shm_state \<Rightarrow> bool" where
  "shm_live_inv mtx pid N s \<longleftrightarrow> shm_owner_inv pid N s \<and> shm_wait_inv mtx N s \<and> shm_awake_inv N s"

lemma shm_awake_wake_read:
  assumes wait: "shm_wait_inv mtx N s" and N: "N < 2 ^ 62" and p: "p < N" "sh_pc s p = Wake_Read"
    and none: "sint (sh_wait s) \<le> 0"
  shows "shm_awake_inv N (goto p Idle s)"
  unfolding shm_awake_inv_def
proof (intro impI, elim conjE exE)
  fix q assume "q < N" "sh_pc (goto p Idle s) q = Sem_Wait"
  then have "sh_pc s q = Sem_Wait" by (cases "q = p") simp_all
  then have "0 < shm_count N shm_waiting s" using \<open>q < N\<close> by (intro pc_count_pos [of q]) simp_all
  then have "0 < int (sh_sem s) + int (shm_count N shm_posting s)"
    using none shm_wait_bounds(1) [OF wait N] unfolding shm_wait_value_def by linarith
  then consider "0 < sh_sem s" | "0 < shm_count N shm_posting s" by linarith
  then show "0 < sh_sem (goto p Idle s) \<or> (\<exists>p'<N. shm_active (sh_pc (goto p Idle s) p'))"
  proof cases
    case 2
    then obtain r where "r < N" "sh_pc s r = Wake_Post" by (rule pc_count_obtain)
    moreover from this have "r \<noteq> p" using p(2) by auto
    ultimately show ?thesis by (intro disjI2 exI [of _ r]) simp
  qed simp
qed

lemma shm_awake_run:
  assumes own: "shm_owner_inv pid N s" "shm_owner_inv pid N s'" and pid: "pids_ok pid N"
    and wait: "shm_wait_inv mtx N s" "shm_wait_inv mtx N s'" and N: "N < 2 ^ 62" and p: "p < N"
    and run: "shm_run mtx ncpu pid p s = Some s'"
  shows "shm_awake_inv N s'"
proof -
  have dead: "sh_dead s = {}" "sh_dead s' = {}"
    and nosem: "\<not> mtx_semaphore mtx \<Longrightarrow> \<forall>q<N. sh_pc s' q \<noteq> Sem_Wait"
    using wait unfolding shm_wait_inv_def shm_waiting_def by blast+
  have held: "sh_lock s' \<noteq> 0" if "shm_holding (sh_pc s' p)"
    using shm_ownerD(1) [OF own(2) p] that dead pids_ok_0 [OF pid p] by auto
  have held0: "sh_lock s = pid p" if "shm_holding (sh_pc s p)"
    using shm_ownerD(1) [OF own(1) p] that dead by auto
  have act: ?thesis if "shm_active (sh_pc s' p)" using shm_awake_active [OF p that] .
  have lck: ?thesis if "sh_lock s' \<noteq> 0" using shm_awake_locked [OF that] .
  show ?thesis
  proof (cases "sh_pc s p")
    case Wake_Read
    show ?thesis
    proof (cases "sint (sh_wait s) \<le> 0")
      case True
      then have "s' = goto p Idle s" using run Wake_Read by (simp add: shm_defs)
      then show ?thesis using shm_awake_wake_read [OF wait(1) N p Wake_Read True] by simp
    qed (use run Wake_Read act in \<open>auto simp: shm_defs\<close>)
  next
    case Unlock_Cas
    then have "sh_pc s' p = wake_entry mtx" using run held0 by (auto simp: shm_defs)
    then show ?thesis using act nosem
      by (cases "mtx_semaphore mtx") (auto simp: wake_entry_def shm_awake_inv_def)
  next
    case (Force_Cas q)
    then show ?thesis using shm_ownerD(2) [OF own(1) p] dead by simp
  next
    case Wake_Post
    then have "0 < sh_sem s'" using run by (auto simp: shm_defs)
    then show ?thesis by (simp add: shm_awake_inv_def)
  next
    case Wait_Dec
    then have "sh_pc s' p = Critical" using run by (auto simp: shm_defs)
    then show ?thesis using held lck by simp
  qed (use run act lck held in \<open>auto simp: shm_defs split: if_splits\<close>)
qed

lemma shm_live_step:
  assumes pid: "pids_ok pid N" and N: "N < 2 ^ 62" and inv: "shm_live_inv mtx pid N s"
    and step: "shm_step mtx ncpu pid N False s s'"
  shows "shm_live_inv mtx pid N s'"
proof -
  have own: "shm_owner_inv pid N s" and wait: "shm_wait_inv mtx N s" and awake: "shm_awake_inv N s"
    using inv by (simp_all add: shm_live_inv_def)
  have dead: "sh_dead s = {}" using wait by (simp add: shm_wait_inv_def)
  note own' = shm_owner_step [OF pid own step]
  have call: "shm_wait_inv mtx N (goto p l s)" "shm_awake_inv N (goto p l s)"
    if "p < N" "sh_pc s p = Idle \<or> sh_pc s p = Critical"
      "l = Try_Read \<or> l = Lock_Read None \<or> l = Unlock_Cas" for p l
  proof -
    show "shm_wait_inv mtx N (goto p l s)"
      by (rule shm_wait_update [OF wait that(1), of _ l]) (use that dead in auto)
    show "shm_awake_inv N (goto p l s)"
      by (rule shm_awake_active [OF that(1)]) (use that in auto)
  qed
  have "shm_wait_inv mtx N s' \<and> shm_awake_inv N s'"
    using step
  proof cases
    case (run p)
    have w: "shm_wait_inv mtx N s'" by (rule shm_wait_run [OF wait N run(1,3)])
    with shm_awake_run [OF own own' pid wait w N run(1,3)] show ?thesis by simp
  qed (use call dead in auto)
  with own' show ?thesis by (simp add: shm_live_inv_def)
qed

interpretation shm_live: transition_invariant "shm_step mtx ncpu pid N False" shm_init
  "\<lambda>s. pids_ok pid N \<and> N < 2 ^ 62 \<longrightarrow> shm_live_inv mtx pid N s" for mtx ncpu pid N
proof
  show "pids_ok pid N \<and> N < 2 ^ 62 \<longrightarrow> shm_live_inv mtx pid N shm_init"
    using shm_owner.inv_init [of pid N]
    by (simp add: shm_live_inv_def shm_wait_inv_def shm_awake_inv_def shm_init_def shm_wait_value_def
        pc_count_def)
qed (blast intro: shm_live_step)


section \<open>A concrete run\<close>

text \<open>A schedule is a list of processes to run, from a state in which they are inside the code.\<close>

fun shm_schedule ::
  "ngx_shmtx_t \<Rightarrow> nat \<Rightarrow> (nat \<Rightarrow> u64) \<Rightarrow> nat list \<Rightarrow> shm_state \<Rightarrow> shm_state option" where
  "shm_schedule mtx ncpu pid [] s = Some s"
| "shm_schedule mtx ncpu pid (p # ps) s =
     (case shm_run mtx ncpu pid p s of None \<Rightarrow> None | Some s' \<Rightarrow> shm_schedule mtx ncpu pid ps s')"

lemma shm_run_dead: "shm_run mtx ncpu pid p s = Some s' \<Longrightarrow> sh_dead s' = sh_dead s"
  by (cases "sh_pc s p") (auto simp: shm_defs split: if_splits)

lemma shm_schedule_steps:
  "shm_schedule mtx ncpu pid ps s = Some s' \<Longrightarrow> \<forall>p \<in> set ps. p < N \<Longrightarrow> sh_dead s = {} \<Longrightarrow>
    (shm_step mtx ncpu pid N crash)\<^sup>*\<^sup>* s s'"
proof (induction ps arbitrary: s)
  case (Cons p ps)
  then obtain s1 where s1: "shm_run mtx ncpu pid p s = Some s1"
    "shm_schedule mtx ncpu pid ps s1 = Some s'" by (auto split: option.splits)
  then have "shm_step mtx ncpu pid N crash s s1" using Cons.prems by (intro run) simp_all
  moreover have "(shm_step mtx ncpu pid N crash)\<^sup>*\<^sup>* s1 s'"
    using Cons s1 shm_run_dead [OF s1(1)] by simp
  ultimately show ?case by (rule converse_rtranclp_into_rtranclp)
qed simp

text \<open>Two processes call \<^verbatim>\<open>ngx_shmtx_lock\<close>; the second ends asleep while the first is in its critical section.\<close>

definition demo_pid :: "nat \<Rightarrow> u64" where
  "demo_pid p = of_nat (p + 1)"

definition demo_mtx :: ngx_shmtx_t where
  "demo_mtx = ngx_shmtx_create \<lparr>mtx_semaphore = False, mtx_spin = 0\<rparr> True"

definition demo_end :: shm_state where
  "demo_end = \<lparr>sh_lock = 1, sh_wait = 1, sh_sem = 0,
     sh_pc = (\<lambda>_. Idle)(0 := Critical, 1 := Sem_Wait), sh_dead = {}\<rparr>"

lemma demo_pids: "pids_ok demo_pid 2"
proof -
  have "{..<2::nat} = {0, 1}" by auto
  then show ?thesis by (auto simp: pids_ok_def demo_pid_def less_2_cases_iff)
qed

lemma demo_reachable: "shm_reachable demo_mtx 1 demo_pid 2 crash demo_end"
proof -
  let ?step = "shm_step demo_mtx 1 demo_pid 2 crash"
  let ?s1 = "goto 0 (Lock_Read None) shm_init" and ?s2 = "goto 1 (Lock_Read None) (goto 0 (Lock_Read None) shm_init)"
  have "?step shm_init ?s1" "?step ?s1 ?s2"
    by (rule call_lock; simp add: shm_init_def)+
  moreover have "shm_schedule demo_mtx 1 demo_pid [0, 0, 1, 1, 1] ?s2 = Some demo_end"
    by (simp add: shm_defs goto_def shm_init_def demo_end_def demo_pid_def demo_mtx_def
        ngx_shmtx_create_def lock_next_def fun_upd_twist)
  then have "?step\<^sup>*\<^sup>* ?s2 demo_end" by (rule shm_schedule_steps) (auto simp: shm_init_def)
  ultimately show ?thesis
    unfolding shm_reachable_def by (meson converse_rtranclp_into_rtranclp)
qed


section \<open>Correctness\<close>

text \<open>
  C6. Mutual exclusion of the shared mutex. In every interleaving of any number of processes, with
  processes crashing at any point and the master releasing the lock of crashed processes by force, no
  two live processes are between taking and releasing the lock; a live process there finds its own
  process identifier in the lock word, and while the word names a crashed process nobody is there.
\<close>

theorem shmtx_mutual_exclusion:
  assumes "pids_ok pid N" "shm_reachable mtx ncpu pid N crash s"
    and "p < N" "q < N" "p \<notin> sh_dead s" "q \<notin> sh_dead s"
    and "shm_holding (sh_pc s p)"
  shows "sh_lock s = pid p \<and> (shm_holding (sh_pc s q) \<longrightarrow> q = p) \<and> (\<forall>r < N. r \<in> sh_dead s \<longrightarrow> sh_lock s \<noteq> pid r)"
proof -
  have own: "shm_owner_inv pid N s"
    using shm_owner.reachable_inv assms(1,2) unfolding shm_reachable_def by blast
  from shm_ownerD(1) [OF own] assms have "sh_lock s = pid p"
    "shm_holding (sh_pc s q) \<Longrightarrow> sh_lock s = pid q" by blast+
  with assms pids_ok_eq [OF assms(1)] show ?thesis by metis
qed

theorem shmtx_mutual_exclusion_witness:
  "sh_lock demo_end = demo_pid 0 \<and> \<not> shm_holding (sh_pc demo_end 1)"
  using shmtx_mutual_exclusion [OF demo_pids demo_reachable [of True], of 0 1]
  by (simp add: demo_end_def)

text \<open>
  C7. No wake-up is lost. Without crashes, whenever a process sleeps on the semaphore and no process
  can take a step inside the mutex code, some process is in its critical section and will release
  the lock; a process never sleeps with the lock free and nobody at work. The wait counter never
  leaves the range of the number of processes, so its signed reading is exact, and the semaphore
  never exceeds it either.
\<close>

theorem shmtx_no_lost_wakeup:
  assumes "pids_ok pid N" "N < 2 ^ 62" "shm_reachable mtx ncpu pid N False s"
    and "p < N" "sh_pc s p = Sem_Wait"
  shows "((\<forall>q < N. shm_run mtx ncpu pid q s = None) \<longrightarrow> (\<exists>q < N. sh_pc s q = Critical \<and> sh_lock s = pid q)) \<and>
    \<bar>sint (sh_wait s)\<bar> \<le> int N \<and> sh_sem s \<le> N"
proof (intro conjI impI)
  have live: "shm_owner_inv pid N s" "shm_wait_inv mtx N s" "shm_awake_inv N s"
    using shm_live.reachable_inv [of mtx ncpu pid N s] assms(1-3)
    unfolding shm_reachable_def shm_live_inv_def by blast+
  show "\<bar>sint (sh_wait s)\<bar> \<le> int N" using shm_wait_bounds [OF live(2) assms(2)] by simp
  show "sh_sem s \<le> N" using live(2) unfolding shm_wait_inv_def by simp
  assume stuck: "\<forall>q < N. shm_run mtx ncpu pid q s = None"
  have pcs: "\<not> shm_active (sh_pc s q)" "sh_pc s q = Sem_Wait \<Longrightarrow> sh_sem s = 0" if "q < N" for q
    using stuck that by (cases "sh_pc s q"; auto simp: shm_defs shm_active_def split: if_splits)+
  have "sh_lock s \<noteq> 0"
    using live(3) pcs assms(4,5) unfolding shm_awake_inv_def by (metis less_irrefl_nat)
  then obtain q where q: "q < N" "sh_lock s = pid q" using shm_owner_lock [OF live(1)] by blast
  then have "shm_holding (sh_pc s q)"
    using shm_ownerD(1) [OF live(1)] live(2) unfolding shm_wait_inv_def by blast
  with pcs(1) [OF q(1)] have "sh_pc s q = Critical" unfolding shm_holding_def shm_active_def by auto
  with q show "\<exists>q < N. sh_pc s q = Critical \<and> sh_lock s = pid q" by blast
qed


theorem shmtx_no_lost_wakeup_witness:
  "\<exists>q < 2. sh_pc demo_end q = Critical \<and> sh_lock demo_end = demo_pid q"
proof -
  have "\<forall>q < 2. shm_run demo_mtx 1 demo_pid q demo_end = None"
    by (auto simp: less_2_cases_iff demo_end_def shm_defs)
  then show ?thesis
    using shmtx_no_lost_wakeup [OF demo_pids _ demo_reachable, of 1] by (simp add: demo_end_def)
qed

end
