(* ===== verification/Ngx_Rwlock.thy ===== *)
theory Ngx_Rwlock
  imports Ngx_Steps
begin

text \<open>
  nginx, \<^verbatim>\<open>src/core/ngx_rwlock.c\<close> and \<^verbatim>\<open>src/core/ngx_spinlock.c\<close>: the reader-writer lock on one atomic word and
  the plain spin lock. As for the shared mutex, a step is one access to the word, and all
  interleavings of any number of processes are considered.
\<close>

section \<open>The reader-writer lock\<close>

definition NGX_RWLOCK_SPIN :: nat where "NGX_RWLOCK_SPIN = 2048"
definition NGX_RWLOCK_WLOCK :: u64 where "NGX_RWLOCK_WLOCK = - 1"

text \<open>
  Points between two accesses. The attempts carry the spin count, \<^const>\<open>None\<close> for the one before the
  spin loop; \<^verbatim>\<open>R_Cas\<close> carries the value read. The flag of the unlock points says whether the caller
  holds the lock for writing.
\<close>

datatype rw_pc =
  RW_Idle | W_Read "nat option" | W_Cas "nat option" | Writing
| R_Read "nat option" | R_Cas "nat option" u64 | Reading
| Unlock_Read bool | Unlock_Cas bool | Unlock_Add bool
| Downgrade_Read | Downgrade_Write

record rw_state =
  rw_word :: u64
  rw_pcs :: "nat \<Rightarrow> rw_pc"

definition rw_goto :: "nat \<Rightarrow> rw_pc \<Rightarrow> rw_state \<Rightarrow> rw_state" where
  "rw_goto p l s = s\<lparr>rw_pcs := (rw_pcs s)(p := l)\<rparr>"

text \<open>The next attempt: the spin loop on a multiprocessor, or the outer loop again after a yield.\<close>

definition spin_next :: "nat \<Rightarrow> nat \<Rightarrow> nat option \<Rightarrow> nat option" where
  "spin_next ncpu spin at =
     (let n = (case at of None \<Rightarrow> 1 | Some n \<Rightarrow> n * 2)
      in if (at \<noteq> None \<or> ncpu > 1) \<and> n < spin then Some n else None)"

definition ngx_rwlock_wlock :: "nat \<Rightarrow> nat \<Rightarrow> rw_state \<Rightarrow> rw_state" where
  "ngx_rwlock_wlock ncpu p s =
     (case rw_pcs s p of
        W_Read at \<Rightarrow>
          if rw_word s = 0 then rw_goto p (W_Cas at) s
          else rw_goto p (W_Read (spin_next ncpu NGX_RWLOCK_SPIN at)) s
      | W_Cas at \<Rightarrow>
          if rw_word s = 0 then rw_goto p Writing (s\<lparr>rw_word := NGX_RWLOCK_WLOCK\<rparr>)
          else rw_goto p (W_Read (spin_next ncpu NGX_RWLOCK_SPIN at)) s
      | _ \<Rightarrow> s)"

definition ngx_rwlock_rlock :: "nat \<Rightarrow> nat \<Rightarrow> rw_state \<Rightarrow> rw_state" where
  "ngx_rwlock_rlock ncpu p s =
     (case rw_pcs s p of
        R_Read at \<Rightarrow>
          let readers = rw_word s in
          if readers \<noteq> NGX_RWLOCK_WLOCK then rw_goto p (R_Cas at readers) s
          else rw_goto p (R_Read (spin_next ncpu NGX_RWLOCK_SPIN at)) s
      | R_Cas at readers \<Rightarrow>
          if rw_word s = readers then rw_goto p Reading (s\<lparr>rw_word := readers + 1\<rparr>)
          else rw_goto p (R_Read (spin_next ncpu NGX_RWLOCK_SPIN at)) s
      | _ \<Rightarrow> s)"

definition ngx_rwlock_unlock :: "nat \<Rightarrow> rw_state \<Rightarrow> rw_state" where
  "ngx_rwlock_unlock p s =
     (case rw_pcs s p of
        Unlock_Read w \<Rightarrow>
          if rw_word s = NGX_RWLOCK_WLOCK then rw_goto p (Unlock_Cas w) s else rw_goto p (Unlock_Add w) s
      | Unlock_Cas w \<Rightarrow>
          rw_goto p RW_Idle (if rw_word s = NGX_RWLOCK_WLOCK then s\<lparr>rw_word := 0\<rparr> else s)
      | Unlock_Add w \<Rightarrow> rw_goto p RW_Idle (s\<lparr>rw_word := rw_word s + (- 1)\<rparr>)
      | _ \<Rightarrow> s)"

definition ngx_rwlock_downgrade :: "nat \<Rightarrow> rw_state \<Rightarrow> rw_state" where
  "ngx_rwlock_downgrade p s =
     (case rw_pcs s p of
        Downgrade_Read \<Rightarrow>
          if rw_word s = NGX_RWLOCK_WLOCK then rw_goto p Downgrade_Write s else rw_goto p Reading s
      | Downgrade_Write \<Rightarrow> rw_goto p Reading (s\<lparr>rw_word := 1\<rparr>)
      | _ \<Rightarrow> s)"

text \<open>The next access of a process that is inside one of the four functions.\<close>

definition rw_run :: "nat \<Rightarrow> nat \<Rightarrow> rw_state \<Rightarrow> rw_state option" where
  "rw_run ncpu p s =
     (case rw_pcs s p of
        RW_Idle \<Rightarrow> None | Reading \<Rightarrow> None | Writing \<Rightarrow> None
      | W_Read _ \<Rightarrow> Some (ngx_rwlock_wlock ncpu p s)
      | W_Cas _ \<Rightarrow> Some (ngx_rwlock_wlock ncpu p s)
      | R_Read _ \<Rightarrow> Some (ngx_rwlock_rlock ncpu p s)
      | R_Cas _ _ \<Rightarrow> Some (ngx_rwlock_rlock ncpu p s)
      | Downgrade_Read \<Rightarrow> Some (ngx_rwlock_downgrade p s)
      | Downgrade_Write \<Rightarrow> Some (ngx_rwlock_downgrade p s)
      | _ \<Rightarrow> Some (ngx_rwlock_unlock p s))"

inductive rw_step :: "nat \<Rightarrow> nat \<Rightarrow> rw_state \<Rightarrow> rw_state \<Rightarrow> bool" for ncpu N where
  rw_access: "p < N \<Longrightarrow> rw_run ncpu p s = Some s' \<Longrightarrow> rw_step ncpu N s s'"
| call_wlock: "p < N \<Longrightarrow> rw_pcs s p = RW_Idle \<Longrightarrow> rw_step ncpu N s (rw_goto p (W_Read None) s)"
| call_rlock: "p < N \<Longrightarrow> rw_pcs s p = RW_Idle \<Longrightarrow> rw_step ncpu N s (rw_goto p (R_Read None) s)"
| call_unlock_w: "p < N \<Longrightarrow> rw_pcs s p = Writing \<Longrightarrow> rw_step ncpu N s (rw_goto p (Unlock_Read True) s)"
| call_unlock_r: "p < N \<Longrightarrow> rw_pcs s p = Reading \<Longrightarrow> rw_step ncpu N s (rw_goto p (Unlock_Read False) s)"
| call_downgrade: "p < N \<Longrightarrow> rw_pcs s p = Writing \<Longrightarrow> rw_step ncpu N s (rw_goto p Downgrade_Read s)"

definition rw_init :: rw_state where
  "rw_init = \<lparr>rw_word = 0, rw_pcs = (\<lambda>_. RW_Idle)\<rparr>"


section \<open>The spin lock\<close>

datatype spin_pc = SP_Idle | SP_Read "nat option" | SP_Cas "nat option" | SP_Held

record spin_state =
  spin_word :: u64
  spin_pcs :: "nat \<Rightarrow> spin_pc"

definition ngx_spinlock :: "nat \<Rightarrow> nat \<Rightarrow> u64 \<Rightarrow> nat \<Rightarrow> spin_state \<Rightarrow> spin_state" where
  "ngx_spinlock ncpu spin v p s =
     (case spin_pcs s p of
        SP_Read at \<Rightarrow>
          s\<lparr>spin_pcs := (spin_pcs s)
              (p := if spin_word s = 0 then SP_Cas at else SP_Read (spin_next ncpu spin at))\<rparr>
      | SP_Cas at \<Rightarrow>
          if spin_word s = 0
          then s\<lparr>spin_word := v, spin_pcs := (spin_pcs s)(p := SP_Held)\<rparr>
          else s\<lparr>spin_pcs := (spin_pcs s)(p := SP_Read (spin_next ncpu spin at))\<rparr>
      | _ \<Rightarrow> s)"

text \<open>The macro \<^verbatim>\<open>ngx_unlock\<close>.\<close>

definition ngx_unlock :: "nat \<Rightarrow> spin_state \<Rightarrow> spin_state" where
  "ngx_unlock p s = s\<lparr>spin_word := 0, spin_pcs := (spin_pcs s)(p := SP_Idle)\<rparr>"

inductive spin_step :: "nat \<Rightarrow> nat \<Rightarrow> (nat \<Rightarrow> u64) \<Rightarrow> nat \<Rightarrow> spin_state \<Rightarrow> spin_state \<Rightarrow> bool"
  for ncpu spin v N where
  spin_call: "p < N \<Longrightarrow> spin_pcs s p = SP_Idle \<Longrightarrow>
    spin_step ncpu spin v N s (s\<lparr>spin_pcs := (spin_pcs s)(p := SP_Read None)\<rparr>)"
| spin_access: "p < N \<Longrightarrow> spin_pcs s p \<noteq> SP_Idle \<Longrightarrow> spin_pcs s p \<noteq> SP_Held \<Longrightarrow>
    spin_step ncpu spin v N s (ngx_spinlock ncpu spin (v p) p s)"
| spin_release: "p < N \<Longrightarrow> spin_pcs s p = SP_Held \<Longrightarrow> spin_step ncpu spin v N s (ngx_unlock p s)"

definition spin_init :: spin_state where
  "spin_init = \<lparr>spin_word = 0, spin_pcs = (\<lambda>_. SP_Idle)\<rparr>"


section \<open>The word counts the readers\<close>

definition rw_writer :: "rw_pc \<Rightarrow> bool" where
  "rw_writer l \<longleftrightarrow> (case l of Writing \<Rightarrow> True | Unlock_Read w \<Rightarrow> w | Unlock_Cas w \<Rightarrow> w | Unlock_Add w \<Rightarrow> w
     | Downgrade_Read \<Rightarrow> True | Downgrade_Write \<Rightarrow> True | _ \<Rightarrow> False)"

definition rw_reader :: "rw_pc \<Rightarrow> bool" where
  "rw_reader l \<longleftrightarrow> (case l of Reading \<Rightarrow> True | Unlock_Read w \<Rightarrow> \<not> w | Unlock_Cas w \<Rightarrow> \<not> w
     | Unlock_Add w \<Rightarrow> \<not> w | _ \<Rightarrow> False)"

abbreviation writers :: "nat \<Rightarrow> rw_state \<Rightarrow> nat" where
  "writers N s \<equiv> pc_count N rw_writer (rw_pcs s)"

abbreviation readers :: "nat \<Rightarrow> rw_state \<Rightarrow> nat" where
  "readers N s \<equiv> pc_count N rw_reader (rw_pcs s)"

definition rw_inv :: "nat \<Rightarrow> rw_state \<Rightarrow> bool" where
  "rw_inv N s \<longleftrightarrow>
     (if rw_word s = NGX_RWLOCK_WLOCK then writers N s = 1 \<and> readers N s = 0
      else writers N s = 0 \<and> rw_word s = of_nat (readers N s)) \<and>
     (\<forall>p<N. rw_pcs s p \<noteq> Unlock_Cas False \<and> rw_pcs s p \<noteq> Unlock_Add True \<and>
        (\<forall>at. rw_pcs s p \<noteq> R_Cas at NGX_RWLOCK_WLOCK))"

lemma rw_class_simps [simp]:
  "rw_writer Writing" "rw_writer Downgrade_Read" "rw_writer Downgrade_Write"
  "rw_writer (Unlock_Read w) = w" "rw_writer (Unlock_Cas w) = w" "rw_writer (Unlock_Add w) = w"
  "\<not> rw_writer RW_Idle" "\<not> rw_writer (W_Read at)" "\<not> rw_writer (W_Cas at)" "\<not> rw_writer (R_Read at)"
  "\<not> rw_writer (R_Cas at r)" "\<not> rw_writer Reading"
  "rw_reader Reading" "rw_reader (Unlock_Read w) = (\<not> w)" "rw_reader (Unlock_Cas w) = (\<not> w)"
  "rw_reader (Unlock_Add w) = (\<not> w)" "\<not> rw_reader RW_Idle" "\<not> rw_reader (W_Read at)"
  "\<not> rw_reader (W_Cas at)" "\<not> rw_reader (R_Read at)" "\<not> rw_reader (R_Cas at r)" "\<not> rw_reader Writing"
  "\<not> rw_reader Downgrade_Read" "\<not> rw_reader Downgrade_Write"
  by (simp_all add: rw_writer_def rw_reader_def)

lemma rw_goto_simps [simp]:
  "rw_pcs (rw_goto p l s) = (rw_pcs s)(p := l)" "rw_word (rw_goto p l s) = rw_word s"
  by (simp_all add: rw_goto_def)

lemmas rw_defs = rw_run_def ngx_rwlock_wlock_def ngx_rwlock_rlock_def ngx_rwlock_unlock_def
  ngx_rwlock_downgrade_def

lemma of_nat_not_wlock: "n \<le> N \<Longrightarrow> N < 2 ^ 64 - 1 \<Longrightarrow> of_nat n \<noteq> NGX_RWLOCK_WLOCK"
proof
  assume n: "n \<le> N" "N < 2 ^ 64 - 1" and eq: "of_nat n = NGX_RWLOCK_WLOCK"
  have "unat (of_nat n :: u64) = n" using n by (simp add: unat_of_nat take_bit_nat_eq_self)
  moreover have "unat NGX_RWLOCK_WLOCK = 2 ^ 64 - 1" by (simp add: NGX_RWLOCK_WLOCK_def unsigned_minus_1_eq_mask mask_eq_exp_minus_1)
  ultimately show False using n unfolding eq by simp
qed

text \<open>A step that changes neither class of the process nor the word, or changes them together.\<close>

lemma rw_inv_update:
  assumes inv: "rw_inv N s" and N: "N < 2 ^ 64 - 1" and p: "p < N" "rw_pcs s' = (rw_pcs s)(p := l)"
    and l: "l \<noteq> Unlock_Cas False" "l \<noteq> Unlock_Add True" "\<And>at. l \<noteq> R_Cas at NGX_RWLOCK_WLOCK"
    and change:
      "rw_word s' = rw_word s \<and> rw_writer l = rw_writer (rw_pcs s p) \<and> rw_reader l = rw_reader (rw_pcs s p) \<or>
       rw_word s = 0 \<and> rw_word s' = NGX_RWLOCK_WLOCK \<and> rw_writer l \<and> \<not> rw_reader l \<and>
         \<not> rw_writer (rw_pcs s p) \<and> \<not> rw_reader (rw_pcs s p) \<or>
       rw_word s \<noteq> NGX_RWLOCK_WLOCK \<and> rw_word s' = rw_word s + 1 \<and> rw_reader l \<and> \<not> rw_writer l \<and>
         \<not> rw_writer (rw_pcs s p) \<and> \<not> rw_reader (rw_pcs s p) \<or>
       rw_writer (rw_pcs s p) \<and> \<not> rw_reader (rw_pcs s p) \<and> \<not> rw_writer l \<and>
         rw_word s' = of_bool (rw_reader l) \<or>
       rw_reader (rw_pcs s p) \<and> \<not> rw_writer (rw_pcs s p) \<and> \<not> rw_writer l \<and> \<not> rw_reader l \<and>
         rw_word s' = rw_word s - 1"
  shows "rw_inv N s'"
proof -
  let ?W = "writers N s" and ?R = "readers N s" and ?W' = "writers N s'" and ?R' = "readers N s'"
  note cnt = pc_count_update [OF p]
  have old: "if rw_word s = NGX_RWLOCK_WLOCK then ?W = 1 \<and> ?R = 0 else ?W = 0 \<and> rw_word s = of_nat ?R"
    using inv unfolding rw_inv_def by blast
  have W: "?W \<ge> 1" if "rw_writer (rw_pcs s p)" using pc_count_pos [OF p(1), of rw_writer] that by (simp add: Suc_le_eq)
  have R: "?R \<ge> 1" if "rw_reader (rw_pcs s p)" using pc_count_pos [OF p(1), of rw_reader] that by (simp add: Suc_le_eq)
  have small: "of_nat ?R' \<noteq> NGX_RWLOCK_WLOCK" by (rule of_nat_not_wlock [OF pc_count_le N])
  have "if rw_word s' = NGX_RWLOCK_WLOCK then ?W' = 1 \<and> ?R' = 0 else ?W' = 0 \<and> rw_word s' = of_nat ?R'"
    using change
  proof (elim disjE conjE)
    assume "rw_word s' = rw_word s" "rw_writer l = rw_writer (rw_pcs s p)" "rw_reader l = rw_reader (rw_pcs s p)"
    moreover from this have "?W' = ?W" "?R' = ?R" using cnt [of rw_writer] cnt [of rw_reader] by simp_all
    ultimately show ?thesis using old by simp
  next
    assume h: "rw_word s = 0" "rw_word s' = NGX_RWLOCK_WLOCK" "rw_writer l" "\<not> rw_reader l"
      "\<not> rw_writer (rw_pcs s p)" "\<not> rw_reader (rw_pcs s p)"
    have "0 \<noteq> NGX_RWLOCK_WLOCK" by (simp add: NGX_RWLOCK_WLOCK_def)
    with old h(1) have "?W = 0" "of_nat ?R = (0 :: u64)" by simp_all
    moreover have "unat (of_nat ?R :: u64) = ?R"
      using pc_count_le [of N rw_reader "rw_pcs s"] N by (simp add: unat_of_nat take_bit_nat_eq_self)
    ultimately have "?R = 0" by simp
    with \<open>?W = 0\<close> h show ?thesis using cnt [of rw_writer] cnt [of rw_reader] by simp
  next
    assume h: "rw_word s \<noteq> NGX_RWLOCK_WLOCK" "rw_word s' = rw_word s + 1" "rw_reader l" "\<not> rw_writer l"
      "\<not> rw_writer (rw_pcs s p)" "\<not> rw_reader (rw_pcs s p)"
    then have "?W' = 0" "?R' = ?R + 1" using cnt [of rw_writer] cnt [of rw_reader] old by simp_all
    then show ?thesis using h(1,2) old small by (simp add: add.commute)
  next
    assume h: "rw_writer (rw_pcs s p)" "\<not> rw_reader (rw_pcs s p)" "\<not> rw_writer l"
      "rw_word s' = of_bool (rw_reader l)"
    then have "?W = 1" "?R = 0" using old W by (simp_all split: if_splits)
    then have "?W' = 0" "?R' = of_bool (rw_reader l)" using h cnt [of rw_writer] cnt [of rw_reader]
      by (cases "rw_reader l"; simp)+
    then show ?thesis using h(4) small by simp
  next
    assume h: "rw_reader (rw_pcs s p)" "\<not> rw_writer (rw_pcs s p)" "\<not> rw_writer l" "\<not> rw_reader l"
      "rw_word s' = rw_word s - 1"
    then have "?W = 0" "rw_word s = of_nat ?R" "?R \<ge> 1" using old R by (simp_all split: if_splits)
    moreover from this h have "?W' = 0" "?R' = ?R - 1" using cnt [of rw_writer] cnt [of rw_reader] by simp_all
    ultimately show ?thesis using h(5) small by (simp add: of_nat_diff)
  qed
  moreover have "\<forall>q<N. rw_pcs s' q \<noteq> Unlock_Cas False \<and> rw_pcs s' q \<noteq> Unlock_Add True \<and>
      (\<forall>at. rw_pcs s' q \<noteq> R_Cas at NGX_RWLOCK_WLOCK)"
    using inv l p(2) unfolding rw_inv_def by simp
  ultimately show ?thesis unfolding rw_inv_def by simp
qed


lemma rw_inv_word:
  assumes "rw_inv N s" "p < N"
  shows "rw_writer (rw_pcs s p) \<Longrightarrow> rw_word s = NGX_RWLOCK_WLOCK"
    and "rw_reader (rw_pcs s p) \<Longrightarrow> rw_word s \<noteq> NGX_RWLOCK_WLOCK"
    and "rw_pcs s p \<noteq> Unlock_Cas False" "rw_pcs s p \<noteq> Unlock_Add True"
    and "rw_pcs s p \<noteq> R_Cas at NGX_RWLOCK_WLOCK"
  using assms pc_count_pos [OF assms(2), of rw_writer "rw_pcs s"]
    pc_count_pos [OF assms(2), of rw_reader "rw_pcs s"]
  unfolding rw_inv_def by (auto split: if_splits)

lemma rw_inv_run:
  assumes inv: "rw_inv N s" and N: "N < 2 ^ 64 - 1" and p: "p < N" and run: "rw_run ncpu p s = Some s'"
  shows "rw_inv N s'"
proof -
  note word = rw_inv_word [OF inv p]
  note update = rw_inv_update [OF inv N p]
  show ?thesis
  proof (cases "rw_pcs s p")
    case (W_Read x)
    then show ?thesis using run
      by (intro update [of s' "if rw_word s = 0 then W_Cas x else W_Read (spin_next ncpu NGX_RWLOCK_SPIN x)"])
        (auto simp: rw_defs split: if_splits)
  next
    case (W_Cas x)
    then show ?thesis using run
      by (intro update [of s' "if rw_word s = 0 then Writing else W_Read (spin_next ncpu NGX_RWLOCK_SPIN x)"])
        (auto simp: rw_defs split: if_splits)
  next
    case (R_Read x)
    then show ?thesis using run
      by (intro update [of s' "if rw_word s \<noteq> NGX_RWLOCK_WLOCK then R_Cas x (rw_word s)
          else R_Read (spin_next ncpu NGX_RWLOCK_SPIN x)"])
        (auto simp: rw_defs Let_def split: if_splits)
  next
    case (R_Cas x r)
    then show ?thesis using run word(5)
      by (intro update [of s' "if rw_word s = r then Reading else R_Read (spin_next ncpu NGX_RWLOCK_SPIN x)"])
        (auto simp: rw_defs split: if_splits)
  next
    case (Unlock_Read w)
    then show ?thesis using run word(1,2)
      by (cases w; intro update [of s' "if rw_word s = NGX_RWLOCK_WLOCK then Unlock_Cas w else Unlock_Add w"])
        (auto simp: rw_defs split: if_splits)
  next
    case (Unlock_Cas w)
    then have "w" using word(3) by (cases w) auto
    then show ?thesis using run Unlock_Cas word(1)
      by (intro update [of s' RW_Idle]) (auto simp: rw_defs split: if_splits)
  next
    case (Unlock_Add w)
    then have "\<not> w" using word(4) by (cases w) auto
    then show ?thesis using run Unlock_Add by (intro update [of s' RW_Idle]) (auto simp: rw_defs)
  next
    case Downgrade_Read
    then show ?thesis using run word(1)
      by (intro update [of s' Downgrade_Write]) (auto simp: rw_defs split: if_splits)
  next
    case Downgrade_Write
    then show ?thesis using run by (intro update [of s' Reading]) (auto simp: rw_defs)
  qed (use run in \<open>simp_all add: rw_run_def\<close>)
qed

lemma rw_inv_step:
  assumes inv: "rw_inv N s" and N: "N < 2 ^ 64 - 1" and step: "rw_step ncpu N s s'"
  shows "rw_inv N s'"
proof -
  have call: "rw_inv N (rw_goto p l s)"
    if "p < N" "rw_writer l = rw_writer (rw_pcs s p)" "rw_reader l = rw_reader (rw_pcs s p)"
      "l \<noteq> Unlock_Cas False" "l \<noteq> Unlock_Add True" "\<And>at. l \<noteq> R_Cas at NGX_RWLOCK_WLOCK" for p l
    using that by (intro rw_inv_update [OF inv N, of p _ l]) simp_all
  from step show ?thesis
  proof cases
    case (rw_access p)
    then show ?thesis by (intro rw_inv_run [OF inv N])
  qed (simp_all add: call)
qed

interpretation rw: transition_invariant "rw_step ncpu N" rw_init "\<lambda>s. N < 2 ^ 64 - 1 \<longrightarrow> rw_inv N s"
  for ncpu N
proof
  have "0 \<noteq> NGX_RWLOCK_WLOCK" by (simp add: NGX_RWLOCK_WLOCK_def)
  then show "N < 2 ^ 64 - 1 \<longrightarrow> rw_inv N rw_init"
    by (simp add: rw_init_def rw_inv_def pc_count_def)
qed (blast intro: rw_inv_step)


section \<open>The spin lock\<close>

definition spin_inv :: "nat \<Rightarrow> spin_state \<Rightarrow> bool" where
  "spin_inv N s \<longleftrightarrow> pc_count N (\<lambda>l. l = SP_Held) (spin_pcs s) = of_bool (spin_word s \<noteq> 0)"

lemma spin_inv_step:
  assumes inv: "spin_inv N s" and v: "\<forall>p < N. v p \<noteq> 0" and step: "spin_step ncpu spin v N s s'"
  shows "spin_inv N s'"
  using step
proof cases
  case (spin_call p)
  then show ?thesis using inv pc_count_update [OF spin_call(2), of "spin_pcs s'" "spin_pcs s" "SP_Read None" "\<lambda>l. l = SP_Held"]
    by (cases "spin_word s = 0") (simp_all add: spin_inv_def)
next
  case (spin_access p)
  have upd: "int (pc_count N (\<lambda>l. l = SP_Held) ((spin_pcs s)(p := l))) =
      int (pc_count N (\<lambda>l. l = SP_Held) (spin_pcs s)) + of_bool (l = SP_Held)" for l
    using pc_count_update [OF spin_access(2) refl, of "\<lambda>l. l = SP_Held" "spin_pcs s" l] spin_access(4) by simp
  show ?thesis
    using spin_access inv v upd unfolding spin_inv_def
    by (cases "spin_pcs s p") (auto simp: ngx_spinlock_def simp flip: of_nat_eq_iff [where 'a = int])
next
  case (spin_release p)
  have "0 < pc_count N (\<lambda>l. l = SP_Held) (spin_pcs s)" using spin_release by (intro pc_count_pos [of p]) simp_all
  then show ?thesis
    using spin_release inv pc_count_update [OF spin_release(2) refl, of "\<lambda>l. l = SP_Held" "spin_pcs s" SP_Idle]
    by (auto simp: spin_inv_def ngx_unlock_def split: if_splits)
qed

interpretation spin: transition_invariant "spin_step ncpu spin v N" spin_init
  "\<lambda>s. (\<forall>p < N. v p \<noteq> 0) \<longrightarrow> spin_inv N s" for ncpu spin v N
proof
  show "(\<forall>p < N. v p \<noteq> 0) \<longrightarrow> spin_inv N spin_init"
    by (simp add: spin_init_def spin_inv_def pc_count_def)
qed (blast intro: spin_inv_step)

lemma spinlock_exclusion:
  assumes "\<forall>p < N. v p \<noteq> 0" "(spin_step ncpu spin v N)\<^sup>*\<^sup>* spin_init s"
    "p < N" "q < N" "spin_pcs s p = SP_Held" "spin_pcs s q = SP_Held"
  shows "p = q \<and> spin_word s \<noteq> 0"
proof -
  have "spin_inv N s" using spin.reachable_inv [OF assms(2)] assms(1) by blast
  then show ?thesis
    using pc_count_two [of p N q "\<lambda>l. l = SP_Held" "spin_pcs s"] assms(3-6)
      pc_count_pos [of p N "\<lambda>l. l = SP_Held" "spin_pcs s"]
    by (auto simp: spin_inv_def split: if_splits)
qed


section \<open>Correctness\<close>

text \<open>
  C21. The reader-writer lock. In every interleaving of fewer than \<open>2\<^sup>6\<^sup>4 - 1\<close> processes (the value
  of the word that marks a writer is never reached by counting readers): a writer excludes every
  other writer and every reader, and the word is the number of readers or the writer's mark; a
  process at the start of \<^verbatim>\<open>ngx_rwlock_rlock\<close> that runs alone while no writer holds the lock has it
  after two accesses, and so has one at the start of \<^verbatim>\<open>ngx_rwlock_wlock\<close> while nobody holds it; the
  lock never blocks inside its code.
\<close>

theorem rwlock_correct:
  assumes "N < 2 ^ 64 - 1" "(rw_step ncpu N)\<^sup>*\<^sup>* rw_init s" "p < N"
  shows "(rw_writer (rw_pcs s p) \<longrightarrow>
      rw_word s = NGX_RWLOCK_WLOCK \<and> (\<forall>q < N. q \<noteq> p \<longrightarrow> \<not> rw_writer (rw_pcs s q) \<and> \<not> rw_reader (rw_pcs s q))) \<and>
    (writers N s = 0 \<longrightarrow> unat (rw_word s) = readers N s) \<and>
    (\<forall>at. rw_pcs s p = R_Read at \<and> writers N s = 0 \<longrightarrow>
      (\<exists>s1 s2. rw_run ncpu p s = Some s1 \<and> rw_run ncpu p s1 = Some s2 \<and> rw_pcs s2 p = Reading)) \<and>
    (\<forall>at. rw_pcs s p = W_Read at \<and> writers N s = 0 \<and> readers N s = 0 \<longrightarrow>
      (\<exists>s1 s2. rw_run ncpu p s = Some s1 \<and> rw_run ncpu p s1 = Some s2 \<and> rw_pcs s2 p = Writing)) \<and>
    (rw_run ncpu p s = None \<longrightarrow> rw_pcs s p \<in> {RW_Idle, Reading, Writing})"
proof (intro conjI impI allI)
  have inv: "rw_inv N s" using rw.reachable_inv [OF assms(2)] assms(1) by blast
  then have word: "if rw_word s = NGX_RWLOCK_WLOCK then writers N s = 1 \<and> readers N s = 0
      else writers N s = 0 \<and> rw_word s = of_nat (readers N s)" unfolding rw_inv_def by blast
  {
    assume w: "rw_writer (rw_pcs s p)"
    then show mark: "rw_word s = NGX_RWLOCK_WLOCK" by (rule rw_inv_word(1) [OF inv assms(3)])
    fix q assume q: "q < N" "q \<noteq> p"
    show "\<not> rw_writer (rw_pcs s q)"
      using pc_count_two [of p N q rw_writer "rw_pcs s"] w word mark assms(3) q by auto
    show "\<not> rw_reader (rw_pcs s q)" using rw_inv_word(2) [OF inv q(1)] mark by blast
  next
    assume "writers N s = 0"
    then have "rw_word s = of_nat (readers N s)" using word by (simp split: if_splits)
    moreover have "readers N s < 2 ^ 64" using pc_count_le [of N rw_reader "rw_pcs s"] assms(1) by simp
    ultimately show "unat (rw_word s) = readers N s" by (simp add: unat_of_nat take_bit_nat_eq_self)
  next
    fix at assume "rw_pcs s p = R_Read at \<and> writers N s = 0"
    then show "\<exists>s1 s2. rw_run ncpu p s = Some s1 \<and> rw_run ncpu p s1 = Some s2 \<and> rw_pcs s2 p = Reading"
      using word by (simp add: rw_defs split: if_splits)
  next
    fix at assume "rw_pcs s p = W_Read at \<and> writers N s = 0 \<and> readers N s = 0"
    then show "\<exists>s1 s2. rw_run ncpu p s = Some s1 \<and> rw_run ncpu p s1 = Some s2 \<and> rw_pcs s2 p = Writing"
      using word by (simp add: rw_defs split: if_splits)
  next
    assume "rw_run ncpu p s = None"
    then show "rw_pcs s p \<in> {RW_Idle, Reading, Writing}" by (cases "rw_pcs s p") (simp_all add: rw_run_def)
  }
qed

theorem rwlock_correct_witness:
  "\<exists>s. (rw_step 1 3)\<^sup>*\<^sup>* rw_init s \<and> rw_word s = NGX_RWLOCK_WLOCK \<and> \<not> rw_reader (rw_pcs s 2)"
proof -
  let ?s1 = "rw_goto 0 (W_Read None) rw_init" and ?s2 = "rw_goto 0 (W_Cas None) rw_init"
  let ?s3 = "rw_goto 0 Writing (rw_init\<lparr>rw_word := NGX_RWLOCK_WLOCK\<rparr>)"
  have "rw_step 1 3 rw_init ?s1" by (rule call_wlock) (simp_all add: rw_init_def)
  moreover have "rw_step 1 3 ?s1 ?s2" "rw_step 1 3 ?s2 ?s3"
    by (rule rw_access [of 0]; simp add: rw_defs rw_init_def rw_goto_def)+
  ultimately have r: "(rw_step 1 3)\<^sup>*\<^sup>* rw_init ?s3" by (meson r_into_rtranclp rtranclp_trans)
  from rwlock_correct [OF _ r, of 0] r show ?thesis by (intro exI [of _ ?s3]) (auto simp: rw_init_def)
qed

end
