(* ===== verification/Ngx_Upstream_Rr.thy ===== *)
theory Ngx_Upstream_Rr
  imports Prelude
begin

text \<open>
  nginx, \<^verbatim>\<open>src/http/ngx_http_upstream_round_robin.c\<close>: the smooth weighted round robin that chooses the
  upstream server of a request, with its health checks, connection limits, backup servers and the
  bitmap of peers a request has tried. The peers of a group are a list in the order of the linked
  list; the locks around the operations are those of \<^verbatim>\<open>ngx_rwlock.c\<close>.
\<close>

section \<open>Peers\<close>

record rr_peer =
  pr_name :: string
  pr_current_weight :: int
  pr_effective_weight :: int
  pr_weight :: int
  pr_conns :: nat
  pr_max_conns :: nat
  pr_fails :: nat
  pr_accessed :: int
  pr_checked :: int
  pr_max_fails :: nat
  pr_fail_timeout :: int
  pr_down :: bool

record rr_peers =
  prs_number :: nat
  prs_total_weight :: int
  prs_tries :: nat
  prs_single :: bool
  prs_weighted :: bool
  prs_peer :: "rr_peer list"

record rr_server =
  sv_addrs :: "string list"
  sv_weight :: int
  sv_max_conns :: nat
  sv_max_fails :: nat
  sv_fail_timeout :: int
  sv_down :: bool
  sv_backup :: bool

text \<open>The loop that fills the peers of the primary or of the backup group.\<close>

definition rr_server_peers :: "rr_server \<Rightarrow> rr_peer list" where
  "rr_server_peers sv = map (\<lambda>a.
     \<lparr>pr_name = a, pr_current_weight = 0, pr_effective_weight = sv_weight sv, pr_weight = sv_weight sv,
      pr_conns = 0, pr_max_conns = sv_max_conns sv, pr_fails = 0, pr_accessed = 0, pr_checked = 0,
      pr_max_fails = sv_max_fails sv, pr_fail_timeout = sv_fail_timeout sv, pr_down = sv_down sv\<rparr>)
     (sv_addrs sv)"

definition rr_group :: "rr_server list \<Rightarrow> bool \<Rightarrow> rr_peers" where
  "rr_group svs single =
     (let n = sum_list (map (\<lambda>sv. length (sv_addrs sv)) svs);
          w = sum_list (map (\<lambda>sv. int (length (sv_addrs sv)) * sv_weight sv) svs);
          t = sum_list (map (\<lambda>sv. if sv_down sv then 0 else length (sv_addrs sv)) svs)
      in \<lparr>prs_number = n, prs_total_weight = w, prs_tries = t, prs_single = single,
          prs_weighted = (w \<noteq> int n), prs_peer = concat (map rr_server_peers svs)\<rparr>)"

text \<open>
  The branch for an explicit \<^verbatim>\<open>upstream\<close> block. The groups are the primary one and, behind
  \<^verbatim>\<open>peers->next\<close>, the backup one; \<^const>\<open>None\<close> for \<^verbatim>\<open>NGX_ERROR\<close>.
\<close>

definition ngx_http_upstream_init_round_robin :: "rr_server list \<Rightarrow> rr_peers list option" where
  "ngx_http_upstream_init_round_robin servers =
     (let primary = filter (\<lambda>sv. \<not> sv_backup sv) servers;
          backup = filter sv_backup servers;
          n = sum_list (map (\<lambda>sv. length (sv_addrs sv)) primary);
          nb = sum_list (map (\<lambda>sv. length (sv_addrs sv)) backup)
      in if n = 0 then None
         else if nb = 0 then Some [rr_group primary (n = 1)]
         else Some [rr_group primary False, rr_group backup False])"


section \<open>Choosing a peer\<close>

text \<open>The bitmap of tried peers, in words of \<^verbatim>\<open>uintptr_t\<close>.\<close>

definition rr_is_tried :: "u64 list \<Rightarrow> nat \<Rightarrow> bool" where
  "rr_is_tried tried i \<longleftrightarrow> tried ! (i div 64) AND push_bit (i mod 64) 1 \<noteq> 0"

definition rr_set_tried :: "u64 list \<Rightarrow> nat \<Rightarrow> u64 list" where
  "rr_set_tried tried p = tried[p div 64 := tried ! (p div 64) OR push_bit (p mod 64) 1]"

text \<open>The words of the bitmap a request needs.\<close>

definition rr_tried_words :: "rr_peers list \<Rightarrow> nat" where
  "rr_tried_words gs =
     (let n = (case gs of
                 [] \<Rightarrow> 0
               | [g] \<Rightarrow> prs_number g
               | g # g' # _ \<Rightarrow> if prs_number g' > prs_number g then prs_number g' else prs_number g)
      in if n \<le> 64 then 1 else (n + 63) div 64)"

definition ngx_http_upstream_init_round_robin_peer :: "rr_peers list \<Rightarrow> u64 list" where
  "ngx_http_upstream_init_round_robin_peer gs = replicate (rr_tried_words gs) 0"

text \<open>The four conditions under which the loop skips a peer.\<close>

definition rr_available :: "int \<Rightarrow> u64 list \<Rightarrow> nat \<Rightarrow> rr_peer \<Rightarrow> bool" where
  "rr_available now tried i peer \<longleftrightarrow>
     \<not> rr_is_tried tried i \<and> \<not> pr_down peer \<and>
     \<not> (pr_max_fails peer \<noteq> 0 \<and> pr_fails peer \<ge> pr_max_fails peer \<and>
        now - pr_checked peer \<le> pr_fail_timeout peer) \<and>
     \<not> (pr_max_conns peer \<noteq> 0 \<and> pr_conns peer \<ge> pr_max_conns peer)"

definition rr_raise :: "rr_peer \<Rightarrow> rr_peer" where
  "rr_raise peer =
     (let peer = peer\<lparr>pr_current_weight := pr_current_weight peer + pr_effective_weight peer\<rparr>
      in if pr_effective_weight peer < pr_weight peer
         then peer\<lparr>pr_effective_weight := pr_effective_weight peer + 1\<rparr> else peer)"

text \<open>The loop over the peers; \<^verbatim>\<open>best\<close> is the index of the best peer so far with its current weight.\<close>

fun rr_scan ::
  "int \<Rightarrow> u64 list \<Rightarrow> nat \<Rightarrow> rr_peer list \<Rightarrow> (nat \<times> int) option \<Rightarrow> int \<Rightarrow>
    rr_peer list \<times> (nat \<times> int) option \<times> int" where
  "rr_scan now tried i [] best tot = ([], best, tot)"
| "rr_scan now tried i (peer # ps) best tot =
     (if rr_available now tried i peer then
        let tot = tot + pr_effective_weight peer;
            peer = rr_raise peer;
            best = (case best of
                      None \<Rightarrow> Some (i, pr_current_weight peer)
                    | Some (j, c) \<Rightarrow>
                        if pr_current_weight peer > c then Some (i, pr_current_weight peer) else best);
            (ps, best, tot) = rr_scan now tried (i + 1) ps best tot
        in (peer # ps, best, tot)
      else
        let (ps, best, tot) = rr_scan now tried (i + 1) ps best tot
        in (peer # ps, best, tot))"

definition rr_chosen :: "int \<Rightarrow> int \<Rightarrow> rr_peer \<Rightarrow> rr_peer" where
  "rr_chosen now tot peer =
     (let peer = peer\<lparr>pr_current_weight := pr_current_weight peer - tot\<rparr>
      in if now - pr_checked peer > pr_fail_timeout peer then peer\<lparr>pr_checked := now\<rparr> else peer)"

definition ngx_http_upstream_get_peer ::
  "int \<Rightarrow> u64 list \<Rightarrow> rr_peer list \<Rightarrow> rr_peer list \<times> u64 list \<times> nat option" where
  "ngx_http_upstream_get_peer now tried ps =
     (case rr_scan now tried 0 ps None 0 of
        (ps, None, tot) \<Rightarrow> (ps, tried, None)
      | (ps, Some (p, _), tot) \<Rightarrow> (ps[p := rr_chosen now tot (ps ! p)], rr_set_tried tried p, Some p))"

definition rr_connect :: "rr_peer \<Rightarrow> rr_peer" where
  "rr_connect peer = peer\<lparr>pr_conns := pr_conns peer + 1\<rparr>"

text \<open>
  The groups from \<^verbatim>\<open>rrp->peers\<close> on, and the bitmap. The result is the changed groups, the bitmap, and
  for \<^verbatim>\<open>NGX_OK\<close> the number of groups given up and the index of the peer, \<^const>\<open>None\<close> for \<^verbatim>\<open>NGX_BUSY\<close>.
\<close>

fun ngx_http_upstream_get_round_robin_peer ::
  "int \<Rightarrow> rr_peers list \<Rightarrow> u64 list \<Rightarrow> rr_peers list \<times> u64 list \<times> (nat \<times> nat) option" where
  "ngx_http_upstream_get_round_robin_peer now [] tried = ([], tried, None)"
| "ngx_http_upstream_get_round_robin_peer now (g # gs) tried =
     (let (g, tried, r) =
        (if prs_single g then
           let peer = prs_peer g ! 0 in
           if pr_down peer \<or> (pr_max_conns peer \<noteq> 0 \<and> pr_conns peer \<ge> pr_max_conns peer)
           then (g, tried, None) else (g, tried, Some 0)
         else
           let (ps, tried, r) = ngx_http_upstream_get_peer now tried (prs_peer g)
           in (g\<lparr>prs_peer := ps\<rparr>, tried, r))
      in case r of
           Some p \<Rightarrow> (g\<lparr>prs_peer := (prs_peer g)[p := rr_connect (prs_peer g ! p)]\<rparr> # gs, tried, Some (0, p))
         | None \<Rightarrow>
             (case gs of
                [] \<Rightarrow> ([g], tried, None)
              | g' # _ \<Rightarrow>
                  let n = (prs_number g' + 63) div 64;
                      tried = replicate n 0 @ drop n tried;
                      (gs, tried, r) = ngx_http_upstream_get_round_robin_peer now gs tried
                  in (g # gs, tried, map_option (\<lambda>(k, p). (k + 1, p)) r)))"

text \<open>Giving a connection back: the peer, and \<^verbatim>\<open>pc->tries\<close>.\<close>

definition ngx_http_upstream_free_round_robin_peer ::
  "int \<Rightarrow> bool \<Rightarrow> rr_peers \<Rightarrow> nat \<Rightarrow> nat \<Rightarrow> rr_peers \<times> nat" where
  "ngx_http_upstream_free_round_robin_peer now failed g p tries =
     (let peer = prs_peer g ! p in
      if prs_single g then
        (g\<lparr>prs_peer := (prs_peer g)[p := peer\<lparr>pr_conns := pr_conns peer - 1\<rparr>]\<rparr>, 0)
      else
        let peer =
          (if failed then
             let peer = peer\<lparr>pr_fails := pr_fails peer + 1, pr_accessed := now, pr_checked := now\<rparr>;
                 peer = (if pr_max_fails peer \<noteq> 0
                         then peer\<lparr>pr_effective_weight :=
                                pr_effective_weight peer - pr_weight peer div int (pr_max_fails peer)\<rparr>
                         else peer)
             in if pr_effective_weight peer < 0 then peer\<lparr>pr_effective_weight := 0\<rparr> else peer
           else if pr_accessed peer < pr_checked peer then peer\<lparr>pr_fails := 0\<rparr> else peer)
        in (g\<lparr>prs_peer := (prs_peer g)[p := peer\<lparr>pr_conns := pr_conns peer - 1\<rparr>]\<rparr>, tries - 1))"


section \<open>The scan\<close>

lemma rr_is_tried_bit: "rr_is_tried tried i \<longleftrightarrow> bit (tried ! (i div 64)) (i mod 64)"
  by (simp add: rr_is_tried_def bit_iff_and_push_bit_not_eq_0)

lemma rr_set_tried_iff:
  assumes "p < 64 * length tried"
  shows "rr_is_tried (rr_set_tried tried p) j \<longleftrightarrow> j = p \<or> rr_is_tried tried j"
proof -
  have "p div 64 < length tried" using assms by (simp add: less_mult_imp_div_less mult.commute)
  moreover have "j = p \<longleftrightarrow> j div 64 = p div 64 \<and> j mod 64 = p mod 64"
    by (metis mult_div_mod_eq)
  moreover have "bit (push_bit (p mod 64) 1 :: u64) (j mod 64) \<longleftrightarrow> j mod 64 = p mod 64"
    by (auto simp: bit_simps)
  ultimately show ?thesis
    unfolding rr_is_tried_bit rr_set_tried_def
    by (cases "j div 64 = p div 64") (auto simp: bit_or_iff)
qed

definition rr_visit :: "int \<Rightarrow> u64 list \<Rightarrow> nat \<Rightarrow> rr_peer \<Rightarrow> rr_peer" where
  "rr_visit now tried i peer = (if rr_available now tried i peer then rr_raise peer else peer)"

definition rr_total :: "int \<Rightarrow> u64 list \<Rightarrow> nat \<Rightarrow> rr_peer list \<Rightarrow> int" where
  "rr_total now tried i ps =
     (\<Sum>j < length ps. if rr_available now tried (i + j) (ps ! j) then pr_effective_weight (ps ! j) else 0)"

text \<open>One round of the loop, with the best peer so far as a function of the visited peer.\<close>

definition rr_better :: "nat \<Rightarrow> int \<Rightarrow> (nat \<times> int) option \<Rightarrow> (nat \<times> int) option" where
  "rr_better i w best =
     (case best of None \<Rightarrow> Some (i, w) | Some (j, c) \<Rightarrow> if w > c then Some (i, w) else best)"

lemma rr_scan_Cons:
  fixes now tried i peer best tot
  defines "a \<equiv> rr_available now tried i peer"
  defines "best1 \<equiv> if a then rr_better i (pr_current_weight (rr_raise peer)) best else best"
  defines "tot1 \<equiv> if a then tot + pr_effective_weight peer else tot"
  shows "fst (rr_scan now tried i (peer # ps) best tot) =
      rr_visit now tried i peer # fst (rr_scan now tried (Suc i) ps best1 tot1)"
    and "snd (rr_scan now tried i (peer # ps) best tot) = snd (rr_scan now tried (Suc i) ps best1 tot1)"
  by (simp_all add: a_def best1_def tot1_def rr_visit_def rr_better_def Let_def split_beta)

declare rr_scan.simps(2) [simp del]

lemma rr_scan_list:
  "fst (rr_scan now tried i ps best tot) = map (\<lambda>j. rr_visit now tried (i + j) (ps ! j)) [0..<length ps]"
proof (induction ps arbitrary: i best tot)
  case (Cons p ps)
  have "map (\<lambda>j. rr_visit now tried (i + j) ((p # ps) ! j)) [0..<length (p # ps)] =
      rr_visit now tried i p # map (\<lambda>j. rr_visit now tried (Suc i + j) (ps ! j)) [0..<length ps]"
    by (simp add: upt_conv_Cons map_Suc_upt [symmetric] del: upt_Suc)
  then show ?case unfolding rr_scan_Cons(1) Cons.IH by (simp only:)
qed simp

lemma rr_total_Cons:
  "rr_total now tried i (p # ps) =
     (if rr_available now tried i p then pr_effective_weight p else 0) + rr_total now tried (Suc i) ps"
proof -
  have "rr_total now tried i (p # ps) = (\<Sum>j < Suc (length ps).
      if rr_available now tried (i + j) ((p # ps) ! j) then pr_effective_weight ((p # ps) ! j) else 0)"
    by (simp only: rr_total_def list.size add_0_right add_Suc_right)
  then show ?thesis unfolding sum.lessThan_Suc_shift rr_total_def
    by (simp only: nth_Cons_0 nth_Cons_Suc add_0_right add_Suc_right add_Suc)
qed

lemma rr_scan_total: "snd (snd (rr_scan now tried i ps best tot)) = tot + rr_total now tried i ps"
proof (induction ps arbitrary: i best tot)
  case (Cons p ps)
  show ?case unfolding rr_scan_Cons(2) Cons.IH rr_total_Cons by simp
qed (simp add: rr_total_def)

text \<open>The best peer is the first of the available ones with the greatest raised weight.\<close>

definition rr_best :: "int \<Rightarrow> u64 list \<Rightarrow> nat \<Rightarrow> rr_peer list \<Rightarrow> nat \<Rightarrow> bool" where
  "rr_best now tried i ps j \<longleftrightarrow>
     j < length ps \<and> rr_available now tried (i + j) (ps ! j) \<and>
     (\<forall>k < length ps. rr_available now tried (i + k) (ps ! k) \<longrightarrow>
        pr_current_weight (rr_raise (ps ! k)) \<le> pr_current_weight (rr_raise (ps ! j)) \<and>
        (k < j \<longrightarrow> pr_current_weight (rr_raise (ps ! k)) < pr_current_weight (rr_raise (ps ! j))))"

lemma rr_best_Cons_0:
  "rr_available now tried i p \<Longrightarrow>
    \<forall>k < length ps. rr_available now tried (Suc i + k) (ps ! k) \<longrightarrow>
      pr_current_weight (rr_raise (ps ! k)) \<le> pr_current_weight (rr_raise p) \<Longrightarrow>
    rr_best now tried i (p # ps) 0"
  by (auto simp: rr_best_def nth_Cons split: nat.split)

lemma rr_best_Cons_Suc:
  "rr_best now tried (Suc i) ps j \<Longrightarrow>
    rr_available now tried i p \<longrightarrow>
      pr_current_weight (rr_raise p) < pr_current_weight (rr_raise (ps ! j)) \<Longrightarrow>
    rr_best now tried i (p # ps) (Suc j)"
  by (auto simp: rr_best_def nth_Cons split: nat.split)

definition rr_dominated :: "int \<Rightarrow> u64 list \<Rightarrow> nat \<Rightarrow> rr_peer list \<Rightarrow> (nat \<times> int) option \<Rightarrow> bool" where
  "rr_dominated now tried i ps best \<longleftrightarrow>
     (\<forall>k < length ps. rr_available now tried (i + k) (ps ! k) \<longrightarrow>
        (\<exists>j c. best = Some (j, c) \<and> pr_current_weight (rr_raise (ps ! k)) \<le> c))"

lemma rr_dominated_Cons:
  "rr_dominated now tried i (p # ps) best \<longleftrightarrow>
     (rr_available now tried i p \<longrightarrow> (\<exists>j c. best = Some (j, c) \<and> pr_current_weight (rr_raise p) \<le> c)) \<and>
     rr_dominated now tried (Suc i) ps best"
  unfolding rr_dominated_def by (auto simp: less_Suc_eq_0_disj)

lemma rr_scan_best:
  "fst (snd (rr_scan now tried i ps best tot)) = best \<and> rr_dominated now tried i ps best \<or>
   (\<exists>j. fst (snd (rr_scan now tried i ps best tot)) = Some (i + j, pr_current_weight (rr_raise (ps ! j))) \<and>
      rr_best now tried i ps j \<and> (\<forall>k c. best = Some (k, c) \<longrightarrow> c < pr_current_weight (rr_raise (ps ! j))))"
proof (induction ps arbitrary: i best tot)
  case (Cons p ps)
  let ?a = "rr_available now tried i p" and ?w = "pr_current_weight (rr_raise p)"
  define best1 where "best1 = (if ?a then rr_better i ?w best else best)"
  define r where "r = fst (snd (rr_scan now tried i (p # ps) best tot))"
  from Cons.IH [of "Suc i" best1 "if ?a then tot + pr_effective_weight p else tot"]
  consider (same) "r = best1" "rr_dominated now tried (Suc i) ps best1"
    | (later) j where "r = Some (Suc i + j, pr_current_weight (rr_raise (ps ! j)))"
      "rr_best now tried (Suc i) ps j" "\<forall>k c. best1 = Some (k, c) \<longrightarrow> c < pr_current_weight (rr_raise (ps ! j))"
    unfolding r_def rr_scan_Cons(2) best1_def by blast
  then show ?case
  proof cases
    case same
    show ?thesis
    proof (cases "best1 = best")
      case True
      then have "?a \<longrightarrow> (\<exists>j c. best = Some (j, c) \<and> ?w \<le> c)"
        by (auto simp: best1_def rr_better_def split: if_splits option.splits)
      with same True show ?thesis unfolding r_def by (simp add: rr_dominated_Cons)
    next
      case False
      then have b: "?a" "best1 = Some (i, ?w)" "\<forall>k c. best = Some (k, c) \<longrightarrow> c < ?w"
        by (auto simp: best1_def rr_better_def split: if_splits option.splits)
      then have "rr_best now tried i (p # ps) 0"
        using same(2) by (intro rr_best_Cons_0) (auto simp: rr_dominated_def)
      with same(1) b show ?thesis unfolding r_def by (intro disjI2 exI [of _ 0]) simp
    qed
  next
    case later
    have "?a \<longrightarrow> (\<exists>k c. best1 = Some (k, c) \<and> ?w \<le> c)" "\<forall>k c. best = Some (k, c) \<longrightarrow> (\<exists>k' c'. best1 = Some (k', c') \<and> c \<le> c')"
      by (auto simp: best1_def rr_better_def split: option.split)
    then have "?a \<longrightarrow> ?w < pr_current_weight (rr_raise (ps ! j))"
      "\<forall>k c. best = Some (k, c) \<longrightarrow> c < pr_current_weight (rr_raise (ps ! j))"
      using later(3) by (metis le_less_trans)+
    with later(1,2) show ?thesis unfolding r_def
      by (intro disjI2 exI [of _ "Suc j"]) (simp add: rr_best_Cons_Suc)
  qed
qed (simp add: rr_dominated_def)


section \<open>The choice\<close>

lemma get_peer_none:
  assumes "\<forall>j < length ps. \<not> rr_available now tried j (ps ! j)"
  shows "ngx_http_upstream_get_peer now tried ps = (ps, tried, None)"
proof -
  obtain ps' b t where r: "rr_scan now tried 0 ps None 0 = (ps', b, t)" by (metis prod_cases3)
  have "ps' = map (\<lambda>j. ps ! j) [0..<length ps]"
    using rr_scan_list [of now tried 0 ps None 0] assms by (auto simp: r rr_visit_def)
  moreover have "b = None"
    using rr_scan_best [of now tried 0 ps None 0] assms by (auto simp: r rr_best_def)
  ultimately show ?thesis by (simp add: ngx_http_upstream_get_peer_def r map_nth)
qed

lemma get_peer_some:
  assumes "j < length ps" "rr_available now tried j (ps ! j)"
  obtains p where "rr_best now tried 0 ps p"
    "ngx_http_upstream_get_peer now tried ps =
       ((map (\<lambda>j. rr_visit now tried j (ps ! j)) [0..<length ps])
          [p := rr_chosen now (rr_total now tried 0 ps) (rr_raise (ps ! p))],
        rr_set_tried tried p, Some p)"
proof -
  obtain ps' b t where r: "rr_scan now tried 0 ps None 0 = (ps', b, t)" by (metis prod_cases3)
  have ps': "ps' = map (\<lambda>j. rr_visit now tried j (ps ! j)) [0..<length ps]"
    using rr_scan_list [of now tried 0 ps None 0] by (simp add: r)
  have t: "t = rr_total now tried 0 ps" using rr_scan_total [of now tried 0 ps None 0] by (simp add: r)
  from rr_scan_best [of now tried 0 ps None 0] assms obtain p where
    p: "b = Some (p, pr_current_weight (rr_raise (ps ! p)))" "rr_best now tried 0 ps p"
    by (auto simp: r rr_dominated_def)
  then have "ps' ! p = rr_raise (ps ! p)" by (simp add: ps' rr_best_def rr_visit_def)
  with p show thesis by (intro that) (simp_all add: ngx_http_upstream_get_peer_def r ps' t)
qed

lemma rr_raise_simps [simp]:
  "pr_current_weight (rr_raise p) = pr_current_weight p + pr_effective_weight p"
  "pr_effective_weight (rr_raise p) =
     (if pr_effective_weight p < pr_weight p then pr_effective_weight p + 1 else pr_effective_weight p)"
  "pr_weight (rr_raise p) = pr_weight p" "pr_conns (rr_raise p) = pr_conns p"
  "pr_max_conns (rr_raise p) = pr_max_conns p" "pr_fails (rr_raise p) = pr_fails p"
  "pr_down (rr_raise p) = pr_down p"
  by (simp_all add: rr_raise_def Let_def)

lemma rr_chosen_simps [simp]:
  "pr_current_weight (rr_chosen now tot p) = pr_current_weight p - tot"
  "pr_effective_weight (rr_chosen now tot p) = pr_effective_weight p"
  "pr_weight (rr_chosen now tot p) = pr_weight p" "pr_conns (rr_chosen now tot p) = pr_conns p"
  "pr_max_conns (rr_chosen now tot p) = pr_max_conns p" "pr_fails (rr_chosen now tot p) = pr_fails p"
  "pr_down (rr_chosen now tot p) = pr_down p"
  by (simp_all add: rr_chosen_def Let_def)

lemma rr_connect_simps [simp]:
  "pr_current_weight (rr_connect p) = pr_current_weight p"
  "pr_effective_weight (rr_connect p) = pr_effective_weight p"
  "pr_weight (rr_connect p) = pr_weight p" "pr_conns (rr_connect p) = pr_conns p + 1"
  "pr_max_conns (rr_connect p) = pr_max_conns p" "pr_fails (rr_connect p) = pr_fails p"
  "pr_down (rr_connect p) = pr_down p"
  by (simp_all add: rr_connect_def)


section \<open>Groups and backup servers\<close>

definition rr_wf :: "rr_peers \<Rightarrow> bool" where
  "rr_wf g \<longleftrightarrow> prs_number g = length (prs_peer g) \<and> 0 < prs_number g \<and> (prs_single g \<longrightarrow> prs_number g = 1)"

text \<open>A group has a peer for a request that has the given bitmap.\<close>

definition rr_usable :: "int \<Rightarrow> (nat \<Rightarrow> bool) \<Rightarrow> rr_peers \<Rightarrow> bool" where
  "rr_usable now tried g \<longleftrightarrow>
     (\<exists>j < length (prs_peer g). let peer = prs_peer g ! j in
        \<not> pr_down peer \<and> (pr_max_conns peer = 0 \<or> pr_conns peer < pr_max_conns peer) \<and>
        (prs_single g \<or> \<not> tried j \<and>
           (pr_max_fails peer = 0 \<or> pr_fails peer < pr_max_fails peer \<or>
            now - pr_checked peer > pr_fail_timeout peer)))"

text \<open>The choice inside the current group.\<close>

definition rr_group_pick :: "int \<Rightarrow> u64 list \<Rightarrow> rr_peers \<Rightarrow> rr_peers \<times> u64 list \<times> nat option" where
  "rr_group_pick now tried g =
     (if prs_single g then
        let peer = prs_peer g ! 0 in
        if pr_down peer \<or> (pr_max_conns peer \<noteq> 0 \<and> pr_conns peer \<ge> pr_max_conns peer)
        then (g, tried, None) else (g, tried, Some 0)
      else
        let (ps, tried, r) = ngx_http_upstream_get_peer now tried (prs_peer g)
        in (g\<lparr>prs_peer := ps\<rparr>, tried, r))"

lemma rr_usable_single:
  assumes "rr_wf g" "prs_single g"
  shows "rr_usable now tried g \<longleftrightarrow> \<not> pr_down (prs_peer g ! 0) \<and>
    (pr_max_conns (prs_peer g ! 0) = 0 \<or> pr_conns (prs_peer g ! 0) < pr_max_conns (prs_peer g ! 0))"
proof -
  have "length (prs_peer g) = 1" using assms by (simp add: rr_wf_def)
  then show ?thesis using assms(2) by (simp add: rr_usable_def Let_def)
qed

lemma group_pick_none:
  assumes "rr_wf g" "\<not> rr_usable now (rr_is_tried tried) g"
  shows "rr_group_pick now tried g = (g, tried, None)"
proof (cases "prs_single g")
  case True
  then show ?thesis using assms rr_usable_single [OF assms(1)] by (auto simp: rr_group_pick_def Let_def)
next
  case False
  then have "\<forall>j < length (prs_peer g). \<not> rr_available now tried j (prs_peer g ! j)"
    using assms(2) by (auto simp: rr_usable_def rr_available_def Let_def)
  from get_peer_none [OF this] False show ?thesis by (simp add: rr_group_pick_def)
qed

lemma group_pick_some:
  assumes "rr_wf g" "rr_usable now (rr_is_tried tried) g"
  obtains g' tried' p where "rr_group_pick now tried g = (g', tried', Some p)"
    "p < length (prs_peer g)" "length (prs_peer g') = length (prs_peer g)"
    "\<not> pr_down (prs_peer g ! p)"
    "pr_max_conns (prs_peer g ! p) = 0 \<or> pr_conns (prs_peer g ! p) < pr_max_conns (prs_peer g ! p)"
    "\<forall>j < length (prs_peer g). pr_conns (prs_peer g' ! j) = pr_conns (prs_peer g ! j) \<and>
       pr_max_conns (prs_peer g' ! j) = pr_max_conns (prs_peer g ! j)"
proof (cases "prs_single g")
  case True
  then show thesis using assms rr_usable_single [OF assms(1)]
    by (intro that [of g tried 0]) (auto simp: rr_group_pick_def rr_wf_def Let_def)
next
  case False
  then obtain j where "j < length (prs_peer g)" "rr_available now tried j (prs_peer g ! j)"
    using assms(2) by (auto simp: rr_usable_def rr_available_def Let_def)
  from get_peer_some [OF this] obtain p where
    p: "rr_best now tried 0 (prs_peer g) p" and
    r: "ngx_http_upstream_get_peer now tried (prs_peer g) =
       ((map (\<lambda>j. rr_visit now tried j (prs_peer g ! j)) [0..<length (prs_peer g)])
          [p := rr_chosen now (rr_total now tried 0 (prs_peer g)) (rr_raise (prs_peer g ! p))],
        rr_set_tried tried p, Some p)" .
  define ps where "ps = (map (\<lambda>j. rr_visit now tried j (prs_peer g ! j)) [0..<length (prs_peer g)])
    [p := rr_chosen now (rr_total now tried 0 (prs_peer g)) (rr_raise (prs_peer g ! p))]"
  have "\<forall>j < length (prs_peer g). pr_conns (ps ! j) = pr_conns (prs_peer g ! j) \<and>
      pr_max_conns (ps ! j) = pr_max_conns (prs_peer g ! j)"
    using p by (simp add: ps_def nth_list_update rr_visit_def rr_best_def)
  moreover have "length ps = length (prs_peer g)" by (simp add: ps_def)
  moreover have "rr_group_pick now tried g = (g\<lparr>prs_peer := ps\<rparr>, rr_set_tried tried p, Some p)"
    using False by (simp add: rr_group_pick_def r ps_def)
  moreover have "p < length (prs_peer g)" "\<not> pr_down (prs_peer g ! p)"
    "pr_max_conns (prs_peer g ! p) = 0 \<or> pr_conns (prs_peer g ! p) < pr_max_conns (prs_peer g ! p)"
    using p by (auto simp: rr_best_def rr_available_def)
  ultimately show thesis by (intro that [of "g\<lparr>prs_peer := ps\<rparr>"]) simp_all
qed

lemma cleared_untried: "j < n \<Longrightarrow> \<not> rr_is_tried (replicate ((n + 63) div 64) 0 @ tried) j"
proof -
  assume "j < n"
  then have "(j + 64) div 64 \<le> (n + 63) div 64" by (intro div_le_mono) simp
  then have "j div 64 < (n + 63) div 64" by simp
  then show ?thesis by (simp add: rr_is_tried_bit nth_append)
qed


lemma get_round_robin_Cons:
  "ngx_http_upstream_get_round_robin_peer now (g # gs) tried =
     (case rr_group_pick now tried g of
        (g', tried', Some p) \<Rightarrow>
          (g'\<lparr>prs_peer := (prs_peer g')[p := rr_connect (prs_peer g' ! p)]\<rparr> # gs, tried', Some (0, p))
      | (g', tried', None) \<Rightarrow>
          (case gs of
             [] \<Rightarrow> ([g'], tried', None)
           | h # _ \<Rightarrow>
               (case ngx_http_upstream_get_round_robin_peer now gs
                       (replicate ((prs_number h + 63) div 64) 0 @ drop ((prs_number h + 63) div 64) tried') of
                  (gs', tried'', r) \<Rightarrow> (g' # gs', tried'', map_option (\<lambda>(k, p). (k + 1, p)) r))))"
  by (simp add: rr_group_pick_def Let_def split: prod.splits option.splits list.splits)

declare ngx_http_upstream_get_round_robin_peer.simps(2) [simp del]

lemma rr_usable_cong:
  "(\<And>j. j < length (prs_peer g) \<Longrightarrow> tried j = tried' j) \<Longrightarrow> rr_usable now tried g = rr_usable now tried' g"
  by (auto simp: rr_usable_def Let_def)

text \<open>What a successful call promises of the chosen peer, before and after.\<close>

definition rr_served :: "rr_peers \<Rightarrow> rr_peers \<Rightarrow> nat \<Rightarrow> bool" where
  "rr_served g g' p \<longleftrightarrow>
     p < length (prs_peer g) \<and> \<not> pr_down (prs_peer g ! p) \<and>
     pr_conns (prs_peer g' ! p) = pr_conns (prs_peer g ! p) + 1 \<and>
     (pr_max_conns (prs_peer g ! p) = 0 \<or> pr_conns (prs_peer g' ! p) \<le> pr_max_conns (prs_peer g ! p)) \<and>
     (\<forall>j < length (prs_peer g). j \<noteq> p \<longrightarrow> pr_conns (prs_peer g' ! j) = pr_conns (prs_peer g ! j))"

lemma get_round_robin_groups:
  assumes "\<forall>g \<in> set gs. rr_wf g"
    and "ngx_http_upstream_get_round_robin_peer now gs tried = (gs', tried', r)"
  shows "(case r of
      None \<Rightarrow> gs' = gs \<and> (\<forall>k < length gs. \<not> rr_usable now (if k = 0 then rr_is_tried tried else (\<lambda>_. False)) (gs ! k))
    | Some (k, p) \<Rightarrow>
        k < length gs \<and> length gs' = length gs \<and> rr_served (gs ! k) (gs' ! k) p \<and>
        rr_usable now (if k = 0 then rr_is_tried tried else (\<lambda>_. False)) (gs ! k) \<and>
        (\<forall>i < k. \<not> rr_usable now (if i = 0 then rr_is_tried tried else (\<lambda>_. False)) (gs ! i)) \<and>
        (\<forall>i < length gs. i \<noteq> k \<longrightarrow> gs' ! i = gs ! i))"
  using assms
proof (induction gs arbitrary: tried gs' tried' r)
  case (Cons g gs)
  then have wf: "rr_wf g" "\<forall>g \<in> set gs. rr_wf g" by simp_all
  show ?case
  proof (cases "rr_usable now (rr_is_tried tried) g")
    case True
    from group_pick_some [OF wf(1) True] obtain g1 t1 p where
      p: "rr_group_pick now tried g = (g1, t1, Some p)" "p < length (prs_peer g)"
      "length (prs_peer g1) = length (prs_peer g)" "\<not> pr_down (prs_peer g ! p)"
      "pr_max_conns (prs_peer g ! p) = 0 \<or> pr_conns (prs_peer g ! p) < pr_max_conns (prs_peer g ! p)"
      "\<forall>j < length (prs_peer g). pr_conns (prs_peer g1 ! j) = pr_conns (prs_peer g ! j) \<and>
         pr_max_conns (prs_peer g1 ! j) = pr_max_conns (prs_peer g ! j)" .
    then have "r = Some (0, p)" "gs' = g1\<lparr>prs_peer := (prs_peer g1)[p := rr_connect (prs_peer g1 ! p)]\<rparr> # gs"
      using Cons.prems(2) by (simp_all add: get_round_robin_Cons)
    with p True show ?thesis by (auto simp: rr_served_def nth_list_update nth_Cons split: nat.splits)
  next
    case False
    note none = group_pick_none [OF wf(1) False]
    show ?thesis
    proof (cases gs)
      case Nil
      then show ?thesis using Cons.prems(2) none False by (auto simp: get_round_robin_Cons)
    next
      case (Cons h hs)
      let ?t = "replicate ((prs_number h + 63) div 64) 0 @ drop ((prs_number h + 63) div 64) tried"
      obtain gs1 t1 r1 where rec: "ngx_http_upstream_get_round_robin_peer now gs ?t = (gs1, t1, r1)"
        by (metis prod_cases3)
      have res: "gs' = g # gs1" "r = map_option (\<lambda>(k, p). (k + 1, p)) r1"
        using Cons.prems(2) none rec by (simp_all add: get_round_robin_Cons Cons)
      have "rr_wf h" using wf(2) Cons by simp
      then have clr: "rr_usable now (rr_is_tried ?t) h = rr_usable now (\<lambda>_. False) h"
        using cleared_untried by (intro rr_usable_cong) (simp add: rr_wf_def)
      have us: "rr_usable now (if k = 0 then rr_is_tried ?t else (\<lambda>_. False)) (gs ! k) =
          rr_usable now (\<lambda>_. False) (gs ! k)" for k
        using clr Cons by simp
      from Cons.IH [OF wf(2) rec] show ?thesis
        unfolding us
        by (cases r1) (auto simp: res False nth_Cons less_Suc_eq_0_disj split: nat.splits if_splits)
    qed
  qed
qed simp


section \<open>Fairness\<close>

text \<open>
  A group in which every peer is up, unlimited and without failures, as the configuration makes
  it: \<open>w\<close> gives the weights, \<open>c\<close> the current weights.
\<close>

definition rr_plain :: "rr_peers \<Rightarrow> bool" where
  "rr_plain g \<longleftrightarrow>
     \<not> prs_single g \<and> prs_number g = length (prs_peer g) \<and>
     (\<forall>peer \<in> set (prs_peer g). \<not> pr_down peer \<and> pr_max_conns peer = 0 \<and> pr_fails peer = 0 \<and>
        pr_effective_weight peer = pr_weight peer \<and> 0 < pr_weight peer)"

abbreviation rr_w :: "rr_peers \<Rightarrow> nat \<Rightarrow> int" where
  "rr_w g j \<equiv> pr_weight (prs_peer g ! j)"

abbreviation rr_c :: "rr_peers \<Rightarrow> nat \<Rightarrow> int" where
  "rr_c g j \<equiv> pr_current_weight (prs_peer g ! j)"

abbreviation rr_T :: "rr_peers \<Rightarrow> int" where
  "rr_T g \<equiv> (\<Sum>j < length (prs_peer g). rr_w g j)"

text \<open>Successive requests at the given times, each with a bitmap of its own; the chosen peers.\<close>

primrec rr_serve :: "int list \<Rightarrow> rr_peers \<Rightarrow> rr_peers \<times> nat list" where
  "rr_serve [] g = (g, [])"
| "rr_serve (now # ts) g =
     (case ngx_http_upstream_get_round_robin_peer now [g] (ngx_http_upstream_init_round_robin_peer [g]) of
        (gs, _, None) \<Rightarrow> rr_serve ts (hd gs)
      | (gs, _, Some (_, p)) \<Rightarrow> (let (g', picks) = rr_serve ts (hd gs) in (g', p # picks)))"

lemma fresh_untried: "\<not> rr_is_tried (replicate n 0) j" if "j < 64 * n"
proof -
  have "j div 64 < n" using that by (simp add: less_mult_imp_div_less mult.commute)
  then show ?thesis by (simp add: rr_is_tried_bit)
qed

lemma tried_words_enough: "prs_number g \<le> 64 * rr_tried_words [g]"
proof -
  let ?n = "prs_number g + 63"
  have "64 * (?n div 64) + ?n mod 64 = ?n" "?n mod 64 < 64" by (rule mult_div_mod_eq) simp
  then have "prs_number g \<le> 64 * (?n div 64)" by linarith
  then show ?thesis by (simp add: rr_tried_words_def Let_def)
qed

text \<open>One request: the first peer with the greatest sum of weight and current weight is chosen.\<close>

lemma rr_request:
  fixes g now
  defines "n \<equiv> length (prs_peer g)"
  assumes plain: "rr_plain g" and n: "0 < n"
  obtains g' t p where
    "ngx_http_upstream_get_round_robin_peer now [g] (ngx_http_upstream_init_round_robin_peer [g]) =
       ([g'], t, Some (0, p))"
    "rr_plain g'" "length (prs_peer g') = n" "p < n"
    "\<And>j. j < n \<Longrightarrow> rr_w g' j = rr_w g j"
    "\<And>j. j < n \<Longrightarrow> rr_c g' j = rr_c g j + rr_w g j - (if j = p then rr_T g else 0)"
    "\<And>j. j < n \<Longrightarrow> rr_c g j + rr_w g j \<le> rr_c g p + rr_w g p"
proof -
  let ?t = "ngx_http_upstream_init_round_robin_peer [g]"
  have av: "rr_available now ?t j (prs_peer g ! j)" if "j < n" for j
  proof -
    have "\<not> rr_is_tried ?t j"
      unfolding ngx_http_upstream_init_round_robin_peer_def
      using that plain tried_words_enough [of g] by (intro fresh_untried) (simp add: rr_plain_def n_def)
    moreover have "prs_peer g ! j \<in> set (prs_peer g)" using that by (simp add: n_def)
    ultimately show ?thesis using plain unfolding rr_available_def rr_plain_def by auto
  qed
  have pl: "\<not> pr_down (prs_peer g ! j) \<and> pr_max_conns (prs_peer g ! j) = 0 \<and> pr_fails (prs_peer g ! j) = 0 \<and>
      pr_effective_weight (prs_peer g ! j) = rr_w g j \<and> 0 < rr_w g j" if "j < n" for j
    using plain that unfolding rr_plain_def n_def by auto
  from get_peer_some [of 0 "prs_peer g" now ?t] av [OF n] n obtain p where
    best: "rr_best now ?t 0 (prs_peer g) p" and
    r: "ngx_http_upstream_get_peer now ?t (prs_peer g) =
       ((map (\<lambda>j. rr_visit now ?t j (prs_peer g ! j)) [0..<n])
          [p := rr_chosen now (rr_total now ?t 0 (prs_peer g)) (rr_raise (prs_peer g ! p))],
        rr_set_tried ?t p, Some p)"
    unfolding n_def by blast
  have p: "p < n" using best by (simp add: rr_best_def n_def)
  have tot: "rr_total now ?t 0 (prs_peer g) = rr_T g"
    unfolding rr_total_def using av pl by (intro sum.cong) (simp_all add: n_def)
  define ps where "ps = map (\<lambda>j. if j = p then rr_connect (rr_chosen now (rr_T g) (rr_raise (prs_peer g ! j)))
    else rr_raise (prs_peer g ! j)) [0..<n]"
  have "(map (\<lambda>j. rr_visit now ?t j (prs_peer g ! j)) [0..<n])[p := rr_connect (rr_chosen now (rr_T g) (rr_raise (prs_peer g ! p)))] = ps"
    using p av by (intro nth_equalityI) (auto simp: ps_def nth_list_update rr_visit_def)
  then have res: "ngx_http_upstream_get_round_robin_peer now [g] ?t =
      ([g\<lparr>prs_peer := ps\<rparr>], rr_set_tried ?t p, Some (0, p))"
    using plain p by (simp add: get_round_robin_Cons rr_group_pick_def r tot rr_plain_def)
  have len: "length ps = n" by (simp add: ps_def)
  have fields: "\<not> pr_down (ps ! j) \<and> pr_max_conns (ps ! j) = 0 \<and> pr_fails (ps ! j) = 0 \<and>
      pr_effective_weight (ps ! j) = rr_w g j \<and> pr_weight (ps ! j) = rr_w g j \<and>
      pr_current_weight (ps ! j) = rr_c g j + rr_w g j - (if j = p then rr_T g else 0)" if "j < n" for j
    using pl [OF that] that by (cases "j = p") (auto simp: ps_def)
  show thesis
  proof (rule that [OF res])
    show "rr_plain (g\<lparr>prs_peer := ps\<rparr>)"
      using plain fields pl len unfolding rr_plain_def by (auto simp: in_set_conv_nth n_def)
    show "rr_c g j + rr_w g j \<le> rr_c g p + rr_w g p" if "j < n" for j
    proof -
      have "pr_current_weight (rr_raise (prs_peer g ! j)) \<le> pr_current_weight (rr_raise (prs_peer g ! p))"
        using best av [OF that] that unfolding rr_best_def n_def add_0_left by blast
      then show ?thesis using pl [OF that] pl [OF p] by simp
    qed
  qed (use len p fields in simp_all)
qed


text \<open>The current weights stay above minus the total weight and sum to 0.\<close>

definition rr_balanced :: "rr_peers \<Rightarrow> bool" where
  "rr_balanced g \<longleftrightarrow>
     (\<Sum>j < length (prs_peer g). rr_c g j) = 0 \<and> (\<forall>j < length (prs_peer g). - rr_T g < rr_c g j)"

lemma exists_ge_average:
  fixes f :: "nat \<Rightarrow> int"
  assumes "0 < (\<Sum>j<n. f j)"
  obtains j where "j < n" "0 < f j"
proof -
  have "\<not> (\<forall>j<n. f j \<le> 0)"
    using assms sum_nonpos [of "{..<n}" f] by (metis lessThan_iff not_less)
  with that show thesis by (metis not_less)
qed

lemma rr_T_pos: "rr_plain g \<Longrightarrow> prs_peer g \<noteq> [] \<Longrightarrow> 0 < rr_T g"
  unfolding rr_plain_def by (intro sum_pos) auto

lemma rr_request_balanced:
  assumes plain: "rr_plain g" and n: "prs_peer g \<noteq> []" and bal: "rr_balanced g"
  obtains g' t p where
    "ngx_http_upstream_get_round_robin_peer now [g] (ngx_http_upstream_init_round_robin_peer [g]) =
       ([g'], t, Some (0, p))"
    "rr_plain g'" "rr_balanced g'" "length (prs_peer g') = length (prs_peer g)" "p < length (prs_peer g)"
    "\<And>j. j < length (prs_peer g) \<Longrightarrow> rr_w g' j = rr_w g j"
    "\<And>j. j < length (prs_peer g) \<Longrightarrow> rr_c g' j = rr_c g j + rr_w g j - (if j = p then rr_T g else 0)"
proof -
  let ?n = "length (prs_peer g)"
  have "0 < ?n" using n by simp
  from rr_request [OF plain this, of now] obtain g' t p where
    res: "ngx_http_upstream_get_round_robin_peer now [g] (ngx_http_upstream_init_round_robin_peer [g]) =
       ([g'], t, Some (0, p))" and g': "rr_plain g'" "length (prs_peer g') = ?n" "p < ?n"
    and w: "\<And>j. j < ?n \<Longrightarrow> rr_w g' j = rr_w g j"
    and c: "\<And>j. j < ?n \<Longrightarrow> rr_c g' j = rr_c g j + rr_w g j - (if j = p then rr_T g else 0)"
    and best: "\<And>j. j < ?n \<Longrightarrow> rr_c g j + rr_w g j \<le> rr_c g p + rr_w g p" by blast
  have T: "(\<Sum>j<?n. rr_w g' j) = rr_T g" using w by simp
  have raised: "(\<Sum>j<?n. rr_c g j + rr_w g j) = rr_T g"
    using bal by (simp add: rr_balanced_def sum.distrib)
  have "(\<Sum>j<?n. rr_c g' j) = (\<Sum>j<?n. rr_c g j + rr_w g j) - (\<Sum>j<?n. if j = p then rr_T g else 0)"
    by (simp add: c sum_subtractf)
  also have "\<dots> = 0" unfolding raised using g'(3) by simp
  finally have sum: "(\<Sum>j<?n. rr_c g' j) = 0" .
  have pos: "0 < rr_T g" by (rule rr_T_pos [OF plain n])
  then obtain k where "k < ?n" "0 < rr_c g k + rr_w g k"
    using exists_ge_average [of "\<lambda>j. rr_c g j + rr_w g j" ?n] raised by auto
  then have "0 < rr_c g p + rr_w g p" using best by fastforce
  moreover have "0 < rr_w g j" if "j < ?n" for j using plain that by (simp add: rr_plain_def)
  ultimately have "- rr_T g < rr_c g' j" if "j < ?n" for j
    using c [OF that] bal that by (cases "j = p") (force simp: rr_balanced_def)+
  with sum have bal': "rr_balanced g'" unfolding rr_balanced_def g'(2) T by simp
  show thesis by (rule that [OF res g'(1) bal' g'(2,3) w c])
qed

lemma rr_serve_weights:
  assumes "rr_plain g" "prs_peer g \<noteq> []" "rr_balanced g"
  shows "\<exists>g' picks. rr_serve ts g = (g', picks) \<and> rr_plain g' \<and> rr_balanced g' \<and>
    length (prs_peer g') = length (prs_peer g) \<and>
    length picks = length ts \<and> set picks \<subseteq> {..<length (prs_peer g)} \<and>
    (\<forall>j < length (prs_peer g). rr_w g' j = rr_w g j \<and>
      rr_c g' j = rr_c g j + int (length ts) * rr_w g j - rr_T g * int (count_list picks j))"
  using assms
proof (induction ts arbitrary: g)
  case (Cons now ts)
  let ?n = "length (prs_peer g)"
  from rr_request_balanced [OF Cons.prems] obtain g1 t p where
    res: "ngx_http_upstream_get_round_robin_peer now [g] (ngx_http_upstream_init_round_robin_peer [g]) =
       ([g1], t, Some (0, p))"
    and g1: "rr_plain g1" "rr_balanced g1" "length (prs_peer g1) = ?n" "p < ?n"
    and w1: "\<And>j. j < ?n \<Longrightarrow> rr_w g1 j = rr_w g j"
    and c1: "\<And>j. j < ?n \<Longrightarrow> rr_c g1 j = rr_c g j + rr_w g j - (if j = p then rr_T g else 0)" by blast
  have T: "rr_T g1 = rr_T g" using g1(3) w1 by simp
  have "prs_peer g1 \<noteq> []" using g1(3) Cons.prems(2) by auto
  from Cons.IH [OF g1(1) this g1(2)] obtain g' picks where
    s: "rr_serve ts g1 = (g', picks)" "rr_plain g'" "rr_balanced g'" "length (prs_peer g') = ?n"
      "length picks = length ts" "set picks \<subseteq> {..<?n}"
    and j: "\<forall>j < ?n. rr_w g' j = rr_w g1 j \<and>
      rr_c g' j = rr_c g1 j + int (length ts) * rr_w g1 j - rr_T g1 * int (count_list picks j)"
    unfolding g1(3) by blast
  have "rr_c g' j = rr_c g j + int (length (now # ts)) * rr_w g j - rr_T g * int (count_list (p # picks) j)"
    if "j < ?n" for j
    using j [rule_format, OF that] c1 [OF that] w1 [OF that] unfolding T
    by (auto simp: algebra_simps)
  then show ?case using s g1(4) j w1 by (simp add: res)
qed simp

lemma sum_count_list: "set (xs :: nat list) \<subseteq> {..<n} \<Longrightarrow> (\<Sum>j<n. count_list xs j) = length xs"
proof (induction xs)
  case (Cons x xs)
  have "(\<Sum>j<n. count_list (x # xs) j) = (\<Sum>j<n. count_list xs j + (if j = x then 1 else 0))"
    by (intro sum.cong) auto
  also have "\<dots> = (\<Sum>j<n. count_list xs j) + (\<Sum>j<n. if j = x then 1 else 0)" by (rule sum.distrib)
  also have "(\<Sum>j<n. if j = x then 1 else 0) = (1 :: nat)"
    using Cons.prems by (subst sum.delta) simp_all
  finally show ?case using Cons by simp
qed simp

lemma eq_if_sum_eq:
  fixes f g :: "nat \<Rightarrow> int"
  assumes "\<And>j. j < n \<Longrightarrow> f j \<le> g j" "(\<Sum>j<n. f j) = (\<Sum>j<n. g j)" "i < n"
  shows "f i = g i"
proof -
  have "(\<Sum>j<n. g j - f j) = 0" using assms(2) by (simp add: sum_subtractf)
  then have "\<forall>j \<in> {..<n}. g j - f j = 0"
    using assms(1) by (subst sum_nonneg_eq_0_iff [symmetric]) auto
  with assms(3) show ?thesis by simp
qed


section \<open>An example group\<close>

text \<open>Three servers of weights 5, 1 and 1.\<close>

definition rr_demo :: rr_peers where
  "rr_demo = hd (the (ngx_http_upstream_init_round_robin (map (\<lambda>(a, w).
     \<lparr>sv_addrs = [a], sv_weight = w, sv_max_conns = 0, sv_max_fails = 1, sv_fail_timeout = 10,
      sv_down = False, sv_backup = False\<rparr>) [(''a'', 5), (''b'', 1), (''c'', 1)])))"

lemma rr_demo_plain: "rr_plain rr_demo" "rr_wf rr_demo" "length (prs_peer rr_demo) = 3"
  "\<forall>peer \<in> set (prs_peer rr_demo). pr_current_weight peer = 0" "map pr_weight (prs_peer rr_demo) = [5, 1, 1]"
  by (simp_all add: rr_demo_def ngx_http_upstream_init_round_robin_def rr_group_def rr_server_peers_def
      rr_plain_def rr_wf_def)


section \<open>Correctness\<close>

text \<open>
  C11. Failover. A request gets a peer exactly when some group has a usable one: the primary
  group for the peers it has not tried, then the backup group with a cleared bitmap. The peer it gets
  is in the first usable group, is not marked down, and its connection count, increased by one, does
  not pass \<^verbatim>\<open>max_conns\<close>; no other peer's connection count and no other group changes, and a
  busy answer changes nothing.
\<close>

theorem round_robin_failover:
  assumes "\<forall>g \<in> set gs. rr_wf g"
  shows "case ngx_http_upstream_get_round_robin_peer now gs tried of
      (gs', _, None) \<Rightarrow>
        gs' = gs \<and> (\<forall>k < length gs. \<not> rr_usable now (if k = 0 then rr_is_tried tried else (\<lambda>_. False)) (gs ! k))
    | (gs', _, Some (k, p)) \<Rightarrow>
        k < length gs \<and> length gs' = length gs \<and> rr_served (gs ! k) (gs' ! k) p \<and>
        rr_usable now (if k = 0 then rr_is_tried tried else (\<lambda>_. False)) (gs ! k) \<and>
        (\<forall>i < k. \<not> rr_usable now (if i = 0 then rr_is_tried tried else (\<lambda>_. False)) (gs ! i)) \<and>
        (\<forall>i < length gs. i \<noteq> k \<longrightarrow> gs' ! i = gs ! i)"
proof -
  obtain gs' t r where res: "ngx_http_upstream_get_round_robin_peer now gs tried = (gs', t, r)"
    by (metis prod_cases3)
  from get_round_robin_groups [OF assms res] show ?thesis by (cases r) (auto simp: res)
qed

theorem round_robin_failover_witness:
  "case ngx_http_upstream_get_round_robin_peer 0 [rr_demo] [0] of
     (gs', _, None) \<Rightarrow> gs' = [rr_demo]
   | (gs', _, Some (k, p)) \<Rightarrow> k = 0 \<and> rr_served rr_demo (gs' ! 0) p"
  using round_robin_failover [of "[rr_demo]" 0 "[0]"] rr_demo_plain(2)
  by (auto split: prod.splits option.splits)



end
