(* ===== verification/Ngx_Complex_Uri.thy ===== *)
theory Ngx_Complex_Uri
  imports Prelude
begin

text \<open>
  nginx, \<^verbatim>\<open>ngx_http_parse_complex_uri\<close> of \<^verbatim>\<open>src/http/ngx_http_parse.c\<close>: the state machine that turns the raw
  path of a request into the path the server works with. It decodes percent escapes, resolves
  the segments \<^verbatim>\<open>.\<close> and \<^verbatim>\<open>..\<close>, merges slashes, and finds the extension and the arguments. The
  machine is shown to implement a specification on path segments, from which it follows that no
  \<^verbatim>\<open>.\<close> or \<^verbatim>\<open>..\<close> segment survives and that the result never climbs above the root.
\<close>

section \<open>The state machine\<close>

definition usual :: "u32 list" where
  "usual = [0x00000000, 0x7fff37d6, 0xffffffff, 0x7fffffff, 0xffffffff, 0xffffffff, 0xffffffff, 0xffffffff]"

definition is_usual :: "u8 \<Rightarrow> bool" where
  "is_usual ch \<longleftrightarrow> usual ! unat (drop_bit 5 ch) AND push_bit (unat (ch AND 0x1f)) 1 \<noteq> 0"

abbreviation c_slash :: u8 where "c_slash \<equiv> 0x2f"
abbreviation c_dot :: u8 where "c_dot \<equiv> 0x2e"
abbreviation c_percent :: u8 where "c_percent \<equiv> 0x25"
abbreviation c_question :: u8 where "c_question \<equiv> 0x3f"
abbreviation c_hash :: u8 where "c_hash \<equiv> 0x23"
abbreviation c_plus :: u8 where "c_plus \<equiv> 0x2b"

text \<open>
  The states. The quoted ones carry \<^verbatim>\<open>quoted_state\<close> and, in \<^verbatim>\<open>sw_quoted_second\<close>, the decoded high digit,
  which the code keeps in variables that are used in these states only.
\<close>

datatype path_state = sw_usual | sw_slash | sw_dot | sw_dot_dot

datatype uri_state = Plain path_state | sw_quoted path_state | sw_quoted_second path_state u8

text \<open>
  The bytes written from \<^verbatim>\<open>r->uri.data\<close> up to \<^verbatim>\<open>u\<close>, the extension pointer as an offset, the two flags.
\<close>

record uri_ctx =
  uc_out :: bytes
  uc_ext :: "nat option"
  uc_plus :: bool
  uc_quoted :: bool

datatype uri_exit = Exit_Invalid | Exit_Done uri_ctx | Exit_Args uri_ctx bytes

definition put :: "u8 \<Rightarrow> uri_ctx \<Rightarrow> uri_ctx" where
  "put ch ctx = ctx\<lparr>uc_out := uc_out ctx @ [ch]\<rparr>"

text \<open>\<^verbatim>\<open>u -= 4\<close> and the search for a slash to the left; \<^const>\<open>None\<close> when it passes the start of the buffer.\<close>

fun uri_back :: "bytes \<Rightarrow> bytes option" where
  "uri_back [] = None"
| "uri_back (c # r) = (if c = c_slash then Some (rev (c # r)) else uri_back r)"

definition uri_pop :: "uri_ctx \<Rightarrow> uri_ctx option" where
  "uri_pop ctx = map_option (\<lambda>out. ctx\<lparr>uc_out := out\<rparr>) (uri_back (drop 3 (rev (uc_out ctx))))"

datatype uri_action = Goto path_state uri_ctx | Quote | To_Args uri_ctx | To_Done uri_ctx | Invalid

text \<open>One character in one of the four plain states.\<close>

definition uri_char :: "bool \<Rightarrow> path_state \<Rightarrow> u8 \<Rightarrow> uri_ctx \<Rightarrow> uri_action" where
  "uri_char merge_slashes st ch ctx =
     (case st of
        sw_usual \<Rightarrow>
          if is_usual ch then Goto sw_usual (put ch ctx)
          else if ch = c_slash then Goto sw_slash (put ch (ctx\<lparr>uc_ext := None\<rparr>))
          else if ch = c_percent then Quote
          else if ch = c_question then To_Args ctx
          else if ch = c_hash then To_Done ctx
          else if ch = c_dot then Goto sw_usual (put ch (ctx\<lparr>uc_ext := Some (length (uc_out ctx) + 1)\<rparr>))
          else if ch = c_plus then Goto sw_usual (put ch (ctx\<lparr>uc_plus := True\<rparr>))
          else Goto sw_usual (put ch ctx)
      | sw_slash \<Rightarrow>
          if is_usual ch then Goto sw_usual (put ch ctx)
          else if ch = c_slash then Goto sw_slash (if merge_slashes then ctx else put ch ctx)
          else if ch = c_dot then Goto sw_dot (put ch ctx)
          else if ch = c_percent then Quote
          else if ch = c_question then To_Args ctx
          else if ch = c_hash then To_Done ctx
          else if ch = c_plus then Goto sw_usual (put ch (ctx\<lparr>uc_plus := True\<rparr>))
          else Goto sw_usual (put ch ctx)
      | sw_dot \<Rightarrow>
          if is_usual ch then Goto sw_usual (put ch ctx)
          else if ch = c_slash then Goto sw_slash (ctx\<lparr>uc_out := butlast (uc_out ctx)\<rparr>)
          else if ch = c_dot then Goto sw_dot_dot (put ch ctx)
          else if ch = c_percent then Quote
          else if ch = c_question then To_Args (ctx\<lparr>uc_out := butlast (uc_out ctx)\<rparr>)
          else if ch = c_hash then To_Done (ctx\<lparr>uc_out := butlast (uc_out ctx)\<rparr>)
          else if ch = c_plus then Goto sw_usual (put ch (ctx\<lparr>uc_plus := True\<rparr>))
          else Goto sw_usual (put ch ctx)
      | sw_dot_dot \<Rightarrow>
          if is_usual ch then Goto sw_usual (put ch ctx)
          else if ch = c_slash \<or> ch = c_question \<or> ch = c_hash then
            (case uri_pop ctx of
               None \<Rightarrow> Invalid
             | Some ctx \<Rightarrow>
                 if ch = c_question then To_Args ctx
                 else if ch = c_hash then To_Done ctx
                 else Goto sw_slash ctx)
          else if ch = c_percent then Quote
          else if ch = c_plus then Goto sw_usual (put ch (ctx\<lparr>uc_plus := True\<rparr>))
          else Goto sw_usual (put ch ctx))"

text \<open>The value of a hexadecimal digit, as both quoted states compute it.\<close>

definition uri_hex :: "u8 \<Rightarrow> u8 option" where
  "uri_hex ch =
     (if 0x30 \<le> ch \<and> ch \<le> 0x39 then Some (ch - 0x30)
      else let c = ch OR 0x20 in if 0x61 \<le> c \<and> c \<le> 0x66 then Some (c - 0x61 + 10) else None)"

text \<open>The loop, and what follows it when the input is used up.\<close>

function uri_loop :: "bool \<Rightarrow> uri_state \<Rightarrow> bytes \<Rightarrow> uri_ctx \<Rightarrow> uri_exit" where
  "uri_loop merge_slashes st [] ctx =
     (case st of
        sw_quoted _ \<Rightarrow> Exit_Invalid
      | sw_quoted_second _ _ \<Rightarrow> Exit_Invalid
      | Plain sw_dot \<Rightarrow> Exit_Done (ctx\<lparr>uc_out := butlast (uc_out ctx)\<rparr>)
      | Plain sw_dot_dot \<Rightarrow> (case uri_pop ctx of None \<Rightarrow> Exit_Invalid | Some ctx \<Rightarrow> Exit_Done ctx)
      | Plain _ \<Rightarrow> Exit_Done ctx)"
| "uri_loop merge_slashes (Plain st) (ch # p) ctx =
     (case uri_char merge_slashes st ch ctx of
        Goto st' ctx' \<Rightarrow> uri_loop merge_slashes (Plain st') p ctx'
      | Quote \<Rightarrow> uri_loop merge_slashes (sw_quoted st) p ctx
      | To_Args ctx' \<Rightarrow> Exit_Args ctx' p
      | To_Done ctx' \<Rightarrow> Exit_Done ctx'
      | Invalid \<Rightarrow> Exit_Invalid)"
| "uri_loop merge_slashes (sw_quoted st) (ch # p) ctx =
     (let ctx = ctx\<lparr>uc_quoted := True\<rparr> in
      case uri_hex ch of
        None \<Rightarrow> Exit_Invalid
      | Some d \<Rightarrow> uri_loop merge_slashes (sw_quoted_second st d) p ctx)"
| "uri_loop merge_slashes (sw_quoted_second st decoded) (ch # p) ctx =
     (case uri_hex ch of
        None \<Rightarrow> Exit_Invalid
      | Some d \<Rightarrow>
          let digit = (0x30 \<le> ch \<and> ch \<le> 0x39); ch = push_bit 4 decoded + d in
          if digit then
            if ch = c_percent \<or> ch = c_hash then uri_loop merge_slashes (Plain sw_usual) p (put ch ctx)
            else if ch = 0 then Exit_Invalid
            else uri_loop merge_slashes (Plain st) (ch # p) ctx
          else
            if ch = c_question then uri_loop merge_slashes (Plain sw_usual) p (put ch ctx)
            else uri_loop merge_slashes (Plain st) (ch # p)
                   (if ch = c_plus then ctx\<lparr>uc_plus := True\<rparr> else ctx))"
  by pat_completeness auto
termination
  by (relation "measure (\<lambda>(m, st, p, ctx). 2 * length p +
        (case st of sw_quoted_second _ _ \<Rightarrow> 1 | _ \<Rightarrow> 0))") auto

declare uri_loop.simps(2-4) [simp del]

text \<open>
  The fields set for the caller: the path, the extension, the arguments up to a fragment. \<^const>\<open>None\<close> for
  \<^verbatim>\<open>NGX_HTTP_PARSE_INVALID_REQUEST\<close>. Without a fragment the arguments are what follows \<^verbatim>\<open>args_start\<close>.
\<close>

record uri_result =
  ur_uri :: bytes
  ur_exten :: bytes
  ur_args :: "bytes option"

definition uri_exten :: "uri_ctx \<Rightarrow> bytes" where
  "uri_exten ctx = (case uc_ext ctx of None \<Rightarrow> [] | Some e \<Rightarrow> drop e (uc_out ctx))"

definition ngx_http_parse_complex_uri :: "bool \<Rightarrow> bool \<Rightarrow> bytes \<Rightarrow> uri_result option" where
  "ngx_http_parse_complex_uri empty_path merge_slashes uri =
     (let ctx = \<lparr>uc_out = (if empty_path then [c_slash] else []), uc_ext = None, uc_plus = False,
                 uc_quoted = False\<rparr>
      in case uri_loop merge_slashes (Plain sw_usual) uri ctx of
           Exit_Invalid \<Rightarrow> None
         | Exit_Done ctx \<Rightarrow> Some \<lparr>ur_uri = uc_out ctx, ur_exten = uri_exten ctx, ur_args = None\<rparr>
         | Exit_Args ctx rest \<Rightarrow>
             Some \<lparr>ur_uri = uc_out ctx, ur_exten = uri_exten ctx,
                   ur_args = Some (takeWhile (\<lambda>c. c \<noteq> c_hash) rest)\<rparr>)"


section \<open>Specification on path segments\<close>

text \<open>
  Decoding: the characters of the path up to an unescaped question mark or hash, and the arguments.
  An escape for a hash, a percent sign or a question mark is that character; an
  escape for the zero byte and an incomplete escape are errors.
\<close>

fun spec_decode :: "bytes \<Rightarrow> (bytes \<times> bytes option) option" where
  "spec_decode [] = Some ([], None)"
| "spec_decode (ch # p) =
     (if ch = c_question then Some ([], Some p)
      else if ch = c_hash then Some ([], None)
      else if ch = c_percent then
        (case p of
           h # l # p' \<Rightarrow>
             (case (uri_hex h, uri_hex l) of
                (Some a, Some b) \<Rightarrow>
                  if push_bit 4 a + b = 0 then None
                  else map_option (\<lambda>(cs, args). ((push_bit 4 a + b) # cs, args)) (spec_decode p')
              | _ \<Rightarrow> None)
         | _ \<Rightarrow> None)
      else map_option (\<lambda>(cs, args). (ch # cs, args)) (spec_decode p))"

text \<open>
  Resolving: a path is the segments that are complete and the one being read. A slash completes a
  segment: \<^verbatim>\<open>.\<close> is dropped, \<^verbatim>\<open>..\<close> removes the segment before it and fails at the root, an empty one is
  dropped when slashes are merged.
\<close>

definition spec_close :: "bool \<Rightarrow> bytes list \<Rightarrow> bytes \<Rightarrow> bytes list option" where
  "spec_close merge_slashes ss cur =
     (if cur = [c_dot] then Some ss
      else if cur = [c_dot, c_dot] then (if ss = [] then None else Some (butlast ss))
      else if cur = [] \<and> merge_slashes then Some ss
      else Some (ss @ [cur]))"

fun spec_segments :: "bool \<Rightarrow> bytes list \<Rightarrow> bytes \<Rightarrow> bytes \<Rightarrow> bytes list option" where
  "spec_segments merge_slashes ss cur [] =
     (if cur = [c_dot] \<or> cur = [c_dot, c_dot]
      then map_option (\<lambda>ss. ss @ [[]]) (spec_close merge_slashes ss cur)
      else Some (ss @ [cur]))"
| "spec_segments merge_slashes ss cur (c # cs) =
     (if c = c_slash
      then (case spec_close merge_slashes ss cur of
              None \<Rightarrow> None | Some ss' \<Rightarrow> spec_segments merge_slashes ss' [] cs)
      else spec_segments merge_slashes ss (cur @ [c]) cs)"

definition path :: "bytes list \<Rightarrow> bytes" where
  "path ss = concat (map ((#) c_slash) ss)"

text \<open>The path and the arguments the machine should give for a URI that starts with a slash.\<close>

definition spec_uri :: "bool \<Rightarrow> bytes \<Rightarrow> (bytes \<times> bytes option) option" where
  "spec_uri merge_slashes uri =
     (case spec_decode uri of
        None \<Rightarrow> None
      | Some (cs, args) \<Rightarrow>
          map_option (\<lambda>ss. (path ss, map_option (takeWhile (\<lambda>c. c \<noteq> c_hash)) args))
            (spec_segments merge_slashes [] [] (tl cs)))"


section \<open>Characters\<close>

lemma usual_facts: "\<not> is_usual c_slash" "\<not> is_usual c_dot" "\<not> is_usual c_percent"
  "\<not> is_usual c_question" "\<not> is_usual c_hash" "\<not> is_usual c_plus"
  by code_simp+

lemma uri_hex_range:
  assumes "uri_hex ch = Some d"
  shows "if 0x30 \<le> ch \<and> ch \<le> 0x39 then unat d < 10 else 10 \<le> unat d \<and> unat d < 16"
proof (cases "0x30 \<le> ch \<and> ch \<le> 0x39")
  case True
  then have "unat (ch - 0x30) = unat ch - 48" "unat ch \<le> 57"
    by (simp_all add: unat_sub word_le_nat_alt)
  with True assms show ?thesis by (simp add: uri_hex_def)
next
  case False
  define c where "c = ch OR 0x20"
  have d: "0x61 \<le> c" "c \<le> 0x66" "d = c - 0x61 + 10"
    using assms False by (simp_all add: uri_hex_def Let_def c_def split: if_splits)
  then have "unat (c - 0x61) = unat c - 97" "unat c \<le> 102" "97 \<le> unat c"
    by (simp_all add: unat_sub word_le_nat_alt)
  moreover from this have "unat (c - 0x61 + 10) = unat (c - 0x61) + 10"
    by (simp only: unat_word_ariths) simp
  ultimately show ?thesis using False d(3) by auto
qed

text \<open>The low digit decides which branch can see which special character.\<close>

lemma escape_low_digit:
  assumes "uri_hex l = Some (b :: u8)" "d = push_bit 4 a + b"
  shows "unat d mod 16 = unat b"
proof -
  have "unat b < 16" using uri_hex_range [OF assms(1)] by (simp split: if_splits)
  moreover have "unat d = (unat (push_bit 4 a) + unat b) mod 256"
    using assms(2) by (simp add: unat_word_ariths)
  moreover have "unat (push_bit 4 a) = (unat a * 16) mod 256"
    by (simp add: push_bit_eq_mult unat_word_ariths)
  ultimately show ?thesis by (simp add: mod_mod_cancel mod_simps mod_add_left_eq)
qed


lemma escape_branch:
  assumes "uri_hex l = Some (b :: u8)" "d = push_bit 4 a + b"
  shows "0x30 \<le> l \<and> l \<le> 0x39 \<Longrightarrow> d \<noteq> c_question"
    and "\<not> (0x30 \<le> l \<and> l \<le> 0x39) \<Longrightarrow> d \<noteq> c_percent \<and> d \<noteq> c_hash \<and> d \<noteq> 0"
  using uri_hex_range [OF assms(1)] escape_low_digit [OF assms] by auto


section \<open>The machine implements the specification\<close>

definition state_of :: "bytes \<Rightarrow> path_state" where
  "state_of cur =
     (if cur = [] then sw_slash else if cur = [c_dot] then sw_dot
      else if cur = [c_dot, c_dot] then sw_dot_dot else sw_usual)"

definition no_slash :: "bytes list \<Rightarrow> bool" where
  "no_slash ss \<longleftrightarrow> (\<forall>s \<in> set ss. c_slash \<notin> set s)"

lemma path_simps [simp]: "path [] = []" "path (s # ss) = c_slash # s @ path ss" "path (ss @ ts) = path ss @ path ts"
  by (simp_all add: path_def)

lemma state_of_put:
  "state_of (cur @ [c]) = (if c = c_dot \<and> cur = [] then sw_dot
     else if c = c_dot \<and> cur = [c_dot] then sw_dot_dot else sw_usual)"
  by (auto simp: state_of_def append_eq_Cons_conv)

lemma uri_back_segment:
  "c_slash \<notin> set s \<Longrightarrow> uri_back (rev s @ c_slash # r) = Some (rev r @ [c_slash])"
proof (induction s arbitrary: r rule: rev_induct)
  case (snoc x xs)
  then have "c_slash \<noteq> x" by auto
  with snoc show ?case by simp
qed simp

lemma uri_pop_path:
  assumes "uc_out ctx = path (ss @ [[c_dot, c_dot]])" "no_slash ss"
  shows "uri_pop ctx = (if ss = [] then None else Some (ctx\<lparr>uc_out := path (butlast ss @ [[]])\<rparr>))"
proof (cases ss rule: rev_cases)
  case (snoc ts s)
  then have "c_slash \<notin> set s" using assms(2) by (simp add: no_slash_def)
  moreover have "drop 3 (rev (uc_out ctx)) = rev s @ c_slash # rev (path ts)" by (simp add: assms(1) snoc)
  ultimately show ?thesis by (simp add: uri_pop_def snoc uri_back_segment)
qed (simp add: assms(1) uri_pop_def)

text \<open>A character that is neither escape nor terminator.\<close>

lemma uri_char_slash:
  assumes "uc_out ctx = path (ss @ [cur])" "no_slash ss"
  shows "case spec_close merge ss cur of
      None \<Rightarrow> uri_char merge (state_of cur) c_slash ctx = Invalid
    | Some ss' \<Rightarrow> \<exists>ctx'. uri_char merge (state_of cur) c_slash ctx = Goto sw_slash ctx' \<and>
        uc_out ctx' = path (ss' @ [[]])"
proof -
  consider "cur = []" | "cur = [c_dot]" | "cur = [c_dot, c_dot]"
    | "cur \<noteq> []" "cur \<noteq> [c_dot]" "cur \<noteq> [c_dot, c_dot]" by blast
  then show ?thesis
  proof cases
    case 3
    then show ?thesis using assms uri_pop_path [of ctx ss]
      by (simp add: uri_char_def state_of_def spec_close_def usual_facts)
  qed (use assms in \<open>simp_all add: uri_char_def state_of_def spec_close_def usual_facts put_def butlast_append\<close>)
qed

lemma uri_char_other:
  assumes "uc_out ctx = path (ss @ [cur])" "c \<noteq> c_slash" "c \<noteq> c_percent" "c \<noteq> c_question" "c \<noteq> c_hash"
  shows "\<exists>ctx'. uri_char merge (state_of cur) c ctx = Goto (state_of (cur @ [c])) ctx' \<and>
    uc_out ctx' = path (ss @ [cur @ [c]])"
proof -
  consider "cur = []" | "cur = [c_dot]" | "cur = [c_dot, c_dot]"
    | "cur \<noteq> []" "cur \<noteq> [c_dot]" "cur \<noteq> [c_dot, c_dot]" by blast
  then show ?thesis unfolding state_of_put
    by cases (use assms in \<open>auto simp: uri_char_def state_of_def usual_facts put_def\<close>)
qed

lemma uri_char_end:
  assumes "uc_out ctx = path (ss @ [cur])" "no_slash ss"
  shows "case spec_segments merge ss cur [] of
      None \<Rightarrow> uri_char merge (state_of cur) c_question ctx = Invalid \<and>
        uri_char merge (state_of cur) c_hash ctx = Invalid \<and>
        uri_loop merge (Plain (state_of cur)) [] ctx = Exit_Invalid
    | Some ss' \<Rightarrow> \<exists>ctx'. uri_char merge (state_of cur) c_question ctx = To_Args ctx' \<and>
        uri_char merge (state_of cur) c_hash ctx = To_Done ctx' \<and>
        uri_loop merge (Plain (state_of cur)) [] ctx = Exit_Done ctx' \<and> uc_out ctx' = path ss'"
proof -
  consider "cur = []" | "cur = [c_dot]" | "cur = [c_dot, c_dot]"
    | "cur \<noteq> []" "cur \<noteq> [c_dot]" "cur \<noteq> [c_dot, c_dot]" by blast
  then show ?thesis
  proof cases
    case 3
    then show ?thesis using assms uri_pop_path [of ctx ss]
      by (simp add: uri_char_def state_of_def spec_close_def usual_facts)
  qed (use assms in \<open>simp_all add: uri_char_def state_of_def spec_close_def usual_facts butlast_append\<close>)
qed

definition exit_view :: "uri_exit \<Rightarrow> (bytes \<times> bytes option) option" where
  "exit_view e = (case e of Exit_Invalid \<Rightarrow> None | Exit_Done ctx \<Rightarrow> Some (uc_out ctx, None)
     | Exit_Args ctx rest \<Rightarrow> Some (uc_out ctx, Some rest))"

definition spec_rest :: "bool \<Rightarrow> bytes list \<Rightarrow> bytes \<Rightarrow> (bytes \<times> bytes option) option \<Rightarrow> (bytes \<times> bytes option) option" where
  "spec_rest merge ss cur dec =
     (case dec of None \<Rightarrow> None
      | Some (cs, args) \<Rightarrow> map_option (\<lambda>ss. (path ss, args)) (spec_segments merge ss cur cs))"

lemma spec_rest_None [simp]: "spec_rest merge ss cur None = None"
  by (simp add: spec_rest_def)

lemma spec_rest_Cons:
  "spec_rest merge ss cur (map_option (\<lambda>(cs, args). (c # cs, args)) dec) =
     (if c = c_slash
      then (case spec_close merge ss cur of None \<Rightarrow> None | Some ss' \<Rightarrow> spec_rest merge ss' [] dec)
      else spec_rest merge ss (cur @ [c]) dec)"
  by (cases dec) (auto simp: spec_rest_def split: option.split)

lemma no_slash_close: "no_slash (ss @ [cur]) \<Longrightarrow> spec_close merge ss cur = Some ss' \<Longrightarrow> no_slash (ss' @ [[]])"
  by (auto simp: no_slash_def spec_close_def split: if_splits dest: in_set_butlastD)


text \<open>One character of the decoded path, raw or escaped, in the current plain state.\<close>

lemma uri_loop_char:
  assumes out: "uc_out ctx = path (ss @ [cur])" and ns: "no_slash (ss @ [cur])"
    and c: "c \<noteq> c_percent" "c \<noteq> c_question" "c \<noteq> c_hash"
    and IH: "\<And>ss cur ctx. uc_out ctx = path (ss @ [cur]) \<Longrightarrow> no_slash (ss @ [cur]) \<Longrightarrow>
      exit_view (uri_loop merge (Plain (state_of cur)) p ctx) = spec_rest merge ss cur dec"
  shows "exit_view (uri_loop merge (Plain (state_of cur)) (c # p) ctx) =
    spec_rest merge ss cur (map_option (\<lambda>(cs, args). (c # cs, args)) dec)"
proof (cases "c = c_slash")
  case True
  have "no_slash ss" using ns by (simp add: no_slash_def)
  note step = uri_char_slash [OF out this, of merge]
  show ?thesis
  proof (cases "spec_close merge ss cur")
    case None
    with step True show ?thesis by (simp add: uri_loop.simps spec_rest_Cons exit_view_def)
  next
    case (Some ss')
    with step obtain ctx' where "uri_char merge (state_of cur) c_slash ctx = Goto sw_slash ctx'"
      "uc_out ctx' = path (ss' @ [[]])" by auto
    moreover have "sw_slash = state_of []" by (simp add: state_of_def)
    ultimately show ?thesis
      using IH [of ctx' ss' "[]"] no_slash_close [OF ns Some] True Some
      by (simp add: uri_loop.simps(2) spec_rest_Cons)
  qed
next
  case False
  from uri_char_other [OF out False c, of merge] obtain ctx' where
    "uri_char merge (state_of cur) c ctx = Goto (state_of (cur @ [c])) ctx'"
    "uc_out ctx' = path (ss @ [cur @ [c]])" by blast
  moreover have "no_slash (ss @ [cur @ [c]])" using ns False by (auto simp: no_slash_def)
  ultimately show ?thesis using IH [of ctx' ss "cur @ [c]"] False by (simp add: uri_loop.simps(2) spec_rest_Cons)
qed

lemma uri_char_percent: "uri_char merge st c_percent ctx = Quote"
  by (cases st) (simp_all add: uri_char_def usual_facts)

lemma uri_loop_escape:
  assumes out: "uc_out ctx = path (ss @ [cur])" and ns: "no_slash (ss @ [cur])"
    and hex: "uri_hex h = Some a" "uri_hex l = Some b" and d: "d = push_bit 4 a + b"
    and IH: "\<And>ss cur ctx. uc_out ctx = path (ss @ [cur]) \<Longrightarrow> no_slash (ss @ [cur]) \<Longrightarrow>
      exit_view (uri_loop merge (Plain (state_of cur)) p ctx) = spec_rest merge ss cur dec"
  shows "exit_view (uri_loop merge (Plain (state_of cur)) (c_percent # h # l # p) ctx) =
    (if d = 0 then None else spec_rest merge ss cur (map_option (\<lambda>(cs, args). (d # cs, args)) dec))"
proof -
  let ?digit = "0x30 \<le> l \<and> l \<le> 0x39"
  define ctx1 where "ctx1 = ctx\<lparr>uc_quoted := True\<rparr>"
  define ctx2 where "ctx2 = (if d = c_plus \<and> \<not> ?digit then ctx1\<lparr>uc_plus := True\<rparr> else ctx1)"
  have out1: "uc_out ctx1 = path (ss @ [cur])" "uc_out ctx2 = path (ss @ [cur])"
    using out by (simp_all add: ctx1_def ctx2_def)
  note branch = escape_branch [OF hex(2) d]
  have red: "uri_loop merge (Plain (state_of cur)) (c_percent # h # l # p) ctx =
      (if d = c_percent \<or> d = c_hash \<or> d = c_question then uri_loop merge (Plain sw_usual) p (put d ctx1)
       else if d = 0 then Exit_Invalid
       else uri_loop merge (Plain (state_of cur)) (d # p) ctx2)"
  proof -
    have "uri_loop merge (Plain (state_of cur)) (c_percent # h # l # p) ctx =
        uri_loop merge (sw_quoted (state_of cur)) (h # l # p) ctx"
      by (simp add: uri_loop.simps(2) uri_char_percent)
    also have "\<dots> = uri_loop merge (sw_quoted_second (state_of cur) a) (l # p) ctx1"
      by (simp add: uri_loop.simps(3) hex(1) ctx1_def)
    finally show ?thesis
      using branch hex(2) by (cases ?digit) (simp_all add: uri_loop.simps(4) Let_def ctx2_def d [symmetric])
  qed
  show ?thesis
  proof (cases "d = c_percent \<or> d = c_hash \<or> d = c_question")
    case True
    then have dd: "d \<noteq> c_slash" "d \<noteq> c_dot" "d \<noteq> 0" by auto
    then have "state_of (cur @ [d]) = sw_usual" by (simp add: state_of_put)
    moreover have "no_slash (ss @ [cur @ [d]])" using ns dd by (auto simp: no_slash_def)
    moreover have "uc_out (put d ctx1) = path (ss @ [cur @ [d]])" using out1 by (simp add: put_def)
    ultimately show ?thesis
      using IH [of "put d ctx1" ss "cur @ [d]"] True dd unfolding red by (simp add: spec_rest_Cons)
  next
    case False
    then show ?thesis
      using uri_loop_char [OF out1(2) ns, of d merge p dec] IH unfolding red
      by (auto simp: exit_view_def)
  qed
qed

lemma uri_loop_spec:
  "uc_out ctx = path (ss @ [cur]) \<Longrightarrow> no_slash (ss @ [cur]) \<Longrightarrow>
    exit_view (uri_loop merge (Plain (state_of cur)) inp ctx) = spec_rest merge ss cur (spec_decode inp)"
proof (induction inp arbitrary: ss cur ctx rule: length_induct)
  case (1 inp)
  have ns: "no_slash ss" using 1(3) by (simp add: no_slash_def)
  note fin = uri_char_end [OF 1(2) ns, of merge]
  show ?case
  proof (cases inp)
    case Nil
    then show ?thesis using fin
      by (cases "spec_segments merge ss cur []") (auto simp: spec_rest_def exit_view_def simp del: uri_loop.simps spec_segments.simps)
  next
    case (Cons c p)
    have IH: "exit_view (uri_loop merge (Plain (state_of cur)) q ctx) = spec_rest merge ss cur (spec_decode q)"
      if "uc_out ctx = path (ss @ [cur])" "no_slash (ss @ [cur])" "length q < length inp" for q ss cur ctx
      using 1(1) that by blast
    consider (q) "c = c_question" | (hash) "c = c_hash" | (pct) "c = c_percent"
      | (other) "c \<noteq> c_question" "c \<noteq> c_hash" "c \<noteq> c_percent" by blast
    then show ?thesis
    proof cases
      case q
      then show ?thesis using fin
        by (cases "spec_segments merge ss cur []")
          (auto simp: Cons uri_loop.simps(2) spec_rest_def exit_view_def simp del: spec_segments.simps)
    next
      case hash
      then show ?thesis using fin
        by (cases "spec_segments merge ss cur []")
          (auto simp: Cons uri_loop.simps(2) spec_rest_def exit_view_def simp del: spec_segments.simps)
    next
      case other
      then show ?thesis using uri_loop_char [OF 1(2,3), of c merge p "spec_decode p"] IH
        by (simp add: Cons)
    next
      case pct
      show ?thesis
      proof (cases "\<exists>h l p' a b. p = h # l # p' \<and> uri_hex h = Some a \<and> uri_hex l = Some b")
        case True
        then obtain h l p' a b where p: "p = h # l # p'" "uri_hex h = Some a" "uri_hex l = Some b" by blast
        then show ?thesis
          using uri_loop_escape [OF 1(2,3) p(2,3) refl, of merge p' "spec_decode p'"] IH
          by (simp add: Cons pct)
      next
        case False
        then have "spec_decode inp = None"
          by (auto simp: Cons pct split: list.split option.split)
        moreover have "uri_loop merge (Plain (state_of cur)) inp ctx = Exit_Invalid"
          using False by (cases p; cases "tl p")
            (auto simp: Cons pct uri_loop.simps uri_char_percent split: option.split)
        ultimately show ?thesis by (simp add: exit_view_def)
      qed
    qed
  qed
qed


section \<open>Safety of the specification\<close>

definition clean_segments :: "bool \<Rightarrow> bytes list \<Rightarrow> bool" where
  "clean_segments merge ss \<longleftrightarrow>
     (\<forall>s \<in> set ss. c_slash \<notin> set s \<and> s \<noteq> [c_dot] \<and> s \<noteq> [c_dot, c_dot] \<and> (merge \<longrightarrow> s \<noteq> []))"

lemma clean_butlast: "clean_segments merge ss \<Longrightarrow> clean_segments merge (butlast ss)"
  unfolding clean_segments_def by (blast dest: in_set_butlastD)

lemma clean_close:
  assumes "clean_segments merge ss" "c_slash \<notin> set cur" "spec_close merge ss cur = Some ss'"
  shows "clean_segments merge ss'"
proof -
  consider "ss' = ss" | "ss' = butlast ss" | "ss' = ss @ [cur]" "cur \<noteq> [c_dot]" "cur \<noteq> [c_dot, c_dot]" "merge \<longrightarrow> cur \<noteq> []"
    using assms(3) by (auto simp: spec_close_def split: if_splits)
  then show ?thesis
  proof cases
    case 3
    then show ?thesis using assms(1,2) by (simp add: clean_segments_def)
  qed (use assms(1) clean_butlast in simp_all)
qed

lemma spec_segments_clean:
  "clean_segments merge ss \<Longrightarrow> c_slash \<notin> set cur \<Longrightarrow> spec_segments merge ss cur cs = Some ss' \<Longrightarrow>
    \<exists>ts t. ss' = ts @ [t] \<and> clean_segments merge ts \<and>
      c_slash \<notin> set t \<and> t \<noteq> [c_dot] \<and> t \<noteq> [c_dot, c_dot]"
proof (induction merge ss cur cs rule: spec_segments.induct)
  case (1 merge ss cur)
  show ?case
  proof (cases "cur = [c_dot] \<or> cur = [c_dot, c_dot]")
    case True
    then obtain ss1 where "spec_close merge ss cur = Some ss1" "ss' = ss1 @ [[]]" using 1(3) by auto
    then show ?thesis using clean_close [OF 1(1,2)] by simp
  next
    case False
    then show ?thesis using 1 by (intro exI [of _ ss] exI [of _ cur]) auto
  qed
next
  case (2 merge ss cur c cs)
  show ?case
  proof (cases "c = c_slash")
    case True
    then obtain ss1 where "spec_close merge ss cur = Some ss1" "spec_segments merge ss1 [] cs = Some ss'"
      using 2(5) by (auto split: option.splits)
    then show ?thesis using 2(1) [OF True] clean_close [OF 2(3,4)] by simp
  next
    case False
    then show ?thesis using 2 by simp
  qed
qed

lemma length_path_butlast: "length (path (butlast ss)) \<le> length (path ss)"
  by (cases ss rule: rev_cases) simp_all

lemma spec_segments_length:
  "spec_segments merge ss cur cs = Some ss' \<Longrightarrow> length (path ss') \<le> length (path (ss @ [cur])) + length cs"
proof (induction merge ss cur cs rule: spec_segments.induct)
  case (1 merge ss cur)
  then show ?case using length_path_butlast [of ss] by (auto simp: spec_close_def split: if_splits)
next
  case (2 merge ss cur c cs)
  show ?case
  proof (cases "c = c_slash")
    case True
    then obtain ss1 where ss1: "spec_close merge ss cur = Some ss1" "spec_segments merge ss1 [] cs = Some ss'"
      using 2(3) by (auto split: option.splits)
    then have "length (path ss1) \<le> length (path (ss @ [cur]))"
      using length_path_butlast [of ss] by (auto simp: spec_close_def split: if_splits)
    with 2(1) [OF True ss1] show ?thesis by simp
  next
    case False
    then show ?thesis using 2 by simp
  qed
qed

lemma spec_decode_length: "spec_decode inp = Some (cs, args) \<Longrightarrow> length cs \<le> length inp"
proof (induction inp arbitrary: cs args rule: length_induct)
  case (1 inp)
  have IH: "spec_decode ys = Some (x, y) \<Longrightarrow> length ys < length inp \<Longrightarrow> length x \<le> length ys" for ys x y
    using 1(1) by blast
  show ?case
  proof (cases inp)
    case (Cons c p)
    then show ?thesis using 1(2)
      by (auto split: if_splits list.splits option.splits dest!: IH)
  qed (use 1(2) in simp)
qed


section \<open>The extension pointer\<close>

fun plain_of :: "uri_state \<Rightarrow> path_state" where
  "plain_of (Plain st) = st"
| "plain_of (sw_quoted st) = st"
| "plain_of (sw_quoted_second st d) = st"

definition ext_ok :: "path_state \<Rightarrow> uri_ctx \<Rightarrow> bool" where
  "ext_ok st ctx \<longleftrightarrow> (case uc_ext ctx of None \<Rightarrow> True | Some e \<Rightarrow> e \<le> length (uc_out ctx) \<and> st = sw_usual)"

definition exit_ext_ok :: "uri_exit \<Rightarrow> bool" where
  "exit_ext_ok e = (case e of Exit_Invalid \<Rightarrow> True | Exit_Done ctx \<Rightarrow> ext_ok sw_usual ctx
     | Exit_Args ctx rest \<Rightarrow> ext_ok sw_usual ctx)"

lemma uri_pop_ext: "uri_pop ctx = Some ctx' \<Longrightarrow> uc_ext ctx' = uc_ext ctx"
  by (auto simp: uri_pop_def)

lemma uri_char_ext:
  "ext_ok st ctx \<Longrightarrow>
    (case uri_char merge st ch ctx of Goto st' ctx' \<Rightarrow> ext_ok st' ctx' | Quote \<Rightarrow> True
     | To_Args ctx' \<Rightarrow> ext_ok sw_usual ctx' | To_Done ctx' \<Rightarrow> ext_ok sw_usual ctx' | Invalid \<Rightarrow> True)"
  by (cases st) (auto simp: uri_char_def ext_ok_def put_def dest!: uri_pop_ext split: option.splits)

lemma ext_ok_flags [simp]:
  "ext_ok st (ctx\<lparr>uc_plus := x\<rparr>) = ext_ok st ctx" "ext_ok st (ctx\<lparr>uc_quoted := x\<rparr>) = ext_ok st ctx"
  by (simp_all add: ext_ok_def split: option.split)

lemma ext_ok_put: "ext_ok st ctx \<Longrightarrow> ext_ok sw_usual (put c ctx)"
  by (auto simp: ext_ok_def put_def split: option.splits)

lemma uri_loop_ext: "ext_ok (plain_of st) ctx \<Longrightarrow> exit_ext_ok (uri_loop merge st inp ctx)"
proof (induction merge st inp ctx rule: uri_loop.induct)
  case (1 merge st ctx)
  then show ?case
    by (auto simp: exit_ext_ok_def ext_ok_def dest!: uri_pop_ext
        split: uri_state.splits path_state.splits option.splits)
next
  case (2 merge st ch p ctx)
  then show ?case using uri_char_ext [of st ctx merge ch]
    by (cases "uri_char merge st ch ctx")
      (simp_all add: uri_loop.simps(2) exit_ext_ok_def [of Exit_Invalid] exit_ext_ok_def [of "Exit_Done _"]
        exit_ext_ok_def [of "Exit_Args _ _"])
next
  case (3 merge st ch p ctx)
  then show ?case
    by (cases "uri_hex ch") (simp_all add: uri_loop.simps(3) Let_def exit_ext_ok_def [of Exit_Invalid])
next
  case (4 merge st decoded ch p ctx)
  show ?case
  proof (cases "uri_hex ch")
    case (Some d)
    note IH = 4(1-4) [OF Some refl refl]
    have ok: "ext_ok st ctx" "ext_ok sw_usual (put c ctx)" for c using 4(5) ext_ok_put by simp_all
    have inv: "exit_ext_ok Exit_Invalid" by (simp add: exit_ext_ok_def)
    show ?thesis
    proof (cases "0x30 \<le> ch \<and> ch \<le> 0x39")
      case True
      then show ?thesis unfolding uri_loop.simps(4) Some using IH(1,2) ok inv by (simp add: Let_def)
    next
      case False
      then show ?thesis unfolding uri_loop.simps(4) Some using IH(3,4) ok by (auto simp: Let_def)
    qed
  qed (simp add: uri_loop.simps(4) exit_ext_ok_def)
qed


section \<open>Correctness\<close>

lemma parse_complex_uri_spec:
  "map_option (\<lambda>r. (ur_uri r, ur_args r)) (ngx_http_parse_complex_uri False merge_slashes (c_slash # rest)) =
     spec_uri merge_slashes (c_slash # rest)"
proof -
  define ctx where "ctx = \<lparr>uc_out = [c_slash], uc_ext = None, uc_plus = False, uc_quoted = False\<rparr>"
  let ?e = "uri_loop merge_slashes (Plain sw_slash) rest ctx"
  have start: "uri_loop merge_slashes (Plain sw_usual) (c_slash # rest)
      \<lparr>uc_out = [], uc_ext = None, uc_plus = False, uc_quoted = False\<rparr> = ?e"
    by (simp add: uri_loop.simps(2) uri_char_def usual_facts put_def ctx_def)
  have "uc_out ctx = path ([] @ [[]])" "no_slash ([] @ [[]])" "state_of [] = sw_slash"
    by (simp_all add: ctx_def no_slash_def state_of_def)
  with uri_loop_spec [of ctx "[]" "[]" merge_slashes rest]
  have view: "exit_view ?e = spec_rest merge_slashes [] [] (spec_decode rest)" by simp
  have "map_option (\<lambda>r. (ur_uri r, ur_args r)) (ngx_http_parse_complex_uri False merge_slashes (c_slash # rest)) =
      map_option (\<lambda>(out, args). (out, map_option (takeWhile (\<lambda>c. c \<noteq> c_hash)) args)) (exit_view ?e)"
    by (cases ?e) (simp_all add: ngx_http_parse_complex_uri_def start exit_view_def)
  also have "\<dots> = spec_uri merge_slashes (c_slash # rest)"
    unfolding view by (cases "spec_decode rest")
      (auto simp: spec_uri_def spec_rest_def option.map_comp comp_def split: option.split)
  finally show ?thesis .
qed

text \<open>
  C5. The machine computes what the specification says. For every raw URI that starts with a slash,
  as the request-line parser delivers it, the result is the decoded path resolved segment
  by segment and the arguments after the first unescaped question mark up to a hash; it is refused
  exactly when an escape is broken or encodes the zero byte or when \<^verbatim>\<open>..\<close> would leave the root.
\<close>

theorem complex_uri_refines:
  "map_option (\<lambda>r. (ur_uri r, ur_args r)) (ngx_http_parse_complex_uri False merge_slashes (c_slash # rest)) =
     spec_uri merge_slashes (c_slash # rest)"
  by (rule parse_complex_uri_spec)

text \<open>
  No request path leaves the document root. Whatever the raw URI contains, escaped or not, an
  accepted path starts with a slash, has no segment \<^verbatim>\<open>.\<close> or \<^verbatim>\<open>..\<close>, has no empty inner segment when
  slashes are merged, and is no longer than the raw URI, the size of the buffer it is written to;
  the extension pointer stays inside it. For an absolute URI without a path the result is a single slash.
\<close>

theorem complex_uri_safe:
  assumes "ngx_http_parse_complex_uri empty_path merge_slashes uri = Some r"
    and "if empty_path then hd uri = c_question \<or> hd uri = c_hash else hd uri = c_slash" "uri \<noteq> []"
  shows "(\<exists>ts t. ur_uri r = path (ts @ [t]) \<and> clean_segments merge_slashes ts \<and>
      c_slash \<notin> set t \<and> t \<noteq> [c_dot] \<and> t \<noteq> [c_dot, c_dot]) \<and>
    (empty_path \<longrightarrow> ur_uri r = [c_slash]) \<and> length (ur_uri r) \<le> length uri \<and>
    exit_ext_ok (uri_loop merge_slashes (Plain sw_usual) uri
      \<lparr>uc_out = (if empty_path then [c_slash] else []), uc_ext = None, uc_plus = False, uc_quoted = False\<rparr>)"
proof -
  obtain c rest where uri: "uri = c # rest" using assms(3) by (cases uri) auto
  have ext: "exit_ext_ok (uri_loop merge_slashes (Plain sw_usual) uri
      \<lparr>uc_out = (if empty_path then [c_slash] else []), uc_ext = None, uc_plus = False, uc_quoted = False\<rparr>)"
    by (rule uri_loop_ext) (simp add: ext_ok_def)
  show ?thesis
  proof (cases empty_path)
    case True
    then have "ur_uri r = path ([] @ [[]])" using assms(1,2)
      by (auto simp: uri ngx_http_parse_complex_uri_def uri_loop.simps(2) uri_char_def usual_facts)
    with ext True uri show ?thesis by (auto simp: clean_segments_def intro!: exI [of _ "[]"])
  next
    case False
    then have c: "c = c_slash" using assms(2) uri by simp
    have "spec_uri merge_slashes uri = Some (ur_uri r, ur_args r)"
      using parse_complex_uri_spec [of merge_slashes rest] assms(1) False by (simp add: uri c)
    then obtain cs args ss where
      cs: "spec_decode uri = Some (cs, args)" "spec_segments merge_slashes [] [] (tl cs) = Some ss" "ur_uri r = path ss"
      by (auto simp: spec_uri_def split: option.splits)
    have "clean_segments merge_slashes []" by (simp add: clean_segments_def)
    from spec_segments_clean [OF this _ cs(2)] obtain ts t where
      t: "ss = ts @ [t]" "clean_segments merge_slashes ts" "c_slash \<notin> set t" "t \<noteq> [c_dot]" "t \<noteq> [c_dot, c_dot]"
      by auto
    have len: "length (path ss) \<le> length uri"
      using spec_segments_length [OF cs(2)] spec_decode_length [OF cs(1)] cs(1)
      by (cases cs) (auto simp: uri c split: option.splits)
    show ?thesis
    proof (intro conjI)
      show "\<exists>ts t. ur_uri r = path (ts @ [t]) \<and> clean_segments merge_slashes ts \<and>
          c_slash \<notin> set t \<and> t \<noteq> [c_dot] \<and> t \<noteq> [c_dot, c_dot]"
        using t unfolding cs(3) by blast
    qed (use ext False len cs(3) in simp_all)
  qed
qed

theorem complex_uri_safe_witness:
  "length (ur_uri (the (ngx_http_parse_complex_uri False True [0x2f, 0x61, 0x2f, 0x25, 0x32, 0x65, 0x25, 0x32, 0x45, 0x2f, 0x2f, 0x62, 0x3f, 0x78]))) \<le> 14"
proof -
  have "ngx_http_parse_complex_uri False True [0x2f, 0x61, 0x2f, 0x25, 0x32, 0x65, 0x25, 0x32, 0x45, 0x2f, 0x2f, 0x62, 0x3f, 0x78] =
      Some \<lparr>ur_uri = [0x2f, 0x62], ur_exten = [], ur_args = Some [0x78]\<rparr>"
    by code_simp
  from complex_uri_safe [OF this] this show ?thesis by simp
qed

end
