(* ===== verification/Ngx_Parse.thy ===== *)
theory Ngx_Parse
  imports Prelude "HOL-Library.Monad_Syntax"
begin

text \<open>
  nginx, the number readers of \<^verbatim>\<open>src/core/ngx_string.c\<close> (\<^verbatim>\<open>ngx_atoi\<close>, \<^verbatim>\<open>ngx_atosz\<close>, \<^verbatim>\<open>ngx_atoof\<close>,
  \<^verbatim>\<open>ngx_atotm\<close>, \<^verbatim>\<open>ngx_atofp\<close>, \<^verbatim>\<open>ngx_hextoi\<close>) and the readers of sizes, offsets and times of
  \<^verbatim>\<open>src/core/ngx_parse.c\<close> that the configuration and the header parsers call. Signed overflow is
  undefined in C: an operation whose result leaves 64 bits is \<^const>\<open>None\<close>, and the theorems show
  that the guards of the code keep every reader away from it and refuse nothing else.
\<close>

section \<open>Signed 64-bit arithmetic\<close>

definition NGX_MAX_INT_T_VALUE :: int where "NGX_MAX_INT_T_VALUE = 9223372036854775807"
definition NGX_ERROR :: int where "NGX_ERROR = -1"

abbreviation NGX_MAX_SIZE_T_VALUE :: int where "NGX_MAX_SIZE_T_VALUE \<equiv> NGX_MAX_INT_T_VALUE"
abbreviation NGX_MAX_OFF_T_VALUE :: int where "NGX_MAX_OFF_T_VALUE \<equiv> NGX_MAX_INT_T_VALUE"
abbreviation NGX_MAX_TIME_T_VALUE :: int where "NGX_MAX_TIME_T_VALUE \<equiv> NGX_MAX_INT_T_VALUE"

definition s64 :: "int \<Rightarrow> int option" where
  "s64 v = (if - NGX_MAX_INT_T_VALUE - 1 \<le> v \<and> v \<le> NGX_MAX_INT_T_VALUE then Some v else None)"

lemma s64_nonneg: "0 \<le> v \<Longrightarrow> v \<le> NGX_MAX_INT_T_VALUE \<Longrightarrow> s64 v = Some v"
  by (simp add: s64_def NGX_MAX_INT_T_VALUE_def)

text \<open>\<^verbatim>\<open>value * base + d\<close>\<close>

definition s64_shift_in :: "int \<Rightarrow> int \<Rightarrow> int \<Rightarrow> int option" where
  "s64_shift_in base v d = do { m \<leftarrow> s64 (v * base); s64 (m + d) }"

lemma s64_shift_in_fits:
  assumes "0 \<le> v" "0 \<le> d" "0 \<le> base" "v * base + d \<le> NGX_MAX_INT_T_VALUE"
  shows "s64_shift_in base v d = Some (v * base + d)"
proof -
  have "0 \<le> v * base" using assms by simp
  then show ?thesis using assms by (simp add: s64_shift_in_def s64_nonneg)
qed


section \<open>The readers of \<^verbatim>\<open>ngx_string.c\<close>\<close>

text \<open>The test before a digit is appended, with \<^verbatim>\<open>cutoff\<close> and \<^verbatim>\<open>cutlim\<close> of the type's maximum.\<close>

definition cut :: "int \<Rightarrow> int \<Rightarrow> int \<Rightarrow> bool" where
  "cut mx value d \<longleftrightarrow> value \<ge> mx div 10 \<and> (value > mx div 10 \<or> d > mx mod 10)"

text \<open>The loop that \<^verbatim>\<open>ngx_atoi\<close>, \<^verbatim>\<open>ngx_atosz\<close>, \<^verbatim>\<open>ngx_atoof\<close> and \<^verbatim>\<open>ngx_atotm\<close> share.\<close>

fun ato_loop :: "int \<Rightarrow> int \<Rightarrow> bytes \<Rightarrow> int option" where
  "ato_loop mx value [] = Some value"
| "ato_loop mx value (ch # line) =
     (if ch < 0x30 \<or> ch > 0x39 then Some NGX_ERROR
      else if cut mx value (uint ch - 0x30) then Some NGX_ERROR
      else do { value \<leftarrow> s64_shift_in 10 value (uint ch - 0x30); ato_loop mx value line })"

definition ngx_atoi :: "bytes \<Rightarrow> int option" where
  "ngx_atoi line = (if length line = 0 then Some NGX_ERROR else ato_loop NGX_MAX_INT_T_VALUE 0 line)"

definition ngx_atosz :: "bytes \<Rightarrow> int option" where
  "ngx_atosz line = (if length line = 0 then Some NGX_ERROR else ato_loop NGX_MAX_SIZE_T_VALUE 0 line)"

definition ngx_atoof :: "bytes \<Rightarrow> int option" where
  "ngx_atoof line = (if length line = 0 then Some NGX_ERROR else ato_loop NGX_MAX_OFF_T_VALUE 0 line)"

definition ngx_atotm :: "bytes \<Rightarrow> int option" where
  "ngx_atotm line = (if length line = 0 then Some NGX_ERROR else ato_loop NGX_MAX_TIME_T_VALUE 0 line)"

text \<open>\<^verbatim>\<open>while (point--)\<close> of \<^verbatim>\<open>ngx_atofp\<close>\<close>

fun fp_scale :: "nat \<Rightarrow> int \<Rightarrow> int option" where
  "fp_scale 0 value = Some value"
| "fp_scale (Suc point) value =
     (if value > NGX_MAX_INT_T_VALUE div 10 then Some NGX_ERROR
      else do { value \<leftarrow> s64 (value * 10); fp_scale point value })"

fun fp_loop :: "nat \<Rightarrow> nat \<Rightarrow> int \<Rightarrow> bytes \<Rightarrow> int option" where
  "fp_loop point dot value [] = fp_scale point value"
| "fp_loop point dot value (ch # line) =
     (if point = 0 then Some NGX_ERROR
      else if ch = 0x2e then (if dot \<noteq> 0 then Some NGX_ERROR else fp_loop point 1 value line)
      else if ch < 0x30 \<or> ch > 0x39 then Some NGX_ERROR
      else if cut NGX_MAX_INT_T_VALUE value (uint ch - 0x30) then Some NGX_ERROR
      else do { value \<leftarrow> s64_shift_in 10 value (uint ch - 0x30); fp_loop (point - dot) dot value line })"

definition ngx_atofp :: "bytes \<Rightarrow> nat \<Rightarrow> int option" where
  "ngx_atofp line point = (if length line = 0 then Some NGX_ERROR else fp_loop point 0 0 line)"

fun hextoi_loop :: "int \<Rightarrow> bytes \<Rightarrow> int option" where
  "hextoi_loop value [] = Some value"
| "hextoi_loop value (ch # line) =
     (if value > NGX_MAX_INT_T_VALUE div 16 then Some NGX_ERROR
      else if ch \<ge> 0x30 \<and> ch \<le> 0x39 then
        do { value \<leftarrow> s64_shift_in 16 value (uint ch - 0x30); hextoi_loop value line }
      else let c = ch OR 0x20 in
        if c \<ge> 0x61 \<and> c \<le> 0x66 then
          do { value \<leftarrow> s64_shift_in 16 value (uint c - 0x61 + 10); hextoi_loop value line }
        else Some NGX_ERROR)"

definition ngx_hextoi :: "bytes \<Rightarrow> int option" where
  "ngx_hextoi line = (if length line = 0 then Some NGX_ERROR else hextoi_loop 0 line)"


section \<open>Sizes, offsets and times: \<^verbatim>\<open>ngx_parse.c\<close>\<close>

definition parse_scaled :: "(bytes \<Rightarrow> int option) \<Rightarrow> bytes \<Rightarrow> int \<Rightarrow> int \<Rightarrow> int option" where
  "parse_scaled ato data mx scale =
     do { size \<leftarrow> ato data;
          if size = NGX_ERROR \<or> size > mx then Some NGX_ERROR else s64 (size * scale) }"

definition ngx_parse_size :: "bytes \<Rightarrow> int option" where
  "ngx_parse_size line =
     (if length line = 0 then Some NGX_ERROR
      else let unit = last line in
        if unit = 0x4b \<or> unit = 0x6b then
          parse_scaled ngx_atosz (butlast line) (NGX_MAX_SIZE_T_VALUE div 1024) 1024
        else if unit = 0x4d \<or> unit = 0x6d then
          parse_scaled ngx_atosz (butlast line) (NGX_MAX_SIZE_T_VALUE div (1024 * 1024)) (1024 * 1024)
        else parse_scaled ngx_atosz line NGX_MAX_SIZE_T_VALUE 1)"

definition ngx_parse_offset :: "bytes \<Rightarrow> int option" where
  "ngx_parse_offset line =
     (if length line = 0 then Some NGX_ERROR
      else let unit = last line in
        if unit = 0x4b \<or> unit = 0x6b then
          parse_scaled ngx_atoof (butlast line) (NGX_MAX_OFF_T_VALUE div 1024) 1024
        else if unit = 0x4d \<or> unit = 0x6d then
          parse_scaled ngx_atoof (butlast line) (NGX_MAX_OFF_T_VALUE div (1024 * 1024)) (1024 * 1024)
        else if unit = 0x47 \<or> unit = 0x67 then
          parse_scaled ngx_atoof (butlast line) (NGX_MAX_OFF_T_VALUE div (1024 * 1024 * 1024)) (1024 * 1024 * 1024)
        else parse_scaled ngx_atoof line NGX_MAX_OFF_T_VALUE 1)"

datatype time_step = st_start | st_year | st_month | st_week | st_day | st_hour | st_min | st_sec
  | st_msec | st_last

text \<open>The values of the enumeration, by which the code compares steps.\<close>

primrec step_rank :: "time_step \<Rightarrow> nat" where
  "step_rank st_start = 0" | "step_rank st_year = 1" | "step_rank st_month = 2"
| "step_rank st_week = 3" | "step_rank st_day = 4" | "step_rank st_hour = 5"
| "step_rank st_min = 6" | "step_rank st_sec = 7" | "step_rank st_msec = 8" | "step_rank st_last = 9"

lemma step_rank_inj: "step_rank a = step_rank b \<Longrightarrow> a = b"
  by (cases a; cases b) simp_all

instantiation time_step :: linorder
begin

definition less_eq_time_step :: "time_step \<Rightarrow> time_step \<Rightarrow> bool" where
  "less_eq_time_step a b \<longleftrightarrow> step_rank a \<le> step_rank b"

definition less_time_step :: "time_step \<Rightarrow> time_step \<Rightarrow> bool" where
  "less_time_step a b \<longleftrightarrow> step_rank a < step_rank b"

instance
  by standard (auto simp: less_eq_time_step_def less_time_step_def intro: step_rank_inj)

end

text \<open>
  The \<^verbatim>\<open>switch\<close> of \<^verbatim>\<open>ngx_parse_time\<close>: the new step, \<^verbatim>\<open>max\<close>, \<^verbatim>\<open>scale\<close>, and the input after the unit;
  \<^const>\<open>None\<close> where it returns \<^verbatim>\<open>NGX_ERROR\<close>.
\<close>

definition time_switch ::
  "bool \<Rightarrow> time_step \<Rightarrow> u8 \<Rightarrow> bytes \<Rightarrow> (time_step \<times> int \<times> int \<times> bytes) option" where
  "time_switch is_sec step ch p =
     (if ch = 0x79 then
        if step > st_start then None
        else Some (st_year, NGX_MAX_INT_T_VALUE div (60 * 60 * 24 * 365), 60 * 60 * 24 * 365, p)
      else if ch = 0x4d then
        if step \<ge> st_month then None
        else Some (st_month, NGX_MAX_INT_T_VALUE div (60 * 60 * 24 * 30), 60 * 60 * 24 * 30, p)
      else if ch = 0x77 then
        if step \<ge> st_week then None
        else Some (st_week, NGX_MAX_INT_T_VALUE div (60 * 60 * 24 * 7), 60 * 60 * 24 * 7, p)
      else if ch = 0x64 then
        if step \<ge> st_day then None
        else Some (st_day, NGX_MAX_INT_T_VALUE div (60 * 60 * 24), 60 * 60 * 24, p)
      else if ch = 0x68 then
        if step \<ge> st_hour then None
        else Some (st_hour, NGX_MAX_INT_T_VALUE div (60 * 60), 60 * 60, p)
      else if ch = 0x6d then
        if p \<noteq> [] \<and> hd p = 0x73 then
          if is_sec \<or> step \<ge> st_msec then None
          else Some (st_msec, NGX_MAX_INT_T_VALUE, 1, tl p)
        else if step \<ge> st_min then None
        else Some (st_min, NGX_MAX_INT_T_VALUE div 60, 60, p)
      else if ch = 0x73 then
        if step \<ge> st_sec then None
        else Some (st_sec, NGX_MAX_INT_T_VALUE, 1, p)
      else if ch = 0x20 then
        if step \<ge> st_sec then None
        else Some (st_last, NGX_MAX_INT_T_VALUE, 1, p)
      else None)"

lemma time_switch_shorter:
  "time_switch is_sec step ch p = Some (st, mx, sc, p') \<Longrightarrow> length p' \<le> length p"
  by (auto simp: time_switch_def split: if_splits)

function time_loop :: "bool \<Rightarrow> time_step \<Rightarrow> int \<Rightarrow> int \<Rightarrow> bool \<Rightarrow> bytes \<Rightarrow> int option" where
  "time_loop is_sec step value tot valid [] =
     (if \<not> valid then Some NGX_ERROR
      else if \<not> is_sec \<and> value > NGX_MAX_INT_T_VALUE div 1000 then Some NGX_ERROR
      else do {
        value \<leftarrow> (if is_sec then Some value else s64 (value * 1000));
        room \<leftarrow> s64 (NGX_MAX_INT_T_VALUE - value);
        if tot > room then Some NGX_ERROR else s64 (tot + value) })"
| "time_loop is_sec step value tot valid (ch # p) =
     (if ch \<ge> 0x30 \<and> ch \<le> 0x39 then
        if cut NGX_MAX_INT_T_VALUE value (uint ch - 0x30) then Some NGX_ERROR
        else do {
          value \<leftarrow> s64_shift_in 10 value (uint ch - 0x30);
          time_loop is_sec step value tot True p }
      else
        case time_switch is_sec step ch p of
          None \<Rightarrow> Some NGX_ERROR
        | Some (step, mx, scale, p) \<Rightarrow>
            let scale = (if step \<noteq> st_msec \<and> \<not> is_sec then scale * 1000 else scale);
                mx = (if step \<noteq> st_msec \<and> \<not> is_sec then mx div 1000 else mx)
            in if value > mx then Some NGX_ERROR
               else do {
                 value \<leftarrow> s64 (value * scale);
                 room \<leftarrow> s64 (NGX_MAX_INT_T_VALUE - value);
                 if tot > room then Some NGX_ERROR
                 else do {
                   tot \<leftarrow> s64 (tot + value);
                   time_loop is_sec step 0 tot valid (dropWhile (\<lambda>c. c = 0x20) p) } })"
  by pat_completeness auto
termination
proof (relation "measure (\<lambda>(is_sec, step, value, tot, valid, p). length p)", goal_cases)
  case 3
  then show ?case
    by (auto dest!: time_switch_shorter intro: le_imp_less_Suc order_trans [OF length_dropWhile_le])
qed simp_all

definition ngx_parse_time :: "bytes \<Rightarrow> bool \<Rightarrow> int option" where
  "ngx_parse_time line is_sec = time_loop is_sec (if is_sec then st_start else st_month) 0 0 False line"


section \<open>What the readers should return\<close>

text \<open>The number a text spells in a base, in unbounded integers.\<close>

definition dec_digit :: "u8 \<Rightarrow> int option" where
  "dec_digit ch = (if 0x30 \<le> ch \<and> ch \<le> 0x39 then Some (uint ch - 0x30) else None)"

definition hex_digit :: "u8 \<Rightarrow> int option" where
  "hex_digit ch =
     (if 0x30 \<le> ch \<and> ch \<le> 0x39 then Some (uint ch - 0x30)
      else if 0x61 \<le> ch OR 0x20 \<and> ch OR 0x20 \<le> 0x66 then Some (uint (ch OR 0x20) - 0x61 + 10)
      else None)"

fun number :: "int \<Rightarrow> (u8 \<Rightarrow> int option) \<Rightarrow> int \<Rightarrow> bytes \<Rightarrow> int option" where
  "number base digit v [] = Some v"
| "number base digit v (c # cs) = do { d \<leftarrow> digit c; number base digit (v * base + d) cs }"

text \<open>What a reader makes of it: the number when it has a text and fits the type, \<^verbatim>\<open>NGX_ERROR\<close> otherwise.\<close>

definition fits :: "int \<Rightarrow> int option \<Rightarrow> int" where
  "fits mx r = (case r of None \<Rightarrow> NGX_ERROR | Some v \<Rightarrow> if v \<le> mx then v else NGX_ERROR)"

lemma fits_None [simp]: "fits mx None = NGX_ERROR"
  by (simp add: fits_def)

lemma fits_large: "(\<And>v. r = Some v \<Longrightarrow> mx < v) \<Longrightarrow> fits mx r = NGX_ERROR"
  by (cases r) (simp_all add: fits_def)

lemma dec_digit_bounds: "dec_digit c = Some d \<Longrightarrow> 0 \<le> d \<and> d < 10"
  by (auto simp: dec_digit_def word_le_def split: if_splits)

lemma hex_digit_bounds: "hex_digit c = Some d \<Longrightarrow> 0 \<le> d \<and> d < 16"
  by (auto simp: hex_digit_def word_le_def split: if_splits)

text \<open>
  A loop that appends digits under a guard. The guard has to be exact: it refuses a digit just
  when the longer number would leave the type.
\<close>

locale guarded_reader =
  fixes base :: int and mx :: int and digit :: "u8 \<Rightarrow> int option"
    and refuse :: "int \<Rightarrow> int \<Rightarrow> bool" and loop :: "int \<Rightarrow> bytes \<Rightarrow> int option"
  assumes base_pos: "1 \<le> base"
    and mx_s64: "mx \<le> NGX_MAX_INT_T_VALUE"
    and digit_bounds: "digit c = Some d \<Longrightarrow> 0 \<le> d \<and> d < base"
    and refuse_exact: "0 \<le> v \<Longrightarrow> 0 \<le> d \<Longrightarrow> d < base \<Longrightarrow> refuse v d \<longleftrightarrow> mx < v * base + d"
    and loop_Nil: "loop v [] = Some v"
    and loop_bad: "0 \<le> v \<Longrightarrow> v \<le> mx \<Longrightarrow> digit c = None \<Longrightarrow> loop v (c # cs) = Some NGX_ERROR"
    and loop_digit: "0 \<le> v \<Longrightarrow> v \<le> mx \<Longrightarrow> digit c = Some d \<Longrightarrow>
      loop v (c # cs) = (if refuse v d then Some NGX_ERROR
                         else do { v \<leftarrow> s64_shift_in base v d; loop v cs })"
begin

lemma number_grows: "0 \<le> v \<Longrightarrow> number base digit v cs = Some w \<Longrightarrow> v \<le> w"
proof (induction cs arbitrary: v)
  case (Cons c cs)
  then obtain d where d: "digit c = Some d" "number base digit (v * base + d) cs = Some w"
    by (auto split: Option.bind_splits)
  have "v \<le> v * base" using Cons.prems(1) base_pos by (simp add: mult_le_cancel_left1)
  moreover have "v * base + d \<le> w"
    using Cons.IH [OF _ d(2)] digit_bounds [OF d(1)] Cons.prems(1) base_pos by simp
  ultimately show ?case using digit_bounds [OF d(1)] by linarith
qed simp

lemma loop_exact: "0 \<le> v \<Longrightarrow> v \<le> mx \<Longrightarrow> loop v cs = Some (fits mx (number base digit v cs))"
proof (induction cs arbitrary: v)
  case Nil
  then show ?case by (simp add: loop_Nil fits_def)
next
  case (Cons c cs)
  show ?case
  proof (cases "digit c")
    case None
    then show ?thesis by (simp add: loop_bad [OF Cons.prems])
  next
    case (Some d)
    note db = digit_bounds [OF Some]
    have nn: "0 \<le> v * base + d" using Cons.prems db base_pos by simp
    show ?thesis
    proof (cases "mx < v * base + d")
      case True
      have "fits mx (number base digit v (c # cs)) = NGX_ERROR"
        by (rule fits_large) (use Some True number_grows [OF nn] in fastforce)
      then show ?thesis
        using True db Cons.prems by (simp add: loop_digit [OF _ _ Some] refuse_exact)
    next
      case False
      then have "s64_shift_in base v d = Some (v * base + d)"
        using Cons.prems db base_pos mx_s64 by (intro s64_shift_in_fits) simp_all
      then show ?thesis
        using False db Cons.prems Cons.IH [OF nn] Some
        by (simp add: loop_digit [OF _ _ Some] refuse_exact)
    qed
  qed
qed

end

lemma cut_exact: "0 \<le> d \<Longrightarrow> d < 10 \<Longrightarrow> cut mx v d \<longleftrightarrow> mx < v * 10 + d"
proof -
  assume d: "0 \<le> d" "d < 10"
  have "mx = mx div 10 * 10 + mx mod 10" "0 \<le> mx mod 10" "mx mod 10 < 10" by simp_all
  with d show ?thesis unfolding cut_def by linarith
qed

interpretation dec: guarded_reader 10 NGX_MAX_INT_T_VALUE dec_digit "cut NGX_MAX_INT_T_VALUE"
  "ato_loop NGX_MAX_INT_T_VALUE"
proof
  fix c :: u8 and d v :: int and cs
  show "dec_digit c = Some d \<Longrightarrow> 0 \<le> d \<and> d < 10" by (rule dec_digit_bounds)
  show "0 \<le> v \<Longrightarrow> 0 \<le> d \<Longrightarrow> d < 10 \<Longrightarrow>
      cut NGX_MAX_INT_T_VALUE v d \<longleftrightarrow> NGX_MAX_INT_T_VALUE < v * 10 + d" by (rule cut_exact)
qed (auto simp: dec_digit_def not_le split: if_splits)

interpretation hex: guarded_reader 16 NGX_MAX_INT_T_VALUE hex_digit
  "\<lambda>v d. NGX_MAX_INT_T_VALUE div 16 < v" hextoi_loop
proof
  fix c :: u8 and d v :: int and cs
  show "hex_digit c = Some d \<Longrightarrow> 0 \<le> d \<and> d < 16" by (rule hex_digit_bounds)
  show "0 \<le> v \<Longrightarrow> 0 \<le> d \<Longrightarrow> d < 16 \<Longrightarrow>
      NGX_MAX_INT_T_VALUE div 16 < v \<longleftrightarrow> NGX_MAX_INT_T_VALUE < v * 16 + d"
    by (simp add: NGX_MAX_INT_T_VALUE_def) linarith
qed (auto simp: hex_digit_def Let_def split: if_splits)

definition decimal :: "bytes \<Rightarrow> int option" where
  "decimal line = (if line = [] then None else number 10 dec_digit 0 line)"

definition hexadecimal :: "bytes \<Rightarrow> int option" where
  "hexadecimal line = (if line = [] then None else number 16 hex_digit 0 line)"

lemma max_nonneg [simp]: "0 \<le> NGX_MAX_INT_T_VALUE"
  by (simp add: NGX_MAX_INT_T_VALUE_def)

lemma ngx_ato_exact:
  "ngx_atoi line = Some (fits NGX_MAX_INT_T_VALUE (decimal line))"
  "ngx_atosz line = Some (fits NGX_MAX_INT_T_VALUE (decimal line))"
  "ngx_atoof line = Some (fits NGX_MAX_INT_T_VALUE (decimal line))"
  "ngx_atotm line = Some (fits NGX_MAX_INT_T_VALUE (decimal line))"
  by (simp_all add: ngx_atoi_def ngx_atosz_def ngx_atoof_def ngx_atotm_def decimal_def dec.loop_exact)

lemma ngx_hextoi_exact: "ngx_hextoi line = Some (fits NGX_MAX_INT_T_VALUE (hexadecimal line))"
  by (simp add: ngx_hextoi_def hexadecimal_def hex.loop_exact)

lemma decimal_nonneg: "decimal line = Some v \<Longrightarrow> 0 \<le> v"
  using dec.number_grows [of 0 line v] by (simp add: decimal_def split: if_splits)


text \<open>A number with a scale: \<^verbatim>\<open>size > max\<close> with \<^verbatim>\<open>max\<close> the maximum divided by the scale is exact too.\<close>

lemma over_div: "0 < (k::int) \<Longrightarrow> mx div k < v \<longleftrightarrow> mx < v * k"
proof -
  assume k: "0 < k"
  define q where "q = mx div k"
  have mx: "mx = q * k + mx mod k" "0 \<le> mx mod k" "mx mod k < k"
    using k by (simp_all add: q_def)
  have "q < v \<Longrightarrow> (q + 1) * k \<le> v * k" using k by (intro mult_right_mono) simp_all
  moreover have "\<not> q < v \<Longrightarrow> v * k \<le> q * k" using k by (intro mult_right_mono) simp_all
  ultimately have "(q < v) = (mx < v * k)" using mx by (cases "q < v") (simp add: distrib_right, linarith)
  then show ?thesis by (simp add: q_def)
qed

lemma parse_scaled_exact:
  assumes "\<And>data. ato data = Some (fits NGX_MAX_INT_T_VALUE (decimal data))" "0 < k"
  shows "parse_scaled ato data (NGX_MAX_INT_T_VALUE div k) k =
    Some (fits NGX_MAX_INT_T_VALUE (map_option (\<lambda>v. v * k) (decimal data)))"
proof (cases "decimal data")
  case None
  then show ?thesis by (simp add: parse_scaled_def assms)
next
  case (Some v)
  have v: "0 \<le> v" using Some by (rule decimal_nonneg)
  moreover have "v \<le> v * k" using v assms(2) by (simp add: mult_le_cancel_left1)
  ultimately show ?thesis
    using Some assms(2) v
    by (auto simp: parse_scaled_def assms(1) fits_def over_div s64_nonneg NGX_ERROR_def)
qed

definition size_scale :: "u8 \<Rightarrow> int option" where
  "size_scale unit =
     (if unit \<in> {0x4b, 0x6b} then Some 1024 else if unit \<in> {0x4d, 0x6d} then Some (1024 * 1024) else None)"

definition offset_scale :: "u8 \<Rightarrow> int option" where
  "offset_scale unit =
     (if unit \<in> {0x47, 0x67} then Some (1024 * 1024 * 1024) else size_scale unit)"

definition scaled :: "(u8 \<Rightarrow> int option) \<Rightarrow> bytes \<Rightarrow> int option" where
  "scaled units line =
     (if line = [] then None
      else case units (last line) of
        Some k \<Rightarrow> map_option (\<lambda>v. v * k) (decimal (butlast line))
      | None \<Rightarrow> decimal line)"

lemma ngx_parse_size_exact: "ngx_parse_size line = Some (fits NGX_MAX_INT_T_VALUE (scaled size_scale line))"
  using parse_scaled_exact [OF ngx_ato_exact(2), of 1 line]
  by (auto simp: ngx_parse_size_def scaled_def size_scale_def Let_def
      parse_scaled_exact [OF ngx_ato_exact(2)] option.map_ident)

lemma ngx_parse_offset_exact:
  "ngx_parse_offset line = Some (fits NGX_MAX_INT_T_VALUE (scaled offset_scale line))"
  using parse_scaled_exact [OF ngx_ato_exact(3), of 1 line]
  by (auto simp: ngx_parse_offset_def scaled_def size_scale_def offset_scale_def Let_def
      parse_scaled_exact [OF ngx_ato_exact(3)] option.map_ident)


subsection \<open>Fixed point\<close>

text \<open>Digits with at most one point and at most \<open>point\<close> digits after it, scaled by \<open>10 ^ point\<close>.\<close>

definition fraction :: "nat \<Rightarrow> int \<Rightarrow> bytes \<Rightarrow> int option" where
  "fraction point v line =
     (if length line \<le> point then map_option (\<lambda>w. w * 10 ^ (point - length line)) (number 10 dec_digit v line)
      else None)"

definition fixed_point :: "nat \<Rightarrow> bytes \<Rightarrow> int option" where
  "fixed_point point line =
     (if line = [] \<or> point = 0 then None
      else do { v \<leftarrow> number 10 dec_digit 0 (takeWhile (\<lambda>c. c \<noteq> 0x2e) line);
                fraction point v (tl (dropWhile (\<lambda>c. c \<noteq> 0x2e) line)) })"

lemma fits_scale_large:
  "0 \<le> v \<Longrightarrow> NGX_MAX_INT_T_VALUE < v \<Longrightarrow> fits NGX_MAX_INT_T_VALUE (Some (v * 10 ^ n)) = NGX_ERROR"
proof (rule fits_large)
  fix w assume "0 \<le> v" "NGX_MAX_INT_T_VALUE < v" "Some (v * 10 ^ n) = Some w"
  moreover have "v \<le> v * 10 ^ n" using \<open>0 \<le> v\<close> by (simp add: mult_le_cancel_left1)
  ultimately show "NGX_MAX_INT_T_VALUE < w" by simp
qed

lemma fp_scale_exact:
  "0 \<le> v \<Longrightarrow> v \<le> NGX_MAX_INT_T_VALUE \<Longrightarrow>
    fp_scale n v = Some (fits NGX_MAX_INT_T_VALUE (Some (v * 10 ^ n)))"
proof (induction n arbitrary: v)
  case (Suc n)
  show ?case
  proof (cases "NGX_MAX_INT_T_VALUE < v * 10")
    case True
    then show ?thesis
      using Suc.prems fits_scale_large [of "v * 10" n] by (simp add: over_div mult.assoc)
  next
    case False
    then show ?thesis
      using Suc.prems Suc.IH [of "v * 10"] by (simp add: over_div mult.assoc s64_nonneg)
  qed
qed (simp add: fits_def)

lemma fraction_large:
  assumes "0 \<le> v" "NGX_MAX_INT_T_VALUE < v"
  shows "fits NGX_MAX_INT_T_VALUE (fraction point v line) = NGX_ERROR"
proof (cases "number 10 dec_digit v line")
  case (Some w)
  then show ?thesis
    using assms dec.number_grows [OF assms(1) Some] fits_scale_large [of w]
    by (simp add: fraction_def)
qed (simp add: fraction_def)

lemma fp_after_point:
  "0 \<le> v \<Longrightarrow> v \<le> NGX_MAX_INT_T_VALUE \<Longrightarrow>
    fp_loop point 1 v line = Some (fits NGX_MAX_INT_T_VALUE (fraction point v line))"
proof (induction line arbitrary: point v)
  case Nil
  then show ?case by (simp add: fraction_def fp_scale_exact)
next
  case (Cons c line)
  show ?case
  proof (cases "dec_digit c")
    case None
    then show ?thesis by (auto simp: fraction_def dec_digit_def not_le split: if_splits)
  next
    case (Some d)
    note db = dec_digit_bounds [OF Some]
    have c: "\<not> (c < 0x30 \<or> c > 0x39)" "uint c - 0x30 = d" "c \<noteq> 0x2e"
      using Some by (auto simp: dec_digit_def not_less split: if_splits)
    have fr: "fraction point v (c # line) = (if point = 0 then None else fraction (point - 1) (v * 10 + d) line)"
      using Some by (cases point) (auto simp: fraction_def)
    show ?thesis
    proof (cases "NGX_MAX_INT_T_VALUE < v * 10 + d")
      case True
      then show ?thesis
        using c db Cons.prems fraction_large [of "v * 10 + d" "point - 1" line] by (simp add: fr cut_exact)
    next
      case False
      then have "s64_shift_in 10 v d = Some (v * 10 + d)"
        using Cons.prems db by (intro s64_shift_in_fits) simp_all
      then show ?thesis
        using False c db Cons.prems Cons.IH [of "v * 10 + d" "point - 1"] by (simp add: fr cut_exact)
    qed
  qed
qed

lemma fp_before_point:
  assumes "0 < point"
  shows "0 \<le> v \<Longrightarrow> v \<le> NGX_MAX_INT_T_VALUE \<Longrightarrow>
    fp_loop point 0 v line = Some (fits NGX_MAX_INT_T_VALUE
      (do { v \<leftarrow> number 10 dec_digit v (takeWhile (\<lambda>c. c \<noteq> 0x2e) line);
            fraction point v (tl (dropWhile (\<lambda>c. c \<noteq> 0x2e) line)) }))"
proof (induction line arbitrary: v)
  case Nil
  then show ?case by (simp add: fraction_def fp_scale_exact)
next
  case (Cons c line)
  define rest where
    "rest v = do { v \<leftarrow> number 10 dec_digit v (takeWhile (\<lambda>c. c \<noteq> 0x2e) line);
                   fraction point v (tl (dropWhile (\<lambda>c. c \<noteq> 0x2e) line)) }" for v
  consider "c = 0x2e" | "c \<noteq> 0x2e" "dec_digit c = None" | d where "c \<noteq> 0x2e" "dec_digit c = Some d"
    by fastforce
  then show ?case
  proof cases
    case 1
    then show ?thesis using assms Cons.prems by (simp add: fp_after_point [unfolded One_nat_def])
  next
    case 2
    then show ?thesis using assms by (auto simp: dec_digit_def not_le split: if_splits)
  next
    case (3 d)
    note db = dec_digit_bounds [OF 3(2)]
    have c: "\<not> (c < 0x30 \<or> c > 0x39)" "uint c - 0x30 = d"
      using 3 by (auto simp: dec_digit_def not_less split: if_splits)
    show ?thesis
    proof (cases "NGX_MAX_INT_T_VALUE < v * 10 + d")
      case True
      have "fits NGX_MAX_INT_T_VALUE (rest (v * 10 + d)) = NGX_ERROR"
      proof (cases "number 10 dec_digit (v * 10 + d) (takeWhile (\<lambda>c. c \<noteq> 0x2e) line)")
        case (Some w)
        then show ?thesis
          using dec.number_grows [OF _ Some] True db Cons.prems by (simp add: rest_def fraction_large)
      qed (simp add: rest_def)
      then show ?thesis
        using True c db 3 assms Cons.prems by (simp add: rest_def cut_exact)
    next
      case False
      then have "s64_shift_in 10 v d = Some (v * 10 + d)"
        using Cons.prems db by (intro s64_shift_in_fits) simp_all
      then show ?thesis
        using False c db 3 assms Cons.prems Cons.IH [of "v * 10 + d"] by (simp add: cut_exact)
    qed
  qed
qed

lemma ngx_atofp_exact: "ngx_atofp line point = Some (fits NGX_MAX_INT_T_VALUE (fixed_point point line))"
proof (cases "line = [] \<or> point = 0")
  case True
  then show ?thesis by (cases line) (auto simp: ngx_atofp_def fixed_point_def)
next
  case False
  then show ?thesis by (simp add: ngx_atofp_def fixed_point_def fp_before_point)
qed


subsection \<open>Times\<close>

text \<open>
  A time is a sequence of numbers with units, and a last number that may go without one. The
  units have to come in the order of the steps, each at most once; a blank in place of a unit
  ends the sequence.
\<close>

definition time_unit :: "u8 \<Rightarrow> bytes \<Rightarrow> (time_step \<times> bytes) option" where
  "time_unit ch p =
     (if ch = 0x79 then Some (st_year, p) else if ch = 0x4d then Some (st_month, p)
      else if ch = 0x77 then Some (st_week, p) else if ch = 0x64 then Some (st_day, p)
      else if ch = 0x68 then Some (st_hour, p)
      else if ch = 0x6d then (if p \<noteq> [] \<and> hd p = 0x73 then Some (st_msec, tl p) else Some (st_min, p))
      else if ch = 0x73 then Some (st_sec, p) else if ch = 0x20 then Some (st_last, p) else None)"

primrec unit_seconds :: "time_step \<Rightarrow> int" where
  "unit_seconds st_start = 1" | "unit_seconds st_year = 31536000" | "unit_seconds st_month = 2592000"
| "unit_seconds st_week = 604800" | "unit_seconds st_day = 86400" | "unit_seconds st_hour = 3600"
| "unit_seconds st_min = 60" | "unit_seconds st_sec = 1" | "unit_seconds st_msec = 1"
| "unit_seconds st_last = 1"

definition unit_value :: "bool \<Rightarrow> time_step \<Rightarrow> int" where
  "unit_value is_sec st = (if is_sec \<or> st = st_msec then unit_seconds st else unit_seconds st * 1000)"

definition unit_allowed :: "bool \<Rightarrow> time_step \<Rightarrow> time_step \<Rightarrow> bool" where
  "unit_allowed is_sec step st \<longleftrightarrow>
     step < (if st = st_last then st_sec else st) \<and> \<not> (is_sec \<and> st = st_msec)"

lemma time_unit_shorter: "time_unit ch p = Some (st, p') \<Longrightarrow> length p' \<le> length p"
  by (auto simp: time_unit_def split: if_splits)

function time_tokens :: "int \<Rightarrow> bytes \<Rightarrow> ((int \<times> time_step) list \<times> int) option" where
  "time_tokens v [] = Some ([], v)"
| "time_tokens v (ch # p) =
     (case dec_digit ch of
        Some d \<Rightarrow> time_tokens (v * 10 + d) p
      | None \<Rightarrow>
          (case time_unit ch p of
             None \<Rightarrow> None
           | Some (st, p) \<Rightarrow>
               do { (ts, w) \<leftarrow> time_tokens 0 (dropWhile (\<lambda>c. c = 0x20) p); Some ((v, st) # ts, w) }))"
  by pat_completeness auto
termination
  by (relation "measure (\<lambda>(v, p). length p)")
    (auto dest!: time_unit_shorter intro: le_imp_less_Suc order_trans [OF length_dropWhile_le])

fun units_ordered :: "bool \<Rightarrow> time_step \<Rightarrow> (int \<times> time_step) list \<Rightarrow> bool" where
  "units_ordered is_sec step [] \<longleftrightarrow> True"
| "units_ordered is_sec step ((v, st) # ts) \<longleftrightarrow> unit_allowed is_sec step st \<and> units_ordered is_sec st ts"

definition tokens_value :: "bool \<Rightarrow> (int \<times> time_step) list \<times> int \<Rightarrow> int" where
  "tokens_value is_sec t =
     (\<Sum>(v, st)\<leftarrow>fst t. v * unit_value is_sec st) + snd t * unit_value is_sec st_last"

definition time_from :: "bool \<Rightarrow> time_step \<Rightarrow> int \<Rightarrow> bool \<Rightarrow> int \<Rightarrow> bytes \<Rightarrow> int option" where
  "time_from is_sec step tot valid v p =
     do { t \<leftarrow> time_tokens v p;
          if units_ordered is_sec step (fst t) \<and> (valid \<or> (\<exists>c\<in>set p. dec_digit c \<noteq> None))
          then Some (tot + tokens_value is_sec t) else None }"

definition time_value :: "bool \<Rightarrow> bytes \<Rightarrow> int option" where
  "time_value is_sec line = time_from is_sec (if is_sec then st_start else st_month) 0 False 0 line"


lemma time_switch_unit:
  "time_switch is_sec step ch p =
     (case time_unit ch p of
        None \<Rightarrow> None
      | Some (st, p') \<Rightarrow>
          if unit_allowed is_sec step st
          then Some (st, NGX_MAX_INT_T_VALUE div unit_seconds st, unit_seconds st, p') else None)"
  by (auto simp: time_switch_def time_unit_def unit_allowed_def not_le not_less
      less_eq_time_step_def less_time_step_def)

lemma unit_value_pos: "1 \<le> unit_value is_sec st"
  by (cases st) (simp_all add: unit_value_def)

lemma unit_value_split:
  "(if st \<noteq> st_msec \<and> \<not> is_sec then unit_seconds st * 1000 else unit_seconds st) = unit_value is_sec st"
  "(if st \<noteq> st_msec \<and> \<not> is_sec then NGX_MAX_INT_T_VALUE div unit_seconds st div 1000
    else NGX_MAX_INT_T_VALUE div unit_seconds st) = NGX_MAX_INT_T_VALUE div unit_value is_sec st"
  by (auto simp: unit_value_def zdiv_zmult2_eq)

lemma tokens_value_Cons:
  "tokens_value is_sec ((v, st) # ts, w) = v * unit_value is_sec st + tokens_value is_sec (ts, w)"
  by (simp add: tokens_value_def)

lemma tokens_value_grows: "0 \<le> v \<Longrightarrow> time_tokens v p = Some t \<Longrightarrow> v \<le> tokens_value is_sec t"
proof (induction v p arbitrary: t rule: time_tokens.induct)
  case (1 v)
  then show ?case
    using mult_left_mono [OF unit_value_pos, of v] by (auto simp: tokens_value_def)
next
  case (2 v ch p)
  show ?case
  proof (cases "dec_digit ch")
    case (Some d)
    then show ?thesis
      using 2(2) [OF Some, of t] 2(3,4) dec_digit_bounds [OF Some] by simp
  next
    case None
    with 2(4) obtain st p' ts w where u: "time_unit ch p = Some (st, p')"
      "time_tokens 0 (dropWhile (\<lambda>c. c = 0x20) p') = Some (ts, w)" "t = ((v, st) # ts, w)"
      by (auto split: option.splits Option.bind_splits)
    have "0 \<le> tokens_value is_sec (ts, w)"
      using 2(1) [OF None u(1) refl _ u(2)] by simp
    then show ?thesis
      using mult_left_mono [OF unit_value_pos 2(3), of is_sec st] u(3)
      by (simp add: tokens_value_Cons)
  qed
qed

lemma time_from_large:
  assumes "0 \<le> tot" "0 \<le> v" "NGX_MAX_INT_T_VALUE < tot + v"
  shows "fits NGX_MAX_INT_T_VALUE (time_from is_sec step tot valid v p) = NGX_ERROR"
proof (rule fits_large)
  fix w assume "time_from is_sec step tot valid v p = Some w"
  then obtain t where "time_tokens v p = Some t" "w = tot + tokens_value is_sec t"
    by (auto simp: time_from_def split: Option.bind_splits if_splits)
  then show "NGX_MAX_INT_T_VALUE < w" using tokens_value_grows [OF assms(2), of p t is_sec] assms by simp
qed

lemma time_from_digit:
  "dec_digit ch = Some d \<Longrightarrow>
    time_from is_sec step tot valid v (ch # p) = time_from is_sec step tot True (v * 10 + d) p"
  by (auto simp: time_from_def)

lemma time_from_unit:
  assumes "dec_digit ch = None" "time_unit ch p = Some (st, p')"
  shows "time_from is_sec step tot valid v (ch # p) =
    (if unit_allowed is_sec step st
     then time_from is_sec st (tot + v * unit_value is_sec st) valid 0 (dropWhile (\<lambda>c. c = 0x20) p')
     else None)"
proof -
  have d: "dec_digit 0x20 = None" "dec_digit 0x73 = None" by (simp_all add: dec_digit_def)
  have p': "p' = p \<or> p \<noteq> [] \<and> hd p = 0x73 \<and> p' = tl p"
    using assms(2) by (auto simp: time_unit_def split: if_splits)
  have "(\<exists>c\<in>set (ch # p). dec_digit c \<noteq> None) \<longleftrightarrow> (\<exists>c\<in>set p'. dec_digit c \<noteq> None)"
    using assms(1) p' d by (cases p) auto
  moreover have "(\<exists>c\<in>set p'. dec_digit c \<noteq> None) \<longleftrightarrow>
      (\<exists>c\<in>set (dropWhile (\<lambda>c. c = 0x20) p'). dec_digit c \<noteq> None)"
    by (induction p') (use d in auto)
  ultimately show ?thesis
    using assms by (auto simp: time_from_def tokens_value_Cons split: Option.bind_splits)
qed

declare time_loop.simps(2) [simp del]

lemma time_loop_digit:
  assumes "dec_digit ch = Some d" "0 \<le> v"
  shows "time_loop is_sec step v tot valid (ch # p) =
    (if NGX_MAX_INT_T_VALUE < v * 10 + d then Some NGX_ERROR
     else time_loop is_sec step (v * 10 + d) tot True p)"
proof -
  have ch: "ch \<ge> 0x30 \<and> ch \<le> 0x39" "uint ch - 0x30 = d"
    using assms(1) by (auto simp: dec_digit_def split: if_splits)
  then show ?thesis
    using dec_digit_bounds [OF assms(1)] assms(2) s64_shift_in_fits [of v d 10]
    by (simp add: time_loop.simps(2) cut_exact)
qed

lemma time_loop_unit:
  assumes "\<not> (ch \<ge> 0x30 \<and> ch \<le> 0x39)"
  shows "time_loop is_sec step v tot valid (ch # p) =
    (case time_unit ch p of
       None \<Rightarrow> Some NGX_ERROR
     | Some (st, p') \<Rightarrow>
         if \<not> unit_allowed is_sec step st \<or> NGX_MAX_INT_T_VALUE div unit_value is_sec st < v
         then Some NGX_ERROR
         else do {
           w \<leftarrow> s64 (v * unit_value is_sec st);
           room \<leftarrow> s64 (NGX_MAX_INT_T_VALUE - w);
           if tot > room then Some NGX_ERROR
           else do {
             tot \<leftarrow> s64 (tot + w);
             time_loop is_sec st 0 tot valid (dropWhile (\<lambda>c. c = 0x20) p') } })"
  unfolding time_loop.simps if_not_P [OF assms] time_switch_unit
  by (simp add: Let_def unit_value_split split: option.split)

lemma time_loop_exact:
  "0 \<le> v \<Longrightarrow> v \<le> NGX_MAX_INT_T_VALUE \<Longrightarrow> 0 \<le> tot \<Longrightarrow> tot \<le> NGX_MAX_INT_T_VALUE \<Longrightarrow>
    time_loop is_sec step v tot valid p =
      Some (fits NGX_MAX_INT_T_VALUE (time_from is_sec step tot valid v p))"
proof (induction p arbitrary: step v tot valid rule: measure_induct_rule [of length])
  case (less p)
  note bounds = less.prems
  show ?case
  proof (cases p)
    case Nil
    have "v \<le> v * 1000" using bounds by simp
    then show ?thesis
      using Nil bounds
      by (auto simp: time_from_def tokens_value_def unit_value_def fits_def over_div s64_nonneg)
  next
    case (Cons ch q)
    show ?thesis
    proof (cases "dec_digit ch")
      case (Some d)
      note db = dec_digit_bounds [OF Some]
      have "fits NGX_MAX_INT_T_VALUE (time_from is_sec step tot True (v * 10 + d) q) = NGX_ERROR"
        if "NGX_MAX_INT_T_VALUE < v * 10 + d"
        using that db bounds by (intro time_from_large) simp_all
      then show ?thesis
        using db bounds less.IH [of q "v * 10 + d" tot step True] Cons
        by (simp add: time_loop_digit [OF Some] time_from_digit [OF Some])
    next
      case None
      then have ch: "\<not> (ch \<ge> 0x30 \<and> ch \<le> 0x39)" by (simp add: dec_digit_def split: if_splits)
      show ?thesis
      proof (cases "time_unit ch q")
        case None
        then show ?thesis
          using \<open>dec_digit ch = None\<close> Cons by (simp add: time_loop_unit [OF ch] time_from_def)
      next
        case (Some u)
        then obtain st p' where u: "time_unit ch q = Some (st, p')" by (cases u) simp
        define k where "k = unit_value is_sec st"
        have k: "1 \<le> k" using unit_value_pos by (simp add: k_def)
        have "v \<le> v * k" using bounds(1) k by (simp add: mult_le_cancel_left1)
        then have vk: "0 \<le> v * k" using bounds(1) by linarith
        have "length (dropWhile (\<lambda>c. c = 0x20) p') < length p"
          using time_unit_shorter [OF u] Cons length_dropWhile_le [of "\<lambda>c. c = 0x20" p'] by simp
        then have "time_loop is_sec st 0 (tot + v * k) valid (dropWhile (\<lambda>c. c = 0x20) p') =
            Some (fits NGX_MAX_INT_T_VALUE
              (time_from is_sec st (tot + v * k) valid 0 (dropWhile (\<lambda>c. c = 0x20) p')))"
          if "tot + v * k \<le> NGX_MAX_INT_T_VALUE"
          using less.IH that bounds vk by simp
        moreover have "fits NGX_MAX_INT_T_VALUE
            (time_from is_sec st (tot + v * k) valid 0 (dropWhile (\<lambda>c. c = 0x20) p')) = NGX_ERROR"
          if "\<not> tot + v * k \<le> NGX_MAX_INT_T_VALUE"
          using that bounds vk by (intro time_from_large) simp_all
        ultimately show ?thesis
          using Cons u vk k bounds
          by (auto simp: time_loop_unit [OF ch] time_from_unit [OF None u] k_def [symmetric]
              over_div s64_nonneg)
      qed
    qed
  qed
qed

lemma ngx_parse_time_exact:
  "ngx_parse_time line is_sec = Some (fits NGX_MAX_INT_T_VALUE (time_value is_sec line))"
  by (simp add: ngx_parse_time_def time_value_def time_loop_exact)

text \<open>
  C23. Reading numbers, sizes, offsets and times never overflows a signed integer: every reader
  returns, for every text, the value the text spells in unbounded arithmetic when that value fits
  the type, and \<^verbatim>\<open>NGX_ERROR\<close> exactly when the text is not of the form or the value does not fit.
  This holds of the decimal and hexadecimal readers, of fixed point numbers with any number of
  places, of sizes and offsets with their unit letter, and of times with units in their order.
\<close>

theorem parse_numbers_exact:
  "ngx_atoi line = Some (fits NGX_MAX_INT_T_VALUE (decimal line)) \<and>
   ngx_atosz line = Some (fits NGX_MAX_INT_T_VALUE (decimal line)) \<and>
   ngx_atoof line = Some (fits NGX_MAX_INT_T_VALUE (decimal line)) \<and>
   ngx_atotm line = Some (fits NGX_MAX_INT_T_VALUE (decimal line)) \<and>
   ngx_atofp line point = Some (fits NGX_MAX_INT_T_VALUE (fixed_point point line)) \<and>
   ngx_hextoi line = Some (fits NGX_MAX_INT_T_VALUE (hexadecimal line)) \<and>
   ngx_parse_size line = Some (fits NGX_MAX_INT_T_VALUE (scaled size_scale line)) \<and>
   ngx_parse_offset line = Some (fits NGX_MAX_INT_T_VALUE (scaled offset_scale line)) \<and>
   ngx_parse_time line is_sec = Some (fits NGX_MAX_INT_T_VALUE (time_value is_sec line))"
  by (intro conjI ngx_ato_exact ngx_atofp_exact ngx_hextoi_exact ngx_parse_size_exact
      ngx_parse_offset_exact ngx_parse_time_exact)

end
