(* ===== verification/Ngx_Chunked.thy ===== *)
theory Ngx_Chunked
  imports Ngx_Parse
begin

text \<open>
  nginx, \<^verbatim>\<open>ngx_http_parse_chunked\<close> of \<^verbatim>\<open>src/http/ngx_http_parse.c\<close> and the request body filters of
  \<^verbatim>\<open>src/http/ngx_http_request_body.c\<close>. A chunked body arrives in pieces of any size; the filter
  finds the chunks, passes windows of the input buffer on as output, and moves small chunks
  inside the buffer to join them to the window before. The buffer is an explicit memory, so that
  what these moves overwrite is part of the model. Allocation of chain links is taken to succeed.
\<close>

section \<open>The chunk parser\<close>

datatype chunk_state =
    sw_chunk_start | sw_chunk_size | sw_chunk_extension | sw_chunk_extension_almost_done
  | sw_chunk_data | sw_after_data | sw_after_data_almost_done | sw_last_chunk_extension
  | sw_last_chunk_extension_almost_done | sw_trailer | sw_trailer_almost_done | sw_trailer_header
  | sw_trailer_header_almost_done

record ngx_http_chunked =
  ck_state :: chunk_state
  ck_size :: int
  ck_length :: int

datatype chunk_rc = Chunk_Ok | Chunk_Again | Chunk_Done | Chunk_Error

abbreviation c_CR :: u8 where "c_CR \<equiv> 0x0d"
abbreviation c_LF :: u8 where "c_LF \<equiv> 0x0a"

text \<open>
  What one character does. \<open>To_Undefined\<close> is a signed overflow of \<^verbatim>\<open>ctx->size\<close>.
\<close>

datatype chunk_act = To chunk_state int | To_Data | To_Done | To_Invalid | To_Undefined

definition size_digit :: "int \<Rightarrow> int \<Rightarrow> chunk_act" where
  "size_digit sz d = (case s64_shift_in 16 sz d of None \<Rightarrow> To_Undefined | Some sz \<Rightarrow> To sw_chunk_size sz)"

definition chunk_char :: "chunk_state \<Rightarrow> int \<Rightarrow> u8 \<Rightarrow> chunk_act" where
  "chunk_char st sz ch =
     (case st of
        sw_chunk_start \<Rightarrow>
          if ch \<ge> 0x30 \<and> ch \<le> 0x39 then To sw_chunk_size (uint ch - 0x30)
          else let c = ch OR 0x20 in
            if c \<ge> 0x61 \<and> c \<le> 0x66 then To sw_chunk_size (uint c - 0x61 + 10) else To_Invalid
      | sw_chunk_size \<Rightarrow>
          if sz > NGX_MAX_OFF_T_VALUE div 16 then To_Invalid
          else if ch \<ge> 0x30 \<and> ch \<le> 0x39 then size_digit sz (uint ch - 0x30)
          else let c = ch OR 0x20 in
            if c \<ge> 0x61 \<and> c \<le> 0x66 then size_digit sz (uint c - 0x61 + 10)
            else if sz = 0 then
              if ch = c_CR then To sw_last_chunk_extension_almost_done sz
              else if ch = c_LF then To sw_trailer sz
              else if ch = 0x3b \<or> ch = 0x20 \<or> ch = 0x09 then To sw_last_chunk_extension sz
              else To_Invalid
            else
              if ch = c_CR then To sw_chunk_extension_almost_done sz
              else if ch = c_LF then To sw_chunk_data sz
              else if ch = 0x3b \<or> ch = 0x20 \<or> ch = 0x09 then To sw_chunk_extension sz
              else To_Invalid
      | sw_chunk_extension \<Rightarrow>
          if ch = c_CR then To sw_chunk_extension_almost_done sz
          else if ch = c_LF then To sw_chunk_data sz
          else To sw_chunk_extension sz
      | sw_chunk_extension_almost_done \<Rightarrow> if ch = c_LF then To sw_chunk_data sz else To_Invalid
      | sw_chunk_data \<Rightarrow> To_Data
      | sw_after_data \<Rightarrow>
          if ch = c_CR then To sw_after_data_almost_done sz
          else if ch = c_LF then To sw_chunk_start sz
          else To_Invalid
      | sw_after_data_almost_done \<Rightarrow> if ch = c_LF then To sw_chunk_start sz else To_Invalid
      | sw_last_chunk_extension \<Rightarrow>
          if ch = c_CR then To sw_last_chunk_extension_almost_done sz
          else if ch = c_LF then To sw_trailer sz
          else To sw_last_chunk_extension sz
      | sw_last_chunk_extension_almost_done \<Rightarrow> if ch = c_LF then To sw_trailer sz else To_Invalid
      | sw_trailer \<Rightarrow>
          if ch = c_CR then To sw_trailer_almost_done sz
          else if ch = c_LF then To_Done
          else To sw_trailer_header sz
      | sw_trailer_almost_done \<Rightarrow> if ch = c_LF then To_Done else To_Invalid
      | sw_trailer_header \<Rightarrow>
          if ch = c_CR then To sw_trailer_header_almost_done sz
          else if ch = c_LF then To sw_trailer sz
          else To sw_trailer_header sz
      | sw_trailer_header_almost_done \<Rightarrow> if ch = c_LF then To sw_trailer sz else To_Invalid)"

text \<open>
  The loop: the return code, state and size it leaves with, and the input from \<^verbatim>\<open>pos\<close> on; \<^const>\<open>None\<close>
  for an overflow.
\<close>

fun chunk_loop :: "chunk_state \<Rightarrow> int \<Rightarrow> bytes \<Rightarrow> (chunk_rc \<times> chunk_state \<times> int \<times> bytes) option" where
  "chunk_loop st sz [] = Some (Chunk_Again, st, sz, [])"
| "chunk_loop st sz (ch # p) =
     (case chunk_char st sz ch of
        To st' sz' \<Rightarrow> chunk_loop st' sz' p
      | To_Data \<Rightarrow> Some (Chunk_Ok, st, sz, ch # p)
      | To_Done \<Rightarrow> Some (Chunk_Done, st, sz, p)
      | To_Invalid \<Rightarrow> Some (Chunk_Error, st, sz, ch # p)
      | To_Undefined \<Rightarrow> None)"

text \<open>\<^verbatim>\<open>ctx->length\<close>: the least number of bytes the rest of the body can have.\<close>

definition chunk_length :: "chunk_state \<Rightarrow> int \<Rightarrow> int" where
  "chunk_length st sz =
     (case st of
        sw_chunk_start \<Rightarrow> 3
      | sw_chunk_size \<Rightarrow> 1 + (if sz \<noteq> 0 then sz + 4 else 1)
      | sw_chunk_extension \<Rightarrow> 1 + sz + 4
      | sw_chunk_extension_almost_done \<Rightarrow> 1 + sz + 4
      | sw_chunk_data \<Rightarrow> sz + 4
      | sw_after_data \<Rightarrow> 4
      | sw_after_data_almost_done \<Rightarrow> 4
      | sw_last_chunk_extension \<Rightarrow> 2
      | sw_last_chunk_extension_almost_done \<Rightarrow> 2
      | sw_trailer \<Rightarrow> 1
      | sw_trailer_almost_done \<Rightarrow> 1
      | sw_trailer_header \<Rightarrow> 2
      | sw_trailer_header_almost_done \<Rightarrow> 2)"

definition ngx_http_parse_chunked ::
  "bytes \<Rightarrow> ngx_http_chunked \<Rightarrow> (chunk_rc \<times> ngx_http_chunked \<times> bytes) option" where
  "ngx_http_parse_chunked p ctx =
     (let st = (if ck_state ctx = sw_chunk_data \<and> ck_size ctx = 0 then sw_after_data else ck_state ctx)
      in do {
        (rc, st, sz, q) \<leftarrow> chunk_loop st (ck_size ctx) p;
        let ctx = ctx\<lparr>ck_size := sz\<rparr>;
        if rc = Chunk_Error then Some (Chunk_Error, ctx, p)
        else if rc = Chunk_Done then Some (Chunk_Done, ctx\<lparr>ck_state := sw_chunk_start\<rparr>, q)
        else if sz > NGX_MAX_OFF_T_VALUE - 5 then Some (Chunk_Error, ctx\<lparr>ck_state := st\<rparr>, q)
        else do {
          len \<leftarrow> s64 (chunk_length st sz);
          Some (rc, ctx\<lparr>ck_state := st, ck_length := len\<rparr>, q) } })"


section \<open>The request body filters\<close>

record body_conf =
  client_max_body_size :: int
  large_client_header_buffers_size :: int

text \<open>
  The fields of the request and of \<^verbatim>\<open>r->request_body\<close> that the filters use; \<open>rq_has_body\<close> tells
  whether \<^verbatim>\<open>r->request_body\<close> is set.
\<close>

record body_req =
  rq_chunked :: bool
  rq_has_body :: bool
  rq_content_length_n :: int
  rb_rest :: int
  rb_chunked :: ngx_http_chunked

text \<open>An input buffer: its memory, \<^verbatim>\<open>pos\<close> and \<^verbatim>\<open>last\<close>.\<close>

record body_buf =
  bb_mem :: bytes
  bb_pos :: nat
  bb_last :: nat

definition buf_bytes :: "body_buf \<Rightarrow> bytes" where
  "buf_bytes bf = drop (bb_pos bf) (take (bb_last bf) (bb_mem bf))"

text \<open>An output buffer is a window of the input buffer's memory, or the empty last buffer.\<close>

type_synonym window = "nat \<times> nat"

definition window_bytes :: "bytes \<Rightarrow> window \<Rightarrow> bytes" where
  "window_bytes mem w = drop (fst w) (take (snd w) mem)"

record out_buf =
  ob_data :: bytes
  ob_last_buf :: bool

definition chunked_zero :: ngx_http_chunked where
  "chunked_zero = \<lparr>ck_state = sw_chunk_start, ck_size = 0, ck_length = 0\<rparr>"

definition NGX_HTTP_BAD_REQUEST :: nat where "NGX_HTTP_BAD_REQUEST = 400"
definition NGX_HTTP_REQUEST_ENTITY_TOO_LARGE :: nat where "NGX_HTTP_REQUEST_ENTITY_TOO_LARGE = 413"

text \<open>\<^verbatim>\<open>while (rb->chunked->size) { *b->last++ = *cl->buf->pos++; rb->chunked->size--; }\<close>\<close>

fun move_bytes :: "nat \<Rightarrow> bytes \<Rightarrow> nat \<Rightarrow> nat \<Rightarrow> bytes" where
  "move_bytes 0 mem to from = mem"
| "move_bytes (Suc n) mem to from = move_bytes n (mem[to := mem ! from]) (Suc to) (Suc from)"

text \<open>
  Joining a small chunk to the window \<open>b\<close>: moved byte by byte below 8 bytes, with \<^verbatim>\<open>memmove\<close> above.
\<close>

definition join_chunk :: "body_buf \<Rightarrow> window \<Rightarrow> nat \<Rightarrow> body_buf \<times> window" where
  "join_chunk bf b n =
     (let mem = (if n < 8 then move_bytes n (bb_mem bf) (snd b) (bb_pos bf)
                 else mem_write (bb_mem bf) (snd b) (take n (drop (bb_pos bf) (bb_mem bf))))
      in (bf\<lparr>bb_mem := mem, bb_pos := bb_pos bf + n\<rparr>, (fst b, snd b + n)))"

text \<open>
  The loop over one input buffer. \<open>outs\<close> are the windows made so far, the newest, which is \<^verbatim>\<open>b\<close>, in
  front; \<^verbatim>\<open>b\<close> is \<^verbatim>\<open>NULL\<close> while there is none. The result is an error code, or the request, the
  buffer, the windows, and whether the body is complete.
\<close>

partial_function (option) chunked_loop ::
  "body_conf \<Rightarrow> body_req \<Rightarrow> body_buf \<Rightarrow> window list
    \<Rightarrow> (nat + body_req \<times> body_buf \<times> window list \<times> bool) option" where
  "chunked_loop cf rq bf outs =
     do {
       (rc, ctx, p) \<leftarrow> ngx_http_parse_chunked (buf_bytes bf) (rb_chunked rq);
       let rq = rq\<lparr>rb_chunked := ctx\<rparr>;
       let bf = bf\<lparr>bb_pos := bb_last bf - length p\<rparr>;
       let sz = ck_size ctx;
       case rc of
         Chunk_Ok \<Rightarrow>
           do {
             room \<leftarrow> s64 (client_max_body_size cf - rq_content_length_n rq);
             if client_max_body_size cf \<noteq> 0 \<and> room < sz
             then Some (Inl NGX_HTTP_REQUEST_ENTITY_TOO_LARGE)
             else if outs \<noteq> [] \<and> sz \<le> 128 \<and> int (bb_last bf - bb_pos bf) \<ge> sz then
               do {
                 n \<leftarrow> s64 (rq_content_length_n rq + sz);
                 let (bf, b) = join_chunk bf (hd outs) (nat sz);
                 chunked_loop cf (rq\<lparr>rq_content_length_n := n, rb_chunked := ctx\<lparr>ck_size := 0\<rparr>\<rparr>)
                   bf (b # tl outs) }
             else if int (bb_last bf - bb_pos bf) > sz then
               do {
                 n \<leftarrow> s64 (rq_content_length_n rq + sz);
                 let pos = bb_pos bf + nat sz;
                 chunked_loop cf (rq\<lparr>rq_content_length_n := n, rb_chunked := ctx\<lparr>ck_size := 0\<rparr>\<rparr>)
                   (bf\<lparr>bb_pos := pos\<rparr>) ((bb_pos bf, pos) # outs) }
             else
               do {
                 let avail = int (bb_last bf - bb_pos bf);
                 n \<leftarrow> s64 (rq_content_length_n rq + avail);
                 chunked_loop cf (rq\<lparr>rq_content_length_n := n, rb_chunked := ctx\<lparr>ck_size := sz - avail\<rparr>\<rparr>)
                   (bf\<lparr>bb_pos := bb_last bf\<rparr>) ((bb_pos bf, bb_last bf) # outs) } }
       | Chunk_Done \<Rightarrow> Some (Inr (rq\<lparr>rb_rest := 0\<rparr>, bf, outs, True))
       | Chunk_Again \<Rightarrow>
           Some (Inr (rq\<lparr>rb_rest := max (ck_length ctx) (large_client_header_buffers_size cf)\<rparr>, bf, outs, False))
       | Chunk_Error \<Rightarrow> Some (Inl NGX_HTTP_BAD_REQUEST) }"

text \<open>The chain of output buffers of one input buffer, as the next filter reads it.\<close>

definition out_chain :: "bytes \<Rightarrow> window list \<Rightarrow> bool \<Rightarrow> out_buf list" where
  "out_chain mem outs fin =
     map (\<lambda>w. \<lparr>ob_data = window_bytes mem w, ob_last_buf = False\<rparr>) (rev outs)
     @ (if fin then [\<lparr>ob_data = [], ob_last_buf = True\<rparr>] else [])"

fun chunked_chain ::
  "body_conf \<Rightarrow> body_req \<Rightarrow> body_buf list \<Rightarrow> (nat + body_req \<times> body_buf list \<times> out_buf list) option" where
  "chunked_chain cf rq [] = Some (Inr (rq, [], []))"
| "chunked_chain cf rq (bf # bfs) =
     do {
       r \<leftarrow> chunked_loop cf rq bf [];
       case r of
         Inl code \<Rightarrow> Some (Inl code)
       | Inr (rq, bf, outs, fin) \<Rightarrow>
           do {
             r \<leftarrow> chunked_chain cf rq bfs;
             case r of
               Inl code \<Rightarrow> Some (Inl code)
             | Inr (rq, bfs, out) \<Rightarrow> Some (Inr (rq, bf # bfs, out_chain (bb_mem bf) outs fin @ out)) } }"

definition ngx_http_request_body_chunked_filter ::
  "body_conf \<Rightarrow> body_req \<Rightarrow> body_buf list \<Rightarrow> (nat + body_req \<times> body_buf list \<times> out_buf list) option" where
  "ngx_http_request_body_chunked_filter cf rq bfs =
     (let rq = (if rb_rest rq = -1
                then rq\<lparr>rb_chunked := chunked_zero,
                        rq_content_length_n := 0,
                        rb_rest := large_client_header_buffers_size cf\<rparr>
                else rq)
      in chunked_chain cf rq bfs)"

text \<open>The filter for bodies with a content length.\<close>

fun length_chain :: "body_req \<Rightarrow> body_buf list \<Rightarrow> body_req \<times> body_buf list \<times> out_buf list" where
  "length_chain rq [] = (rq, [], [])"
| "length_chain rq (bf # bfs) =
     (if rb_rest rq = 0 then (rq, bf # bfs, [])
      else let sz = bb_last bf - bb_pos bf in
        if int sz < rb_rest rq then
          let (rq', bfs', out) = length_chain (rq\<lparr>rb_rest := rb_rest rq - int sz\<rparr>) bfs
          in (rq', bf\<lparr>bb_pos := bb_last bf\<rparr> # bfs',
              \<lparr>ob_data = window_bytes (bb_mem bf) (bb_pos bf, bb_last bf), ob_last_buf = False\<rparr> # out)
        else
          let pos = bb_pos bf + nat (rb_rest rq);
              (rq', bfs', out) = length_chain (rq\<lparr>rb_rest := 0\<rparr>) bfs
          in (rq', bf\<lparr>bb_pos := pos\<rparr> # bfs',
              \<lparr>ob_data = window_bytes (bb_mem bf) (bb_pos bf, pos), ob_last_buf = True\<rparr> # out))"

definition ngx_http_request_body_length_filter ::
  "body_req \<Rightarrow> body_buf list \<Rightarrow> body_req \<times> body_buf list \<times> out_buf list" where
  "ngx_http_request_body_length_filter rq bfs =
     (if rb_rest rq = -1 then
        let rq = rq\<lparr>rb_rest := rq_content_length_n rq\<rparr>;
            (rq', bfs', out) = length_chain rq bfs
        in (rq', bfs', (if rb_rest rq = 0 then [\<lparr>ob_data = [], ob_last_buf = True\<rparr>] else []) @ out)
      else length_chain rq bfs)"

definition ngx_http_request_body_filter ::
  "body_conf \<Rightarrow> body_req \<Rightarrow> body_buf list \<Rightarrow> (nat + body_req \<times> body_buf list \<times> out_buf list) option" where
  "ngx_http_request_body_filter cf rq bfs =
     (if rq_chunked rq then ngx_http_request_body_chunked_filter cf rq bfs
      else Some (Inr (ngx_http_request_body_length_filter rq bfs)))"

text \<open>The filter that throws a body away.\<close>

partial_function (option) discard_loop ::
  "body_conf \<Rightarrow> body_req \<Rightarrow> bytes \<Rightarrow> (nat + body_req \<times> bytes) option" where
  "discard_loop cf rq p =
     do {
       (rc, ctx, p) \<leftarrow> ngx_http_parse_chunked p (rb_chunked rq);
       let rq = rq\<lparr>rb_chunked := ctx\<rparr>;
       case rc of
         Chunk_Ok \<Rightarrow>
           if int (length p) > ck_size ctx then
             discard_loop cf (rq\<lparr>rb_chunked := ctx\<lparr>ck_size := 0\<rparr>\<rparr>) (drop (nat (ck_size ctx)) p)
           else
             discard_loop cf (rq\<lparr>rb_chunked := ctx\<lparr>ck_size := ck_size ctx - int (length p)\<rparr>\<rparr>) []
       | Chunk_Done \<Rightarrow> Some (Inr (rq\<lparr>rq_content_length_n := 0\<rparr>, p))
       | Chunk_Again \<Rightarrow>
           Some (Inr (rq\<lparr>rq_content_length_n := max (ck_length ctx) (large_client_header_buffers_size cf)\<rparr>, p))
       | Chunk_Error \<Rightarrow> Some (Inl NGX_HTTP_BAD_REQUEST) }"

definition ngx_http_discard_request_body_filter ::
  "body_conf \<Rightarrow> body_req \<Rightarrow> bytes \<Rightarrow> (nat + body_req \<times> bytes) option" where
  "ngx_http_discard_request_body_filter cf rq p =
     (if rq_chunked rq then
        discard_loop cf (if rq_has_body rq then rq else rq\<lparr>rq_has_body := True, rb_chunked := chunked_zero\<rparr>) p
      else if int (length p) > rq_content_length_n rq then
        Some (Inr (rq\<lparr>rq_content_length_n := 0\<rparr>, drop (nat (rq_content_length_n rq)) p))
      else Some (Inr (rq\<lparr>rq_content_length_n := rq_content_length_n rq - int (length p)\<rparr>, [])))"


section \<open>Removing the chunks byte by byte\<close>

text \<open>
  The filter described without buffers: one byte after the other, each data byte to the output. A
  body is unfinished, whole, or refused with a code.
\<close>

datatype dechunked = More bytes chunk_state int int | Whole bytes int bytes | Refused nat

definition norm_state :: "chunk_state \<Rightarrow> int \<Rightarrow> chunk_state" where
  "norm_state st sz = (if st = sw_chunk_data \<and> sz = 0 then sw_after_data else st)"

definition too_large :: "int \<Rightarrow> int \<Rightarrow> int \<Rightarrow> bool" where
  "too_large mx n sz \<longleftrightarrow> mx \<noteq> 0 \<and> mx - n < sz"

fun dechunk :: "int \<Rightarrow> chunk_state \<Rightarrow> int \<Rightarrow> int \<Rightarrow> bytes \<Rightarrow> bytes \<Rightarrow> dechunked" where
  "dechunk mx st sz n out [] = More out (norm_state st sz) sz n"
| "dechunk mx st sz n out (ch # p) =
     (case chunk_char (norm_state st sz) sz ch of
        To st' sz' \<Rightarrow>
          if sz' > NGX_MAX_OFF_T_VALUE - 5 then Refused NGX_HTTP_BAD_REQUEST
          else dechunk mx st' sz' n out p
      | To_Data \<Rightarrow>
          if too_large mx n sz then Refused NGX_HTTP_REQUEST_ENTITY_TOO_LARGE
          else dechunk mx sw_chunk_data (sz - 1) (n + 1) (out @ [ch]) p
      | To_Done \<Rightarrow> Whole out n p
      | _ \<Rightarrow> Refused NGX_HTTP_BAD_REQUEST)"

lemma norm_state_idem [simp]: "norm_state (norm_state st sz) sz = norm_state st sz"
  by (simp add: norm_state_def)

lemma dechunk_norm [simp]: "dechunk mx (norm_state st sz) sz n out p = dechunk mx st sz n out p"
  by (cases p) simp_all

lemma dechunk_append:
  "dechunk mx st sz n out (p @ q) =
     (case dechunk mx st sz n out p of
        More out st sz n \<Rightarrow> dechunk mx st sz n out q
      | Whole out n r \<Rightarrow> Whole out n (r @ q)
      | Refused c \<Rightarrow> Refused c)"
  by (induction p arbitrary: st sz n out) (simp_all split: chunk_act.split)

text \<open>The sizes that go with a state.\<close>

definition size_ok :: "chunk_state \<Rightarrow> int \<Rightarrow> bool" where
  "size_ok st sz \<longleftrightarrow> 0 \<le> sz \<and> sz \<le> NGX_MAX_OFF_T_VALUE - 5 \<and>
     (st \<in> {sw_chunk_data, sw_chunk_extension, sw_chunk_extension_almost_done} \<longrightarrow> 0 < sz)"

lemma size_ok_norm: "size_ok st sz \<Longrightarrow> norm_state st sz = st"
  by (auto simp: size_ok_def norm_state_def)

text \<open>Both forms of the size digits, as \<^const>\<open>hex_digit\<close> gives them.\<close>

lemma chunk_char_start:
  "chunk_char sw_chunk_start sz ch = (case hex_digit ch of None \<Rightarrow> To_Invalid | Some d \<Rightarrow> To sw_chunk_size d)"
  by (simp add: chunk_char_def hex_digit_def Let_def)

definition size_end :: "int \<Rightarrow> u8 \<Rightarrow> chunk_act" where
  "size_end sz ch =
     (if ch = c_CR then To (if sz = 0 then sw_last_chunk_extension_almost_done else sw_chunk_extension_almost_done) sz
      else if ch = c_LF then To (if sz = 0 then sw_trailer else sw_chunk_data) sz
      else if ch = 0x3b \<or> ch = 0x20 \<or> ch = 0x09 then To (if sz = 0 then sw_last_chunk_extension else sw_chunk_extension) sz
      else To_Invalid)"

lemma chunk_char_size:
  assumes "0 \<le> sz"
  shows "chunk_char sw_chunk_size sz ch =
    (if sz > NGX_MAX_OFF_T_VALUE div 16 then To_Invalid
     else case hex_digit ch of None \<Rightarrow> size_end sz ch | Some d \<Rightarrow> To sw_chunk_size (sz * 16 + d))"
proof -
  have "s64_shift_in 16 sz d = Some (sz * 16 + d)"
    if "\<not> sz > NGX_MAX_OFF_T_VALUE div 16" "0 \<le> d" "d < 16" for d
    using that assms by (intro s64_shift_in_fits) (simp_all add: NGX_MAX_INT_T_VALUE_def)
  then have "size_digit sz d = To sw_chunk_size (sz * 16 + d)"
    if "\<not> sz > NGX_MAX_OFF_T_VALUE div 16" "hex_digit ch = Some d" for d
    using that hex_digit_bounds [of ch d] by (simp add: size_digit_def)
  then show ?thesis
    by (auto simp: chunk_char_def hex_digit_def size_end_def Let_def)
qed

lemma chunk_char_ok:
  assumes "size_ok st sz" "chunk_char st sz ch = To st' sz'"
  shows "size_ok st' sz' \<or> st' = sw_chunk_size \<and> NGX_MAX_OFF_T_VALUE - 5 < sz'"
proof -
  have sz: "0 \<le> sz" using assms(1) by (simp add: size_ok_def)
  consider "st = sw_chunk_start" | "st = sw_chunk_size" | "st \<notin> {sw_chunk_start, sw_chunk_size}" by blast
  then show ?thesis
  proof cases
    case 1
    with assms obtain d where "hex_digit ch = Some d" "st' = sw_chunk_size" "sz' = d"
      by (auto simp: chunk_char_start split: option.splits)
    then show ?thesis
      using hex_digit_bounds [of ch d] by (auto simp: size_ok_def NGX_MAX_INT_T_VALUE_def)
  next
    case 2
    show ?thesis
    proof (cases "hex_digit ch")
      case None
      then have "size_end sz ch = To st' sz'"
        using assms(2) 2 sz by (simp add: chunk_char_size split: if_splits)
      then show ?thesis using assms(1) 2 by (auto simp: size_end_def size_ok_def split: if_splits)
    next
      case (Some d)
      then have "st' = sw_chunk_size" "sz' = sz * 16 + d"
        using assms(2) 2 sz by (simp_all add: chunk_char_size split: if_splits)
      then show ?thesis using hex_digit_bounds [OF Some] sz by (auto simp: size_ok_def)
    qed
  next
    case 3
    then show ?thesis
      using assms by (cases st) (auto simp: chunk_char_def size_ok_def split: if_splits)
  qed
qed

lemma chunk_char_defined: "size_ok st sz \<Longrightarrow> chunk_char st sz ch \<noteq> To_Undefined"
proof (cases "st = sw_chunk_size")
  case True
  assume "size_ok st sz"
  with True show ?thesis
    by (simp add: chunk_char_size size_ok_def size_end_def split: option.split)
next
  case False
  then show ?thesis by (cases st) (simp_all add: chunk_char_def Let_def)
qed

lemma chunk_char_data: "chunk_char st sz ch = To_Data \<longleftrightarrow> st = sw_chunk_data"
  by (cases st) (auto simp: chunk_char_def size_digit_def Let_def split: option.splits)

text \<open>What one call of the parser leaves for the bytewise description.\<close>

definition chunk_post ::
  "chunk_state \<Rightarrow> int \<Rightarrow> bytes \<Rightarrow> chunk_rc \<Rightarrow> chunk_state \<Rightarrow> int \<Rightarrow> bytes \<Rightarrow> bool" where
  "chunk_post st sz p rc st' sz' q \<longleftrightarrow> (\<exists>r. p = r @ q) \<and>
     (case rc of
        Chunk_Ok \<Rightarrow> st' = sw_chunk_data \<and> size_ok st' sz' \<and> q \<noteq> [] \<and>
          (\<forall>mx n out. dechunk mx st sz n out p = dechunk mx st' sz' n out q)
      | Chunk_Again \<Rightarrow> q = [] \<and> 0 \<le> sz' \<and>
          (if sz' \<le> NGX_MAX_OFF_T_VALUE - 5
           then size_ok st' sz' \<and> (\<forall>mx n out. dechunk mx st sz n out p = More out st' sz' n)
           else \<forall>mx n out. dechunk mx st sz n out p = Refused NGX_HTTP_BAD_REQUEST)
      | Chunk_Done \<Rightarrow> \<forall>mx n out. dechunk mx st sz n out p = Whole out n q
      | Chunk_Error \<Rightarrow> \<forall>mx n out. dechunk mx st sz n out p = Refused NGX_HTTP_BAD_REQUEST)"

lemma chunk_loop_post:
  "size_ok st sz \<Longrightarrow> \<exists>rc st' sz' q. chunk_loop st sz p = Some (rc, st', sz', q) \<and> chunk_post st sz p rc st' sz' q"
proof (induction p arbitrary: st sz)
  case Nil
  then show ?case by (simp add: chunk_post_def size_ok_norm) (simp add: size_ok_def)
next
  case (Cons ch p)
  note nm = size_ok_norm [OF Cons.prems]
  show ?case
  proof (cases "chunk_char st sz ch")
    case (To st' sz')
    consider "size_ok st' sz'" | "st' = sw_chunk_size" "NGX_MAX_OFF_T_VALUE - 5 < sz'"
      using chunk_char_ok [OF Cons.prems To] by blast
    then show ?thesis
    proof cases
      case 1
      from Cons.IH [OF this] obtain rc st2 sz2 q
        where ih: "chunk_loop st' sz' p = Some (rc, st2, sz2, q)" "chunk_post st' sz' p rc st2 sz2 q" by blast
      have "\<not> sz' > NGX_MAX_OFF_T_VALUE - 5" using 1 by (simp add: size_ok_def)
      then have "dechunk mx st sz n out (ch # p) = dechunk mx st' sz' n out p" for mx n out
        using To nm by simp
      then have "chunk_post st sz (ch # p) rc st2 sz2 q"
        using ih(2) by (auto simp: chunk_post_def split: chunk_rc.splits)
      then show ?thesis using ih(1) To by simp
    next
      case 2
      then have "dechunk mx st sz n out (ch # p) = Refused NGX_HTTP_BAD_REQUEST" for mx n out
        using To nm by simp
      moreover have "0 \<le> sz'" "sz' > NGX_MAX_OFF_T_VALUE div 16"
        using 2 by (simp_all add: NGX_MAX_INT_T_VALUE_def)
      ultimately show ?thesis
        using To 2 by (cases p) (auto simp: chunk_post_def chunk_char_size)
    qed
  next
    case To_Undefined
    then show ?thesis using chunk_char_defined [OF Cons.prems] by simp
  next
    case To_Data
    then have "st = sw_chunk_data" by (simp add: chunk_char_data)
    then have "chunk_post st sz (ch # p) Chunk_Ok st sz (ch # p)"
      using Cons.prems by (simp add: chunk_post_def)
    then show ?thesis using To_Data by simp
  qed (use nm in \<open>simp_all add: chunk_post_def\<close>)
qed


abbreviation dechunk_ctx :: "int \<Rightarrow> ngx_http_chunked \<Rightarrow> int \<Rightarrow> bytes \<Rightarrow> bytes \<Rightarrow> dechunked" where
  "dechunk_ctx mx ctx \<equiv> dechunk mx (ck_state ctx) (ck_size ctx)"

definition ctx_ok :: "ngx_http_chunked \<Rightarrow> bool" where
  "ctx_ok ctx \<longleftrightarrow> size_ok (norm_state (ck_state ctx) (ck_size ctx)) (ck_size ctx)"

definition parse_post :: "ngx_http_chunked \<Rightarrow> bytes \<Rightarrow> chunk_rc \<Rightarrow> ngx_http_chunked \<Rightarrow> bytes \<Rightarrow> bool" where
  "parse_post ctx p rc ctx' q \<longleftrightarrow>
     (case rc of
        Chunk_Ok \<Rightarrow> (\<exists>r. p = r @ q) \<and> q \<noteq> [] \<and> ck_state ctx' = sw_chunk_data \<and>
          0 < ck_size ctx' \<and> ck_size ctx' \<le> NGX_MAX_OFF_T_VALUE - 5 \<and>
          (\<forall>mx n out. dechunk_ctx mx ctx n out p = dechunk_ctx mx ctx' n out q)
      | Chunk_Again \<Rightarrow> q = [] \<and> ctx_ok ctx' \<and> 0 < ck_length ctx' \<and>
          (\<forall>mx n out. dechunk_ctx mx ctx n out p = More out (ck_state ctx') (ck_size ctx') n)
      | Chunk_Done \<Rightarrow> (\<exists>r. p = r @ q) \<and> (\<forall>mx n out. dechunk_ctx mx ctx n out p = Whole out n q)
      | Chunk_Error \<Rightarrow> \<forall>mx n out. dechunk_ctx mx ctx n out p = Refused NGX_HTTP_BAD_REQUEST)"

lemma chunk_length_bounds:
  "size_ok st sz \<Longrightarrow> 0 < chunk_length st sz \<and> chunk_length st sz \<le> NGX_MAX_INT_T_VALUE"
  by (cases st) (auto simp: chunk_length_def size_ok_def NGX_MAX_INT_T_VALUE_def)

lemma parse_chunked_post:
  assumes "ctx_ok ctx"
  obtains rc ctx' q where "ngx_http_parse_chunked p ctx = Some (rc, ctx', q)" "parse_post ctx p rc ctx' q"
proof -
  define st where "st = norm_state (ck_state ctx) (ck_size ctx)"
  have st: "(if ck_state ctx = sw_chunk_data \<and> ck_size ctx = 0 then sw_after_data else ck_state ctx) = st"
    by (simp add: st_def norm_state_def)
  have ok: "size_ok st (ck_size ctx)" using assms by (simp add: ctx_ok_def st_def)
  have eq: "dechunk mx st (ck_size ctx) n out p = dechunk_ctx mx ctx n out p" for mx n out
    by (simp add: st_def)
  obtain rc st' sz' q where loop: "chunk_loop st (ck_size ctx) p = Some (rc, st', sz', q)"
    and post: "chunk_post st (ck_size ctx) p rc st' sz' q"
    using chunk_loop_post [OF ok] by blast
  note parse = ngx_http_parse_chunked_def [of p ctx, unfolded st Let_def loop]
  show ?thesis
  proof (cases "rc = Chunk_Error \<or> rc = Chunk_Done \<or> \<not> sz' \<le> NGX_MAX_OFF_T_VALUE - 5")
    case True
    then show ?thesis
      using post that [of Chunk_Error "ctx\<lparr>ck_size := sz'\<rparr>" p]
        that [of Chunk_Done "ctx\<lparr>ck_size := sz', ck_state := sw_chunk_start\<rparr>" q]
        that [of Chunk_Error "ctx\<lparr>ck_size := sz', ck_state := st'\<rparr>" q]
      by (cases rc) (auto simp: parse loop parse_post_def chunk_post_def eq size_ok_def)
  next
    case False
    then have ok': "size_ok st' sz'" using post by (cases rc) (auto simp: chunk_post_def)
    have "parse_post ctx p rc (ctx\<lparr>ck_size := sz', ck_state := st', ck_length := chunk_length st' sz'\<rparr>) q"
      using False post ok' chunk_length_bounds [OF ok'] size_ok_norm [OF ok']
      by (cases rc) (auto simp: parse_post_def chunk_post_def eq ctx_ok_def size_ok_def)
    moreover have "ngx_http_parse_chunked p ctx =
        Some (rc, ctx\<lparr>ck_size := sz', ck_state := st', ck_length := chunk_length st' sz'\<rparr>, q)"
      using False chunk_length_bounds [OF ok'] by (simp add: parse s64_nonneg)
    ultimately show ?thesis using that by blast
  qed
qed

lemma dechunk_data:
  "int (length xs) \<le> sz \<Longrightarrow> \<not> too_large mx n sz \<Longrightarrow>
    dechunk mx sw_chunk_data sz n out (xs @ p) =
    dechunk mx sw_chunk_data (sz - int (length xs)) (n + int (length xs)) (out @ xs) p"
proof (induction xs arbitrary: sz n out)
  case (Cons x xs)
  have "norm_state sw_chunk_data sz = sw_chunk_data" using Cons.prems by (auto simp: norm_state_def)
  moreover have "\<not> too_large mx (n + 1) (sz - 1)" using Cons.prems by (simp add: too_large_def)
  ultimately show ?case
    using Cons.prems Cons.IH [of "sz - 1" "n + 1" "out @ [x]"]
    by (simp add: chunk_char_def algebra_simps)
qed simp


section \<open>Windows into the buffer\<close>

lemma move_bytes_eq:
  "to \<le> from \<Longrightarrow> from + n \<le> length mem \<Longrightarrow> move_bytes n mem to from = mem_write mem to (take n (drop from mem))"
proof (induction n arbitrary: mem to "from")
  case (Suc n)
  have "take (Suc n) (drop from mem) = mem ! from # take n (drop (Suc from) mem)"
    using Suc.prems by (simp add: Cons_nth_drop_Suc [symmetric])
  moreover have "take (Suc to) (mem[to := x]) = take to mem @ [x]" for x
    using Suc.prems by (simp add: take_Suc_conv_app_nth)
  ultimately show ?case
    using Suc.prems Suc.IH [of "Suc to" "Suc from" "mem[to := mem ! from]"]
    by (simp add: mem_write_def)
qed simp

fun windows_ok :: "nat \<Rightarrow> window list \<Rightarrow> bool" where
  "windows_ok bound [] \<longleftrightarrow> True"
| "windows_ok bound ((s, e) # ws) \<longleftrightarrow> s \<le> e \<and> e \<le> bound \<and> windows_ok s ws"

definition contents :: "bytes \<Rightarrow> window list \<Rightarrow> bytes" where
  "contents mem ws = concat (map (window_bytes mem) (rev ws))"

definition buf_ok :: "body_buf \<Rightarrow> bool" where
  "buf_ok bf \<longleftrightarrow> bb_pos bf \<le> bb_last bf \<and> bb_last bf \<le> length (bb_mem bf)"

lemma windows_ok_mono: "windows_ok a ws \<Longrightarrow> a \<le> b \<Longrightarrow> windows_ok b ws"
  by (cases ws) auto

lemma contents_Cons [simp]: "contents mem (w # ws) = contents mem ws @ window_bytes mem w"
  by (simp add: contents_def)

lemma contents_Nil [simp]: "contents mem [] = []"
  by (simp add: contents_def)

lemma contents_write_after:
  "windows_ok off ws \<Longrightarrow> off \<le> length mem \<Longrightarrow> contents (mem_write mem off xs) ws = contents mem ws"
proof (induction off ws rule: windows_ok.induct)
  case (2 bound s e ws)
  have "window_bytes (mem_write mem bound xs) (s, e) = window_bytes mem (s, e)"
    using 2 by (simp add: window_bytes_def take_mem_write_before)
  moreover have "contents (mem_write mem bound xs) ws = contents mem ws"
  proof -
    have "windows_ok bound ws" using 2 by (auto intro: windows_ok_mono)
    then show ?thesis
    proof (induction ws arbitrary: )
      case (Cons w ws)
      then have "windows_ok bound ws" by (cases w) (auto intro: windows_ok_mono)
      with Cons show ?case by (cases w) (simp add: window_bytes_def 2 take_mem_write_before)
    qed simp
  qed
  ultimately show ?case by simp
qed simp

lemma window_bytes_extend:
  "s \<le> e \<Longrightarrow> e \<le> length mem \<Longrightarrow>
    window_bytes (mem_write mem e xs) (s, e + length xs) = window_bytes mem (s, e) @ xs"
  by (simp add: window_bytes_def take_mem_write)

lemma drop_mem_write:
  "off + length src \<le> k \<Longrightarrow> k \<le> length mem \<Longrightarrow> drop k (mem_write mem off src) = drop k mem"
  by (simp add: mem_write_def)

lemma length_buf_bytes: "buf_ok bf \<Longrightarrow> length (buf_bytes bf) = bb_last bf - bb_pos bf"
  by (simp add: buf_ok_def buf_bytes_def)

lemma buf_bytes_suffix:
  assumes "buf_ok bf" "buf_bytes bf = r @ q"
  shows "buf_bytes (bf\<lparr>bb_pos := bb_last bf - length q\<rparr>) = q"
    and "bb_pos bf \<le> bb_last bf - length q" and "length q \<le> bb_last bf"
proof -
  have len: "length r + length q = bb_last bf - bb_pos bf"
    using length_buf_bytes [OF assms(1)] assms(2) by simp
  then have pos: "bb_last bf - length q = bb_pos bf + length r"
    using assms(1) unfolding buf_ok_def by linarith
  have "drop (length r) (buf_bytes bf) = q" using assms by simp
  then show "buf_bytes (bf\<lparr>bb_pos := bb_last bf - length q\<rparr>) = q"
    by (simp add: buf_bytes_def pos add.commute)
  show "bb_pos bf \<le> bb_last bf - length q" "length q \<le> bb_last bf" using len assms pos by (auto simp: buf_ok_def)
qed

text \<open>Taking \<open>k\<close> bytes off the buffer and adding them to the output, in either of the ways of the code.\<close>

definition consumed :: "body_buf \<Rightarrow> window list \<Rightarrow> nat \<Rightarrow> body_buf \<Rightarrow> window list \<Rightarrow> bool" where
  "consumed bf ws k bf' ws' \<longleftrightarrow>
     buf_ok bf' \<and> windows_ok (bb_pos bf') ws' \<and> buf_bytes bf' = drop k (buf_bytes bf) \<and>
     contents (bb_mem bf') ws' = contents (bb_mem bf) ws @ take k (buf_bytes bf)"

lemma consumed_window:
  assumes "buf_ok bf" "windows_ok (bb_pos bf) ws" "k \<le> bb_last bf - bb_pos bf"
  shows "consumed bf ws k (bf\<lparr>bb_pos := bb_pos bf + k\<rparr>) ((bb_pos bf, bb_pos bf + k) # ws)"
  using assms
  by (auto simp: consumed_def buf_ok_def buf_bytes_def window_bytes_def take_drop min_def add.commute)

lemma consumed_join:
  assumes bf: "buf_ok bf" and ws: "windows_ok (bb_pos bf) (w # ws)" and k: "k \<le> bb_last bf - bb_pos bf"
    and j: "join_chunk bf w k = (bf', w')"
  shows "consumed bf (w # ws) k bf' (w' # ws)"
proof -
  obtain s e where w: "w = (s, e)" by force
  define xs where "xs = take k (drop (bb_pos bf) (bb_mem bf))"
  define mem where "mem = mem_write (bb_mem bf) e xs"
  have e: "s \<le> e" "e \<le> bb_pos bf" "windows_ok s ws" "e \<le> length (bb_mem bf)"
    using ws bf by (auto simp: w buf_ok_def)
  have xs: "length xs = k" "xs = take k (buf_bytes bf)"
    using bf k by (auto simp: xs_def buf_ok_def buf_bytes_def drop_take min_def)
  have "(if k < 8 then move_bytes k (bb_mem bf) e (bb_pos bf)
         else mem_write (bb_mem bf) e (take k (drop (bb_pos bf) (bb_mem bf)))) = mem"
    using e bf k by (auto simp: mem_def xs_def buf_ok_def move_bytes_eq)
  then have j': "bf' = bf\<lparr>bb_mem := mem, bb_pos := bb_pos bf + k\<rparr>" "w' = (s, e + k)"
    using j unfolding join_chunk_def w Let_def snd_conv fst_conv by auto
  have fit: "e + length xs \<le> length (bb_mem bf)"
    using e bf k xs(1) unfolding buf_ok_def by linarith
  then have len: "length mem = length (bb_mem bf)"
    using fit by (simp add: mem_def length_mem_write)
  have "drop (bb_pos bf + k) mem = drop (bb_pos bf + k) (bb_mem bf)"
    unfolding mem_def using e(2) bf k xs(1) by (intro drop_mem_write) (auto simp: buf_ok_def)
  then have "buf_bytes bf' = drop k (buf_bytes bf)"
    by (simp add: buf_bytes_def j' drop_take add.commute)
  moreover have "contents mem ws = contents (bb_mem bf) ws"
    using e by (simp add: mem_def contents_write_after windows_ok_mono)
  moreover have "window_bytes mem (s, e + k) = window_bytes (bb_mem bf) (s, e) @ xs"
    using window_bytes_extend [OF e(1,4), of xs] by (simp add: xs(1) mem_def)
  ultimately show ?thesis
    using e bf k len xs(2) by (auto simp: consumed_def j' w buf_ok_def)
qed



section \<open>The loop over one buffer\<close>

definition loop_post ::
  "body_req \<Rightarrow> dechunked \<Rightarrow> (nat + body_req \<times> body_buf \<times> window list \<times> bool) option \<Rightarrow> bool" where
  "loop_post rq d r \<longleftrightarrow>
     (case d of
        Refused c \<Rightarrow> r = Some (Inl c)
      | More out st sz n \<Rightarrow> \<exists>rq' bf' ws'. r = Some (Inr (rq', bf', ws', False)) \<and>
          contents (bb_mem bf') ws' = out \<and> buf_bytes bf' = [] \<and> ctx_ok (rb_chunked rq') \<and>
          ck_state (rb_chunked rq') = st \<and> ck_size (rb_chunked rq') = sz \<and>
          rq_content_length_n rq' = n \<and> 0 < rb_rest rq' \<and> rq_chunked rq' = rq_chunked rq
      | Whole out n rest \<Rightarrow> \<exists>rq' bf' ws'. r = Some (Inr (rq', bf', ws', True)) \<and>
          contents (bb_mem bf') ws' = out \<and> buf_bytes bf' = rest \<and>
          rq_content_length_n rq' = n \<and> rb_rest rq' = 0 \<and> rq_chunked rq' = rq_chunked rq)"

text \<open>The step of the loop that found data: a refusal, or some bytes consumed and the next round.\<close>

lemma chunked_loop_data:
  assumes parse: "ngx_http_parse_chunked (buf_bytes bf0) (rb_chunked rq) = Some (Chunk_Ok, ctx, q)"
    and bf: "bf = bf0\<lparr>bb_pos := bb_last bf0 - length q\<rparr>" "buf_ok bf" "buf_bytes bf = q" "q \<noteq> []"
    and ws: "windows_ok (bb_pos bf) ws"
    and sz: "0 < ck_size ctx"
    and n: "0 \<le> rq_content_length_n rq" "rq_content_length_n rq + int (length q) \<le> NGX_MAX_INT_T_VALUE"
    and mx: "0 \<le> client_max_body_size cf" "client_max_body_size cf \<le> NGX_MAX_INT_T_VALUE"
    and room: "\<not> too_large (client_max_body_size cf) (rq_content_length_n rq) (ck_size ctx)"
  obtains k bf' ws' where "consumed bf ws k bf' ws'" "0 < k" "k \<le> length q" "int k \<le> ck_size ctx"
    "chunked_loop cf rq bf0 ws =
       chunked_loop cf (rq\<lparr>rq_content_length_n := rq_content_length_n rq + int k,
         rb_chunked := ctx\<lparr>ck_size := ck_size ctx - int k\<rparr>\<rparr>) bf' ws'"
proof -
  have avail: "bb_last bf - bb_pos bf = length q" using length_buf_bytes [OF bf(2)] bf(3) by simp
  have q: "0 < length q" using bf(4) by simp
  have s: "s64 (client_max_body_size cf - rq_content_length_n rq) =
      Some (client_max_body_size cf - rq_content_length_n rq)"
    using n mx by (simp add: s64_def)
  have s': "s64 (rq_content_length_n rq + int k) = Some (rq_content_length_n rq + int k)"
    if "k \<le> length q" for k
    using that n by (intro s64_nonneg) simp_all
  have lm: "\<not> (client_max_body_size cf \<noteq> 0 \<and> client_max_body_size cf - rq_content_length_n rq < ck_size ctx)"
    using room by (simp add: too_large_def)
  define m where "m = nat (ck_size ctx)"
  have m: "ck_size ctx = int m" "0 < m" using sz by (simp_all add: m_def)
  note step = chunked_loop.simps [of cf rq bf0 ws, unfolded parse Let_def Option.bind.simps prod.case
      chunk_rc.case bf(1) [symmetric]]
  consider "ws \<noteq> []" "m \<le> 128" "m \<le> length q" | "\<not> (ws \<noteq> [] \<and> m \<le> 128 \<and> m \<le> length q)" "m < length q"
    | "\<not> (ws \<noteq> [] \<and> m \<le> 128 \<and> m \<le> length q)" "\<not> m < length q" by blast
  then show ?thesis
  proof cases
    case 1
    obtain bf' w' where j: "join_chunk bf (hd ws) m = (bf', w')" by (cases "join_chunk bf (hd ws) m")
    have "consumed bf ws m bf' (w' # tl ws)"
      using consumed_join [OF bf(2) _ _ j, of "tl ws"] 1 ws avail by simp
    then show ?thesis
      using 1 m sz s s' [of m] lm j avail
      by (intro that [of m bf' "w' # tl ws"]) (auto simp: step m(1))
  next
    case 2
    show ?thesis
      using 2 m sz s s' [of m] lm avail consumed_window [OF bf(2) ws, of m]
      by (intro that [of m]) (auto simp: step m(1))
  next
    case 3
    have "bb_pos bf + length q = bb_last bf" using avail bf(2) unfolding buf_ok_def by linarith
    then show ?thesis
      using 3 m sz s s' [of "length q"] lm avail q consumed_window [OF bf(2) ws, of "length q"]
      by (intro that [of "length q"]) (auto simp: step m(1))
  qed
qed


lemma chunked_loop_dechunk:
  assumes mx: "0 \<le> client_max_body_size cf" "client_max_body_size cf \<le> NGX_MAX_INT_T_VALUE"
  shows "buf_ok bf \<Longrightarrow> windows_ok (bb_pos bf) ws \<Longrightarrow> ctx_ok (rb_chunked rq) \<Longrightarrow>
    0 \<le> rq_content_length_n rq \<Longrightarrow>
    rq_content_length_n rq + int (length (buf_bytes bf)) \<le> NGX_MAX_INT_T_VALUE \<Longrightarrow>
    loop_post rq (dechunk_ctx (client_max_body_size cf) (rb_chunked rq) (rq_content_length_n rq)
        (contents (bb_mem bf) ws) (buf_bytes bf)) (chunked_loop cf rq bf ws)"
proof (induction "length (buf_bytes bf)" arbitrary: bf ws rq rule: less_induct)
  case less
  let ?mx = "client_max_body_size cf" and ?n = "rq_content_length_n rq"
  obtain rc ctx q where parse: "ngx_http_parse_chunked (buf_bytes bf) (rb_chunked rq) = Some (rc, ctx, q)"
    and post: "parse_post (rb_chunked rq) (buf_bytes bf) rc ctx q"
    using parse_chunked_post [OF less.prems(3)] by blast
  note step = chunked_loop.simps [of cf rq bf ws, unfolded parse Let_def Option.bind.simps prod.case]
  define bf1 where "bf1 = bf\<lparr>bb_pos := bb_last bf - length q\<rparr>"
  have suf: "buf_bytes bf1 = q \<and> bb_pos bf \<le> bb_pos bf1 \<and> buf_ok bf1" if "\<exists>r. buf_bytes bf = r @ q"
    using that buf_bytes_suffix [OF less.prems(1)] less.prems(1) by (auto simp: bf1_def buf_ok_def)
  show ?case
  proof (cases rc)
    case Chunk_Again
    then have "buf_bytes bf1 = []" using post by (simp add: parse_post_def bf1_def buf_bytes_def)
    then show ?thesis
      using Chunk_Again post by (simp add: loop_post_def parse_post_def step bf1_def less_max_iff_disj)
  next
    case Chunk_Done
    then have "\<exists>r. buf_bytes bf = r @ q" using post by (simp add: parse_post_def)
    then have "buf_bytes bf1 = q" using suf by blast
    then show ?thesis
      using Chunk_Done post by (simp add: loop_post_def parse_post_def step bf1_def)
  next
    case Chunk_Error
    then show ?thesis using post by (simp add: loop_post_def parse_post_def step)
  next
    case Chunk_Ok
    then have p: "\<exists>r. buf_bytes bf = r @ q" "q \<noteq> []" "ck_state ctx = sw_chunk_data" "0 < ck_size ctx"
      "ck_size ctx \<le> NGX_MAX_OFF_T_VALUE - 5"
      and d: "dechunk_ctx ?mx (rb_chunked rq) ?n out (buf_bytes bf) = dechunk_ctx ?mx ctx ?n out q" for out
      using post by (simp_all add: parse_post_def)
    note bf1 = suf [OF p(1)]
    have ws1: "windows_ok (bb_pos bf1) ws" using less.prems(2) bf1 by (blast intro: windows_ok_mono)
    have ql: "length q \<le> length (buf_bytes bf)" using p(1) by auto
    show ?thesis
    proof (cases "too_large ?mx ?n (ck_size ctx)")
      case True
      have "s64 (?mx - ?n) = Some (?mx - ?n)" using less.prems mx by (simp add: s64_def)
      then have "chunked_loop cf rq bf ws = Some (Inl NGX_HTTP_REQUEST_ENTITY_TOO_LARGE)"
        using True by (simp add: step Chunk_Ok too_large_def)
      moreover have "dechunk_ctx ?mx ctx ?n out q = Refused NGX_HTTP_REQUEST_ENTITY_TOO_LARGE" for out
        using True p by (cases q) (simp_all add: norm_state_def chunk_char_def)
      ultimately show ?thesis by (simp add: d loop_post_def)
    next
      case False
      have n: "?n + int (length q) \<le> NGX_MAX_INT_T_VALUE" using less.prems(5) ql by linarith
      obtain k bf' ws' where c: "consumed bf1 ws k bf' ws'" "0 < k" "k \<le> length q" "int k \<le> ck_size ctx"
        and eq: "chunked_loop cf rq bf ws =
          chunked_loop cf (rq\<lparr>rq_content_length_n := ?n + int k,
            rb_chunked := ctx\<lparr>ck_size := ck_size ctx - int k\<rparr>\<rparr>) bf' ws'"
        using chunked_loop_data [OF parse [unfolded Chunk_Ok] bf1_def _ _ p(2) ws1 p(4) less.prems(4) n mx False]
          bf1 by blast
      let ?rq = "rq\<lparr>rq_content_length_n := ?n + int k, rb_chunked := ctx\<lparr>ck_size := ck_size ctx - int k\<rparr>\<rparr>"
      have bf': "buf_ok bf'" "windows_ok (bb_pos bf') ws'" "buf_bytes bf' = drop k q"
        "contents (bb_mem bf') ws' = contents (bb_mem bf1) ws @ take k q"
        using c(1) bf1 by (simp_all add: consumed_def)
      have "loop_post ?rq (dechunk_ctx ?mx (rb_chunked ?rq) (rq_content_length_n ?rq)
          (contents (bb_mem bf') ws') (buf_bytes bf')) (chunked_loop cf ?rq bf' ws')"
      proof (rule less.hyps)
        show "length (buf_bytes bf') < length (buf_bytes bf)" using bf'(3) c(2,3) ql by simp
        show "ctx_ok (rb_chunked ?rq)"
          using p c(4) by (auto simp: ctx_ok_def norm_state_def size_ok_def)
        show "0 \<le> rq_content_length_n ?rq" using less.prems(4) by simp
        show "rq_content_length_n ?rq + int (length (buf_bytes bf')) \<le> NGX_MAX_INT_T_VALUE"
          using n c(3) bf'(3) by simp
      qed (use bf' in simp_all)
      moreover have "dechunk_ctx ?mx ctx ?n (contents (bb_mem bf) ws) q =
          dechunk_ctx ?mx (rb_chunked ?rq) (rq_content_length_n ?rq) (contents (bb_mem bf') ws') (buf_bytes bf')"
        using dechunk_data [OF _ False, of "take k q" "contents (bb_mem bf) ws" "drop k q"] c p(3) bf'
        by (simp add: bf1_def min_def)
      ultimately show ?thesis by (simp add: d eq loop_post_def split: dechunked.splits)
    qed
  qed
qed



section \<open>Reading a body piece by piece\<close>

text \<open>
  The read loops hand the filter one buffer at a time, until \<^verbatim>\<open>rb->rest\<close> is zero or there is an
  error. The result is the request, the output buffers, and the input that was not read.
\<close>

fun body_feed ::
  "body_conf \<Rightarrow> body_req \<Rightarrow> body_buf list \<Rightarrow> (nat + body_req \<times> out_buf list \<times> bytes) option" where
  "body_feed cf rq [] = Some (Inr (rq, [], []))"
| "body_feed cf rq (bf # bfs) =
     do {
       r \<leftarrow> ngx_http_request_body_filter cf rq [bf];
       case r of
         Inl c \<Rightarrow> Some (Inl c)
       | Inr (rq, bfs', out) \<Rightarrow>
           if rb_rest rq = 0 then Some (Inr (rq, out, concat (map buf_bytes (bfs' @ bfs))))
           else do {
             r \<leftarrow> body_feed cf rq bfs;
             case r of
               Inl c \<Rightarrow> Some (Inl c)
             | Inr (rq, out', unread) \<Rightarrow> Some (Inr (rq, out @ out', unread)) } }"

definition out_data :: "out_buf list \<Rightarrow> bytes" where
  "out_data os = concat (map ob_data os)"

definition feed_post :: "dechunked \<Rightarrow> (nat + body_req \<times> out_buf list \<times> bytes) option \<Rightarrow> bool" where
  "feed_post d r \<longleftrightarrow>
     (case d of
        Refused c \<Rightarrow> r = Some (Inl c)
      | More out st sz n \<Rightarrow> \<exists>rq' os. r = Some (Inr (rq', os, [])) \<and> out_data os = out \<and>
          list_all (\<lambda>ob. \<not> ob_last_buf ob) os \<and> rq_content_length_n rq' = n \<and> 0 < rb_rest rq'
      | Whole out n rest \<Rightarrow> \<exists>rq' os ob. r = Some (Inr (rq', os @ [ob], rest)) \<and> out_data (os @ [ob]) = out \<and>
          list_all (\<lambda>ob. \<not> ob_last_buf ob) os \<and> ob_last_buf ob \<and>
          rq_content_length_n rq' = n \<and> rb_rest rq' = 0)"

lemma out_data_simps [simp]:
  "out_data (xs @ ys) = out_data xs @ out_data ys" "out_data [] = []"
  "out_data (out_chain mem ws fin) = contents mem ws"
  by (simp_all add: out_data_def out_chain_def contents_def o_def)

text \<open>Enough is known of the filter after its initialisation.\<close>

definition req_ready :: "body_req \<Rightarrow> bool" where
  "req_ready rq \<longleftrightarrow> rq_chunked rq \<and> rb_rest rq \<noteq> -1 \<and> ctx_ok (rb_chunked rq) \<and> 0 \<le> rq_content_length_n rq"

lemma dechunk_grows: "dechunk mx st sz n out p = More out' st' sz' n' \<Longrightarrow> n \<le> n' \<and> n' \<le> n + int (length p)"
  by (induction p arbitrary: st sz n out) (fastforce split: chunk_act.splits if_splits)+

fun add_out :: "bytes \<Rightarrow> dechunked \<Rightarrow> dechunked" where
  "add_out pre (More out st sz n) = More (pre @ out) st sz n"
| "add_out pre (Whole out n rest) = Whole (pre @ out) n rest"
| "add_out pre (Refused c) = Refused c"

lemma dechunk_out: "dechunk mx st sz n (pre @ out) p = add_out pre (dechunk mx st sz n out p)"
  by (induction p arbitrary: st sz n out) (simp_all split: chunk_act.split)

lemma feed_post_append:
  assumes "feed_post d r" "list_all (\<lambda>ob. \<not> ob_last_buf ob) os"
  shows "feed_post (add_out (out_data os) d)
    (do { r \<leftarrow> r; case r of Inl c \<Rightarrow> Some (Inl c) | Inr (rq, out', unread) \<Rightarrow> Some (Inr (rq, os @ out', unread)) })"
  using assms by (cases d) (fastforce simp: feed_post_def)+

text \<open>One buffer.\<close>

lemma body_filter_one:
  assumes "req_ready rq"
  shows "ngx_http_request_body_filter cf rq [bf] =
    (case chunked_loop cf rq bf [] of
       None \<Rightarrow> None
     | Some (Inl c) \<Rightarrow> Some (Inl c)
     | Some (Inr (rq, bf, ws, fin)) \<Rightarrow> Some (Inr (rq, [bf], out_chain (bb_mem bf) ws fin)))"
  using assms
  by (auto simp: ngx_http_request_body_filter_def ngx_http_request_body_chunked_filter_def req_ready_def
      split: option.split sum.split)

lemma body_feed_ready:
  assumes mx: "0 \<le> client_max_body_size cf" "client_max_body_size cf \<le> NGX_MAX_INT_T_VALUE"
  shows "req_ready rq \<Longrightarrow> bfs \<noteq> [] \<or> 0 < rb_rest rq \<Longrightarrow> \<forall>bf\<in>set bfs. buf_ok bf \<Longrightarrow>
    rq_content_length_n rq + int (length (concat (map buf_bytes bfs))) \<le> NGX_MAX_INT_T_VALUE \<Longrightarrow>
    feed_post (dechunk_ctx (client_max_body_size cf) (rb_chunked rq) (rq_content_length_n rq) []
      (concat (map buf_bytes bfs))) (body_feed cf rq bfs)"
proof (induction bfs arbitrary: rq)
  case Nil
  then show ?case by (simp add: feed_post_def)
next
  case (Cons bf bfs)
  let ?mx = "client_max_body_size cf" and ?p = "buf_bytes bf" and ?rest = "concat (map buf_bytes bfs)"
  have lp: "loop_post rq (dechunk_ctx ?mx (rb_chunked rq) (rq_content_length_n rq) [] ?p) (chunked_loop cf rq bf [])"
    using chunked_loop_dechunk [OF mx, of bf "[]" rq] Cons.prems by (simp add: req_ready_def)
  note one = body_filter_one [OF Cons.prems(1), of cf bf]
  show ?case
  proof (cases "dechunk_ctx ?mx (rb_chunked rq) (rq_content_length_n rq) [] ?p")
    case (Refused c)
    then show ?thesis using lp one by (simp add: loop_post_def feed_post_def dechunk_append)
  next
    case (Whole out n rest)
    then show ?thesis using lp one
      by (fastforce simp: loop_post_def feed_post_def dechunk_append out_chain_def out_data_def contents_def o_def list_all_iff)
  next
    case (More out st sz n)
    with lp obtain rq' bf' ws' where l: "chunked_loop cf rq bf [] = Some (Inr (rq', bf', ws', False))"
      and c: "contents (bb_mem bf') ws' = out" "ctx_ok (rb_chunked rq')"
        "ck_state (rb_chunked rq') = st" "ck_size (rb_chunked rq') = sz" "rq_content_length_n rq' = n"
        "0 < rb_rest rq'" "rq_chunked rq'"
      using Cons.prems(1) by (auto simp: loop_post_def req_ready_def)
    note g = dechunk_grows [OF More]
    have ready: "req_ready rq'" using c g Cons.prems(1) by (simp add: req_ready_def)
    have "feed_post (dechunk ?mx st sz n [] ?rest) (body_feed cf rq' bfs)"
      using Cons.IH [OF ready] Cons.prems c g by auto
    moreover have "list_all (\<lambda>ob. \<not> ob_last_buf ob) (out_chain (bb_mem bf') ws' False)"
      by (simp add: out_chain_def list_all_iff)
    ultimately have "feed_post (add_out out (dechunk ?mx st sz n [] ?rest))
      (do { r \<leftarrow> body_feed cf rq' bfs; case r of Inl c \<Rightarrow> Some (Inl c)
         | Inr (rq, out', unread) \<Rightarrow> Some (Inr (rq, out_chain (bb_mem bf') ws' False @ out', unread)) })"
      using feed_post_append [of _ _ "out_chain (bb_mem bf') ws' False"] c(1) by force
    then
    have "feed_post (dechunk ?mx st sz n out ?rest) (body_feed cf rq (bf # bfs))"
      using one l c(6) dechunk_out [of ?mx st sz n out "[]" ?rest] by simp
    then show ?thesis using More by (simp add: dechunk_append)
  qed
qed


text \<open>The first call sets the filter up.\<close>

definition chunked_start :: "body_conf \<Rightarrow> body_req \<Rightarrow> body_req" where
  "chunked_start cf rq = rq\<lparr>rb_chunked := chunked_zero, rq_content_length_n := 0,
     rb_rest := large_client_header_buffers_size cf\<rparr>"

lemma body_feed_start:
  assumes "rq_chunked rq" "rb_rest rq = -1" "0 \<le> large_client_header_buffers_size cf" "bfs \<noteq> []"
  shows "body_feed cf rq bfs = body_feed cf (chunked_start cf rq) bfs"
  using assms
  by (cases bfs) (simp_all add: ngx_http_request_body_filter_def ngx_http_request_body_chunked_filter_def
      chunked_start_def)

lemma chunked_start_ready:
  "rq_chunked rq \<Longrightarrow> 0 \<le> large_client_header_buffers_size cf \<Longrightarrow> req_ready (chunked_start cf rq)"
  by (simp add: req_ready_def chunked_start_def chunked_zero_def ctx_ok_def norm_state_def size_ok_def
      NGX_MAX_INT_T_VALUE_def)

lemma chunked_feed:
  assumes "0 \<le> client_max_body_size cf" "client_max_body_size cf \<le> NGX_MAX_INT_T_VALUE"
    and "rq_chunked rq" "rb_rest rq = -1" "0 \<le> large_client_header_buffers_size cf"
    and "bfs \<noteq> []" "\<forall>bf\<in>set bfs. buf_ok bf"
    and "int (length (concat (map buf_bytes bfs))) \<le> NGX_MAX_INT_T_VALUE"
  shows "feed_post (dechunk (client_max_body_size cf) sw_chunk_start 0 0 [] (concat (map buf_bytes bfs)))
    (body_feed cf rq bfs)"
  using body_feed_ready [OF assms(1,2) chunked_start_ready [OF assms(3,5)], of bfs] assms
  by (simp add: body_feed_start chunked_start_def chunked_zero_def)


subsection \<open>Bodies with a length\<close>

definition cut_body :: "int \<Rightarrow> int \<Rightarrow> bytes \<Rightarrow> dechunked" where
  "cut_body n r p =
     (if r \<le> int (length p) then Whole (take (nat r) p) n (drop (nat r) p) else More p sw_chunk_start 0 n)"

lemma window_bytes_buf:
  "buf_ok bf \<Longrightarrow> k \<le> bb_last bf - bb_pos bf \<Longrightarrow>
    window_bytes (bb_mem bf) (bb_pos bf, bb_pos bf + k) = take k (buf_bytes bf)"
  "window_bytes (bb_mem bf) (bb_pos bf, bb_last bf) = buf_bytes bf"
  "buf_bytes (bf\<lparr>bb_pos := bb_pos bf + k\<rparr>) = drop k (buf_bytes bf)"
    apply (simp add: window_bytes_def buf_bytes_def drop_take min_absorb1)
   apply (simp add: window_bytes_def buf_bytes_def)
  apply (simp add: buf_bytes_def add.commute)
  done

lemma length_feed_rest:
  "\<not> rq_chunked rq \<Longrightarrow> 0 < rb_rest rq \<Longrightarrow> \<forall>bf\<in>set bfs. buf_ok bf \<Longrightarrow>
    feed_post (cut_body (rq_content_length_n rq) (rb_rest rq) (concat (map buf_bytes bfs))) (body_feed cf rq bfs)"
proof (induction bfs arbitrary: rq)
  case Nil
  then show ?case by (simp add: feed_post_def cut_body_def)
next
  case (Cons bf bfs)
  let ?p = "buf_bytes bf" and ?n = "rq_content_length_n rq" and ?r = "rb_rest rq"
    and ?rest = "concat (map buf_bytes bfs)"
  have ok: "buf_ok bf" using Cons.prems by simp
  have len: "bb_last bf - bb_pos bf = length ?p" using length_buf_bytes [OF ok] by simp
  have f: "ngx_http_request_body_filter cf rq [bf] = Some (Inr (length_chain rq [bf]))"
    using Cons.prems by (simp add: ngx_http_request_body_filter_def ngx_http_request_body_length_filter_def)
  show ?case
  proof (cases "int (length ?p) < ?r")
    case True
    define rq' where "rq' = rq\<lparr>rb_rest := ?r - int (length ?p)\<rparr>"
    have "feed_post (cut_body ?n (rb_rest rq') ?rest) (body_feed cf rq' bfs)"
      using Cons.IH [of rq'] Cons.prems True by (simp add: rq'_def)
    from feed_post_append [OF this, of "[\<lparr>ob_data = ?p, ob_last_buf = False\<rparr>]"]
    have "feed_post (add_out ?p (cut_body ?n (rb_rest rq') ?rest)) (body_feed cf rq (bf # bfs))"
      using True Cons.prems
      by (simp add: f Let_def len rq'_def window_bytes_buf out_data_def)
    moreover have "add_out ?p (cut_body ?n (rb_rest rq') ?rest) = cut_body ?n ?r (?p @ ?rest)"
      using True by (auto simp: cut_body_def rq'_def nat_diff_distrib)
    ultimately show ?thesis by simp
  next
    case False
    then have "nat ?r \<le> length ?p" using Cons.prems by linarith
    then show ?thesis
      using False Cons.prems
      by (auto simp: f Let_def len window_bytes_buf ok feed_post_def cut_body_def out_data_def)
  qed
qed

lemma length_feed:
  assumes "\<not> rq_chunked rq" "rb_rest rq = -1" "0 \<le> rq_content_length_n rq"
    and "bfs \<noteq> []" "\<forall>bf\<in>set bfs. buf_ok bf"
  shows "feed_post (cut_body (rq_content_length_n rq) (rq_content_length_n rq) (concat (map buf_bytes bfs)))
    (body_feed cf rq bfs)"
proof (cases "rq_content_length_n rq = 0")
  case True
  then show ?thesis
    using assms
    by (cases bfs) (auto simp: ngx_http_request_body_filter_def ngx_http_request_body_length_filter_def
        feed_post_def cut_body_def out_data_def intro!: exI [of _ "[]"])
next
  case False
  have "body_feed cf rq bfs = body_feed cf (rq\<lparr>rb_rest := rq_content_length_n rq\<rparr>) bfs"
    using assms False
    by (cases bfs) (simp_all add: ngx_http_request_body_filter_def ngx_http_request_body_length_filter_def
        split_beta Let_def)
  then show ?thesis
    using length_feed_rest [of "rq\<lparr>rb_rest := rq_content_length_n rq\<rparr>" bfs cf] assms False by simp
qed



section \<open>The grammar of chunked bodies\<close>

definition eol :: "bytes \<Rightarrow> bool" where
  "eol e \<longleftrightarrow> e = [c_LF] \<or> e = [c_CR, c_LF]"

definition no_eol :: "bytes \<Rightarrow> bool" where
  "no_eol xs \<longleftrightarrow> c_CR \<notin> set xs \<and> c_LF \<notin> set xs"

definition extension :: "bytes \<Rightarrow> bool" where
  "extension x \<longleftrightarrow> x = [] \<or> hd x \<in> {0x3b, 0x20, 0x09} \<and> no_eol x"

text \<open>The trailer: header lines, then an empty line.\<close>

inductive trailer :: "bytes \<Rightarrow> bool" where
  trailer_end: "eol e \<Longrightarrow> trailer e"
| trailer_line: "l \<noteq> [] \<Longrightarrow> no_eol l \<Longrightarrow> eol e \<Longrightarrow> trailer t \<Longrightarrow> trailer (l @ e @ t)"

definition hex_number :: "bytes \<Rightarrow> int \<Rightarrow> bool" where
  "hex_number ds v \<longleftrightarrow> ds \<noteq> [] \<and> number 16 hex_digit 0 ds = Some v"

text \<open>A chunked body and the data it carries.\<close>

inductive chunked_body :: "bytes \<Rightarrow> bytes \<Rightarrow> bool" where
  last_chunk: "hex_number ds 0 \<Longrightarrow> extension x \<Longrightarrow> eol e \<Longrightarrow> trailer t \<Longrightarrow> chunked_body (ds @ x @ e @ t) []"
| data_chunk: "hex_number ds (int (length d)) \<Longrightarrow> d \<noteq> [] \<Longrightarrow> int (length d) \<le> NGX_MAX_OFF_T_VALUE div 16 \<Longrightarrow>
    extension x \<Longrightarrow> eol e \<Longrightarrow> eol e' \<Longrightarrow> chunked_body b body \<Longrightarrow>
    chunked_body (ds @ x @ e @ d @ e' @ b) (d @ body)"


subsection \<open>Every body of the grammar is accepted\<close>

lemma hex_digit_eol [simp]: "hex_digit 0x0d = None" "hex_digit 0x0a = None"
  "hex_digit 0x3b = None" "hex_digit 0x20 = None" "hex_digit 0x09 = None"
  by (simp_all add: hex_digit_def)

lemma max_small [simp]:
  "v \<le> NGX_MAX_INT_T_VALUE div 16 \<Longrightarrow> \<not> NGX_MAX_INT_T_VALUE div 16 < v"
  "v \<le> NGX_MAX_INT_T_VALUE div 16 \<Longrightarrow> \<not> NGX_MAX_INT_T_VALUE - 5 < v"
  "0 \<le> NGX_MAX_INT_T_VALUE div 16" "\<not> NGX_MAX_INT_T_VALUE < 5"
  by (simp_all add: NGX_MAX_INT_T_VALUE_def)

lemma dechunk_digits:
  "0 \<le> v \<Longrightarrow> number 16 hex_digit v ds = Some w \<Longrightarrow> w \<le> NGX_MAX_INT_T_VALUE div 16 \<Longrightarrow>
    dechunk mx sw_chunk_size v n out (ds @ p) = dechunk mx sw_chunk_size w n out p"
proof (induction ds arbitrary: v)
  case (Cons c ds)
  then obtain d where d: "hex_digit c = Some d" "number 16 hex_digit (v * 16 + d) ds = Some w"
    by (auto split: Option.bind_splits)
  note db = hex_digit_bounds [OF d(1)]
  have le: "v * 16 + d \<le> w" using hex.number_grows [OF _ d(2)] db Cons.prems by simp
  then have "v \<le> NGX_MAX_INT_T_VALUE div 16" "v * 16 + d \<le> NGX_MAX_INT_T_VALUE div 16"
    using db Cons.prems by linarith+
  then show ?case
    using Cons.prems Cons.IH [OF _ d(2)] d(1) db by (simp add: norm_state_def chunk_char_size)
qed simp

lemma dechunk_hex_number:
  assumes "hex_number ds w" "w \<le> NGX_MAX_INT_T_VALUE div 16"
  shows "dechunk mx sw_chunk_start sz n out (ds @ p) = dechunk mx sw_chunk_size w n out p"
proof -
  obtain c cs d where c: "ds = c # cs" "hex_digit c = Some d" "number 16 hex_digit d cs = Some w"
    using assms(1) by (cases ds) (auto simp: hex_number_def split: Option.bind_splits)
  note db = hex_digit_bounds [OF c(2)]
  have "d \<le> NGX_MAX_INT_T_VALUE - 5" using db by (simp add: NGX_MAX_INT_T_VALUE_def)
  then show ?thesis
    using c(1,2) dechunk_digits [OF _ c(3) assms(2), of mx n out p] db
    by (simp add: norm_state_def chunk_char_start)
qed

text \<open>After the size comes the extension, then the end of the line.\<close>

lemma dechunk_skip:
  assumes "\<And>ch. ch \<noteq> c_CR \<Longrightarrow> ch \<noteq> c_LF \<Longrightarrow> chunk_char st sz ch = To st sz"
    and "st \<noteq> sw_chunk_data" "sz \<le> NGX_MAX_INT_T_VALUE div 16" "no_eol x"
  shows "dechunk mx st sz n out (x @ p) = dechunk mx st sz n out p"
  using assms(4)
proof (induction x)
  case (Cons c x)
  then show ?case
    using assms(1) [of c] assms(2,3) by (auto simp: no_eol_def norm_state_def)
qed simp

lemma chunk_char_lines [simp]:
  "chunk_char sw_chunk_extension sz ch =
     (if ch = c_CR then To sw_chunk_extension_almost_done sz
      else if ch = c_LF then To sw_chunk_data sz else To sw_chunk_extension sz)"
  "chunk_char sw_chunk_extension_almost_done sz ch = (if ch = c_LF then To sw_chunk_data sz else To_Invalid)"
  "chunk_char sw_chunk_data sz ch = To_Data"
  "chunk_char sw_after_data sz ch =
     (if ch = c_CR then To sw_after_data_almost_done sz
      else if ch = c_LF then To sw_chunk_start sz else To_Invalid)"
  "chunk_char sw_after_data_almost_done sz ch = (if ch = c_LF then To sw_chunk_start sz else To_Invalid)"
  "chunk_char sw_last_chunk_extension sz ch =
     (if ch = c_CR then To sw_last_chunk_extension_almost_done sz
      else if ch = c_LF then To sw_trailer sz else To sw_last_chunk_extension sz)"
  "chunk_char sw_last_chunk_extension_almost_done sz ch = (if ch = c_LF then To sw_trailer sz else To_Invalid)"
  "chunk_char sw_trailer sz ch =
     (if ch = c_CR then To sw_trailer_almost_done sz else if ch = c_LF then To_Done else To sw_trailer_header sz)"
  "chunk_char sw_trailer_almost_done sz ch = (if ch = c_LF then To_Done else To_Invalid)"
  "chunk_char sw_trailer_header sz ch =
     (if ch = c_CR then To sw_trailer_header_almost_done sz
      else if ch = c_LF then To sw_trailer sz else To sw_trailer_header sz)"
  "chunk_char sw_trailer_header_almost_done sz ch = (if ch = c_LF then To sw_trailer sz else To_Invalid)"
  by (simp_all add: chunk_char_def)

lemma norm_state_other [simp]: "st \<noteq> sw_chunk_data \<Longrightarrow> norm_state st sz = st"
  by (simp add: norm_state_def)

lemma dechunk_size_line:
  assumes "0 \<le> w" "w \<le> NGX_MAX_INT_T_VALUE div 16" "extension x" "eol e"
  shows "dechunk mx sw_chunk_size w n out (x @ e @ p) =
    dechunk mx (if w = 0 then sw_trailer else sw_chunk_data) w n out p"
proof (cases x)
  case Nil
  then show ?thesis using assms by (auto simp: eol_def chunk_char_size size_end_def)
next
  case (Cons c xs)
  let ?st = "if w = 0 then sw_last_chunk_extension else sw_chunk_extension"
  have c: "c = 0x3b \<or> c = 0x20 \<or> c = 0x09" "no_eol xs"
    using assms(3) Cons by (auto simp: extension_def no_eol_def)
  have "dechunk mx sw_chunk_size w n out (x @ e @ p) = dechunk mx ?st w n out (xs @ e @ p)"
    using assms(1,2) c(1) Cons by (auto simp: chunk_char_size size_end_def)
  also have "\<dots> = dechunk mx ?st w n out (e @ p)"
    using assms(2) c(2) by (intro dechunk_skip) simp_all
  also have "\<dots> = dechunk mx (if w = 0 then sw_trailer else sw_chunk_data) w n out p"
    using assms(2,4) by (auto simp: eol_def)
  finally show ?thesis .
qed

lemma dechunk_trailer: "trailer t \<Longrightarrow> dechunk mx sw_trailer 0 n out (t @ p) = Whole out n p"
proof (induction rule: trailer.induct)
  case (trailer_end e)
  then show ?case by (auto simp: eol_def)
next
  case (trailer_line l e t)
  obtain c l' where l: "l = c # l'" "no_eol l'" "c \<noteq> c_CR" "c \<noteq> c_LF"
    using trailer_line(1,2) by (cases l) (auto simp: no_eol_def)
  have "dechunk mx sw_trailer 0 n out (l @ e @ t @ p) = dechunk mx sw_trailer_header 0 n out (l' @ e @ t @ p)"
    using l by simp
  also have "\<dots> = dechunk mx sw_trailer_header 0 n out (e @ t @ p)"
    using l by (intro dechunk_skip) simp_all
  also have "\<dots> = Whole out n p"
    using trailer_line by (auto simp: eol_def)
  finally show ?case by simp
qed

lemma dechunk_complete:
  "chunked_body text body \<Longrightarrow> mx = 0 \<or> n + int (length body) \<le> mx \<Longrightarrow>
    dechunk mx sw_chunk_start sz n out (text @ p) = Whole (out @ body) (n + int (length body)) p"
proof (induction arbitrary: sz n out rule: chunked_body.induct)
  case (last_chunk ds x e t)
  then show ?case
    by (simp add: dechunk_hex_number dechunk_size_line dechunk_trailer)
next
  case (data_chunk ds d x e e' b body)
  let ?k = "int (length d)"
  have "dechunk mx sw_chunk_start sz n out ((ds @ x @ e @ d @ e' @ b) @ p) =
      dechunk mx sw_chunk_data ?k n out (d @ e' @ b @ p)"
    using data_chunk by (simp add: dechunk_hex_number dechunk_size_line)
  also have "\<dots> = dechunk mx sw_chunk_data 0 (n + ?k) (out @ d) (e' @ b @ p)"
    using data_chunk.prems by (subst dechunk_data) (auto simp: too_large_def)
  also have "\<dots> = dechunk mx sw_chunk_start 0 (n + ?k) (out @ d) (b @ p)"
    using data_chunk(6) by (auto simp: eol_def norm_state_def)
  also have "\<dots> = Whole ((out @ d) @ body) (n + ?k + int (length body)) p"
    using data_chunk.prems by (intro data_chunk.IH) (simp add: add.assoc)
  finally show ?case by (simp add: add.assoc)
qed



subsection \<open>Nothing else is accepted\<close>

text \<open>What the grammar still wants in each state of the parser.\<close>

definition wanted :: "chunk_state \<Rightarrow> int \<Rightarrow> bytes \<Rightarrow> bytes \<Rightarrow> bool" where
  "wanted st sz t body \<longleftrightarrow>
     (case st of
        sw_chunk_start \<Rightarrow> chunked_body t body
      | sw_chunk_size \<Rightarrow> \<forall>ds. hex_number ds sz \<longrightarrow> chunked_body (ds @ t) body
      | sw_chunk_extension \<Rightarrow> \<forall>ds x. hex_number ds sz \<longrightarrow> sz \<le> NGX_MAX_OFF_T_VALUE div 16 \<longrightarrow>
          x \<noteq> [] \<longrightarrow> extension x \<longrightarrow> chunked_body (ds @ x @ t) body
      | sw_chunk_extension_almost_done \<Rightarrow> \<forall>ds x. hex_number ds sz \<longrightarrow> sz \<le> NGX_MAX_OFF_T_VALUE div 16 \<longrightarrow>
          extension x \<longrightarrow> chunked_body (ds @ x @ c_CR # t) body
      | sw_chunk_data \<Rightarrow> \<exists>d e b body'. t = d @ e @ b \<and> int (length d) = sz \<and> eol e \<and>
          chunked_body b body' \<and> body = d @ body'
      | sw_after_data \<Rightarrow> \<exists>e b. t = e @ b \<and> eol e \<and> chunked_body b body
      | sw_after_data_almost_done \<Rightarrow> \<exists>b. t = c_LF # b \<and> chunked_body b body
      | sw_last_chunk_extension \<Rightarrow> \<forall>ds x. hex_number ds 0 \<longrightarrow> x \<noteq> [] \<longrightarrow> extension x \<longrightarrow>
          chunked_body (ds @ x @ t) body
      | sw_last_chunk_extension_almost_done \<Rightarrow> \<forall>ds x. hex_number ds 0 \<longrightarrow> extension x \<longrightarrow>
          chunked_body (ds @ x @ c_CR # t) body
      | sw_trailer \<Rightarrow> trailer t \<and> body = []
      | sw_trailer_almost_done \<Rightarrow> t = [c_LF] \<and> body = []
      | sw_trailer_header \<Rightarrow> (\<forall>l. l \<noteq> [] \<longrightarrow> no_eol l \<longrightarrow> trailer (l @ t)) \<and> body = []
      | sw_trailer_header_almost_done \<Rightarrow> (\<forall>l. l \<noteq> [] \<longrightarrow> no_eol l \<longrightarrow> trailer (l @ c_CR # t)) \<and> body = [])"

lemmas wanted_simps = wanted_def chunk_state.case

lemma wantedD:
  "wanted sw_chunk_extension sz t body \<Longrightarrow> hex_number ds sz \<Longrightarrow> sz \<le> NGX_MAX_OFF_T_VALUE div 16 \<Longrightarrow>
    x \<noteq> [] \<Longrightarrow> extension x \<Longrightarrow> chunked_body (ds @ x @ t) body"
  "wanted sw_chunk_extension_almost_done sz t body \<Longrightarrow> hex_number ds sz \<Longrightarrow>
    sz \<le> NGX_MAX_OFF_T_VALUE div 16 \<Longrightarrow> extension x \<Longrightarrow> chunked_body (ds @ x @ c_CR # t) body"
  "wanted sw_last_chunk_extension sz t body \<Longrightarrow> hex_number ds 0 \<Longrightarrow> x \<noteq> [] \<Longrightarrow> extension x \<Longrightarrow>
    chunked_body (ds @ x @ t) body"
  "wanted sw_last_chunk_extension_almost_done sz t body \<Longrightarrow> hex_number ds 0 \<Longrightarrow> extension x \<Longrightarrow>
    chunked_body (ds @ x @ c_CR # t) body"
  "wanted sw_trailer_header sz t body \<Longrightarrow> l \<noteq> [] \<Longrightarrow> no_eol l \<Longrightarrow> trailer (l @ t)"
  by (simp_all add: wanted_simps)

lemma wantedI:
  "int (length d) = sz \<Longrightarrow> eol e \<Longrightarrow> chunked_body b body \<Longrightarrow> wanted sw_chunk_data sz (d @ e @ b) (d @ body)"
  "eol e \<Longrightarrow> chunked_body b body \<Longrightarrow> wanted sw_after_data sz (e @ b) body"
  by (auto simp: wanted_simps)

lemma eol_cases: "eol [c_LF]" "eol [c_CR, c_LF]"
  by (simp_all add: eol_def)

lemma hex_number_digit:
  assumes "hex_number ds v" "hex_digit c = Some d"
  shows "hex_number (ds @ [c]) (v * 16 + d)"
proof -
  have "number 16 hex_digit a ds = Some v \<Longrightarrow> number 16 hex_digit a (ds @ [c]) = Some (v * 16 + d)" for a
    using assms(2) by (induction ds arbitrary: a) (auto split: Option.bind_splits)
  then show ?thesis using assms(1) by (simp add: hex_number_def)
qed

lemma extension_snoc: "extension x \<Longrightarrow> x \<noteq> [] \<Longrightarrow> c \<noteq> c_CR \<Longrightarrow> c \<noteq> c_LF \<Longrightarrow> extension (x @ [c])"
  by (auto simp: extension_def no_eol_def)

lemma last_line:
  "hex_number ds 0 \<Longrightarrow> extension x \<Longrightarrow> eol e \<Longrightarrow> wanted sw_trailer sz t body \<Longrightarrow> chunked_body (ds @ x @ e @ t) body"
  by (auto simp: wanted_simps intro: chunked_body.last_chunk)

lemma data_line:
  assumes "hex_number ds sz" "0 < sz" "sz \<le> NGX_MAX_OFF_T_VALUE div 16" "extension x" "eol e"
    "wanted sw_chunk_data sz t body"
  shows "chunked_body (ds @ x @ e @ t) body"
proof -
  obtain d e' b body' where "t = d @ e' @ b" "int (length d) = sz" "eol e'" "chunked_body b body'" "body = d @ body'"
    using assms(6) by (auto simp: wanted_simps)
  then show ?thesis using assms chunked_body.data_chunk [of ds d x e e' b body'] by auto
qed

lemma size_line_wanted:
  assumes "size_end sz ch = To st' sz'" "wanted st' sz' t body"
    "hex_number ds sz" "0 \<le> sz" "sz \<le> NGX_MAX_OFF_T_VALUE div 16"
  shows "chunked_body (ds @ ch # t) body"
proof -
  have ext: "extension []" "ch = 0x3b \<or> ch = 0x20 \<or> ch = 0x09 \<Longrightarrow> extension [ch]"
    by (auto simp: extension_def no_eol_def)
  consider "ch = c_CR" "st' = (if sz = 0 then sw_last_chunk_extension_almost_done else sw_chunk_extension_almost_done)"
    | "ch = c_LF" "st' = (if sz = 0 then sw_trailer else sw_chunk_data)"
    | "ch = 0x3b \<or> ch = 0x20 \<or> ch = 0x09" "st' = (if sz = 0 then sw_last_chunk_extension else sw_chunk_extension)"
    using assms(1) by (auto simp: size_end_def split: if_splits)
  moreover have "sz' = sz" using assms(1) by (auto simp: size_end_def split: if_splits)
  ultimately show ?thesis
  proof cases
    case 1
    have "chunked_body (ds @ [] @ c_CR # t) body"
      using 1(2) assms(2-) ext(1) \<open>sz' = sz\<close> wantedD(2,4) [of sz t body ds "[]"]
      by (cases "sz = 0") simp_all
    then show ?thesis using 1 by simp
  next
    case 2
    then show ?thesis
      using assms(2-) ext(1) eol_cases(1) last_line [of ds "[]" "[c_LF]" sz t body]
        data_line [of ds sz "[]" "[c_LF]" t body] \<open>sz' = sz\<close> by (auto split: if_splits)
  next
    case 3
    have "chunked_body (ds @ [ch] @ t) body"
      using 3(2) assms(2-) ext(2) [OF 3(1)] \<open>sz' = sz\<close> wantedD(1,3) [of sz t body ds "[ch]"]
      by (cases "sz = 0") simp_all
    then show ?thesis by simp
  qed
qed


lemma wanted_step:
  assumes "size_ok st sz" "chunk_char st sz ch = To st' sz'" "wanted st' sz' t body"
  shows "wanted st sz (ch # t) body"
proof (cases st)
  case sw_chunk_start
  then obtain d where "hex_digit ch = Some d" "st' = sw_chunk_size" "sz' = d"
    using assms(2) by (auto simp: chunk_char_start split: option.splits)
  then show ?thesis
    using assms(3) sw_chunk_start by (auto simp: wanted_simps hex_number_def dest: spec [of _ "[ch]"])
next
  case sw_chunk_size
  have sz: "0 \<le> sz" using assms(1) by (simp add: size_ok_def)
  then have le: "sz \<le> NGX_MAX_OFF_T_VALUE div 16"
    using assms(2) sw_chunk_size by (auto simp: chunk_char_size split: if_splits)
  show ?thesis
  proof (cases "hex_digit ch")
    case None
    then have "size_end sz ch = To st' sz'"
      using assms(2) sw_chunk_size sz le by (simp add: chunk_char_size)
    then show ?thesis
      using size_line_wanted [OF _ assms(3) _ sz le] sw_chunk_size by (simp add: wanted_simps)
  next
    case (Some d)
    then have "st' = sw_chunk_size" "sz' = sz * 16 + d"
      using assms(2) sw_chunk_size sz le by (simp_all add: chunk_char_size)
    then have "chunked_body ((ds @ [ch]) @ t) body" if "hex_number ds sz" for ds
      using hex_number_digit [OF that Some] assms(3) by (simp only: wanted_simps)
    then show ?thesis using sw_chunk_size by (simp add: wanted_simps)
  qed
next
  case sw_chunk_extension
  have "chunked_body (ds @ x @ ch # t) body"
    if h: "hex_number ds sz" "sz \<le> NGX_MAX_OFF_T_VALUE div 16" "x \<noteq> []" "extension x" for ds x
  proof -
    have sz: "0 < sz" using assms(1) sw_chunk_extension by (simp add: size_ok_def)
    consider "ch = c_CR" | "ch = c_LF" | "ch \<noteq> c_CR" "ch \<noteq> c_LF" by blast
    then show ?thesis
    proof cases
      case 3
      then have "chunked_body (ds @ (x @ [ch]) @ t) body"
        using assms(2,3) sw_chunk_extension wantedD(1) [OF _ h(1,2) _ extension_snoc [OF h(4,3) 3]] by simp
      then show ?thesis by simp
    next
      case 2
      then show ?thesis
        using assms(2,3) sw_chunk_extension data_line [OF h(1) sz h(2,4) eol_cases(1)] by simp
    qed (use assms(2,3) sw_chunk_extension h in \<open>simp add: wanted_simps\<close>)
  qed
  then show ?thesis using sw_chunk_extension by (simp add: wanted_simps)
next
  case sw_chunk_extension_almost_done
  have sz: "0 < sz" using assms(1) sw_chunk_extension_almost_done by (simp add: size_ok_def)
  then show ?thesis
    using assms(2,3) sw_chunk_extension_almost_done data_line [OF _ sz _ _ eol_cases(2)]
    by (simp add: wanted_simps split: if_splits)
next
  case sw_last_chunk_extension
  have "chunked_body (ds @ x @ ch # t) body"
    if h: "hex_number ds 0" "x \<noteq> []" "extension x" for ds x
  proof -
    consider "ch = c_CR" | "ch = c_LF" | "ch \<noteq> c_CR" "ch \<noteq> c_LF" by blast
    then show ?thesis
    proof cases
      case 3
      then have "chunked_body (ds @ (x @ [ch]) @ t) body"
        using assms(2,3) sw_last_chunk_extension wantedD(3) [OF _ h(1) _ extension_snoc [OF h(3,2) 3]] by simp
      then show ?thesis by simp
    next
      case 2
      then show ?thesis
        using assms(2,3) sw_last_chunk_extension last_line [OF h(1,3) eol_cases(1)] by simp
    qed (use assms(2,3) sw_last_chunk_extension h in \<open>simp add: wanted_simps\<close>)
  qed
  then show ?thesis using sw_last_chunk_extension by (simp add: wanted_simps)
next
  case sw_last_chunk_extension_almost_done
  then have "chunked_body (ds @ x @ [c_CR, c_LF] @ t) body" if "hex_number ds 0" "extension x" for ds x
    using assms(2,3) last_line [OF that eol_cases(2)] by (simp split: if_splits)
  then show ?thesis
    using assms(2) sw_last_chunk_extension_almost_done by (simp add: wanted_simps split: if_splits)
next
  case sw_trailer
  then show ?thesis
    using assms(2,3) eol_cases(2)
    by (auto simp: wanted_simps no_eol_def intro: trailer_end split: if_splits dest: spec [of _ "[ch]"])
next
  case sw_trailer_header
  have "trailer (l @ ch # t)" if l: "l \<noteq> []" "no_eol l" for l
  proof -
    consider "ch = c_CR" | "ch = c_LF" | "ch \<noteq> c_CR" "ch \<noteq> c_LF" by blast
    then show ?thesis
    proof cases
      case 2
      then show ?thesis
        using assms(2,3) sw_trailer_header trailer_line [OF l eol_cases(1)] by (simp add: wanted_simps)
    next
      case 3
      then have "trailer ((l @ [ch]) @ t)"
        using assms(2,3) sw_trailer_header wantedD(5) [of sz t body "l @ [ch]"] l by (auto simp: no_eol_def)
      then show ?thesis by simp
    qed (use assms(2,3) sw_trailer_header l in \<open>simp add: wanted_simps\<close>)
  qed
  then show ?thesis
    using assms(2,3) sw_trailer_header by (auto simp: wanted_simps split: if_splits)
next
  case sw_trailer_header_almost_done
  then show ?thesis
    using assms(2,3) trailer_line [OF _ _ eol_cases(2)] by (auto simp: wanted_simps split: if_splits)
next
  case sw_after_data
  then show ?thesis
    using assms(2,3) wantedI(2) [OF eol_cases(1), of t body sz] wantedI(2) [OF eol_cases(2), of _ body sz]
    by (auto simp: wanted_simps(1) [of sw_after_data_almost_done] wanted_simps(1) [of sw_chunk_start] split: if_splits)
qed (use assms(2,3) in \<open>auto simp: wanted_simps split: if_splits\<close>)


lemma wanted_data:
  assumes "0 < sz" "wanted (norm_state sw_chunk_data (sz - 1)) (sz - 1) t body"
  shows "wanted sw_chunk_data sz (ch # t) (ch # body)"
proof (cases "sz = 1")
  case True
  then obtain e b where "t = e @ b" "eol e" "chunked_body b body"
    using assms(2) by (auto simp: norm_state_def wanted_simps)
  then show ?thesis
    using True wantedI(1) [of "[ch]" sz e b body] by simp
next
  case False
  then obtain d e b body' where "t = d @ e @ b" "int (length d) = sz - 1" "eol e" "chunked_body b body'"
    "body = d @ body'"
    using assms(2) by (auto simp: norm_state_def wanted_simps)
  then show ?thesis using wantedI(1) [of "ch # d" sz e b body'] by simp
qed

lemma dechunk_sound:
  "size_ok (norm_state st sz) sz \<Longrightarrow> dechunk mx st sz n out p = Whole out' n' rest \<Longrightarrow> mx = 0 \<or> n \<le> mx \<Longrightarrow>
    \<exists>t body. p = t @ rest \<and> out' = out @ body \<and> n' = n + int (length body) \<and> (mx = 0 \<or> n' \<le> mx) \<and>
      wanted (norm_state st sz) sz t body"
proof (induction p arbitrary: st sz n out)
  case (Cons ch p)
  define st1 where "st1 = norm_state st sz"
  have ok: "size_ok st1 sz" using Cons.prems by (simp add: st1_def)
  show ?case
  proof (cases "chunk_char st1 sz ch")
    case (To st' sz')
    then have d: "dechunk mx st' sz' n out p = Whole out' n' rest" and le: "\<not> sz' > NGX_MAX_OFF_T_VALUE - 5"
      using Cons.prems(2) by (simp_all add: st1_def split: if_splits)
    have ok': "size_ok st' sz'" using chunk_char_ok [OF ok To] le by blast
    note nm = size_ok_norm [OF ok']
    from Cons.IH [OF _ d Cons.prems(3)] nm ok' obtain t body
      where "p = t @ rest" "out' = out @ body" "n' = n + int (length body)" "mx = 0 \<or> n' \<le> mx" "wanted st' sz' t body"
      by auto
    then show ?thesis using wanted_step [OF ok To, of t body] by (auto simp: st1_def intro!: exI [of _ "ch # t"])
  next
    case To_Data
    then have st1: "st1 = sw_chunk_data" by (simp add: chunk_char_data)
    then have sz: "0 < sz" "sz \<le> NGX_MAX_OFF_T_VALUE - 5" using ok by (simp_all add: size_ok_def)
    have d: "dechunk mx sw_chunk_data (sz - 1) (n + 1) (out @ [ch]) p = Whole out' n' rest"
      and room: "\<not> too_large mx n sz"
      using Cons.prems(2) To_Data by (simp_all add: st1_def split: if_splits)
    have "size_ok (norm_state sw_chunk_data (sz - 1)) (sz - 1)" "mx = 0 \<or> n + 1 \<le> mx"
      using sz room by (auto simp: size_ok_def norm_state_def too_large_def)
    from Cons.IH [OF this(1) d this(2)] obtain t body
      where "p = t @ rest" "out' = (out @ [ch]) @ body" "n' = n + 1 + int (length body)" "mx = 0 \<or> n' \<le> mx"
        "wanted (norm_state sw_chunk_data (sz - 1)) (sz - 1) t body" by auto
    then show ?thesis
      using wanted_data [OF sz(1), of t body ch] st1
      by (auto simp: st1_def intro!: exI [of _ "ch # t"] exI [of _ "ch # body"])
  next
    case To_Done
    then have "wanted st1 sz [ch] []"
      by (cases st1) (auto simp: wanted_simps chunk_char_start size_digit_def chunk_char_def Let_def eol_def
          intro: trailer_end split: if_splits option.splits)
    then show ?thesis using Cons.prems To_Done by (auto simp: st1_def)
  qed (use Cons.prems in \<open>simp_all add: st1_def\<close>)
qed simp



section \<open>Discarding a body\<close>

definition discard_post :: "dechunked \<Rightarrow> (nat + body_req \<times> bytes) option \<Rightarrow> bool" where
  "discard_post d r \<longleftrightarrow>
     (case d of
        Refused c \<Rightarrow> r = Some (Inl c)
      | More out st sz n \<Rightarrow> \<exists>rq'. r = Some (Inr (rq', [])) \<and> 0 < rq_content_length_n rq' \<and>
          ctx_ok (rb_chunked rq') \<and> ck_state (rb_chunked rq') = st \<and> ck_size (rb_chunked rq') = sz
      | Whole out n rest \<Rightarrow> \<exists>rq'. r = Some (Inr (rq', rest)) \<and> rq_content_length_n rq' = 0)"

lemma discard_loop_dechunk:
  "ctx_ok (rb_chunked rq) \<Longrightarrow> discard_post (dechunk_ctx 0 (rb_chunked rq) n out p) (discard_loop cf rq p)"
proof (induction "length p" arbitrary: p rq n out rule: less_induct)
  case less
  obtain rc ctx q where parse: "ngx_http_parse_chunked p (rb_chunked rq) = Some (rc, ctx, q)"
    and post: "parse_post (rb_chunked rq) p rc ctx q"
    using parse_chunked_post [OF less.prems] by blast
  note step = discard_loop.simps [of cf rq p, unfolded parse Let_def Option.bind.simps prod.case]
  show ?case
  proof (cases rc)
    case Chunk_Ok
    then have p: "\<exists>r. p = r @ q" "q \<noteq> []" "ck_state ctx = sw_chunk_data" "0 < ck_size ctx"
      "ck_size ctx \<le> NGX_MAX_OFF_T_VALUE - 5"
      and d: "dechunk_ctx 0 (rb_chunked rq) n out p = dechunk_ctx 0 ctx n out q"
      using post by (simp_all add: parse_post_def)
    define k where "k = (if int (length q) > ck_size ctx then nat (ck_size ctx) else length q)"
    have k: "0 < k" "k \<le> length q" "int k \<le> ck_size ctx" using p(2,4) by (auto simp: k_def)
    let ?rq = "rq\<lparr>rb_chunked := ctx\<lparr>ck_size := ck_size ctx - int k\<rparr>\<rparr>"
    have eq: "discard_loop cf rq p = discard_loop cf ?rq (drop k q)"
      using p(4) by (simp add: step Chunk_Ok k_def)
    have "discard_post (dechunk_ctx 0 (rb_chunked ?rq) (n + int k) (out @ take k q) (drop k q))
        (discard_loop cf ?rq (drop k q))"
    proof (rule less.hyps)
      show "length (drop k q) < length p" using k p(1,2) by auto
      show "ctx_ok (rb_chunked ?rq)"
        using p k by (auto simp: ctx_ok_def norm_state_def size_ok_def)
    qed
    moreover have "dechunk_ctx 0 ctx n out q = dechunk_ctx 0 (rb_chunked ?rq) (n + int k) (out @ take k q) (drop k q)"
      using dechunk_data [of "take k q" "ck_size ctx" 0 n out "drop k q"] k p(3)
      by (simp add: too_large_def min_def)
    ultimately show ?thesis by (simp add: d eq)
  qed (use post in \<open>auto simp: step parse_post_def discard_post_def less_max_iff_disj\<close>)
qed


section \<open>The properties\<close>

text \<open>
  C9. The request body filters, called with one buffer after the other as the body arrives, never
  run on and never leave the buffer. For a chunked body they deliver what the bytewise description
  delivers for the concatenated input, however the input was cut into buffers: the same data, the
  same refusal with 400 or with 413 when the limit is passed, the same unread rest after the end,
  the last-buffer mark on the final output buffer only, and the length counted so far. The small
  chunks moved inside the buffer overwrite neither unread input nor earlier output. For a body with
  a length they deliver exactly that many bytes.
\<close>

theorem request_body_filters:
  assumes "0 \<le> client_max_body_size cf" "client_max_body_size cf \<le> NGX_MAX_INT_T_VALUE"
    and "0 \<le> large_client_header_buffers_size cf"
    and "rb_rest rq = -1" "0 \<le> rq_content_length_n rq"
    and "bfs \<noteq> []" "list_all buf_ok bfs"
    and "int (length (concat (map buf_bytes bfs))) \<le> NGX_MAX_INT_T_VALUE"
  shows "feed_post
    (if rq_chunked rq
     then dechunk (client_max_body_size cf) sw_chunk_start 0 0 [] (concat (map buf_bytes bfs))
     else cut_body (rq_content_length_n rq) (rq_content_length_n rq) (concat (map buf_bytes bfs)))
    (body_feed cf rq bfs)"
  using assms chunked_feed [of cf rq bfs] length_feed [of rq bfs cf] by (simp add: list_all_iff)

definition demo_conf :: body_conf where
  "demo_conf = \<lparr>client_max_body_size = 16, large_client_header_buffers_size = 8192\<rparr>"

definition demo_req :: body_req where
  "demo_req = \<lparr>rq_chunked = True, rq_has_body = True, rq_content_length_n = 0, rb_rest = -1, rb_chunked = chunked_zero\<rparr>"

text \<open>\<^verbatim>\<open>3 CR LF a b c CR LF 2 LF d\<close>, and \<^verbatim>\<open>e CR LF 0 CR LF CR LF X\<close>\<close>

definition demo_bufs :: "body_buf list" where
  "demo_bufs =
     [\<lparr>bb_mem = [0x33, 0x0d, 0x0a, 0x61, 0x62, 0x63, 0x0d, 0x0a, 0x32, 0x0a, 0x64], bb_pos = 0, bb_last = 11\<rparr>,
      \<lparr>bb_mem = [0x65, 0x0d, 0x0a, 0x30, 0x0d, 0x0a, 0x0d, 0x0a, 0x58], bb_pos = 0, bb_last = 9\<rparr>]"

lemma demo_setup:
  "0 \<le> client_max_body_size demo_conf" "client_max_body_size demo_conf \<le> NGX_MAX_INT_T_VALUE"
  "0 \<le> large_client_header_buffers_size demo_conf"
  "rb_rest demo_req = -1" "0 \<le> rq_content_length_n demo_req" "rq_chunked demo_req"
  "demo_bufs \<noteq> []" "list_all buf_ok demo_bufs"
  "int (length (concat (map buf_bytes demo_bufs))) \<le> NGX_MAX_INT_T_VALUE"
  by (simp_all add: demo_conf_def demo_req_def demo_bufs_def NGX_MAX_INT_T_VALUE_def buf_ok_def buf_bytes_def)

lemma demo_dechunk:
  "dechunk (client_max_body_size demo_conf) sw_chunk_start 0 0 [] (concat (map buf_bytes demo_bufs)) =
     Whole [0x61, 0x62, 0x63, 0x64, 0x65] 5 [0x58]"
  by code_simp

theorem request_body_filters_witness:
  "feed_post (Whole [0x61, 0x62, 0x63, 0x64, 0x65] 5 [0x58]) (body_feed demo_conf demo_req demo_bufs)"
  using request_body_filters [of demo_conf demo_req demo_bufs, OF demo_setup(1-5,7-9)] demo_setup(6)
  by (simp add: demo_dechunk)

text \<open>
  C8. A chunked body is accepted exactly when it is one: the filters finish with a marked last
  buffer, the data \<open>body\<close> and the unread input \<open>rest\<close> if and only if the input is a text of the grammar
  of chunked bodies for \<open>body\<close> (chunks with a hexadecimal size, extensions, a last chunk of size
  zero, a trailer) followed by \<open>rest\<close>, and \<open>body\<close> is within the configured limit. So the data of
  every chunked message comes back, for every way of cutting it into buffers.
\<close>

theorem chunked_body_exact:
  assumes "0 \<le> client_max_body_size cf" "client_max_body_size cf \<le> NGX_MAX_INT_T_VALUE"
    and "0 \<le> large_client_header_buffers_size cf"
    and "rb_rest rq = -1" "rq_chunked rq"
    and "bfs \<noteq> []" "list_all buf_ok bfs"
    and "int (length (concat (map buf_bytes bfs))) \<le> NGX_MAX_INT_T_VALUE"
  shows "(\<exists>rq' os ob. body_feed cf rq bfs = Some (Inr (rq', os @ [ob], rest)) \<and> ob_last_buf ob \<and>
        out_data (os @ [ob]) = body) \<longleftrightarrow>
    (\<exists>text. concat (map buf_bytes bfs) = text @ rest \<and> chunked_body text body \<and>
        (client_max_body_size cf = 0 \<or> int (length body) \<le> client_max_body_size cf))"
proof -
  let ?mx = "client_max_body_size cf" and ?p = "concat (map buf_bytes bfs)"
  define d where "d = dechunk ?mx sw_chunk_start 0 0 [] ?p"
  have "feed_post d (body_feed cf rq bfs)"
    using chunked_feed [of cf rq bfs] assms by (simp add: d_def list_all_iff)
  then have "(\<exists>rq' os ob. body_feed cf rq bfs = Some (Inr (rq', os @ [ob], rest)) \<and> ob_last_buf ob \<and>
        out_data (os @ [ob]) = body) \<longleftrightarrow> (\<exists>n. d = Whole body n rest)"
    by (cases d) (auto simp: feed_post_def)
  moreover have "size_ok sw_chunk_start 0" by (simp add: size_ok_def NGX_MAX_INT_T_VALUE_def)
  then have "(\<exists>n. d = Whole body n rest) \<longleftrightarrow>
      (\<exists>text. ?p = text @ rest \<and> chunked_body text body \<and> (?mx = 0 \<or> int (length body) \<le> ?mx))"
    using dechunk_complete [of _ body ?mx 0 0 "[]" rest] dechunk_sound [of sw_chunk_start 0 ?mx 0 "[]" ?p body _ rest] assms(1)
    by (fastforce simp: d_def wanted_simps)
  ultimately show ?thesis by simp
qed

theorem chunked_body_exact_witness:
  "\<exists>text. concat (map buf_bytes demo_bufs) = text @ [0x58] \<and> chunked_body text [0x61, 0x62, 0x63, 0x64, 0x65] \<and>
     (client_max_body_size demo_conf = 0 \<or> int (length [0x61, 0x62, 0x63, 0x64, 0x65 :: u8]) \<le> client_max_body_size demo_conf)"
proof -
  have "feed_post (Whole [0x61, 0x62, 0x63, 0x64, 0x65] 5 [0x58]) (body_feed demo_conf demo_req demo_bufs)"
    using chunked_feed [of demo_conf demo_req demo_bufs] demo_setup by (simp add: list_all_iff demo_dechunk)
  then have "\<exists>rq' os ob. body_feed demo_conf demo_req demo_bufs = Some (Inr (rq', os @ [ob], [0x58])) \<and>
      ob_last_buf ob \<and> out_data (os @ [ob]) = [0x61, 0x62, 0x63, 0x64, 0x65]"
    by (auto simp: feed_post_def)
  then show ?thesis
    using chunked_body_exact [of demo_conf demo_req demo_bufs "[0x58]" "[0x61, 0x62, 0x63, 0x64, 0x65]",
        OF demo_setup(1-4,6-9)] by blast
qed

end
