(* ===== verification/Ngx_Queue.thy ===== *)
theory Ngx_Queue
  imports Prelude "HOL-Library.Multiset"
begin

text \<open>
  nginx, the intrusive queue of \<^verbatim>\<open>src/core/ngx_queue.h\<close> and \<^verbatim>\<open>src/core/ngx_queue.c\<close>: a circular doubly
  linked list with a sentinel. The links live in a heap, an address per node, and every macro is
  the sequence of its assignments. A queue represents the list of its nodes; the operations are
  shown to be those of lists, to leave other queues alone, and the sort to be a stable sort.
\<close>

section \<open>Links\<close>

record qheap =
  q_prev :: "nat \<Rightarrow> nat"
  q_next :: "nat \<Rightarrow> nat"

definition set_prev :: "nat \<Rightarrow> nat \<Rightarrow> qheap \<Rightarrow> qheap" where
  "set_prev a b hp = hp\<lparr>q_prev := (q_prev hp)(a := b)\<rparr>"

definition set_next :: "nat \<Rightarrow> nat \<Rightarrow> qheap \<Rightarrow> qheap" where
  "set_next a b hp = hp\<lparr>q_next := (q_next hp)(a := b)\<rparr>"

lemma links_simps [simp]:
  "q_prev (set_prev a b hp) = (q_prev hp)(a := b)" "q_next (set_prev a b hp) = q_next hp"
  "q_next (set_next a b hp) = (q_next hp)(a := b)" "q_prev (set_next a b hp) = q_prev hp"
  by (simp_all add: set_prev_def set_next_def)

definition ngx_queue_init :: "nat \<Rightarrow> qheap \<Rightarrow> qheap" where
  "ngx_queue_init q hp =
     (let hp = set_prev q q hp;
          hp = set_next q q hp
      in hp)"

definition ngx_queue_empty :: "qheap \<Rightarrow> nat \<Rightarrow> bool" where
  "ngx_queue_empty hp h \<longleftrightarrow> h = q_prev hp h"

definition ngx_queue_insert_head :: "nat \<Rightarrow> nat \<Rightarrow> qheap \<Rightarrow> qheap" where
  "ngx_queue_insert_head h x hp =
     (let hp = set_next x (q_next hp h) hp;
          hp = set_prev (q_next hp x) x hp;
          hp = set_prev x h hp;
          hp = set_next h x hp
      in hp)"

abbreviation ngx_queue_insert_after :: "nat \<Rightarrow> nat \<Rightarrow> qheap \<Rightarrow> qheap" where
  "ngx_queue_insert_after \<equiv> ngx_queue_insert_head"

definition ngx_queue_insert_tail :: "nat \<Rightarrow> nat \<Rightarrow> qheap \<Rightarrow> qheap" where
  "ngx_queue_insert_tail h x hp =
     (let hp = set_prev x (q_prev hp h) hp;
          hp = set_next (q_prev hp x) x hp;
          hp = set_next x h hp;
          hp = set_prev h x hp
      in hp)"

definition ngx_queue_head :: "qheap \<Rightarrow> nat \<Rightarrow> nat" where
  "ngx_queue_head hp h = q_next hp h"

definition ngx_queue_last :: "qheap \<Rightarrow> nat \<Rightarrow> nat" where
  "ngx_queue_last hp h = q_prev hp h"

definition ngx_queue_next :: "qheap \<Rightarrow> nat \<Rightarrow> nat" where
  "ngx_queue_next hp q = q_next hp q"

definition ngx_queue_prev :: "qheap \<Rightarrow> nat \<Rightarrow> nat" where
  "ngx_queue_prev hp q = q_prev hp q"

definition ngx_queue_remove :: "nat \<Rightarrow> qheap \<Rightarrow> qheap" where
  "ngx_queue_remove x hp =
     (let hp = set_prev (q_next hp x) (q_prev hp x) hp;
          hp = set_next (q_prev hp x) (q_next hp x) hp
      in hp)"

definition ngx_queue_split :: "nat \<Rightarrow> nat \<Rightarrow> nat \<Rightarrow> qheap \<Rightarrow> qheap" where
  "ngx_queue_split h q n hp =
     (let hp = set_prev n (q_prev hp h) hp;
          hp = set_next (q_prev hp n) n hp;
          hp = set_next n q hp;
          hp = set_prev h (q_prev hp q) hp;
          hp = set_next (q_prev hp h) h hp;
          hp = set_prev q n hp
      in hp)"

definition ngx_queue_add :: "nat \<Rightarrow> nat \<Rightarrow> qheap \<Rightarrow> qheap" where
  "ngx_queue_add h n hp =
     (let hp = set_next (q_prev hp h) (q_next hp n) hp;
          hp = set_prev (q_next hp n) (q_prev hp h) hp;
          hp = set_prev h (q_prev hp n) hp;
          hp = set_next (q_prev hp h) h hp
      in hp)"

text \<open>\<^verbatim>\<open>ngx_queue_middle\<close>: the loop, and the test before it.\<close>

partial_function (option) middle_loop :: "qheap \<Rightarrow> nat \<Rightarrow> nat \<Rightarrow> nat \<Rightarrow> nat option" where
  "middle_loop hp queue middle next =
     (let middle = ngx_queue_next hp middle;
          next = ngx_queue_next hp next
      in if next = ngx_queue_last hp queue then Some middle
         else let next = ngx_queue_next hp next
              in if next = ngx_queue_last hp queue then Some middle
                 else middle_loop hp queue middle next)"

definition ngx_queue_middle :: "qheap \<Rightarrow> nat \<Rightarrow> nat option" where
  "ngx_queue_middle hp queue =
     (let middle = ngx_queue_head hp queue
      in if middle = ngx_queue_last hp queue then Some middle
         else middle_loop hp queue middle (ngx_queue_head hp queue))"

text \<open>\<^verbatim>\<open>ngx_queue_sort\<close>: the search for the place of a node, and the loop over the nodes.\<close>

partial_function (option) sort_place :: "(nat \<Rightarrow> nat \<Rightarrow> int) \<Rightarrow> qheap \<Rightarrow> nat \<Rightarrow> nat \<Rightarrow> nat \<Rightarrow> nat option" where
  "sort_place cmp hp queue prev q =
     (if cmp prev q \<le> 0 then Some prev
      else let prev = ngx_queue_prev hp prev
           in if prev \<noteq> queue then sort_place cmp hp queue prev q else Some prev)"

partial_function (option) sort_loop :: "(nat \<Rightarrow> nat \<Rightarrow> int) \<Rightarrow> nat \<Rightarrow> nat \<Rightarrow> qheap \<Rightarrow> qheap option" where
  "sort_loop cmp queue q hp =
     (if q = queue then Some hp
      else let prev = ngx_queue_prev hp q;
               next = ngx_queue_next hp q;
               hp = ngx_queue_remove q hp
           in (case sort_place cmp hp queue prev q of
                 None \<Rightarrow> None
               | Some prev \<Rightarrow> sort_loop cmp queue next (ngx_queue_insert_after prev q hp)))"

definition ngx_queue_sort :: "(nat \<Rightarrow> nat \<Rightarrow> int) \<Rightarrow> nat \<Rightarrow> qheap \<Rightarrow> qheap option" where
  "ngx_queue_sort cmp queue hp =
     (let q = ngx_queue_head hp queue
      in if q = ngx_queue_last hp queue then Some hp
         else sort_loop cmp queue (ngx_queue_next hp q) hp)"


section \<open>The list a queue represents\<close>

text \<open>From node \<open>a\<close> over \<open>xs\<close> to node \<open>b\<close>, with the back links.\<close>

fun linked :: "qheap \<Rightarrow> nat \<Rightarrow> nat list \<Rightarrow> nat \<Rightarrow> bool" where
  "linked hp a [] b \<longleftrightarrow> q_next hp a = b \<and> q_prev hp b = a"
| "linked hp a (x # xs) b \<longleftrightarrow> q_next hp a = x \<and> q_prev hp x = a \<and> linked hp x xs b"

definition is_queue :: "qheap \<Rightarrow> nat \<Rightarrow> nat list \<Rightarrow> bool" where
  "is_queue hp h xs \<longleftrightarrow> distinct (h # xs) \<and> linked hp h xs h"

lemma linked_append:
  "linked hp a (xs @ y # ys) b \<longleftrightarrow> linked hp a xs y \<and> linked hp y ys b"
  by (induction xs arbitrary: a) auto

text \<open>A segment does not see a change of the forward link of its end or of a node outside.\<close>

lemma linked_set_next [simp]:
  "c \<notin> insert a (set xs) \<Longrightarrow> linked (set_next c v hp) a xs b \<longleftrightarrow> linked hp a xs b"
  by (induction xs arbitrary: a) auto

lemma linked_set_prev [simp]:
  "c \<notin> insert b (set xs) \<Longrightarrow> linked (set_prev c v hp) a xs b \<longleftrightarrow> linked hp a xs b"
  by (induction xs arbitrary: a) auto

text \<open>Cutting the last link of a segment.\<close>

definition last_node :: "nat \<Rightarrow> nat list \<Rightarrow> nat" where
  "last_node a xs = (if xs = [] then a else last xs)"

lemma last_node_simps [simp]:
  "last_node a [] = a" "last_node a (x # xs) = last_node x xs" "last_node a (xs @ [x]) = x"
  by (auto simp: last_node_def)

lemma last_node_in: "last_node a xs \<in> insert a (set xs)"
  by (simp add: last_node_def)

lemma linked_ends:
  assumes "linked hp a xs b"
  shows "q_prev hp b = last_node a xs" "q_next hp a = hd (xs @ [b])" "q_next hp (last_node a xs) = b"
  using assms by (induction xs arbitrary: a) (auto simp: neq_Nil_conv)

lemma linked_redirect:
  assumes "linked hp a xs b" "distinct (a # xs)" "c \<notin> set xs" "b \<notin> set xs"
  shows "linked (set_next (last_node a xs) c (set_prev c (last_node a xs) hp)) a xs c"
  using assms
proof (induction xs arbitrary: a)
  case (Cons x xs)
  have "last_node x xs \<in> insert x (set xs)" by (rule last_node_in)
  with Cons show ?case by auto
qed simp


lemma linked_restart:
  assumes "linked hp a ys e" "distinct ys" "e \<notin> set ys" "x \<notin> set ys"
  shows "linked (set_next x (hd (ys @ [e])) (set_prev (hd (ys @ [e])) x hp)) x ys e"
  using assms by (cases ys) auto

text \<open>What a segment depends on.\<close>

lemma linked_cong:
  assumes "linked hp a xs b"
    and "\<And>c. c \<in> insert a (set xs) \<Longrightarrow> q_next hp' c = q_next hp c"
    and "\<And>c. c \<in> insert b (set xs) \<Longrightarrow> q_prev hp' c = q_prev hp c"
  shows "linked hp' a xs b"
  using assms by (induction xs arbitrary: a) auto

lemma is_queue_cong:
  assumes "is_queue hp h xs"
    and "\<And>c. c \<in> insert h (set xs) \<Longrightarrow> q_next hp' c = q_next hp c \<and> q_prev hp' c = q_prev hp c"
  shows "is_queue hp' h xs"
  using assms linked_cong [of hp h xs h hp'] by (auto simp: is_queue_def)

lemma linked_split:
  assumes "linked hp a (xs @ ys) b"
  shows "linked hp a xs (hd (ys @ [b]))" "linked hp (last_node a xs) ys b"
proof -
  have "linked hp a xs (hd (ys @ [b])) \<and> linked hp (last_node a xs) ys b"
    using assms by (cases xs rule: rev_cases; cases ys) (auto simp: linked_append)
  then show "linked hp a xs (hd (ys @ [b]))" "linked hp (last_node a xs) ys b" by simp_all
qed

lemma is_queue_ends:
  assumes "is_queue hp h (xs @ ys)"
  shows "q_next hp (last_node h xs) = hd (ys @ [h])" "q_prev hp (hd (ys @ [h])) = last_node h xs"
proof -
  have "linked hp h xs (hd (ys @ [h]))" using assms by (auto simp: is_queue_def intro: linked_split)
  then show "q_next hp (last_node h xs) = hd (ys @ [h])" "q_prev hp (hd (ys @ [h])) = last_node h xs"
    by (rule linked_ends)+
qed

lemma is_queue_walk:
  assumes "is_queue hp h (xs @ y # ys)"
  shows "q_next hp y = hd (ys @ [h])" "q_prev hp y = last_node h xs"
  using is_queue_ends [of hp h "xs @ [y]" ys] is_queue_ends [of hp h xs "y # ys"] assms by simp_all


section \<open>The operations on lists\<close>

lemma queue_init: "is_queue (ngx_queue_init q hp) q []"
  by (simp add: is_queue_def ngx_queue_init_def Let_def)

lemma queue_head: "is_queue hp h xs \<Longrightarrow> ngx_queue_head hp h = hd (xs @ [h])"
  using is_queue_ends(1) [of hp h "[]" xs] by (simp add: ngx_queue_head_def)

lemma queue_last: "is_queue hp h xs \<Longrightarrow> ngx_queue_last hp h = last_node h xs"
  using is_queue_ends(2) [of hp h xs "[]"] by (simp add: ngx_queue_last_def)

lemma queue_empty: "is_queue hp h xs \<Longrightarrow> ngx_queue_empty hp h \<longleftrightarrow> xs = []"
  using is_queue_ends(2) [of hp h xs "[]"] by (auto simp: ngx_queue_empty_def is_queue_def last_node_def)

lemma queue_insert_after:
  assumes q: "is_queue hp h (xs @ ys)" and x: "x \<notin> set (h # xs @ ys)"
  shows "is_queue (ngx_queue_insert_after (last_node h xs) x hp) h (xs @ x # ys)"
proof -
  define a b where "a = last_node h xs" and "b = hd (ys @ [h])"
  define hp' where "hp' = ngx_queue_insert_after a x hp"
  have d: "distinct (h # xs @ ys)" using q by (simp add: is_queue_def)
  have l: "linked hp h xs b" "linked hp a ys h"
    using q linked_split unfolding is_queue_def a_def b_def by blast+
  have ab: "a \<in> insert h (set xs)" "b \<in> insert h (set ys)"
    using last_node_in [of h xs] by (auto simp: a_def b_def hd_append)
  have nxt: "q_next hp a = b" using is_queue_ends(1) [OF q] by (simp add: a_def b_def)
  have hp': "q_next hp' = (q_next hp)(x := b, a := x)" "q_prev hp' = (q_prev hp)(b := x, x := a)"
    by (simp_all add: hp'_def ngx_queue_insert_head_def Let_def nxt)
  have "linked (set_next a x (set_prev x a hp)) h xs x"
    unfolding a_def using l(1) d x ab by (intro linked_redirect) auto
  then have "linked hp' h xs x"
    by (rule linked_cong) (use d x ab in \<open>auto simp: hp'\<close>)
  moreover have "linked (set_next x b (set_prev b x hp)) x ys h"
    unfolding b_def using l(2) d x by (intro linked_restart) auto
  then have "linked hp' x ys h"
    by (rule linked_cong) (use d x ab in \<open>auto simp: hp'\<close>)
  ultimately show ?thesis
    using d x unfolding hp'_def a_def by (auto simp: is_queue_def linked_append)
qed

lemmas queue_insert_head = queue_insert_after [of _ _ "[]", simplified]

lemma queue_insert_tail:
  assumes q: "is_queue hp h xs" and x: "x \<notin> set (h # xs)"
  shows "is_queue (ngx_queue_insert_tail h x hp) h (xs @ [x])"
proof -
  have "q_next hp (last_node h xs) = h" "q_prev hp h = last_node h xs"
    using is_queue_ends [of hp h xs "[]"] q by simp_all
  then show ?thesis
    using x last_node_in [of h xs] q
    by (intro is_queue_cong [OF queue_insert_after [of hp h xs "[]" x, simplified]])
      (auto simp: ngx_queue_insert_tail_def ngx_queue_insert_head_def Let_def)
qed

lemma queue_remove:
  assumes q: "is_queue hp h (xs @ x # ys)"
  shows "is_queue (ngx_queue_remove x hp) h (xs @ ys)"
proof -
  define a b where "a = last_node h xs" and "b = hd (ys @ [h])"
  define hp' where "hp' = ngx_queue_remove x hp"
  have d: "distinct (h # xs @ x # ys)" using q by (simp add: is_queue_def)
  have l: "linked hp h xs x" "linked hp x ys h" using q by (simp_all add: is_queue_def linked_append)
  have ab: "a \<in> insert h (set xs)" "b \<in> insert h (set ys)"
    using last_node_in [of h xs] by (auto simp: a_def b_def hd_append)
  have x: "q_next hp x = b" "q_prev hp x = a" using is_queue_walk [OF q] by (simp_all add: a_def b_def)
  have hp': "q_next hp' = (q_next hp)(a := b)" "q_prev hp' = (q_prev hp)(b := a)"
    using d ab by (auto simp: hp'_def ngx_queue_remove_def Let_def x)
  have 1: "linked (set_next a b (set_prev b a hp)) h xs b"
    unfolding a_def using l(1) d ab(2) by (intro linked_redirect) auto
  show ?thesis
  proof (cases ys)
    case Nil
    have "linked hp' h xs h" by (rule linked_cong [OF 1 [unfolded b_def Nil, simplified]]) (auto simp: hp' b_def Nil)
    then show ?thesis using d Nil by (simp add: is_queue_def hp'_def)
  next
    case (Cons y zs)
    have "linked hp' h xs y" by (rule linked_cong [OF 1 [unfolded b_def Cons, simplified]]) (auto simp: hp' b_def Cons)
    moreover have "linked hp' y zs h"
      by (rule linked_cong [of hp]) (use d ab Cons l(2) in \<open>auto simp: hp' b_def\<close>)
    ultimately show ?thesis using d Cons by (simp add: is_queue_def hp'_def linked_append)
  qed
qed


lemma queue_split:
  assumes q: "is_queue hp h (xs @ x # ys)" and n: "n \<notin> set (h # xs @ x # ys)"
  shows "is_queue (ngx_queue_split h x n hp) h xs" "is_queue (ngx_queue_split h x n hp) n (x # ys)"
proof -
  define p l where "p = last_node h xs" and "l = last_node x ys"
  define hp' where "hp' = ngx_queue_split h x n hp"
  have d: "distinct (h # xs @ x # ys)" using q by (simp add: is_queue_def)
  have lk: "linked hp h xs x" "linked hp x ys h" using q by (simp_all add: is_queue_def linked_append)
  have pl: "p \<in> insert h (set xs)" "l \<in> insert x (set ys)"
    using last_node_in [of h xs] last_node_in [of x ys] by (simp_all add: p_def l_def)
  have "q_prev hp h = l" "q_prev hp x = p" using linked_ends(1) lk by (simp_all add: p_def l_def)
  then have hp': "q_next hp' = (q_next hp)(l := n, n := x, p := h)" "q_prev hp' = (q_prev hp)(n := l, h := p, x := n)"
    using n d pl by (auto simp: hp'_def ngx_queue_split_def Let_def)
  have "linked (set_next p h (set_prev h p hp)) h xs h"
    unfolding p_def using lk(1) d by (intro linked_redirect) auto
  then have "linked hp' h xs h"
    by (rule linked_cong) (use d n pl in \<open>auto simp: hp'\<close>)
  then show "is_queue (ngx_queue_split h x n hp) h xs" using d by (simp add: is_queue_def hp'_def)
  have "linked (set_next l n (set_prev n l hp)) x ys n"
    unfolding l_def using lk(2) d n by (intro linked_redirect) auto
  then have "linked hp' x ys n"
    by (rule linked_cong) (use d n pl in \<open>auto simp: hp'\<close>)
  moreover have "q_next hp' n = x" "q_prev hp' x = n" using n d pl by (auto simp: hp')
  ultimately show "is_queue (ngx_queue_split h x n hp) n (x # ys)"
    using d n by (simp add: is_queue_def hp'_def)
qed

lemma queue_add:
  assumes q: "is_queue hp h xs" and r: "is_queue hp n ys" and disj: "set (h # xs) \<inter> set (n # ys) = {}"
  shows "is_queue (ngx_queue_add h n hp) h (xs @ ys)"
proof -
  define p where "p = last_node h xs"
  define hp' where "hp' = ngx_queue_add h n hp"
  have lk: "linked hp h xs h" "linked hp n ys n" and d: "distinct (h # xs)" "distinct (n # ys)"
    using q r by (simp_all add: is_queue_def)
  have p: "p \<in> insert h (set xs)" "q_prev hp h = p" "q_next hp p = h"
    using last_node_in [of h xs] linked_ends [OF lk(1)] by (simp_all add: p_def)
  show ?thesis
  proof (cases ys)
    case Nil
    then have "q_next hp n = n" using lk(2) by simp
    then have "q_next hp' = q_next hp" "\<And>c. c \<noteq> n \<Longrightarrow> q_prev hp' c = q_prev hp c"
      using p d disj by (auto simp: hp'_def ngx_queue_add_def Let_def)
    then show ?thesis
      using Nil disj by (auto simp: hp'_def [symmetric] intro!: is_queue_cong [OF q]) metis
  next
    case (Cons y zs)
    define e where "e = last_node y zs"
    have e: "e \<in> insert y (set zs)" "q_prev hp n = e" "q_next hp n = y"
      using last_node_in [of y zs] linked_ends [OF lk(2)] Cons by (simp_all add: e_def)
    have hp': "q_next hp' = (q_next hp)(p := y, e := h)" "q_prev hp' = (q_prev hp)(y := p, h := e)"
      using p e d disj Cons by (auto simp: hp'_def ngx_queue_add_def Let_def)
    have "linked (set_next p y (set_prev y p hp)) h xs y"
      unfolding p_def using lk(1) d disj Cons by (intro linked_redirect) auto
    then have "linked hp' h xs y"
      by (rule linked_cong) (use d disj p e Cons in \<open>auto simp: hp'\<close>)
    moreover have "linked (set_next e h (set_prev h e hp)) y zs h"
      unfolding e_def using lk(2) d disj Cons by (intro linked_redirect [of hp y zs n]) auto
    then have "linked hp' y zs h"
      by (rule linked_cong) (use d disj p e Cons in \<open>auto simp: hp'\<close>)
    ultimately show ?thesis
      using d disj Cons by (auto simp: is_queue_def hp'_def [symmetric] linked_append)
  qed
qed

text \<open>An operation touches the links of the nodes of its queue only.\<close>

lemma queue_insert_frame:
  assumes "is_queue hp h (xs @ ys)" "c \<notin> set (h # xs @ ys)" "c \<noteq> x"
  shows "q_next (ngx_queue_insert_after (last_node h xs) x hp) c = q_next hp c"
    "q_prev (ngx_queue_insert_after (last_node h xs) x hp) c = q_prev hp c"
  using assms last_node_in [of h xs] is_queue_ends(1) [OF assms(1)] hd_in_set [of "ys @ [h]"]
  by (auto simp: ngx_queue_insert_head_def Let_def)

lemma queue_remove_frame:
  assumes "is_queue hp h (xs @ x # ys)" "c \<notin> set (h # xs @ ys)"
  shows "q_next (ngx_queue_remove x hp) c = q_next hp c" "q_prev (ngx_queue_remove x hp) c = q_prev hp c"
  using assms last_node_in [of h xs] is_queue_walk [OF assms(1)] hd_in_set [of "ys @ [h]"]
  by (auto simp: ngx_queue_remove_def Let_def is_queue_def)

section \<open>The middle\<close>

lemma queue_nth_next: "is_queue hp h xs \<Longrightarrow> Suc i < length xs \<Longrightarrow> ngx_queue_next hp (xs ! i) = xs ! Suc i"
  using is_queue_walk(1) [of hp h "take i xs" "xs ! i" "drop (Suc i) xs"]
  by (simp add: ngx_queue_next_def id_take_nth_drop [symmetric] hd_append hd_drop_conv_nth)

lemma middle_loop_index:
  assumes q: "is_queue hp h xs" and i: "2 * i + 1 < length xs"
  shows "middle_loop hp h (xs ! i) (xs ! (2 * i)) = Some (xs ! (length xs div 2))"
  using i
proof (induction "length xs - 2 * i" arbitrary: i rule: less_induct)
  case less
  let ?n = "length xs"
  have d: "distinct xs" using q by (simp add: is_queue_def)
  have l: "ngx_queue_last hp h = xs ! (?n - 1)"
    using queue_last [OF q] less.prems by (simp add: last_node_def last_conv_nth) (metis list.size(3) not_less_zero)
  have m: "ngx_queue_next hp (xs ! i) = xs ! Suc i" "ngx_queue_next hp (xs ! (2 * i)) = xs ! Suc (2 * i)"
    using less.prems by (simp_all add: queue_nth_next [OF q])
  have eq: "xs ! j = xs ! (?n - 1) \<longleftrightarrow> j = ?n - 1" if "j < ?n" for j
    using that d by (simp add: nth_eq_iff_index_eq)
  consider "Suc (2 * i) = ?n - 1" | "Suc (2 * i) < ?n - 1" "2 * i + 2 = ?n - 1" | "2 * i + 2 < ?n - 1"
    using less.prems by linarith
  then show ?case
  proof cases
    case 1
    then have "?n div 2 = Suc i" using less.prems by linarith
    then show ?thesis using 1 m eq [of "Suc (2 * i)"] by (simp add: middle_loop.simps [of hp h] Let_def l)
  next
    case 2
    then have "?n div 2 = Suc i" using less.prems by linarith
    moreover have "ngx_queue_next hp (xs ! Suc (2 * i)) = xs ! (?n - 1)"
      using 2 by (simp add: queue_nth_next [OF q])
    ultimately show ?thesis
      using 2 m eq [of "Suc (2 * i)"] by (simp add: middle_loop.simps [of hp h] Let_def l)
  next
    case 3
    have "ngx_queue_next hp (xs ! Suc (2 * i)) = xs ! (2 * Suc i)"
      using 3 by (simp add: queue_nth_next [OF q])
    moreover have "middle_loop hp h (xs ! Suc i) (xs ! (2 * Suc i)) = Some (xs ! (?n div 2))"
      using less.hyps [of "Suc i"] 3 by simp
    ultimately show ?thesis
      using 3 m eq [of "Suc (2 * i)"] eq [of "2 * Suc i"] by (simp add: middle_loop.simps [of hp h "xs ! i"] Let_def l)
  qed
qed

lemma queue_middle:
  assumes q: "is_queue hp h xs" and "xs \<noteq> []"
  shows "ngx_queue_middle hp h = Some (xs ! (length xs div 2))"
proof (cases "length xs = 1")
  case True
  then obtain x where "xs = [x]" by (auto simp: length_Suc_conv)
  then show ?thesis using queue_head [OF q] queue_last [OF q] by (simp add: ngx_queue_middle_def)
next
  case False
  have "1 < length xs" using False assms(2) by (cases xs) auto
  moreover have "ngx_queue_head hp h = xs ! 0" using queue_head [OF q] assms(2) by (cases xs) simp_all
  moreover have "ngx_queue_last hp h = xs ! (length xs - 1)"
    using queue_last [OF q] assms(2) by (simp add: last_node_def last_conv_nth)
  moreover have "xs ! 0 \<noteq> xs ! (length xs - 1)"
    using q \<open>1 < length xs\<close> by (subst nth_eq_iff_index_eq) (auto simp: is_queue_def)
  ultimately show ?thesis
    using middle_loop_index [OF q, of 0] by (simp add: ngx_queue_middle_def)
qed



section \<open>The sort\<close>

text \<open>On lists: \<open>q\<close> is put behind the last element that does not compare greater.\<close>

definition passed :: "(nat \<Rightarrow> nat \<Rightarrow> int) \<Rightarrow> nat \<Rightarrow> nat list \<Rightarrow> nat list" where
  "passed cmp q xs = rev (takeWhile (\<lambda>y. cmp y q > 0) (rev xs))"

definition kept :: "(nat \<Rightarrow> nat \<Rightarrow> int) \<Rightarrow> nat \<Rightarrow> nat list \<Rightarrow> nat list" where
  "kept cmp q xs = rev (dropWhile (\<lambda>y. cmp y q > 0) (rev xs))"

definition ins_back :: "(nat \<Rightarrow> nat \<Rightarrow> int) \<Rightarrow> nat list \<Rightarrow> nat \<Rightarrow> nat list" where
  "ins_back cmp xs q = kept cmp q xs @ q # passed cmp q xs"

definition list_sort :: "(nat \<Rightarrow> nat \<Rightarrow> int) \<Rightarrow> nat list \<Rightarrow> nat list" where
  "list_sort cmp xs = foldl (ins_back cmp) [] xs"

lemma kept_passed [simp]: "kept cmp q xs @ passed cmp q xs = xs"
  by (simp add: kept_def passed_def rev_append [symmetric] del: rev_append)

lemma kept_snoc [simp]: "kept cmp q (xs @ [x]) = (if cmp x q > 0 then kept cmp q xs else xs @ [x])"
  by (simp add: kept_def)

lemma kept_Nil [simp]: "kept cmp q [] = []" "passed cmp q [] = []"
  "kept cmp q [x] = (if cmp x q > 0 then [] else [x])"
  by (simp_all add: kept_def passed_def)

lemma set_kept_passed: "set (kept cmp q xs) \<union> set (passed cmp q xs) = set xs"
  by (simp flip: set_append)

lemma sort_place_kept:
  "is_queue hp h (xs @ ys) \<Longrightarrow> xs \<noteq> [] \<Longrightarrow>
    sort_place cmp hp h (last xs) q = Some (last_node h (kept cmp q xs))"
proof (induction xs arbitrary: ys rule: rev_induct)
  case (snoc z zs)
  have "ngx_queue_prev hp z = last_node h zs"
    using is_queue_walk(2) [of hp h zs z ys] snoc.prems by (simp add: ngx_queue_prev_def)
  moreover have "last zs \<noteq> h" if "zs \<noteq> []"
    using snoc.prems(1) that last_in_set [OF that] by (auto simp: is_queue_def)
  ultimately show ?case
    using snoc.IH [of "z # ys"] snoc.prems
    by (cases "zs = []") (simp_all add: sort_place.simps [of cmp hp h z] Let_def last_node_def)
qed simp

lemma set_ins_back [simp]: "set (ins_back cmp xs q) = insert q (set xs)"
  by (simp add: ins_back_def set_kept_passed [symmetric, of xs cmp q])

lemma ins_back_nonempty [simp]: "ins_back cmp xs q \<noteq> []"
  by (simp add: ins_back_def)

lemma sort_loop_list:
  "is_queue hp h (xs @ ys) \<Longrightarrow> xs \<noteq> [] \<Longrightarrow>
    \<exists>hp'. sort_loop cmp h (hd (ys @ [h])) hp = Some hp' \<and> is_queue hp' h (foldl (ins_back cmp) xs ys) \<and>
      (\<forall>c. c \<notin> set (h # xs @ ys) \<longrightarrow> q_next hp' c = q_next hp c \<and> q_prev hp' c = q_prev hp c)"
proof (induction ys arbitrary: xs hp)
  case Nil
  then show ?case by (simp add: sort_loop.simps)
next
  case (Cons q ys)
  define hp1 where "hp1 = ngx_queue_remove q hp"
  define k where "k = kept cmp q xs"
  define p where "p = passed cmp q xs"
  have xs: "xs = k @ p" by (simp add: k_def p_def)
  have q0: "is_queue hp1 h (xs @ ys)" unfolding hp1_def by (rule queue_remove [OF Cons.prems(1)])
  then have q1: "is_queue hp1 h (k @ p @ ys)" by (simp add: xs)
  have qh: "q \<noteq> h" "q \<notin> set (h # k @ p @ ys)" using Cons.prems(1) xs by (auto simp: is_queue_def)
  have walk: "ngx_queue_prev hp q = last xs" "ngx_queue_next hp q = hd (ys @ [h])"
    using is_queue_walk [OF Cons.prems(1)] Cons.prems(2)
    by (simp_all add: ngx_queue_prev_def ngx_queue_next_def last_node_def)
  have place: "sort_place cmp hp1 h (last xs) q = Some (last_node h k)"
    unfolding k_def by (rule sort_place_kept [OF q0 Cons.prems(2)])
  define hp2 where "hp2 = ngx_queue_insert_after (last_node h k) q hp1"
  have q2: "is_queue hp2 h (ins_back cmp xs q @ ys)"
    using queue_insert_after [OF q1 qh(2)] by (simp add: hp2_def ins_back_def k_def p_def)
  obtain hp' where hp': "sort_loop cmp h (hd (ys @ [h])) hp2 = Some hp'"
      "is_queue hp' h (foldl (ins_back cmp) (ins_back cmp xs q) ys)"
      "\<forall>c. c \<notin> set (h # ins_back cmp xs q @ ys) \<longrightarrow> q_next hp' c = q_next hp2 c \<and> q_prev hp' c = q_prev hp2 c"
    using Cons.IH [OF q2] by auto
  have "sort_loop cmp h q hp = Some hp'"
    using hp'(1) place qh(1) by (simp add: sort_loop.simps [of cmp h q] Let_def walk hp1_def [symmetric] hp2_def [symmetric])
  moreover have "q_next hp2 c = q_next hp c \<and> q_prev hp2 c = q_prev hp c" if "c \<notin> set (h # xs @ q # ys)" for c
    using that queue_insert_frame [OF q1, of c q] queue_remove_frame [OF Cons.prems(1), of c] xs
    by (simp add: hp2_def hp1_def)
  ultimately show ?case using hp' by simp
qed

lemma queue_sort_list:
  assumes q: "is_queue hp h xs"
  shows "\<exists>hp'. ngx_queue_sort cmp h hp = Some hp' \<and> is_queue hp' h (list_sort cmp xs) \<and>
    (\<forall>c. c \<notin> set (h # xs) \<longrightarrow> q_next hp' c = q_next hp c \<and> q_prev hp' c = q_prev hp c)"
proof -
  consider "xs = []" | x where "xs = [x]" | x y ys where "xs = x # y # ys" by (cases xs rule: remdups_adj.cases) auto
  then show ?thesis
  proof cases
    case 1
    then show ?thesis
      using q queue_head [OF q] queue_last [OF q] by (simp add: ngx_queue_sort_def list_sort_def Let_def)
  next
    case (2 x)
    then show ?thesis
      using q queue_head [OF q] queue_last [OF q]
      by (simp add: ngx_queue_sort_def list_sort_def Let_def ins_back_def)
  next
    case (3 x y ys)
    have "x \<noteq> last_node h xs"
      using q 3 last_in_set [of "y # ys"] by (auto simp: is_queue_def last_node_def split: if_splits)
    moreover have "ngx_queue_next hp x = y"
      using is_queue_walk(1) [of hp h "[]" x "y # ys"] q 3 by (simp add: ngx_queue_next_def)
    ultimately show ?thesis
      using sort_loop_list [of hp h "[x]" "y # ys" cmp] q 3 queue_head [OF q] queue_last [OF q]
      by (simp add: ngx_queue_sort_def list_sort_def Let_def ins_back_def)
  qed
qed


subsection \<open>Sorted, a permutation, stable\<close>

lemma mset_ins_back: "mset (ins_back cmp xs q) = add_mset q (mset xs)"
proof -
  have "mset xs = mset (kept cmp q xs) + mset (passed cmp q xs)" by (simp flip: mset_append)
  then show ?thesis by (simp add: ins_back_def)
qed

lemma mset_list_sort: "mset (list_sort cmp xs) = mset xs"
proof -
  have "mset (foldl (ins_back cmp) acc xs) = mset acc + mset xs" for acc
    by (induction xs arbitrary: acc) (simp_all add: mset_ins_back)
  then show ?thesis by (simp add: list_sort_def)
qed

text \<open>What is asked of the comparison: it is total and transitive.\<close>

definition total_cmp :: "(nat \<Rightarrow> nat \<Rightarrow> int) \<Rightarrow> bool" where
  "total_cmp cmp \<longleftrightarrow> (\<forall>x y. cmp x y \<le> 0 \<or> cmp y x \<le> 0) \<and>
     (\<forall>x y z. cmp x y \<le> 0 \<longrightarrow> cmp y z \<le> 0 \<longrightarrow> cmp x z \<le> 0)"

lemma passed_greater: "y \<in> set (passed cmp q xs) \<Longrightarrow> cmp y q > 0"
  by (simp add: passed_def) (metis set_takeWhileD)

lemma kept_last: "kept cmp q xs \<noteq> [] \<Longrightarrow> cmp (last (kept cmp q xs)) q \<le> 0"
  by (induction xs rule: rev_induct) (auto split: if_splits)

lemma sorted_ins_back:
  assumes c: "total_cmp cmp" and s: "sorted_wrt (\<lambda>a b. cmp a b \<le> 0) xs"
  shows "sorted_wrt (\<lambda>a b. cmp a b \<le> 0) (ins_back cmp xs q)"
proof -
  let ?k = "kept cmp q xs" and ?p = "passed cmp q xs"
  have "sorted_wrt (\<lambda>a b. cmp a b \<le> 0) (?k @ ?p)" using s by simp
  note s' = this [unfolded sorted_wrt_append]
  have "cmp y q \<le> 0" if y: "y \<in> set ?k" for y
  proof -
    obtain us z where k: "?k = us @ [z]" using y by (cases ?k rule: rev_cases) auto
    then have "cmp z q \<le> 0" using kept_last [of cmp q xs] by simp
    moreover have "y = z \<or> cmp y z \<le> 0" using y s' k by (auto simp: sorted_wrt_append)
    ultimately show ?thesis using c by (auto simp: total_cmp_def)
  qed
  moreover have "cmp q y \<le> 0" if "y \<in> set ?p" for y
    using passed_greater [OF that] c unfolding total_cmp_def by (metis not_le)
  ultimately show ?thesis using s' by (auto simp: ins_back_def sorted_wrt_append)
qed

lemma sorted_list_sort:
  assumes "total_cmp cmp"
  shows "sorted_wrt (\<lambda>a b. cmp a b \<le> 0) (list_sort cmp xs)"
proof -
  have "sorted_wrt (\<lambda>a b. cmp a b \<le> 0) acc \<Longrightarrow> sorted_wrt (\<lambda>a b. cmp a b \<le> 0) (foldl (ins_back cmp) acc xs)" for acc
    by (induction xs arbitrary: acc) (simp_all add: sorted_ins_back [OF assms])
  then show ?thesis by (simp add: list_sort_def)
qed

lemma stable_ins_back:
  assumes c: "total_cmp cmp"
  shows "filter (\<lambda>y. cmp x y \<le> 0 \<and> cmp y x \<le> 0) (ins_back cmp xs q) = filter (\<lambda>y. cmp x y \<le> 0 \<and> cmp y x \<le> 0) (xs @ [q])"
proof -
  let ?P = "\<lambda>y. cmp x y \<le> 0 \<and> cmp y x \<le> 0"
  have "filter ?P xs = filter ?P (kept cmp q xs) @ filter ?P (passed cmp q xs)"
    by (simp flip: filter_append)
  moreover have "filter ?P (passed cmp q xs) = []" if "?P q"
  proof -
    have "\<not> ?P y" if "y \<in> set (passed cmp q xs)" for y
      using passed_greater [OF that] \<open>?P q\<close> c unfolding total_cmp_def by (metis not_le)
    then show ?thesis by (simp add: filter_empty_conv)
  qed
  ultimately show ?thesis by (auto simp: ins_back_def)
qed

lemma stable_list_sort:
  assumes "total_cmp cmp"
  shows "filter (\<lambda>y. cmp x y \<le> 0 \<and> cmp y x \<le> 0) (list_sort cmp xs) = filter (\<lambda>y. cmp x y \<le> 0 \<and> cmp y x \<le> 0) xs"
proof -
  let ?P = "\<lambda>y. cmp x y \<le> 0 \<and> cmp y x \<le> 0"
  have "filter ?P (foldl (ins_back cmp) acc xs) = filter ?P (acc @ xs)" for acc
  proof (induction xs arbitrary: acc)
    case (Cons q xs)
    then show ?case using stable_ins_back [OF assms, of x acc q] by simp
  qed simp
  then show ?thesis by (simp add: list_sort_def)
qed



section \<open>The interface for clients\<close>

text \<open>
  What clients with several queues rely on: an insertion and a removal are those of lists, and a
  queue with other nodes is not touched. From this follows that a node can be moved from one queue
  to another, the step every cache of connections is made of.
\<close>

locale linked_queues =
  fixes rep :: "'h \<Rightarrow> nat \<Rightarrow> nat list \<Rightarrow> bool"
    and insert_front :: "nat \<Rightarrow> nat \<Rightarrow> 'h \<Rightarrow> 'h" and unlink :: "nat \<Rightarrow> 'h \<Rightarrow> 'h"
  assumes rep_distinct: "rep hp h xs \<Longrightarrow> distinct (h # xs)"
    and insert_front: "rep hp h xs \<Longrightarrow> x \<notin> set (h # xs) \<Longrightarrow> rep (insert_front h x hp) h (x # xs)"
    and insert_front_other: "rep hp h xs \<Longrightarrow> rep hp g zs \<Longrightarrow> set (g # zs) \<inter> set (x # h # xs) = {} \<Longrightarrow>
      rep (insert_front h x hp) g zs"
    and unlink: "rep hp h (xs @ x # ys) \<Longrightarrow> rep (unlink x hp) h (xs @ ys)"
    and unlink_other: "rep hp h (xs @ x # ys) \<Longrightarrow> rep hp g zs \<Longrightarrow> set (g # zs) \<inter> set (h # xs @ x # ys) = {} \<Longrightarrow>
      rep (unlink x hp) g zs"
begin

lemma move_front:
  assumes "rep hp a (xs @ x # ys)" "rep hp b zs" "set (a # xs @ x # ys) \<inter> set (b # zs) = {}"
  shows "rep (insert_front b x (unlink x hp)) a (xs @ ys) \<and> rep (insert_front b x (unlink x hp)) b (x # zs)"
proof
  have a: "rep (unlink x hp) a (xs @ ys)" by (rule unlink [OF assms(1)])
  have b: "rep (unlink x hp) b zs" using assms by (intro unlink_other) auto
  show "rep (insert_front b x (unlink x hp)) b (x # zs)"
    using b assms(3) by (intro insert_front) auto
  show "rep (insert_front b x (unlink x hp)) a (xs @ ys)"
    using a b assms rep_distinct [OF assms(1)] by (intro insert_front_other [OF b a]) auto
qed

lemma requeue_front:
  assumes "rep hp a (xs @ x # ys)"
  shows "rep (insert_front a x (unlink x hp)) a (x # xs @ ys)"
  using unlink [OF assms] rep_distinct [OF assms] by (intro insert_front) auto

lemma requeue_front_other:
  assumes "rep hp a (xs @ x # ys)" "rep hp g zs" "set (g # zs) \<inter> set (a # xs @ x # ys) = {}"
  shows "rep (insert_front a x (unlink x hp)) g zs"
proof -
  have "rep (unlink x hp) g zs" by (rule unlink_other [OF assms])
  then show ?thesis using unlink [OF assms(1)] assms(3) by (intro insert_front_other) auto
qed

end

interpretation lq: linked_queues is_queue ngx_queue_insert_head ngx_queue_remove
proof
  fix hp h xs x g zs ys
  show "is_queue hp h xs \<Longrightarrow> distinct (h # xs)" by (simp add: is_queue_def)
  show "is_queue hp h xs \<Longrightarrow> x \<notin> set (h # xs) \<Longrightarrow> is_queue (ngx_queue_insert_head h x hp) h (x # xs)"
    by (rule queue_insert_head) simp_all
  show "is_queue (ngx_queue_insert_head h x hp) g zs"
    if "is_queue hp h xs" "is_queue hp g zs" "set (g # zs) \<inter> set (x # h # xs) = {}"
  proof (rule is_queue_cong [OF that(2)])
    fix c assume "c \<in> insert g (set zs)"
    then have "c \<notin> set (h # [] @ xs)" "c \<noteq> x" using that(3) by auto
    then show "q_next (ngx_queue_insert_head h x hp) c = q_next hp c \<and>
        q_prev (ngx_queue_insert_head h x hp) c = q_prev hp c"
      using queue_insert_frame [of hp h "[]" xs c x] that(1) by simp
  qed
  show "is_queue hp h (xs @ x # ys) \<Longrightarrow> is_queue (ngx_queue_remove x hp) h (xs @ ys)" by (rule queue_remove)
  show "is_queue (ngx_queue_remove x hp) g zs"
    if "is_queue hp h (xs @ x # ys)" "is_queue hp g zs" "set (g # zs) \<inter> set (h # xs @ x # ys) = {}"
  proof (rule is_queue_cong [OF that(2)])
    fix c assume "c \<in> insert g (set zs)"
    then have "c \<notin> set (h # xs @ ys)" using that(3) by auto
    then show "q_next (ngx_queue_remove x hp) c = q_next hp c \<and> q_prev (ngx_queue_remove x hp) c = q_prev hp c"
      using queue_remove_frame [OF that(1)] by simp
  qed
qed


section \<open>The properties\<close>

text \<open>
  C19. The intrusive queue is a list of nodes: initialisation, insertion at either end and after a
  node, removal, splitting and joining are the list operations, the emptiness test, the ends and
  the middle are those of the list, and the sort returns, leaves a sorted stable permutation of the
  nodes, and touches no node outside the queue.
\<close>

theorem queue_correct:
  assumes q: "is_queue hp h xs" and x: "x \<notin> set (h # xs)" and c: "total_cmp cmp"
  shows "is_queue (ngx_queue_init x hp) x [] \<and>
    (ngx_queue_empty hp h \<longleftrightarrow> xs = []) \<and> ngx_queue_head hp h = hd (xs @ [h]) \<and> ngx_queue_last hp h = last (h # xs) \<and>
    is_queue (ngx_queue_insert_head h x hp) h (x # xs) \<and> is_queue (ngx_queue_insert_tail h x hp) h (xs @ [x]) \<and>
    (\<forall>us vs. xs = us @ vs \<longrightarrow> is_queue (ngx_queue_insert_after (last (h # us)) x hp) h (us @ x # vs)) \<and>
    (\<forall>us y vs. xs = us @ y # vs \<longrightarrow> is_queue (ngx_queue_remove y hp) h (us @ vs)) \<and>
    (\<forall>us y vs. xs = us @ y # vs \<longrightarrow>
       is_queue (ngx_queue_split h y x hp) h us \<and> is_queue (ngx_queue_split h y x hp) x (y # vs)) \<and>
    (\<forall>n ys. is_queue hp n ys \<longrightarrow> set (h # xs) \<inter> set (n # ys) = {} \<longrightarrow> is_queue (ngx_queue_add h n hp) h (xs @ ys)) \<and>
    (xs \<noteq> [] \<longrightarrow> ngx_queue_middle hp h = Some (xs ! (length xs div 2))) \<and>
    (\<exists>hp' zs. ngx_queue_sort cmp h hp = Some hp' \<and> is_queue hp' h zs \<and> mset zs = mset xs \<and>
       sorted_wrt (\<lambda>a b. cmp a b \<le> 0) zs \<and>
       (\<forall>z. filter (\<lambda>y. cmp z y \<le> 0 \<and> cmp y z \<le> 0) zs = filter (\<lambda>y. cmp z y \<le> 0 \<and> cmp y z \<le> 0) xs) \<and>
       (\<forall>c. c \<notin> set (h # xs) \<longrightarrow> q_next hp' c = q_next hp c \<and> q_prev hp' c = q_prev hp c))"
proof -
  have after: "is_queue (ngx_queue_insert_after (last (h # us)) x hp) h (us @ x # vs)" if "xs = us @ vs" for us vs
    using queue_insert_after [of hp h us vs x] q x that by (simp add: last_node_def)
  obtain hp' where "ngx_queue_sort cmp h hp = Some hp'" "is_queue hp' h (list_sort cmp xs)"
    "\<forall>c. c \<notin> set (h # xs) \<longrightarrow> q_next hp' c = q_next hp c \<and> q_prev hp' c = q_prev hp c"
    using queue_sort_list [OF q] by blast
  then have sort: "\<exists>hp' zs. ngx_queue_sort cmp h hp = Some hp' \<and> is_queue hp' h zs \<and> mset zs = mset xs \<and>
       sorted_wrt (\<lambda>a b. cmp a b \<le> 0) zs \<and>
       (\<forall>z. filter (\<lambda>y. cmp z y \<le> 0 \<and> cmp y z \<le> 0) zs = filter (\<lambda>y. cmp z y \<le> 0 \<and> cmp y z \<le> 0) xs) \<and>
       (\<forall>c. c \<notin> set (h # xs) \<longrightarrow> q_next hp' c = q_next hp c \<and> q_prev hp' c = q_prev hp c)"
    using mset_list_sort sorted_list_sort [OF c] stable_list_sort [OF c] by blast
  show ?thesis
    using q x queue_init queue_empty [OF q] queue_head [OF q] queue_last [OF q] queue_insert_tail [OF q x]
      after queue_remove queue_split queue_add [OF q] queue_middle [OF q] sort after [of "[]"]
    by (intro conjI) (auto simp: last_node_def)
qed

text \<open>A queue of three nodes with sentinel 0, ordered by their address downwards.\<close>

definition demo_queue :: qheap where
  "demo_queue = ngx_queue_insert_tail 0 3 (ngx_queue_insert_tail 0 2 (ngx_queue_insert_tail 0 1
     (ngx_queue_init 0 \<lparr>q_prev = (\<lambda>_. 0), q_next = (\<lambda>_. 0)\<rparr>)))"

lemma demo_queue: "is_queue demo_queue 0 [1, 2, 3]"
  unfolding demo_queue_def
  using queue_insert_tail [OF queue_insert_tail [OF queue_insert_tail [OF queue_init]], of 1 0 2 3] by simp

lemma demo_cmp: "total_cmp (\<lambda>x y. int y - int x)"
  by (auto simp: total_cmp_def)

theorem queue_correct_witness:
  "ngx_queue_middle demo_queue 0 = Some 2 \<and>
   (\<exists>hp' zs. ngx_queue_sort (\<lambda>x y. int y - int x) 0 demo_queue = Some hp' \<and> is_queue hp' 0 zs \<and>
      mset zs = {#1, 2, 3#} \<and> sorted_wrt (\<lambda>a b. int b - int a \<le> 0) zs)"
  using queue_correct [OF demo_queue _ demo_cmp, of 4] by auto

end
