(* ===== verification/Ngx_Keepalive.thy ===== *)
theory Ngx_Keepalive
  imports Ngx_Queue
begin

text \<open>
  nginx, \<^verbatim>\<open>src/http/modules/ngx_http_upstream_keepalive_module.c\<close>: the cache of idle connections to
  upstream servers. Its items move between two intrusive queues, the cache and the free items;
  the module's functions are shown to implement a least-recently-used list of bounded length.
\<close>

section \<open>The module\<close>

text \<open>
  An item is the address of its queue node, with a connection and a peer address (\<^verbatim>\<open>socklen\<close> bytes of
  \<^verbatim>\<open>sockaddr\<close>). \<open>ka_data\<close> is the \<^verbatim>\<open>data\<close> pointer of a connection, \<open>ka_closed\<close> the connections closed so far.
\<close>

record keepalive =
  ka_heap :: qheap
  ka_cache :: nat
  ka_free :: nat
  ka_conn :: "nat \<Rightarrow> nat"
  ka_addr :: "nat \<Rightarrow> bytes"
  ka_data :: "nat \<Rightarrow> nat option"
  ka_closed :: "nat list"

text \<open>\<^verbatim>\<open>ngx_http_upstream_init_keepalive\<close>: the items \<open>cached\<close> go to the free queue.\<close>

definition ngx_http_upstream_init_keepalive :: "nat list \<Rightarrow> keepalive \<Rightarrow> keepalive" where
  "ngx_http_upstream_init_keepalive cached s =
     (let hp = ngx_queue_init (ka_cache s) (ka_heap s);
          hp = ngx_queue_init (ka_free s) hp;
          hp = foldl (\<lambda>hp i. ngx_queue_insert_head (ka_free s) i hp) hp cached
      in s\<lparr>ka_heap := hp\<rparr>)"

datatype get_result = Get_Rc int | Get_Ok | Get_Done nat

partial_function (option) keepalive_search :: "keepalive \<Rightarrow> bytes \<Rightarrow> nat \<Rightarrow> nat option option" where
  "keepalive_search s sockaddr q =
     (if q = ka_cache s then Some None
      else if ka_addr s q = sockaddr then Some (Some q)
      else keepalive_search s sockaddr (ngx_queue_next (ka_heap s) q))"

text \<open>\<open>rc\<close> is what the balancer answered, and \<open>sockaddr\<close> the peer it chose.\<close>

definition ngx_http_upstream_get_keepalive_peer ::
  "int \<Rightarrow> bytes \<Rightarrow> keepalive \<Rightarrow> (keepalive \<times> get_result) option" where
  "ngx_http_upstream_get_keepalive_peer rc sockaddr s =
     (if rc \<noteq> 0 then Some (s, Get_Rc rc)
      else
        case keepalive_search s sockaddr (ngx_queue_head (ka_heap s) (ka_cache s)) of
          None \<Rightarrow> None
        | Some None \<Rightarrow> Some (s, Get_Ok)
        | Some (Some q) \<Rightarrow>
            let c = ka_conn s q;
                hp = ngx_queue_remove q (ka_heap s);
                hp = ngx_queue_insert_head (ka_free s) q hp
            in Some (s\<lparr>ka_heap := hp, ka_data := (ka_data s)(c := None)\<rparr>, Get_Done c))"

definition ngx_http_upstream_keepalive_close :: "nat \<Rightarrow> keepalive \<Rightarrow> keepalive" where
  "ngx_http_upstream_keepalive_close c s = s\<lparr>ka_closed := ka_closed s @ [c]\<rparr>"

text \<open>
  The read handler of an idle connection. \<open>closing\<close>: \<^verbatim>\<open>c->close || c->read->timedout\<close>; \<open>again\<close>: the peek at
  the socket found nothing to read; \<open>armed\<close>: \<^verbatim>\<open>ngx_handle_read_event\<close> succeeded.
\<close>

definition ngx_http_upstream_keepalive_close_handler ::
  "bool \<Rightarrow> bool \<Rightarrow> bool \<Rightarrow> nat \<Rightarrow> keepalive \<Rightarrow> keepalive option" where
  "ngx_http_upstream_keepalive_close_handler closing again armed c s =
     (if \<not> closing \<and> again \<and> armed then Some s
      else
        case ka_data s c of
          None \<Rightarrow> None
        | Some item \<Rightarrow>
            let s = ngx_http_upstream_keepalive_close c s;
                hp = ngx_queue_remove item (ka_heap s);
                hp = ngx_queue_insert_head (ka_free s) item hp
            in Some (s\<lparr>ka_heap := hp\<rparr>))"

text \<open>What \<^verbatim>\<open>ngx_http_upstream_free_keepalive_peer\<close> looks at.\<close>

record peer_end =
  pe_failed :: bool
  pe_connection :: "nat option"
  pe_broken :: bool
  pe_requests :: nat
  pe_start_time :: u64
  pe_keepalive :: bool
  pe_body_sent :: bool
  pe_exiting :: bool
  pe_armed :: bool
  pe_ready :: bool
  pe_closing :: bool
  pe_again :: bool
  pe_rearmed :: bool

record keepalive_conf =
  kc_requests :: nat
  kc_time :: u64

definition keepalive_valid :: "keepalive_conf \<Rightarrow> u64 \<Rightarrow> peer_end \<Rightarrow> bool" where
  "keepalive_valid conf now pe \<longleftrightarrow>
     \<not> (pe_failed pe \<or> pe_connection pe = None \<or> pe_broken pe) \<and>
     \<not> pe_requests pe \<ge> kc_requests conf \<and>
     \<not> now - pe_start_time pe > kc_time conf \<and>
     pe_keepalive pe \<and> pe_body_sent pe \<and> \<not> pe_exiting pe \<and> pe_armed pe"

text \<open>The connection that stays with the caller is the second result.\<close>

definition ngx_http_upstream_free_keepalive_peer ::
  "keepalive_conf \<Rightarrow> u64 \<Rightarrow> peer_end \<Rightarrow> bytes \<Rightarrow> keepalive \<Rightarrow> (keepalive \<times> nat option) option" where
  "ngx_http_upstream_free_keepalive_peer conf now pe sockaddr s =
     (if \<not> keepalive_valid conf now pe then Some (s, pe_connection pe)
      else
        let c = the (pe_connection pe);
            (q, s) = (if ngx_queue_empty (ka_heap s) (ka_free s) then
                        let q = ngx_queue_last (ka_heap s) (ka_cache s);
                            s = s\<lparr>ka_heap := ngx_queue_remove q (ka_heap s)\<rparr>
                        in (q, ngx_http_upstream_keepalive_close (ka_conn s q) s)
                      else
                        let q = ngx_queue_head (ka_heap s) (ka_free s)
                        in (q, s\<lparr>ka_heap := ngx_queue_remove q (ka_heap s)\<rparr>));
            s = s\<lparr>ka_heap := ngx_queue_insert_head (ka_cache s) q (ka_heap s),
                  ka_conn := (ka_conn s)(q := c),
                  ka_data := (ka_data s)(c := Some q),
                  ka_addr := (ka_addr s)(q := sockaddr)\<rparr>
        in if pe_ready pe then
             map_option (\<lambda>s. (s, None))
               (ngx_http_upstream_keepalive_close_handler (pe_closing pe) (pe_again pe) (pe_rearmed pe) c s)
           else Some (s, None))"


section \<open>The list it implements\<close>

text \<open>The idle connections with their addresses, the last saved in front, and the closed ones.\<close>

type_synonym lru = "(nat \<times> bytes) list"

definition lru_get :: "bytes \<Rightarrow> lru \<Rightarrow> nat option" where
  "lru_get a L = map_option fst (find (\<lambda>e. snd e = a) L)"

definition lru_remove :: "nat \<Rightarrow> lru \<Rightarrow> lru" where
  "lru_remove c L = filter (\<lambda>e. fst e \<noteq> c) L"

definition lru_save :: "nat \<Rightarrow> nat \<Rightarrow> bytes \<Rightarrow> lru \<Rightarrow> lru" where
  "lru_save m c a L = (c, a) # (if length L = m then butlast L else L)"

definition lru_evicted :: "nat \<Rightarrow> lru \<Rightarrow> nat list" where
  "lru_evicted m L = (if length L = m then [fst (last L)] else [])"

text \<open>The state stands for \<open>L\<close>, with room for \<open>m\<close> items.\<close>

definition entry :: "keepalive \<Rightarrow> nat \<Rightarrow> nat \<times> bytes" where
  "entry s i = (ka_conn s i, ka_addr s i)"

definition ka_rep :: "nat \<Rightarrow> keepalive \<Rightarrow> lru \<Rightarrow> bool" where
  "ka_rep m s L \<longleftrightarrow>
     (\<exists>xs fs. is_queue (ka_heap s) (ka_cache s) xs \<and> is_queue (ka_heap s) (ka_free s) fs \<and>
        set (ka_cache s # xs) \<inter> set (ka_free s # fs) = {} \<and> length xs + length fs = m \<and>
        L = map (entry s) xs \<and> distinct (map fst L) \<and> (\<forall>i\<in>set xs. ka_data s (ka_conn s i) = Some i))"


lemma ka_closed_same [simp]: "s\<lparr>ka_closed := ka_closed s\<rparr> = s"
  by (cases s) simp

lemma ka_repI:
  assumes "is_queue (ka_heap s) (ka_cache s) xs" "is_queue (ka_heap s) (ka_free s) fs"
    "set (ka_cache s # xs) \<inter> set (ka_free s # fs) = {}" "length xs + length fs = m"
    "map (entry s) xs = L" "distinct (map fst L)" "\<And>i. i \<in> set xs \<Longrightarrow> ka_data s (ka_conn s i) = Some i"
  shows "ka_rep m s L"
  unfolding ka_rep_def using assms by blast

section \<open>Set up and look up\<close>

lemma init_rep:
  assumes "distinct (ka_cache s # ka_free s # cached)"
  shows "ka_rep (length cached) (ngx_http_upstream_init_keepalive cached s) []"
proof -
  define ins where "ins hp = foldl (\<lambda>hp i. ngx_queue_insert_head (ka_free s) i hp) hp" for hp
  have ins: "is_queue (ins hp is) (ka_free s) (rev is @ fs) \<and> is_queue (ins hp is) (ka_cache s) []"
    if "is_queue hp (ka_free s) fs" "is_queue hp (ka_cache s) []" "distinct (ka_cache s # ka_free s # fs @ is)"
    for hp fs "is"
    using that
  proof (induction "is" arbitrary: hp fs)
    case (Cons i "is")
    have "is_queue (ngx_queue_insert_head (ka_free s) i hp) (ka_free s) (i # fs)"
      using Cons.prems by (intro lq.insert_front) auto
    moreover have "is_queue (ngx_queue_insert_head (ka_free s) i hp) (ka_cache s) []"
      using Cons.prems by (intro lq.insert_front_other [OF Cons.prems(1,2)]) auto
    ultimately show ?case
      using Cons.IH [of "ngx_queue_insert_head (ka_free s) i hp" "i # fs"] Cons.prems(3) by (auto simp: ins_def)
  qed (simp add: ins_def)
  let ?hp = "ngx_queue_init (ka_free s) (ngx_queue_init (ka_cache s) (ka_heap s))"
  have "is_queue ?hp (ka_free s) []" by (rule queue_init)
  moreover have "is_queue ?hp (ka_cache s) []"
    using assms by (intro is_queue_cong [OF queue_init]) (auto simp: ngx_queue_init_def Let_def)
  ultimately have "is_queue (ins ?hp cached) (ka_free s) (rev cached) \<and> is_queue (ins ?hp cached) (ka_cache s) []"
    using ins [of ?hp "[]" cached] assms by simp
  then show ?thesis
    using assms
    by (intro ka_repI [of _ "[]" "rev cached"])
      (auto simp: ngx_http_upstream_init_keepalive_def Let_def ins_def)
qed

lemma keepalive_search_find:
  assumes "is_queue (ka_heap s) (ka_cache s) (us @ ys)"
  shows "keepalive_search s a (hd (ys @ [ka_cache s])) = Some (find (\<lambda>i. ka_addr s i = a) ys)"
  using assms
proof (induction ys arbitrary: us)
  case Nil
  then show ?case by (simp add: keepalive_search.simps)
next
  case (Cons y ys)
  have "y \<noteq> ka_cache s" using Cons.prems by (auto simp: is_queue_def)
  then show ?case
    using Cons.IH [of "us @ [y]"] Cons.prems is_queue_walk(1) [OF Cons.prems]
    by (simp add: keepalive_search.simps [of s a y] ngx_queue_next_def)
qed

lemma lru_remove_middle:
  "distinct (map fst (xs @ (c, a) # ys)) \<Longrightarrow> lru_remove c (xs @ (c, a) # ys) = xs @ ys"
proof -
  assume "distinct (map fst (xs @ (c, a) # ys))"
  then have "\<forall>e\<in>set xs. fst e \<noteq> c" "\<forall>e\<in>set ys. fst e \<noteq> c" by force+
  then show ?thesis by (simp add: lru_remove_def)
qed

text \<open>An item leaves the cache.\<close>

lemma item_to_free:
  assumes xs: "is_queue (ka_heap s) (ka_cache s) (us @ q # vs)" and fs: "is_queue (ka_heap s) (ka_free s) fs"
    and disj: "set (ka_cache s # us @ q # vs) \<inter> set (ka_free s # fs) = {}"
    and m: "length (us @ q # vs) + length fs = m" and L: "L = map (entry s) (us @ q # vs)" "distinct (map fst L)"
    and data: "\<forall>i\<in>set (us @ q # vs). ka_data s (ka_conn s i) = Some i"
    and s': "s' = s\<lparr>ka_closed := cl, ka_heap := ngx_queue_insert_head (ka_free s) q (ngx_queue_remove q (ka_heap s)),
      ka_data := d\<rparr>"
    and d: "\<And>c. c \<noteq> ka_conn s q \<Longrightarrow> d c = ka_data s c"
  shows "ka_rep m s' (lru_remove (ka_conn s q) L)"
proof (rule ka_repI [of _ "us @ vs" "q # fs"])
  note mv = lq.move_front [OF xs fs disj]
  show "is_queue (ka_heap s') (ka_cache s') (us @ vs)" "is_queue (ka_heap s') (ka_free s') (q # fs)"
    using mv by (simp_all add: s')
  show "set (ka_cache s' # us @ vs) \<inter> set (ka_free s' # q # fs) = {}"
    using disj lq.rep_distinct [OF xs] by (auto simp: s')
  show "map (entry s') (us @ vs) = lru_remove (ka_conn s q) L"
    using L lru_remove_middle [of "map (entry s) us" "ka_conn s q" "ka_addr s q" "map (entry s) vs"]
    by (simp add: s' entry_def)
  show "distinct (map fst (lru_remove (ka_conn s q) L))"
    using L(2) by (auto simp: lru_remove_def distinct_map intro: inj_on_subset)
  show "ka_data s' (ka_conn s' i) = Some i" if "i \<in> set (us @ vs)" for i
  proof -
    have "ka_conn s q \<notin> ka_conn s ` set (us @ vs)" using L by (simp add: entry_def image_image) blast
    then have "ka_conn s i \<noteq> ka_conn s q" using that by (metis imageI)
    then show ?thesis using that data d by (auto simp: s')
  qed
qed (use m in simp)

lemma lru_get_find: "lru_get a (map (entry s) xs) = map_option (ka_conn s) (find (\<lambda>i. ka_addr s i = a) xs)"
  by (induction xs) (simp_all add: lru_get_def entry_def)

lemma get_peer_lru:
  assumes "ka_rep m s L"
  shows "\<exists>s'. ngx_http_upstream_get_keepalive_peer 0 a s =
      Some (s', case lru_get a L of None \<Rightarrow> Get_Ok | Some c \<Rightarrow> Get_Done c) \<and>
    ka_rep m s' (case lru_get a L of None \<Rightarrow> L | Some c \<Rightarrow> lru_remove c L) \<and> ka_closed s' = ka_closed s"
proof -
  obtain xs fs where r: "is_queue (ka_heap s) (ka_cache s) xs" "is_queue (ka_heap s) (ka_free s) fs"
    "set (ka_cache s # xs) \<inter> set (ka_free s # fs) = {}" "length xs + length fs = m"
    "L = map (entry s) xs" "distinct (map fst L)" "\<forall>i\<in>set xs. ka_data s (ka_conn s i) = Some i"
    using assms unfolding ka_rep_def by blast
  have search: "keepalive_search s a (ngx_queue_head (ka_heap s) (ka_cache s)) = Some (find (\<lambda>i. ka_addr s i = a) xs)"
    using keepalive_search_find [of s "[]" xs a] r(1) queue_head [OF r(1)] by simp
  show ?thesis
  proof (cases "find (\<lambda>i. ka_addr s i = a) xs")
    case None
    then show ?thesis
      using assms search r(5) by (simp add: ngx_http_upstream_get_keepalive_peer_def lru_get_find)
  next
    case (Some q)
    then obtain us vs where xs: "xs = us @ q # vs"
      by (metis find_Some_iff in_set_conv_decomp nth_mem)
    let ?hp = "ngx_queue_insert_head (ka_free s) q (ngx_queue_remove q (ka_heap s))"
    have "ka_rep m (s\<lparr>ka_closed := ka_closed s, ka_heap := ?hp, ka_data := (ka_data s)(ka_conn s q := None)\<rparr>)
        (lru_remove (ka_conn s q) L)"
      using r unfolding xs by (intro item_to_free [OF _ _ _ _ _ _ _ refl]) auto
    then show ?thesis
      using search Some r(5) by (simp add: ngx_http_upstream_get_keepalive_peer_def lru_get_find Let_def)
  qed
qed



section \<open>Close and save\<close>

lemma close_handler_lru:
  assumes "ka_rep m s L" "c \<in> fst ` set L"
  shows "\<exists>s'. ngx_http_upstream_keepalive_close_handler closing again armed c s = Some s' \<and>
    (if \<not> closing \<and> again \<and> armed then s' = s
     else ka_rep m s' (lru_remove c L) \<and> ka_closed s' = ka_closed s @ [c])"
proof -
  obtain xs fs where r: "is_queue (ka_heap s) (ka_cache s) xs" "is_queue (ka_heap s) (ka_free s) fs"
    "set (ka_cache s # xs) \<inter> set (ka_free s # fs) = {}" "length xs + length fs = m"
    "L = map (entry s) xs" "distinct (map fst L)" "\<forall>i\<in>set xs. ka_data s (ka_conn s i) = Some i"
    using assms(1) unfolding ka_rep_def by blast
  obtain q where q: "q \<in> set xs" "c = ka_conn s q" using assms(2) r(5) by (auto simp: entry_def)
  obtain us vs where xs: "xs = us @ q # vs" using q(1) by (meson split_list)
  let ?hp = "ngx_queue_insert_head (ka_free s) q (ngx_queue_remove q (ka_heap s))"
  have "ka_rep m (s\<lparr>ka_closed := ka_closed s @ [c], ka_heap := ?hp, ka_data := ka_data s\<rparr>) (lru_remove (ka_conn s q) L)"
    using r unfolding xs by (intro item_to_free [OF _ _ _ _ _ _ _ refl]) auto
  then show ?thesis
    using r(7) q
    by (simp add: ngx_http_upstream_keepalive_close_handler_def ngx_http_upstream_keepalive_close_def Let_def)
qed

text \<open>An item \<open>q\<close> comes to the front of the cache with a new connection.\<close>

lemma item_to_front:
  assumes q: "is_queue hp (ka_cache s) (q # xs)" "is_queue hp (ka_free s) fs"
    and disj: "set (ka_cache s # q # xs) \<inter> set (ka_free s # fs) = {}" and m: "length (q # xs) + length fs = m"
    and L: "distinct (map fst (map (entry s) xs))" "c \<notin> fst ` set (map (entry s) xs)"
    and data: "\<forall>i\<in>set xs. ka_data s (ka_conn s i) = Some i"
    and s': "s' = s\<lparr>ka_closed := cl, ka_heap := hp, ka_conn := (ka_conn s)(q := c), ka_data := (ka_data s)(c := Some q),
      ka_addr := (ka_addr s)(q := a)\<rparr>"
  shows "ka_rep m s' ((c, a) # map (entry s) xs)"
proof (rule ka_repI [of _ "q # xs" fs])
  have qx: "q \<notin> set xs" using lq.rep_distinct [OF q(1)] by simp
  have old: "entry s' i = entry s i" "ka_conn s i \<noteq> c" if "i \<in> set xs" for i
    using that qx L(2) by (auto simp: s' entry_def image_iff)
  show "map (entry s') (q # xs) = (c, a) # map (entry s) xs"
    using old(1) by (simp add: s' entry_def)
  show "ka_data s' (ka_conn s' i) = Some i" if "i \<in> set (q # xs)" for i
    using that old(2) [of i] qx data by (auto simp: s')
qed (use q disj m L in \<open>simp_all add: s' image_image\<close>)

lemma free_peer_lru:
  assumes rep: "ka_rep m s L" and m: "0 < m" and v: "keepalive_valid conf now pe" and c: "pe_connection pe = Some c"
    and new: "c \<notin> fst ` set L"
  defines "gone \<equiv> pe_ready pe \<and> \<not> (\<not> pe_closing pe \<and> pe_again pe \<and> pe_rearmed pe)"
  shows "\<exists>s'. ngx_http_upstream_free_keepalive_peer conf now pe a s = Some (s', None) \<and>
    ka_rep m s' (if gone then lru_remove c (lru_save m c a L) else lru_save m c a L) \<and>
    ka_closed s' = ka_closed s @ lru_evicted m L @ (if gone then [c] else [])"
proof -
  obtain xs fs where r: "is_queue (ka_heap s) (ka_cache s) xs" "is_queue (ka_heap s) (ka_free s) fs"
    "set (ka_cache s # xs) \<inter> set (ka_free s # fs) = {}" "length xs + length fs = m"
    "L = map (entry s) xs" "distinct (map fst L)" "\<forall>i\<in>set xs. ka_data s (ka_conn s i) = Some i"
    using rep unfolding ka_rep_def by blast
  define upd where "upd q hp cl = s\<lparr>ka_closed := cl, ka_heap := hp, ka_conn := (ka_conn s)(q := c),
      ka_data := (ka_data s)(c := Some q), ka_addr := (ka_addr s)(q := a)\<rparr>" for q hp cl
  define q where "q = (if fs = [] then last xs else hd fs)"
  define cl where "cl = ka_closed s @ lru_evicted m L"
  define hp where "hp = ngx_queue_insert_head (ka_cache s) q (ngx_queue_remove q (ka_heap s))"
  have saved: "ka_rep m (upd q hp cl) (lru_save m c a L)"
  proof (cases fs)
    case Nil
    then have ne: "xs \<noteq> []" and len: "length L = m" using r(4,5) m by auto
    then obtain us where xs: "xs = us @ [q]" using Nil by (metis q_def append_butlast_last_id)
    have "is_queue hp (ka_cache s) (q # us)" "is_queue hp (ka_free s) []"
      unfolding hp_def using lq.requeue_front [of "ka_heap s" "ka_cache s" us q "[]"]
        lq.requeue_front_other [of "ka_heap s" "ka_cache s" us q "[]" "ka_free s" "[]"] r Nil xs by auto
    then have "ka_rep m (upd q hp cl) ((c, a) # map (entry s) us)"
      using r new Nil unfolding xs upd_def by (intro item_to_front [where fs = "[]"]) auto
    then show ?thesis using len r(5) by (simp add: lru_save_def xs)
  next
    case (Cons f fs')
    then have len: "length L < m" and q: "q = f" using r(4,5) by (auto simp: q_def)
    have "is_queue hp (ka_cache s) (q # xs)" "is_queue hp (ka_free s) fs'"
      unfolding hp_def using lq.move_front [of "ka_heap s" "ka_free s" "[]" q fs' "ka_cache s" xs] r Cons q by auto
    moreover have "set (ka_cache s # q # xs) \<inter> set (ka_free s # fs') = {}"
      using r(3) lq.rep_distinct [OF r(2)] Cons q by auto
    ultimately have "ka_rep m (upd q hp cl) ((c, a) # map (entry s) xs)"
      using r new Cons unfolding upd_def by (intro item_to_front [where fs = fs']) auto
    then show ?thesis using len r(5) by (simp add: lru_save_def)
  qed
  have ev: "(if fs = [] then ka_closed s @ [ka_conn s q] else ka_closed s) = cl"
    using r(4,5) m by (auto simp: cl_def lru_evicted_def q_def last_map entry_def)
  have "ngx_queue_empty (ka_heap s) (ka_free s) \<longleftrightarrow> fs = []" "ngx_queue_head (ka_heap s) (ka_free s) = hd (fs @ [ka_free s])"
    "ngx_queue_last (ka_heap s) (ka_cache s) = last_node (ka_cache s) xs"
    using queue_empty [OF r(2)] queue_head [OF r(2)] queue_last [OF r(1)] by simp_all
  then have "ngx_http_upstream_free_keepalive_peer conf now pe a s =
      (if pe_ready pe then map_option (\<lambda>s. (s, None))
         (ngx_http_upstream_keepalive_close_handler (pe_closing pe) (pe_again pe) (pe_rearmed pe) c (upd q hp cl))
       else Some (upd q hp cl, None))"
    using v c r(4) m ev
    by (auto simp: ngx_http_upstream_free_keepalive_peer_def ngx_http_upstream_keepalive_close_def Let_def
        q_def last_node_def hp_def upd_def hd_append)
  moreover have "c \<in> fst ` set (lru_save m c a L)" by (simp add: lru_save_def)
  ultimately show ?thesis
    using close_handler_lru [OF saved, of c "pe_closing pe" "pe_again pe" "pe_rearmed pe"] saved
    by (auto simp: gone_def upd_def cl_def)
qed



section \<open>Runs of the module\<close>

text \<open>The calls the rest of the server makes, with what they find in the connections.\<close>

datatype ka_op = Op_Get bytes | Op_Free u64 peer_end bytes | Op_Close bool bool bool nat

fun ka_step :: "keepalive_conf \<Rightarrow> ka_op \<Rightarrow> keepalive \<Rightarrow> keepalive option" where
  "ka_step conf (Op_Get a) s = map_option fst (ngx_http_upstream_get_keepalive_peer 0 a s)"
| "ka_step conf (Op_Free now pe a) s = map_option fst (ngx_http_upstream_free_keepalive_peer conf now pe a s)"
| "ka_step conf (Op_Close closing again armed c) s =
     ngx_http_upstream_keepalive_close_handler closing again armed c s"

fun ka_run :: "keepalive_conf \<Rightarrow> ka_op list \<Rightarrow> keepalive \<Rightarrow> keepalive option" where
  "ka_run conf [] s = Some s"
| "ka_run conf (op # ops) s = (case ka_step conf op s of None \<Rightarrow> None | Some s \<Rightarrow> ka_run conf ops s)"

text \<open>The same calls on the list, with the connections closed.\<close>

fun lru_step :: "nat \<Rightarrow> keepalive_conf \<Rightarrow> ka_op \<Rightarrow> lru \<Rightarrow> lru \<times> nat list" where
  "lru_step m conf (Op_Get a) L = (case lru_get a L of None \<Rightarrow> (L, []) | Some c \<Rightarrow> (lru_remove c L, []))"
| "lru_step m conf (Op_Free now pe a) L =
     (if keepalive_valid conf now pe then
        let c = the (pe_connection pe); L' = lru_save m c a L in
        if pe_ready pe \<and> \<not> (\<not> pe_closing pe \<and> pe_again pe \<and> pe_rearmed pe)
        then (lru_remove c L', lru_evicted m L @ [c]) else (L', lru_evicted m L)
      else (L, []))"
| "lru_step m conf (Op_Close closing again armed c) L =
     (if \<not> closing \<and> again \<and> armed then (L, []) else (lru_remove c L, [c]))"

fun lru_run :: "nat \<Rightarrow> keepalive_conf \<Rightarrow> ka_op list \<Rightarrow> lru \<Rightarrow> lru \<times> nat list" where
  "lru_run m conf [] L = (L, [])"
| "lru_run m conf (op # ops) L =
     (let (L, cl) = lru_step m conf op L; (L, cl') = lru_run m conf ops L in (L, cl @ cl'))"

text \<open>
  A connection that is handed in is in use and not idle, and the read handler is that of an idle
  connection.
\<close>

fun op_ok :: "keepalive_conf \<Rightarrow> lru \<Rightarrow> ka_op \<Rightarrow> bool" where
  "op_ok conf L (Op_Get a) \<longleftrightarrow> True"
| "op_ok conf L (Op_Free now pe a) \<longleftrightarrow> keepalive_valid conf now pe \<longrightarrow> the (pe_connection pe) \<notin> fst ` set L"
| "op_ok conf L (Op_Close closing again armed c) \<longleftrightarrow> c \<in> fst ` set L"

fun ops_ok :: "nat \<Rightarrow> keepalive_conf \<Rightarrow> lru \<Rightarrow> ka_op list \<Rightarrow> bool" where
  "ops_ok m conf L [] \<longleftrightarrow> True"
| "ops_ok m conf L (op # ops) \<longleftrightarrow> op_ok conf L op \<and> ops_ok m conf (fst (lru_step m conf op L)) ops"

lemma ka_step_lru:
  assumes "ka_rep m s L" "0 < m" "op_ok conf L op"
  shows "\<exists>s'. ka_step conf op s = Some s' \<and> ka_rep m s' (fst (lru_step m conf op L)) \<and>
    ka_closed s' = ka_closed s @ snd (lru_step m conf op L)"
proof (cases op)
  case (Op_Get a)
  then show ?thesis
    using get_peer_lru [OF assms(1), of a] by (auto split: option.splits)
next
  case (Op_Free now pe a)
  show ?thesis
  proof (cases "keepalive_valid conf now pe")
    case True
    then obtain c where c: "pe_connection pe = Some c" by (auto simp: keepalive_valid_def)
    then have "c \<notin> fst ` set L" using assms(3) Op_Free True by simp
    from free_peer_lru [OF assms(1,2) True c this, of a] show ?thesis
      using True Op_Free c
      by (cases "pe_ready pe \<and> \<not> (\<not> pe_closing pe \<and> pe_again pe \<and> pe_rearmed pe)") (auto simp: Let_def)
  next
    case False
    then show ?thesis using Op_Free assms(1) by (simp add: ngx_http_upstream_free_keepalive_peer_def)
  qed
next
  case (Op_Close closing again armed c)
  then show ?thesis
    using close_handler_lru [OF assms(1), of c closing again armed] assms by auto
qed

lemma ka_run_lru:
  "ka_rep m s L \<Longrightarrow> 0 < m \<Longrightarrow> ops_ok m conf L ops \<Longrightarrow>
    \<exists>s'. ka_run conf ops s = Some s' \<and> ka_rep m s' (fst (lru_run m conf ops L)) \<and>
      ka_closed s' = ka_closed s @ snd (lru_run m conf ops L)"
proof (induction ops arbitrary: s L)
  case (Cons op ops)
  obtain s1 where s1: "ka_step conf op s = Some s1" "ka_rep m s1 (fst (lru_step m conf op L))"
      "ka_closed s1 = ka_closed s @ snd (lru_step m conf op L)"
    using ka_step_lru [OF Cons.prems(1,2)] Cons.prems(3) by auto
  then show ?case
    using Cons.IH [OF s1(2) Cons.prems(2)] Cons.prems(3) by (auto simp: split_beta Let_def)
qed simp

lemma ka_rep_bounds: "ka_rep m s L \<Longrightarrow> length L \<le> m \<and> distinct (map fst L)"
  by (auto simp: ka_rep_def)

text \<open>
  C17. The cache of idle upstream connections behaves as a least-recently-used list. After any
  sequence of look-ups, releases and read events on idle connections, starting from a fresh
  cache, the two linked queues are intact and stand for the list obtained by the list operations:
  a look-up takes the last saved connection to that address, a release saves a sound connection in
  front and closes the oldest when the cache is full, a connection that failed or became readable
  is closed and leaves. The connections closed are exactly those of the list, no connection is
  cached twice, and there are never more than the configured number.
\<close>

theorem keepalive_refines_lru:
  assumes "distinct (ka_cache s # ka_free s # cached)" "cached \<noteq> []" "ops_ok (length cached) conf [] ops"
  shows "\<exists>s'. ka_run conf ops (ngx_http_upstream_init_keepalive cached s) = Some s' \<and>
    ka_rep (length cached) s' (fst (lru_run (length cached) conf ops [])) \<and>
    ka_closed s' = ka_closed s @ snd (lru_run (length cached) conf ops []) \<and>
    length (fst (lru_run (length cached) conf ops [])) \<le> length cached \<and>
    distinct (map fst (fst (lru_run (length cached) conf ops [])))"
proof -
  have "ka_closed (ngx_http_upstream_init_keepalive cached s) = ka_closed s"
    by (simp add: ngx_http_upstream_init_keepalive_def Let_def)
  then show ?thesis
    using ka_run_lru [OF init_rep [OF assms(1)] _ assms(3)] assms(2) ka_rep_bounds by fastforce
qed

definition demo_keepalive :: keepalive where
  "demo_keepalive = \<lparr>ka_heap = \<lparr>q_prev = (\<lambda>_. 0), q_next = (\<lambda>_. 0)\<rparr>, ka_cache = 0, ka_free = 1,
     ka_conn = (\<lambda>_. 0), ka_addr = (\<lambda>_. []), ka_data = (\<lambda>_. None), ka_closed = []\<rparr>"

definition demo_end_of :: "nat \<Rightarrow> peer_end" where
  "demo_end_of c = \<lparr>pe_failed = False, pe_connection = Some c, pe_broken = False, pe_requests = 1,
     pe_start_time = 0, pe_keepalive = True, pe_body_sent = True, pe_exiting = False, pe_armed = True,
     pe_ready = False, pe_closing = False, pe_again = False, pe_rearmed = False\<rparr>"

text \<open>Three connections are saved in a cache of two items; the first is closed, the second is found again.\<close>

definition demo_ops :: "ka_op list" where
  "demo_ops = [Op_Free 5 (demo_end_of 7) [1], Op_Free 5 (demo_end_of 8) [2], Op_Free 5 (demo_end_of 9) [1], Op_Get [2]]"

theorem keepalive_refines_lru_witness:
  "\<exists>s'. ka_run \<lparr>kc_requests = 100, kc_time = 1000\<rparr> demo_ops (ngx_http_upstream_init_keepalive [2, 3] demo_keepalive) = Some s' \<and>
     ka_rep 2 s' [(9, [1])] \<and> ka_closed s' = [7]"
proof -
  have "lru_run 2 \<lparr>kc_requests = 100, kc_time = 1000\<rparr> demo_ops [] = ([(9, [1])], [7])"
    and "ops_ok 2 \<lparr>kc_requests = 100, kc_time = 1000\<rparr> [] demo_ops"
    by code_simp+
  then show ?thesis
    using keepalive_refines_lru [of demo_keepalive "[2, 3]" "\<lparr>kc_requests = 100, kc_time = 1000\<rparr>" demo_ops]
    by (simp add: demo_keepalive_def numeral_2_eq_2)
qed

end
