(* ===== verification/Ngx_Request.thy ===== *)
theory Ngx_Request
  imports Ngx_Complex_Uri
begin

text \<open>
  nginx, \<^verbatim>\<open>ngx_http_parse_request_line\<close> of \<^verbatim>\<open>src/http/ngx_http_parse.c\<close>: the state machine that reads the first
  line of a request. It keeps pointers into the buffer and may stop after any byte to be called
  again when more has arrived. The machine is shown to accept exactly a grammar of request lines,
  with every pointer where the grammar says.
\<close>

section \<open>Bytes and classes of bytes\<close>

abbreviation c_space :: u8 where "c_space \<equiv> 0x20"
abbreviation c_cr :: u8 where "c_cr \<equiv> 0x0d"
abbreviation c_lf :: u8 where "c_lf \<equiv> 0x0a"
abbreviation c_colon :: u8 where "c_colon \<equiv> 0x3a"

definition ascii :: "string \<Rightarrow> bytes" where
  "ascii s = map of_char s"

definition is_method :: "u8 \<Rightarrow> bool" where
  "is_method ch \<longleftrightarrow> \<not> ((ch < 0x41 \<or> ch > 0x5a) \<and> ch \<noteq> 0x5f \<and> ch \<noteq> 0x2d)"

definition is_alpha :: "u8 \<Rightarrow> bool" where
  "is_alpha ch \<longleftrightarrow> (let c = ch OR 0x20 in c \<ge> 0x61 \<and> c \<le> 0x7a)"

definition is_digit :: "u8 \<Rightarrow> bool" where
  "is_digit ch \<longleftrightarrow> ch \<ge> 0x30 \<and> ch \<le> 0x39"


section \<open>The state machine\<close>

datatype req_state =
    sw_start | sw_method | sw_spaces_before_uri | sw_schema | sw_schema_slash | sw_schema_slash_slash
  | sw_host_start | sw_host | sw_host_end | sw_host_ip_literal | sw_port | sw_after_slash_in_uri
  | sw_check_uri | sw_uri | sw_http_09 | sw_http_H | sw_http_HT | sw_http_HTT | sw_http_HTTP
  | sw_first_major_digit | sw_major_digit | sw_first_minor_digit | sw_minor_digit
  | sw_spaces_after_digit | sw_almost_done

text \<open>
  The fields of \<^verbatim>\<open>ngx_http_request_t\<close> the machine works on. A pointer is an offset into the buffer,
  \<^const>\<open>None\<close> for \<^verbatim>\<open>NULL\<close>; \<open>rq_start\<close> is set before anything reads it.
\<close>

record request =
  rq_state :: req_state
  rq_start :: nat
  rq_end :: "nat option"
  rq_method :: nat
  rq_method_end :: "nat option"
  rq_schema_start :: "nat option"
  rq_schema_end :: "nat option"
  rq_host_start :: "nat option"
  rq_host_end :: "nat option"
  rq_port_end :: "nat option"
  rq_uri_start :: "nat option"
  rq_uri_end :: "nat option"
  rq_uri_ext :: "nat option"
  rq_args_start :: "nat option"
  rq_protocol :: "nat option"
  rq_http_major :: u16
  rq_http_minor :: u16
  rq_http_version :: nat
  rq_complex_uri :: bool
  rq_quoted_uri :: bool
  rq_plus_in_uri :: bool
  rq_empty_path_in_uri :: bool

datatype parse_rc =
    NGX_OK | NGX_AGAIN | NGX_HTTP_PARSE_INVALID_METHOD | NGX_HTTP_PARSE_INVALID_REQUEST
  | NGX_HTTP_PARSE_INVALID_VERSION | NGX_HTTP_PARSE_INVALID_09_METHOD

text \<open>What one character does: go on in a state, jump to \<^verbatim>\<open>done\<close>, or return an error.\<close>

datatype req_step = Next req_state request | Finish request | Fail parse_rc request

definition NGX_HTTP_UNKNOWN :: nat where "NGX_HTTP_UNKNOWN = 0x1"
definition NGX_HTTP_GET :: nat where "NGX_HTTP_GET = 0x2"
definition NGX_HTTP_HEAD :: nat where "NGX_HTTP_HEAD = 0x4"
definition NGX_HTTP_POST :: nat where "NGX_HTTP_POST = 0x8"
definition NGX_HTTP_PUT :: nat where "NGX_HTTP_PUT = 0x10"
definition NGX_HTTP_DELETE :: nat where "NGX_HTTP_DELETE = 0x20"
definition NGX_HTTP_MKCOL :: nat where "NGX_HTTP_MKCOL = 0x40"
definition NGX_HTTP_COPY :: nat where "NGX_HTTP_COPY = 0x80"
definition NGX_HTTP_MOVE :: nat where "NGX_HTTP_MOVE = 0x100"
definition NGX_HTTP_OPTIONS :: nat where "NGX_HTTP_OPTIONS = 0x200"
definition NGX_HTTP_PROPFIND :: nat where "NGX_HTTP_PROPFIND = 0x400"
definition NGX_HTTP_PROPPATCH :: nat where "NGX_HTTP_PROPPATCH = 0x800"
definition NGX_HTTP_LOCK :: nat where "NGX_HTTP_LOCK = 0x1000"
definition NGX_HTTP_UNLOCK :: nat where "NGX_HTTP_UNLOCK = 0x2000"
definition NGX_HTTP_PATCH :: nat where "NGX_HTTP_PATCH = 0x4000"
definition NGX_HTTP_TRACE :: nat where "NGX_HTTP_TRACE = 0x8000"
definition NGX_HTTP_CONNECT :: nat where "NGX_HTTP_CONNECT = 0x10000"

definition do_sw_start :: "nat \<Rightarrow> u8 \<Rightarrow> request \<Rightarrow> req_step" where
  "do_sw_start p ch r =
     (let r = r\<lparr>rq_start := p\<rparr> in
      if ch = c_cr \<or> ch = c_lf then Next sw_start r
      else if \<not> is_method ch then Fail NGX_HTTP_PARSE_INVALID_METHOD r
      else Next sw_method r)"

text \<open>
  The comparison macros: the bytes at \<open>m\<close> against the letters of a name of the same length (\<open>name\<close> is the
  text from \<open>m\<close> up to the space).
\<close>

definition method_code :: "bytes \<Rightarrow> nat \<Rightarrow> nat" where
  "method_code name method =
     (if length name = 3 then
        if name = ascii ''GET'' then NGX_HTTP_GET
        else if name = ascii ''PUT'' then NGX_HTTP_PUT
        else method
      else if length name = 4 then
        if name ! 1 = of_char (CHR ''O'') then
          if name = ascii ''POST'' then NGX_HTTP_POST
          else if name = ascii ''COPY'' then NGX_HTTP_COPY
          else if name = ascii ''MOVE'' then NGX_HTTP_MOVE
          else if name = ascii ''LOCK'' then NGX_HTTP_LOCK
          else method
        else
          if name = ascii ''HEAD'' then NGX_HTTP_HEAD
          else method
      else if length name = 5 then
        if name = ascii ''MKCOL'' then NGX_HTTP_MKCOL
        else if name = ascii ''PATCH'' then NGX_HTTP_PATCH
        else if name = ascii ''TRACE'' then NGX_HTTP_TRACE
        else method
      else if length name = 6 then
        if name = ascii ''DELETE'' then NGX_HTTP_DELETE
        else if name = ascii ''UNLOCK'' then NGX_HTTP_UNLOCK
        else method
      else if length name = 7 then
        let method = (if name = ascii ''OPTIONS'' then NGX_HTTP_OPTIONS else method)
        in if name = ascii ''CONNECT'' then NGX_HTTP_CONNECT else method
      else if length name = 8 then
        if name = ascii ''PROPFIND'' then NGX_HTTP_PROPFIND else method
      else if length name = 9 then
        if name = ascii ''PROPPATCH'' then NGX_HTTP_PROPPATCH else method
      else method)"

definition do_sw_method :: "bytes \<Rightarrow> nat \<Rightarrow> u8 \<Rightarrow> request \<Rightarrow> req_step" where
  "do_sw_method mem p ch r =
     (if ch = c_space then
        let r = r\<lparr>rq_method_end := Some (p - 1)\<rparr>;
            m = rq_start r;
            r = r\<lparr>rq_method := method_code (take (p - m) (drop m mem)) (rq_method r)\<rparr>
        in Next sw_spaces_before_uri r
      else if \<not> is_method ch then Fail NGX_HTTP_PARSE_INVALID_METHOD r
      else Next sw_method r)"

definition do_sw_spaces_before_uri :: "nat \<Rightarrow> u8 \<Rightarrow> request \<Rightarrow> req_step" where
  "do_sw_spaces_before_uri p ch r =
     (if ch = c_slash then Next sw_after_slash_in_uri (r\<lparr>rq_uri_start := Some p\<rparr>)
      else if is_alpha ch then Next sw_schema (r\<lparr>rq_schema_start := Some p\<rparr>)
      else if ch = c_space then Next sw_spaces_before_uri r
      else Fail NGX_HTTP_PARSE_INVALID_REQUEST r)"

definition do_sw_schema :: "nat \<Rightarrow> u8 \<Rightarrow> request \<Rightarrow> req_step" where
  "do_sw_schema p ch r =
     (if is_alpha ch then Next sw_schema r
      else if is_digit ch \<or> ch = c_plus \<or> ch = 0x2d \<or> ch = c_dot then Next sw_schema r
      else if ch = c_colon then Next sw_schema_slash (r\<lparr>rq_schema_end := Some p\<rparr>)
      else Fail NGX_HTTP_PARSE_INVALID_REQUEST r)"

text \<open>A state that expects one character.\<close>

definition do_expect :: "u8 \<Rightarrow> req_state \<Rightarrow> u8 \<Rightarrow> request \<Rightarrow> req_step" where
  "do_expect c st ch r = (if ch = c then Next st r else Fail NGX_HTTP_PARSE_INVALID_REQUEST r)"

definition do_sw_host_end :: "nat \<Rightarrow> u8 \<Rightarrow> request \<Rightarrow> req_step" where
  "do_sw_host_end p ch r =
     (let r = r\<lparr>rq_host_end := Some p\<rparr> in
      if ch = c_colon then Next sw_port r
      else if ch = c_slash then Next sw_after_slash_in_uri (r\<lparr>rq_uri_start := Some p\<rparr>)
      else if ch = c_question then
        Next sw_uri (r\<lparr>rq_uri_start := Some p, rq_args_start := Some (p + 1), rq_empty_path_in_uri := True\<rparr>)
      else if ch = c_space then
        Next sw_http_09 (r\<lparr>rq_uri_start := map_option (\<lambda>e. e + 1) (rq_schema_end r),
                          rq_uri_end := map_option (\<lambda>e. e + 2) (rq_schema_end r)\<rparr>)
      else Fail NGX_HTTP_PARSE_INVALID_REQUEST r)"

definition do_sw_host :: "nat \<Rightarrow> u8 \<Rightarrow> request \<Rightarrow> req_step" where
  "do_sw_host p ch r =
     (if is_alpha ch then Next sw_host r
      else if is_digit ch \<or> ch = c_dot \<or> ch = 0x2d then Next sw_host r
      else do_sw_host_end p ch r)"

definition do_sw_host_start :: "nat \<Rightarrow> u8 \<Rightarrow> request \<Rightarrow> req_step" where
  "do_sw_host_start p ch r =
     (let r = r\<lparr>rq_host_start := Some p\<rparr> in
      if ch = 0x5b then Next sw_host_ip_literal r else do_sw_host p ch r)"

definition do_sw_host_ip_literal :: "u8 \<Rightarrow> request \<Rightarrow> req_step" where
  "do_sw_host_ip_literal ch r =
     (if is_digit ch then Next sw_host_ip_literal r
      else if is_alpha ch then Next sw_host_ip_literal r
      else if ch = c_colon then Next sw_host_ip_literal r
      else if ch = 0x5d then Next sw_host_end r
      else if ch \<in> set (ascii ''-._~'') then Next sw_host_ip_literal r
      else if ch \<in> set (ascii [CHR ''!'', CHR ''$'', CHR ''&'', CHR 0x27, CHR ''('', CHR '')'', CHR ''*'', CHR ''+'',
                            CHR '','', CHR '';'', CHR ''='']) then Next sw_host_ip_literal r
      else Fail NGX_HTTP_PARSE_INVALID_REQUEST r)"

definition do_sw_port :: "nat \<Rightarrow> u8 \<Rightarrow> request \<Rightarrow> req_step" where
  "do_sw_port p ch r =
     (if is_digit ch then Next sw_port r
      else if ch = c_slash then
        Next sw_after_slash_in_uri (r\<lparr>rq_port_end := Some p, rq_uri_start := Some p\<rparr>)
      else if ch = c_question then
        Next sw_uri (r\<lparr>rq_port_end := Some p, rq_uri_start := Some p, rq_args_start := Some (p + 1),
                       rq_empty_path_in_uri := True\<rparr>)
      else if ch = c_space then
        Next sw_http_09 (r\<lparr>rq_port_end := Some p,
                           rq_uri_start := map_option (\<lambda>e. e + 1) (rq_schema_end r),
                           rq_uri_end := map_option (\<lambda>e. e + 2) (rq_schema_end r)\<rparr>)
      else Fail NGX_HTTP_PARSE_INVALID_REQUEST r)"

definition do_sw_after_slash_in_uri :: "nat \<Rightarrow> u8 \<Rightarrow> request \<Rightarrow> req_step" where
  "do_sw_after_slash_in_uri p ch r =
     (if is_usual ch then Next sw_check_uri r
      else if ch = c_space then Next sw_http_09 (r\<lparr>rq_uri_end := Some p\<rparr>)
      else if ch = c_cr then Next sw_almost_done (r\<lparr>rq_uri_end := Some p, rq_http_minor := 9\<rparr>)
      else if ch = c_lf then Finish (r\<lparr>rq_uri_end := Some p, rq_http_minor := 9\<rparr>)
      else if ch = c_dot then Next sw_uri (r\<lparr>rq_complex_uri := True\<rparr>)
      else if ch = c_percent then Next sw_uri (r\<lparr>rq_quoted_uri := True\<rparr>)
      else if ch = c_slash then Next sw_uri (r\<lparr>rq_complex_uri := True\<rparr>)
      else if ch = c_question then Next sw_uri (r\<lparr>rq_args_start := Some (p + 1)\<rparr>)
      else if ch = c_hash then Next sw_uri (r\<lparr>rq_complex_uri := True\<rparr>)
      else if ch = c_plus then Next sw_after_slash_in_uri (r\<lparr>rq_plus_in_uri := True\<rparr>)
      else if ch < 0x20 \<or> ch = 0x7f then Fail NGX_HTTP_PARSE_INVALID_REQUEST r
      else Next sw_check_uri r)"

definition do_sw_check_uri :: "nat \<Rightarrow> u8 \<Rightarrow> request \<Rightarrow> req_step" where
  "do_sw_check_uri p ch r =
     (if is_usual ch then Next sw_check_uri r
      else if ch = c_slash then Next sw_after_slash_in_uri (r\<lparr>rq_uri_ext := None\<rparr>)
      else if ch = c_dot then Next sw_check_uri (r\<lparr>rq_uri_ext := Some (p + 1)\<rparr>)
      else if ch = c_space then Next sw_http_09 (r\<lparr>rq_uri_end := Some p\<rparr>)
      else if ch = c_cr then Next sw_almost_done (r\<lparr>rq_uri_end := Some p, rq_http_minor := 9\<rparr>)
      else if ch = c_lf then Finish (r\<lparr>rq_uri_end := Some p, rq_http_minor := 9\<rparr>)
      else if ch = c_percent then Next sw_uri (r\<lparr>rq_quoted_uri := True\<rparr>)
      else if ch = c_question then Next sw_uri (r\<lparr>rq_args_start := Some (p + 1)\<rparr>)
      else if ch = c_hash then Next sw_uri (r\<lparr>rq_complex_uri := True\<rparr>)
      else if ch = c_plus then Next sw_check_uri (r\<lparr>rq_plus_in_uri := True\<rparr>)
      else if ch < 0x20 \<or> ch = 0x7f then Fail NGX_HTTP_PARSE_INVALID_REQUEST r
      else Next sw_check_uri r)"

definition do_sw_uri :: "nat \<Rightarrow> u8 \<Rightarrow> request \<Rightarrow> req_step" where
  "do_sw_uri p ch r =
     (if is_usual ch then Next sw_uri r
      else if ch = c_space then Next sw_http_09 (r\<lparr>rq_uri_end := Some p\<rparr>)
      else if ch = c_cr then Next sw_almost_done (r\<lparr>rq_uri_end := Some p, rq_http_minor := 9\<rparr>)
      else if ch = c_lf then Finish (r\<lparr>rq_uri_end := Some p, rq_http_minor := 9\<rparr>)
      else if ch = c_hash then Next sw_uri (r\<lparr>rq_complex_uri := True\<rparr>)
      else if ch < 0x20 \<or> ch = 0x7f then Fail NGX_HTTP_PARSE_INVALID_REQUEST r
      else Next sw_uri r)"

definition do_sw_http_09 :: "nat \<Rightarrow> u8 \<Rightarrow> request \<Rightarrow> req_step" where
  "do_sw_http_09 p ch r =
     (if ch = c_space then Next sw_http_09 r
      else if ch = c_cr then Next sw_almost_done (r\<lparr>rq_http_minor := 9\<rparr>)
      else if ch = c_lf then Finish (r\<lparr>rq_http_minor := 9\<rparr>)
      else if ch = of_char (CHR ''H'') then Next sw_http_H (r\<lparr>rq_protocol := Some p\<rparr>)
      else Fail NGX_HTTP_PARSE_INVALID_REQUEST r)"

definition do_sw_first_major_digit :: "u8 \<Rightarrow> request \<Rightarrow> req_step" where
  "do_sw_first_major_digit ch r =
     (if ch < 0x31 \<or> ch > 0x39 then Fail NGX_HTTP_PARSE_INVALID_REQUEST r
      else let r = r\<lparr>rq_http_major := ucast (ch - 0x30)\<rparr> in
        if rq_http_major r > 1 then Fail NGX_HTTP_PARSE_INVALID_VERSION r
        else Next sw_major_digit r)"

definition do_sw_major_digit :: "u8 \<Rightarrow> request \<Rightarrow> req_step" where
  "do_sw_major_digit ch r =
     (if ch = c_dot then Next sw_first_minor_digit r
      else if \<not> is_digit ch then Fail NGX_HTTP_PARSE_INVALID_REQUEST r
      else let r = r\<lparr>rq_http_major := rq_http_major r * 10 + ucast (ch - 0x30)\<rparr> in
        if rq_http_major r > 1 then Fail NGX_HTTP_PARSE_INVALID_VERSION r
        else Next sw_major_digit r)"

definition do_sw_first_minor_digit :: "u8 \<Rightarrow> request \<Rightarrow> req_step" where
  "do_sw_first_minor_digit ch r =
     (if \<not> is_digit ch then Fail NGX_HTTP_PARSE_INVALID_REQUEST r
      else Next sw_minor_digit (r\<lparr>rq_http_minor := ucast (ch - 0x30)\<rparr>))"

definition do_sw_minor_digit :: "u8 \<Rightarrow> request \<Rightarrow> req_step" where
  "do_sw_minor_digit ch r =
     (if ch = c_cr then Next sw_almost_done r
      else if ch = c_lf then Finish r
      else if ch = c_space then Next sw_spaces_after_digit r
      else if \<not> is_digit ch then Fail NGX_HTTP_PARSE_INVALID_REQUEST r
      else if rq_http_minor r > 99 then Fail NGX_HTTP_PARSE_INVALID_REQUEST r
      else Next sw_minor_digit (r\<lparr>rq_http_minor := rq_http_minor r * 10 + ucast (ch - 0x30)\<rparr>))"

definition do_sw_spaces_after_digit :: "u8 \<Rightarrow> request \<Rightarrow> req_step" where
  "do_sw_spaces_after_digit ch r =
     (if ch = c_space then Next sw_spaces_after_digit r
      else if ch = c_cr then Next sw_almost_done r
      else if ch = c_lf then Finish r
      else Fail NGX_HTTP_PARSE_INVALID_REQUEST r)"

definition do_sw_almost_done :: "nat \<Rightarrow> u8 \<Rightarrow> request \<Rightarrow> req_step" where
  "do_sw_almost_done p ch r =
     (let r = r\<lparr>rq_end := Some (p - 1)\<rparr> in
      if ch = c_lf then Finish r else Fail NGX_HTTP_PARSE_INVALID_REQUEST r)"

fun req_char :: "bytes \<Rightarrow> req_state \<Rightarrow> nat \<Rightarrow> u8 \<Rightarrow> request \<Rightarrow> req_step" where
  "req_char mem sw_start p ch r = do_sw_start p ch r"
| "req_char mem sw_method p ch r = do_sw_method mem p ch r"
| "req_char mem sw_spaces_before_uri p ch r = do_sw_spaces_before_uri p ch r"
| "req_char mem sw_schema p ch r = do_sw_schema p ch r"
| "req_char mem sw_schema_slash p ch r = do_expect c_slash sw_schema_slash_slash ch r"
| "req_char mem sw_schema_slash_slash p ch r = do_expect c_slash sw_host_start ch r"
| "req_char mem sw_host_start p ch r = do_sw_host_start p ch r"
| "req_char mem sw_host p ch r = do_sw_host p ch r"
| "req_char mem sw_host_end p ch r = do_sw_host_end p ch r"
| "req_char mem sw_host_ip_literal p ch r = do_sw_host_ip_literal ch r"
| "req_char mem sw_port p ch r = do_sw_port p ch r"
| "req_char mem sw_after_slash_in_uri p ch r = do_sw_after_slash_in_uri p ch r"
| "req_char mem sw_check_uri p ch r = do_sw_check_uri p ch r"
| "req_char mem sw_uri p ch r = do_sw_uri p ch r"
| "req_char mem sw_http_09 p ch r = do_sw_http_09 p ch r"
| "req_char mem sw_http_H p ch r = do_expect (of_char (CHR ''T'')) sw_http_HT ch r"
| "req_char mem sw_http_HT p ch r = do_expect (of_char (CHR ''T'')) sw_http_HTT ch r"
| "req_char mem sw_http_HTT p ch r = do_expect (of_char (CHR ''P'')) sw_http_HTTP ch r"
| "req_char mem sw_http_HTTP p ch r = do_expect c_slash sw_first_major_digit ch r"
| "req_char mem sw_first_major_digit p ch r = do_sw_first_major_digit ch r"
| "req_char mem sw_major_digit p ch r = do_sw_major_digit ch r"
| "req_char mem sw_first_minor_digit p ch r = do_sw_first_minor_digit ch r"
| "req_char mem sw_minor_digit p ch r = do_sw_minor_digit ch r"
| "req_char mem sw_spaces_after_digit p ch r = do_sw_spaces_after_digit ch r"
| "req_char mem sw_almost_done p ch r = do_sw_almost_done p ch r"

text \<open>After the label \<^verbatim>\<open>done\<close>; the results are the code, \<^verbatim>\<open>b->pos\<close> and the request.\<close>

definition req_done :: "nat \<Rightarrow> request \<Rightarrow> parse_rc \<times> nat \<times> request" where
  "req_done p r =
     (let r = (case rq_end r of None \<Rightarrow> r\<lparr>rq_end := Some p\<rparr> | Some e \<Rightarrow> r);
          r = r\<lparr>rq_http_version := unat (rq_http_major r) * 1000 + unat (rq_http_minor r), rq_state := sw_start\<rparr>
      in (if rq_http_version r = 9 \<and> rq_method r \<noteq> NGX_HTTP_GET then NGX_HTTP_PARSE_INVALID_09_METHOD
          else NGX_OK, p + 1, r))"

text \<open>\<open>pos\<close> is \<^verbatim>\<open>b->pos\<close> on entry, which an error leaves unchanged.\<close>

fun req_loop :: "bytes \<Rightarrow> nat \<Rightarrow> req_state \<Rightarrow> nat \<Rightarrow> bytes \<Rightarrow> request \<Rightarrow> parse_rc \<times> nat \<times> request" where
  "req_loop mem pos state p [] r = (NGX_AGAIN, p, r\<lparr>rq_state := state\<rparr>)"
| "req_loop mem pos state p (ch # cs) r =
     (case req_char mem state p ch r of
        Next state r \<Rightarrow> req_loop mem pos state (p + 1) cs r
      | Finish r \<Rightarrow> req_done p r
      | Fail rc r \<Rightarrow> (rc, pos, r))"

text \<open>The buffer is \<open>mem\<close>, filled up to its length (\<^verbatim>\<open>b->last\<close>).\<close>

definition ngx_http_parse_request_line :: "bytes \<Rightarrow> nat \<Rightarrow> request \<Rightarrow> parse_rc \<times> nat \<times> request" where
  "ngx_http_parse_request_line mem pos r = req_loop mem pos (rq_state r) pos (drop pos mem) r"

text \<open>The request as \<^verbatim>\<open>ngx_http_alloc_request\<close> leaves it.\<close>

definition new_request :: request where
  "new_request = \<lparr>rq_state = sw_start, rq_start = 0, rq_end = None, rq_method = NGX_HTTP_UNKNOWN, rq_method_end = None,
     rq_schema_start = None, rq_schema_end = None, rq_host_start = None, rq_host_end = None, rq_port_end = None,
     rq_uri_start = None, rq_uri_end = None, rq_uri_ext = None, rq_args_start = None, rq_protocol = None,
     rq_http_major = 0, rq_http_minor = 0, rq_http_version = 1000, rq_complex_uri = False,
     rq_quoted_uri = False, rq_plus_in_uri = False, rq_empty_path_in_uri = False\<rparr>"


section \<open>The grammar\<close>

text \<open>
  A request line: blank lines, the method, a space and more spaces, the target, what follows it, and
  the end of line. A target is a URI that starts with a slash, or a scheme, a host (a name or
  a bracketed literal), perhaps a port, and a URI that may be empty or start with a question mark.
\<close>

datatype req_target = Origin bytes | Absolute bytes bytes "bytes option" bytes

datatype req_tail = Http09 nat | Http nat bytes nat

record req_line =
  ln_blank :: bytes
  ln_method :: bytes
  ln_gap :: nat
  ln_target :: req_target
  ln_tail :: req_tail
  ln_cr :: bool

abbreviation spaces :: "nat \<Rightarrow> bytes" where "spaces n \<equiv> replicate n c_space"

definition is_scheme :: "u8 \<Rightarrow> bool" where
  "is_scheme ch \<longleftrightarrow> is_alpha ch \<or> is_digit ch \<or> ch = c_plus \<or> ch = 0x2d \<or> ch = c_dot"

definition is_host :: "u8 \<Rightarrow> bool" where
  "is_host ch \<longleftrightarrow> is_alpha ch \<or> is_digit ch \<or> ch = c_dot \<or> ch = 0x2d"

definition is_literal :: "u8 \<Rightarrow> bool" where
  "is_literal ch \<longleftrightarrow> is_alpha ch \<or> is_digit ch \<or> ch = c_colon \<or> ch \<in> set (ascii ''-._~!$&()*+,;='') \<or> ch = 0x27"

definition is_uri :: "u8 \<Rightarrow> bool" where
  "is_uri ch \<longleftrightarrow> ch > 0x20 \<and> ch \<noteq> 0x7f"

fun print_tail :: "req_tail \<Rightarrow> bytes" where
  "print_tail (Http09 n) = spaces n"
| "print_tail (Http n ds k) = spaces (Suc n) @ ascii ''HTTP/1.'' @ ds @ spaces k"

definition eol :: "bool \<Rightarrow> bytes" where
  "eol cr = (if cr then [c_cr, c_lf] else [c_lf])"

definition dec_value :: "bytes \<Rightarrow> nat" where
  "dec_value ds = foldl (\<lambda>n d. n * 10 + unat (d - 0x30)) 0 ds"

fun wf_tail :: "req_tail \<Rightarrow> bool" where
  "wf_tail (Http09 n) = True"
| "wf_tail (Http n ds k) \<longleftrightarrow> ds \<noteq> [] \<and> list_all is_digit ds \<and> dec_value (butlast ds) \<le> 99"

text \<open>The request when the tail starts at \<open>p\<close>.\<close>

fun tail_request :: "nat \<Rightarrow> req_tail \<Rightarrow> request \<Rightarrow> request" where
  "tail_request p (Http09 n) r = r\<lparr>rq_http_minor := 9\<rparr>"
| "tail_request p (Http n ds k) r =
     r\<lparr>rq_protocol := Some (p + Suc n), rq_http_major := 1, rq_http_minor := of_nat (dec_value ds)\<rparr>"

definition closed :: "nat \<Rightarrow> request \<Rightarrow> request" where
  "closed p r = r\<lparr>rq_end := Some p, rq_http_version := unat (rq_http_major r) * 1000 + unat (rq_http_minor r),
     rq_state := sw_start\<rparr>"

definition line_end :: "nat \<Rightarrow> bytes \<Rightarrow> request \<Rightarrow> nat \<Rightarrow> request \<Rightarrow> bool" where
  "line_end p cs r q r' \<longleftrightarrow>
     (\<exists>cr cs'. cs = eol cr @ cs' \<and> q = p + length (eol cr) \<and> r' = closed p r \<and>
        (rq_http_version r' = 9 \<longrightarrow> rq_method r' = NGX_HTTP_GET))"


section \<open>Cutting a run\<close>

text \<open>The machine over a word none of whose characters ends the run.\<close>

fun steps :: "bytes \<Rightarrow> req_state \<Rightarrow> nat \<Rightarrow> bytes \<Rightarrow> request \<Rightarrow> (req_state \<times> request) option" where
  "steps mem st p [] r = Some (st, r)"
| "steps mem st p (c # cs) r =
     (case req_char mem st p c r of Next st' r' \<Rightarrow> steps mem st' (p + 1) cs r' | _ \<Rightarrow> None)"

lemma steps_append:
  "steps mem st p (xs @ ys) r =
    (case steps mem st p xs r of None \<Rightarrow> None | Some (st', r') \<Rightarrow> steps mem st' (p + length xs) ys r')"
proof (induction xs arbitrary: st p r)
  case (Cons x xs)
  then show ?case by (cases "req_char mem st p x r") (simp_all split: option.split)
qed simp

lemma loop_steps:
  "steps mem st p w r = Some (st', r') \<Longrightarrow>
    req_loop mem pos st p (w @ cs) r = req_loop mem pos st' (p + length w) cs r'"
  by (induction w arbitrary: st p r) (auto split: req_step.splits)

text \<open>
  A class of characters on which a set of states is closed, apart from errors: an accepted input starts
  with a word of the class, which ends before its last character.
\<close>

lemma loop_cut:
  assumes closed: "\<And>st p c r. I st \<Longrightarrow> P c \<Longrightarrow> (case req_char mem st p c r of
      Next st' r' \<Rightarrow> I st' | Finish r' \<Rightarrow> False | Fail rc r' \<Rightarrow> rc \<noteq> NGX_OK)" and "I st"
  shows "req_loop mem pos st p cs r = (NGX_OK, q, r') \<longleftrightarrow>
    (\<exists>w c cs' st1 r1. cs = w @ c # cs' \<and> list_all P w \<and> \<not> P c \<and> steps mem st p w r = Some (st1, r1) \<and> I st1 \<and>
       req_loop mem pos st1 (p + length w) (c # cs') r1 = (NGX_OK, q, r'))" (is "?L \<longleftrightarrow> ?R")
proof
  show ?L if ?R using that loop_steps by (elim exE conjE) metis
  assume ?L
  then show ?R using \<open>I st\<close>
  proof (induction cs arbitrary: st p r)
    case (Cons x cs)
    show ?case
    proof (cases "P x")
      case True
      from closed [OF Cons.prems(2) True, of p r] Cons.prems(1)
      obtain st1 r1 where s: "req_char mem st p x r = Next st1 r1" "I st1"
        "req_loop mem pos st1 (p + 1) cs r1 = (NGX_OK, q, r')" by (auto split: req_step.splits)
      from Cons.IH [OF s(3,2)] obtain w c cs' st2 r2 where w: "cs = w @ c # cs'" "list_all P w" "\<not> P c"
        "steps mem st1 (p + 1) w r1 = Some (st2, r2)" "I st2"
        "req_loop mem pos st2 (p + 1 + length w) (c # cs') r2 = (NGX_OK, q, r')" by blast
      then show ?thesis using True s(1)
        by (intro exI [of _ "x # w"] exI [of _ c] exI [of _ cs'] exI [of _ st2] exI [of _ r2]) simp
    next
      case False
      then show ?thesis using Cons.prems
        by (intro exI [of _ "[]"] exI [of _ x] exI [of _ cs] exI [of _ st] exI [of _ r]) simp
    qed
  qed simp
qed

lemma loop_cut_fold:
  assumes closed: "\<And>p c r. P c \<Longrightarrow> (case req_char mem st p c r of
      Next st' r' \<Rightarrow> st' = st | Finish r' \<Rightarrow> False | Fail rc r' \<Rightarrow> rc \<noteq> NGX_OK)"
    and run: "\<And>w. list_all P w \<Longrightarrow> steps mem st p w r = map_option (\<lambda>x. (st, f x)) (g w)"
  shows "req_loop mem pos st p cs r = (NGX_OK, q, r') \<longleftrightarrow>
    (\<exists>w c cs' x. cs = w @ c # cs' \<and> list_all P w \<and> \<not> P c \<and> g w = Some x \<and>
       req_loop mem pos st (p + length w) (c # cs') (f x) = (NGX_OK, q, r'))" (is "?L \<longleftrightarrow> ?R")
proof -
  have cut: "?L \<longleftrightarrow> (\<exists>w c cs' st1 r1. cs = w @ c # cs' \<and> list_all P w \<and> \<not> P c \<and> steps mem st p w r = Some (st1, r1) \<and>
      st1 = st \<and> req_loop mem pos st1 (p + length w) (c # cs') r1 = (NGX_OK, q, r'))"
    using loop_cut [where I = "\<lambda>x. x = st" and P = P and mem = mem] closed by blast
  show ?thesis
  proof
    assume ?L
    then obtain w c cs' r1 where w: "cs = w @ c # cs'" "list_all P w" "\<not> P c" "steps mem st p w r = Some (st, r1)"
      "req_loop mem pos st (p + length w) (c # cs') r1 = (NGX_OK, q, r')" unfolding cut by blast
    from w(4) run [OF w(2)] obtain x where "g w = Some x" "r1 = f x" by auto
    with w show ?R by blast
  next
    assume ?R
    then show ?L unfolding cut using run by (elim exE conjE) (metis option.simps(9))
  qed
qed

lemma cut_start:
  assumes "\<And>w x c cs'. \<not> P c \<Longrightarrow> G w x \<Longrightarrow> A w x (c # cs') \<longleftrightarrow> B w x (c # cs')"
    and "\<And>w x cs. G w x \<Longrightarrow> B w x cs \<Longrightarrow> \<exists>c cs'. cs = c # cs' \<and> \<not> P c"
  shows "(\<exists>w c cs' x. cs = w @ c # cs' \<and> list_all P w \<and> \<not> P c \<and> G w x \<and> A w x (c # cs')) \<longleftrightarrow>
    (\<exists>w x cs'. cs = w @ cs' \<and> list_all P w \<and> G w x \<and> B w x cs')" (is "?L \<longleftrightarrow> ?R")
proof
  assume ?L
  then show ?R using assms(1) by blast
next
  assume ?R
  then obtain w x cs' where w: "cs = w @ cs'" "list_all P w" "G w x" "B w x cs'" by blast
  with assms(2) [OF w(3,4)] obtain c cs2 where "cs' = c # cs2" "\<not> P c" by blast
  with w assms(1) show ?L by blast
qed

text \<open>A state that stays as it is on the characters of a class.\<close>

lemma steps_stay:
  assumes "\<And>p c. P c \<Longrightarrow> req_char mem st p c r = Next st r"
  shows "list_all P w \<Longrightarrow> steps mem st p w r = Some (st, r)"
  using assms by (induction w arbitrary: p) simp_all

lemma loop_stay:
  assumes "\<And>p c r. P c \<Longrightarrow> req_char mem st p c r = Next st r"
  shows "req_loop mem pos st p cs r = (NGX_OK, q, r') \<longleftrightarrow>
    (\<exists>w c cs'. cs = w @ c # cs' \<and> list_all P w \<and> \<not> P c \<and>
       req_loop mem pos st (p + length w) (c # cs') r = (NGX_OK, q, r'))"
proof -
  have stay: "list_all P w \<Longrightarrow> steps mem st p w r = Some (st, r)" for w
    using assms by (rule steps_stay)
  show ?thesis
    by (subst loop_cut [where I = "\<lambda>x. x = st" and P = P])
       (simp_all add: assms stay cong: conj_cong del: req_loop.simps)
qed

lemma loop_stay_then:
  assumes stay: "\<And>p c r. P c \<Longrightarrow> req_char mem st p c r = Next st r"
    and stop: "\<And>p c cs'. \<not> P c \<Longrightarrow> req_loop mem pos st p (c # cs') r = (NGX_OK, q, r') \<longleftrightarrow> Q p (c # cs')"
    and start: "\<And>p cs. Q p cs \<Longrightarrow> \<exists>c cs'. cs = c # cs' \<and> \<not> P c"
  shows "req_loop mem pos st p cs r = (NGX_OK, q, r') \<longleftrightarrow> (\<exists>w cs'. cs = w @ cs' \<and> list_all P w \<and> Q (p + length w) cs')"
proof -
  have "req_loop mem pos st p cs r = (NGX_OK, q, r') \<longleftrightarrow> (\<exists>w c cs' (x :: unit). cs = w @ c # cs' \<and> list_all P w \<and> \<not> P c \<and> True \<and>
       req_loop mem pos st (p + length w) (c # cs') r = (NGX_OK, q, r'))"
    by (subst loop_stay [of P]) (simp_all add: stay del: req_loop.simps)
  also have "\<dots> \<longleftrightarrow> (\<exists>w (x :: unit) cs'. cs = w @ cs' \<and> list_all P w \<and> True \<and> Q (p + length w) cs')"
    by (rule cut_start) (use stop start in blast)+
  finally show ?thesis by simp
qed

lemma all_spaces: "list_all (\<lambda>c. c = c_space) w \<longleftrightarrow> w = spaces (length w)"
  by (induction w) auto


section \<open>The end of the line\<close>

lemma done_ok:
  "req_done p r = (NGX_OK, q, r') \<longleftrightarrow>
    q = p + 1 \<and> r' = closed (case rq_end r of None \<Rightarrow> p | Some e \<Rightarrow> e) r \<and>
    (rq_http_version r' = 9 \<longrightarrow> rq_method r' = NGX_HTTP_GET)"
  by (cases "rq_end r") (auto simp: req_done_def closed_def Let_def)

lemma almost_done_ok:
  "req_loop mem pos sw_almost_done p cs r = (NGX_OK, q, r') \<longleftrightarrow>
    (\<exists>cs'. cs = c_lf # cs' \<and> req_done p (r\<lparr>rq_end := Some (p - 1)\<rparr>) = (NGX_OK, q, r'))"
  by (cases cs) (auto simp: do_sw_almost_done_def Let_def)

lemma closed_end [simp]: "closed p (r\<lparr>rq_end := e\<rparr>) = closed p r"
  by (simp add: closed_def)

lemma line_end_iff:
  assumes "rq_end r = None"
  shows "line_end p cs r q r' \<longleftrightarrow>
    (\<exists>cs'. cs = c_cr # cs' \<and> req_loop mem pos sw_almost_done (p + 1) cs' r = (NGX_OK, q, r')) \<or>
    (\<exists>cs'. cs = c_lf # cs' \<and> req_done p r = (NGX_OK, q, r'))"
  by (auto simp: line_end_def almost_done_ok done_ok assms eol_def)

lemma line_end_start: "line_end p cs r q r' \<Longrightarrow> \<exists>c cs'. cs = c # cs' \<and> (c = c_cr \<or> c = c_lf)"
  by (auto simp: line_end_def eol_def split: if_splits)

definition spaces_end :: "nat \<Rightarrow> bytes \<Rightarrow> request \<Rightarrow> nat \<Rightarrow> request \<Rightarrow> bool" where
  "spaces_end p cs r q r' \<longleftrightarrow> (\<exists>k cs'. cs = spaces k @ cs' \<and> line_end (p + k) cs' r q r')"

lemma spaces_end_Cons:
  "spaces_end p (c # cs) r q r' \<longleftrightarrow> (if c = c_space then spaces_end (p + 1) cs r q r' else line_end p (c # cs) r q r')"
  (is "?L \<longleftrightarrow> ?R")
proof
  assume ?L
  then obtain k cs' where k: "c # cs = spaces k @ cs'" "line_end (p + k) cs' r q r'" unfolding spaces_end_def by blast
  then show ?R using line_end_start [OF k(2)]
    by (cases k) (auto simp: spaces_end_def)
next
  assume ?R
  then show ?L
  proof (cases "c = c_space")
    case True
    with \<open>?R\<close> obtain k cs' where "cs = spaces k @ cs'" "line_end (p + 1 + k) cs' r q r'"
      unfolding spaces_end_def by auto
    then show ?thesis using True unfolding spaces_end_def
      by (intro exI [of _ "Suc k"] exI [of _ cs']) simp
  next
    case False
    with \<open>?R\<close> show ?thesis unfolding spaces_end_def by (intro exI [of _ 0] exI [of _ "c # cs"]) simp
  qed
qed

lemma spaces_end_start: "spaces_end p cs r q r' \<Longrightarrow> \<exists>c cs'. cs = c # cs' \<and> (c = c_space \<or> c = c_cr \<or> c = c_lf)"
  by (cases cs) (auto simp: spaces_end_Cons dest: line_end_start split: if_splits, simp add: spaces_end_def line_end_def eol_def split: if_splits)

lemma spaces_then:
  assumes "\<And>p c cs'. c \<noteq> c_space \<Longrightarrow> req_loop mem pos st p (c # cs') r = (NGX_OK, q, r') \<longleftrightarrow> Q p (c # cs')"
    and "\<And>p c r. c = c_space \<Longrightarrow> req_char mem st p c r = Next st r"
    and "\<And>p cs. Q p cs \<Longrightarrow> \<exists>c cs'. cs = c # cs' \<and> c \<noteq> c_space"
  shows "req_loop mem pos st p cs r = (NGX_OK, q, r') \<longleftrightarrow> (\<exists>k cs'. cs = spaces k @ cs' \<and> Q (p + k) cs')"
  (is "?L \<longleftrightarrow> ?R")
proof -
  have "?L \<longleftrightarrow> (\<exists>w cs'. cs = w @ cs' \<and> list_all (\<lambda>c. c = c_space) w \<and> Q (p + length w) cs')"
    by (rule loop_stay_then) (use assms in blast)+
  also have "\<dots> \<longleftrightarrow> ?R"
    unfolding all_spaces by (metis length_replicate)
  finally show ?thesis .
qed

lemma spaces_after_digit_ok:
  assumes "rq_end r = None"
  shows "req_loop mem pos sw_spaces_after_digit p cs r = (NGX_OK, q, r') \<longleftrightarrow>
    spaces_end p cs r q r'"
  unfolding spaces_end_def
proof (rule spaces_then)
  show "req_loop mem pos sw_spaces_after_digit p (c # cs') r = (NGX_OK, q, r') \<longleftrightarrow> line_end p (c # cs') r q r'"
    if "c \<noteq> c_space" for c cs' p
    using that by (auto simp: do_sw_spaces_after_digit_def line_end_iff [OF assms, of _ _ _ _ mem pos])
  show "\<exists>c cs'. cs = c # cs' \<and> c \<noteq> c_space" if "line_end p cs r q r'" for p cs
    using line_end_start [OF that] by auto
qed (simp add: do_sw_spaces_after_digit_def)

lemma is_digit_not [simp]: "\<not> is_digit c_space" "\<not> is_digit c_cr" "\<not> is_digit c_lf" "\<not> is_digit c_dot"
  by (simp_all add: is_digit_def)

lemma digit_value: "is_digit d \<Longrightarrow> unat (d - 0x30) \<le> 9"
  by (auto simp: is_digit_def word_le_nat_alt unat_sub)

fun minor_run :: "u16 \<Rightarrow> bytes \<Rightarrow> u16 option" where
  "minor_run m [] = Some m"
| "minor_run m (d # ds) = (if m > 99 then None else minor_run (m * 10 + ucast (d - 0x30)) ds)"

abbreviation dec_from :: "nat \<Rightarrow> bytes \<Rightarrow> nat" where
  "dec_from \<equiv> foldl (\<lambda>n d. n * 10 + unat (d - 0x30))"

lemma dec_from_ge: "v \<le> dec_from v ds"
proof (induction ds arbitrary: v)
  case (Cons d ds)
  from Cons [of "v * 10 + unat (d - 0x30)"] show ?case by simp
qed simp

lemma u16_gt_99: "v \<le> 999 \<Longrightarrow> (99 :: u16) < of_nat v \<longleftrightarrow> 99 < v"
  by (simp add: word_less_nat_alt unat_of_nat)

lemma minor_run_value:
  "list_all is_digit ds \<Longrightarrow> v \<le> 999 \<Longrightarrow>
    minor_run (of_nat v) ds = (if ds = [] \<or> dec_from v (butlast ds) \<le> 99 then Some (of_nat (dec_from v ds)) else None)"
proof (induction ds arbitrary: v)
  case (Cons d ds)
  show ?case
  proof (cases "99 < v")
    case True
    with dec_from_ge [of v "butlast (d # ds)"] have "\<not> dec_from v (butlast (d # ds)) \<le> 99" by linarith
    then show ?thesis using True Cons.prems by (simp add: u16_gt_99)
  next
    case False
    have "(ucast (d - 0x30) :: u16) = of_nat (unat (d - 0x30))" by simp
    then have "(of_nat v :: u16) * 10 + ucast (d - 0x30) = of_nat (v * 10 + unat (d - 0x30))" by simp
    moreover have "v * 10 + unat (d - 0x30) \<le> 999" using False digit_value [of d] Cons.prems by simp
    ultimately show ?thesis
      using False Cons.prems Cons.IH [of "v * 10 + unat (d - 0x30)"] by (cases ds) (simp_all add: u16_gt_99)
  qed
qed simp

lemma steps_minor:
  "list_all is_digit ds \<Longrightarrow> steps mem sw_minor_digit p ds r =
    map_option (\<lambda>m. (sw_minor_digit, r\<lparr>rq_http_minor := m\<rparr>)) (minor_run (rq_http_minor r) ds)"
proof (induction ds arbitrary: p r)
  case (Cons d ds)
  then have "d \<noteq> c_space" "d \<noteq> c_cr" "d \<noteq> c_lf" by auto
  with Cons show ?case by (simp add: do_sw_minor_digit_def)
qed simp

lemma after_minor_ok:
  assumes "rq_end r = None" "\<not> is_digit c"
  shows "req_loop mem pos sw_minor_digit p (c # cs) r = (NGX_OK, q, r') \<longleftrightarrow> spaces_end p (c # cs) r q r'"
  using assms(2) by (auto simp: do_sw_minor_digit_def spaces_end_Cons spaces_after_digit_ok [OF assms(1)]
      line_end_iff [OF assms(1), of _ _ _ _ mem pos])

lemma minor_digit_ok:
  assumes "rq_end r = None"
  shows "req_loop mem pos sw_minor_digit p cs r = (NGX_OK, q, r') \<longleftrightarrow>
    (\<exists>ds m cs'. cs = ds @ cs' \<and> list_all is_digit ds \<and> minor_run (rq_http_minor r) ds = Some m \<and>
       spaces_end (p + length ds) cs' (r\<lparr>rq_http_minor := m\<rparr>) q r')" (is "?L \<longleftrightarrow> ?R")
proof -
  have "?L \<longleftrightarrow> (\<exists>ds c cs' m. cs = ds @ c # cs' \<and> list_all is_digit ds \<and> \<not> is_digit c \<and>
      minor_run (rq_http_minor r) ds = Some m \<and>
      req_loop mem pos sw_minor_digit (p + length ds) (c # cs') (r\<lparr>rq_http_minor := m\<rparr>) = (NGX_OK, q, r'))"
    by (rule loop_cut_fold) (auto simp: do_sw_minor_digit_def steps_minor)
  also have "\<dots> \<longleftrightarrow> ?R"
  proof (rule cut_start)
    show "\<exists>c cs'. cs = c # cs' \<and> \<not> is_digit c" if "spaces_end (p + length ds) cs (r\<lparr>rq_http_minor := m\<rparr>) q r'" for ds m cs
      using spaces_end_start [OF that] by auto
  qed (rule after_minor_ok, simp_all add: assms)
  finally show ?thesis .
qed

definition minor_ok :: "bytes \<Rightarrow> bool" where
  "minor_ok ds \<longleftrightarrow> ds \<noteq> [] \<and> list_all is_digit ds \<and> dec_value (butlast ds) \<le> 99"

lemma minor_ok_digits: "minor_ok (d # ds) \<Longrightarrow> list_all is_digit ds"
  by (simp add: minor_ok_def)

lemma minor_ok_Cons:
  assumes "is_digit d" "list_all is_digit ds"
  shows "minor_run (ucast (d - 0x30)) ds = (if minor_ok (d # ds) then Some (of_nat (dec_value (d # ds))) else None)"
proof -
  have v: "(ucast (d - 0x30) :: u16) = of_nat (unat (d - 0x30))" by simp
  have "unat (d - 0x30) \<le> 999" using digit_value [OF assms(1)] by simp
  from minor_run_value [OF assms(2) this] show ?thesis
    using assms unfolding v by (cases ds) (auto simp: minor_ok_def dec_value_def)
qed

lemma first_minor_ok:
  assumes "rq_end r = None"
  shows "req_loop mem pos sw_first_minor_digit p cs r = (NGX_OK, q, r') \<longleftrightarrow>
    (\<exists>ds cs'. cs = ds @ cs' \<and> minor_ok ds \<and>
       spaces_end (p + length ds) cs' (r\<lparr>rq_http_minor := of_nat (dec_value ds)\<rparr>) q r')" (is "?L \<longleftrightarrow> ?R")
proof (cases cs)
  case Nil
  then show ?thesis by (auto simp: minor_ok_def)
next
  case (Cons d cs1)
  show ?thesis
  proof (cases "is_digit d")
    case True
    have "?L \<longleftrightarrow> (\<exists>ds m cs'. cs1 = ds @ cs' \<and> list_all is_digit ds \<and> minor_run (ucast (d - 0x30)) ds = Some m \<and>
        spaces_end (p + 1 + length ds) cs' (r\<lparr>rq_http_minor := m\<rparr>) q r')"
      using True Cons assms by (simp add: do_sw_first_minor_digit_def minor_digit_ok)
    also have "\<dots> \<longleftrightarrow> (\<exists>ds cs'. cs1 = ds @ cs' \<and> minor_ok (d # ds) \<and>
        spaces_end (p + 1 + length ds) cs' (r\<lparr>rq_http_minor := of_nat (dec_value (d # ds))\<rparr>) q r')" (is "?M \<longleftrightarrow> ?N")
    proof
      assume ?M
      then show ?N using minor_ok_Cons [OF True] by (elim exE conjE) (auto split: if_splits)
    next
      assume ?N
      then obtain ds cs' where ds: "cs1 = ds @ cs'" "minor_ok (d # ds)"
        "spaces_end (p + 1 + length ds) cs' (r\<lparr>rq_http_minor := of_nat (dec_value (d # ds))\<rparr>) q r'" by blast
      have "minor_run (ucast (d - 0x30)) ds = Some (of_nat (dec_value (d # ds)))"
        using ds(2) by (simp only: minor_ok_Cons [OF True minor_ok_digits [OF ds(2)]] if_True)
      with ds minor_ok_digits [OF ds(2)] show ?M by blast
    qed
    also have "\<dots> \<longleftrightarrow> ?R"
    proof
      assume "\<exists>ds cs'. cs1 = ds @ cs' \<and> minor_ok (d # ds) \<and>
        spaces_end (p + 1 + length ds) cs' (r\<lparr>rq_http_minor := of_nat (dec_value (d # ds))\<rparr>) q r'"
      then obtain ds cs' where "cs1 = ds @ cs'" "minor_ok (d # ds)"
        "spaces_end (p + 1 + length ds) cs' (r\<lparr>rq_http_minor := of_nat (dec_value (d # ds))\<rparr>) q r'" by blast
      then show ?R unfolding Cons by (intro exI [of _ "d # ds"] exI [of _ cs']) simp
    next
      assume ?R
      then obtain ds cs' where ds: "d # cs1 = ds @ cs'" "minor_ok ds"
        "spaces_end (p + length ds) cs' (r\<lparr>rq_http_minor := of_nat (dec_value ds)\<rparr>) q r'" unfolding Cons by blast
      then obtain ds' where "ds = d # ds'" "cs1 = ds' @ cs'" by (cases ds) (auto simp: minor_ok_def)
      with ds show "\<exists>ds cs'. cs1 = ds @ cs' \<and> minor_ok (d # ds) \<and>
        spaces_end (p + 1 + length ds) cs' (r\<lparr>rq_http_minor := of_nat (dec_value (d # ds))\<rparr>) q r'" by auto
    qed
    finally show ?thesis .
  next
    case False
    then show ?thesis using Cons by (auto simp: do_sw_first_minor_digit_def minor_ok_def Cons_eq_append_conv)
  qed
qed

lemma expect_ok:
  assumes "\<And>p c r. req_char mem st p c r = do_expect x st' c r"
  shows "req_loop mem pos st p cs r = (NGX_OK, q, r') \<longleftrightarrow>
    (\<exists>cs'. cs = x # cs' \<and> req_loop mem pos st' (p + 1) cs' r = (NGX_OK, q, r'))"
  by (cases cs) (auto simp: assms do_expect_def)

lemma digit_cases: "is_digit ch \<Longrightarrow> (10 :: u16) + ucast (ch - 0x30) > 1"
  using digit_value [of ch] by (simp add: word_less_nat_alt unat_word_ariths unsigned_ucast_eq take_bit_eq_mod)

lemma major_digit_ok:
  assumes "rq_http_major r = 1"
  shows "req_loop mem pos sw_major_digit p cs r = (NGX_OK, q, r') \<longleftrightarrow>
    (\<exists>cs'. cs = c_dot # cs' \<and> req_loop mem pos sw_first_minor_digit (p + 1) cs' r = (NGX_OK, q, r'))"
  using assms by (cases cs) (auto simp: do_sw_major_digit_def Let_def digit_cases)

lemma first_major_ok:
  "req_loop mem pos sw_first_major_digit p cs r = (NGX_OK, q, r') \<longleftrightarrow>
    (\<exists>cs'. cs = 0x31 # c_dot # cs' \<and>
       req_loop mem pos sw_first_minor_digit (p + 2) cs' (r\<lparr>rq_http_major := 1\<rparr>) = (NGX_OK, q, r'))"
proof (cases cs)
  case (Cons d cs1)
  have "d = 0x31 \<or> (1 :: u16) < ucast (d - 0x30)" if "\<not> (d < 0x31 \<or> d > 0x39)"
  proof -
    have le: "49 \<le> unat d" and sub: "unat (d - 0x30) = unat d - 48"
      using that by (simp_all add: unat_sub word_le_nat_alt word_less_nat_alt)
    have "unat (ucast (d - 0x30) :: u16) = unat d - 48"
      using unsigned_less [of d, where 'a = nat] by (simp add: unsigned_ucast_eq take_bit_eq_mod sub)
    then show ?thesis using le by (cases "unat d = 49") (auto simp: word_less_nat_alt intro: unsigned_word_eqI)
  qed
  then show ?thesis using Cons
    by (auto simp: do_sw_first_major_digit_def do_sw_major_digit_def Let_def major_digit_ok)
qed simp

lemma protocol_ok:
  assumes "rq_end r = None"
  shows "req_loop mem pos sw_http_H p cs r = (NGX_OK, q, r') \<longleftrightarrow>
    (\<exists>ds cs'. cs = ascii ''TTP/1.'' @ ds @ cs' \<and> minor_ok ds \<and>
       spaces_end (p + 6 + length ds) cs' (r\<lparr>rq_http_major := 1, rq_http_minor := of_nat (dec_value ds)\<rparr>) q r')"
  apply (subst expect_ok [of mem sw_http_H], simp)
  apply (subst expect_ok [of mem sw_http_HT], simp)
  apply (subst expect_ok [of mem sw_http_HTT], simp)
  apply (subst expect_ok [of mem sw_http_HTTP], simp)
  by (auto simp: first_major_ok first_minor_ok assms ascii_def eval_nat_numeral) blast

lemma wf_tail_Http [simp]: "wf_tail (Http n ds k) \<longleftrightarrow> minor_ok ds"
  by (simp add: minor_ok_def)

declare wf_tail.simps(2) [simp del]

definition tail_end :: "nat \<Rightarrow> bytes \<Rightarrow> request \<Rightarrow> nat \<Rightarrow> request \<Rightarrow> bool" where
  "tail_end p cs r q r' \<longleftrightarrow> (\<exists>t cs'. cs = print_tail t @ cs' \<and> wf_tail t \<and>
     line_end (p + length (print_tail t)) cs' (tail_request p t r) q r')"

definition version_end :: "nat \<Rightarrow> bytes \<Rightarrow> request \<Rightarrow> nat \<Rightarrow> request \<Rightarrow> bool" where
  "version_end p cs r q r' \<longleftrightarrow> line_end p cs (r\<lparr>rq_http_minor := 9\<rparr>) q r' \<or>
     (\<exists>ds cs'. cs = ascii ''HTTP/1.'' @ ds @ cs' \<and> minor_ok ds \<and>
        spaces_end (p + 7 + length ds) cs'
          (r\<lparr>rq_protocol := Some p, rq_http_major := 1, rq_http_minor := of_nat (dec_value ds)\<rparr>) q r')"

lemma http_09_ok:
  assumes "rq_end r = None"
  shows "req_loop mem pos sw_http_09 p cs r = (NGX_OK, q, r') \<longleftrightarrow>
    (\<exists>n cs'. cs = spaces n @ cs' \<and> version_end (p + n) cs' r q r')"
proof (rule spaces_then)
  show "req_loop mem pos sw_http_09 p (c # cs') r = (NGX_OK, q, r') \<longleftrightarrow> version_end p (c # cs') r q r'"
    if "c \<noteq> c_space" for c cs' p
  proof (cases "c = c_cr \<or> c = c_lf")
    case True
    then show ?thesis
      by (auto simp: do_sw_http_09_def version_end_def ascii_def line_end_iff [of _ _ _ _ _ mem pos] assms)
  next
    case False
    then have "\<not> line_end p (c # cs') (r\<lparr>rq_http_minor := 9\<rparr>) q r'" by (auto dest: line_end_start)
    then show ?thesis using that False
      by (auto simp: do_sw_http_09_def version_end_def protocol_ok assms ascii_def eval_nat_numeral)
  qed
  show "\<exists>c cs'. cs = c # cs' \<and> c \<noteq> c_space" if "version_end p cs r q r'" for p cs
    using that line_end_start [of p cs "r\<lparr>rq_http_minor := 9\<rparr>" q r'] by (auto simp: version_end_def ascii_def)
qed (simp add: do_sw_http_09_def)

lemma tail_end_stop:
  assumes "c \<noteq> c_space"
  shows "tail_end p (c # cs) r q r' \<longleftrightarrow> line_end p (c # cs) (r\<lparr>rq_http_minor := 9\<rparr>) q r'" (is "?L \<longleftrightarrow> ?R")
proof
  assume ?L
  then obtain t cs' where t: "c # cs = print_tail t @ cs'"
    "line_end (p + length (print_tail t)) cs' (tail_request p t r) q r'" unfolding tail_end_def by blast
  with assms have "t = Http09 0" by (cases t; cases "case t of Http09 n \<Rightarrow> n | _ \<Rightarrow> 0") auto
  with t show ?R by simp
next
  assume ?R
  then show ?L unfolding tail_end_def by (intro exI [of _ "Http09 0"] exI [of _ "c # cs"]) simp
qed

lemma tail_end_space:
  "tail_end p (c_space # cs) r q r' \<longleftrightarrow> (\<exists>n cs'. cs = spaces n @ cs' \<and> version_end (p + 1 + n) cs' r q r')" (is "?L \<longleftrightarrow> ?R")
proof
  assume ?L
  then obtain t cs' where t: "c_space # cs = print_tail t @ cs'" "wf_tail t"
    "line_end (p + length (print_tail t)) cs' (tail_request p t r) q r'" unfolding tail_end_def by blast
  show ?R
  proof (cases t)
    case (Http09 n)
    with t line_end_start [OF t(3)] obtain n' where "n = Suc n'" by (cases n) auto
    with t Http09 have "cs = spaces n' @ cs'" "version_end (p + 1 + n') cs' r q r'"
      by (auto simp: version_end_def)
    then show ?thesis by blast
  next
    case (Http n ds k)
    have "spaces_end (p + 1 + n + 7 + length ds) (spaces k @ cs')
        (r\<lparr>rq_protocol := Some (p + 1 + n), rq_http_major := 1, rq_http_minor := of_nat (dec_value ds)\<rparr>) q r'"
      using t(3) unfolding spaces_end_def Http
      by (intro exI [of _ k] exI [of _ cs']) (simp add: ascii_def eval_nat_numeral ac_simps)
    then have "version_end (p + 1 + n) (ascii ''HTTP/1.'' @ ds @ spaces k @ cs') r q r'"
      using t(2) Http unfolding version_end_def by auto
    then show ?thesis using t(1) Http by auto
  qed
next
  assume ?R
  then obtain n cs' where n: "cs = spaces n @ cs'" "version_end (p + 1 + n) cs' r q r'" by blast
  from n(2) consider "line_end (p + 1 + n) cs' (r\<lparr>rq_http_minor := 9\<rparr>) q r'"
    | ds k cs2 where "cs' = ascii ''HTTP/1.'' @ ds @ spaces k @ cs2" "minor_ok ds"
      "line_end (p + 1 + n + 7 + length ds + k) cs2
         (r\<lparr>rq_protocol := Some (p + 1 + n), rq_http_major := 1, rq_http_minor := of_nat (dec_value ds)\<rparr>) q r'"
    unfolding version_end_def spaces_end_def by blast
  then show ?L
  proof cases
    case 1
    then show ?thesis unfolding tail_end_def n(1)
      by (intro exI [of _ "Http09 (Suc n)"] exI [of _ cs']) simp
  next
    case (2 ds k cs2)
    then show ?thesis unfolding tail_end_def n(1)
      by (intro exI [of _ "Http n ds k"] exI [of _ cs2]) (simp add: ascii_def eval_nat_numeral ac_simps)
  qed
qed

definition in_path :: "req_state \<Rightarrow> bool" where
  "in_path st \<longleftrightarrow> st = sw_after_slash_in_uri \<or> st = sw_check_uri \<or> st = sw_uri"

lemmas path_defs = do_sw_after_slash_in_uri_def do_sw_check_uri_def do_sw_uri_def

lemma not_uri_cases: "\<not> is_uri c \<Longrightarrow> c \<in> set (127 # map of_nat [0..<33])"
proof -
  assume "\<not> is_uri c"
  then have "unat c < 33 \<or> c = 127" by (auto simp: is_uri_def word_less_nat_alt)
  then show ?thesis 
  proof
    assume "unat c < 33"
    then have "(of_nat (unat c) :: u8) \<in> of_nat ` {0..<33}" by (intro imageI) simp
    then show ?thesis by simp
  qed simp
qed

lemma usual_uri: "is_usual c \<Longrightarrow> is_uri c"
proof (rule ccontr)
  have "list_all (\<lambda>c. \<not> is_usual c) (127 # map of_nat [0..<33])" by code_simp
  moreover assume "is_usual c" "\<not> is_uri c"
  ultimately show False using not_uri_cases [of c] unfolding list_all_iff by blast
qed

lemma http_09_tail:
  "rq_end r = None \<Longrightarrow>
    req_loop mem pos sw_http_09 (p + 1) cs r = (NGX_OK, q, r') \<longleftrightarrow> tail_end p (c_space # cs) r q r'"
  unfolding tail_end_space by (rule http_09_ok)

lemma not_uri [simp]: "\<not> is_uri c_space" "\<not> is_uri c_cr" "\<not> is_uri c_lf"
  by (simp_all add: is_uri_def)

lemma is_uri_not: "is_uri c \<Longrightarrow> c \<noteq> c_space \<and> c \<noteq> c_cr \<and> c \<noteq> c_lf"
  by auto

lemma path_exit_ok:
  assumes "rq_end r = None" "in_path st" "\<not> is_uri c"
  shows "req_loop mem pos st p (c # cs) r = (NGX_OK, q, r') \<longleftrightarrow> tail_end p (c # cs) (r\<lparr>rq_uri_end := Some p\<rparr>) q r'"
proof -
  have us: "\<not> is_usual c" using usual_uri assms(3) by blast
  have ctl: "c \<noteq> c_space \<Longrightarrow> c < 0x20 \<or> c = 0x7f" using assms(3) by (auto simp: is_uri_def)
  have c: "c \<notin> {c_slash, c_dot, c_percent, c_question, c_hash, c_plus}" using assms(3) by (auto simp: is_uri_def)
  show ?thesis
  proof (cases "c = c_space")
    case True
    then show ?thesis using assms(2) us
      by (auto simp: in_path_def path_defs assms(1) http_09_tail [unfolded Suc_eq_plus1 [symmetric]])
  next
    case False
    then show ?thesis using assms(2) us c ctl [OF False] unfolding tail_end_stop [OF False]
      by (auto simp: in_path_def path_defs line_end_iff [of _ _ _ _ _ mem pos] assms(1) split: if_splits)
  qed
qed

text \<open>Within the URI the machine stays in the three path states and never fails; the fields it sets.\<close>

lemma path_step:
  assumes "in_path st" "is_uri c"
  shows "\<exists>st' r'. req_char mem st p c r = Next st' r' \<and> in_path st' \<and> rq_end r' = rq_end r"
proof -
  have "\<not> (c < 0x20 \<or> c = 0x7f)" using assms(2) by (auto simp: is_uri_def)
  then show ?thesis
    using assms(1) is_uri_not [OF assms(2)] by (auto simp: in_path_def path_defs)
qed

lemma path_step_mem: "in_path st \<Longrightarrow> req_char mem st p c r = req_char [] st p c r"
  by (auto simp: in_path_def)

lemma path_steps:
  "in_path st \<Longrightarrow> list_all is_uri w \<Longrightarrow>
    \<exists>st' r'. steps mem st p w r = Some (st', r') \<and> steps [] st p w r = Some (st', r') \<and> in_path st' \<and> rq_end r' = rq_end r"
proof (induction w arbitrary: st p r)
  case (Cons c w)
  then obtain st1 r1 where s: "req_char mem st p c r = Next st1 r1" "in_path st1" "rq_end r1 = rq_end r"
    using path_step [of st c mem p r] by auto
  with Cons.IH [OF s(2), of "p + 1" r1] Cons.prems show ?case
    using path_step_mem [OF Cons.prems(1), of mem p c r] by auto
qed simp

definition uri_marks :: "req_state \<Rightarrow> nat \<Rightarrow> bytes \<Rightarrow> request \<Rightarrow> request" where
  "uri_marks st p w r = (case steps [] st p w r of None \<Rightarrow> r | Some (st', r') \<Rightarrow> r')"

lemma uri_marks_end: "in_path st \<Longrightarrow> list_all is_uri w \<Longrightarrow> rq_end (uri_marks st p w r) = rq_end r"
  using path_steps [of st w "[]" p r] by (auto simp: uri_marks_def)

lemma tail_end_start: "tail_end p cs r q r' \<Longrightarrow> \<exists>c cs'. cs = c # cs' \<and> \<not> is_uri c"
proof -
  assume *: "tail_end p cs r q r'"
  have "cs \<noteq> []" using * by (auto simp: tail_end_def dest: line_end_start)
  then obtain c cs' where "cs = c # cs'" by (cases cs) auto
  with * show ?thesis by (cases "c = c_space") (auto simp: tail_end_stop dest: line_end_start)
qed

lemma path_ok:
  assumes "rq_end r = None" "in_path st"
  shows "req_loop mem pos st p cs r = (NGX_OK, q, r') \<longleftrightarrow>
    (\<exists>w cs'. cs = w @ cs' \<and> list_all is_uri w \<and>
       tail_end (p + length w) cs' ((uri_marks st p w r)\<lparr>rq_uri_end := Some (p + length w)\<rparr>) q r')" (is "?L \<longleftrightarrow> ?R")
proof -
  have cut: "?L \<longleftrightarrow> (\<exists>w c cs' st1 r1. cs = w @ c # cs' \<and> list_all is_uri w \<and> \<not> is_uri c \<and> steps mem st p w r = Some (st1, r1) \<and>
      in_path st1 \<and> req_loop mem pos st1 (p + length w) (c # cs') r1 = (NGX_OK, q, r'))"
  proof (rule loop_cut)
    show "case req_char mem st p c r of Next st' r' \<Rightarrow> in_path st' | Finish r' \<Rightarrow> False | Fail rc r' \<Rightarrow> rc \<noteq> NGX_OK"
      if "in_path st" "is_uri c" for st p c r
      using path_step [OF that, of mem p r] by auto
  qed (rule assms(2))
  show ?thesis
  proof
    assume ?L
    then obtain w c cs' st1 r1 where w: "cs = w @ c # cs'" "list_all is_uri w" "\<not> is_uri c"
      "steps mem st p w r = Some (st1, r1)" "in_path st1"
      "req_loop mem pos st1 (p + length w) (c # cs') r1 = (NGX_OK, q, r')" unfolding cut by blast
    from path_steps [OF assms(2) w(2), of mem p r] w(4) have r1: "uri_marks st p w r = r1" "rq_end r1 = None"
      by (auto simp: uri_marks_def assms(1))
    with w(6) have "tail_end (p + length w) (c # cs') (r1\<lparr>rq_uri_end := Some (p + length w)\<rparr>) q r'"
      by (simp only: path_exit_ok [OF r1(2) w(5,3)])
    with w r1 show ?R by blast
  next
    assume ?R
    then obtain w cs' where w: "cs = w @ cs'" "list_all is_uri w"
      "tail_end (p + length w) cs' ((uri_marks st p w r)\<lparr>rq_uri_end := Some (p + length w)\<rparr>) q r'" by blast
    obtain c cs2 where c: "cs' = c # cs2" "\<not> is_uri c" using tail_end_start [OF w(3)] by blast
    obtain st1 r1 where s: "steps mem st p w r = Some (st1, r1)" "in_path st1" "rq_end r1 = None" "uri_marks st p w r = r1"
      using path_steps [OF assms(2) w(2), of mem p r] by (auto simp: uri_marks_def assms(1))
    then have "req_loop mem pos st1 (p + length w) (c # cs2) r1 = (NGX_OK, q, r')"
      using w(3) c by (simp only: path_exit_ok [OF s(3,2) c(2)])
    with w s c show ?L unfolding cut by blast
  qed
qed

fun print_port :: "bytes option \<Rightarrow> bytes" where
  "print_port None = []"
| "print_port (Some ds) = c_colon # ds"

fun print_target :: "req_target \<Rightarrow> bytes" where
  "print_target (Origin u) = u"
| "print_target (Absolute s h po u) = s @ ascii ''://'' @ h @ print_port po @ u"

definition wf_host :: "bytes \<Rightarrow> bool" where
  "wf_host h \<longleftrightarrow> list_all is_host h \<or> (\<exists>w. h = [0x5b] @ w @ [0x5d] \<and> list_all is_literal w)"

definition wf_uri :: "bytes \<Rightarrow> bool" where
  "wf_uri u \<longleftrightarrow> (\<exists>c w. u = c # w \<and> (c = c_slash \<or> c = c_question) \<and> list_all is_uri w)"

fun wf_target :: "req_target \<Rightarrow> bool" where
  "wf_target (Origin u) \<longleftrightarrow> wf_uri u \<and> hd u = c_slash"
| "wf_target (Absolute s h po u) \<longleftrightarrow>
     (\<exists>c w. s = c # w \<and> is_alpha c \<and> list_all is_scheme w) \<and> wf_host h \<and>
     (case po of None \<Rightarrow> True | Some ds \<Rightarrow> list_all is_digit ds) \<and> (u = [] \<or> wf_uri u)"

text \<open>
  The URI \<open>u\<close> at \<open>p\<close> after a scheme that ends at \<open>e\<close>: an absolute form without a URI uses the first slash
  after the scheme.
\<close>

definition uri_request :: "nat \<Rightarrow> nat \<Rightarrow> bytes \<Rightarrow> request \<Rightarrow> request" where
  "uri_request e p u r =
     (case u of
        [] \<Rightarrow> r\<lparr>rq_uri_start := Some (e + 1), rq_uri_end := Some (e + 2)\<rparr>
      | c # w \<Rightarrow>
          (if c = c_slash then uri_marks sw_after_slash_in_uri (p + 1) w (r\<lparr>rq_uri_start := Some p\<rparr>)
           else uri_marks sw_uri (p + 1) w
             (r\<lparr>rq_uri_start := Some p, rq_args_start := Some (p + 1), rq_empty_path_in_uri := True\<rparr>))
          \<lparr>rq_uri_end := Some (p + length u)\<rparr>)"

definition port_request :: "nat \<Rightarrow> bytes option \<Rightarrow> request \<Rightarrow> request" where
  "port_request p po r = (case po of None \<Rightarrow> r | Some ds \<Rightarrow> r\<lparr>rq_port_end := Some (p + 1 + length ds)\<rparr>)"

definition authority_request :: "nat \<Rightarrow> bytes \<Rightarrow> bytes option \<Rightarrow> bytes \<Rightarrow> request \<Rightarrow> request" where
  "authority_request e h po u r =
     (let a = e + 3; b = a + length h in
      uri_request e (b + length (print_port po)) u
        (port_request b po (r\<lparr>rq_schema_end := Some e, rq_host_start := Some a, rq_host_end := Some b\<rparr>)))"

fun target_request :: "nat \<Rightarrow> req_target \<Rightarrow> request \<Rightarrow> request" where
  "target_request p (Origin u) r = uri_request 0 p u r"
| "target_request p (Absolute s h po u) r =
     authority_request (p + length s) h po u (r\<lparr>rq_schema_start := Some p\<rparr>)"


definition uri_part :: "nat \<Rightarrow> nat \<Rightarrow> bytes \<Rightarrow> request \<Rightarrow> nat \<Rightarrow> request \<Rightarrow> bool" where
  "uri_part e p cs r q r' \<longleftrightarrow> (\<exists>u cs'. cs = u @ cs' \<and> (u = [] \<and> (\<exists>cs2. cs' = c_space # cs2) \<or> wf_uri u) \<and>
     tail_end (p + length u) cs' (uri_request e p u r) q r')"

lemma uri_part_Cons:
  assumes "c = c_slash \<or> c = c_question"
  shows "uri_part e p (c # cs) r q r' \<longleftrightarrow>
    (\<exists>w cs'. cs = w @ cs' \<and> list_all is_uri w \<and> tail_end (p + 1 + length w) cs' (uri_request e p (c # w) r) q r')"
  (is "?L \<longleftrightarrow> ?R")
proof
  assume ?L
  then obtain u cs' where u: "c # cs = u @ cs'" "u = [] \<and> (\<exists>cs2. cs' = c_space # cs2) \<or> wf_uri u"
    "tail_end (p + length u) cs' (uri_request e p u r) q r'" unfolding uri_part_def by blast
  then obtain w where "u = c # w" "list_all is_uri w" using assms by (auto simp: wf_uri_def)
  with u show ?R by auto
next
  assume ?R
  then obtain w cs' where "cs = w @ cs'" "list_all is_uri w"
    "tail_end (p + 1 + length w) cs' (uri_request e p (c # w) r) q r'" by blast
  then show ?L unfolding uri_part_def using assms
    by (intro exI [of _ "c # w"] exI [of _ cs']) (simp add: wf_uri_def)
qed

lemma uri_part_slash:
  "rq_end r = None \<Longrightarrow> uri_part e p (c_slash # cs) r q r' \<longleftrightarrow>
    req_loop mem pos sw_after_slash_in_uri (p + 1) cs (r\<lparr>rq_uri_start := Some p\<rparr>) = (NGX_OK, q, r')"
  by (subst path_ok) (simp_all add: uri_part_Cons in_path_def uri_request_def)

lemma uri_part_question:
  "rq_end r = None \<Longrightarrow> uri_part e p (c_question # cs) r q r' \<longleftrightarrow>
    req_loop mem pos sw_uri (p + 1) cs
      (r\<lparr>rq_uri_start := Some p, rq_args_start := Some (p + 1), rq_empty_path_in_uri := True\<rparr>) = (NGX_OK, q, r')"
  by (subst path_ok) (simp_all add: uri_part_Cons in_path_def uri_request_def)

lemma uri_part_space:
  assumes "rq_end r = None"
  shows "uri_part e p (c_space # cs) r q r' \<longleftrightarrow>
    req_loop mem pos sw_http_09 (p + 1) cs (r\<lparr>rq_uri_start := Some (e + 1), rq_uri_end := Some (e + 2)\<rparr>) = (NGX_OK, q, r')"
  (is "?L \<longleftrightarrow> ?R")
proof -
  have "?R \<longleftrightarrow> tail_end p (c_space # cs) (uri_request e p [] r) q r'"
    by (subst http_09_tail) (simp_all add: assms uri_request_def)
  moreover have "\<not> wf_uri u" if "c_space # cs = u @ cs'" for u cs' using that by (auto simp: wf_uri_def)
  ultimately show ?thesis by (fastforce simp: uri_part_def)
qed

lemma uri_part_start: "uri_part e p cs r q r' \<Longrightarrow>
    \<exists>c cs'. cs = c # cs' \<and> (c = c_slash \<or> c = c_question \<or> c = c_space)"
  by (auto simp: uri_part_def wf_uri_def)

lemma uri_part_iff:
  assumes "rq_end r = None"
  shows "uri_part e p cs r q r' \<longleftrightarrow>
    (\<exists>cs'. cs = c_slash # cs' \<and> req_loop mem pos sw_after_slash_in_uri (p + 1) cs' (r\<lparr>rq_uri_start := Some p\<rparr>) = (NGX_OK, q, r')) \<or>
    (\<exists>cs'. cs = c_question # cs' \<and> req_loop mem pos sw_uri (p + 1) cs'
       (r\<lparr>rq_uri_start := Some p, rq_args_start := Some (p + 1), rq_empty_path_in_uri := True\<rparr>) = (NGX_OK, q, r')) \<or>
    (\<exists>cs'. cs = c_space # cs' \<and> req_loop mem pos sw_http_09 (p + 1) cs'
       (r\<lparr>rq_uri_start := Some (e + 1), rq_uri_end := Some (e + 2)\<rparr>) = (NGX_OK, q, r'))"
  using uri_part_slash [OF assms, of e p _ q r' mem pos] uri_part_question [OF assms, of e p _ q r' mem pos]
    uri_part_space [OF assms, of e p _ q r' mem pos] uri_part_start [of e p cs r q r'] by blast

lemma port_ok:
  assumes "rq_end r = None" "rq_schema_end r = Some e"
  shows "req_loop mem pos sw_port p cs r = (NGX_OK, q, r') \<longleftrightarrow>
    (\<exists>ds cs'. cs = ds @ cs' \<and> list_all is_digit ds \<and>
       uri_part e (p + length ds) cs' (r\<lparr>rq_port_end := Some (p + length ds)\<rparr>) q r')"
proof (rule loop_stay_then)
  show "req_loop mem pos sw_port p (c # cs') r = (NGX_OK, q, r') \<longleftrightarrow>
      uri_part e p (c # cs') (r\<lparr>rq_port_end := Some p\<rparr>) q r'" if "\<not> is_digit c" for p c cs'
    using that assms by (auto simp: do_sw_port_def uri_part_iff [of _ _ _ _ _ _ mem pos])
  show "\<exists>c cs'. cs = c # cs' \<and> \<not> is_digit c" if "uri_part e p cs (r\<lparr>rq_port_end := Some p\<rparr>) q r'" for p cs
    using uri_part_start [OF that] by (auto simp: is_digit_def)
qed (simp add: do_sw_port_def)

definition after_host :: "nat \<Rightarrow> nat \<Rightarrow> bytes \<Rightarrow> request \<Rightarrow> nat \<Rightarrow> request \<Rightarrow> bool" where
  "after_host e p cs r q r' \<longleftrightarrow>
    (\<exists>po cs'. cs = print_port po @ cs' \<and> (case po of None \<Rightarrow> True | Some ds \<Rightarrow> list_all is_digit ds) \<and>
       uri_part e (p + length (print_port po)) cs' (port_request p po (r\<lparr>rq_host_end := Some p\<rparr>)) q r')"

lemma after_host_colon:
  assumes "rq_end r = None" "rq_schema_end r = Some e"
  shows "after_host e p (c_colon # cs) r q r' \<longleftrightarrow>
    req_loop mem pos sw_port (p + 1) cs (r\<lparr>rq_host_end := Some p\<rparr>) = (NGX_OK, q, r')" (is "?L \<longleftrightarrow> ?R")
proof -
  have R: "?R \<longleftrightarrow> (\<exists>ds cs'. cs = ds @ cs' \<and> list_all is_digit ds \<and>
       uri_part e (p + 1 + length ds) cs' (r\<lparr>rq_host_end := Some p, rq_port_end := Some (p + 1 + length ds)\<rparr>) q r')"
    by (subst port_ok) (simp_all add: assms)
  show ?thesis
  proof
    assume ?L
    then obtain po cs' where po: "c_colon # cs = print_port po @ cs'" "case po of None \<Rightarrow> True | Some ds \<Rightarrow> list_all is_digit ds"
      "uri_part e (p + length (print_port po)) cs' (port_request p po (r\<lparr>rq_host_end := Some p\<rparr>)) q r'"
      unfolding after_host_def by blast
    then show ?R using uri_part_start [OF po(3)] unfolding R
      by (cases po) (auto simp: port_request_def)
  next
    assume ?R
    then obtain ds cs' where "cs = ds @ cs'" "list_all is_digit ds"
       "uri_part e (p + 1 + length ds) cs' (r\<lparr>rq_host_end := Some p, rq_port_end := Some (p + 1 + length ds)\<rparr>) q r'"
      unfolding R by blast
    then show ?L unfolding after_host_def
      by (intro exI [of _ "Some ds"] exI [of _ cs']) (simp add: port_request_def)
  qed
qed

lemma after_host_other:
  assumes "c \<noteq> c_colon"
  shows "after_host e p (c # cs) r q r' \<longleftrightarrow> uri_part e p (c # cs) (r\<lparr>rq_host_end := Some p\<rparr>) q r'" (is "?L \<longleftrightarrow> ?R")
proof
  assume ?L
  then obtain po cs' where "c # cs = print_port po @ cs'"
    "uri_part e (p + length (print_port po)) cs' (port_request p po (r\<lparr>rq_host_end := Some p\<rparr>)) q r'"
    unfolding after_host_def by blast
  then show ?R using assms by (cases po) (auto simp: port_request_def)
next
  assume ?R
  then show ?L unfolding after_host_def by (intro exI [of _ None] exI [of _ "c # cs"]) (simp add: port_request_def)
qed

lemma after_host_start: "after_host e p cs r q r' \<Longrightarrow>
    \<exists>c cs'. cs = c # cs' \<and> (c = c_slash \<or> c = c_question \<or> c = c_space \<or> c = c_colon)"
  unfolding after_host_def using uri_part_start by (elim exE conjE, case_tac po) fastforce+

lemma host_end_ok:
  assumes "rq_end r = None" "rq_schema_end r = Some e"
  shows "req_loop mem pos sw_host_end p cs r = (NGX_OK, q, r') \<longleftrightarrow> after_host e p cs r q r'"
proof (cases cs)
  case Nil
  then show ?thesis using after_host_start [of e p "[]" r q r'] by auto
next
  case (Cons c cs1)
  show ?thesis
  proof (cases "c = c_colon")
    case True
    then show ?thesis using Cons after_host_colon [OF assms, of p cs1 q r' mem pos]
      by (simp add: do_sw_host_end_def)
  next
    case False
    then show ?thesis unfolding Cons after_host_other [OF False]
      using assms by (auto simp: do_sw_host_end_def Let_def uri_part_iff [of _ _ _ _ _ _ mem pos])
  qed
qed

lemma not_host [simp]: "\<not> is_host c_slash" "\<not> is_host c_question" "\<not> is_host c_space" "\<not> is_host c_colon" "\<not> is_host 0x5b"
  by (simp_all add: is_host_def is_alpha_def is_digit_def Let_def)

lemma host_ok:
  assumes "rq_end r = None" "rq_schema_end r = Some e"
  shows "req_loop mem pos sw_host p cs r = (NGX_OK, q, r') \<longleftrightarrow>
    (\<exists>w cs'. cs = w @ cs' \<and> list_all is_host w \<and> after_host e (p + length w) cs' r q r')"
proof (rule loop_stay_then)
  show "req_loop mem pos sw_host p (c # cs') r = (NGX_OK, q, r') \<longleftrightarrow> after_host e p (c # cs') r q r'"
    if "\<not> is_host c" for p c cs'
    using that unfolding host_end_ok [OF assms, symmetric, where mem = mem and pos = pos] by (auto simp: do_sw_host_def is_host_def)
  show "\<exists>c cs'. cs = c # cs' \<and> \<not> is_host c" if "after_host e p cs r q r'" for p cs
    using after_host_start [OF that] by auto
qed (auto simp: do_sw_host_def is_host_def)

lemma literal_step:
  "do_sw_host_ip_literal c r =
    (if is_literal c then Next sw_host_ip_literal r
     else if c = 0x5d then Next sw_host_end r else Fail NGX_HTTP_PARSE_INVALID_REQUEST r)"
  by (auto simp: do_sw_host_ip_literal_def is_literal_def ascii_def is_digit_def is_alpha_def Let_def)

lemma literal_ok:
  assumes "rq_end r = None" "rq_schema_end r = Some e"
  shows "req_loop mem pos sw_host_ip_literal p cs r = (NGX_OK, q, r') \<longleftrightarrow>
    (\<exists>w cs'. cs = w @ cs' \<and> list_all is_literal w \<and> (\<exists>cs2. cs' = 0x5d # cs2 \<and> after_host e (p + length w + 1) cs2 r q r'))"
proof (rule loop_stay_then)
  have "\<not> is_literal 0x5d" by (simp add: is_literal_def ascii_def is_digit_def is_alpha_def Let_def)
  then show "\<exists>c cs'. cs = c # cs' \<and> \<not> is_literal c" if "\<exists>cs2. cs = 0x5d # cs2 \<and> after_host e (p + 1) cs2 r q r'" for p cs
    using that by auto
qed (auto simp: literal_step host_end_ok assms)

lemma host_start_ok:
  assumes "rq_end r = None" "rq_schema_end r = Some e"
  shows "req_loop mem pos sw_host_start p cs r = (NGX_OK, q, r') \<longleftrightarrow>
    (\<exists>h cs'. cs = h @ cs' \<and> wf_host h \<and> after_host e (p + length h) cs' (r\<lparr>rq_host_start := Some p\<rparr>) q r')" (is "?L \<longleftrightarrow> ?R")
proof (cases cs)
  case Nil
  then show ?thesis using after_host_start [of e p "[]"] by auto
next
  case (Cons c cs1)
  let ?r = "r\<lparr>rq_host_start := Some p\<rparr>"
  show ?thesis
  proof (cases "c = 0x5b")
    case True
    have L: "?L \<longleftrightarrow> (\<exists>w cs'. cs1 = w @ cs' \<and> list_all is_literal w \<and> (\<exists>cs2. cs' = 0x5d # cs2 \<and> after_host e (p + 1 + length w + 1) cs2 ?r q r'))"
      using True assms by (simp add: Cons do_sw_host_start_def literal_ok)
    show ?thesis
    proof
      assume ?L
      then obtain w cs2 where "cs1 = w @ 0x5d # cs2" "list_all is_literal w" "after_host e (p + 1 + length w + 1) cs2 ?r q r'"
        unfolding L by blast
      then show ?R using True Cons by (intro exI [of _ "[0x5b] @ w @ [0x5d]"] exI [of _ cs2]) (auto simp: wf_host_def)
    next
      assume ?R
      then obtain h cs' where h: "cs = h @ cs'" "wf_host h" "after_host e (p + length h) cs' ?r q r'" by blast
      have "\<not> list_all is_host h" using h(1) Cons True after_host_start [OF h(3)] by (cases h) auto
      with h(2) obtain w where w: "h = [0x5b] @ w @ [0x5d]" "list_all is_literal w" unfolding wf_host_def by blast
      with h Cons show ?L unfolding L by (intro exI [of _ w] exI [of _ "0x5d # cs'"]) auto
    qed
  next
    case False
    have L: "?L \<longleftrightarrow> (\<exists>w cs'. cs = w @ cs' \<and> list_all is_host w \<and> after_host e (p + length w) cs' ?r q r')"
      using False assms host_ok [of ?r e mem pos p cs q r'] by (simp add: Cons do_sw_host_start_def)
    show ?thesis unfolding L using False Cons by (auto simp: wf_host_def) 
  qed
qed

lemma is_scheme_not [simp]: "\<not> is_scheme c_colon"
  by (simp add: is_scheme_def is_alpha_def is_digit_def Let_def)

definition after_scheme :: "nat \<Rightarrow> bytes \<Rightarrow> request \<Rightarrow> nat \<Rightarrow> request \<Rightarrow> bool" where
  "after_scheme p cs r q r' \<longleftrightarrow> (\<exists>h cs'. cs = ascii ''://'' @ h @ cs' \<and> wf_host h \<and>
     after_host p (p + 3 + length h) cs' (r\<lparr>rq_schema_end := Some p, rq_host_start := Some (p + 3)\<rparr>) q r')"

lemma schema_ok:
  assumes "rq_end r = None"
  shows "req_loop mem pos sw_schema p cs r = (NGX_OK, q, r') \<longleftrightarrow>
    (\<exists>w cs'. cs = w @ cs' \<and> list_all is_scheme w \<and> after_scheme (p + length w) cs' r q r')"
proof (rule loop_stay_then)
  have slashes: "req_loop mem pos sw_schema_slash p cs r = (NGX_OK, q, r') \<longleftrightarrow>
      (\<exists>cs'. cs = c_slash # c_slash # cs' \<and> req_loop mem pos sw_host_start (p + 2) cs' r = (NGX_OK, q, r'))" for p cs r
    by (subst expect_ok [of mem sw_schema_slash], simp, subst expect_ok [of mem sw_schema_slash_slash], simp) auto
  show "req_loop mem pos sw_schema p (c # cs') r = (NGX_OK, q, r') \<longleftrightarrow> after_scheme p (c # cs') r q r'"
    if "\<not> is_scheme c" for p c cs'
    using that assms
    by (auto simp: do_sw_schema_def is_scheme_def after_scheme_def ascii_def slashes host_start_ok eval_nat_numeral)
  show "\<exists>c cs'. cs = c # cs' \<and> \<not> is_scheme c" if "after_scheme p cs r q r'" for p cs
    using that by (auto simp: after_scheme_def ascii_def)
qed (auto simp: do_sw_schema_def is_scheme_def)

definition bare :: "req_target \<Rightarrow> bool" where
  "bare t \<longleftrightarrow> (case t of Origin u \<Rightarrow> False | Absolute s h po u \<Rightarrow> u = [])"

definition target_part :: "nat \<Rightarrow> bytes \<Rightarrow> request \<Rightarrow> nat \<Rightarrow> request \<Rightarrow> bool" where
  "target_part p cs r q r' \<longleftrightarrow> (\<exists>t cs'. cs = print_target t @ cs' \<and> wf_target t \<and> (bare t \<longrightarrow> (\<exists>cs2. cs' = c_space # cs2)) \<and>
     tail_end (p + length (print_target t)) cs' (target_request p t r) q r')"

lemma not_alpha [simp]: "\<not> is_alpha c_slash" "\<not> is_alpha c_space"
  by (simp_all add: is_alpha_def Let_def)

lemma target_part_start: "target_part p cs r q r' \<Longrightarrow> \<exists>c cs'. cs = c # cs' \<and> (c = c_slash \<or> is_alpha c)"
  by (auto simp: target_part_def wf_uri_def elim!: wf_target.elims)

lemma target_part_slash:
  "target_part p (c_slash # cs) r q r' \<longleftrightarrow> uri_part 0 p (c_slash # cs) r q r'" (is "?L \<longleftrightarrow> ?R")
proof
  assume ?L
  then obtain t cs' where t: "c_slash # cs = print_target t @ cs'" "wf_target t"
    "tail_end (p + length (print_target t)) cs' (target_request p t r) q r'" unfolding target_part_def by blast
  then show ?R by (cases t) (auto simp: uri_part_def)
next
  assume ?R
  then obtain u cs' where u: "c_slash # cs = u @ cs'" "wf_uri u" "tail_end (p + length u) cs' (uri_request 0 p u r) q r'"
    unfolding uri_part_def by auto
  then have "hd u = c_slash" by (cases u) (auto simp: wf_uri_def)
  with u show ?L unfolding target_part_def
    by (intro exI [of _ "Origin u"] exI [of _ cs']) (simp add: bare_def)
qed

lemma after_scheme_iff:
  "after_scheme e cs r q r' \<longleftrightarrow> (\<exists>h po u cs'. cs = ascii ''://'' @ h @ print_port po @ u @ cs' \<and> wf_host h \<and>
      (case po of None \<Rightarrow> True | Some ds \<Rightarrow> list_all is_digit ds) \<and> (u = [] \<and> (\<exists>cs2. cs' = c_space # cs2) \<or> wf_uri u) \<and>
      tail_end (e + 3 + length h + length (print_port po) + length u) cs' (authority_request e h po u r) q r')" (is "?L \<longleftrightarrow> ?R")
proof
  assume ?L
  then obtain h po u cs' cs1 cs2 where "cs = ascii ''://'' @ h @ cs1" "wf_host h" "cs1 = print_port po @ cs2" "cs2 = u @ cs'"
    "case po of None \<Rightarrow> True | Some ds \<Rightarrow> list_all is_digit ds" "u = [] \<and> (\<exists>cs2. cs' = c_space # cs2) \<or> wf_uri u"
    "tail_end (e + 3 + length h + length (print_port po) + length u) cs' (authority_request e h po u r) q r'"
    unfolding after_scheme_def after_host_def uri_part_def authority_request_def Let_def by blast
  then show ?R by (intro exI [of _ h] exI [of _ po] exI [of _ u] exI [of _ cs'] conjI) simp_all
next
  assume ?R
  then obtain h po u cs' where "cs = ascii ''://'' @ h @ print_port po @ u @ cs'" "wf_host h"
    "case po of None \<Rightarrow> True | Some ds \<Rightarrow> list_all is_digit ds" "u = [] \<and> (\<exists>cs2. cs' = c_space # cs2) \<or> wf_uri u"
    "tail_end (e + 3 + length h + length (print_port po) + length u) cs' (authority_request e h po u r) q r'" by blast
  then show ?L unfolding after_scheme_def after_host_def uri_part_def authority_request_def Let_def
    by (intro exI [of _ h] exI [of _ "print_port po @ u @ cs'"] exI [of _ po] exI [of _ "u @ cs'"] exI [of _ u] exI [of _ cs'] conjI)
      simp_all
qed

lemma target_part_alpha:
  assumes "rq_end r = None" "is_alpha c"
  shows "target_part p (c # cs) r q r' \<longleftrightarrow>
    req_loop mem pos sw_schema (p + 1) cs (r\<lparr>rq_schema_start := Some p\<rparr>) = (NGX_OK, q, r')" (is "?L \<longleftrightarrow> ?R")
proof -
  have R: "?R \<longleftrightarrow> (\<exists>w cs'. cs = w @ cs' \<and> list_all is_scheme w \<and> after_scheme (p + 1 + length w) cs' (r\<lparr>rq_schema_start := Some p\<rparr>) q r')"
    by (rule schema_ok) (simp add: assms)
  show ?thesis
  proof
    assume ?L
    then obtain t cs' where t: "c # cs = print_target t @ cs'" "wf_target t" "bare t \<longrightarrow> (\<exists>cs2. cs' = c_space # cs2)"
      "tail_end (p + length (print_target t)) cs' (target_request p t r) q r'" unfolding target_part_def by blast
    show ?R
    proof (cases t)
      case (Origin u)
      then show ?thesis using t assms by (auto simp: wf_uri_def)
    next
      case (Absolute s h po u)
      then obtain w where w: "s = c # w" "cs = w @ ascii ''://'' @ h @ print_port po @ u @ cs'" "list_all is_scheme w"
        using t by auto
      have len: "p + length (print_target t) = p + 1 + length w + 3 + length h + length (print_port po) + length u"
        by (simp add: Absolute w ascii_def)
      have tail: "tail_end (p + 1 + length w + 3 + length h + length (print_port po) + length u) cs'
          (authority_request (p + 1 + length w) h po u (r\<lparr>rq_schema_start := Some p\<rparr>)) q r'"
        using t(4) unfolding len by (simp add: Absolute w)
      have pieces: "wf_host h" "case po of None \<Rightarrow> True | Some ds \<Rightarrow> list_all is_digit ds"
        "u = [] \<and> (\<exists>cs2. cs' = c_space # cs2) \<or> wf_uri u" using t(2,3) Absolute by (auto simp: bare_def)
      have "after_scheme (p + 1 + length w) (ascii ''://'' @ h @ print_port po @ u @ cs') (r\<lparr>rq_schema_start := Some p\<rparr>) q r'"
        unfolding after_scheme_iff using pieces tail by blast
      with w show ?thesis unfolding R by blast
    qed
  next
    assume ?R
    then obtain w h po u cs' where w: "cs = w @ ascii ''://'' @ h @ print_port po @ u @ cs'" "list_all is_scheme w" "wf_host h"
      "case po of None \<Rightarrow> True | Some ds \<Rightarrow> list_all is_digit ds" "u = [] \<and> (\<exists>cs2. cs' = c_space # cs2) \<or> wf_uri u"
      "tail_end (p + 1 + length w + 3 + length h + length (print_port po) + length u) cs'
         (authority_request (p + 1 + length w) h po u (r\<lparr>rq_schema_start := Some p\<rparr>)) q r'"
      unfolding R after_scheme_iff by blast
    have len: "p + length (print_target (Absolute (c # w) h po u)) =
        p + 1 + length w + 3 + length h + length (print_port po) + length u" by (simp add: ascii_def)
    have "wf_target (Absolute (c # w) h po u)" using assms(2) w by auto
    moreover have "bare (Absolute (c # w) h po u) \<longrightarrow> (\<exists>cs2. cs' = c_space # cs2)" using w(5) by (auto simp: bare_def wf_uri_def)
    moreover have "c # cs = print_target (Absolute (c # w) h po u) @ cs'" using w(1) by simp
    moreover have "tail_end (p + length (print_target (Absolute (c # w) h po u))) cs' (target_request p (Absolute (c # w) h po u) r) q r'"
      using w(6) unfolding len by simp
    ultimately show ?L unfolding target_part_def by blast
  qed
qed

lemma target_ok:
  assumes "rq_end r = None"
  shows "req_loop mem pos sw_spaces_before_uri p cs r = (NGX_OK, q, r') \<longleftrightarrow>
    (\<exists>n cs'. cs = spaces n @ cs' \<and> target_part (p + n) cs' r q r')"
proof (rule spaces_then)
  show "req_loop mem pos sw_spaces_before_uri p (c # cs') r = (NGX_OK, q, r') \<longleftrightarrow> target_part p (c # cs') r q r'"
    if "c \<noteq> c_space" for p c cs'
  proof -
    consider "c = c_slash" | "c \<noteq> c_slash" "is_alpha c" | "c \<noteq> c_slash" "\<not> is_alpha c" by blast
    then show ?thesis
    proof cases
      case 1
      then show ?thesis using uri_part_slash [OF assms, of 0 p cs' q r' mem pos]
        by (simp add: do_sw_spaces_before_uri_def target_part_slash)
    next
      case 2
      then show ?thesis using target_part_alpha [OF assms, of c p cs' q r' mem pos]
        by (simp add: do_sw_spaces_before_uri_def)
    next
      case 3
      then show ?thesis using that target_part_start [of p "c # cs'" r q r'] by (auto simp: do_sw_spaces_before_uri_def)
    qed
  qed
  show "\<exists>c cs'. cs = c # cs' \<and> c \<noteq> c_space" if "target_part p cs r q r'" for p cs
    using target_part_start [OF that] by auto
qed (simp add: do_sw_spaces_before_uri_def)


section \<open>The method and the whole line\<close>

definition is_crlf :: "u8 \<Rightarrow> bool" where
  "is_crlf c \<longleftrightarrow> c = c_cr \<or> c = c_lf"

lemma not_method [simp]: "\<not> is_method c_space" "\<not> is_method c_cr" "\<not> is_method c_lf"
  by (simp_all add: is_method_def)

lemma method_ok:
  "req_loop mem pos sw_method p cs r = (NGX_OK, q, r') \<longleftrightarrow>
    (\<exists>w cs'. cs = w @ cs' \<and> list_all is_method w \<and> (\<exists>cs2. cs' = c_space # cs2 \<and>
       req_loop mem pos sw_spaces_before_uri (p + length w + 1) cs2
         (r\<lparr>rq_method_end := Some (p + length w - 1),
            rq_method := method_code (take (p + length w - rq_start r) (drop (rq_start r) mem)) (rq_method r)\<rparr>) = (NGX_OK, q, r')))"
  by (rule loop_stay_then) (auto simp: do_sw_method_def Let_def)

lemma steps_start:
  "list_all is_crlf w \<Longrightarrow> steps mem sw_start p w r =
    Some (sw_start, r\<lparr>rq_start := (if w = [] then rq_start r else p + length w - 1)\<rparr>)"
  by (induction w arbitrary: p r) (auto simp: do_sw_start_def is_crlf_def Let_def)

lemma start_ok:
  "req_loop mem pos sw_start p cs r = (NGX_OK, q, r') \<longleftrightarrow>
    (\<exists>b c cs'. cs = b @ c # cs' \<and> list_all is_crlf b \<and> is_method c \<and>
       req_loop mem pos sw_method (p + length b + 1) cs' (r\<lparr>rq_start := p + length b\<rparr>) = (NGX_OK, q, r'))" (is "?L \<longleftrightarrow> ?R")
proof -
  have "?L \<longleftrightarrow> (\<exists>w c cs' x. cs = w @ c # cs' \<and> list_all is_crlf w \<and> \<not> is_crlf c \<and> Some (if w = [] then rq_start r else p + length w - 1) = Some x \<and>
       req_loop mem pos sw_start (p + length w) (c # cs') (r\<lparr>rq_start := x\<rparr>) = (NGX_OK, q, r'))"
    by (rule loop_cut_fold) (auto simp: do_sw_start_def is_crlf_def Let_def steps_start)
  also have "\<dots> \<longleftrightarrow> ?R"
  proof -
    have "\<not> is_crlf c \<and> req_loop mem pos sw_start p (c # cs') (r\<lparr>rq_start := x\<rparr>) = (NGX_OK, q, r') \<longleftrightarrow>
        is_method c \<and> req_loop mem pos sw_method (p + 1) cs' (r\<lparr>rq_start := p\<rparr>) = (NGX_OK, q, r')" for p c cs' x
      by (auto simp: do_sw_start_def is_crlf_def Let_def)
    then show ?thesis by blast
  qed
  finally show ?thesis .
qed

definition print_line :: "req_line \<Rightarrow> bytes" where
  "print_line ln = ln_blank ln @ ln_method ln @ [c_space] @ spaces (ln_gap ln) @ print_target (ln_target ln) @
     print_tail (ln_tail ln) @ eol (ln_cr ln)"

definition wf_line :: "req_line \<Rightarrow> bool" where
  "wf_line ln \<longleftrightarrow> list_all is_crlf (ln_blank ln) \<and> ln_method ln \<noteq> [] \<and> list_all is_method (ln_method ln) \<and>
     wf_target (ln_target ln) \<and> wf_tail (ln_tail ln) \<and>
     (bare (ln_target ln) \<longrightarrow> ln_tail ln \<noteq> Http09 0) \<and>
     (case ln_tail ln of Http09 n \<Rightarrow> ln_method ln = ascii ''GET'' | Http n ds k \<Rightarrow> True)"

definition line_request :: "nat \<Rightarrow> req_line \<Rightarrow> request \<Rightarrow> request" where
  "line_request pos ln r =
     (let s = pos + length (ln_blank ln);
          t = s + length (ln_method ln) + 1 + ln_gap ln;
          k = t + length (print_target (ln_target ln));
          r = r\<lparr>rq_start := s, rq_method_end := Some (s + length (ln_method ln) - 1),
                rq_method := method_code (ln_method ln) (rq_method r)\<rparr>;
          r = target_request t (ln_target ln) r;
          r = tail_request k (ln_tail ln) r
      in closed (k + length (print_tail (ln_tail ln))) r)"

lemma tail_space:
  "(\<exists>cs2. print_tail t @ eol cr @ rest = c_space # cs2) \<longleftrightarrow> t \<noteq> Http09 0"
  by (cases t; cases "case t of Http09 n \<Rightarrow> n | Http n ds k \<Rightarrow> n") (auto simp: eol_def)

lemma head_ok:
  assumes mem: "cs = drop pos mem"
  shows "req_loop mem pos sw_start pos cs r = (NGX_OK, q, r') \<longleftrightarrow>
    (\<exists>b m cs'. cs = b @ m @ c_space # cs' \<and> list_all is_crlf b \<and> m \<noteq> [] \<and> list_all is_method m \<and>
       req_loop mem pos sw_spaces_before_uri (pos + length b + length m + 1) cs'
         (r\<lparr>rq_start := pos + length b, rq_method_end := Some (pos + length b + length m - 1),
            rq_method := method_code m (rq_method r)\<rparr>) = (NGX_OK, q, r'))" (is "?L \<longleftrightarrow> ?R")
proof -
  have name: "take (length m) (drop (pos + length b) mem) = m" if "cs = b @ m @ c_space # cs'" for b m cs'
  proof -
    have "drop (pos + length b) mem = drop (length b) cs" using mem by (simp add: add.commute)
    then show ?thesis by (simp add: that)
  qed
  show ?thesis
  proof
    assume ?L
    then obtain b c cs1 where b: "cs = b @ c # cs1" "list_all is_crlf b" "is_method c"
      "req_loop mem pos sw_method (pos + length b + 1) cs1 (r\<lparr>rq_start := pos + length b\<rparr>) = (NGX_OK, q, r')"
      unfolding start_ok by blast
    from b(4) obtain w cs2 where w: "cs1 = w @ c_space # cs2" "list_all is_method w"
      "req_loop mem pos sw_spaces_before_uri (pos + length b + 1 + length w + 1) cs2
         (r\<lparr>rq_start := pos + length b, rq_method_end := Some (pos + length b + length w),
            rq_method := method_code (take (length (c # w)) (drop (pos + length b) mem)) (rq_method r)\<rparr>) = (NGX_OK, q, r')"
      unfolding method_ok by auto
    have "cs = b @ (c # w) @ c_space # cs2" using b(1) w(1) by simp
    from this name [OF this] b(2,3) w(2,3) show ?R
      by (intro exI [of _ b] exI [of _ "c # w"] exI [of _ cs2]) simp
  next
    assume ?R
    then obtain b m cs2 where b: "cs = b @ m @ c_space # cs2" "list_all is_crlf b" "m \<noteq> []" "list_all is_method m"
       "req_loop mem pos sw_spaces_before_uri (pos + length b + length m + 1) cs2
         (r\<lparr>rq_start := pos + length b, rq_method_end := Some (pos + length b + length m - 1),
            rq_method := method_code m (rq_method r)\<rparr>) = (NGX_OK, q, r')" by blast
    then obtain c w where m: "m = c # w" by (cases m) auto
    have "req_loop mem pos sw_method (pos + length b + 1) (w @ c_space # cs2) (r\<lparr>rq_start := pos + length b\<rparr>) = (NGX_OK, q, r')"
      unfolding method_ok using b(4,5) m name [OF b(1)]
      by (intro exI [of _ w] exI [of _ "c_space # cs2"]) simp
    with b m show ?L unfolding start_ok by auto
  qed
qed

lemma line_ok:
  assumes r: "rq_end r = None" and mem: "cs = drop pos mem"
  shows "req_loop mem pos sw_start pos cs r = (NGX_OK, q, r') \<longleftrightarrow>
    (\<exists>ln rest. cs = print_line ln @ rest \<and> list_all is_crlf (ln_blank ln) \<and> ln_method ln \<noteq> [] \<and> list_all is_method (ln_method ln) \<and>
      wf_target (ln_target ln) \<and> wf_tail (ln_tail ln) \<and> (bare (ln_target ln) \<longrightarrow> ln_tail ln \<noteq> Http09 0) \<and>
      q = pos + length (print_line ln) \<and> r' = line_request pos ln r \<and>
      (rq_http_version r' = 9 \<longrightarrow> rq_method r' = NGX_HTTP_GET))" (is "?L \<longleftrightarrow> ?R")
proof
  let ?r = "\<lambda>b m. r\<lparr>rq_start := pos + length b, rq_method_end := Some (pos + length b + length m - 1),
            rq_method := method_code m (rq_method r)\<rparr>"
  {
    assume ?L
    then obtain b m cs1 where b: "cs = b @ m @ c_space # cs1" "list_all is_crlf b" "m \<noteq> []" "list_all is_method m"
       "req_loop mem pos sw_spaces_before_uri (pos + length b + length m + 1) cs1 (?r b m) = (NGX_OK, q, r')"
      unfolding head_ok [OF mem] by blast
    from b(5) obtain n t cs2 where t: "cs1 = spaces n @ print_target t @ cs2" "wf_target t" "bare t \<longrightarrow> (\<exists>cs3. cs2 = c_space # cs3)"
      "tail_end (pos + length b + length m + 1 + n + length (print_target t)) cs2
         (target_request (pos + length b + length m + 1 + n) t (?r b m)) q r'"
      by (subst (asm) target_ok) (auto simp: r target_part_def)
    from t(4) obtain l cr rest where l: "cs2 = print_tail l @ eol cr @ rest" "wf_tail l"
      "r' = line_request pos \<lparr>ln_blank = b, ln_method = m, ln_gap = n, ln_target = t, ln_tail = l, ln_cr = cr\<rparr> r"
      "q = pos + length (print_line \<lparr>ln_blank = b, ln_method = m, ln_gap = n, ln_target = t, ln_tail = l, ln_cr = cr\<rparr>)"
      "rq_http_version r' = 9 \<longrightarrow> rq_method r' = NGX_HTTP_GET"
      by (auto simp: tail_end_def line_end_def line_request_def Let_def print_line_def ac_simps)
    with b t show ?R
      by (intro exI [of _ "\<lparr>ln_blank = b, ln_method = m, ln_gap = n, ln_target = t, ln_tail = l, ln_cr = cr\<rparr>"] exI [of _ rest])
        (auto simp: print_line_def tail_space)
  }
  assume ?R
  then obtain ln rest where ln: "cs = print_line ln @ rest" "list_all is_crlf (ln_blank ln)" "ln_method ln \<noteq> []"
    "list_all is_method (ln_method ln)" "wf_target (ln_target ln)" "wf_tail (ln_tail ln)"
    "bare (ln_target ln) \<longrightarrow> ln_tail ln \<noteq> Http09 0" "q = pos + length (print_line ln)" "r' = line_request pos ln r"
    "rq_http_version r' = 9 \<longrightarrow> rq_method r' = NGX_HTTP_GET" by blast
  let ?b = "ln_blank ln" and ?m = "ln_method ln"
  define cs2 where "cs2 = print_tail (ln_tail ln) @ eol (ln_cr ln) @ rest"
  have "tail_end (pos + length ?b + length ?m + 1 + ln_gap ln + length (print_target (ln_target ln))) cs2
      (target_request (pos + length ?b + length ?m + 1 + ln_gap ln) (ln_target ln) (?r ?b ?m)) q r'"
    unfolding tail_end_def line_end_def cs2_def using ln(6,8-10)
    by (intro exI [of _ "ln_tail ln"] exI [of _ "eol (ln_cr ln) @ rest"] conjI exI [of _ "ln_cr ln"] exI [of _ rest])
      (auto simp: line_request_def Let_def print_line_def)
  then have "target_part (pos + length ?b + length ?m + 1 + ln_gap ln) (print_target (ln_target ln) @ cs2) (?r ?b ?m) q r'"
    unfolding target_part_def using ln(5,7) tail_space cs2_def by blast
  then have "req_loop mem pos sw_spaces_before_uri (pos + length ?b + length ?m + 1)
      (spaces (ln_gap ln) @ print_target (ln_target ln) @ cs2) (?r ?b ?m) = (NGX_OK, q, r')"
    by (subst target_ok) (auto simp: r)
  moreover have "cs = ?b @ ?m @ c_space # spaces (ln_gap ln) @ print_target (ln_target ln) @ cs2"
    using ln(1) by (simp add: print_line_def cs2_def)
  ultimately show ?L unfolding head_ok [OF mem] using ln(2-4) by blast
qed

text \<open>The path states set five fields only.\<close>

definition unmarked :: "request \<Rightarrow> request" where
  "unmarked r = r\<lparr>rq_uri_ext := None, rq_args_start := None, rq_complex_uri := False, rq_quoted_uri := False,
     rq_plus_in_uri := False\<rparr>"

lemma path_step_unmarked:
  "in_path st \<Longrightarrow> is_uri c \<Longrightarrow> req_char mem st p c r = Next st' r' \<Longrightarrow> unmarked r' = unmarked r"
  by (auto simp: in_path_def path_defs unmarked_def dest: is_uri_not split: if_splits)

lemma uri_marks_Nil [simp]: "uri_marks st p [] r = r"
  by (simp add: uri_marks_def)

lemma uri_marks_Cons:
  "req_char [] st p c r = Next st' r' \<Longrightarrow> in_path st' \<Longrightarrow> list_all is_uri w \<Longrightarrow>
    uri_marks st p (c # w) r = uri_marks st' (p + 1) w r'"
  using path_steps [of st' w "[]" "p + 1" r'] by (auto simp: uri_marks_def)

lemma uri_marks_unmarked:
  "in_path st \<Longrightarrow> list_all is_uri w \<Longrightarrow> unmarked (uri_marks st p w r) = unmarked r"
proof (induction w arbitrary: st p r)
  case (Cons c w)
  then obtain st1 r1 where s: "req_char [] st p c r = Next st1 r1" "in_path st1"
    using path_step [of st c "[]" p r] by auto
  with Cons path_step_unmarked [OF _ _ s(1)] show ?case by (simp add: uri_marks_Cons)
qed simp

lemma unmarked_fields:
  assumes "unmarked r = unmarked s"
  shows "rq_http_major r = rq_http_major s" "rq_method r = rq_method s" "rq_uri_start r = rq_uri_start s"
    "rq_empty_path_in_uri r = rq_empty_path_in_uri s" "rq_http_minor r = rq_http_minor s" "rq_start r = rq_start s"
proof -
  show "rq_http_major r = rq_http_major s" using arg_cong [OF assms, of rq_http_major] by (simp add: unmarked_def)
  show "rq_method r = rq_method s" using arg_cong [OF assms, of rq_method] by (simp add: unmarked_def)
  show "rq_uri_start r = rq_uri_start s" using arg_cong [OF assms, of rq_uri_start] by (simp add: unmarked_def)
  show "rq_empty_path_in_uri r = rq_empty_path_in_uri s"
    using arg_cong [OF assms, of rq_empty_path_in_uri] by (simp add: unmarked_def)
  show "rq_http_minor r = rq_http_minor s" using arg_cong [OF assms, of rq_http_minor] by (simp add: unmarked_def)
  show "rq_start r = rq_start s" using arg_cong [OF assms, of rq_start] by (simp add: unmarked_def)
qed

lemmas uri_marks_fields = unmarked_fields [OF uri_marks_unmarked]

lemma uri_request_fields:
  assumes "u = [] \<or> wf_uri u"
  shows "rq_http_major (uri_request e p u r) = rq_http_major r" "rq_method (uri_request e p u r) = rq_method r"
  using assms by (auto simp: uri_request_def wf_uri_def uri_marks_fields in_path_def)

lemma port_request_fields [simp]:
  "rq_http_major (port_request p po r) = rq_http_major r" "rq_method (port_request p po r) = rq_method r"
  "rq_complex_uri (port_request p po r) = rq_complex_uri r" "rq_quoted_uri (port_request p po r) = rq_quoted_uri r"
  "rq_uri_ext (port_request p po r) = rq_uri_ext r" "rq_args_start (port_request p po r) = rq_args_start r"
  "rq_empty_path_in_uri (port_request p po r) = rq_empty_path_in_uri r"
  by (simp_all add: port_request_def split: option.split)

lemma target_request_fields:
  "wf_target t \<Longrightarrow> rq_http_major (target_request p t r) = rq_http_major r \<and> rq_method (target_request p t r) = rq_method r"
  by (cases t) (auto simp: authority_request_def Let_def uri_request_fields)

lemma tail_request_fields:
  "rq_method (tail_request p l r) = rq_method r"
  by (cases l) simp_all

lemma line_version:
  assumes "wf_target (ln_target ln)"
  shows "rq_http_version (line_request pos ln new_request) = 9 \<longleftrightarrow> (\<exists>n. ln_tail ln = Http09 n)"
    and "rq_method (line_request pos ln new_request) = method_code (ln_method ln) NGX_HTTP_UNKNOWN"
  using assms by (cases "ln_tail ln";
      simp add: line_request_def Let_def closed_def target_request_fields tail_request_fields new_request_def)+

lemmas method_codes = NGX_HTTP_UNKNOWN_def NGX_HTTP_GET_def NGX_HTTP_HEAD_def NGX_HTTP_POST_def NGX_HTTP_PUT_def
  NGX_HTTP_DELETE_def NGX_HTTP_MKCOL_def NGX_HTTP_COPY_def NGX_HTTP_MOVE_def NGX_HTTP_OPTIONS_def NGX_HTTP_PROPFIND_def
  NGX_HTTP_PROPPATCH_def NGX_HTTP_LOCK_def NGX_HTTP_UNLOCK_def NGX_HTTP_PATCH_def NGX_HTTP_TRACE_def NGX_HTTP_CONNECT_def

lemma if_neq: "a \<noteq> x \<Longrightarrow> b \<noteq> x \<Longrightarrow> (if c then a else b) \<noteq> x"
  by simp

lemma method_code_get: "method_code m NGX_HTTP_UNKNOWN = NGX_HTTP_GET \<longleftrightarrow> m = ascii ''GET''"
proof
  assume *: "method_code m NGX_HTTP_UNKNOWN = NGX_HTTP_GET"
  show "m = ascii ''GET''"
  proof (rule ccontr)
    assume "m \<noteq> ascii ''GET''"
    then have "method_code m NGX_HTTP_UNKNOWN \<noteq> NGX_HTTP_GET"
      unfolding method_code_def Let_def
      by (simp only: if_False simp_thms) (intro if_neq; simp add: method_codes)
    with * show False by simp
  qed
qed (simp add: method_code_def ascii_def)

section \<open>Exactness\<close>

lemma parse_line_exact:
  "ngx_http_parse_request_line mem pos new_request = (NGX_OK, q, r) \<longleftrightarrow>
    (\<exists>ln rest. drop pos mem = print_line ln @ rest \<and> wf_line ln \<and> q = pos + length (print_line ln) \<and>
       r = line_request pos ln new_request)" (is "?L \<longleftrightarrow> ?R")
proof -
  have get: "(rq_http_version (line_request pos ln new_request) = 9 \<longrightarrow> rq_method (line_request pos ln new_request) = NGX_HTTP_GET) \<longleftrightarrow>
      (case ln_tail ln of Http09 n \<Rightarrow> ln_method ln = ascii ''GET'' | Http n ds k \<Rightarrow> True)" if "wf_target (ln_target ln)" for ln
    using that by (auto simp: line_version method_code_get split: req_tail.splits)
  have "rq_state new_request = sw_start" "rq_end new_request = None" by (simp_all add: new_request_def)
  then show ?thesis
    unfolding ngx_http_parse_request_line_def wf_line_def
    by (simp only: line_ok refl) (use get in \<open>blast\<close>)
qed


end
