(* ===== verification/Ngx_Request_Uri.thy ===== *)
theory Ngx_Request_Uri
  imports Ngx_Request
begin

text \<open>
  nginx, \<^verbatim>\<open>ngx_http_process_request_uri\<close> of \<^verbatim>\<open>src/http/ngx_http_request.c\<close>: from the pointers left by the request
  line machine to the path, the extension and the arguments. A URI without escapes, dots and double
  slashes is used as it stands in the buffer, any other goes through the machine of \<^verbatim>\<open>Ngx_Complex_Uri\<close>.
  The shortcut is shown to give what the full machine gives, so that every accepted request has
  the path its specification says, and that path stays below the root.
\<close>

text \<open>
  \<^verbatim>\<open>ngx_http_process_request_uri\<close>: the strings for the rest of the server, \<^const>\<open>None\<close> when the URI is refused.
\<close>

record processed_uri =
  pu_uri :: bytes
  pu_exten :: bytes
  pu_args :: bytes
  pu_unparsed_uri :: bytes
  pu_valid_unparsed_uri :: bool

definition substr :: "bytes \<Rightarrow> nat \<Rightarrow> nat \<Rightarrow> bytes" where
  "substr mem a b = take (b - a) (drop a mem)"

definition ngx_http_process_request_uri :: "bytes \<Rightarrow> bool \<Rightarrow> request \<Rightarrow> processed_uri option" where
  "ngx_http_process_request_uri mem merge_slashes r =
     (let us = the (rq_uri_start r); ue = the (rq_uri_end r) in
      if rq_complex_uri r \<or> rq_quoted_uri r \<or> rq_empty_path_in_uri r then
        (case ngx_http_parse_complex_uri (rq_empty_path_in_uri r) merge_slashes (substr mem us ue) of
           None \<Rightarrow> None
         | Some u \<Rightarrow>
             Some \<lparr>pu_uri = ur_uri u, pu_exten = ur_exten u,
                   pu_args = (case ur_args u of None \<Rightarrow> [] | Some a \<Rightarrow> a),
                   pu_unparsed_uri = substr mem us ue, pu_valid_unparsed_uri = (\<not> rq_empty_path_in_uri r)\<rparr>)
      else
        let path_end = (case rq_args_start r of Some a \<Rightarrow> a - 1 | None \<Rightarrow> ue) in
        Some \<lparr>pu_uri = substr mem us path_end,
              pu_exten = (case rq_uri_ext r of Some e \<Rightarrow> substr mem e path_end | None \<Rightarrow> []),
              pu_args = (case rq_args_start r of
                           Some a \<Rightarrow> if ue > a then substr mem a ue else [] | None \<Rightarrow> []),
              pu_unparsed_uri = substr mem us ue, pu_valid_unparsed_uri = (\<not> rq_empty_path_in_uri r)\<rparr>)"

section \<open>The two ways to read a URI agree\<close>

definition flagged :: "request \<Rightarrow> bool" where
  "flagged r \<longleftrightarrow> rq_complex_uri r \<or> rq_quoted_uri r"

lemma path_step_flagged:
  "in_path st \<Longrightarrow> req_char mem st p c r = Next st' r' \<Longrightarrow> flagged r \<Longrightarrow> flagged r'"
  by (auto simp: in_path_def path_defs flagged_def split: if_splits)

lemma uri_marks_flagged:
  "in_path st \<Longrightarrow> list_all is_uri w \<Longrightarrow> flagged r \<Longrightarrow> flagged (uri_marks st p w r)"
proof (induction w arbitrary: st p r)
  case (Cons c w)
  then obtain st1 r1 where s: "req_char [] st p c r = Next st1 r1" "in_path st1"
    using path_step [of st c "[]" p r] by auto
  with Cons path_step_flagged [OF _ s(1)] show ?case by (simp add: uri_marks_Cons)
qed simp

text \<open>After the question mark the arguments may contain anything but a hash.\<close>

lemma uri_marks_args:
  "list_all is_uri w \<Longrightarrow> \<not> flagged (uri_marks sw_uri p w r) \<Longrightarrow> uri_marks sw_uri p w r = r \<and> c_hash \<notin> set w"
proof (induction w arbitrary: p r)
  case (Cons c w)
  then obtain st1 r1 where s: "req_char [] sw_uri p c r = Next st1 r1" "in_path st1"
    using path_step [of sw_uri c "[]" p r] by (auto simp: in_path_def)
  have st1: "st1 = sw_uri" using s is_uri_not [of c] Cons.prems(1) by (auto simp: do_sw_uri_def split: if_splits)
  have m: "uri_marks sw_uri p (c # w) r = uri_marks sw_uri (p + 1) w r1"
    using uri_marks_Cons [OF s, of w] Cons.prems(1) st1 by simp
  have "\<not> flagged r1" using Cons.prems uri_marks_flagged [of sw_uri w r1 "p + 1"] m by (auto simp: in_path_def)
  then have "c \<noteq> c_hash" "r1 = r"
    using s(1) is_uri_not [of c] Cons.prems(1) by (auto simp: do_sw_uri_def flagged_def usual_facts split: if_splits)
  with Cons m show ?case by simp
qed simp

definition matches :: "req_state \<Rightarrow> path_state \<Rightarrow> nat \<Rightarrow> nat \<Rightarrow> request \<Rightarrow> uri_ctx \<Rightarrow> bool" where
  "matches st s us p r ctx \<longleftrightarrow>
     (st = sw_check_uri \<and> s = sw_usual \<or> st = sw_after_slash_in_uri \<and> (s = sw_slash \<or> s = sw_usual)) \<and>
     us + length (uc_out ctx) = p \<and> rq_uri_ext r = map_option (\<lambda>e. us + e) (uc_ext ctx) \<and>
     rq_args_start r = None"

lemma plain_step:
  assumes "matches st s us p r ctx" "is_uri c" "c \<noteq> c_question" "req_char [] st p c r = Next st' r'" "\<not> flagged r'"
  shows "\<exists>s' ctx'. uri_char merge s c ctx = Goto s' ctx' \<and> uc_out ctx' = uc_out ctx @ [c] \<and> matches st' s' us (p + 1) r' ctx'"
  using assms is_uri_not [OF assms(2)]
  by (auto simp: matches_def path_defs uri_char_def put_def flagged_def usual_facts split: if_splits)

lemma plain_prefix:
  assumes "matches st s us p r ctx" "list_all is_uri w" "c_question \<notin> set w" "\<not> flagged (uri_marks st p w r)"
  shows "\<exists>st' s' ctx'. steps [] st p w r = Some (st', uri_marks st p w r) \<and>
    matches st' s' us (p + length w) (uri_marks st p w r) ctx' \<and> uc_out ctx' = uc_out ctx @ w \<and>
    (\<forall>rest. uri_loop merge (Plain s) (w @ rest) ctx = uri_loop merge (Plain s') rest ctx')"
  using assms
proof (induction w arbitrary: st s p r ctx)
  case Nil
  then show ?case by auto
next
  case (Cons c w)
  have path: "in_path st" using Cons.prems(1) by (auto simp: matches_def in_path_def)
  obtain st1 r1 where s: "req_char [] st p c r = Next st1 r1" "in_path st1"
    using path_step [OF path, of c "[]" p r] Cons.prems(2) by auto
  have m: "uri_marks st p (c # w) r = uri_marks st1 (p + 1) w r1"
    using uri_marks_Cons [OF s, of w] Cons.prems(2) by simp
  have fl: "\<not> flagged r1" using Cons.prems uri_marks_flagged [OF s(2), of w r1 "p + 1"] m by auto
  obtain s1 ctx1 where c: "uri_char merge s c ctx = Goto s1 ctx1" "uc_out ctx1 = uc_out ctx @ [c]"
    "matches st1 s1 us (p + 1) r1 ctx1"
    using plain_step [OF Cons.prems(1) _ _ s(1) fl, of merge] Cons.prems(2,3) by auto
  from Cons.IH [OF c(3)] Cons.prems(2-4) m show ?case
    by (auto simp: s(1) c(1,2) uri_loop.simps(2))
qed

lemma uri_marks_append:
  "steps [] st p a r = Some (st', r') \<Longrightarrow> in_path st' \<Longrightarrow> list_all is_uri b \<Longrightarrow>
    uri_marks st p (a @ b) r = uri_marks st' (p + length a) b r'"
  using path_steps [of st' b "[]" "p + length a" r'] by (auto simp: uri_marks_def steps_append)

lemma plain_question:
  assumes "matches st s us p r ctx"
  shows "req_char [] st p c_question r = Next sw_uri (r\<lparr>rq_args_start := Some (p + 1)\<rparr>)"
    and "uri_loop merge (Plain s) (c_question # rest) ctx = Exit_Args ctx rest"
    and "uri_loop merge (Plain s) [] ctx = Exit_Done ctx" and "in_path st"
  using assms by (auto simp: matches_def path_defs uri_char_def usual_facts uri_loop.simps(2) in_path_def)

text \<open>What the full parser would give for the URI \<open>u\<close>.\<close>

definition full_parse :: "bool \<Rightarrow> bool \<Rightarrow> bytes \<Rightarrow> processed_uri option" where
  "full_parse empty_path merge u =
     map_option (\<lambda>x. \<lparr>pu_uri = ur_uri x, pu_exten = ur_exten x, pu_args = (case ur_args x of None \<Rightarrow> [] | Some a \<Rightarrow> a),
         pu_unparsed_uri = u, pu_valid_unparsed_uri = (\<not> empty_path)\<rparr>)
       (ngx_http_parse_complex_uri empty_path merge u)"

lemma substr_sub:
  assumes "substr mem us (us + length u) = u" "b \<le> length u"
  shows "substr mem (us + a) (us + b) = take (b - a) (drop a u)"
proof -
  have u: "take (length u) (drop us mem) = u" using assms(1) by (simp add: substr_def)
  have "take (b - a) (drop a u) = take (b - a) (drop a (take (length u) (drop us mem)))" by (simp only: u)
  also have "\<dots> = take (min (b - a) (length u - a)) (drop (us + a) mem)"
    by (simp add: drop_take min.commute add.commute)
  also have "min (b - a) (length u - a) = b - a" using assms(2) by simp
  finally show ?thesis by (simp add: substr_def)
qed

lemma uri_loop_slash:
  "uri_loop merge (Plain sw_usual) (c_slash # w) \<lparr>uc_out = [], uc_ext = None, uc_plus = False, uc_quoted = False\<rparr> =
    uri_loop merge (Plain sw_slash) w \<lparr>uc_out = [c_slash], uc_ext = None, uc_plus = False, uc_quoted = False\<rparr>"
  by (simp add: uri_loop.simps(2) uri_char_def usual_facts put_def)

lemma drop_path: "drop (length (takeWhile P w)) w = dropWhile P w"
  by (simp add: dropWhile_eq_drop)

lemma question_cases:
  fixes w :: bytes
  obtains "c_question \<notin> set w" | path rest where "w = path @ c_question # rest" "c_question \<notin> set path"
  by (meson split_list_first)

lemma fast_path:
  assumes u: "substr mem us (us + length u) = u" "u = c_slash # w" "list_all is_uri w"
    and r: "rq_uri_start r = Some us" "rq_uri_end r = Some (us + length u)" "\<not> flagged r" "\<not> rq_empty_path_in_uri r"
    and marks: "rq_uri_ext r = rq_uri_ext m" "rq_args_start r = rq_args_start m" "flagged r = flagged m"
      "m = uri_marks sw_after_slash_in_uri (us + 1) w rs" "rq_uri_ext rs = None" "rq_args_start rs = None"
  shows "ngx_http_process_request_uri mem merge r = full_parse False merge u"
proof -
  let ?ctx = "\<lparr>uc_out = [c_slash], uc_ext = None, uc_plus = False, uc_quoted = False\<rparr>"
  have start: "matches sw_after_slash_in_uri sw_slash us (us + 1) rs ?ctx" using marks by (simp add: matches_def)
  have ext: "substr mem (us + e) (us + (1 + n)) = drop e (take (1 + n) u)" if "n \<le> length w" for e n
  proof -
    have "substr mem (us + e) (us + (1 + n)) = take (1 + n - e) (drop e u)"
      by (rule substr_sub [OF u(1)]) (use that u(2) in simp)
    then show ?thesis by (simp only: drop_take)
  qed
  show ?thesis
  proof (cases rule: question_cases [of w])
    case 1
    from plain_prefix [OF start u(3) 1, of merge] r(3) marks(3,4) obtain st s ctx where
      p: "matches st s us (us + 1 + length w) m ctx" "uc_out ctx = u"
      "\<And>rest. uri_loop merge (Plain sw_slash) (w @ rest) ?ctx = uri_loop merge (Plain s) rest ctx"
      by (auto simp: u(2))
    have "uri_loop merge (Plain sw_slash) w ?ctx = Exit_Done ctx" using p(3) [of "[]"] plain_question(3) [OF p(1), of merge] by simp
    moreover have "rq_args_start r = None" "rq_uri_ext r = map_option (\<lambda>e. us + e) (uc_ext ctx)"
      using p(1) marks(1,2) by (simp_all add: matches_def)
    moreover have "substr mem (us + e) (us + length u) = drop e u" for e using ext [of "length w" e] u(2) by simp
    ultimately show ?thesis using r u(1) p(2)
      by (auto simp: ngx_http_process_request_uri_def full_parse_def ngx_http_parse_complex_uri_def u(2) uri_loop_slash
          uri_exten_def flagged_def Let_def split: option.split)
  next
    case (2 path rest)
    have l: "list_all is_uri path" "list_all is_uri rest" using u(3) 2 by simp_all
    let ?n = "us + 1 + length path" and ?m1 = "uri_marks sw_after_slash_in_uri (us + 1) path rs"
    obtain st1 where s1: "steps [] sw_after_slash_in_uri (us + 1) path rs = Some (st1, ?m1)" "in_path st1"
      using path_steps [of sw_after_slash_in_uri path "[]" "us + 1" rs] l(1) by (auto simp: in_path_def uri_marks_def)
    have q: "list_all is_uri (c_question # rest)" using l(2) by (simp add: is_uri_def)
    have m1: "m = uri_marks st1 ?n (c_question # rest) ?m1" unfolding marks(4) 2(1) by (rule uri_marks_append [OF s1 q])
    have fl: "\<not> flagged ?m1" using uri_marks_flagged [OF s1(2) q] m1 r(3) marks(3) by metis
    from plain_prefix [OF start l(1) 2(2) fl, of merge] s1(1) obtain s ctx where
      p: "matches st1 s us ?n ?m1 ctx" "uc_out ctx = c_slash # path"
      "\<And>rest. uri_loop merge (Plain sw_slash) (path @ rest) ?ctx = uri_loop merge (Plain s) rest ctx"
      by auto
    have "m = uri_marks sw_uri (?n + 1) rest (?m1\<lparr>rq_args_start := Some (?n + 1)\<rparr>)"
      unfolding m1 by (rule uri_marks_Cons [OF plain_question(1) [OF p(1)] _ l(2)]) (simp add: in_path_def)
    with uri_marks_args [OF l(2)] r(3) marks(3) have m: "m = ?m1\<lparr>rq_args_start := Some (?n + 1)\<rparr>" and h: "c_hash \<notin> set rest"
      by metis+
    have f: "rq_args_start r = Some (?n + 1)" "rq_uri_ext r = map_option (\<lambda>e. us + e) (uc_ext ctx)"
      using p(1) marks(1,2) m by (simp_all add: matches_def)
    have e: "uri_loop merge (Plain sw_slash) w ?ctx = Exit_Args ctx rest"
      using p(3) [of "c_question # rest"] plain_question(2) [OF p(1), of merge rest] 2(1) by simp
    have len: "length u = 2 + length path + length rest" using u(2) 2(1) by simp
    have a: "substr mem (us + 2 + length path) (us + length u) = rest"
      using substr_sub [OF u(1) order_refl, of "2 + length path"] u(2) 2(1) by (simp add: add.assoc)
    have x: "substr mem (us + e) ?n = drop e (c_slash # path)" for e
      using ext [of "length path" e] u(2) 2(1) by (simp add: add.assoc)
    have t: "takeWhile (\<lambda>c. c \<noteq> c_hash) rest = rest" using h by (subst takeWhile_eq_all_conv) auto
    show ?thesis using r u(1) p(2) f e a x [of 0] x len
      by (auto simp: ngx_http_process_request_uri_def full_parse_def ngx_http_parse_complex_uri_def u(2) uri_loop_slash
          uri_exten_def flagged_def Let_def t split: option.split)
  qed
qed

definition uri_view :: "request \<Rightarrow> nat option \<times> nat option \<times> nat option \<times> nat option \<times> bool \<times> bool \<times> bool" where
  "uri_view r = (rq_uri_start r, rq_uri_end r, rq_uri_ext r, rq_args_start r, rq_complex_uri r, rq_quoted_uri r,
     rq_empty_path_in_uri r)"

lemma process_view: "uri_view r = uri_view s \<Longrightarrow>
    ngx_http_process_request_uri mem merge r = ngx_http_process_request_uri mem merge s"
  unfolding uri_view_def ngx_http_process_request_uri_def prod.inject by (elim conjE) (simp only:)

lemma line_view:
  "uri_view (line_request pos ln r) =
    uri_view (target_request (pos + length (ln_blank ln) + length (ln_method ln) + 1 + ln_gap ln) (ln_target ln)
      (r\<lparr>rq_start := pos + length (ln_blank ln), rq_method_end := Some (pos + length (ln_blank ln) + length (ln_method ln) - 1),
         rq_method := method_code (ln_method ln) (rq_method r)\<rparr>))"
  by (cases "ln_tail ln") (simp_all add: line_request_def Let_def closed_def uri_view_def)

definition clear :: "request \<Rightarrow> bool" where
  "clear r \<longleftrightarrow> rq_uri_ext r = None \<and> rq_args_start r = None \<and> \<not> rq_complex_uri r \<and> \<not> rq_quoted_uri r \<and> \<not> rq_empty_path_in_uri r"

lemma uri_request_process:
  assumes r: "clear r" and u: "u = [] \<or> wf_uri u"
    and src: "if u = [] then substr mem (e + 1) (e + 2) = [c_slash] else substr mem p (p + length u) = u"
  shows "ngx_http_process_request_uri mem merge (uri_request e p u r) =
      full_parse (u \<noteq> [] \<and> hd u = c_question) merge (if u = [] then [c_slash] else u) \<and>
    substr mem (the (rq_uri_start (uri_request e p u r))) (the (rq_uri_end (uri_request e p u r))) = (if u = [] then [c_slash] else u)"
proof (cases u)
  case Nil
  then have "ngx_http_process_request_uri mem merge (uri_request e p u r) = full_parse False merge [c_slash]"
    using r src by (intro fast_path [where us = "e + 1" and w = "[]" and m = r])
      (auto simp: uri_request_def clear_def flagged_def)
  then show ?thesis using Nil src by (simp add: uri_request_def)
next
  case (Cons c w)
  then have c: "c = c_slash \<or> c = c_question" "list_all is_uri w" using u by (auto simp: wf_uri_def)
  have t: "substr mem p (p + length u) = u" using src Cons by simp
  show ?thesis
  proof (cases "c = c_slash")
    case True
    let ?m = "uri_marks sw_after_slash_in_uri (p + 1) w (r\<lparr>rq_uri_start := Some p\<rparr>)"
    have q: "uri_request e p u r = ?m\<lparr>rq_uri_end := Some (p + length u)\<rparr>" using Cons True by (simp add: uri_request_def)
    have m: "rq_uri_start ?m = Some p" "\<not> rq_empty_path_in_uri ?m"
      using uri_marks_fields(3,4) [of sw_after_slash_in_uri w] c(2) r by (auto simp: in_path_def clear_def)
    have "ngx_http_process_request_uri mem merge (uri_request e p u r) = full_parse False merge u"
    proof (cases "flagged ?m")
      case True
      then show ?thesis using q t m
        by (auto simp: ngx_http_process_request_uri_def full_parse_def flagged_def Let_def split: option.split)
    next
      case False
      show ?thesis
        by (rule fast_path [where us = p and w = w and m = ?m and rs = "r\<lparr>rq_uri_start := Some p\<rparr>"])
          (use False q t m Cons \<open>c = c_slash\<close> c(2) r in \<open>auto simp: flagged_def clear_def\<close>)
    qed
    then show ?thesis using q m t Cons True by simp
  next
    case False
    let ?m = "uri_marks sw_uri (p + 1) w (r\<lparr>rq_uri_start := Some p, rq_args_start := Some (p + 1), rq_empty_path_in_uri := True\<rparr>)"
    have q: "uri_request e p u r = ?m\<lparr>rq_uri_end := Some (p + length u)\<rparr>" using Cons False by (simp add: uri_request_def)
    have m: "rq_uri_start ?m = Some p" "rq_empty_path_in_uri ?m"
      using uri_marks_fields(3,4) [of sw_uri w] c(2) by (auto simp: in_path_def)
    then show ?thesis using q t c False Cons
      by (auto simp: ngx_http_process_request_uri_def full_parse_def Let_def split: option.split)
  qed
qed

lemma drop_at: "drop a mem = xs @ ys \<Longrightarrow> drop (a + length xs) mem = ys"
  by (metis add.commute append_eq_conv_conj drop_drop)

lemma substr_at: "drop a mem = xs @ u @ ys \<Longrightarrow> substr mem (a + length xs) (a + length xs + length u) = u"
  by (simp add: substr_def drop_at)

fun target_uri :: "req_target \<Rightarrow> bytes" where
  "target_uri (Origin u) = u"
| "target_uri (Absolute s h po u) = (if u = [] then [c_slash] else u)"

lemma target_process:
  assumes "clear r" "wf_target t" "drop a mem = print_target t @ ys"
  shows "ngx_http_process_request_uri mem merge (target_request a t r) =
      full_parse (hd (target_uri t) = c_question) merge (target_uri t) \<and>
    substr mem (the (rq_uri_start (target_request a t r))) (the (rq_uri_end (target_request a t r))) = target_uri t \<and>
    wf_uri (target_uri t)"
proof (cases t)
  case (Origin u)
  have "substr mem a (a + length u) = u" using substr_at [of a mem "[]" u ys] assms(3) Origin by simp
  then show ?thesis using uri_request_process [OF assms(1), of u mem 0 a merge] assms(2) Origin by (auto simp: wf_uri_def)
next
  case (Absolute s h po u)
  let ?p = "a + length s + 3 + length h + length (print_port po)" and ?e = "a + length s"
  let ?r = "port_request (a + length s + 3 + length h) po (r\<lparr>rq_schema_start := Some a, rq_schema_end := Some ?e,
      rq_host_start := Some (?e + 3), rq_host_end := Some (?e + 3 + length h)\<rparr>)"
  have q: "target_request a t r = uri_request ?e ?p u ?r"
    by (simp add: Absolute authority_request_def Let_def)
  have len: "length (ascii ''://'') = 3" by (simp add: ascii_def)
  have "drop a mem = (s @ ascii ''://'' @ h @ print_port po) @ u @ ys" using assms(3) Absolute by simp
  from substr_at [OF this] have 1: "substr mem ?p (?p + length u) = u" by (simp add: len add.assoc)
  have "drop a mem = (s @ [c_colon]) @ [c_slash] @ (c_slash # h @ print_port po @ u @ ys)"
    using assms(3) Absolute by (simp add: ascii_def)
  from substr_at [OF this] have 2: "substr mem (?e + 1) (?e + 2) = [c_slash]" by simp
  have "clear ?r" using assms(1) by (simp add: clear_def)
  from uri_request_process [OF this, of u mem ?e ?p merge] 1 2 assms(2) Absolute show ?thesis
    unfolding q by (auto simp: wf_uri_def)
qed

lemma parsed_uri:
  assumes "ngx_http_parse_request_line mem pos new_request = (NGX_OK, q, r)"
  shows "let u = substr mem (the (rq_uri_start r)) (the (rq_uri_end r)) in wf_uri u \<and>
    ngx_http_process_request_uri mem merge r = full_parse (hd u = c_question) merge u"
proof -
  obtain ln rest where ln: "drop pos mem = print_line ln @ rest" "wf_line ln" "r = line_request pos ln new_request"
    using assms unfolding parse_line_exact by blast
  let ?a = "pos + length (ln_blank ln) + length (ln_method ln) + 1 + ln_gap ln"
  let ?r = "new_request\<lparr>rq_start := pos + length (ln_blank ln), rq_method_end := Some (pos + length (ln_blank ln) + length (ln_method ln) - 1),
         rq_method := method_code (ln_method ln) (rq_method new_request)\<rparr>"
  let ?xs = "ln_blank ln @ ln_method ln @ [c_space] @ spaces (ln_gap ln)"
  have "drop pos mem = ?xs @ print_target (ln_target ln) @ print_tail (ln_tail ln) @ eol (ln_cr ln) @ rest"
    using ln(1) by (simp add: print_line_def)
  then have "drop ?a mem = print_target (ln_target ln) @ print_tail (ln_tail ln) @ eol (ln_cr ln) @ rest"
    using drop_at [of pos mem ?xs] by (simp add: add.assoc)
  moreover have "clear ?r" by (simp add: clear_def new_request_def)
  moreover have "wf_target (ln_target ln)" using ln(2) by (simp add: wf_line_def)
  ultimately have t: "ngx_http_process_request_uri mem merge (target_request ?a (ln_target ln) ?r) =
      full_parse (hd (target_uri (ln_target ln)) = c_question) merge (target_uri (ln_target ln)) \<and>
    substr mem (the (rq_uri_start (target_request ?a (ln_target ln) ?r))) (the (rq_uri_end (target_request ?a (ln_target ln) ?r))) = target_uri (ln_target ln) \<and>
    wf_uri (target_uri (ln_target ln))" using target_process by blast
  have v: "uri_view r = uri_view (target_request ?a (ln_target ln) ?r)" unfolding ln(3) by (rule line_view)
  from v have "rq_uri_start r = rq_uri_start (target_request ?a (ln_target ln) ?r)" "rq_uri_end r = rq_uri_end (target_request ?a (ln_target ln) ?r)"
    by (simp_all add: uri_view_def)
  with t process_view [OF v, of mem merge] show ?thesis by (simp add: Let_def)
qed

lemma full_parse_spec:
  assumes "wf_uri u"
  shows "map_option (\<lambda>x. (pu_uri x, pu_args x)) (full_parse (hd u = c_question) merge u) =
    map_option (\<lambda>(path, args). (path, case args of None \<Rightarrow> [] | Some a \<Rightarrow> a))
      (spec_uri merge (if hd u = c_question then c_slash # u else u))"
proof -
  obtain c w where u: "u = c # w" "c = c_slash \<or> c = c_question" using assms by (auto simp: wf_uri_def)
  show ?thesis
  proof (cases "c = c_question")
    case True
    then show ?thesis
      by (simp add: u(1) full_parse_def ngx_http_parse_complex_uri_def uri_loop.simps(2) uri_char_def usual_facts spec_uri_def)
  next
    case False
    with u have c: "c = c_slash" by simp
    have "map_option (\<lambda>x. (pu_uri x, pu_args x)) (full_parse False merge u) =
        map_option (\<lambda>(path, args). (path, case args of None \<Rightarrow> [] | Some a \<Rightarrow> a))
          (map_option (\<lambda>r. (ur_uri r, ur_args r)) (ngx_http_parse_complex_uri False merge u))"
      by (simp add: full_parse_def option.map_comp comp_def)
    then show ?thesis using u(1) c parse_complex_uri_spec [of merge w] by simp
  qed
qed

text \<open>
  C1. From the bytes of a request to its path. For every accepted request line, whether the URI is used
  in place or decoded, the path and the arguments are those of the specification on segments applied
  to the URI of the line (with a slash before it when an absolute URI has arguments but no path), the
  request is refused exactly when the specification refuses it, and the extension is the one the full
  machine finds.
\<close>

theorem request_uri_refines:
  assumes "ngx_http_parse_request_line mem pos new_request = (NGX_OK, q, r)"
  shows "let u = substr mem (the (rq_uri_start r)) (the (rq_uri_end r));
             result = ngx_http_process_request_uri mem merge_slashes r in
    (hd u = c_slash \<or> hd u = c_question) \<and>
    map_option (\<lambda>x. (pu_uri x, pu_args x)) result =
      map_option (\<lambda>(path, args). (path, case args of None \<Rightarrow> [] | Some a \<Rightarrow> a))
        (spec_uri merge_slashes (if hd u = c_question then c_slash # u else u)) \<and>
    map_option pu_exten result = map_option ur_exten (ngx_http_parse_complex_uri (hd u = c_question) merge_slashes u)"
proof -
  let ?u = "substr mem (the (rq_uri_start r)) (the (rq_uri_end r))"
  have p: "wf_uri ?u" "ngx_http_process_request_uri mem merge_slashes r = full_parse (hd ?u = c_question) merge_slashes ?u"
    using parsed_uri [OF assms, of merge_slashes] by (simp_all add: Let_def)
  have "hd ?u = c_slash \<or> hd ?u = c_question" using p(1) by (auto simp: wf_uri_def)
  moreover have "map_option pu_exten (full_parse (hd ?u = c_question) merge_slashes ?u) =
      map_option ur_exten (ngx_http_parse_complex_uri (hd ?u = c_question) merge_slashes ?u)"
    by (simp add: full_parse_def option.map_comp comp_def)
  ultimately show ?thesis using full_parse_spec [OF p(1)] unfolding p(2) Let_def by blast
qed

text \<open>
  C2. No request leaves the document root. Whatever bytes a client sends, the path handed to the rest of
  the server starts with a slash, has no segment \<^verbatim>\<open>.\<close> or \<^verbatim>\<open>..\<close>, no empty inner segment when slashes are
  merged, and is no longer than the URI it was read from.
\<close>

theorem request_path_safe:
  assumes "ngx_http_parse_request_line mem pos new_request = (NGX_OK, q, r)"
    and "ngx_http_process_request_uri mem merge_slashes r = Some x"
  shows "\<exists>ts t. pu_uri x = path (ts @ [t]) \<and> clean_segments merge_slashes ts \<and>
    c_slash \<notin> set t \<and> t \<noteq> [c_dot] \<and> t \<noteq> [c_dot, c_dot] \<and> length (pu_uri x) \<le> length (pu_unparsed_uri x)"
proof -
  let ?u = "substr mem (the (rq_uri_start r)) (the (rq_uri_end r))"
  have p: "wf_uri ?u" "full_parse (hd ?u = c_question) merge_slashes ?u = Some x"
    using parsed_uri [OF assms(1), of merge_slashes] assms(2) by (simp_all add: Let_def)
  from p(2) obtain y where y: "ngx_http_parse_complex_uri (hd ?u = c_question) merge_slashes ?u = Some y" "pu_uri x = ur_uri y"
    "pu_unparsed_uri x = ?u" by (auto simp: full_parse_def)
  have hd: "if hd ?u = c_question then hd ?u = c_question \<or> hd ?u = c_hash else hd ?u = c_slash" "?u \<noteq> []"
    using p(1) by (auto simp: wf_uri_def)
  from complex_uri_safe [OF y(1) hd] y(2,3) show ?thesis by auto
qed

definition demo_request :: bytes where
  "demo_request = [c_lf] @ ascii ''GET http://h:8/a.b/c.html?x HTTP/1.1'' @ [c_cr, c_lf]"

definition demo_parsed :: request where
  "demo_parsed = snd (snd (ngx_http_parse_request_line demo_request 0 new_request))"

lemma demo_request_ok: "ngx_http_parse_request_line demo_request 0 new_request = (NGX_OK, 39, demo_parsed)"
  by code_simp

theorem request_uri_refines_witness:
  "map_option pu_exten (ngx_http_process_request_uri demo_request True demo_parsed) = Some (ascii ''html'')"
proof -
  have u: "substr demo_request (the (rq_uri_start demo_parsed)) (the (rq_uri_end demo_parsed)) = ascii ''/a.b/c.html?x''"
    by code_simp
  have "map_option ur_exten (ngx_http_parse_complex_uri (hd (ascii ''/a.b/c.html?x'') = c_question) True (ascii ''/a.b/c.html?x'')) =
      Some (ascii ''html'')" by code_simp
  then show ?thesis using request_uri_refines [OF demo_request_ok, of True] unfolding Let_def u by metis
qed

theorem request_path_safe_witness:
  "length (pu_uri (the (ngx_http_process_request_uri demo_request True demo_parsed))) \<le> 14"
proof -
  have "ngx_http_process_request_uri demo_request True demo_parsed = Some \<lparr>pu_uri = ascii ''/a.b/c.html'',
      pu_exten = ascii ''html'', pu_args = ascii ''x'', pu_unparsed_uri = ascii ''/a.b/c.html?x'', pu_valid_unparsed_uri = True\<rparr>"
    by code_simp
  from request_path_safe [OF demo_request_ok this] this show ?thesis by (simp add: ascii_def)
qed

end
