(* ===== verification/Ngx_Request_Read.thy ===== *)
theory Ngx_Request_Read
  imports Ngx_Request_Uri
begin

text \<open>
  nginx, the reading of the request line in \<^verbatim>\<open>src/http/ngx_http_request.c\<close>: \<^verbatim>\<open>ngx_http_process_request_line\<close> reads
  what the client has sent into the header buffer, runs the machine of \<^verbatim>\<open>Ngx_Request\<close>, and when the
  buffer is full moves the line to a large buffer and relocates the pointers into it
  (\<^verbatim>\<open>ngx_http_alloc_large_header_buffer\<close>). The outcome is shown to depend on the bytes only, not on
  how they arrive or where they are stored.
\<close>

section \<open>Every pointer stays in the line\<close>

definition ptr_in :: "nat \<Rightarrow> nat \<Rightarrow> nat option \<Rightarrow> bool" where
  "ptr_in lo hi x \<longleftrightarrow> (case x of None \<Rightarrow> True | Some v \<Rightarrow> lo \<le> v \<and> v \<le> hi)"

lemma ptr_in_simps [simp]: "ptr_in lo hi None" "ptr_in lo hi (Some v) \<longleftrightarrow> lo \<le> v \<and> v \<le> hi"
  by (simp_all add: ptr_in_def)

lemma ptr_in_Suc: "ptr_in lo hi x \<Longrightarrow> ptr_in lo (Suc hi) x"
  by (simp add: ptr_in_def split: option.splits)

definition pointers :: "request \<Rightarrow> nat option list" where
  "pointers r = [rq_method_end r, rq_schema_start r, rq_schema_end r, rq_host_start r, rq_host_end r, rq_port_end r,
     rq_uri_start r, rq_uri_end r, rq_uri_ext r, rq_args_start r, rq_protocol r]"

text \<open>How far the scheme is behind in the states after it.\<close>

fun scheme_gap :: "req_state \<Rightarrow> nat option" where
  "scheme_gap sw_schema_slash = Some 1"
| "scheme_gap sw_schema_slash_slash = Some 2"
| "scheme_gap sw_host_start = Some 3"
| "scheme_gap sw_host = Some 3"
| "scheme_gap sw_host_end = Some 3"
| "scheme_gap sw_host_ip_literal = Some 3"
| "scheme_gap sw_port = Some 3"
| "scheme_gap _ = None"

definition host_started :: "req_state \<Rightarrow> bool" where
  "host_started st \<longleftrightarrow> st = sw_host \<or> st = sw_host_end \<or> st = sw_host_ip_literal \<or> st = sw_port"

fun version_started :: "req_state \<Rightarrow> bool" where
  "version_started sw_major_digit = True"
| "version_started sw_first_minor_digit = True"
| "version_started sw_minor_digit = True"
| "version_started sw_spaces_after_digit = True"
| "version_started _ = False"

definition typed :: "req_state \<Rightarrow> nat \<Rightarrow> request \<Rightarrow> bool" where
  "typed st p r \<longleftrightarrow> rq_end r = None \<and>
     (if st = sw_start then list_all (\<lambda>x. x = None) (pointers r)
      else rq_start r < p \<and> list_all (ptr_in (rq_start r) p) (pointers r)) \<and>
     (case scheme_gap st of None \<Rightarrow> True | Some g \<Rightarrow> \<exists>e. rq_schema_end r = Some e \<and> e + g \<le> p) \<and>
     unat (rq_http_minor r) \<le> 999 \<and> (if st = sw_almost_done then rq_http_major r = 0 \<or> rq_http_major r = 1
       else rq_http_major r = (if version_started st then 1 else 0))"

definition paired :: "req_state \<Rightarrow> request \<Rightarrow> bool" where
  "paired st r \<longleftrightarrow>
     (st = sw_schema \<longrightarrow> rq_schema_start r \<noteq> None) \<and> (rq_schema_end r \<noteq> None \<longrightarrow> rq_schema_start r \<noteq> None) \<and>
     (host_started st \<longrightarrow> rq_host_start r \<noteq> None) \<and> (rq_host_end r \<noteq> None \<longrightarrow> rq_host_start r \<noteq> None)"

lemmas step_defs = do_sw_start_def do_sw_method_def do_sw_spaces_before_uri_def do_sw_schema_def do_expect_def
  do_sw_host_end_def do_sw_host_def do_sw_host_start_def do_sw_host_ip_literal_def do_sw_port_def path_defs
  do_sw_http_09_def do_sw_first_major_digit_def do_sw_major_digit_def do_sw_first_minor_digit_def
  do_sw_minor_digit_def do_sw_spaces_after_digit_def do_sw_almost_done_def

lemma digit_u16: "unat (ucast (d - 0x30 :: u8) :: u16) = unat (d - 0x30)"
  using unsigned_less [of "d - 0x30", where 'a = nat] by (simp add: unsigned_ucast_eq take_bit_eq_mod)

lemma minor_step:
  assumes "\<not> (99 :: u16) < m" "is_digit d"
  shows "unat (m * 10 + ucast (d - 0x30)) \<le> 999"
proof -
  have "unat m \<le> 99" using assms(1) by (simp add: word_less_nat_alt)
  then have "unat m * 10 + unat (d - 0x30) \<le> 999" using digit_value [OF assms(2)] by simp
  then show ?thesis by (simp add: unat_word_ariths digit_u16)
qed

lemma first_minor_step: "is_digit d \<Longrightarrow> unat (ucast (d - 0x30) :: u16) \<le> 999"
  using digit_value [of d] by (simp add: digit_u16)

lemma first_major_step:
  assumes "\<not> (d < 0x31 \<or> d > (0x39 :: u8))" "\<not> (1 :: u16) < ucast (d - 0x30)"
  shows "(ucast (d - 0x30) :: u16) = 1"
proof -
  have "unat (d - 0x30) = unat d - 48" "49 \<le> unat d"
    using assms(1) by (simp_all add: unat_sub word_le_nat_alt word_less_nat_alt)
  moreover have "unat (d - 0x30) \<le> 1" using assms(2) by (simp add: word_less_nat_alt digit_u16)
  ultimately have "unat (ucast (d - 0x30) :: u16) = unat (1 :: u16)" by (simp add: digit_u16)
  then show ?thesis by (rule unsigned_word_eqI)
qed

lemmas typed_simps = typed_def step_defs pointers_def Let_def ptr_in_Suc minor_step first_minor_step
  first_major_step digit_cases

lemma typed_head:
  "st \<in> {sw_start, sw_method, sw_spaces_before_uri, sw_schema, sw_schema_slash, sw_schema_slash_slash} \<Longrightarrow>
    typed st p r \<Longrightarrow> req_char mem st p c r = Next st' r' \<Longrightarrow> typed st' (p + 1) r'"
  unfolding insert_iff empty_iff by (elim disjE; hypsubst?; auto simp: typed_simps split: if_splits)

lemma typed_host:
  "st \<in> {sw_host_start, sw_host, sw_host_end, sw_host_ip_literal} \<Longrightarrow>
    typed st p r \<Longrightarrow> req_char mem st p c r = Next st' r' \<Longrightarrow> typed st' (p + 1) r'"
  unfolding insert_iff empty_iff by (elim disjE; hypsubst?; auto simp: typed_simps split: if_splits)

lemma typed_port:
  "typed sw_port p r \<Longrightarrow> req_char mem sw_port p c r = Next st' r' \<Longrightarrow> typed st' (p + 1) r'"
  by (auto simp: typed_simps split: if_splits)

lemma typed_path:
  "st \<in> {sw_after_slash_in_uri, sw_check_uri, sw_uri} \<Longrightarrow>
    typed st p r \<Longrightarrow> req_char mem st p c r = Next st' r' \<Longrightarrow> typed st' (p + 1) r'"
  unfolding insert_iff empty_iff by (elim disjE; hypsubst?; auto simp: typed_simps split: if_splits)

lemma typed_version:
  "st \<in> {sw_http_09, sw_http_H, sw_http_HT, sw_http_HTT, sw_http_HTTP, sw_first_major_digit, sw_major_digit} \<Longrightarrow>
    typed st p r \<Longrightarrow> req_char mem st p c r = Next st' r' \<Longrightarrow> typed st' (p + 1) r'"
  unfolding insert_iff empty_iff by (elim disjE; hypsubst?; auto simp: typed_simps split: if_splits)

lemma typed_end:
  "st \<in> {sw_first_minor_digit, sw_minor_digit, sw_spaces_after_digit, sw_almost_done} \<Longrightarrow>
    typed st p r \<Longrightarrow> req_char mem st p c r = Next st' r' \<Longrightarrow> typed st' (p + 1) r'"
  unfolding insert_iff empty_iff by (elim disjE; hypsubst?; auto simp: typed_simps split: if_splits)

lemma typed_step:
  assumes "typed st p r" "req_char mem st p c r = Next st' r'"
  shows "typed st' (p + 1) r'"
  using assms typed_head [OF _ assms] typed_host [OF _ assms] typed_port [of p r mem c st' r'] typed_path [OF _ assms]
    typed_version [OF _ assms] typed_end [OF _ assms] by (cases st) simp_all

lemma paired_step:
  assumes "paired st r" "req_char mem st p c r = Next st' r'"
  shows "paired st' r'"
  using assms by (cases st; auto simp: paired_def host_started_def step_defs Let_def split: if_splits)

lemma typed_start: "typed sw_start p new_request"
  by (simp add: typed_def new_request_def pointers_def)

lemma typed_steps: "typed st p r \<Longrightarrow> steps mem st p w r = Some (st', r') \<Longrightarrow> typed st' (p + length w) r'"
proof (induction w arbitrary: st p r)
  case (Cons c w)
  from Cons.prems(2) obtain st1 r1 where s: "req_char mem st p c r = Next st1 r1" "steps mem st1 (p + 1) w r1 = Some (st', r')"
    by (auto split: req_step.splits)
  from Cons.IH [OF typed_step [OF Cons.prems(1) s(1)] s(2)] show ?case by simp
qed simp

section \<open>The same line in two buffers\<close>

text \<open>
  \<open>r\<close> in one buffer and \<open>s\<close> in another where the line starts \<open>k\<close> bytes later. \<open>b\<close>: the start pointer counts, which it
  does once a character of the method has been read. The port pointer and the saved state are left out.
\<close>

definition places :: "request \<Rightarrow> nat option list" where
  "places r = [rq_end r, rq_method_end r, rq_schema_start r, rq_schema_end r, rq_host_start r, rq_host_end r,
     rq_uri_start r, rq_uri_end r, rq_uri_ext r, rq_args_start r, rq_protocol r]"

definition numbers :: "request \<Rightarrow> nat \<times> u16 \<times> u16 \<times> nat \<times> bool \<times> bool \<times> bool \<times> bool" where
  "numbers r = (rq_method r, rq_http_major r, rq_http_minor r, rq_http_version r, rq_complex_uri r, rq_quoted_uri r,
     rq_plus_in_uri r, rq_empty_path_in_uri r)"

definition moved :: "nat \<Rightarrow> bool \<Rightarrow> request \<Rightarrow> request \<Rightarrow> bool" where
  "moved k b r s \<longleftrightarrow> (b \<longrightarrow> rq_start s = rq_start r + k) \<and> places s = map (map_option (\<lambda>x. x + k)) (places r) \<and> numbers s = numbers r"

definition agrees :: "nat \<Rightarrow> bytes \<Rightarrow> bytes \<Rightarrow> bool" where
  "agrees k mem S \<longleftrightarrow> mem = take (length mem) (drop k S)"

lemma agrees_name:
  assumes "agrees k mem S" "p \<le> length mem"
  shows "take (p - m) (drop m mem) = take (p + k - (m + k)) (drop (m + k) S)"
proof -
  have "take (p - m) (drop m mem) = drop m (take p mem)" by (simp add: drop_take)
  also have "take p mem = take p (drop k S)"
    using assms unfolding agrees_def by (metis min.absorb1 take_take)
  finally show ?thesis by (simp add: drop_take add.commute)
qed

definition step_moved :: "nat \<Rightarrow> req_step \<Rightarrow> req_step \<Rightarrow> bool" where
  "step_moved k x y \<longleftrightarrow>
     (case x of
        Next st r \<Rightarrow> (\<exists>s. y = Next st s \<and> moved k (st \<noteq> sw_start) r s)
      | Finish r \<Rightarrow> (\<exists>s. y = Finish s \<and> moved k True r s)
      | Fail rc r \<Rightarrow> (\<exists>s. y = Fail rc s))"

lemmas moved_simps = moved_def places_def numbers_def step_moved_def step_defs Let_def

lemma moved_start: "moved k False r s \<Longrightarrow> step_moved k (req_char mem sw_start p c r) (req_char S sw_start (p + k) c s)"
  by (auto simp: moved_simps)

lemma moved_method:
  "moved k True r s \<Longrightarrow> agrees k mem S \<Longrightarrow> p \<le> length mem \<Longrightarrow> 0 < p \<Longrightarrow>
    step_moved k (req_char mem sw_method p c r) (req_char S sw_method (p + k) c s)"
  by (auto simp: moved_simps agrees_name [of k mem S p "rq_start r"])

lemma moved_front:
  "moved k True r s \<Longrightarrow> st \<in> {sw_spaces_before_uri, sw_schema, sw_schema_slash, sw_schema_slash_slash} \<Longrightarrow>
    step_moved k (req_char mem st p c r) (req_char S st (p + k) c s)"
  unfolding insert_iff empty_iff by (elim disjE; hypsubst?; auto simp: moved_simps)

lemma moved_host:
  "moved k True r s \<Longrightarrow> st \<in> {sw_host_start, sw_host, sw_host_end, sw_host_ip_literal, sw_port} \<Longrightarrow>
    step_moved k (req_char mem st p c r) (req_char S st (p + k) c s)"
  unfolding insert_iff empty_iff by (elim disjE; hypsubst?; auto simp: moved_simps option.map_comp comp_def)

lemma moved_path:
  "moved k True r s \<Longrightarrow> in_path st \<Longrightarrow> step_moved k (req_char mem st p c r) (req_char S st (p + k) c s)"
  unfolding in_path_def by (elim disjE; hypsubst?; auto simp: moved_simps)

lemma moved_protocol:
  "moved k True r s \<Longrightarrow> st \<in> {sw_http_09, sw_http_H, sw_http_HT, sw_http_HTT, sw_http_HTTP} \<Longrightarrow>
    step_moved k (req_char mem st p c r) (req_char S st (p + k) c s)"
  unfolding insert_iff empty_iff by (elim disjE; hypsubst?; auto simp: moved_simps)

lemma moved_version:
  "moved k True r s \<Longrightarrow> 0 < p \<Longrightarrow> st \<in> {sw_first_major_digit, sw_major_digit, sw_first_minor_digit, sw_minor_digit,
      sw_spaces_after_digit, sw_almost_done} \<Longrightarrow> step_moved k (req_char mem st p c r) (req_char S st (p + k) c s)"
  unfolding insert_iff empty_iff by (elim disjE; hypsubst?; auto simp: moved_simps)

lemma moved_step:
  assumes "moved k (st \<noteq> sw_start) r s" "agrees k mem S" "p \<le> length mem" "st = sw_start \<or> 0 < p"
  shows "step_moved k (req_char mem st p c r) (req_char S st (p + k) c s)"
proof (cases "st = sw_start")
  case True
  then show ?thesis using moved_start [of k r s mem p c S] assms(1) by simp
next
  case False
  then have m: "moved k True r s" and p: "0 < p" using assms by simp_all
  show ?thesis
    using moved_method [OF m assms(2,3) p, of c] moved_front [OF m, of st mem p c S] moved_host [OF m, of st mem p c S]
      moved_path [OF m, of st mem p c S] moved_protocol [OF m, of st mem p c S] moved_version [OF m p, of st mem c S] False
    by (cases st) (simp_all add: in_path_def del: req_char.simps)
qed

lemma moved_done:
  assumes "moved k True r s"
  shows "case req_done p r of (rc, q, r') \<Rightarrow> \<exists>s'. req_done (p + k) s = (rc, q + k, s') \<and> moved k True r' s'"
proof -
  have "rq_end s = map_option (\<lambda>x. x + k) (rq_end r)" using assms by (simp add: moved_def places_def)
  then show ?thesis using assms
    by (cases "rq_end r") (auto simp: req_done_def Let_def moved_def places_def numbers_def)
qed

lemma fail_code: "req_char mem st p c r = Fail rc r' \<Longrightarrow> rc \<noteq> NGX_OK \<and> rc \<noteq> NGX_AGAIN"
  by (cases st; auto simp: step_defs Let_def split: if_splits)

lemma moved_loop:
  "moved k (st \<noteq> sw_start) r s \<Longrightarrow> agrees k mem S \<Longrightarrow> p + length w \<le> length mem \<Longrightarrow> st = sw_start \<or> 0 < p \<Longrightarrow>
    case req_loop mem pos st p w r of (rc, q, r') \<Rightarrow> \<exists>q' s'. req_loop S pos' st (p + k) w s = (rc, q', s') \<and>
      (rc = NGX_AGAIN \<longrightarrow> q' = q + k \<and> rq_state s' = rq_state r' \<and> moved k (rq_state r' \<noteq> sw_start) r' s') \<and>
      (rc = NGX_OK \<longrightarrow> q' = q + k \<and> moved k True r' s')"
proof (induction w arbitrary: st p r s)
  case Nil
  then show ?case by (auto simp: moved_def places_def numbers_def)
next
  case (Cons c w)
  have m: "step_moved k (req_char mem st p c r) (req_char S st (p + k) c s)"
    using moved_step [OF Cons.prems(1,2) _ Cons.prems(4)] Cons.prems(3) by simp
  show ?case
  proof (cases "req_char mem st p c r")
    case (Next st1 r1)
    with m obtain s1 where s1: "req_char S st (p + k) c s = Next st1 s1" "moved k (st1 \<noteq> sw_start) r1 s1"
      by (auto simp: step_moved_def)
    show ?thesis using Cons.IH [OF s1(2) Cons.prems(2), of "p + 1"] Cons.prems(3) Next s1(1) by simp
  next
    case (Finish r1)
    with m obtain s1 where s1: "req_char S st (p + k) c s = Finish s1" "moved k True r1 s1" by (auto simp: step_moved_def)
    show ?thesis using moved_done [OF s1(2), of p] Finish s1(1) 
      by (auto simp: req_done_def Let_def split: if_splits prod.splits)
  next
    case (Fail rc r1)
    with m obtain s1 where s1: "req_char S st (p + k) c s = Fail rc s1" by (auto simp: step_moved_def)
    show ?thesis using Fail s1 fail_code [OF Fail] by simp
  qed
qed

section \<open>Reading\<close>

record header_conf =
  hc_num :: nat
  hc_size :: nat

text \<open>
  The header buffer with its contents up to \<^verbatim>\<open>last\<close>, \<^verbatim>\<open>pos\<close> and its size; the large buffers free on the
  connection and those in use; the request.
\<close>

record reader =
  rd_mem :: bytes
  rd_pos :: nat
  rd_size :: nat
  rd_free :: nat
  rd_busy :: nat
  rd_req :: request

text \<open>
  The pointers of a request moved to a new buffer. A pointer that is \<^verbatim>\<open>NULL\<close> stays so here; the code computes
  with it in three places, and sets the field before it is read.
\<close>

definition relocate :: "nat \<Rightarrow> request \<Rightarrow> request" where
  "relocate old r =
     (let mv = map_option (\<lambda>x. x - old) in
      r\<lparr>rq_start := 0,
        rq_end := mv (rq_end r),
        rq_method_end := mv (rq_method_end r),
        rq_uri_start := mv (rq_uri_start r),
        rq_uri_end := mv (rq_uri_end r),
        rq_schema_start := mv (rq_schema_start r),
        rq_schema_end := (if rq_schema_start r = None then rq_schema_end r else mv (rq_schema_end r)),
        rq_host_start := mv (rq_host_start r),
        rq_host_end := (if rq_host_start r = None then rq_host_end r else mv (rq_host_end r)),
        rq_uri_ext := mv (rq_uri_ext r),
        rq_args_start := mv (rq_args_start r),
        rq_protocol := mv (rq_protocol r)\<rparr>)"

text \<open>\<^const>\<open>None\<close> for \<^verbatim>\<open>NGX_DECLINED\<close>.\<close>

definition ngx_http_alloc_large_header_buffer :: "header_conf \<Rightarrow> reader \<Rightarrow> reader option" where
  "ngx_http_alloc_large_header_buffer conf rd =
     (if rq_state (rd_req rd) = sw_start then Some (rd\<lparr>rd_mem := [], rd_pos := 0\<rparr>)
      else
        let old = rq_start (rd_req rd); n = rd_pos rd - old in
        if n \<ge> hc_size conf then None
        else if rd_free rd > 0 \<or> rd_busy rd < hc_num conf then
          Some \<lparr>rd_mem = take n (drop old (rd_mem rd)), rd_pos = n, rd_size = hc_size conf,
                rd_free = (if rd_free rd > 0 then rd_free rd - 1 else rd_free rd), rd_busy = rd_busy rd + 1,
                rd_req = relocate old (rd_req rd)\<rparr>
        else None)"

datatype line_result = Line_Ok reader | Line_Bad parse_rc | Line_Too_Large | Line_Closed | Line_Wait reader

text \<open>
  \<^verbatim>\<open>ngx_http_process_request_line\<close> with what the socket delivers: each element is what the client has sent when the
  socket is read again, nothing when it has closed the connection. What does not fit the buffer stays in the
  socket. The result is \<open>Line_Wait\<close> when the handler returns to wait for more.
\<close>

function ngx_http_process_request_line :: "header_conf \<Rightarrow> bytes list \<Rightarrow> reader \<Rightarrow> line_result" where
  "ngx_http_process_request_line conf [] rd = Line_Wait rd"
| "ngx_http_process_request_line conf (a # as) rd =
     (let n = rd_size rd - length (rd_mem rd); got = take n a in
      if got = [] then Line_Closed
      else
        let arrivals = (if drop n a = [] then as else drop n a # as);
            rd = rd\<lparr>rd_mem := rd_mem rd @ got\<rparr>;
            (rc, pos, r) = ngx_http_parse_request_line (rd_mem rd) (rd_pos rd) (rd_req rd);
            rd = rd\<lparr>rd_pos := pos, rd_req := r\<rparr>
        in if rc = NGX_OK then Line_Ok rd
           else if rc \<noteq> NGX_AGAIN then Line_Bad rc
           else if rd_pos rd = rd_size rd then
             (case ngx_http_alloc_large_header_buffer conf rd of
                None \<Rightarrow> Line_Too_Large
              | Some rd \<Rightarrow> ngx_http_process_request_line conf arrivals rd)
           else ngx_http_process_request_line conf arrivals rd)"
  by pat_completeness auto
termination
  by (relation "measure (\<lambda>(conf, as, rd). length (concat as) + length as)") (auto split: if_splits)

declare ngx_http_process_request_line.simps(2) [simp del]

lemma loop_again:
  "req_loop mem pos st p w r = (NGX_AGAIN, q, r') \<Longrightarrow>
    q = p + length w \<and> (\<exists>s. steps mem st p w r = Some (rq_state r', s) \<and> r' = s\<lparr>rq_state := rq_state r'\<rparr>)"
proof (induction w arbitrary: st p r)
  case (Cons c w)
  show ?case
  proof (cases "req_char mem st p c r")
    case (Next st1 r1)
    with Cons show ?thesis by fastforce
  next
    case (Finish r1)
    with Cons.prems show ?thesis by (auto simp: req_done_def Let_def split: if_splits)
  next
    case (Fail rc r1)
    with Cons.prems fail_code [OF Fail] show ?thesis by simp
  qed
qed auto

lemma loop_stops:
  "req_loop mem pos st p w r = (rc, q, r') \<Longrightarrow> rc \<noteq> NGX_AGAIN \<Longrightarrow> req_loop mem pos st p (w @ v) r = (rc, q, r')"
  by (induction w arbitrary: st p r) (auto split: req_step.splits)

lemma moved_state [simp]: "moved k b (r\<lparr>rq_state := x\<rparr>) s = moved k b r s" "moved k b r (s\<lparr>rq_state := x\<rparr>) = moved k b r s"
  by (simp_all add: moved_def places_def numbers_def)

lemma paired_steps: "paired st r \<Longrightarrow> steps mem st p w r = Some (st', r') \<Longrightarrow> paired st' r'"
proof (induction w arbitrary: st p r)
  case (Cons c w)
  from Cons.prems(2) obtain st1 r1 where s: "req_char mem st p c r = Next st1 r1" "steps mem st1 (p + 1) w r1 = Some (st', r')"
    by (auto split: req_step.splits)
  from Cons.IH [OF paired_step [OF Cons.prems(1) s(1)] s(2)] show ?case .
qed simp

lemma step_keeps_start:
  "st \<noteq> sw_start \<Longrightarrow> req_char mem st p c r = Next st' r' \<Longrightarrow> st' \<noteq> sw_start \<and> rq_start r' = rq_start r"
  by (cases st; auto simp: step_defs Let_def split: if_splits)

lemma steps_keep_start:
  "st \<noteq> sw_start \<Longrightarrow> steps mem st p w r = Some (st', r') \<Longrightarrow> st' \<noteq> sw_start \<and> rq_start r' = rq_start r"
proof (induction w arbitrary: st p r)
  case (Cons c w)
  from Cons.prems(2) obtain st1 r1 where s: "req_char mem st p c r = Next st1 r1" "steps mem st1 (p + 1) w r1 = Some (st', r')"
    by (auto split: req_step.splits)
  from step_keeps_start [OF Cons.prems(1) s(1)] Cons.IH [OF _ s(2)] show ?case by simp
qed simp

lemma relocate_moved:
  assumes m: "moved k True r s" and t: "typed st n s" "paired st s" "st \<noteq> sw_start"
  shows "moved (k + rq_start r) True (relocate (rq_start r) r) s"
proof -
  have *: "map_option (\<lambda>x. x + (k + a)) (map_option (\<lambda>x. x - a) y) = map_option (\<lambda>x. x + k) y"
    if "ptr_in (a + k) n (map_option (\<lambda>x. x + k) y)" for a y
    using that by (cases y) auto
  from m have f: "rq_start s = rq_start r + k" "places s = map (map_option (\<lambda>x. x + k)) (places r)" "numbers s = numbers r"
    by (simp_all add: moved_def)
  have pp: "rq_schema_start r = None \<Longrightarrow> rq_schema_end r = None" "rq_host_start r = None \<Longrightarrow> rq_host_end r = None"
    using f(2) t(2) by (auto simp: places_def paired_def)
  have e: "rq_end r = None" using f(2) t(1) by (simp add: places_def typed_def)
  show ?thesis
    using f t(1,3) pp e
    by (auto simp: moved_def places_def numbers_def relocate_def Let_def typed_def pointers_def *)
qed


lemma finish_typed:
  "typed st p r \<Longrightarrow> req_char mem st p c r = Finish r' \<Longrightarrow>
    rq_start r' < p \<and> list_all (ptr_in (rq_start r') p) (rq_end r' # pointers r') \<and> unat (rq_http_minor r') \<le> 999 \<and>
    unat (rq_http_major r') \<le> 1"
  by (cases st; auto simp: typed_simps split: if_splits)

lemma loop_typed:
  "typed st p r \<Longrightarrow> req_loop mem pos st p w r = (rc, q, r') \<Longrightarrow> rc = NGX_OK \<or> rc = NGX_AGAIN \<Longrightarrow>
    p \<le> q \<and> q \<le> p + length w \<and> list_all (ptr_in (rq_start r') q) (rq_end r' # pointers r') \<and>
    unat (rq_http_minor r') \<le> 999 \<and> unat (rq_http_major r') \<le> 1 \<and>
    (rc = NGX_OK \<longrightarrow> rq_http_version r' = unat (rq_http_major r') * 1000 + unat (rq_http_minor r') \<and>
      (\<exists>e. rq_end r' = Some e) \<and> rq_state r' = sw_start)"
proof (induction w arbitrary: st p r)
  case Nil
  then show ?case by (auto simp: typed_def pointers_def split: if_splits)
next
  case (Cons c w)
  show ?case
  proof (cases "req_char mem st p c r")
    case (Next st1 r1)
    with Cons.IH [OF typed_step [OF Cons.prems(1) Next]] Cons.prems(2,3) show ?thesis by auto
  next
    case (Finish r1)
    with finish_typed [OF Cons.prems(1) Finish] Cons.prems(2,3) show ?thesis
      by (cases "rq_end r1") (auto simp: req_done_def Let_def pointers_def ptr_in_Suc split: if_splits)
  next
    case (Fail rc' r1)
    with Cons.prems(2,3) fail_code [OF Fail] show ?thesis by auto
  qed
qed

text \<open>The strings read through moved pointers are the same.\<close>

lemma substr_moved: "agrees k mem S \<Longrightarrow> b \<le> length mem \<Longrightarrow> substr mem a b = substr S (a + k) (b + k)"
proof -
  assume m: "agrees k mem S" "b \<le> length mem"
  have "substr mem a b = drop a (take b mem)" by (simp add: substr_def drop_take)
  also have "take b mem = take b (drop k S)" using m unfolding agrees_def by (metis min.absorb1 take_take)
  finally show ?thesis by (simp add: substr_def drop_take add.commute)
qed

definition args_after :: "request \<Rightarrow> bool" where
  "args_after r \<longleftrightarrow> (case rq_args_start r of None \<Rightarrow> True | Some a \<Rightarrow> rq_start r < a)"

lemma args_step:
  assumes "st = sw_start \<longrightarrow> rq_args_start r = None" "st \<noteq> sw_start \<longrightarrow> rq_start r < p" "args_after r"
  shows "req_char mem st p c r = Next st' r' \<Longrightarrow> args_after r'" "req_char mem st p c r = Finish r' \<Longrightarrow> args_after r'"
  using assms by (cases st; auto simp: args_after_def step_defs Let_def split: if_splits option.splits)+

lemma args_done: "req_done p r = (rc, q, r') \<Longrightarrow> args_after r \<Longrightarrow> args_after r'"
  by (auto simp: req_done_def Let_def args_after_def split: option.splits)

lemma loop_args:
  "typed st p r \<Longrightarrow> args_after r \<Longrightarrow> req_loop mem pos st p w r = (NGX_OK, q, r') \<Longrightarrow> args_after r'"
proof (induction w arbitrary: st p r)
  case (Cons c w)
  have t: "st = sw_start \<longrightarrow> rq_args_start r = None" "st \<noteq> sw_start \<longrightarrow> rq_start r < p"
    using Cons.prems(1) by (auto simp: typed_def pointers_def)
  note step = args_step [OF t Cons.prems(2), of mem c]
  show ?case
  proof (cases "req_char mem st p c r")
    case (Next st1 r1)
    with Cons.IH [OF typed_step [OF Cons.prems(1) Next] step(1) [OF Next]] Cons.prems(3) show ?thesis by simp
  next
    case (Finish r1)
    with args_done [OF _ step(2) [OF Finish]] Cons.prems(3) show ?thesis by auto
  next
    case (Fail rc' r1)
    with Cons.prems(3) fail_code [OF Fail] show ?thesis by simp
  qed
qed simp

lemma parsed_uri_set:
  assumes "ngx_http_parse_request_line mem pos new_request = (NGX_OK, q, r)"
  shows "rq_uri_start r \<noteq> None \<and> rq_uri_end r \<noteq> None"
proof -
  obtain ln where ln: "wf_line ln" "r = line_request pos ln new_request" using assms unfolding parse_line_exact by blast
  have u: "rq_uri_start (uri_request e p u s) \<noteq> None \<and> rq_uri_end (uri_request e p u s) \<noteq> None" if "u = [] \<or> wf_uri u" for e p u s
    using that by (auto simp: uri_request_def wf_uri_def uri_marks_fields in_path_def)
  have t: "rq_uri_start (target_request p (ln_target ln) s) \<noteq> None \<and> rq_uri_end (target_request p (ln_target ln) s) \<noteq> None" for p s
    using ln(1) u by (cases "ln_target ln") (auto simp: wf_line_def authority_request_def Let_def)
  show ?thesis using line_view [of pos ln new_request] t ln(2) by (simp add: uri_view_def)
qed

lemma process_moved:
  assumes m: "moved k True r s" "agrees k mem S"
    and b: "list_all (ptr_in (rq_start s) (length mem + k)) (pointers s)" "args_after s"
    and u: "rq_uri_start s \<noteq> None" "rq_uri_end s \<noteq> None"
  shows "ngx_http_process_request_uri mem merge r = ngx_http_process_request_uri S merge s"
proof -
  have f: "rq_uri_start s = map_option (\<lambda>x. x + k) (rq_uri_start r)" "rq_uri_end s = map_option (\<lambda>x. x + k) (rq_uri_end r)"
    "rq_uri_ext s = map_option (\<lambda>x. x + k) (rq_uri_ext r)" "rq_args_start s = map_option (\<lambda>x. x + k) (rq_args_start r)"
    "rq_complex_uri s = rq_complex_uri r" "rq_quoted_uri s = rq_quoted_uri r" "rq_empty_path_in_uri s = rq_empty_path_in_uri r"
    "rq_start s = rq_start r + k"
    using m(1) by (simp_all add: moved_def places_def numbers_def)
  obtain us ue where p: "rq_uri_start r = Some us" "rq_uri_end r = Some ue" using f(1,2) u by auto
  have ue: "ue \<le> length mem" using b(1) f(2) p(2) by (simp add: pointers_def)
  note sm = substr_moved [OF m(2)]
  show ?thesis
  proof (cases "rq_args_start r")
    case None
    then show ?thesis using f p ue
      by (auto simp: ngx_http_process_request_uri_def Let_def sm split: option.splits)
  next
    case (Some a)
    then have a: "0 < a" "a \<le> length mem" using b f by (auto simp: pointers_def args_after_def)
    then have "a + k - 1 = a - 1 + k" "a - 1 \<le> length mem" by simp_all
    then show ?thesis using f p ue Some a
      by (auto simp: ngx_http_process_request_uri_def Let_def sm split: option.splits)
  qed
qed

section \<open>The outcome depends on the bytes only\<close>

text \<open>
  After \<open>n\<close> bytes of the input \<open>S\<close>: the buffer holds those from offset \<open>k\<close> on, and the request is that of one run over
  the first \<open>n\<close> bytes, moved by \<open>k\<close>. A large buffer has been taken at most once.
\<close>

definition reading :: "header_conf \<Rightarrow> nat \<Rightarrow> bytes \<Rightarrow> nat \<Rightarrow> nat \<Rightarrow> request \<Rightarrow> reader \<Rightarrow> bool" where
  "reading conf f S n k s rd \<longleftrightarrow>
     k \<le> n \<and> n \<le> length S \<and> rd_mem rd = drop k (take n S) \<and> rd_pos rd = n - k \<and> n - k < rd_size rd \<and>
     (let st = rq_state (rd_req rd) in
      steps S sw_start 0 (take n S) new_request = Some (st, s) \<and> moved k (st \<noteq> sw_start) (rd_req rd) s \<and>
      (rd_busy rd = 0 \<and> rd_free rd = f \<or> st \<noteq> sw_start \<and> rq_start (rd_req rd) = 0 \<and> rd_size rd = hc_size conf))"

definition too_long :: "header_conf \<Rightarrow> nat \<Rightarrow> bytes \<Rightarrow> bool" where
  "too_long conf f S \<longleftrightarrow> (\<exists>n r. n \<le> length S \<and> ngx_http_parse_request_line (take n S) 0 new_request = (NGX_AGAIN, n, r) \<and>
     rq_state r \<noteq> sw_start \<and> (hc_size conf \<le> n - rq_start r \<or> hc_num conf = 0 \<and> f = 0))"

definition line_outcome :: "header_conf \<Rightarrow> nat \<Rightarrow> bytes \<Rightarrow> line_result \<Rightarrow> bool" where
  "line_outcome conf f S res \<longleftrightarrow>
     (case res of
        Line_Ok rd \<Rightarrow> \<exists>k s. ngx_http_parse_request_line S 0 new_request = (NGX_OK, rd_pos rd + k, s) \<and>
          moved k True (rd_req rd) s \<and> agrees k (rd_mem rd) S \<and>
          (\<forall>merge. ngx_http_process_request_uri (rd_mem rd) merge (rd_req rd) = ngx_http_process_request_uri S merge s)
      | Line_Bad rc \<Rightarrow> fst (ngx_http_parse_request_line S 0 new_request) = rc \<and> rc \<noteq> NGX_OK \<and> rc \<noteq> NGX_AGAIN
      | Line_Wait rd \<Rightarrow> fst (ngx_http_parse_request_line S 0 new_request) = NGX_AGAIN
      | Line_Too_Large \<Rightarrow> too_long conf f S
      | Line_Closed \<Rightarrow> False)"

lemma whole_parse: "ngx_http_parse_request_line S 0 new_request = req_loop S 0 sw_start 0 S new_request"
  by (simp add: ngx_http_parse_request_line_def new_request_def)

lemma whole_after:
  "steps S sw_start 0 (take n S) new_request = Some (st, s) \<Longrightarrow> n \<le> length S \<Longrightarrow>
    ngx_http_parse_request_line S 0 new_request = req_loop S 0 st n (drop n S) s"
  using loop_steps [of S sw_start 0 "take n S" new_request st s 0 "drop n S"] by (simp add: whole_parse)

lemma moved_refl: "moved 0 b r r"
  by (simp add: moved_def option.map_ident_strong) (simp add: list.map_ident_strong option.map_ident)

lemma moved_unique_start: "moved 0 True r s \<Longrightarrow> rq_start s = rq_start r"
  by (simp add: moved_def)

lemma too_longI:
  assumes st: "steps S sw_start 0 (take n S) new_request = Some (st, s)" "n \<le> length S" "st \<noteq> sw_start"
    and "hc_size conf \<le> n - rq_start s \<or> hc_num conf = 0 \<and> f = 0"
  shows "too_long conf f S"
proof -
  obtain rc q r where p: "ngx_http_parse_request_line (take n S) 0 new_request = (rc, q, r)" by (metis prod_cases3)
  have "req_loop (take n S) 0 sw_start 0 (take n S) new_request = (rc, q, r)" using p by (simp add: whole_parse)
  moreover have "agrees 0 (take n S) S" using st(2) by (simp add: agrees_def)
  ultimately obtain q' s' where m: "req_loop S 0 sw_start 0 (take n S) new_request = (rc, q', s')"
    "rc = NGX_AGAIN \<longrightarrow> q' = q + 0 \<and> rq_state s' = rq_state r \<and> moved 0 (rq_state r \<noteq> sw_start) r s'"
    using moved_loop [of 0 sw_start new_request new_request "take n S" S 0 "take n S" 0 0] moved_refl by auto
  have "req_loop S 0 sw_start 0 (take n S @ []) new_request = (NGX_AGAIN, n, s\<lparr>rq_state := st\<rparr>)"
    using loop_steps [OF st(1), of 0 "[]"] st(2) by simp
  then have "rc = NGX_AGAIN" "q' = n" "s' = s\<lparr>rq_state := st\<rparr>" using m(1) by simp_all
  with m(2) p have "ngx_http_parse_request_line (take n S) 0 new_request = (NGX_AGAIN, n, r)" "rq_state r = st"
    "rq_start s = rq_start r" using st(3) by (auto simp: moved_def)
  then show ?thesis unfolding too_long_def using st assms(4) by auto
qed

text \<open>One read and one run of the machine.\<close>

lemma parse_got:
  assumes r: "reading conf f S n k s rd" and S: "drop n S = got @ rest" and got: "got \<noteq> []"
    and mem: "mem = rd_mem rd @ got"
    and p: "ngx_http_parse_request_line mem (rd_pos rd) (rd_req rd) = (rc, q, r')"
  shows "agrees k mem S" "mem = drop k (take (n + length got) S)" "n + length got \<le> length S"
    and "rc \<noteq> NGX_AGAIN \<Longrightarrow> \<exists>q' s'. ngx_http_parse_request_line S 0 new_request = (rc, q', s') \<and>
      (rc = NGX_OK \<longrightarrow> q' = q + k \<and> moved k True r' s' \<and>
        (\<forall>merge. ngx_http_process_request_uri mem merge r' = ngx_http_process_request_uri S merge s'))"
    and "rc = NGX_AGAIN \<Longrightarrow> \<exists>s'. q = n + length got - k \<and> moved k (rq_state r' \<noteq> sw_start) r' s' \<and>
      steps S sw_start 0 (take (n + length got) S) new_request = Some (rq_state r', s')"
    and "rc = NGX_AGAIN \<Longrightarrow> rq_state (rd_req rd) \<noteq> sw_start \<Longrightarrow>
      rq_state r' \<noteq> sw_start \<and> rq_start r' = rq_start (rd_req rd)"
proof -
  let ?st = "rq_state (rd_req rd)"
  have i: "k \<le> n" "n \<le> length S" "rd_mem rd = drop k (take n S)" "rd_pos rd = n - k"
    "steps S sw_start 0 (take n S) new_request = Some (?st, s)" "moved k (?st \<noteq> sw_start) (rd_req rd) s"
    using r by (auto simp: reading_def Let_def)
  have take: "take (n + length got) S = take n S @ got"
    using S i(2) by (metis add.commute append_eq_conv_conj append_take_drop_id length_take min.absorb2 take_add)
  show len: "n + length got \<le> length S" using S i(2) by (metis add_le_cancel_left append_take_drop_id le_add1 length_append length_take min.absorb2)
  show m: "mem = drop k (take (n + length got) S)" using mem i(1-3) take by simp
  then show ag: "agrees k mem S" using len by (auto simp: agrees_def drop_take)
  have lmem: "length mem = n - k + length got" using m len i(1) by simp
  have t: "typed ?st n s" using typed_steps [OF typed_start i(5)] i(2) by simp
  have pos: "?st = sw_start \<or> 0 < rd_pos rd"
    using t i(1,4,6) by (auto simp: typed_def moved_def split: if_splits)
  have "drop (rd_pos rd) mem = got" using mem i(2-4) by simp
  then have loop: "req_loop mem (rd_pos rd) ?st (rd_pos rd) got (rd_req rd) = (rc, q, r')"
    using p by (simp add: ngx_http_parse_request_line_def)
  have n: "rd_pos rd + k = n" using i(1,4) by simp
  obtain q' s' where w: "req_loop S 0 ?st n got s = (rc, q', s')"
    "rc = NGX_AGAIN \<longrightarrow> q' = q + k \<and> rq_state s' = rq_state r' \<and> moved k (rq_state r' \<noteq> sw_start) r' s'"
    "rc = NGX_OK \<longrightarrow> q' = q + k \<and> moved k True r' s'"
    using moved_loop [OF i(6) ag, where p = "rd_pos rd" and w = got and pos = "rd_pos rd" and pos' = 0] pos lmem i(4) loop
    unfolding n by auto
  have whole: "ngx_http_parse_request_line S 0 new_request = req_loop S 0 ?st n (got @ rest) s"
    using whole_after [OF i(5,2)] S by simp
  {
    assume "rc \<noteq> NGX_AGAIN"
    then have out: "ngx_http_parse_request_line S 0 new_request = (rc, q', s')"
      using loop_stops [OF w(1), of rest] whole by simp
    have "ngx_http_process_request_uri mem merge r' = ngx_http_process_request_uri S merge s'" if ok: "rc = NGX_OK" for merge
    proof (rule process_moved)
      have l: "req_loop S 0 ?st n got s = (NGX_OK, q', s')" using w(1) ok by simp
      from loop_typed [OF t l] have "q' \<le> length mem + k" "list_all (ptr_in (rq_start s') q') (pointers s')"
        using lmem i(1) by auto
      then show "list_all (ptr_in (rq_start s') (length mem + k)) (pointers s')"
        by (auto simp: list_all_iff ptr_in_def split: option.splits)
      have "args_after new_request" by (simp add: args_after_def new_request_def)
      then show "args_after s'"
        using loop_args [OF typed_start, where mem = S and w = S] out ok unfolding whole_parse by blast
      show "rq_uri_start s' \<noteq> None" "rq_uri_end s' \<noteq> None" using parsed_uri_set out ok by blast+
    qed (use w(3) ag ok in auto)
    with out w(3) show "\<exists>q' s'. ngx_http_parse_request_line S 0 new_request = (rc, q', s') \<and>
      (rc = NGX_OK \<longrightarrow> q' = q + k \<and> moved k True r' s' \<and>
        (\<forall>merge. ngx_http_process_request_uri mem merge r' = ngx_http_process_request_uri S merge s'))" by blast
  next
    assume again: "rc = NGX_AGAIN"
    with loop_again [of S 0 ?st n got s q' s'] w(1,2) obtain s2 where s2: "q' = n + length got"
      "steps S ?st n got s = Some (rq_state r', s2)" "s' = s2\<lparr>rq_state := rq_state r'\<rparr>" by auto
    have "steps S sw_start 0 (take (n + length got) S) new_request = Some (rq_state r', s2)"
      unfolding take steps_append using i(2,5) s2(2) by simp
    moreover have "moved k (rq_state r' \<noteq> sw_start) r' s2" using w(2) again s2(3) by (metis moved_state(2))
    moreover have "q = n + length got - k" using w(2) again s2(1) by simp
    ultimately show "\<exists>s'. q = n + length got - k \<and> moved k (rq_state r' \<noteq> sw_start) r' s' \<and>
      steps S sw_start 0 (take (n + length got) S) new_request = Some (rq_state r', s')" by blast
  next
    assume "rc = NGX_AGAIN" "?st \<noteq> sw_start"
    with loop_again [of mem "rd_pos rd" ?st "rd_pos rd" got "rd_req rd" q r'] loop obtain s2 where
      s2: "steps mem ?st (rd_pos rd) got (rd_req rd) = Some (rq_state r', s2)" "r' = s2\<lparr>rq_state := rq_state r'\<rparr>" by auto
    have "rq_start r' = rq_start s2" using s2(2) by (metis request.select_convs(2) request.surjective request.update_convs(1))
    with steps_keep_start [OF \<open>?st \<noteq> sw_start\<close> s2(1)]
    show "rq_state r' \<noteq> sw_start \<and> rq_start r' = rq_start (rd_req rd)" by simp
  }
qed

text \<open>A full buffer: the line moves to a large one, or the blank lines are dropped, or the line is too long.\<close>

lemma alloc_reading:
  assumes rd: "rd_mem rd = drop k (take n S)" "k \<le> n" "n \<le> length S" "rd_pos rd = n - k" "rd_pos rd = rd_size rd" "0 < rd_size rd"
    and st: "st = rq_state (rd_req rd)" "steps S sw_start 0 (take n S) new_request = Some (st, s)" "moved k (st \<noteq> sw_start) (rd_req rd) s"
    and buf: "rd_busy rd = 0 \<and> rd_free rd = f \<or> st \<noteq> sw_start \<and> rq_start (rd_req rd) = 0 \<and> rd_size rd = hc_size conf"
  shows "case ngx_http_alloc_large_header_buffer conf rd of None \<Rightarrow> too_long conf f S
    | Some rd' \<Rightarrow> \<exists>k'. reading conf f S n k' s rd'"
proof (cases "st = sw_start")
  case True
  have "typed st n s" using typed_steps [OF typed_start st(2)] rd(3) by simp
  then have "moved n False (rd_req rd) s" using st(3) True
    by (auto simp: typed_def moved_def places_def pointers_def)
  then have "reading conf f S n n s (rd\<lparr>rd_mem := [], rd_pos := 0\<rparr>)"
    using rd st True buf by (auto simp: reading_def Let_def)
  then show ?thesis using True st(1) by (auto simp: ngx_http_alloc_large_header_buffer_def)
next
  case False
  let ?old = "rq_start (rd_req rd)"
  have t: "typed st n s" using typed_steps [OF typed_start st(2)] rd(3) by simp
  have pr: "paired st s" using paired_steps [OF _ st(2)] by (simp add: paired_def new_request_def host_started_def)
  have start: "rq_start s = ?old + k" "rq_start s < n" using st(3) t False by (auto simp: moved_def typed_def)
  have n: "rd_pos rd - ?old = n - rq_start s" using rd(4) start by simp
  show ?thesis
  proof (cases "hc_size conf \<le> rd_pos rd - ?old \<or> \<not> (rd_free rd > 0 \<or> rd_busy rd < hc_num conf)")
    case True
    then have "hc_size conf \<le> n - rq_start s \<or> hc_num conf = 0 \<and> f = 0"
      using n buf rd(4,5) start by auto
    then have "too_long conf f S" by (rule too_longI [OF st(2) rd(3) False])
    moreover have "ngx_http_alloc_large_header_buffer conf rd = None"
      using True False st(1) by (auto simp: ngx_http_alloc_large_header_buffer_def Let_def)
    ultimately show ?thesis by simp
  next
    case ok: False
    have m: "moved (k + ?old) True (relocate ?old (rd_req rd)) s"
      by (rule relocate_moved [OF _ t pr False]) (use st(3) False in simp)
    have "take (rd_pos rd - ?old) (drop ?old (rd_mem rd)) = drop (k + ?old) (take n S)"
      using rd by (simp add: add.commute)
    moreover have "rq_state (relocate ?old (rd_req rd)) = st" "rq_start (relocate ?old (rd_req rd)) = 0"
      using st(1) by (simp_all add: relocate_def Let_def)
    ultimately show ?thesis using ok False st(1,2) m start rd(3,4)
      by (auto simp: ngx_http_alloc_large_header_buffer_def Let_def reading_def intro!: exI [of _ "k + ?old"])
  qed
qed


lemma process_correct:
  "reading conf f S n k s rd \<Longrightarrow> concat as = drop n S \<Longrightarrow> [] \<notin> set as \<Longrightarrow>
    line_outcome conf f S (ngx_http_process_request_line conf as rd)"
proof (induction "length (concat as)" arbitrary: as rd n k s rule: less_induct)
  case less
  note r = less.prems(1)
  have i: "k \<le> n" "n \<le> length S" "rd_mem rd = drop k (take n S)" "rd_pos rd = n - k" "n - k < rd_size rd"
    "steps S sw_start 0 (take n S) new_request = Some (rq_state (rd_req rd), s)"
    using r by (auto simp: reading_def Let_def)
  show ?case
  proof (cases as)
    case Nil
    then have "n = length S" using less.prems(2) i(2) by simp
    then have "ngx_http_parse_request_line S 0 new_request = (NGX_AGAIN, n, s\<lparr>rq_state := rq_state (rd_req rd)\<rparr>)"
      using whole_after [OF i(6,2)] by simp
    then show ?thesis using Nil by (simp add: line_outcome_def)
  next
    case (Cons a as1)
    let ?m = "rd_size rd - length (rd_mem rd)"
    let ?got = "take ?m a" and ?as = "if drop ?m a = [] then as1 else drop ?m a # as1"
    have "length (rd_mem rd) = n - k" using i by simp
    then have got: "?got \<noteq> []" using less.prems(3) Cons i(5) by auto
    have ca: "concat ?as = drop ?m a @ concat as1" by simp
    have S: "drop n S = ?got @ concat ?as"
      unfolding ca less.prems(2) [symmetric] Cons by (simp flip: append_assoc)
    have shorter: "length (concat ?as) < length (concat as)" using got Cons by (auto simp: ca)
    have ne: "[] \<notin> set ?as" using less.prems(3) Cons by auto
    obtain rc q r' where p: "ngx_http_parse_request_line (rd_mem rd @ ?got) (rd_pos rd) (rd_req rd) = (rc, q, r')"
      by (metis prod_cases3)
    note g = parse_got [OF r S got refl p]
    define rd' where "rd' = rd\<lparr>rd_mem := rd_mem rd @ ?got, rd_pos := q, rd_req := r'\<rparr>"
    have res: "ngx_http_process_request_line conf as rd =
        (if rc = NGX_OK then Line_Ok rd'
         else if rc \<noteq> NGX_AGAIN then Line_Bad rc
         else if rd_pos rd' = rd_size rd' then
           (case ngx_http_alloc_large_header_buffer conf rd' of
              None \<Rightarrow> Line_Too_Large
            | Some rd2 \<Rightarrow> ngx_http_process_request_line conf ?as rd2)
         else ngx_http_process_request_line conf ?as rd')"
      unfolding Cons ngx_http_process_request_line.simps(2) Let_def using got p by (simp add: rd'_def)
    show ?thesis
    proof (cases "rc = NGX_AGAIN")
      case False
      from g(4) [OF False] g(1) show ?thesis unfolding res using False
        by (auto simp: line_outcome_def rd'_def)
    next
      case True
      from g(5) [OF True] obtain s' where s': "q = n + length ?got - k" "moved k (rq_state r' \<noteq> sw_start) r' s'"
        "steps S sw_start 0 (take (n + length ?got) S) new_request = Some (rq_state r', s')" by blast
      have buf: "rd_busy rd' = 0 \<and> rd_free rd' = f \<or> rq_state r' \<noteq> sw_start \<and> rq_start (rd_req rd') = 0 \<and> rd_size rd' = hc_size conf"
        using r g(6) [OF True] by (auto simp: reading_def rd'_def Let_def)
      have drop: "concat ?as = drop (n + length ?got) S" using drop_at [OF S] by simp
      have IH: "line_outcome conf f S (ngx_http_process_request_line conf ?as rd2)"
        if "reading conf f S (n + length ?got) k2 s' rd2" for rd2 k2
        using less.hyps [OF shorter that drop ne] .
      have rd': "rd_mem rd' = rd_mem rd @ ?got" "rd_pos rd' = q" "rd_size rd' = rd_size rd" "rd_req rd' = r'"
        by (simp_all add: rd'_def)
      have f: "rd_mem rd' = drop k (take (n + length ?got) S)" "k \<le> n + length ?got" "rd_pos rd' = n + length ?got - k"
        "0 < rd_size rd'" "rq_state r' = rq_state (rd_req rd')"
        "moved k (rq_state r' \<noteq> sw_start) (rd_req rd') s'"
        unfolding rd' by (rule g(2), use i(1) in linarith, rule s'(1), use i(5) in linarith, rule refl, rule s'(2))
      show ?thesis
      proof (cases "rd_pos rd' = rd_size rd'")
        case full: True
        from alloc_reading [OF f(1,2) g(3) f(3) full f(4,5) s'(3) f(6) buf] show ?thesis
          unfolding res using True full IH
          by (cases "ngx_http_alloc_large_header_buffer conf rd'") (auto simp: line_outcome_def)
      next
        case False
        have "length (rd_mem rd @ ?got) \<le> rd_size rd" using i by simp
        then have "n + length ?got - k < rd_size rd'" using False f i by (simp add: rd'_def)
        then have "reading conf f S (n + length ?got) k s' rd'"
          unfolding reading_def Let_def f(5) [symmetric] using g(3) f s'(3) buf by blast
        from IH [OF this] show ?thesis unfolding res using True False by simp
      qed
    qed
  qed
qed


text \<open>The header buffer of a connection before its first request.\<close>

definition new_reader :: "nat \<Rightarrow> nat \<Rightarrow> reader" where
  "new_reader bsize f = \<lparr>rd_mem = [], rd_pos = 0, rd_size = bsize, rd_free = f, rd_busy = 0, rd_req = new_request\<rparr>"

lemma new_reading: "0 < bsize \<Longrightarrow> reading conf f S 0 0 new_request (new_reader bsize f)"
  by (simp add: reading_def new_reader_def moved_refl, simp add: new_request_def moved_refl)

section \<open>Correctness\<close>

text \<open>
  C24. The fields of the request keep their types. After any number of bytes, for a line that is complete or not,
  every pointer that is set lies between the start of the request line and the position in the buffer,
  the version numbers have not wrapped (major at most 1, minor at most 999), and after a complete line
  the version is their combination, the end pointer is set and the machine is back at its start.
\<close>

theorem request_typed:
  assumes "ngx_http_parse_request_line mem pos new_request = (rc, q, r)" "pos \<le> length mem" "rc = NGX_OK \<or> rc = NGX_AGAIN"
  shows "pos \<le> q \<and> q \<le> length mem \<and> list_all (ptr_in (rq_start r) q) (rq_end r # pointers r) \<and>
    unat (rq_http_minor r) \<le> 999 \<and> unat (rq_http_major r) \<le> 1 \<and>
    (rc = NGX_OK \<longrightarrow> rq_http_version r = unat (rq_http_major r) * 1000 + unat (rq_http_minor r) \<and>
      (\<exists>e. rq_end r = Some e) \<and> rq_state r = sw_start)"
proof -
  have "rq_state new_request = sw_start" by (simp add: new_request_def)
  with assms(1) have "req_loop mem pos sw_start pos (drop pos mem) new_request = (rc, q, r)"
    by (simp add: ngx_http_parse_request_line_def)
  from loop_typed [OF typed_start this assms(3)] assms(2) show ?thesis by simp
qed

definition demo_line :: bytes where
  "demo_line = ascii ''GET /a?b HTTP/1.1'' @ [c_cr, c_lf]"

theorem request_typed_witness:
  "unat (rq_http_minor (snd (snd (ngx_http_parse_request_line demo_line 0 new_request)))) \<le> 999"
proof -
  have "fst (ngx_http_parse_request_line demo_line 0 new_request) = NGX_OK" by code_simp
  then obtain q r where "ngx_http_parse_request_line demo_line 0 new_request = (NGX_OK, q, r)" by (metis prod.collapse)
  from request_typed [OF this] this show ?thesis by simp
qed

text \<open>
  C4. How a request line arrives does not matter. However the client's bytes are cut into reads and whatever the sizes
  of the buffers, the line is accepted, refused or still incomplete exactly as for one run of the
  machine over all the bytes at once. An accepted line leaves the same numbers and, up to the place of
  the buffer, the same pointers, so the same path and arguments are read through them. A line is called
  too long only when its beginning fills a large buffer, or there is none; the connection is never taken for closed.
\<close>

theorem request_reading_exact:
  assumes "0 < bsize" "[] \<notin> set arrivals"
  shows "line_outcome conf f (concat arrivals) (ngx_http_process_request_line conf arrivals (new_reader bsize f))"
  by (rule process_correct [OF new_reading]) (use assms in simp_all)

definition demo_arrivals :: "bytes list" where
  "demo_arrivals = [[c_cr, c_lf, 0x47], ascii ''ET /a'', ascii ''?b HTTP/1.1'' @ [c_cr, c_lf]]"

theorem request_reading_exact_witness:
  "\<exists>rd k s. ngx_http_process_request_line \<lparr>hc_num = 1, hc_size = 64\<rparr> demo_arrivals (new_reader 4 0) = Line_Ok rd \<and>
     ngx_http_parse_request_line (concat demo_arrivals) 0 new_request = (NGX_OK, rd_pos rd + k, s)"
proof -
  let ?res = "ngx_http_process_request_line \<lparr>hc_num = 1, hc_size = 64\<rparr> demo_arrivals (new_reader 4 0)"
  have "case ?res of Line_Ok rd \<Rightarrow> True | _ \<Rightarrow> False" by code_simp
  then obtain rd where rd: "?res = Line_Ok rd" by (auto split: line_result.splits)
  have "[] \<notin> set demo_arrivals" by (simp add: demo_arrivals_def ascii_def)
  from request_reading_exact [OF _ this, of 4 "\<lparr>hc_num = 1, hc_size = 64\<rparr>" 0] rd show ?thesis
    by (auto simp: line_outcome_def)
qed

end
