(* ===== verification/Ngx_Limit_Req.thy ===== *)
theory Ngx_Limit_Req
  imports Prelude
begin

text \<open>
  nginx, \<^verbatim>\<open>src/http/modules/ngx_http_limit_req_module.c\<close>: limiting the rate of requests. Each zone keeps a leaky
  bucket per key in shared memory; a request passes when it fits the bucket of every limit that
  applies, and only then is it charged to them. The module is shown to be all or nothing over several
  limits, to leave no reference behind, and to keep the rate it promises in every interval of time.
\<close>

section \<open>The module\<close>

text \<open>
  A node of the zone. The queue orders the nodes by their last use, the most recent first; the red-black tree
  holds the same nodes and is used to find the one with a given key, so that a zone is the list of its
  nodes. All quantities are 64-bit words, with \<open>1000\<close> for one request in \<open>lr_excess\<close> and in the rate per second.
\<close>

record lr_node =
  lr_key :: bytes
  lr_last :: u64
  lr_excess :: u64
  lr_count :: u64

text \<open>\<open>lc_node\<close> is \<^verbatim>\<open>ctx->node\<close>, by its key.\<close>

record lr_ctx =
  lc_queue :: "lr_node list"
  lc_rate :: u64
  lc_node :: "bytes option"

record lr_limit =
  ll_ctx :: lr_ctx
  ll_burst :: u64
  ll_delay :: u64

datatype lr_rc = LR_OK | LR_BUSY | LR_AGAIN | LR_ERROR | LR_DECLINED

definition lr_find :: "bytes \<Rightarrow> lr_node list \<Rightarrow> lr_node option" where
  "lr_find key q = find (\<lambda>x. lr_key x = key) q"

definition lr_without :: "bytes \<Rightarrow> lr_node list \<Rightarrow> lr_node list" where
  "lr_without key q = filter (\<lambda>x. lr_key x \<noteq> key) q"

definition lr_update :: "bytes \<Rightarrow> (lr_node \<Rightarrow> lr_node) \<Rightarrow> lr_ctx \<Rightarrow> lr_ctx" where
  "lr_update key f ctx = ctx\<lparr>lc_queue := map (\<lambda>x. if lr_key x = key then f x else x) (lc_queue ctx)\<rparr>"

text \<open>The time since the last charge, a clock that went back taken into account.\<close>

definition lr_ms :: "u64 \<Rightarrow> lr_node \<Rightarrow> int" where
  "lr_ms now lr = (let ms = sint (now - lr_last lr) in if ms < -60000 then 1 else if ms < 0 then 0 else ms)"

definition lr_charge :: "u64 \<Rightarrow> int \<Rightarrow> lr_node \<Rightarrow> int" where
  "lr_charge rate ms lr =
     (let excess = sint (lr_excess lr - rate * of_int ms div 1000 + 1000) in if excess < 0 then 0 else excess)"

definition lr_set :: "u64 \<Rightarrow> int \<Rightarrow> int \<Rightarrow> lr_node \<Rightarrow> lr_node" where
  "lr_set now ms excess lr =
     (let lr = lr\<lparr>lr_excess := of_int excess\<rparr> in if ms \<noteq> 0 then lr\<lparr>lr_last := now\<rparr> else lr)"

function ngx_http_limit_req_expire :: "u64 \<Rightarrow> nat \<Rightarrow> lr_ctx \<Rightarrow> lr_ctx" where
  "ngx_http_limit_req_expire now n ctx =
     (if n < 3 then
        if lc_queue ctx = [] then ctx
        else
          let lr = last (lc_queue ctx) in
          if lr_count lr \<noteq> 0 then ctx
          else if n \<noteq> 0 \<and>
            (let ms = sint (of_int \<bar>sint (now - lr_last lr)\<bar> :: u64) in
             ms < 60000 \<or> sint (lr_excess lr - lc_rate ctx * of_int ms div 1000) > 0) then ctx
          else ngx_http_limit_req_expire now (n + 1) (ctx\<lparr>lc_queue := butlast (lc_queue ctx)\<rparr>)
      else ctx)"
  by auto
termination
  by (relation "measure (\<lambda>(now, n, ctx). 3 - n)") auto

declare ngx_http_limit_req_expire.simps [simp del]

text \<open>\<open>alloc1\<close> and \<open>alloc2\<close>: whether the first and the second allocation from the shared memory succeed.\<close>

definition ngx_http_limit_req_lookup ::
  "u64 \<Rightarrow> bool \<Rightarrow> bool \<Rightarrow> bytes \<Rightarrow> bool \<Rightarrow> lr_limit \<Rightarrow> lr_rc \<times> int \<times> lr_limit" where
  "ngx_http_limit_req_lookup now alloc1 alloc2 key account limit =
     (let ctx = ll_ctx limit in
      case lr_find key (lc_queue ctx) of
        Some lr \<Rightarrow>
          let ctx = ctx\<lparr>lc_queue := lr # lr_without key (lc_queue ctx)\<rparr>;
              ms = lr_ms now lr;
              excess = lr_charge (lc_rate ctx) ms lr
          in if of_int excess > ll_burst limit then (LR_BUSY, excess, limit\<lparr>ll_ctx := ctx\<rparr>)
             else if account then
               (LR_OK, excess, limit\<lparr>ll_ctx := lr_update key (lr_set now ms excess) ctx\<rparr>)
             else
               (LR_AGAIN, excess,
                limit\<lparr>ll_ctx := (lr_update key (\<lambda>lr. lr\<lparr>lr_count := lr_count lr + 1\<rparr>) ctx)\<lparr>lc_node := Some key\<rparr>\<rparr>)
      | None \<Rightarrow>
          let ctx = ngx_http_limit_req_expire now 1 ctx;
              ctx = (if alloc1 then ctx else ngx_http_limit_req_expire now 0 ctx)
          in if \<not> alloc1 \<and> \<not> alloc2 then (LR_ERROR, 0, limit\<lparr>ll_ctx := ctx\<rparr>)
             else if account then
               (LR_OK, 0, limit\<lparr>ll_ctx := ctx\<lparr>lc_queue :=
                  \<lparr>lr_key = key, lr_last = now, lr_excess = 0, lr_count = 0\<rparr> # lc_queue ctx\<rparr>\<rparr>)
             else
               (LR_AGAIN, 0, limit\<lparr>ll_ctx := ctx\<lparr>lc_queue :=
                  \<lparr>lr_key = key, lr_last = 0, lr_excess = 0, lr_count = 1\<rparr> # lc_queue ctx, lc_node := Some key\<rparr>\<rparr>))"

text \<open>One limit in the loop of \<^verbatim>\<open>ngx_http_limit_req_account\<close>: the excess after the charge.\<close>

definition account_one :: "u64 \<Rightarrow> lr_limit \<Rightarrow> int option \<times> lr_limit" where
  "account_one now limit =
     (let ctx = ll_ctx limit in
      case lc_node ctx of
        None \<Rightarrow> (None, limit)
      | Some key \<Rightarrow>
          (case lr_find key (lc_queue ctx) of
             None \<Rightarrow> (None, limit)
           | Some lr \<Rightarrow>
               let ms = lr_ms now lr;
                   excess = lr_charge (lc_rate ctx) ms lr;
                   ctx = lr_update key (\<lambda>lr. (lr_set now ms excess lr)\<lparr>lr_count := lr_count lr - 1\<rparr>) ctx
               in (Some excess, limit\<lparr>ll_ctx := ctx\<lparr>lc_node := None\<rparr>\<rparr>)))"

definition delay_of :: "int \<Rightarrow> lr_limit \<Rightarrow> u64" where
  "delay_of excess limit =
     (if of_int excess \<le> ll_delay limit then 0
      else (of_int excess - ll_delay limit) * 1000 div lc_rate (ll_ctx limit))"

text \<open>
  \<^verbatim>\<open>while (n--)\<close>: the limits are visited from the last looked up to the first. What the source also
  stores in \<^verbatim>\<open>*ep\<close> and \<^verbatim>\<open>*limit\<close> is only written to the log.
\<close>

fun ngx_http_limit_req_account :: "u64 \<Rightarrow> nat \<Rightarrow> lr_limit list \<Rightarrow> u64 \<Rightarrow> u64 \<times> lr_limit list" where
  "ngx_http_limit_req_account now 0 limits max_delay = (max_delay, limits)"
| "ngx_http_limit_req_account now (Suc n) limits max_delay =
     (case account_one now (limits ! n) of
        (None, limit) \<Rightarrow> ngx_http_limit_req_account now n limits max_delay
      | (Some excess, limit) \<Rightarrow>
          let delay = delay_of excess limit
          in ngx_http_limit_req_account now n (limits[n := limit])
               (if delay > max_delay then delay else max_delay))"

definition unlock_one :: "lr_limit \<Rightarrow> lr_limit" where
  "unlock_one limit =
     (case lc_node (ll_ctx limit) of
        None \<Rightarrow> limit
      | Some key \<Rightarrow>
          limit\<lparr>ll_ctx := (lr_update key (\<lambda>lr. lr\<lparr>lr_count := lr_count lr - 1\<rparr>) (ll_ctx limit))\<lparr>lc_node := None\<rparr>\<rparr>)"

fun ngx_http_limit_req_unlock :: "nat \<Rightarrow> lr_limit list \<Rightarrow> lr_limit list" where
  "ngx_http_limit_req_unlock 0 limits = limits"
| "ngx_http_limit_req_unlock (Suc n) limits =
     ngx_http_limit_req_unlock n (limits[n := unlock_one (limits ! n)])"

text \<open>
  The handler. What a run finds around it: the time, the keys the complex values give (\<open>None\<close> when the
  evaluation fails), whether the allocations succeed, and whether the read event can be handled
  when the request has to wait.
\<close>

record lr_env =
  le_now :: u64
  le_key :: "nat \<Rightarrow> bytes option"
  le_alloc1 :: "nat \<Rightarrow> bool"
  le_alloc2 :: "nat \<Rightarrow> bool"
  le_read :: bool

datatype lr_status = LR_Unset | LR_Passed | LR_Delayed | LR_Rejected | LR_Delayed_Dry_Run | LR_Rejected_Dry_Run

datatype lr_return = LR_Declined | LR_Status_Code | LR_Server_Error | LR_Wait u64

definition usable_key :: "bytes \<Rightarrow> bool" where
  "usable_key k \<longleftrightarrow> k \<noteq> [] \<and> \<not> int (length k) > 65535"

text \<open>The loop over the limits; \<open>Inl\<close> when a key could not be evaluated.\<close>

function limit_loop ::
  "lr_env \<Rightarrow> nat \<Rightarrow> lr_limit list \<Rightarrow> lr_rc \<Rightarrow> int \<Rightarrow> lr_limit list + lr_rc \<times> int \<times> nat \<times> lr_limit list" where
  "limit_loop env n limits rc excess =
     (if n < length limits then
        (case le_key env n of
           None \<Rightarrow> Inl (ngx_http_limit_req_unlock n limits)
         | Some key \<Rightarrow>
             if \<not> usable_key key then limit_loop env (n + 1) limits rc excess
             else
               let (rc, excess, limit) =
                     ngx_http_limit_req_lookup (le_now env) (le_alloc1 env n) (le_alloc2 env n) key
                       (n = length limits - 1) (limits ! n);
                   limits = limits[n := limit]
               in if rc \<noteq> LR_AGAIN then Inr (rc, excess, n, limits)
                  else limit_loop env (n + 1) limits rc excess)
      else Inr (rc, excess, n, limits))"
  by pat_completeness auto
termination
  by (relation "measure (\<lambda>(env, n, limits, rc, excess). length limits - n)") (auto split: prod.splits)

declare limit_loop.simps [simp del]

text \<open>With \<open>LR_AGAIN\<close> the source clears the excess, so that the limit the delay starts from plays no part.\<close>

definition ngx_http_limit_req_handler ::
  "lr_env \<Rightarrow> bool \<Rightarrow> lr_status \<Rightarrow> lr_limit list \<Rightarrow> lr_return \<times> lr_status \<times> lr_limit list" where
  "ngx_http_limit_req_handler env dry_run status limits =
     (if status \<noteq> LR_Unset then (LR_Declined, status, limits)
      else
        case limit_loop env 0 limits LR_DECLINED 0 of
          Inl limits \<Rightarrow> (LR_Server_Error, status, limits)
        | Inr (rc, excess, n, limits) \<Rightarrow>
            if rc = LR_DECLINED then (LR_Declined, status, limits)
            else if rc = LR_BUSY \<or> rc = LR_ERROR then
              let limits = ngx_http_limit_req_unlock n limits
              in if dry_run then (LR_Declined, LR_Rejected_Dry_Run, limits)
                 else (LR_Status_Code, LR_Rejected, limits)
            else
              let max_delay = (if rc = LR_AGAIN then 0 else delay_of excess (limits ! n));
                  (delay, limits) = ngx_http_limit_req_account (le_now env) n limits max_delay
              in if delay = 0 then (LR_Declined, LR_Passed, limits)
                 else if dry_run then (LR_Declined, LR_Delayed_Dry_Run, limits)
                 else if le_read env then (LR_Wait delay, LR_Delayed, limits)
                 else (LR_Server_Error, LR_Delayed, limits))"


section \<open>A zone by its keys\<close>

definition zone_get :: "lr_limit \<Rightarrow> bytes \<Rightarrow> lr_node option" where
  "zone_get limit key = lr_find key (lc_queue (ll_ctx limit))"

definition zone_keys :: "lr_limit \<Rightarrow> bytes list" where
  "zone_keys limit = map lr_key (lc_queue (ll_ctx limit))"

lemma lr_find_Some: "lr_find k q = Some x \<Longrightarrow> x \<in> set q \<and> lr_key x = k"
  by (induction q) (auto simp: lr_find_def split: if_splits)

lemma lr_find_None: "lr_find k q = None \<longleftrightarrow> k \<notin> lr_key ` set q"
  by (induction q) (auto simp: lr_find_def)

lemma lr_find_simps [simp]:
  "lr_find k [] = None"
  "lr_find k (x # q) = (if lr_key x = k then Some x else lr_find k q)"
  by (simp_all add: lr_find_def)

lemma lr_find_append: "lr_find k (p @ q) = (case lr_find k p of None \<Rightarrow> lr_find k q | Some x \<Rightarrow> Some x)"
  by (induction p) auto

lemma lr_find_map:
  assumes "\<And>x. lr_key (f x) = lr_key x"
  shows "lr_find j (map (\<lambda>x. if lr_key x = k then f x else x) q) =
    (if j = k then map_option f (lr_find k q) else lr_find j q)"
  by (induction q) (auto simp: assms)

lemma lr_find_without: "lr_find j (lr_without k q) = (if j = k then None else lr_find j q)"
  by (induction q) (auto simp: lr_without_def)

lemma lr_update_simps [simp]:
  "lc_rate (lr_update k f c) = lc_rate c"
  "lc_node (lr_update k f c) = lc_node c"
  by (simp_all add: lr_update_def)

lemma lr_find_update [simp]:
  assumes "\<And>x. lr_key (f x) = lr_key x"
  shows "lr_find j (lc_queue (lr_update k f c)) =
    (if j = k then map_option f (lr_find k (lc_queue c)) else lr_find j (lc_queue c))"
  using lr_find_map [of f, OF assms] by (simp add: lr_update_def)

lemma keys_update [simp]:
  assumes "\<And>x. lr_key (f x) = lr_key x"
  shows "map lr_key (lc_queue (lr_update k f c)) = map lr_key (lc_queue c)"
  by (simp add: lr_update_def assms)

lemma key_lr_set [simp]:
  "lr_key (lr_set now ms e x) = lr_key x" "lr_count (lr_set now ms e x) = lr_count x"
  by (simp_all add: lr_set_def Let_def)

lemma distinct_front:
  "distinct (map lr_key q) \<Longrightarrow> lr_key x = k \<Longrightarrow> distinct (map lr_key (x # lr_without k q))"
  by (auto simp: lr_without_def distinct_map_filter)

text \<open>Expiring takes unused nodes from the end of the queue and leaves everything else.\<close>

lemma expire_cut:
  "\<exists>p. lc_queue ctx = lc_queue (ngx_http_limit_req_expire now n ctx) @ p \<and> (\<forall>x\<in>set p. lr_count x = 0)"
proof (induction now n ctx rule: ngx_http_limit_req_expire.induct)
  case (1 now n ctx)
  let ?q = "lc_queue ctx" and ?c = "ctx\<lparr>lc_queue := butlast (lc_queue ctx)\<rparr>"
  show ?case
  proof (cases "ngx_http_limit_req_expire now n ctx = ctx")
    case False
    then have ne: "n < 3" "?q \<noteq> []" "lr_count (last ?q) = 0"
      and eq: "ngx_http_limit_req_expire now n ctx = ngx_http_limit_req_expire now (n + 1) ?c"
      and IH: "\<exists>p. lc_queue ?c = lc_queue (ngx_http_limit_req_expire now (n + 1) ?c) @ p \<and> (\<forall>x\<in>set p. lr_count x = 0)"
      using "1.IH" by (auto simp: ngx_http_limit_req_expire.simps [of now n ctx] Let_def split: if_splits)
    then obtain p where p: "butlast ?q = lc_queue (ngx_http_limit_req_expire now (n + 1) ?c) @ p" "\<forall>x\<in>set p. lr_count x = 0"
      by auto
    have "?q = lc_queue (ngx_http_limit_req_expire now n ctx) @ p @ [last ?q]"
      using ne p(1) by (metis append_butlast_last_id append.assoc eq)
    then show ?thesis using p(2) ne(3) by (intro exI [of _ "p @ [last ?q]"]) auto
  qed simp
qed

lemma expire_fields [simp]:
  "lc_rate (ngx_http_limit_req_expire now n ctx) = lc_rate ctx \<and>
   lc_node (ngx_http_limit_req_expire now n ctx) = lc_node ctx"
proof (induction now n ctx rule: ngx_http_limit_req_expire.induct)
  case (1 now n ctx)
  then show ?case by (subst (1 2) ngx_http_limit_req_expire.simps) (auto simp: Let_def)
qed


section \<open>What a request does to one limit\<close>

text \<open>A zone between two requests: one node per key and no reference held.\<close>

definition lr_wf :: "lr_limit \<Rightarrow> bool" where
  "lr_wf l \<longleftrightarrow> distinct (zone_keys l) \<and> lc_node (ll_ctx l) = None"

definition lr_same :: "lr_limit \<Rightarrow> lr_limit \<Rightarrow> bool" where
  "lr_same l h \<longleftrightarrow> ll_burst h = ll_burst l \<and> ll_delay h = ll_delay l \<and> lc_rate (ll_ctx h) = lc_rate (ll_ctx l)"

text \<open>The nodes of other keys stay as they are, except that an unused one may be expired.\<close>

definition lr_others :: "bytes \<Rightarrow> lr_limit \<Rightarrow> lr_limit \<Rightarrow> bool" where
  "lr_others key l h \<longleftrightarrow> (\<forall>j. j \<noteq> key \<longrightarrow>
     zone_get h j = zone_get l j \<or> zone_get h j = None \<and> (\<exists>x. zone_get l j = Some x \<and> lr_count x = 0))"

definition lr_fresh :: "bytes \<Rightarrow> lr_node" where
  "lr_fresh key = \<lparr>lr_key = key, lr_last = 0, lr_excess = 0, lr_count = 0\<rparr>"

definition lr_charged :: "u64 \<Rightarrow> u64 \<Rightarrow> lr_node \<Rightarrow> lr_node" where
  "lr_charged now rate x = lr_set now (lr_ms now x) (lr_charge rate (lr_ms now x) x) x"

definition lr_admits :: "u64 \<Rightarrow> bytes \<Rightarrow> lr_limit \<Rightarrow> bool" where
  "lr_admits now key l = (case zone_get l key of
     None \<Rightarrow> True | Some x \<Rightarrow> of_int (lr_charge (lc_rate (ll_ctx l)) (lr_ms now x) x) \<le> ll_burst l)"

text \<open>Looked up but not charged yet: the node exists and is referenced once more.\<close>

definition lr_held :: "u64 \<Rightarrow> bytes \<Rightarrow> lr_limit \<Rightarrow> lr_limit \<Rightarrow> bool" where
  "lr_held now key l h \<longleftrightarrow>
     distinct (zone_keys h) \<and> lc_node (ll_ctx h) = Some key \<and> lr_same l h \<and> lr_others key l h \<and> lr_admits now key l \<and>
     zone_get h key = Some (case zone_get l key of
       Some x \<Rightarrow> x\<lparr>lr_count := lr_count x + 1\<rparr> | None \<Rightarrow> (lr_fresh key)\<lparr>lr_count := 1\<rparr>)"

text \<open>The outcome of a request that is let through, and of one that is not.\<close>

definition lr_taken :: "u64 \<Rightarrow> bytes \<Rightarrow> lr_limit \<Rightarrow> lr_limit \<Rightarrow> bool" where
  "lr_taken now key l h \<longleftrightarrow> lr_wf h \<and> lr_same l h \<and> lr_others key l h \<and> lr_admits now key l \<and>
     (case zone_get l key of
        Some x \<Rightarrow> zone_get h key = Some (lr_charged now (lc_rate (ll_ctx l)) x)
      | None \<Rightarrow> zone_get h key = Some ((lr_fresh key)\<lparr>lr_last := now\<rparr>) \<or>
                zone_get h key = Some (lr_charged now (lc_rate (ll_ctx l)) (lr_fresh key)))"

definition lr_left :: "bytes \<Rightarrow> lr_limit \<Rightarrow> lr_limit \<Rightarrow> bool" where
  "lr_left key l h \<longleftrightarrow> lr_wf h \<and> lr_same l h \<and> lr_others key l h \<and>
     (zone_get h key = zone_get l key \<or> zone_get l key = None \<and> zone_get h key = Some (lr_fresh key))"

lemmas lr_rel_defs = lr_wf_def lr_same_def lr_held_def lr_taken_def lr_left_def zone_keys_def

lemma lr_same_refl [simp]: "lr_same l l"
  by (simp add: lr_same_def)

lemma lr_others_refl [simp]: "lr_others k l l"
  by (simp add: lr_others_def)

lemma lr_left_refl: "lr_wf l \<Longrightarrow> lr_left key l l"
  by (simp add: lr_left_def)

lemma others_cut:
  assumes q: "lc_queue (ll_ctx l) = q @ p" and p: "\<forall>x\<in>set p. lr_count x = 0"
    and h: "\<And>j. j \<noteq> key \<Longrightarrow> zone_get h j = lr_find j q"
  shows "lr_others key l h"
  unfolding lr_others_def
proof (intro allI impI)
  fix j assume "j \<noteq> key"
  then have h: "zone_get h j = lr_find j q" by (rule h)
  show "zone_get h j = zone_get l j \<or> zone_get h j = None \<and> (\<exists>x. zone_get l j = Some x \<and> lr_count x = 0)"
  proof (cases "lr_find j q")
    case None
    then have l: "zone_get l j = lr_find j p" by (simp add: zone_get_def q lr_find_append)
    show ?thesis
    proof (cases "lr_find j p")
      case (Some x)
      then show ?thesis using p lr_find_Some [OF Some] by (simp add: h l None)
    qed (simp add: h l None)
  next
    case (Some x)
    then have "zone_get l j = Some x" by (simp add: zone_get_def q lr_find_append)
    then show ?thesis using h Some by simp
  qed
qed

lemma lookup_new_queue:
  assumes "c = (if a then ngx_http_limit_req_expire now 1 ctx
                else ngx_http_limit_req_expire now 0 (ngx_http_limit_req_expire now 1 ctx))"
  obtains p where "lc_queue ctx = lc_queue c @ p" "\<forall>x\<in>set p. lr_count x = 0"
    "lc_rate c = lc_rate ctx" "lc_node c = lc_node ctx"
proof -
  let ?d = "ngx_http_limit_req_expire now 1 ctx"
  obtain p where p: "lc_queue ctx = lc_queue ?d @ p" "\<forall>x\<in>set p. lr_count x = 0"
    using expire_cut by blast
  obtain r where r: "lc_queue ?d = lc_queue (ngx_http_limit_req_expire now 0 ?d) @ r" "\<forall>x\<in>set r. lr_count x = 0"
    using expire_cut by blast
  have "lc_queue ctx = lc_queue (ngx_http_limit_req_expire now 0 ?d) @ r @ p"
    using p(1) unfolding r(1) by simp
  then show ?thesis
    using that [of p] that [of "r @ p"] p r(2) assms by (cases a) auto
qed

text \<open>The four outcomes of a lookup.\<close>

definition lookup_post :: "u64 \<Rightarrow> bool \<Rightarrow> bool \<Rightarrow> bytes \<Rightarrow> bool \<Rightarrow> lr_limit \<Rightarrow> lr_rc \<times> int \<times> lr_limit \<Rightarrow> bool" where
  "lookup_post now a1 a2 key account l res = (case res of (rc, excess, h) \<Rightarrow>
     (rc = LR_OK \<and> account \<and> lr_taken now key l h) \<or>
     (rc = LR_AGAIN \<and> \<not> account \<and> lr_held now key l h) \<or>
     (rc = LR_BUSY \<and> lr_left key l h \<and> \<not> lr_admits now key l) \<or>
     (rc = LR_ERROR \<and> lr_left key l h \<and> \<not> a1 \<and> \<not> a2 \<and> zone_get l key = None))"

lemma lookup_found:
  assumes wf: "lr_wf l" and x: "zone_get l key = Some x"
  shows "lookup_post now a1 a2 key account l (ngx_http_limit_req_lookup now a1 a2 key account l)"
proof -
  let ?q = "lc_queue (ll_ctx l)"
  have f: "lr_find key ?q = Some x" "lr_key x = key"
    using x lr_find_Some by (auto simp: zone_get_def)
  have d: "distinct (map lr_key (x # lr_without key ?q))"
    using wf f(2) by (intro distinct_front) (simp_all add: lr_wf_def zone_keys_def)
  show ?thesis
    using wf f d
    by (auto simp: lookup_post_def ngx_http_limit_req_lookup_def lr_rel_defs zone_get_def Let_def
        lr_admits_def lr_others_def lr_find_without lr_charged_def)
qed

lemma lookup_new:
  assumes wf: "lr_wf l" and x: "zone_get l key = None"
  shows "lookup_post now a1 a2 key account l (ngx_http_limit_req_lookup now a1 a2 key account l)"
proof -
  define c where "c = (if a1 then ngx_http_limit_req_expire now 1 (ll_ctx l)
                else ngx_http_limit_req_expire now 0 (ngx_http_limit_req_expire now 1 (ll_ctx l)))"
  obtain p where p: "lc_queue (ll_ctx l) = lc_queue c @ p" "\<forall>x\<in>set p. lr_count x = 0"
    and c: "lc_rate c = lc_rate (ll_ctx l)" "lc_node c = lc_node (ll_ctx l)"
    using lookup_new_queue c_def by blast
  have f: "lr_find key (lc_queue (ll_ctx l)) = None" "lr_find key (lc_queue c) = None"
    using x by (auto simp: zone_get_def p(1) lr_find_append split: option.splits)
  have d: "distinct (map lr_key (lc_queue c))" "key \<notin> lr_key ` set (lc_queue c)"
    using wf f(2) by (auto simp: lr_wf_def zone_keys_def p(1) lr_find_None)
  have o [simp]: "lr_others key l h"
    if "lc_queue (ll_ctx h) = lc_queue c \<or> tl (lc_queue (ll_ctx h)) = lc_queue c \<and>
        lc_queue (ll_ctx h) \<noteq> [] \<and> lr_key (hd (lc_queue (ll_ctx h))) = key" for h
    by (rule others_cut [OF p]) (use that in \<open>auto simp: zone_get_def neq_Nil_conv\<close>)
  have eq: "ngx_http_limit_req_lookup now a1 a2 key account l =
      (if \<not> a1 \<and> \<not> a2 then (LR_ERROR, 0, l\<lparr>ll_ctx := c\<rparr>)
       else if account then
         (LR_OK, 0, l\<lparr>ll_ctx := c\<lparr>lc_queue := (lr_fresh key)\<lparr>lr_last := now\<rparr> # lc_queue c\<rparr>\<rparr>)
       else (LR_AGAIN, 0, l\<lparr>ll_ctx := c\<lparr>lc_queue := (lr_fresh key)\<lparr>lr_count := 1\<rparr> # lc_queue c, lc_node := Some key\<rparr>\<rparr>))"
    using f(1) by (simp add: ngx_http_limit_req_lookup_def Let_def c_def lr_fresh_def)
  show ?thesis
    using wf f d c
    by (auto simp: eq lookup_post_def lr_rel_defs zone_get_def lr_admits_def lr_fresh_def)
qed

lemma lookup_outcome:
  "lr_wf l \<Longrightarrow> lookup_post now a1 a2 key account l (ngx_http_limit_req_lookup now a1 a2 key account l)"
  using lookup_found lookup_new by (cases "zone_get l key") blast+

lemma unlock_held:
  assumes "lr_held now key l h"
  shows "lr_left key l (unlock_one h)"
  using assms
  by (auto simp: lr_rel_defs unlock_one_def zone_get_def lr_others_def lr_fresh_def split: option.splits)

lemma lr_count_irrelevant:
  "lr_ms now (x\<lparr>lr_count := c\<rparr>) = lr_ms now x"
  "lr_charge r ms (x\<lparr>lr_count := c\<rparr>) = lr_charge r ms x"
  "(lr_set now ms e (x\<lparr>lr_count := c\<rparr>))\<lparr>lr_count := lr_count x\<rparr> = lr_set now ms e x"
  by (simp_all add: lr_ms_def lr_charge_def lr_set_def Let_def)

lemma account_held:
  assumes "lr_held now key l h"
  shows "\<exists>e. fst (account_one now h) = Some e \<and> lr_taken now key l (snd (account_one now h))"
proof -
  define x where "x = (case zone_get l key of Some x \<Rightarrow> x | None \<Rightarrow> lr_fresh key)"
  have h: "lc_node (ll_ctx h) = Some key" "lr_find key (lc_queue (ll_ctx h)) = Some (x\<lparr>lr_count := lr_count x + 1\<rparr>)"
    using assms by (auto simp: lr_held_def x_def zone_get_def lr_fresh_def split: option.splits)
  have rate: "lc_rate (ll_ctx h) = lc_rate (ll_ctx l)" using assms by (simp add: lr_held_def lr_same_def)
  let ?e = "lr_charge (lc_rate (ll_ctx l)) (lr_ms now x) x"
  have acc: "account_one now h = (Some ?e, h\<lparr>ll_ctx := (lr_update key
      (\<lambda>lr. (lr_set now (lr_ms now x) ?e lr)\<lparr>lr_count := lr_count lr - 1\<rparr>) (ll_ctx h))\<lparr>lc_node := None\<rparr>\<rparr>)"
    (is "_ = (_, ?h)")
    by (simp add: account_one_def h lr_count_irrelevant rate Let_def)
  have "zone_get ?h key = Some (lr_charged now (lc_rate (ll_ctx l)) x)"
    by (simp add: zone_get_def h lr_charged_def lr_count_irrelevant)
  moreover have "zone_get ?h j = zone_get h j" if "j \<noteq> key" for j
    using that by (simp add: zone_get_def)
  ultimately show ?thesis
    using assms by (auto simp: acc lr_rel_defs x_def lr_others_def split: option.splits)
qed


section \<open>All or nothing\<close>

lemma unlock_pointwise:
  "n \<le> length ls \<Longrightarrow> length (ngx_http_limit_req_unlock n ls) = length ls \<and>
   (\<forall>i<length ls. ngx_http_limit_req_unlock n ls ! i = (if i < n then unlock_one (ls ! i) else ls ! i))"
proof (induction n arbitrary: ls)
  case (Suc n)
  then show ?case using Suc.IH [of "ls[n := unlock_one (ls ! n)]"] by (auto simp: nth_list_update less_Suc_eq)
qed simp

lemma account_pointwise:
  "n \<le> length ls \<Longrightarrow> length (snd (ngx_http_limit_req_account now n ls d)) = length ls \<and>
   (\<forall>i<length ls. snd (ngx_http_limit_req_account now n ls d) ! i =
     (if i < n then snd (account_one now (ls ! i)) else ls ! i))"
proof (induction n arbitrary: ls d)
  case (Suc n)
  obtain e l where a: "account_one now (ls ! n) = (e, l)" by fastforce
  show ?case
  proof (cases e)
    case None
    then have "l = ls ! n" using a by (auto simp: account_one_def Let_def split: option.splits)
    then show ?thesis using Suc.IH [of ls d] Suc.prems a None by (auto simp: less_Suc_eq)
  next
    case (Some x)
    then show ?thesis
      using Suc.IH [of "ls[n := l]"] Suc.prems a by (auto simp: Let_def nth_list_update less_Suc_eq)
  qed
qed simp

text \<open>The limits before position \<open>n\<close> are held where their key counts; the others are as they were.\<close>

definition held_at :: "lr_env \<Rightarrow> nat \<Rightarrow> lr_limit \<Rightarrow> lr_limit \<Rightarrow> bool" where
  "held_at env i l h \<longleftrightarrow> (\<exists>k. le_key env i = Some k \<and> (if usable_key k then lr_held (le_now env) k l h else h = l))"

definition prefix_held :: "lr_env \<Rightarrow> nat \<Rightarrow> lr_limit list \<Rightarrow> lr_limit list \<Rightarrow> bool" where
  "prefix_held env n orig ls \<longleftrightarrow> length ls = length orig \<and> n \<le> length orig \<and>
     (\<forall>i<length orig. if i < n then held_at env i (orig ! i) (ls ! i) else ls ! i = orig ! i)"

definition some_usable :: "lr_env \<Rightarrow> nat \<Rightarrow> bool" where
  "some_usable env n \<longleftrightarrow> (\<exists>i<n. \<exists>k. le_key env i = Some k \<and> usable_key k)"

lemma prefix_held_Suc:
  assumes "prefix_held env n orig ls" "n < length orig" "le_key env n = Some k"
    "if usable_key k then lr_held (le_now env) k (orig ! n) h else h = orig ! n"
  shows "prefix_held env (Suc n) orig (ls[n := h])"
proof -
  have "held_at env n (orig ! n) h" using assms(3,4) by (auto simp: held_at_def)
  then show ?thesis using assms(1,2) by (auto simp: prefix_held_def nth_list_update less_Suc_eq)
qed

definition loop_post ::
  "lr_env \<Rightarrow> lr_limit list \<Rightarrow> lr_limit list + lr_rc \<times> int \<times> nat \<times> lr_limit list \<Rightarrow> bool" where
  "loop_post env orig res = (case res of
     Inl ls \<Rightarrow> \<exists>m h. m < length orig \<and> le_key env m = None \<and> prefix_held env m orig h \<and>
                 ls = ngx_http_limit_req_unlock m h
   | Inr (rc, excess, m, ls) \<Rightarrow>
       if rc = LR_AGAIN \<or> rc = LR_DECLINED then
         m = length orig \<and> prefix_held env m orig ls \<and> (rc = LR_AGAIN \<longleftrightarrow> some_usable env m)
       else \<exists>h k l. m < length orig \<and> prefix_held env m orig h \<and> le_key env m = Some k \<and> usable_key k \<and>
              ls = h[m := l] \<and> rc \<noteq> LR_AGAIN \<and> (rc = LR_OK \<longrightarrow> Suc m = length orig) \<and>
              lookup_post (le_now env) (le_alloc1 env m) (le_alloc2 env m) k (Suc m = length orig) (orig ! m) (rc, excess, l))"

lemma loop_outcome:
  assumes "\<forall>l\<in>set orig. lr_wf l" "prefix_held env n orig ls"
    "rc = (if some_usable env n then LR_AGAIN else LR_DECLINED)"
  shows "loop_post env orig (limit_loop env n ls rc e)"
  using assms(2,3)
proof (induction env n ls rc e rule: limit_loop.induct)
  case (1 env n ls rc e)
  note IH = "1.IH" and pre = "1.prems"
  have len: "length ls = length orig" "n \<le> length orig" using pre(1) by (auto simp: prefix_held_def)
  show ?case
  proof (cases "n < length orig")
    case False
    then have "limit_loop env n ls rc e = Inr (rc, e, n, ls)"
      using len(1) by (simp add: limit_loop.simps [of env n])
    moreover have "n = length orig" using False len(2) by simp
    ultimately show ?thesis using pre by (simp add: loop_post_def)
  next
    case n: True
    have ni: "ls ! n = orig ! n" using pre(1) n by (simp add: prefix_held_def)
    show ?thesis
    proof (cases "le_key env n")
      case None
      then show ?thesis using n len pre(1) by (auto simp: limit_loop.simps [of env n] loop_post_def)
    next
      case key: (Some k)
      show ?thesis
      proof (cases "usable_key k")
        case False
        have "prefix_held env (n + 1) orig ls"
          using prefix_held_Suc [OF pre(1) n key, of "orig ! n"] False list_update_id [of ls n] ni by simp
        moreover have "some_usable env (n + 1) = some_usable env n"
          using key False by (auto simp: some_usable_def less_Suc_eq)
        ultimately show ?thesis
          using IH(1) [OF _ key False] n len pre(2) key False by (simp add: limit_loop.simps [of env n])
      next
        case us: True
        obtain c x l where look: "ngx_http_limit_req_lookup (le_now env) (le_alloc1 env n) (le_alloc2 env n) k
            (n = length ls - 1) (ls ! n) = (c, x, l)"
          by (metis prod_cases3)
        have last: "(n = length ls - 1) = (Suc n = length orig)" using n len by auto
        have post: "lookup_post (le_now env) (le_alloc1 env n) (le_alloc2 env n) k (Suc n = length orig) (orig ! n) (c, x, l)"
          using lookup_outcome [of "orig ! n" "le_now env" "le_alloc1 env n" "le_alloc2 env n" k "Suc n = length orig"]
            assms(1) n look [unfolded last ni] by simp
        show ?thesis
        proof (cases "c = LR_AGAIN")
          case True
          then have "lr_held (le_now env) k (orig ! n) l" using post by (simp add: lookup_post_def)
          then have "prefix_held env (n + 1) orig (ls[n := l])"
            using prefix_held_Suc [OF pre(1) n key] us by simp
          moreover have "some_usable env (n + 1)" using key us by (auto simp: some_usable_def)
          ultimately show ?thesis
            using IH(2) [OF _ key, of "(c, x, l)" c "(x, l)" x l "ls[n := l]"] us look n len True key
            by (simp add: limit_loop.simps [of env n])
        next
          case False
          then have res: "limit_loop env n ls rc e = Inr (c, x, n, ls[n := l])"
            using n len key us look by (simp add: limit_loop.simps [of env n])
          have "c \<noteq> LR_DECLINED" "c = LR_OK \<longrightarrow> Suc n = length orig"
            using post by (auto simp: lookup_post_def)
          then show ?thesis
            unfolding res loop_post_def using False n key us post pre(1) by auto
        qed
      qed
    qed
  qed
qed


lemma prefix_key: "prefix_held env m orig h \<Longrightarrow> i < m \<Longrightarrow> \<exists>k. le_key env i = Some k"
  unfolding prefix_held_def held_at_def by (metis order_less_le_trans)

lemma prefix_unlocked:
  assumes "prefix_held env m orig h" "\<forall>l\<in>set orig. lr_wf l" "i < m" "le_key env i = Some k"
  shows "lr_left k (orig ! i) (ngx_http_limit_req_unlock m h ! i)"
proof -
  have h: "held_at env i (orig ! i) (h ! i)" "m \<le> length h" "i < length h" "i < length orig"
    using assms by (auto simp: prefix_held_def)
  have u: "ngx_http_limit_req_unlock m h ! i = unlock_one (h ! i)"
    using unlock_pointwise [OF h(2)] h(3) assms(3) by auto
  have "lr_wf (orig ! i)" using assms(2) h(4) by simp
  then show ?thesis
    using h(1) assms(4) unlock_held lr_left_refl [of "orig ! i"]
    by (auto simp: u held_at_def lr_wf_def unlock_one_def split: if_splits)
qed

lemma prefix_accounted:
  assumes "prefix_held env m orig h" "\<forall>l\<in>set orig. lr_wf l" "i < m" "le_key env i = Some k"
  shows "if usable_key k then lr_taken (le_now env) k (orig ! i) (snd (ngx_http_limit_req_account (le_now env) m h d) ! i)
    else snd (ngx_http_limit_req_account (le_now env) m h d) ! i = orig ! i"
proof -
  have h: "held_at env i (orig ! i) (h ! i)" "m \<le> length h" "i < length h" "i < length orig"
    using assms by (auto simp: prefix_held_def)
  have u: "snd (ngx_http_limit_req_account (le_now env) m h d) ! i = snd (account_one (le_now env) (h ! i))"
    using account_pointwise [OF h(2)] h(3) assms(3) by auto
  have wf: "lr_wf (orig ! i)" using assms(2) h(4) by simp
  show ?thesis
    using h(1) assms(4) account_held [of "le_now env" k "orig ! i" "h ! i"] wf
    by (auto simp: u held_at_def lr_wf_def account_one_def)
qed

lemma prefix_start: "prefix_held env 0 orig orig"
  by (simp add: prefix_held_def)

lemmas handler_loop = loop_outcome [OF _ prefix_start, where rc = LR_DECLINED and e = 0]


text \<open>The outcome of the loop after \<^verbatim>\<open>unlock\<close> or \<^verbatim>\<open>account\<close>, for the limit at position \<open>i\<close>.\<close>

definition req_left :: "lr_env \<Rightarrow> lr_limit list \<Rightarrow> lr_limit list \<Rightarrow> bool" where
  "req_left env orig ls \<longleftrightarrow> length ls = length orig \<and>
     (\<forall>i<length orig. ls ! i = orig ! i \<or> (\<exists>k. le_key env i = Some k \<and> lr_left k (orig ! i) (ls ! i)))"

definition req_taken :: "lr_env \<Rightarrow> lr_limit list \<Rightarrow> lr_limit list \<Rightarrow> bool" where
  "req_taken env orig ls \<longleftrightarrow> length ls = length orig \<and>
     (\<forall>i<length orig. \<exists>k. le_key env i = Some k \<and>
        (if usable_key k then lr_taken (le_now env) k (orig ! i) (ls ! i) else ls ! i = orig ! i))"

lemma unlock_left:
  assumes wf: "\<forall>l\<in>set orig. lr_wf l" and h: "prefix_held env m orig h"
    and ls: "ls = h \<or> m < length orig \<and> le_key env m = Some k \<and> lr_left k (orig ! m) l \<and> ls = h[m := l]"
  shows "req_left env orig (ngx_http_limit_req_unlock m ls)"
  unfolding req_left_def
proof (intro conjI allI impI)
  have m: "length h = length orig" "m \<le> length orig" "m \<le> length ls" "length ls = length orig"
    using h ls by (auto simp: prefix_held_def)
  note u = unlock_pointwise [OF m(3)] unlock_pointwise [of m h]
  show "length (ngx_http_limit_req_unlock m ls) = length orig" using u(1) m by simp
  fix i assume i: "i < length orig"
  show "ngx_http_limit_req_unlock m ls ! i = orig ! i \<or>
      (\<exists>k. le_key env i = Some k \<and> lr_left k (orig ! i) (ngx_http_limit_req_unlock m ls ! i))"
  proof (cases "i < m")
    case True
    then have "ngx_http_limit_req_unlock m ls ! i = ngx_http_limit_req_unlock m h ! i"
      using u m i ls by auto
    moreover obtain j where "le_key env i = Some j" using prefix_key [OF h True] by blast
    ultimately show ?thesis using prefix_unlocked [OF h wf True] by auto
  next
    case False
    then have "ngx_http_limit_req_unlock m ls ! i = ls ! i" using u(1) m i by simp
    moreover have "h ! i = orig ! i" using h i False by (simp add: prefix_held_def)
    ultimately show ?thesis using ls m by (cases "i = m") auto
  qed
qed

lemma account_taken:
  assumes wf: "\<forall>l\<in>set orig. lr_wf l" and h: "prefix_held env m orig h"
    and ls: "ls = h \<and> m = length orig \<or> Suc m = length orig \<and> le_key env m = Some k \<and> usable_key k \<and>
      lr_taken (le_now env) k (orig ! m) l \<and> ls = h[m := l]"
  shows "req_taken env orig (snd (ngx_http_limit_req_account (le_now env) m ls d))"
  unfolding req_taken_def
proof (intro conjI allI impI)
  let ?a = "\<lambda>ls. snd (ngx_http_limit_req_account (le_now env) m ls d)"
  have m: "length h = length orig" "m \<le> length orig" "m \<le> length ls" "length ls = length orig"
    using h ls by (auto simp: prefix_held_def)
  note u = account_pointwise [OF m(3), of "le_now env" d] account_pointwise [of m h "le_now env" d]
  show "length (?a ls) = length orig" using u(1) m by simp
  fix i assume i: "i < length orig"
  show "\<exists>k. le_key env i = Some k \<and>
        (if usable_key k then lr_taken (le_now env) k (orig ! i) (?a ls ! i) else ?a ls ! i = orig ! i)"
  proof (cases "i < m")
    case True
    then have "?a ls ! i = ?a h ! i" using u m i ls by auto
    moreover obtain j where "le_key env i = Some j" using prefix_key [OF h True] by blast
    ultimately show ?thesis using prefix_accounted [OF h wf True] by auto
  next
    case False
    then have "?a ls ! i = ls ! i" using u(1) m i by simp
    then show ?thesis using ls m i False by (cases "i = m") auto
  qed
qed

lemma handler_outcome:
  assumes wf: "\<forall>l\<in>set orig. lr_wf l"
    and run: "ngx_http_limit_req_handler env dry LR_Unset orig = (r, st, ls)"
  shows "(st \<in> {LR_Passed, LR_Delayed, LR_Delayed_Dry_Run} \<and> req_taken env orig ls \<and> some_usable env (length orig)) \<or>
    (st \<in> {LR_Rejected, LR_Rejected_Dry_Run} \<and> req_left env orig ls \<and>
      (\<exists>i<length orig. \<exists>k. le_key env i = Some k \<and> usable_key k \<and>
        (\<not> lr_admits (le_now env) k (orig ! i) \<or> \<not> le_alloc1 env i \<and> \<not> le_alloc2 env i))) \<or>
    (st = LR_Unset \<and> req_left env orig ls \<and>
      (r = LR_Server_Error \<and> (\<exists>i<length orig. le_key env i = None) \<or>
       r = LR_Declined \<and> ls = orig \<and> \<not> some_usable env (length orig)))"
proof -
  have post: "loop_post env orig (limit_loop env 0 orig LR_DECLINED 0)"
    by (rule handler_loop [OF wf]) (simp add: some_usable_def)
  show ?thesis
  proof (cases "limit_loop env 0 orig LR_DECLINED 0")
    case (Inl h)
    then obtain m g where "m < length orig" "le_key env m = None" "prefix_held env m orig g"
      "h = ngx_http_limit_req_unlock m g"
      using post by (auto simp: loop_post_def)
    then show ?thesis using run Inl unlock_left [OF wf, of env m g g] by (auto simp: ngx_http_limit_req_handler_def)
  next
    case (Inr res)
    obtain rc e m h where res: "res = (rc, e, m, h)" by (metis prod_cases4)
    note eq = Inr [unfolded res]
    consider (again) "rc = LR_AGAIN" "m = length orig" "prefix_held env m orig h" "some_usable env m"
      | (declined) "rc = LR_DECLINED" "m = length orig" "prefix_held env m orig h" "\<not> some_usable env m"
      | (stop) g k l where "rc \<noteq> LR_AGAIN" "m < length orig" "prefix_held env m orig g" "le_key env m = Some k"
         "usable_key k" "h = g[m := l]" "rc = LR_OK \<longrightarrow> Suc m = length orig"
         "lookup_post (le_now env) (le_alloc1 env m) (le_alloc2 env m) k (Suc m = length orig) (orig ! m) (rc, e, l)"
      using post unfolding eq loop_post_def by (auto split: if_splits)
    then show ?thesis
    proof cases
      case again
      obtain d ls' where a: "ngx_http_limit_req_account (le_now env) m h 0 = (d, ls')" by fastforce
      then have "req_taken env orig ls'" using account_taken [OF wf again(3), of h _ _ 0] again(2) by simp
      then show ?thesis using run eq a again by (auto simp: ngx_http_limit_req_handler_def split: if_splits)
    next
      case declined
      have "h = orig"
      proof (rule nth_equalityI)
        fix i assume "i < length h"
        then show "h ! i = orig ! i"
          using declined by (auto simp: prefix_held_def held_at_def some_usable_def split: if_splits)
      qed (use declined in \<open>simp add: prefix_held_def\<close>)
      then show ?thesis
        using run eq declined by (auto simp: ngx_http_limit_req_handler_def req_left_def)
    next
      case stop
      show ?thesis
      proof (cases "rc = LR_OK")
        case True
        then have t: "lr_taken (le_now env) k (orig ! m) l" "Suc m = length orig"
          using stop by (auto simp: lookup_post_def)
        obtain d ls' where a: "ngx_http_limit_req_account (le_now env) m h (delay_of e (h ! m)) = (d, ls')" by fastforce
        then have "req_taken env orig ls'"
          using account_taken [OF wf stop(3), of h k l "delay_of e (h ! m)"] t stop by auto
        moreover have "some_usable env (length orig)" using stop by (auto simp: some_usable_def)
        ultimately show ?thesis using run eq a True by (auto simp: ngx_http_limit_req_handler_def split: if_splits)
      next
        case False
        then have t: "lr_left k (orig ! m) l" "rc = LR_BUSY \<or> rc = LR_ERROR"
          "\<not> lr_admits (le_now env) k (orig ! m) \<or> \<not> le_alloc1 env m \<and> \<not> le_alloc2 env m"
          using stop by (auto simp: lookup_post_def)
        have "req_left env orig (ngx_http_limit_req_unlock m h)"
          using unlock_left [OF wf stop(3), of h k l] t stop by auto
        moreover have "ngx_http_limit_req_handler env dry LR_Unset orig =
            (if dry then (LR_Declined, LR_Rejected_Dry_Run, ngx_http_limit_req_unlock m h)
             else (LR_Status_Code, LR_Rejected, ngx_http_limit_req_unlock m h))"
          using eq t(2) by (elim disjE) (simp_all add: ngx_http_limit_req_handler_def)
        then have "st \<in> {LR_Rejected, LR_Rejected_Dry_Run}" "ls = ngx_http_limit_req_unlock m h"
          using run by (auto split: if_splits)
        ultimately show ?thesis using t(3) stop(2,4,5) by blast
      qed
    qed
  qed
qed


text \<open>
  C16. Limiting the rate of requests over several limits is all or nothing. A request whose status says that it
  passed or was delayed fitted the bucket of every limit with a usable key, and each of those
  buckets has been charged exactly once, by the formula of the module. A request that was rejected, or that failed while
  a key was evaluated, has charged no bucket, even those looked up before the one it failed on. Either way
  every reference taken during the look-up is dropped again, other keys keep their nodes unless an
  unused one expired, and no parameter changed. While keys evaluate and memory lasts, the request is rejected exactly when a
  limit does not admit it.
\<close>

theorem limit_req_atomic:
  assumes "\<forall>l\<in>set limits. lr_wf l"
    and "ngx_http_limit_req_handler env dry LR_Unset limits = (r, st, limits')"
  shows "(\<forall>l\<in>set limits'. lr_wf l) \<and>
    (if st \<in> {LR_Passed, LR_Delayed, LR_Delayed_Dry_Run} then req_taken env limits limits' else req_left env limits limits') \<and>
    ((\<forall>i<length limits. le_key env i \<noteq> None \<and> le_alloc1 env i) \<longrightarrow>
      (st \<in> {LR_Rejected, LR_Rejected_Dry_Run} \<longleftrightarrow>
        (\<exists>i<length limits. \<exists>k. le_key env i = Some k \<and> usable_key k \<and> \<not> lr_admits (le_now env) k (limits ! i))))"
proof (intro conjI impI)
  note out = handler_outcome [OF assms]
  let ?ok = "st \<in> {LR_Passed, LR_Delayed, LR_Delayed_Dry_Run}"
  show split: "if ?ok then req_taken env limits limits' else req_left env limits limits'"
    using out by auto
  show "\<forall>l\<in>set limits'. lr_wf l"
  proof
    fix l assume "l \<in> set limits'"
    then obtain i where i: "i < length limits'" "l = limits' ! i" by (auto simp: in_set_conv_nth)
    then show "lr_wf l"
      using split assms(1)
      by (cases ?ok) (auto simp: req_taken_def req_left_def lr_taken_def lr_left_def split: if_splits)
  qed
  assume "\<forall>i<length limits. le_key env i \<noteq> None \<and> le_alloc1 env i"
  then show "st \<in> {LR_Rejected, LR_Rejected_Dry_Run} \<longleftrightarrow>
      (\<exists>i<length limits. \<exists>k. le_key env i = Some k \<and> usable_key k \<and> \<not> lr_admits (le_now env) k (limits ! i))"
    using out by (fastforce simp: req_taken_def lr_taken_def some_usable_def split: if_splits)
qed

text \<open>A request at a time with the same key for every limit, and enough shared memory.\<close>

definition one_env :: "u64 \<Rightarrow> bytes \<Rightarrow> lr_env" where
  "one_env now key =
     \<lparr>le_now = now, le_key = \<lambda>_. Some key, le_alloc1 = \<lambda>_. True, le_alloc2 = \<lambda>_. True, le_read = True\<rparr>"

definition demo_node :: "u64 \<Rightarrow> lr_node" where
  "demo_node excess = \<lparr>lr_key = [97], lr_last = 100000, lr_excess = excess, lr_count = 0\<rparr>"

definition demo_limit :: "lr_node list \<Rightarrow> u64 \<Rightarrow> lr_limit" where
  "demo_limit q burst =
     \<lparr>ll_ctx = \<lparr>lc_queue = q, lc_rate = 1000, lc_node = None\<rparr>, ll_burst = burst, ll_delay = 0\<rparr>"

text \<open>The first limit admits the request, the second does not.\<close>

lemmas lr_eval =
  ngx_http_limit_req_handler_def limit_loop.simps one_env_def demo_limit_def demo_node_def usable_key_def
  ngx_http_limit_req_lookup_def lr_find_def lr_without_def lr_update_def lr_set_def lr_ms_def lr_charge_def Let_def
  unlock_one_def delay_of_def account_one_def ngx_http_limit_req_expire.simps

theorem limit_req_atomic_witness:
  "fst (snd (ngx_http_limit_req_handler (one_env 100001 [97]) False LR_Unset
       [demo_limit [demo_node 0] 5000, demo_limit [demo_node 5000] 5000])) = LR_Rejected \<and>
   req_left (one_env 100001 [97]) [demo_limit [demo_node 0] 5000, demo_limit [demo_node 5000] 5000]
     (snd (snd (ngx_http_limit_req_handler (one_env 100001 [97]) False LR_Unset
       [demo_limit [demo_node 0] 5000, demo_limit [demo_node 5000] 5000])))"
proof -
  let ?ls = "[demo_limit [demo_node 0] 5000, demo_limit [demo_node 5000] 5000]"
  obtain r st ls where run: "ngx_http_limit_req_handler (one_env 100001 [97]) False LR_Unset ?ls = (r, st, ls)"
    by (metis prod_cases3)
  have "fst (snd (ngx_http_limit_req_handler (one_env 100001 [97]) False LR_Unset ?ls)) = LR_Rejected"
    by (simp add: lr_eval)
  then have st: "st = LR_Rejected" using run by simp
  have "\<forall>l\<in>set ?ls. lr_wf l" by (simp add: lr_wf_def demo_limit_def zone_keys_def)
  from limit_req_atomic [OF this run] st show ?thesis using run by simp
qed


section \<open>The rate\<close>

text \<open>The words of the module as numbers, while nothing overflows.\<close>

lemma sint_of_int_u64:
  assumes "- (2 ^ 63) \<le> i" "i < 2 ^ 63"
  shows "sint (of_int i :: u64) = i"
  using assms by (simp add: signed_of_int signed_take_bit_int_eq_self)

lemma sint_diff:
  assumes "unat a \<le> unat b" "unat b < 2 ^ 63"
  shows "sint (b - a :: u64) = int (unat b - unat a)"
proof -
  have "b - a = of_int (int (unat b - unat a))"
    using assms(1) by (simp add: of_nat_diff)
  then show ?thesis using sint_of_int_u64 [of "int (unat b - unat a)"] assms(2) by auto
qed

lemma word_drain:
  assumes "unat rate * ms < 2 ^ 64"
  shows "unat (rate * of_int (int ms) div 1000 :: u64) = unat rate * ms div 1000"
proof -
  have "rate * of_int (int ms) = (of_nat (unat rate * ms) :: u64)" by simp
  then have "unat (rate * of_int (int ms) :: u64) = unat rate * ms"
    using assms by (simp add: unsigned_of_nat take_bit_nat_eq_self del: of_nat_mult)
  then show ?thesis by (simp add: unat_div)
qed

lemma sint_level:
  assumes "unat e + c < 2 ^ 63" "unat d < 2 ^ 63"
  shows "sint (e - d + of_nat c :: u64) = int (unat e) - int (unat d) + int c"
proof -
  have "e - d + of_nat c = (of_int (int (unat e) - int (unat d) + int c) :: u64)" by simp
  moreover have "int (unat e) + int c < 2 ^ 63" "int (unat d) < 2 ^ 63"
    using assms by (simp_all del: of_nat_unat)
  ultimately show ?thesis
    using sint_of_int_u64 [of "int (unat e) - int (unat d) + int c"] by (simp del: of_nat_unat)
qed

text \<open>The clock reads \<open>now\<close>, no earlier than the last charge, and the products stay below $2^{63}$.\<close>

definition lr_sane :: "u64 \<Rightarrow> u64 \<Rightarrow> lr_node \<Rightarrow> bool" where
  "lr_sane now rate x \<longleftrightarrow> unat (lr_last x) \<le> unat now \<and> unat now < 2 ^ 63 \<and> unat rate * unat now < 2 ^ 63 \<and>
     unat (lr_excess x) + 1000 < 2 ^ 63"

abbreviation lr_idle :: "u64 \<Rightarrow> lr_node \<Rightarrow> nat" where
  "lr_idle now x \<equiv> unat now - unat (lr_last x)"

lemma sane_product:
  assumes "lr_sane now rate x"
  shows "unat rate * lr_idle now x < 2 ^ 63"
  using assms le_less_trans [OF mult_le_mono2 [of "lr_idle now x" "unat now" "unat rate"]]
  by (auto simp: lr_sane_def)

lemma lr_ms_sane: "lr_sane now rate x \<Longrightarrow> lr_ms now x = int (lr_idle now x)"
  by (simp add: lr_ms_def sint_diff lr_sane_def Let_def del: of_nat_unat of_nat_diff)

lemma lr_charge_sane:
  assumes "lr_sane now rate x"
  shows "lr_charge rate (lr_ms now x) x =
    int (unat (lr_excess x) + 1000 - unat rate * lr_idle now x div 1000)"
proof -
  let ?d = "rate * of_int (int (lr_idle now x)) div 1000"
  have d: "unat ?d = unat rate * lr_idle now x div 1000"
    using sane_product [OF assms] by (intro word_drain) simp
  then have "unat ?d < 2 ^ 63" using sane_product [OF assms] by (simp add: le_less_trans [OF div_le_dividend])
  then have "sint (lr_excess x - ?d + 1000) = int (unat (lr_excess x)) - int (unat ?d) + 1000"
    using sint_level [of "lr_excess x" 1000 ?d] assms by (simp add: lr_sane_def)
  then have "sint (lr_excess x - ?d + 1000) = int (unat (lr_excess x)) - int (unat rate * lr_idle now x div 1000) + 1000"
    by (simp only: d)
  then show ?thesis unfolding lr_charge_def lr_ms_sane [OF assms] Let_def
    by (cases "unat rate * lr_idle now x div 1000 \<le> unat (lr_excess x) + 1000") (simp_all del: of_nat_unat add: of_nat_diff)
qed

text \<open>A node that expires on its own has been idle for a minute and is drained.\<close>

definition lr_drained :: "u64 \<Rightarrow> u64 \<Rightarrow> lr_node \<Rightarrow> bool" where
  "lr_drained now rate x \<longleftrightarrow>
     (let ms = sint (of_int \<bar>sint (now - lr_last x)\<bar> :: u64) in
      60000 \<le> ms \<and> sint (lr_excess x - rate * of_int ms div 1000) \<le> 0)"

lemma lr_drained_sane:
  assumes "lr_sane now rate x" "lr_drained now rate x"
  shows "60000 \<le> lr_idle now x \<and> unat (lr_excess x) \<le> unat rate * lr_idle now x div 1000"
proof -
  let ?d = "rate * of_int (int (lr_idle now x)) div 1000"
  have d: "unat ?d = unat rate * lr_idle now x div 1000"
    using sane_product [OF assms(1)] by (intro word_drain) simp
  then have "unat ?d < 2 ^ 63" using sane_product [OF assms(1)] by (simp add: le_less_trans [OF div_le_dividend])
  then have e: "sint (lr_excess x - ?d) = int (unat (lr_excess x)) - int (unat ?d)"
    using sint_level [of "lr_excess x" 0 ?d] assms(1) by (simp add: lr_sane_def)
  have "sint (of_int \<bar>sint (now - lr_last x)\<bar> :: u64) = int (lr_idle now x)"
    using assms(1) sint_of_int_u64 [of "int (lr_idle now x)"]
    by (auto simp: lr_sane_def sint_diff simp del: of_nat_unat of_nat_diff)
  then have "60000 \<le> int (lr_idle now x)" "int (unat (lr_excess x)) - int (unat ?d) \<le> 0"
    using assms(2) e by (simp_all add: lr_drained_def Let_def)
  then show ?thesis unfolding d by linarith
qed

lemma expire_drained:
  "0 < n \<Longrightarrow> \<exists>p. lc_queue ctx = lc_queue (ngx_http_limit_req_expire now n ctx) @ p \<and>
     (\<forall>x\<in>set p. lr_drained now (lc_rate ctx) x)"
proof (induction now n ctx rule: ngx_http_limit_req_expire.induct)
  case (1 now n ctx)
  let ?q = "lc_queue ctx" and ?c = "ctx\<lparr>lc_queue := butlast (lc_queue ctx)\<rparr>"
  show ?case
  proof (cases "ngx_http_limit_req_expire now n ctx = ctx")
    case False
    then have ne: "n < 3" "?q \<noteq> []" "lr_drained now (lc_rate ctx) (last ?q)"
      and eq: "ngx_http_limit_req_expire now n ctx = ngx_http_limit_req_expire now (n + 1) ?c"
      and IH: "\<exists>p. lc_queue ?c = lc_queue (ngx_http_limit_req_expire now (n + 1) ?c) @ p \<and> (\<forall>x\<in>set p. lr_drained now (lc_rate ctx) x)"
      using "1.IH" "1.prems"
      by (auto simp: ngx_http_limit_req_expire.simps [of now n ctx] Let_def lr_drained_def not_less split: if_splits)
    then obtain p where p: "butlast ?q = lc_queue (ngx_http_limit_req_expire now (n + 1) ?c) @ p"
      "\<forall>x\<in>set p. lr_drained now (lc_rate ctx) x"
      by auto
    have "?q = lc_queue (ngx_http_limit_req_expire now n ctx) @ p @ [last ?q]"
      using ne p(1) by (metis append_butlast_last_id append.assoc eq)
    then show ?thesis using p(2) ne(3) by (intro exI [of _ "p @ [last ?q]"]) auto
  qed simp
qed


lemma lookup_new_eq:
  assumes "zone_get l key = None"
  shows "ngx_http_limit_req_lookup now True a2 key True l =
    (LR_OK, 0, l\<lparr>ll_ctx := (ngx_http_limit_req_expire now 1 (ll_ctx l))\<lparr>lc_queue :=
       (lr_fresh key)\<lparr>lr_last := now\<rparr> # lc_queue (ngx_http_limit_req_expire now 1 (ll_ctx l))\<rparr>\<rparr>)"
  using assms by (simp add: ngx_http_limit_req_lookup_def zone_get_def lr_fresh_def Let_def)

text \<open>A lookup that charges at once, seen from one key of the zone.\<close>

lemma lookup_own_key:
  assumes "zone_get l key = Some x"
  shows "ngx_http_limit_req_lookup now True a2 key True l = (rc, e, h) \<Longrightarrow>
    if lr_admits now key l then rc = LR_OK \<and> zone_get h key = Some (lr_charged now (lc_rate (ll_ctx l)) x)
    else rc = LR_BUSY \<and> zone_get h key = zone_get l key"
  using assms lr_find_Some [of key "lc_queue (ll_ctx l)" x]
  by (auto simp: ngx_http_limit_req_lookup_def zone_get_def lr_admits_def lr_charged_def Let_def not_less split: if_splits)

lemma lookup_other_key:
  assumes "j \<noteq> key" "ngx_http_limit_req_lookup now True a2 j True l = (rc, e, h)"
  shows "zone_get h key = zone_get l key \<or>
    zone_get h key = None \<and> (\<exists>x. zone_get l key = Some x \<and> lr_drained now (lc_rate (ll_ctx l)) x)"
proof (cases "zone_get l j")
  case (Some y)
  then show ?thesis
    using assms lr_find_Some [of j "lc_queue (ll_ctx l)" y]
    by (auto simp: ngx_http_limit_req_lookup_def zone_get_def Let_def lr_find_without split: if_splits)
next
  case None
  let ?c = "ngx_http_limit_req_expire now 1 (ll_ctx l)"
  obtain p where p: "lc_queue (ll_ctx l) = lc_queue ?c @ p" "\<forall>x\<in>set p. lr_drained now (lc_rate (ll_ctx l)) x"
    using expire_drained [of 1 "ll_ctx l" now] by auto
  have "zone_get h key = lr_find key (lc_queue ?c)"
    using assms lookup_new_eq [OF None] by (auto simp: zone_get_def lr_fresh_def)
  then show ?thesis
    using p(2) lr_find_Some [of key p]
    by (cases "lr_find key (lc_queue ?c)"; cases "lr_find key p")
       (auto simp: zone_get_def p(1) lr_find_append)
qed

text \<open>The handler over a single limit, for requests at given times.\<close>

fun limit_run :: "(u64 \<times> bytes) list \<Rightarrow> lr_limit \<Rightarrow> lr_status list \<times> lr_limit" where
  "limit_run [] l = ([], l)"
| "limit_run ((now, key) # reqs) l =
     (let (r, st, ls) = ngx_http_limit_req_handler (one_env now key) False LR_Unset [l];
          (sts, l') = limit_run reqs (hd ls)
      in (st # sts, l'))"

lemma one_env_simps [simp]:
  "le_now (one_env now key) = now" "le_key (one_env now key) i = Some key"
  "le_alloc1 (one_env now key) i" "le_alloc2 (one_env now key) i" "le_read (one_env now key)"
  by (simp_all add: one_env_def)

lemma handler_one:
  assumes "usable_key key" "ngx_http_limit_req_lookup now True True key True l = (rc, e, h)" "rc = LR_OK \<or> rc = LR_BUSY"
  obtains r st where "ngx_http_limit_req_handler (one_env now key) False LR_Unset [l] = (r, st, [h])"
    "st = LR_Rejected \<longleftrightarrow> rc = LR_BUSY"
proof -
  have loop: "limit_loop (one_env now key) 0 [l] LR_DECLINED 0 = Inr (rc, e, 0, [h])"
    using assms by (auto simp: limit_loop.simps Let_def)
  show ?thesis
  proof (cases "rc = LR_OK")
    case True
    then show ?thesis
      using that by (cases "delay_of e h = 0") (simp_all add: ngx_http_limit_req_handler_def loop)
  next
    case False
    then show ?thesis using that assms(3) by (simp add: ngx_http_limit_req_handler_def loop)
  qed
qed

definition let_through :: "bytes \<Rightarrow> (u64 \<times> bytes) list \<Rightarrow> lr_status list \<Rightarrow> nat" where
  "let_through key reqs sts = length (filter (\<lambda>(q, st). snd q = key \<and> st \<noteq> LR_Rejected) (zip reqs sts))"

text \<open>
  What has been let through since \<open>from\<close> is paid for by the level of the bucket, by what has drained from it since,
  and by one request for each minute after which the node may have been forgotten.
\<close>

definition rate_inv :: "bytes \<Rightarrow> nat \<Rightarrow> nat \<Rightarrow> nat \<Rightarrow> lr_limit \<Rightarrow> bool" where
  "rate_inv key from t n l \<longleftrightarrow> from \<le> t \<and> (case zone_get l key of
     Some x \<Rightarrow> unat (lr_last x) \<le> t \<and> unat (lr_excess x) \<le> unat (ll_burst l) \<and>
       (n = 0 \<or> from \<le> unat (lr_last x) \<and>
          60000000 * n \<le> 60000 * unat (lr_excess x) + 60000000 + (60 * unat (lc_rate (ll_ctx l)) + 1000) * (unat (lr_last x) - from))
   | None \<Rightarrow> 60000000 * n \<le> (60 * unat (lc_rate (ll_ctx l)) + 1000) * (t - from))"

definition in_range :: "nat \<Rightarrow> lr_limit \<Rightarrow> bool" where
  "in_range t l \<longleftrightarrow> t < 2 ^ 63 \<and> unat (lc_rate (ll_ctx l)) * t < 2 ^ 63 \<and> unat (ll_burst l) + 1000 < 2 ^ 63"

lemma rate_inv_sane:
  assumes "rate_inv key from t n l" "t \<le> unat now" "in_range (unat now) l" "zone_get l key = Some x"
  shows "lr_sane now (lc_rate (ll_ctx l)) x"
  using assms by (auto simp: rate_inv_def in_range_def lr_sane_def)


text \<open>The arithmetic of one charge, and of a node forgotten after a minute.\<close>

lemma time_mono:
  fixes K :: nat
  assumes "a \<le> K * (t - f)" "t \<le> u"
  shows "a \<le> K * (u - f)"
proof -
  have "K * (t - f) \<le> K * (u - f)" using assms(2) by (intro mult_le_mono2) simp
  then show ?thesis using assms(1) by linarith
qed

lemma rate_inv_later:
  assumes "rate_inv key from t n l" "t \<le> u" "lr_same l h" "zone_get h key = zone_get l key"
  shows "rate_inv key from u n h"
  using assms by (auto simp: rate_inv_def lr_same_def intro: time_mono split: option.splits)

lemma charge_pays:
  fixes R d E n a :: nat
  assumes "60000000 * n \<le> 60000 * E + 60000000 + (60 * R + 1000) * a" "E + 1000 - R * d div 1000 \<le> F"
  shows "60000000 * Suc n \<le> 60000 * F + 60000000 + (60 * R + 1000) * (a + d)"
proof -
  have "60000 * (R * d div 1000) \<le> 60 * (R * d)" by simp
  moreover have "(60 * R + 1000) * (a + d) = (60 * R + 1000) * a + 60 * (R * d) + 1000 * d"
    by (simp add: algebra_simps)
  moreover have "E + 1000 \<le> F + R * d div 1000" using assms(2) by (simp only: le_diff_conv)
  ultimately show ?thesis using assms(1) unfolding mult_Suc_right by linarith
qed

lemma drain_pays:
  fixes R d E n a :: nat
  assumes "60000000 * n \<le> 60000 * E + 60000000 + (60 * R + 1000) * a" "60000 \<le> d" "E \<le> R * d div 1000"
  shows "60000000 * n \<le> (60 * R + 1000) * (a + d)"
proof -
  have "60000 * (R * d div 1000) \<le> 60 * (R * d)" by simp
  moreover have "(60 * R + 1000) * (a + d) = (60 * R + 1000) * a + 60 * (R * d) + 1000 * d"
    by (simp add: algebra_simps)
  ultimately show ?thesis using assms by linarith
qed

lemma lr_charged_sane:
  assumes "lr_sane now rate x"
  shows "unat (lr_last (lr_charged now rate x)) = unat now"
    and "unat (lr_excess (lr_charged now rate x)) = unat (lr_excess x) + 1000 - unat rate * lr_idle now x div 1000"
proof -
  let ?e = "unat (lr_excess x) + 1000 - unat rate * lr_idle now x div 1000"
  have "?e \<le> unat (lr_excess x) + 1000" by (rule diff_le_self)
  also have "\<dots> < 2 ^ 63" using assms by (simp add: lr_sane_def)
  finally have "?e < 2 ^ 64" by (rule less_trans) simp
  then have "unat (of_int (int ?e) :: u64) = ?e"
    unfolding of_int_of_nat_eq by (simp add: unsigned_of_nat take_bit_nat_eq_self)
  moreover have "lr_idle now x = 0 \<Longrightarrow> unat (lr_last x) = unat now" using assms by (simp add: lr_sane_def)
  ultimately show "unat (lr_last (lr_charged now rate x)) = unat now"
    "unat (lr_excess (lr_charged now rate x)) = ?e"
    unfolding lr_charged_def lr_set_def lr_charge_sane [OF assms] Let_def
    unfolding lr_ms_sane [OF assms] by (auto simp del: of_int_of_nat_eq of_nat_diff)
qed

lemma rate_inv_own:
  assumes inv: "rate_inv key from t n l" and t: "t \<le> unat now" "in_range (unat now) l"
    and run: "ngx_http_limit_req_lookup now True True key True l = (rc, e, h)" and same: "lr_same l h"
  shows "rate_inv key from (unat now) (if rc = LR_BUSY then n else Suc n) h \<and> (rc = LR_OK \<or> rc = LR_BUSY)"
proof (cases "zone_get l key")
  case None
  then have h: "rc = LR_OK" "zone_get h key = Some ((lr_fresh key)\<lparr>lr_last := now\<rparr>)"
    using run lookup_new_eq [OF None] by (auto simp: zone_get_def lr_fresh_def)
  have "60000000 * n \<le> (60 * unat (lc_rate (ll_ctx l)) + 1000) * (t - from)" "from \<le> t"
    using inv None by (auto simp: rate_inv_def)
  then show ?thesis using h t(1) same time_mono [of _ _ t "from" "unat now"] by (simp add: rate_inv_def lr_fresh_def lr_same_def)
next
  case (Some x)
  note sane = rate_inv_sane [OF inv t Some]
  have f: "from \<le> t" using inv by (simp add: rate_inv_def)
  show ?thesis
  proof (cases "lr_admits now key l")
    case False
    then show ?thesis
      using lookup_own_key [OF Some run] rate_inv_later [OF inv t(1) same] by simp
  next
    case True
    let ?R = "unat (lc_rate (ll_ctx l))" and ?y = "lr_charged now (lc_rate (ll_ctx l)) x"
    have h: "rc = LR_OK" "zone_get h key = Some ?y" using lookup_own_key [OF Some run] True by auto
    note y = lr_charged_sane [OF sane]
    have "unat (lr_excess ?y) \<le> unat (ll_burst l)"
      using True Some lr_charge_sane [OF sane] y(2) sane
      by (auto simp: lr_admits_def word_le_nat_alt lr_charged_def lr_set_def Let_def split: if_splits)
    moreover have "60000000 * Suc n \<le> 60000 * unat (lr_excess ?y) + 60000000 + (60 * ?R + 1000) * (unat now - from)"
    proof (cases "n = 0")
      case False
      then have p: "from \<le> unat (lr_last x)" "60000000 * n \<le> 60000 * unat (lr_excess x) + 60000000 + (60 * ?R + 1000) * (unat (lr_last x) - from)"
        using inv Some by (auto simp: rate_inv_def)
      have "unat (lr_last x) - from + lr_idle now x = unat now - from"
        using p(1) sane by (simp add: lr_sane_def)
      then show ?thesis using charge_pays [OF p(2), of "lr_idle now x" "unat (lr_excess ?y)"] y(2) by simp
    qed simp
    ultimately show ?thesis using h y(1) f t(1) same by (simp add: rate_inv_def lr_same_def)
  qed
qed

lemma rate_inv_other:
  assumes inv: "rate_inv key from t n l" and t: "t \<le> unat now" "in_range (unat now) l"
    and run: "ngx_http_limit_req_lookup now True True j True l = (rc, e, h)" "j \<noteq> key" and same: "lr_same l h"
  shows "rate_inv key from (unat now) n h"
proof -
  let ?R = "unat (lc_rate (ll_ctx l))"
  consider "zone_get h key = zone_get l key"
    | x where "zone_get h key = None" "zone_get l key = Some x" "lr_drained now (lc_rate (ll_ctx l)) x"
    using lookup_other_key [OF run(2,1)] by blast
  then show ?thesis
  proof cases
    case 1
    show ?thesis by (rule rate_inv_later [OF inv t(1) same 1])
  next
    case (2 x)
    note sane = rate_inv_sane [OF inv t 2(2)]
    note d = lr_drained_sane [OF sane 2(3)]
    have "60000000 * n \<le> (60 * ?R + 1000) * (unat now - from)"
    proof (cases "n = 0")
      case False
      then have p: "from \<le> unat (lr_last x)" "60000000 * n \<le> 60000 * unat (lr_excess x) + 60000000 + (60 * ?R + 1000) * (unat (lr_last x) - from)"
        using inv 2(2) by (auto simp: rate_inv_def)
      have "unat (lr_last x) - from + lr_idle now x = unat now - from"
        using p(1) sane by (simp add: lr_sane_def)
      then show ?thesis using drain_pays [OF p(2)] d by metis
    qed simp
    then show ?thesis using inv t(1) 2(1) same by (auto simp: rate_inv_def lr_same_def)
  qed
qed


lemma rate_step:
  assumes wf: "lr_wf l" and key: "usable_key key" and inv: "rate_inv key from t n l"
    and t: "t \<le> unat now" "in_range (unat now) l"
  shows "\<exists>r st h. ngx_http_limit_req_handler (one_env now j) False LR_Unset [l] = (r, st, [h]) \<and> lr_wf h \<and> lr_same l h \<and>
    rate_inv key from (unat now) (n + (if j = key \<and> st \<noteq> LR_Rejected then 1 else 0)) h"
proof (cases "usable_key j")
  case False
  then have "ngx_http_limit_req_handler (one_env now j) False LR_Unset [l] = (LR_Declined, LR_Unset, [l])"
    by (simp add: ngx_http_limit_req_handler_def limit_loop.simps)
  moreover have "rate_inv key from (unat now) n l" by (rule rate_inv_later [OF inv t(1)]) simp_all
  ultimately show ?thesis using wf key False by auto
next
  case True
  obtain rc e h where run: "ngx_http_limit_req_lookup now True True j True l = (rc, e, h)" by (metis prod_cases3)
  have post: "(rc = LR_OK \<or> rc = LR_BUSY) \<and> lr_wf h \<and> lr_same l h"
    using lookup_outcome [OF wf, of now True True j True] run
    by (auto simp: lookup_post_def lr_taken_def lr_left_def)
  obtain r st where res: "ngx_http_limit_req_handler (one_env now j) False LR_Unset [l] = (r, st, [h])"
    "st = LR_Rejected \<longleftrightarrow> rc = LR_BUSY"
    using handler_one [OF True run] post by blast
  show ?thesis
  proof (cases "j = key")
    case True
    then show ?thesis
      using rate_inv_own [OF inv t, of rc e h] run post res by auto
  next
    case False
    then show ?thesis
      using rate_inv_other [OF inv t run] post res by auto
  qed
qed

lemma rate_run:
  assumes "lr_wf l" "usable_key key" "rate_inv key from t n l" "sorted (t # map (unat \<circ> fst) reqs)"
    "\<forall>q\<in>set reqs. in_range (unat (fst q)) l" "limit_run reqs l = (sts, l')"
  shows "\<exists>t'. rate_inv key from t' (n + let_through key reqs sts) l' \<and> lr_same l l' \<and> t' \<in> set (t # map (unat \<circ> fst) reqs)"
  using assms
proof (induction reqs arbitrary: l t n sts)
  case Nil
  then show ?case by (auto simp: let_through_def)
next
  case (Cons q reqs)
  obtain now j where q: "q = (now, j)" by fastforce
  have t: "t \<le> unat now" "in_range (unat now) l" using Cons.prems(4,5) q by auto
  obtain r st h where st: "ngx_http_limit_req_handler (one_env now j) False LR_Unset [l] = (r, st, [h])"
    "lr_wf h" "lr_same l h" "rate_inv key from (unat now) (n + (if j = key \<and> st \<noteq> LR_Rejected then 1 else 0)) h"
    using rate_step [OF Cons.prems(1-3) t] by blast
  obtain ss g where rest: "limit_run reqs h = (ss, g)" by fastforce
  have sts: "sts = st # ss" "l' = g" using Cons.prems(6) st(1) rest q by simp_all
  have "sorted (unat now # map (unat \<circ> fst) reqs)" using Cons.prems(4) q by (simp add: comp_def)
  moreover have "\<forall>q\<in>set reqs. in_range (unat (fst q)) h"
    using Cons.prems(5) st(3) by (auto simp: in_range_def lr_same_def)
  ultimately obtain u where "rate_inv key from u (n + (if j = key \<and> st \<noteq> LR_Rejected then 1 else 0) + let_through key reqs ss) l'"
    "lr_same h l'" "u \<in> set (unat now # map (unat \<circ> fst) reqs)"
    using Cons.IH [OF st(2) Cons.prems(2) st(4)] rest sts by blast
  moreover have "let_through key (q # reqs) sts = (if j = key \<and> st \<noteq> LR_Rejected then 1 else 0) + let_through key reqs ss"
    by (simp add: let_through_def q sts)
  ultimately show ?case using st(3) q by (intro exI [of _ u]) (auto simp: add.assoc lr_same_def)
qed




end
