(* ===== verification/Ngx_Radix.thy ===== *)
theory Ngx_Radix
  imports Prelude "HOL-Library.Monad_Syntax" "HOL-Library.Sublist"
begin

text \<open>
  nginx, \<^verbatim>\<open>src/core/ngx_radix_tree.c\<close>: the tree of address prefixes behind the geo modules, for 32-bit and for 128-bit
  keys. Nodes with parent pointers live in memory taken page by page from a pool and are kept in a
  free list after deletion. The tree is shown to implement a map from prefixes to values, with
  look-up by the longest prefix.
\<close>

section \<open>Memory\<close>

record radix_node =
  rn_right :: "nat option"
  rn_left :: "nat option"
  rn_parent :: "nat option"
  rn_value :: u64

definition NGX_RADIX_NO_VALUE :: u64 where
  "NGX_RADIX_NO_VALUE = -1"

text \<open>\<open>rt_pages\<close> is what the following calls of \<^verbatim>\<open>ngx_pmemalign\<close> return, \<^const>\<open>None\<close> for a null pointer.\<close>

record radix_tree =
  rt_mem :: "nat \<Rightarrow> radix_node"
  rt_root :: "nat option"
  rt_free :: "nat option"
  rt_start :: nat
  rt_size :: nat
  rt_pages :: "nat option list"

text \<open>The size of a node: four 64-bit words.\<close>

abbreviation (input) node_bytes :: nat where
  "node_bytes \<equiv> 32"

definition ngx_radix_alloc :: "nat \<Rightarrow> radix_tree \<Rightarrow> nat option \<times> radix_tree" where
  "ngx_radix_alloc pagesize tree =
     (case rt_free tree of
        Some p \<Rightarrow> (Some p, tree\<lparr>rt_free := rn_right (rt_mem tree p)\<rparr>)
      | None \<Rightarrow>
          if rt_size tree < node_bytes then
            (case rt_pages tree of
               Some a # ps \<Rightarrow>
                 (Some a, tree\<lparr>rt_start := a + node_bytes, rt_size := pagesize - node_bytes, rt_pages := ps\<rparr>)
             | _ \<Rightarrow> (None, tree\<lparr>rt_start := 0, rt_pages := tl (rt_pages tree)\<rparr>))
          else (Some (rt_start tree),
                tree\<lparr>rt_start := rt_start tree + node_bytes, rt_size := rt_size tree - node_bytes\<rparr>))"

definition rt_update :: "nat \<Rightarrow> (radix_node \<Rightarrow> radix_node) \<Rightarrow> radix_tree \<Rightarrow> radix_tree" where
  "rt_update a f tree = tree\<lparr>rt_mem := (rt_mem tree)(a := f (rt_mem tree a))\<rparr>"

definition rn_child :: "bool \<Rightarrow> radix_node \<Rightarrow> nat option" where
  "rn_child b n = (if b then rn_right n else rn_left n)"

definition rn_set_child :: "bool \<Rightarrow> nat option \<Rightarrow> radix_node \<Rightarrow> radix_node" where
  "rn_set_child b p n = (if b then n\<lparr>rn_right := p\<rparr> else n\<lparr>rn_left := p\<rparr>)"

definition rn_fresh :: "nat option \<Rightarrow> radix_node" where
  "rn_fresh parent = \<lparr>rn_right = None, rn_left = None, rn_parent = parent, rn_value = NGX_RADIX_NO_VALUE\<rparr>"

section \<open>Operations\<close>

text \<open>
  The functions for 32-bit and 128-bit keys differ in how they walk over the bits of key and mask. A
  cursor gives the position; \<open>cont\<close> is the loop condition on the mask, \<open>dir\<close> the test of the bit of the
  key, \<open>step\<close> the next position. A result \<^const>\<open>None\<close> is a null pointer that is followed, or a loop that does not end.
\<close>

datatype radix_rc = Radix_OK | Radix_BUSY | Radix_ERROR

partial_function (option) radix_descend ::
  "('c \<Rightarrow> bool) \<Rightarrow> ('c \<Rightarrow> bool) \<Rightarrow> ('c \<Rightarrow> 'c) \<Rightarrow> (nat \<Rightarrow> radix_node) \<Rightarrow> 'c \<Rightarrow> nat \<Rightarrow> nat option \<Rightarrow> ('c \<times> nat \<times> nat option) option" where
  "radix_descend cont dir step mem c node nxt =
     (if cont c then
        (case rn_child (dir c) (mem node) of
           None \<Rightarrow> Some (c, node, None)
         | Some n \<Rightarrow> radix_descend cont dir step mem (step c) n (Some n))
      else Some (c, node, nxt))"

partial_function (option) radix_extend ::
  "('c \<Rightarrow> bool) \<Rightarrow> ('c \<Rightarrow> bool) \<Rightarrow> ('c \<Rightarrow> 'c) \<Rightarrow> nat \<Rightarrow> 'c \<Rightarrow> nat \<Rightarrow> radix_tree \<Rightarrow> (nat option \<times> radix_tree) option" where
  "radix_extend cont dir step pagesize c node tree =
     (if cont c then
        (case ngx_radix_alloc pagesize tree of
           (None, tree) \<Rightarrow> Some (None, tree)
         | (Some n, tree) \<Rightarrow>
             let tree = rt_update n (\<lambda>_. rn_fresh (Some node)) tree;
                 tree = rt_update node (rn_set_child (dir c) (Some n)) tree
             in radix_extend cont dir step pagesize (step c) n tree)
      else Some (Some node, tree))"

definition radix_insert ::
  "('c \<Rightarrow> bool) \<Rightarrow> ('c \<Rightarrow> bool) \<Rightarrow> ('c \<Rightarrow> 'c) \<Rightarrow> nat \<Rightarrow> 'c \<Rightarrow> u64 \<Rightarrow> radix_tree \<Rightarrow> (radix_rc \<times> radix_tree) option" where
  "radix_insert cont dir step pagesize c v tree =
     do {
       root \<leftarrow> rt_root tree;
       (c, node, nxt) \<leftarrow> radix_descend cont dir step (rt_mem tree) c root (Some root);
       if nxt \<noteq> None then
         if rn_value (rt_mem tree node) \<noteq> NGX_RADIX_NO_VALUE then Some (Radix_BUSY, tree)
         else Some (Radix_OK, rt_update node (\<lambda>n. n\<lparr>rn_value := v\<rparr>) tree)
       else do {
         (stop, tree) \<leftarrow> radix_extend cont dir step pagesize c node tree;
         case stop of
           None \<Rightarrow> Some (Radix_ERROR, tree)
         | Some node \<Rightarrow> Some (Radix_OK, rt_update node (\<lambda>n. n\<lparr>rn_value := v\<rparr>) tree)
       }
     }"

partial_function (option) radix_seek ::
  "('c \<Rightarrow> bool) \<Rightarrow> ('c \<Rightarrow> bool) \<Rightarrow> ('c \<Rightarrow> 'c) \<Rightarrow> (nat \<Rightarrow> radix_node) \<Rightarrow> 'c \<Rightarrow> nat option \<Rightarrow> nat option option" where
  "radix_seek cont dir step mem c node =
     (case node of
        None \<Rightarrow> Some None
      | Some a \<Rightarrow>
          if cont c then radix_seek cont dir step mem (step c) (rn_child (dir c) (mem a)) else Some node)"

partial_function (option) radix_prune :: "nat \<Rightarrow> radix_tree \<Rightarrow> radix_tree option" where
  "radix_prune node tree =
     do {
       parent \<leftarrow> rn_parent (rt_mem tree node);
       let tree = (if rn_right (rt_mem tree parent) = Some node
                   then rt_update parent (\<lambda>n. n\<lparr>rn_right := None\<rparr>) tree
                   else rt_update parent (\<lambda>n. n\<lparr>rn_left := None\<rparr>) tree);
       let tree = (rt_update node (\<lambda>n. n\<lparr>rn_right := rt_free tree\<rparr>) tree)\<lparr>rt_free := Some node\<rparr>;
       let n = rt_mem tree parent;
       if rn_right n \<noteq> None \<or> rn_left n \<noteq> None \<or> rn_value n \<noteq> NGX_RADIX_NO_VALUE \<or> rn_parent n = None
       then Some tree
       else radix_prune parent tree
     }"

definition radix_delete ::
  "('c \<Rightarrow> bool) \<Rightarrow> ('c \<Rightarrow> bool) \<Rightarrow> ('c \<Rightarrow> 'c) \<Rightarrow> 'c \<Rightarrow> radix_tree \<Rightarrow> (radix_rc \<times> radix_tree) option" where
  "radix_delete cont dir step c tree =
     do {
       node \<leftarrow> radix_seek cont dir step (rt_mem tree) c (rt_root tree);
       case node of
         None \<Rightarrow> Some (Radix_ERROR, tree)
       | Some a \<Rightarrow>
           let n = rt_mem tree a in
           if rn_right n \<noteq> None \<or> rn_left n \<noteq> None then
             if rn_value n \<noteq> NGX_RADIX_NO_VALUE
             then Some (Radix_OK, rt_update a (\<lambda>n. n\<lparr>rn_value := NGX_RADIX_NO_VALUE\<rparr>) tree)
             else Some (Radix_ERROR, tree)
           else do { tree \<leftarrow> radix_prune a tree; Some (Radix_OK, tree) }
     }"

partial_function (option) radix_find ::
  "('c \<Rightarrow> bool) \<Rightarrow> ('c \<Rightarrow> 'c) \<Rightarrow> (nat \<Rightarrow> radix_node) \<Rightarrow> 'c \<Rightarrow> u64 \<Rightarrow> nat option \<Rightarrow> u64 option" where
  "radix_find dir step mem c v node =
     (case node of
        None \<Rightarrow> Some v
      | Some a \<Rightarrow>
          radix_find dir step mem (step c)
            (if rn_value (mem a) \<noteq> NGX_RADIX_NO_VALUE then rn_value (mem a) else v) (rn_child (dir c) (mem a)))"

subsection \<open>32-bit keys\<close>

definition more32 :: "u32 \<Rightarrow> u32 \<Rightarrow> bool" where
  "more32 msk bt \<longleftrightarrow> bt AND msk \<noteq> 0"

definition dir32 :: "u32 \<Rightarrow> u32 \<Rightarrow> bool" where
  "dir32 key bt \<longleftrightarrow> key AND bt \<noteq> 0"

definition step32 :: "u32 \<Rightarrow> u32" where
  "step32 bt = drop_bit 1 bt"

definition ngx_radix32tree_insert :: "nat \<Rightarrow> radix_tree \<Rightarrow> u32 \<Rightarrow> u32 \<Rightarrow> u64 \<Rightarrow> (radix_rc \<times> radix_tree) option" where
  "ngx_radix32tree_insert pagesize tree key msk v =
     radix_insert (more32 msk) (dir32 key) step32 pagesize 0x80000000 v tree"

definition ngx_radix32tree_delete :: "radix_tree \<Rightarrow> u32 \<Rightarrow> u32 \<Rightarrow> (radix_rc \<times> radix_tree) option" where
  "ngx_radix32tree_delete tree key msk = radix_delete (more32 msk) (dir32 key) step32 0x80000000 tree"

definition ngx_radix32tree_find :: "radix_tree \<Rightarrow> u32 \<Rightarrow> u64 option" where
  "ngx_radix32tree_find tree key =
     radix_find (dir32 key) step32 (rt_mem tree) 0x80000000 NGX_RADIX_NO_VALUE (rt_root tree)"

subsection \<open>128-bit keys\<close>

text \<open>
  A key and a mask are the bytes from a pointer on, as a function of the offset. The position is the number of
  the byte and the bit; with \<open>i = 16\<close> the loops of insertion and deletion break.
\<close>

definition more128 :: "(nat \<Rightarrow> u8) \<Rightarrow> nat \<times> u8 \<Rightarrow> bool" where
  "more128 msk c = (case c of (i, bt) \<Rightarrow> i \<noteq> 16 \<and> bt AND msk i \<noteq> 0)"

definition dir128 :: "(nat \<Rightarrow> u8) \<Rightarrow> nat \<times> u8 \<Rightarrow> bool" where
  "dir128 key c = (case c of (i, bt) \<Rightarrow> key i AND bt \<noteq> 0)"

definition step128 :: "nat \<times> u8 \<Rightarrow> nat \<times> u8" where
  "step128 c = (case c of (i, bt) \<Rightarrow>
     let bt = drop_bit 1 bt in if bt = 0 then (i + 1, 0x80) else (i, bt))"

definition ngx_radix128tree_insert ::
  "nat \<Rightarrow> radix_tree \<Rightarrow> (nat \<Rightarrow> u8) \<Rightarrow> (nat \<Rightarrow> u8) \<Rightarrow> u64 \<Rightarrow> (radix_rc \<times> radix_tree) option" where
  "ngx_radix128tree_insert pagesize tree key msk v =
     radix_insert (more128 msk) (dir128 key) step128 pagesize (0, 0x80) v tree"

definition ngx_radix128tree_delete ::
  "radix_tree \<Rightarrow> (nat \<Rightarrow> u8) \<Rightarrow> (nat \<Rightarrow> u8) \<Rightarrow> (radix_rc \<times> radix_tree) option" where
  "ngx_radix128tree_delete tree key msk = radix_delete (more128 msk) (dir128 key) step128 (0, 0x80) tree"

definition ngx_radix128tree_find :: "radix_tree \<Rightarrow> (nat \<Rightarrow> u8) \<Rightarrow> u64 option" where
  "ngx_radix128tree_find tree key =
     radix_find (dir128 key) step128 (rt_mem tree) (0, 0x80) NGX_RADIX_NO_VALUE (rt_root tree)"

subsection \<open>Creation\<close>

text \<open>\<open>Some None\<close> is the null pointer returned when memory runs out.\<close>

partial_function (option) prealloc_keys ::
  "nat \<Rightarrow> u32 \<Rightarrow> u32 \<Rightarrow> u32 \<Rightarrow> radix_tree \<Rightarrow> radix_tree option option" where
  "prealloc_keys pagesize msk inc key tree =
     do {
       (rc, tree) \<leftarrow> ngx_radix32tree_insert pagesize tree key msk NGX_RADIX_NO_VALUE;
       if rc \<noteq> Radix_OK then Some None
       else let key = key + inc in
         if key \<noteq> 0 then prealloc_keys pagesize msk inc key tree else Some (Some tree)
     }"

fun prealloc_levels :: "nat \<Rightarrow> nat \<Rightarrow> u32 \<Rightarrow> u32 \<Rightarrow> radix_tree \<Rightarrow> radix_tree option option" where
  "prealloc_levels pagesize 0 msk inc tree = Some (Some tree)"
| "prealloc_levels pagesize (Suc n) msk inc tree =
     (let msk = drop_bit 1 msk OR 0x80000000 in
      do {
        res \<leftarrow> prealloc_keys pagesize msk inc 0 tree;
        case res of
          None \<Rightarrow> Some None
        | Some tree \<Rightarrow> prealloc_levels pagesize n msk (drop_bit 1 inc) tree
      })"

definition prealloc_count :: "nat \<Rightarrow> int \<Rightarrow> int" where
  "prealloc_count pagesize preallocate =
     (if preallocate = -1 then
        (if pagesize div node_bytes = 128 then 6 else if pagesize div node_bytes = 256 then 7 else 8)
      else preallocate)"

definition ngx_radix_tree_create :: "nat \<Rightarrow> (nat \<Rightarrow> radix_node) \<Rightarrow> nat option list \<Rightarrow> int \<Rightarrow> radix_tree option option" where
  "ngx_radix_tree_create pagesize mem pages preallocate =
     (let tree = \<lparr>rt_mem = mem, rt_root = None, rt_free = None, rt_start = 0, rt_size = 0,
                  rt_pages = pages\<rparr>
      in case ngx_radix_alloc pagesize tree of
           (None, tree) \<Rightarrow> Some None
         | (Some p, tree) \<Rightarrow>
             let tree = rt_update p (\<lambda>_. rn_fresh None) (tree\<lparr>rt_root := Some p\<rparr>)
             in if preallocate < -1 then None
                else prealloc_levels pagesize (nat (prealloc_count pagesize preallocate)) 0 0x80000000 tree)"


declare radix_descend.simps [code] radix_extend.simps [code] radix_seek.simps [code] radix_prune.simps [code]
  radix_find.simps [code] prealloc_keys.simps [code]


section \<open>The tree in memory\<close>

datatype atree = Tip | Nd nat u64 atree atree

fun ptr :: "atree \<Rightarrow> nat option" where
  "ptr Tip = None"
| "ptr (Nd a v l r) = Some a"

fun addrs :: "atree \<Rightarrow> nat list" where
  "addrs Tip = []"
| "addrs (Nd a v l r) = a # addrs l @ addrs r"

fun tree_at :: "(nat \<Rightarrow> radix_node) \<Rightarrow> nat option \<Rightarrow> atree \<Rightarrow> bool" where
  "tree_at h par Tip = True"
| "tree_at h par (Nd a v l r) \<longleftrightarrow>
     h a = \<lparr>rn_right = ptr r, rn_left = ptr l, rn_parent = par, rn_value = v\<rparr> \<and>
     tree_at h (Some a) l \<and> tree_at h (Some a) r"

fun free_at :: "(nat \<Rightarrow> radix_node) \<Rightarrow> nat option \<Rightarrow> nat list \<Rightarrow> bool" where
  "free_at h p [] \<longleftrightarrow> p = None"
| "free_at h p (a # as) \<longleftrightarrow> p = Some a \<and> free_at h (rn_right (h a)) as"

text \<open>A position in the tree: the frames on the way up, the nearest first.\<close>

type_synonym frame = "nat \<times> u64 \<times> bool \<times> atree"

definition join :: "bool \<Rightarrow> nat \<Rightarrow> u64 \<Rightarrow> atree \<Rightarrow> atree \<Rightarrow> atree" where
  "join b a v s t = (if b then Nd a v s t else Nd a v t s)"

fun plug :: "atree \<Rightarrow> frame list \<Rightarrow> atree" where
  "plug t [] = t"
| "plug t ((a, v, b, s) # fs) = plug (join b a v s t) fs"

fun up :: "nat option \<Rightarrow> frame list \<Rightarrow> nat option" where
  "up par [] = par"
| "up par ((a, v, b, s) # fs) = Some a"

definition node_of :: "bool \<Rightarrow> nat option \<Rightarrow> nat option \<Rightarrow> nat option \<Rightarrow> u64 \<Rightarrow> radix_node" where
  "node_of b s p par v = \<lparr>rn_right = (if b then p else s), rn_left = (if b then s else p), rn_parent = par, rn_value = v\<rparr>"

fun ctx_at :: "(nat \<Rightarrow> radix_node) \<Rightarrow> nat option \<Rightarrow> frame list \<Rightarrow> nat option \<Rightarrow> bool" where
  "ctx_at h par [] p = True"
| "ctx_at h par ((a, v, b, s) # fs) p \<longleftrightarrow>
     h a = node_of b (ptr s) p (up par fs) v \<and> tree_at h (Some a) s \<and> ctx_at h par fs (Some a)"

fun ctx_addrs :: "frame list \<Rightarrow> nat list" where
  "ctx_addrs [] = []"
| "ctx_addrs ((a, v, b, s) # fs) = a # addrs s @ ctx_addrs fs"

fun route :: "frame list \<Rightarrow> bool list" where
  "route [] = []"
| "route ((a, v, b, s) # fs) = route fs @ [b]"

lemma ptr_join [simp]: "ptr (join b a v s t) = Some a"
  by (simp add: join_def)

lemma tree_at_join [simp]:
  "tree_at h par (join b a v s t) \<longleftrightarrow>
     h a = node_of b (ptr s) (ptr t) par v \<and> tree_at h (Some a) s \<and> tree_at h (Some a) t"
  by (auto simp: join_def node_of_def)

lemma tree_at_plug: "tree_at h par (plug t fs) \<longleftrightarrow> tree_at h (up par fs) t \<and> ctx_at h par fs (ptr t)"
  by (induction t fs rule: plug.induct) auto

lemma set_addrs_plug: "set (addrs (plug t fs)) = set (addrs t) \<union> set (ctx_addrs fs)"
  by (induction t fs rule: plug.induct) (auto simp: join_def)

lemma distinct_join: "distinct (addrs (join b a v s t) @ xs) \<longleftrightarrow> distinct (addrs t @ (a # addrs s) @ xs)"
  by (auto simp: join_def)

lemma distinct_plug: "distinct (addrs (plug t fs) @ xs) \<longleftrightarrow> distinct (addrs t @ ctx_addrs fs @ xs)"
proof (induction t fs rule: plug.induct)
  case (2 t a v b s fs)
  have "distinct (addrs (plug t ((a, v, b, s) # fs)) @ xs) \<longleftrightarrow>
      distinct (addrs (join b a v s t) @ ctx_addrs fs @ xs)"
    using 2 by simp
  then show ?case by (simp only: distinct_join ctx_addrs.simps append_Cons append_assoc)
qed simp

text \<open>Writing to an address outside leaves a tree alone.\<close>

lemma tree_at_frame: "a \<notin> set (addrs t) \<Longrightarrow> tree_at (h(a := n)) par t = tree_at h par t"
  by (induction t arbitrary: par) auto

lemma ctx_at_frame: "a \<notin> set (ctx_addrs fs) \<Longrightarrow> ctx_at (h(a := n)) par fs p = ctx_at h par fs p"
  by (induction h par fs p rule: ctx_at.induct) (auto simp: tree_at_frame)

lemma free_at_frame: "a \<notin> set fl \<Longrightarrow> free_at (h(a := n)) p fl = free_at h p fl"
  by (induction fl arbitrary: p) auto

lemmas frame_simps = tree_at_frame ctx_at_frame free_at_frame

section \<open>The map a tree stands for\<close>

fun abs_tree :: "atree \<Rightarrow> bool list \<Rightarrow> u64 option" where
  "abs_tree Tip bs = None"
| "abs_tree (Nd a v l r) [] = (if v = NGX_RADIX_NO_VALUE then None else Some v)"
| "abs_tree (Nd a v l r) (b # bs) = abs_tree (if b then r else l) bs"

lemma abs_join:
  "abs_tree (join b a v s t) [] = (if v = NGX_RADIX_NO_VALUE then None else Some v)"
  "abs_tree (join b a v s t) (c # cs) = abs_tree (if c = b then t else s) cs"
  by (auto simp: join_def)

lemma abs_plug:
  "abs_tree (plug t fs) cs =
     (if prefix (route fs) cs then abs_tree t (drop (length (route fs)) cs) else abs_tree (plug Tip fs) cs)"
proof (induction fs arbitrary: t cs)
  case (Cons f fs)
  obtain a v b s where f: "f = (a, v, b, s)" by (metis prod_cases4)
  show ?case
  proof (cases "prefix (route fs) cs")
    case False
    then have "\<not> prefix (route (f # fs)) cs" by (auto simp: f dest: append_prefixD)
    then show ?thesis
      using False by (simp add: f Cons.IH [of "join b a v s t"] Cons.IH [of "join b a v s Tip"])
  next
    case True
    then obtain ds where ds: "cs = route fs @ ds" by (auto simp: prefix_def)
    show ?thesis
      by (cases ds)
        (simp_all add: f ds Cons.IH [of "join b a v s t"] Cons.IH [of "join b a v s Tip"] abs_join prefix_def)
  qed
qed simp

lemma abs_plug_route [simp]: "abs_tree (plug t fs) (route fs @ bs) = abs_tree t bs"
  by (subst abs_plug) simp

lemma abs_plug_here [simp]: "abs_tree (plug t fs) (route fs) = abs_tree t []"
  using abs_plug_route [of t fs "[]"] by simp

lemma abs_plug_cong: "abs_tree t = abs_tree u \<Longrightarrow> abs_tree (plug t fs) = abs_tree (plug u fs)"
  by (rule ext) (simp add: abs_plug [of t] abs_plug [of u])

lemma abs_new_leaf: "abs_tree (Nd a NGX_RADIX_NO_VALUE Tip Tip) = abs_tree Tip"
proof
  fix bs
  show "abs_tree (Nd a NGX_RADIX_NO_VALUE Tip Tip) bs = abs_tree Tip bs" by (cases bs) auto
qed

text \<open>Changing the value of the node at a position changes the map at its prefix only.\<close>

lemma abs_set_value:
  "abs_tree (plug (Nd a w l r) fs) =
     (abs_tree (plug (Nd a v l r) fs))(route fs := (if w = NGX_RADIX_NO_VALUE then None else Some w))"
proof
  fix cs
  show "abs_tree (plug (Nd a w l r) fs) cs =
     ((abs_tree (plug (Nd a v l r) fs))(route fs := (if w = NGX_RADIX_NO_VALUE then None else Some w))) cs"
  proof (cases "prefix (route fs) cs")
    case True
    then obtain ds where "cs = route fs @ ds" by (auto simp: prefix_def)
    then show ?thesis by (cases ds) auto
  next
    case False
    then show ?thesis by (auto simp: abs_plug [of "Nd a w l r"] abs_plug [of "Nd a v l r"])
  qed
qed


section \<open>Memory not in use\<close>

definition span :: "nat set \<Rightarrow> nat set" where
  "span S = (\<Union>x\<in>S. {x..<x + node_bytes})"

text \<open>Pages to come are disjoint from the bytes \<open>S\<close> and from each other.\<close>

fun pages_ok :: "nat \<Rightarrow> nat option list \<Rightarrow> nat set \<Rightarrow> bool" where
  "pages_ok pagesize [] S = True"
| "pages_ok pagesize (None # ps) S = pages_ok pagesize ps S"
| "pages_ok pagesize (Some a # ps) S \<longleftrightarrow>
     {a..<a + pagesize} \<inter> S = {} \<and> pages_ok pagesize ps (S \<union> {a..<a + pagesize})"

lemma pages_ok_mono: "pages_ok P ps S \<Longrightarrow> T \<subseteq> S \<Longrightarrow> pages_ok P ps T"
proof (induction P ps S arbitrary: T rule: pages_ok.induct)
  case (3 P a ps S)
  have "pages_ok P ps (T \<union> {a..<a + P})" by (rule "3.IH") (use "3.prems" in auto)
  then show ?case using "3.prems" by auto
qed auto

text \<open>The rest of the current page, as long as a node fits.\<close>

definition avail :: "radix_tree \<Rightarrow> nat set" where
  "avail tree = (if rt_size tree < node_bytes then {} else {rt_start tree..<rt_start tree + rt_size tree})"

text \<open>The nodes in use do not overlap, and lie outside the memory still to be given out.\<close>

definition room :: "nat \<Rightarrow> radix_tree \<Rightarrow> nat set \<Rightarrow> bool" where
  "room pagesize tree S \<longleftrightarrow> node_bytes \<le> pagesize \<and>
     (\<forall>x\<in>S. \<forall>y\<in>S. x \<noteq> y \<longrightarrow> {x..<x + node_bytes} \<inter> {y..<y + node_bytes} = {}) \<and>
     span S \<inter> avail tree = {} \<and> pages_ok pagesize (rt_pages tree) (span S \<union> avail tree)"

lemma span_insert [simp]: "span (insert x S) = {x..<x + node_bytes} \<union> span S"
  by (auto simp: span_def)

lemma span_mem: "y \<in> S \<Longrightarrow> {y..<y + node_bytes} \<subseteq> span S"
  by (auto simp: span_def)

lemma room_new:
  assumes room: "room P tree S" and R: "R \<inter> span S = {}" "pages_ok P (rt_pages u) (span S \<union> R)"
    and x: "{x..<x + node_bytes} \<subseteq> R" "avail u \<subseteq> R" "{x..<x + node_bytes} \<inter> avail u = {}"
  shows "x \<notin> S \<and> room P u (insert x S)"
proof
  have "x \<in> {x..<x + node_bytes}" by simp
  then show "x \<notin> S" using R(1) x(1) span_mem [of x S] by blast
  have new: "{x..<x + node_bytes} \<inter> {y..<y + node_bytes} = {}" if "y \<in> S" for y
    using R(1) x(1) span_mem [OF that] by blast
  have "{a..<a + node_bytes} \<inter> {b..<b + node_bytes} = {}" if "a \<in> insert x S" "b \<in> insert x S" "a \<noteq> b" for a b
    using that room new unfolding room_def by (metis Int_commute insert_iff)
  moreover have "pages_ok P (rt_pages u) (span (insert x S) \<union> avail u)"
    by (rule pages_ok_mono [OF R(2)]) (use x in auto)
  moreover have "span (insert x S) \<inter> avail u = {}" unfolding span_insert using R(1) x by blast
  moreover have "node_bytes \<le> P" using room by (simp add: room_def)
  ultimately show "room P u (insert x S)" unfolding room_def by blast
qed

lemma room_cong:
  assumes "room P tree S" "rt_start u = rt_start tree" "rt_size u = rt_size tree" "rt_pages u = rt_pages tree"
  shows "room P u S"
proof -
  have "avail u = avail tree" using assms(2,3) by (simp add: avail_def)
  then show ?thesis using assms(1,4) unfolding room_def by simp
qed

text \<open>An allocated node is new, or the head of the free list; without one, nothing but the pool changed.\<close>

definition alloc_result :: "nat \<Rightarrow> radix_tree \<Rightarrow> nat set \<Rightarrow> nat list \<Rightarrow> nat option \<times> radix_tree \<Rightarrow> bool" where
  "alloc_result P tree T fl res = (case res of
     (None, u) \<Rightarrow> room P u (T \<union> set fl) \<and> rt_mem u = rt_mem tree \<and> rt_root u = rt_root tree \<and> free_at (rt_mem u) (rt_free u) fl
   | (Some p, u) \<Rightarrow> \<exists>fl'. p \<notin> T \<and> p \<notin> set fl' \<and> set fl' \<subseteq> set fl \<and> distinct fl' \<and> room P u (insert p (T \<union> set fl')) \<and>
       rt_mem u = rt_mem tree \<and> rt_root u = rt_root tree \<and> free_at (rt_mem u) (rt_free u) fl')"

lemma alloc_reused:
  assumes room: "room P tree (T \<union> set (a # as))"
    and fl: "free_at (rt_mem tree) (rt_free tree) (a # as)" "distinct (a # as)" "T \<inter> set (a # as) = {}"
  shows "alloc_result P tree T (a # as) (ngx_radix_alloc P tree)"
proof -
  let ?u = "tree\<lparr>rt_free := rn_right (rt_mem tree a)\<rparr>"
  have "T \<union> set (a # as) = insert a (T \<union> set as)" by auto
  then have "room P ?u (insert a (T \<union> set as))" using room by (auto intro: room_cong)
  moreover have "ngx_radix_alloc P tree = (Some a, ?u)" using fl(1) by (simp add: ngx_radix_alloc_def)
  ultimately show ?thesis using fl by (auto simp: alloc_result_def intro!: exI [of _ as])
qed

lemma alloc_carved:
  assumes room: "room P tree T" and size: "\<not> rt_size tree < node_bytes"
    and u: "u = tree\<lparr>rt_start := rt_start tree + node_bytes, rt_size := rt_size tree - node_bytes\<rparr>"
  shows "rt_start tree \<notin> T \<and> room P u (insert (rt_start tree) T)"
proof (rule room_new [OF room, of "avail tree"])
  show "avail tree \<inter> span T = {}" "pages_ok P (rt_pages u) (span T \<union> avail tree)"
    using room u by (auto simp: room_def)
  show "{rt_start tree..<rt_start tree + node_bytes} \<subseteq> avail tree" "avail u \<subseteq> avail tree"
    "{rt_start tree..<rt_start tree + node_bytes} \<inter> avail u = {}"
    using size u by (auto simp: avail_def)
qed

lemma alloc_page:
  assumes room: "room P tree T" and pg: "rt_pages tree = Some a # ps"
    and u: "u = tree\<lparr>rt_start := a + node_bytes, rt_size := P - node_bytes, rt_pages := ps\<rparr>"
  shows "a \<notin> T \<and> room P u (insert a T)"
proof (rule room_new [OF room, of "{a..<a + P}"])
  show "{a..<a + P} \<inter> span T = {}" using room pg by (auto simp: room_def)
  show "pages_ok P (rt_pages u) (span T \<union> {a..<a + P})"
    using room pg u by (auto simp: room_def elim: pages_ok_mono)
  have "node_bytes \<le> P" using room by (simp add: room_def)
  then show "{a..<a + node_bytes} \<subseteq> {a..<a + P}" "avail u \<subseteq> {a..<a + P}" "{a..<a + node_bytes} \<inter> avail u = {}"
    using u by (auto simp: avail_def)
qed

lemma alloc_ok:
  assumes room: "room P tree (T \<union> set fl)" and fl: "free_at (rt_mem tree) (rt_free tree) fl" "distinct fl" "T \<inter> set fl = {}"
  shows "alloc_result P tree T fl (ngx_radix_alloc P tree)"
proof (cases fl)
  case (Cons a as)
  then show ?thesis using alloc_reused assms by blast
next
  case Nil
  then have f: "rt_free tree = None" and r: "room P tree T" using assms by simp_all
  show ?thesis
  proof (cases "rt_size tree < node_bytes")
    case False
    then show ?thesis
      using alloc_carved [OF r False refl] f
      by (auto simp: alloc_result_def ngx_radix_alloc_def Nil intro!: exI [of _ "[]"])
  next
    case small: True
    show ?thesis
    proof (cases "\<exists>a ps. rt_pages tree = Some a # ps")
      case True
      then obtain a ps where pg: "rt_pages tree = Some a # ps" by blast
      then show ?thesis
        using alloc_page [OF r pg refl] small f
        by (auto simp: alloc_result_def ngx_radix_alloc_def Nil intro!: exI [of _ "[]"])
    next
      case False
      let ?u = "tree\<lparr>rt_start := 0, rt_pages := tl (rt_pages tree)\<rparr>"
      have eq: "ngx_radix_alloc P tree = (None, ?u)"
        using small f False by (auto simp: ngx_radix_alloc_def split: list.splits option.splits)
      have av: "avail ?u = {}" "avail tree = {}" using small by (simp_all add: avail_def)
      have "pages_ok P (rt_pages tree) (span T)" using r av by (simp add: room_def)
      then have "pages_ok P (tl (rt_pages tree)) (span T)"
        using False by (cases "rt_pages tree"; cases "hd (rt_pages tree)") auto
      then have "room P ?u T" using r av unfolding room_def by simp
      then show ?thesis using f Nil by (simp add: eq alloc_result_def)
    qed
  qed
qed


section \<open>Insertion\<close>

text \<open>What the walk of a cursor reads: the bits of the key while the mask lasts.\<close>

fun cpath :: "('c \<Rightarrow> bool) \<Rightarrow> ('c \<Rightarrow> bool) \<Rightarrow> ('c \<Rightarrow> 'c) \<Rightarrow> 'c \<Rightarrow> bool list \<Rightarrow> bool" where
  "cpath cont dir step c [] \<longleftrightarrow> \<not> cont c"
| "cpath cont dir step c (b # bs) \<longleftrightarrow> cont c \<and> dir c = b \<and> cpath cont dir step (step c) bs"

definition subtree :: "bool \<Rightarrow> atree \<Rightarrow> atree" where
  "subtree b t = (case t of Tip \<Rightarrow> Tip | Nd a v l r \<Rightarrow> if b then r else l)"

lemma subtree_simps [simp]: "subtree b Tip = Tip" "subtree b (Nd a v l r) = (if b then r else l)"
  by (simp_all add: subtree_def)

lemma child_at: "tree_at h par (Nd a v l r) \<Longrightarrow> rn_child b (h a) = ptr (if b then r else l)"
  by (simp add: rn_child_def)

lemma plug_child: "plug (Nd a v l r) fs = plug (if b then r else l) ((a, v, b, if b then l else r) # fs)"
  by (simp add: join_def)

lemma descend_ok:
  assumes "tree_at h None (plug (Nd a v l r) fs)" "cpath cont dir step c bs" "nxt \<noteq> None"
  shows "\<exists>c' a' v' l' r' fs' nxt' bs'.
    radix_descend cont dir step h c a nxt = Some (c', a', nxt') \<and>
    plug (Nd a' v' l' r') fs' = plug (Nd a v l r) fs \<and> route fs' @ bs' = route fs @ bs \<and>
    cpath cont dir step c' bs' \<and> (if bs' = [] then nxt' \<noteq> None else nxt' = None \<and> subtree (hd bs') (Nd a' v' l' r') = Tip)"
  using assms
proof (induction bs arbitrary: c a v l r fs nxt)
  case Nil
  then have "radix_descend cont dir step h c a nxt = Some (c, a, nxt)" by (simp add: radix_descend.simps)
  then show ?case using Nil by fastforce
next
  case (Cons b bs)
  let ?t = "if b then r else l" and ?f = "(a, v, b, if b then l else r) # fs"
  have c: "cont c" "dir c = b" "cpath cont dir step (step c) bs" using Cons.prems(2) by auto
  have ch: "rn_child b (h a) = ptr ?t" using Cons.prems(1) by (intro child_at) (simp add: tree_at_plug)
  show ?case
  proof (cases ?t)
    case Tip
    then have "radix_descend cont dir step h c a nxt = Some (c, a, None)"
      using c ch by (simp add: radix_descend.simps [of cont dir step h c])
    then show ?thesis using Cons.prems(2) Tip by (intro exI conjI) (assumption | rule refl | simp)+
  next
    case (Nd a1 v1 l1 r1)
    have pl: "plug (Nd a v l r) fs = plug (Nd a1 v1 l1 r1) ?f" using plug_child [of a v l r fs b] Nd by simp
    have "radix_descend cont dir step h c a nxt = radix_descend cont dir step h (step c) a1 (Some a1)"
      using c ch Nd by (simp add: radix_descend.simps [of cont dir step h c])
    then show ?thesis
      using Cons.IH [of a1 v1 l1 r1 ?f "step c" "Some a1"] Cons.prems(1) c(3) unfolding pl by simp
  qed
qed

text \<open>The tree with its free list, between operations.\<close>

definition radix_inv :: "nat \<Rightarrow> radix_tree \<Rightarrow> atree \<Rightarrow> nat list \<Rightarrow> bool" where
  "radix_inv P tree t fl \<longleftrightarrow> rt_root tree = ptr t \<and> t \<noteq> Tip \<and> tree_at (rt_mem tree) None t \<and>
     free_at (rt_mem tree) (rt_free tree) fl \<and> distinct (addrs t @ fl) \<and> room P tree (set (addrs t) \<union> set fl)"

lemma rt_update_simps [simp]:
  "rt_mem (rt_update a f tree) = (rt_mem tree)(a := f (rt_mem tree a))"
  "rt_root (rt_update a f tree) = rt_root tree" "rt_free (rt_update a f tree) = rt_free tree"
  "rt_start (rt_update a f tree) = rt_start tree" "rt_size (rt_update a f tree) = rt_size tree"
  "rt_pages (rt_update a f tree) = rt_pages tree"
  by (simp_all add: rt_update_def)

lemma room_update [simp]: "room P (rt_update a f tree) S \<longleftrightarrow> room P tree S"
  using room_cong [of P tree S "rt_update a f tree"] room_cong [of P "rt_update a f tree" S tree] by auto

lemma plug_not_Tip: "t \<noteq> Tip \<Longrightarrow> plug t fs \<noteq> Tip"
  by (induction t fs rule: plug.induct) (auto simp: join_def)

lemma ptr_plug: "ptr t = ptr u \<or> fs \<noteq> [] \<Longrightarrow> ptr (plug t fs) = ptr (plug u fs)"
proof (induction fs arbitrary: t u)
  case (Cons f fs)
  obtain a v b s where "f = (a, v, b, s)" by (metis prod_cases4)
  then show ?case using Cons.IH [of "join b a v s t" "join b a v s u"] by simp
qed simp

text \<open>Linking a new node below a place without child.\<close>

lemma link_new:
  assumes inv: "radix_inv P tree t fl" and t: "t = plug (Nd a v l r) fs" and tip: "(if b then r else l) = Tip"
    and al: "ngx_radix_alloc P tree = (Some n, u)"
    and w: "w = rt_update a (rn_set_child b (Some n)) (rt_update n (\<lambda>_. rn_fresh (Some a)) u)"
    and sib: "sib = (if b then l else r)"
  shows "\<exists>fl'. radix_inv P w (plug (Nd n NGX_RADIX_NO_VALUE Tip Tip) ((a, v, b, sib) # fs)) fl'"
proof -
  let ?n = "Nd n NGX_RADIX_NO_VALUE Tip Tip" and ?fs = "(a, v, b, sib) # fs" and ?T = "set (addrs t)"
  have fl: "free_at (rt_mem tree) (rt_free tree) fl" "distinct fl" "?T \<inter> set fl = {}" "room P tree (?T \<union> set fl)"
    using inv by (auto simp: radix_inv_def)
  obtain fl' where r: "n \<notin> ?T" "n \<notin> set fl'" "set fl' \<subseteq> set fl" "distinct fl'" "room P u (insert n (?T \<union> set fl'))"
    "rt_mem u = rt_mem tree" "rt_root u = rt_root tree" "free_at (rt_mem u) (rt_free u) fl'"
    using alloc_ok [OF fl(4,1-3)] al by (auto simp: alloc_result_def)
  have t2: "t = plug Tip ?fs" using t tip sib by (auto simp: join_def)
  have d: "distinct (ctx_addrs ?fs @ fl)" using inv distinct_plug [of Tip ?fs fl] t2 by (simp add: radix_inv_def)
  have T: "?T = set (ctx_addrs ?fs)" using t2 set_addrs_plug [of Tip ?fs] by simp
  have at: "tree_at (rt_mem tree) None t" using inv by (simp add: radix_inv_def)
  have c: "ctx_at (rt_mem tree) None ?fs None" using at unfolding t2 tree_at_plug by simp
  have ne: "n \<noteq> a" "n \<notin> set (ctx_addrs ?fs)" "a \<notin> set (addrs sib)" "a \<notin> set (ctx_addrs fs)" "a \<notin> set fl'"
    using r(1,3) d T by auto
  have m: "rt_mem w = (rt_mem tree)(n := rn_fresh (Some a), a := node_of b (ptr sib) (Some n) (up None fs) v)"
    using c ne(1) r(6) by (auto simp: w rn_set_child_def node_of_def)
  have "tree_at (rt_mem w) None (plug ?n ?fs)"
    using c ne unfolding tree_at_plug m by (simp add: frame_simps rn_fresh_def)
  moreover have "free_at (rt_mem w) (rt_free w) fl'"
    using r(2,6,8) ne(5) by (simp add: w frame_simps)
  moreover have "distinct (addrs (plug ?n ?fs) @ fl')"
    using d r(2,3,4) ne(2) unfolding distinct_plug by auto
  moreover have "room P w (set (addrs (plug ?n ?fs)) \<union> set fl')"
    using r(5) T unfolding set_addrs_plug w by (simp add: insert_commute)
  moreover have "rt_root w = ptr (plug ?n ?fs)"
    using inv r(7) ptr_plug [of Tip ?n ?fs] by (simp add: w radix_inv_def t2 del: plug.simps)
  ultimately show ?thesis using plug_not_Tip [of ?n ?fs] unfolding radix_inv_def by blast
qed

lemma alloc_failed:
  assumes "radix_inv P tree t fl" "ngx_radix_alloc P tree = (None, u)"
  shows "radix_inv P u t fl"
  using assms alloc_ok [of P tree "set (addrs t)" fl] by (auto simp: radix_inv_def alloc_result_def)

definition extend_post :: "nat \<Rightarrow> (bool list \<Rightarrow> u64 option) \<Rightarrow> bool list \<Rightarrow> nat option \<Rightarrow> radix_tree \<Rightarrow> bool" where
  "extend_post P M path stop u = (case stop of
     None \<Rightarrow> \<exists>t fl. radix_inv P u t fl \<and> abs_tree t = M
   | Some n \<Rightarrow> \<exists>v l r fs fl. radix_inv P u (plug (Nd n v l r) fs) fl \<and> route fs = path \<and>
       abs_tree (plug (Nd n v l r) fs) = M)"

lemma extend_ok:
  assumes "radix_inv P tree (plug (Nd a v l r) fs) fl" "cpath cont dir step c bs"
    "bs \<noteq> [] \<Longrightarrow> subtree (hd bs) (Nd a v l r) = Tip"
  shows "\<exists>stop u. radix_extend cont dir step P c a tree = Some (stop, u) \<and>
    extend_post P (abs_tree (plug (Nd a v l r) fs)) (route fs @ bs) stop u"
  using assms
proof (induction bs arbitrary: c a v l r fs fl tree)
  case Nil
  then have "radix_extend cont dir step P c a tree = Some (Some a, tree)" by (simp add: radix_extend.simps)
  then show ?case using Nil.prems(1) unfolding extend_post_def by fastforce
next
  case (Cons b bs)
  have c: "cont c" "dir c = b" "cpath cont dir step (step c) bs" using Cons.prems(2) by auto
  have tip: "(if b then r else l) = Tip" using Cons.prems(3) by simp
  let ?t = "plug (Nd a v l r) fs" and ?fs = "(a, v, b, if b then l else r) # fs"
  obtain stop u where al: "ngx_radix_alloc P tree = (stop, u)" by fastforce
  show ?case
  proof (cases stop)
    case None
    then have "radix_extend cont dir step P c a tree = Some (None, u)"
      using c al by (simp add: radix_extend.simps [of cont dir step P c])
    then show ?thesis using alloc_failed [OF Cons.prems(1)] al None by (auto simp: extend_post_def)
  next
    case (Some n)
    define w where "w = rt_update a (rn_set_child b (Some n)) (rt_update n (\<lambda>_. rn_fresh (Some a)) u)"
    let ?n = "Nd n NGX_RADIX_NO_VALUE Tip Tip"
    obtain fl' where inv: "radix_inv P w (plug ?n ?fs) fl'"
      using link_new [OF Cons.prems(1) refl tip _ w_def refl] al Some by blast
    have abs: "abs_tree (plug ?n ?fs) = abs_tree ?t"
      using abs_plug_cong [OF abs_new_leaf, of n ?fs] plug_child [of a v l r fs b] tip by simp
    have eq: "radix_extend cont dir step P c a tree = radix_extend cont dir step P (step c) n w"
      using c al Some by (simp add: radix_extend.simps [of cont dir step P c] w_def)
    have "\<exists>stop u. radix_extend cont dir step P (step c) n w = Some (stop, u) \<and>
        extend_post P (abs_tree (plug ?n ?fs)) (route ?fs @ bs) stop u"
      by (rule Cons.IH [OF inv c(3)]) simp
    then show ?thesis unfolding eq abs by simp
  qed
qed

text \<open>Setting the value of a node of the tree.\<close>

lemma set_value:
  assumes "radix_inv P tree (plug (Nd a v l r) fs) fl"
  shows "radix_inv P (rt_update a (\<lambda>n. n\<lparr>rn_value := w\<rparr>) tree) (plug (Nd a w l r) fs) fl"
proof -
  let ?t = "plug (Nd a v l r) fs" and ?u = "plug (Nd a w l r) fs" and ?tree = "rt_update a (\<lambda>n. n\<lparr>rn_value := w\<rparr>) tree"
  have d: "distinct (addrs (Nd a v l r) @ ctx_addrs fs @ fl)" using assms unfolding radix_inv_def distinct_plug by blast
  then have ne: "a \<notin> set (addrs l)" "a \<notin> set (addrs r)" "a \<notin> set (ctx_addrs fs)" "a \<notin> set fl" by auto
  have "tree_at (rt_mem ?tree) None ?u"
    using assms ne unfolding radix_inv_def tree_at_plug by (simp add: frame_simps)
  moreover have "free_at (rt_mem ?tree) (rt_free ?tree) fl" using assms ne by (simp add: radix_inv_def frame_simps)
  moreover have "distinct (addrs ?u @ fl)" using d unfolding distinct_plug by simp
  moreover have "room P ?tree (set (addrs ?u) \<union> set fl)" using assms unfolding radix_inv_def set_addrs_plug by simp
  moreover have "rt_root ?tree = ptr ?u" using assms ptr_plug [of "Nd a v l r" "Nd a w l r" fs] by (simp add: radix_inv_def)
  ultimately show ?thesis using plug_not_Tip [of "Nd a w l r" fs] by (simp add: radix_inv_def)
qed

text \<open>A tree and the map it represents.\<close>

definition radix_rep :: "nat \<Rightarrow> radix_tree \<Rightarrow> (bool list \<Rightarrow> u64 option) \<Rightarrow> bool" where
  "radix_rep P tree M \<longleftrightarrow> (\<exists>t fl. radix_inv P tree t fl \<and> abs_tree t = M)"

definition val :: "u64 \<Rightarrow> u64 option" where
  "val v = (if v = NGX_RADIX_NO_VALUE then None else Some v)"

definition insert_post :: "nat \<Rightarrow> radix_tree \<Rightarrow> (bool list \<Rightarrow> u64 option) \<Rightarrow> bool list \<Rightarrow> u64 \<Rightarrow> radix_rc \<times> radix_tree \<Rightarrow> bool" where
  "insert_post P tree M path v res = (case res of (rc, u) \<Rightarrow>
     case rc of
       Radix_OK \<Rightarrow> M path = None \<and> radix_rep P u (M(path := val v))
     | Radix_BUSY \<Rightarrow> M path \<noteq> None \<and> u = tree
     | Radix_ERROR \<Rightarrow> M path = None \<and> radix_rep P u M)"

lemma value_at:
  assumes "radix_inv P tree (plug (Nd a v l r) fs) fl"
  shows "rn_value (rt_mem tree a) = v" "abs_tree (plug (Nd a v l r) fs) (route fs) = val v"
  using assms unfolding radix_inv_def tree_at_plug by (simp_all add: val_def)

lemma value_set_rep:
  assumes "radix_inv P tree (plug (Nd a v l r) fs) fl" "abs_tree (plug (Nd a v l r) fs) = M"
  shows "radix_rep P (rt_update a (\<lambda>n. n\<lparr>rn_value := w\<rparr>) tree) (M(route fs := val w))"
  using set_value [OF assms(1), of w] abs_set_value [of a w l r fs v] assms(2)
  unfolding radix_rep_def val_def by metis

lemma insert_ok:
  assumes rep: "radix_rep P tree M" and path: "cpath cont dir step c path"
  shows "\<exists>res. radix_insert cont dir step P c v tree = Some res \<and> insert_post P tree M path v res"
proof -
  obtain t fl where inv: "radix_inv P tree t fl" and M: "abs_tree t = M" using rep by (auto simp: radix_rep_def)
  obtain a0 v0 l0 r0 where t: "t = Nd a0 v0 l0 r0" using inv by (cases t) (auto simp: radix_inv_def)
  have root: "rt_root tree = Some a0" and at: "tree_at (rt_mem tree) None (plug (Nd a0 v0 l0 r0) [])"
    using inv t by (simp_all add: radix_inv_def)
  obtain c' a' v' l' r' fs nxt bs where
    desc: "radix_descend cont dir step (rt_mem tree) c a0 (Some a0) = Some (c', a', nxt)"
    and pl: "plug (Nd a' v' l' r') fs = t" and rt: "route fs @ bs = path" and cp: "cpath cont dir step c' bs"
    and nx: "if bs = [] then nxt \<noteq> None else nxt = None \<and> subtree (hd bs) (Nd a' v' l' r') = Tip"
    using descend_ok [OF at path, of "Some a0"] t by auto
  have inv': "radix_inv P tree (plug (Nd a' v' l' r') fs) fl" using inv pl by simp
  show ?thesis
  proof (cases "bs = []")
    case True
    then have r: "route fs = path" "nxt \<noteq> None" using rt nx by auto
    have "M path = val v'" using value_at(2) [OF inv'] M pl r(1) by simp
    moreover have "radix_insert cont dir step P c v tree =
        Some (if v' \<noteq> NGX_RADIX_NO_VALUE then (Radix_BUSY, tree) else (Radix_OK, rt_update a' (\<lambda>n. n\<lparr>rn_value := v\<rparr>) tree))"
      using r(2) value_at(1) [OF inv'] by (simp add: radix_insert_def root desc)
    ultimately show ?thesis
      using value_set_rep [OF inv', of M v] M pl r(1) by (simp add: insert_post_def val_def)
  next
    case False
    then have tip: "subtree (hd bs) (Nd a' v' l' r') = Tip" and nxt: "nxt = None" using nx by auto
    have no: "M path = None"
      using abs_plug_route [of "Nd a' v' l' r'" fs bs] tip False M pl rt by (cases bs) (auto simp: if_split_eq1)
    obtain stop u where ext: "radix_extend cont dir step P c' a' tree = Some (stop, u)" "extend_post P M path stop u"
      using extend_ok [OF inv' cp tip] M pl rt by auto
    have "radix_insert cont dir step P c v tree = Some (case stop of None \<Rightarrow> (Radix_ERROR, u)
        | Some n \<Rightarrow> (Radix_OK, rt_update n (\<lambda>n. n\<lparr>rn_value := v\<rparr>) u))"
      using nxt ext(1) by (simp add: radix_insert_def root desc split: option.split)
    then show ?thesis
      using ext(2) no value_set_rep by (fastforce simp: insert_post_def extend_post_def radix_rep_def split: option.splits)
  qed
qed


section \<open>Deletion\<close>

lemma seek_ok:
  assumes "tree_at h None (plug t fs)" "cpath cont dir step c bs"
  shows "\<exists>t' fs'. radix_seek cont dir step h c (ptr t) = Some (ptr t') \<and> plug t' fs' = plug t fs \<and>
    (t' = Tip \<longrightarrow> abs_tree t bs = None) \<and> (t' \<noteq> Tip \<longrightarrow> route fs' = route fs @ bs)"
  using assms
proof (induction bs arbitrary: c t fs)
  case Nil
  then have "radix_seek cont dir step h c (ptr t) = Some (ptr t)"
    by (cases t) (simp_all add: radix_seek.simps)
  then show ?case by fastforce
next
  case (Cons b bs)
  have c: "cont c" "dir c = b" "cpath cont dir step (step c) bs" using Cons.prems(2) by auto
  show ?case
  proof (cases t)
    case Tip
    then have "radix_seek cont dir step h c (ptr t) = Some (ptr t)" by (simp add: radix_seek.simps)
    then show ?thesis using Tip by fastforce
  next
    case (Nd a v l r)
    let ?u = "if b then r else l" and ?fs = "(a, v, b, if b then l else r) # fs"
    have pl: "plug t fs = plug ?u ?fs" unfolding Nd by (rule plug_child)
    have ch: "rn_child b (h a) = ptr ?u" using Cons.prems(1) by (intro child_at) (simp add: tree_at_plug Nd)
    have eq: "radix_seek cont dir step h c (ptr t) = radix_seek cont dir step h (step c) (ptr ?u)"
      using c ch by (simp add: radix_seek.simps [of cont dir step h c] Nd)
    have "tree_at h None (plug ?u ?fs)" using Cons.prems(1) unfolding pl .
    from Cons.IH [OF this c(3)] obtain t' fs' where
      "radix_seek cont dir step h (step c) (ptr ?u) = Some (ptr t')" "plug t' fs' = plug ?u ?fs"
      "t' = Tip \<longrightarrow> abs_tree ?u bs = None" "t' \<noteq> Tip \<longrightarrow> route fs' = route ?fs @ bs" by blast
    moreover have "abs_tree t (b # bs) = abs_tree ?u bs" "route ?fs @ bs = route fs @ b # bs" by (simp_all add: Nd)
    ultimately show ?thesis unfolding eq pl by metis
  qed
qed

text \<open>Taking a leaf out of the tree and onto the free list.\<close>

lemma unlink_leaf:
  assumes inv: "radix_inv P tree (plug (Nd a v Tip Tip) ((p, pv, b, s) # fs)) fl"
    and w: "w = (rt_update a (\<lambda>n. n\<lparr>rn_right := rt_free tree\<rparr>) (rt_update p (rn_set_child b None) tree))\<lparr>rt_free := Some a\<rparr>"
  shows "radix_inv P w (plug Tip ((p, pv, b, s) # fs)) (a # fl)"
    and "rt_mem w p = node_of b (ptr s) None (up None fs) pv"
    and "rn_parent (rt_mem tree a) = Some p" "rn_right (rt_mem tree p) = Some a \<longleftrightarrow> b"
proof -
  let ?fs = "(p, pv, b, s) # fs"
  have d: "distinct (addrs (Nd a v Tip Tip) @ ctx_addrs ?fs @ fl)" using inv unfolding radix_inv_def distinct_plug by blast
  then have ne: "a \<noteq> p" "a \<notin> set (addrs s)" "a \<notin> set (ctx_addrs fs)" "a \<notin> set fl" "p \<notin> set (addrs s)" "p \<notin> set (ctx_addrs fs)" "p \<notin> set fl"
    by auto
  have at: "rt_mem tree a = \<lparr>rn_right = None, rn_left = None, rn_parent = Some p, rn_value = v\<rparr>"
    "rt_mem tree p = node_of b (ptr s) (Some a) (up None fs) pv" "tree_at (rt_mem tree) (Some p) s" "ctx_at (rt_mem tree) None fs (Some p)"
    using inv unfolding radix_inv_def tree_at_plug by simp_all
  have m: "rt_mem w = (rt_mem tree)(p := node_of b (ptr s) None (up None fs) pv, a := (rt_mem tree a)\<lparr>rn_right := rt_free tree\<rparr>)"
    using ne(1) at(2) by (auto simp: w rn_set_child_def node_of_def)
  show "rt_mem w p = node_of b (ptr s) None (up None fs) pv" using ne(1) by (simp add: m)
  show "rn_parent (rt_mem tree a) = Some p" using at(1) by simp
  have "ptr s \<noteq> Some a" using ne(2) by (cases s) auto
  then show "rn_right (rt_mem tree p) = Some a \<longleftrightarrow> b" using at(2) by (simp add: node_of_def)
  have "tree_at (rt_mem w) None (plug Tip ?fs)"
    using at ne unfolding tree_at_plug m by (simp add: frame_simps)
  moreover have "free_at (rt_mem w) (rt_free w) (a # fl)"
    using inv ne unfolding m by (simp add: frame_simps radix_inv_def w)
  moreover have "distinct (addrs (plug Tip ?fs) @ a # fl)" using d unfolding distinct_plug by auto
  moreover have "room P w (set (addrs (plug Tip ?fs)) \<union> set (a # fl))"
  proof (rule room_cong)
    show "room P tree (set (addrs (plug Tip ?fs)) \<union> set (a # fl))"
      using inv unfolding radix_inv_def set_addrs_plug by (simp add: insert_commute)
  qed (simp_all add: w)
  moreover have "rt_root w = ptr (plug Tip ?fs)"
    using inv ptr_plug [of "Nd a v Tip Tip" Tip ?fs] by (simp add: w radix_inv_def del: plug.simps)
  moreover have "plug Tip ?fs \<noteq> Tip" using plug_not_Tip [of "join b p pv s Tip" fs] by (simp add: join_def)
  ultimately show "radix_inv P w (plug Tip ?fs) (a # fl)" unfolding radix_inv_def by blast
qed

lemma prune_ok:
  assumes "radix_inv P tree (plug (Nd a v Tip Tip) fs) fl" "fs \<noteq> []"
  shows "\<exists>u. radix_prune a tree = Some u \<and> radix_rep P u (abs_tree (plug Tip fs))"
  using assms
proof (induction fs arbitrary: a v tree fl)
  case (Cons f fs)
  obtain p pv b s where f: "f = (p, pv, b, s)" by (metis prod_cases4)
  define w where "w = (rt_update a (\<lambda>n. n\<lparr>rn_right := rt_free tree\<rparr>) (rt_update p (rn_set_child b None) tree))\<lparr>rt_free := Some a\<rparr>"
  note u = unlink_leaf [OF Cons.prems(1) [unfolded f] w_def]
  have clr: "(if b then rt_update p (\<lambda>n. n\<lparr>rn_right := None\<rparr>) tree else rt_update p (\<lambda>n. n\<lparr>rn_left := None\<rparr>) tree) =
      rt_update p (rn_set_child b None) tree"
    by (simp add: rt_update_def rn_set_child_def)
  have wd: "w = (rt_update a (\<lambda>n. n\<lparr>rn_right := rt_free (rt_update p (rn_set_child b None) tree)\<rparr>)
      (rt_update p (rn_set_child b None) tree))\<lparr>rt_free := Some a\<rparr>"
    by (simp add: w_def)
  have step: "radix_prune a tree =
      (if ptr s \<noteq> None \<or> pv \<noteq> NGX_RADIX_NO_VALUE \<or> up None fs = None then Some w else radix_prune p w)"
    unfolding radix_prune.simps [of a tree] u(3) Option.bind.simps Let_def u(4) clr wd [symmetric] u(2)
    by (auto simp: node_of_def)
  show ?case
  proof (cases "ptr s \<noteq> None \<or> pv \<noteq> NGX_RADIX_NO_VALUE \<or> up None fs = None")
    case True
    then show ?thesis using u(1) unfolding step f radix_rep_def by auto
  next
    case False
    then have s: "s = Tip" "pv = NGX_RADIX_NO_VALUE" "fs \<noteq> []" by (cases s; auto)+
    then have t: "plug Tip (f # fs) = plug (Nd p NGX_RADIX_NO_VALUE Tip Tip) fs" by (simp add: f join_def)
    have "radix_inv P w (plug (Nd p NGX_RADIX_NO_VALUE Tip Tip) fs) (a # fl)" using u(1) t f by simp
    from Cons.IH [OF this s(3)] show ?thesis
      using False abs_plug_cong [OF abs_new_leaf] unfolding step t by metis
  qed
qed simp

definition delete_post :: "nat \<Rightarrow> radix_tree \<Rightarrow> (bool list \<Rightarrow> u64 option) \<Rightarrow> bool list \<Rightarrow> radix_rc \<times> radix_tree \<Rightarrow> bool" where
  "delete_post P tree M path res = (case res of (rc, u) \<Rightarrow>
     if rc = Radix_OK then radix_rep P u (M(path := None)) else rc = Radix_ERROR \<and> M path = None \<and> u = tree)"

lemma delete_ok:
  assumes rep: "radix_rep P tree M" and path: "cpath cont dir step c path" "path \<noteq> []"
  shows "\<exists>res. radix_delete cont dir step c tree = Some res \<and> delete_post P tree M path res"
proof -
  obtain t fl where inv: "radix_inv P tree t fl" and M: "abs_tree t = M" using rep by (auto simp: radix_rep_def)
  have at: "tree_at (rt_mem tree) None (plug t [])" and root: "rt_root tree = ptr t" using inv by (simp_all add: radix_inv_def)
  obtain t' fs where seek: "radix_seek cont dir step (rt_mem tree) c (rt_root tree) = Some (ptr t')" and pl: "plug t' fs = t"
    and rt: "t' = Tip \<longrightarrow> abs_tree t path = None" "t' \<noteq> Tip \<longrightarrow> route fs = path"
    using seek_ok [OF at path(1)] unfolding root by auto
  show ?thesis
  proof (cases t')
    case Tip
    then show ?thesis using seek rt M by (simp add: radix_delete_def delete_post_def)
  next
    case (Nd a v l r)
    then have inv': "radix_inv P tree (plug (Nd a v l r) fs) fl" and r: "route fs = path" using inv pl rt by simp_all
    have n: "rt_mem tree a = \<lparr>rn_right = ptr r, rn_left = ptr l, rn_parent = up None fs, rn_value = v\<rparr>"
      using inv' unfolding radix_inv_def tree_at_plug by simp
    have Mp: "M path = val v" using value_at(2) [OF inv'] M pl Nd r by simp
    show ?thesis
    proof (cases "r = Tip \<and> l = Tip")
      case True
      have "fs \<noteq> []" using r path(2) by auto
      then obtain u where u: "radix_prune a tree = Some u" "radix_rep P u (abs_tree (plug Tip fs))"
        using prune_ok inv' True by metis
      have "abs_tree (plug Tip fs) = M(path := None)"
        using abs_set_value [of a NGX_RADIX_NO_VALUE Tip Tip fs v] abs_plug_cong [OF abs_new_leaf, of a fs] M pl Nd True r by simp
      then show ?thesis using u seek Nd n True by (simp add: radix_delete_def delete_post_def)
    next
      case False
      then have "ptr r \<noteq> None \<or> ptr l \<noteq> None" by (cases r; cases l) auto
      then have "radix_delete cont dir step c tree =
          Some (if v \<noteq> NGX_RADIX_NO_VALUE then (Radix_OK, rt_update a (\<lambda>n. n\<lparr>rn_value := NGX_RADIX_NO_VALUE\<rparr>) tree)
                else (Radix_ERROR, tree))"
        using seek Nd n by (auto simp: radix_delete_def Let_def)
      then show ?thesis
        using value_set_rep [OF inv', of M NGX_RADIX_NO_VALUE] M pl Nd r Mp by (simp add: delete_post_def val_def)
    qed
  qed
qed

section \<open>Look-up\<close>

text \<open>The value at the longest prefix of a sequence of bits, among those of at most \<open>N\<close> bits.\<close>

definition longest :: "(bool list \<Rightarrow> u64 option) \<Rightarrow> (nat \<Rightarrow> bool) \<Rightarrow> nat set \<Rightarrow> u64 \<Rightarrow> u64 \<Rightarrow> bool" where
  "longest M s A v w \<longleftrightarrow>
     (\<exists>n\<in>A. M (map s [0..<n]) = Some w \<and> (\<forall>m\<in>A. n < m \<longrightarrow> M (map s [0..<m]) = None)) \<or>
     (\<forall>n\<in>A. M (map s [0..<n]) = None) \<and> w = v"

definition reads :: "('c \<Rightarrow> bool) \<Rightarrow> ('c \<Rightarrow> 'c) \<Rightarrow> 'c \<Rightarrow> nat \<Rightarrow> bool" where
  "reads dir step c n = dir ((step ^^ n) c)"

lemma reads_Suc: "map (reads dir step c) [0..<Suc n] = dir c # map (reads dir step (step c)) [0..<n]"
  unfolding map_upt_Suc by (simp add: reads_def funpow_swap1)

lemma longest_child:
  assumes "longest (abs_tree (if dir c then r else l)) (reads dir step (step c)) UNIV (if v \<noteq> NGX_RADIX_NO_VALUE then v else v0) w"
  shows "longest (abs_tree (Nd a v l r)) (reads dir step c) UNIV v0 w"
proof -
  let ?u = "if dir c then r else l" and ?s = "reads dir step c" and ?s' = "reads dir step (step c)"
  have S: "abs_tree (Nd a v l r) (map ?s [0..<Suc n]) = abs_tree ?u (map ?s' [0..<n])" for n
    unfolding reads_Suc by simp
  have Z: "abs_tree (Nd a v l r) (map ?s [0..<0]) = val v" by (simp add: val_def)
  consider (deep) n where "abs_tree ?u (map ?s' [0..<n]) = Some w" "\<forall>m>n. abs_tree ?u (map ?s' [0..<m]) = None"
    | (none) "\<forall>n. abs_tree ?u (map ?s' [0..<n]) = None" "w = (if v \<noteq> NGX_RADIX_NO_VALUE then v else v0)"
    using assms unfolding longest_def by auto
  then show ?thesis
  proof cases
    case deep
    have "abs_tree (Nd a v l r) (map ?s [0..<m]) = None" if "Suc n < m" for m
      using that deep(2) S by (cases m) (auto simp del: upt_Suc)
    then show ?thesis using deep(1) S [of n] unfolding longest_def by (intro disjI1 bexI [of _ "Suc n"]) auto
  next
    case none
    have "abs_tree (Nd a v l r) (map ?s [0..<m]) = None" if "0 < m" for m
      using that none(1) S by (cases m) (auto simp del: upt_Suc)
    then have pos: "\<forall>m>0. abs_tree (Nd a v l r) (map ?s [0..<m]) = None" by blast
    show ?thesis
    proof (cases "v = NGX_RADIX_NO_VALUE")
      case True
      then have "\<forall>m. abs_tree (Nd a v l r) (map ?s [0..<m]) = None" using pos Z by (metis gr0I val_def)
      then show ?thesis using none(2) True unfolding longest_def by simp
    next
      case False
      then show ?thesis using none(2) pos Z unfolding longest_def val_def by (intro disjI1 bexI [of _ 0]) auto
    qed
  qed
qed

lemma find_loop_ok:
  "tree_at h par t \<Longrightarrow> \<exists>w. radix_find dir step h c v (ptr t) = Some w \<and> longest (abs_tree t) (reads dir step c) UNIV v w"
proof (induction t arbitrary: par c v)
  case Tip
  then show ?case by (simp add: radix_find.simps longest_def)
next
  case (Nd a x l r)
  let ?v = "if x \<noteq> NGX_RADIX_NO_VALUE then x else v" and ?u = "if dir c then r else l"
  have "radix_find dir step h c v (ptr (Nd a x l r)) = radix_find dir step h (step c) ?v (ptr ?u)"
    using Nd.prems by (simp add: radix_find.simps [of dir step h c] rn_child_def)
  moreover have "\<exists>w. radix_find dir step h (step c) ?v (ptr ?u) = Some w \<and> longest (abs_tree ?u) (reads dir step (step c)) UNIV ?v w"
    using Nd.IH Nd.prems by (cases "dir c") auto
  ultimately show ?case using longest_child by metis
qed

lemma find_ok:
  assumes "radix_rep P tree M"
  shows "\<exists>w. radix_find dir step (rt_mem tree) c v (rt_root tree) = Some w \<and> longest M (reads dir step c) UNIV v w"
  using assms find_loop_ok unfolding radix_rep_def radix_inv_def by metis


section \<open>Bits of keys\<close>

lemma word_nonzero_bit: "(x :: 'a::len word) \<noteq> 0 \<longleftrightarrow> (\<exists>i. bit x i)"
  by (auto simp: bit_eq_iff dest: bit_imp_le_length)

text \<open>The prefix a key and a mask select: bits of the key up to the first zero of the mask.\<close>

definition prefix_of :: "nat \<Rightarrow> (nat \<Rightarrow> bool) \<Rightarrow> (nat \<Rightarrow> bool) \<Rightarrow> bool list" where
  "prefix_of N kb mb = map kb (takeWhile mb [0..<N])"

lemma length_prefix_of: "length (prefix_of N kb mb) \<le> N"
  using length_takeWhile_le [of mb "[0..<N]"] by (simp add: prefix_of_def)

lemma prefix_of_bits: "prefix_of N kb mb = map kb [0..<length (prefix_of N kb mb)]"
proof -
  have "takeWhile mb [0..<N] = take (length (takeWhile mb [0..<N])) [0..<N]" by (rule takeWhile_eq_take)
  also have "\<dots> = [0..<length (takeWhile mb [0..<N])]"
    using length_takeWhile_le [of mb "[0..<N]"] by (simp add: take_upt)
  finally show ?thesis unfolding prefix_of_def by (metis length_map)
qed

lemma cpath_bits:
  assumes "\<And>n. n \<le> N \<Longrightarrow> cont ((step ^^ n) c) \<longleftrightarrow> n < N \<and> mb n" "\<And>n. n < N \<Longrightarrow> dir ((step ^^ n) c) = kb n"
  shows "cpath cont dir step c (prefix_of N kb mb)"
proof -
  have "cpath cont dir step ((step ^^ n) c) (map kb (takeWhile mb [n..<N]))" if "n \<le> N" for n
    using that
  proof (induction "N - n" arbitrary: n)
    case (Suc d)
    then have n: "n < N" "d = N - Suc n" "Suc n \<le> N" by auto
    have "cpath cont dir step ((step ^^ Suc n) c) (map kb (takeWhile mb [Suc n..<N]))" using Suc.hyps(1) n by blast
    then show ?case using assms n by (simp add: upt_rec [of n N])
  qed (use assms in simp)
  then show ?thesis using le0 [of N] unfolding prefix_of_def by force
qed

definition kbit32 :: "u32 \<Rightarrow> nat \<Rightarrow> bool" where
  "kbit32 key n = bit key (31 - n)"

definition kbit128 :: "(nat \<Rightarrow> u8) \<Rightarrow> nat \<Rightarrow> bool" where
  "kbit128 key n = bit (key (n div 8)) (7 - n mod 8)"

definition prefix32 :: "u32 \<Rightarrow> u32 \<Rightarrow> bool list" where
  "prefix32 key msk = prefix_of 32 (kbit32 key) (kbit32 msk)"

definition prefix128 :: "(nat \<Rightarrow> u8) \<Rightarrow> (nat \<Rightarrow> u8) \<Rightarrow> bool list" where
  "prefix128 key msk = prefix_of 128 (kbit128 key) (kbit128 msk)"

lemma step32_pow: "(step32 ^^ n) c = drop_bit n c"
  by (induction n) (simp_all add: step32_def)

lemma bit_at32: "bit (drop_bit n (0x80000000 :: u32)) i \<longleftrightarrow> n + i = 31"
proof -
  have e: "(0x80000000 :: u32) = 2 ^ 31" by simp
  show ?thesis unfolding e bit_drop_bit_eq comp_def bit_exp_iff by (auto simp: possible_bit_word)
qed

lemma test32: "key AND drop_bit n 0x80000000 \<noteq> 0 \<longleftrightarrow> n < 32 \<and> kbit32 key n"
proof -
  have "(\<exists>i. bit key i \<and> n + i = 31) \<longleftrightarrow> n < 32 \<and> bit key (31 - n)"
  proof
    assume "\<exists>i. bit key i \<and> n + i = 31"
    then obtain i where "bit key i" "n + i = 31" by blast
    moreover from this have "i = 31 - n" by simp
    ultimately show "n < 32 \<and> bit key (31 - n)" by simp
  next
    assume "n < 32 \<and> bit key (31 - n)"
    then show "\<exists>i. bit key i \<and> n + i = 31" by (intro exI [of _ "31 - n"]) simp
  qed
  then show ?thesis by (simp add: word_nonzero_bit bit_and_iff bit_at32 kbit32_def)
qed

lemma cpath32: "cpath (more32 msk) (dir32 key) step32 0x80000000 (prefix32 key msk)"
  unfolding prefix32_def
proof (rule cpath_bits)
  show "more32 msk ((step32 ^^ n) 0x80000000) = (n < 32 \<and> kbit32 msk n)" for n
    unfolding more32_def step32_pow using test32 [of msk n] by (simp add: and.commute)
  show "n < 32 \<Longrightarrow> dir32 key ((step32 ^^ n) 0x80000000) = kbit32 key n" for n
    unfolding dir32_def step32_pow using test32 [of key n] by simp
qed

lemma bit_at8: "bit (drop_bit n (0x80 :: u8)) i \<longleftrightarrow> n + i = 7"
proof -
  have e: "(0x80 :: u8) = 2 ^ 7" by simp
  show ?thesis unfolding e bit_drop_bit_eq comp_def bit_exp_iff by (auto simp: possible_bit_word)
qed

lemma test8:
  assumes "n < 8"
  shows "key AND drop_bit n (0x80 :: u8) \<noteq> 0 \<longleftrightarrow> bit key (7 - n)"
proof -
  have "n + i = 7 \<longleftrightarrow> i = 7 - n" for i using assms by auto
  then show ?thesis by (simp add: word_nonzero_bit bit_and_iff bit_at8)
qed

lemma step128_pow: "(step128 ^^ n) (0, 0x80) = (n div 8, drop_bit (n mod 8) 0x80)"
proof (induction n)
  case (Suc n)
  have zero: "drop_bit (Suc (n mod 8)) (0x80 :: u8) = 0 \<longleftrightarrow> n mod 8 = 7"
    using word_nonzero_bit [of "drop_bit (Suc (n mod 8)) (0x80 :: u8)"] bit_at8 [of "Suc (n mod 8)"]
      mod_less_divisor [of 8 n]
    by (auto intro: exI [of _ "6 - n mod 8"])
  have shift: "drop_bit 1 (drop_bit k b) = drop_bit (Suc k) b" for k and b :: u8 by simp
  have "(step128 ^^ Suc n) (0, 0x80) = step128 (n div 8, drop_bit (n mod 8) 0x80)"
    using Suc by (simp only: funpow.simps comp_def)
  also have "\<dots> = (if n mod 8 = 7 then (n div 8 + 1, 0x80) else (n div 8, drop_bit (Suc (n mod 8)) 0x80))"
    unfolding step128_def prod.case shift Let_def zero by (rule refl)
  also have "\<dots> = (Suc n div 8, drop_bit (Suc n mod 8) 0x80)" by (auto simp: div_Suc mod_Suc)
  finally show ?case .
qed simp

lemma cpath128: "cpath (more128 msk) (dir128 key) step128 (0, 0x80) (prefix128 key msk)"
  unfolding prefix128_def
proof (rule cpath_bits)
  show "more128 msk ((step128 ^^ n) (0, 0x80)) = (n < 128 \<and> kbit128 msk n)" if "n \<le> 128" for n
    using that test8 [of "n mod 8" "msk (n div 8)"] unfolding step128_pow more128_def kbit128_def
    by (auto simp: and.commute)
  show "dir128 key ((step128 ^^ n) (0, 0x80)) = kbit128 key n" for n
    using test8 [of "n mod 8" "key (n div 8)"] unfolding step128_pow dir128_def kbit128_def by auto
qed


section \<open>A table of prefixes\<close>

text \<open>
  What the users of the tree rely on, for either width: \<open>rep\<close> relates a tree to the map from prefixes to
  values, \<open>path\<close> is the prefix a key and a mask select, \<open>kbit\<close> the bits of a key, \<open>N\<close> their number.
\<close>

definition insert_law ::
  "(radix_tree \<Rightarrow> (bool list \<Rightarrow> u64 option) \<Rightarrow> bool) \<Rightarrow> radix_tree \<Rightarrow> (bool list \<Rightarrow> u64 option) \<Rightarrow> bool list \<Rightarrow> u64 \<Rightarrow> radix_rc \<times> radix_tree \<Rightarrow> bool" where
  "insert_law rep tree M path v res = (case res of
     (Radix_OK, u) \<Rightarrow> M path = None \<and> rep u (M(path := val v))
   | (Radix_BUSY, u) \<Rightarrow> M path \<noteq> None \<and> u = tree
   | (Radix_ERROR, u) \<Rightarrow> M path = None \<and> rep u M)"

definition delete_law ::
  "(radix_tree \<Rightarrow> (bool list \<Rightarrow> u64 option) \<Rightarrow> bool) \<Rightarrow> radix_tree \<Rightarrow> (bool list \<Rightarrow> u64 option) \<Rightarrow> bool list \<Rightarrow> radix_rc \<times> radix_tree \<Rightarrow> bool" where
  "delete_law rep tree M path res = (case res of
     (Radix_OK, u) \<Rightarrow> rep u (M(path := None))
   | (Radix_BUSY, u) \<Rightarrow> False
   | (Radix_ERROR, u) \<Rightarrow> M path = None \<and> u = tree)"

lemma longest_unique:
  assumes "longest M s A v w" "longest M s A v w'"
  shows "w = w'"
proof (cases "\<exists>n\<in>A. M (map s [0..<n]) \<noteq> None")
  case False
  then show ?thesis using assms by (auto simp: longest_def)
next
  case True
  have top: "\<exists>n\<in>A. M (map s [0..<n]) = Some x \<and> (\<forall>k\<in>A. n < k \<longrightarrow> M (map s [0..<k]) = None)" if "longest M s A v x" for x
    using that True by (auto simp: longest_def)
  obtain n where n: "n \<in> A" "M (map s [0..<n]) = Some w" "\<forall>k\<in>A. n < k \<longrightarrow> M (map s [0..<k]) = None"
    using top [OF assms(1)] by blast
  obtain m where m: "m \<in> A" "M (map s [0..<m]) = Some w'" "\<forall>k\<in>A. m < k \<longrightarrow> M (map s [0..<k]) = None"
    using top [OF assms(2)] by blast
  have "\<not> n < m" using n(3) m(1,2) by fastforce
  moreover have "\<not> m < n" using m(3) n(1,2) by fastforce
  ultimately show ?thesis using n(2) m(2) by simp
qed

locale prefix_table =
  fixes rep :: "radix_tree \<Rightarrow> (bool list \<Rightarrow> u64 option) \<Rightarrow> bool"
    and ins :: "radix_tree \<Rightarrow> 'k \<Rightarrow> 'k \<Rightarrow> u64 \<Rightarrow> (radix_rc \<times> radix_tree) option"
    and del :: "radix_tree \<Rightarrow> 'k \<Rightarrow> 'k \<Rightarrow> (radix_rc \<times> radix_tree) option"
    and look :: "radix_tree \<Rightarrow> 'k \<Rightarrow> u64 option"
    and path :: "'k \<Rightarrow> 'k \<Rightarrow> bool list"
    and kbit :: "'k \<Rightarrow> nat \<Rightarrow> bool"
    and N :: nat
  assumes ins_law: "rep t M \<Longrightarrow> \<exists>res. ins t k m v = Some res \<and> insert_law rep t M (path k m) v res"
    and del_law: "rep t M \<Longrightarrow> path k m \<noteq> [] \<Longrightarrow> \<exists>res. del t k m = Some res \<and> delete_law rep t M (path k m) res"
    and look_law: "rep t M \<Longrightarrow> \<exists>w. look t k = Some w \<and> longest M (kbit k) {..N} NGX_RADIX_NO_VALUE w"
    and path_bits: "path k m = map (kbit k) [0..<length (path k m)]"
    and path_len: "length (path k m) \<le> N"
begin

text \<open>A value just inserted is what a key with that prefix finds, unless it has a longer one.\<close>

lemma find_inserted:
  assumes rep: "rep t M" and ins: "ins t k m v = Some (Radix_OK, u)" and v: "v \<noteq> NGX_RADIX_NO_VALUE"
    and key: "map (kbit k') [0..<length (path k m)] = path k m"
    and no: "\<forall>n\<in>{..N}. length (path k m) < n \<longrightarrow> M (map (kbit k') [0..<n]) = None"
  shows "look u k' = Some v"
proof -
  let ?M = "M(path k m := Some v)" and ?n = "length (path k m)"
  have "rep u ?M" using ins_law [OF rep, of k m v] ins v by (auto simp: insert_law_def val_def)
  then obtain w where w: "look u k' = Some w" "longest ?M (kbit k') {..N} NGX_RADIX_NO_VALUE w"
    using look_law by blast
  have ne: "map (kbit k') [0..<n] \<noteq> path k m" if "?n < n" for n
  proof
    assume "map (kbit k') [0..<n] = path k m"
    then have "n = ?n" by (metis diff_zero length_map length_upt)
    then show False using that by simp
  qed
  have "longest ?M (kbit k') {..N} NGX_RADIX_NO_VALUE v"
    unfolding longest_def using key no ne path_len [of k m]
    by (intro disjI1 bexI [of _ ?n] conjI ballI impI) auto
  then show ?thesis using w longest_unique by metis
qed

end

lemma longest_bits:
  assumes "longest M s UNIV v w" "\<And>p. M p \<noteq> None \<Longrightarrow> length p \<le> N" "\<And>n. n < N \<Longrightarrow> s n = kb n"
  shows "longest M kb {..N} v w"
proof -
  have eq: "map s [0..<n] = map kb [0..<n]" if "n \<le> N" for n using that assms(3) by auto
  have len: "n \<le> N" if "M (map s [0..<n]) = Some x" for n x using assms(2) [of "map s [0..<n]"] that by simp
  show ?thesis using assms(1) eq len unfolding longest_def by (metis UNIV_I atMost_iff)
qed

text \<open>The trees of the two widths.\<close>

definition rep32 :: "nat \<Rightarrow> radix_tree \<Rightarrow> (bool list \<Rightarrow> u64 option) \<Rightarrow> bool" where
  "rep32 P tree M \<longleftrightarrow> radix_rep P tree M \<and> (\<forall>p. M p \<noteq> None \<longrightarrow> length p \<le> 32)"

definition rep128 :: "nat \<Rightarrow> radix_tree \<Rightarrow> (bool list \<Rightarrow> u64 option) \<Rightarrow> bool" where
  "rep128 P tree M \<longleftrightarrow> radix_rep P tree M \<and> (\<forall>p. M p \<noteq> None \<longrightarrow> length p \<le> 128)"

lemma insert_law_bounded:
  assumes "insert_post P t M p v res" "\<forall>p. M p \<noteq> None \<longrightarrow> length p \<le> N" "length p \<le> N"
  shows "insert_law (\<lambda>u M. radix_rep P u M \<and> (\<forall>p. M p \<noteq> None \<longrightarrow> length p \<le> N)) t M p v res"
  using assms unfolding insert_post_def insert_law_def by (cases res; cases "fst res") auto

lemma delete_law_bounded:
  assumes "delete_post P t M p res" "\<forall>p. M p \<noteq> None \<longrightarrow> length p \<le> N"
  shows "delete_law (\<lambda>u M. radix_rep P u M \<and> (\<forall>p. M p \<noteq> None \<longrightarrow> length p \<le> N)) t M p res"
  using assms unfolding delete_post_def delete_law_def by (cases res; cases "fst res") auto

interpretation t32: prefix_table "rep32 P" "ngx_radix32tree_insert P" ngx_radix32tree_delete ngx_radix32tree_find prefix32 kbit32 32
proof
  fix t M k m v
  assume r: "rep32 P t M"
  then have rep: "radix_rep P t M" and len: "\<forall>p. M p \<noteq> None \<longrightarrow> length p \<le> 32" by (simp_all add: rep32_def)
  show "\<exists>res. ngx_radix32tree_insert P t k m v = Some res \<and> insert_law (rep32 P) t M (prefix32 k m) v res"
    using insert_ok [OF rep cpath32 [of m k], of v] insert_law_bounded [OF _ len length_prefix_of]
    unfolding ngx_radix32tree_insert_def rep32_def prefix32_def by blast
  show "\<exists>w. ngx_radix32tree_find t k = Some w \<and> longest M (kbit32 k) {..32} NGX_RADIX_NO_VALUE w"
  proof -
    obtain w where "ngx_radix32tree_find t k = Some w" "longest M (reads (dir32 k) step32 0x80000000) UNIV NGX_RADIX_NO_VALUE w"
      using find_ok [OF rep, of "dir32 k" step32 "0x80000000" NGX_RADIX_NO_VALUE] unfolding ngx_radix32tree_find_def by blast
    moreover have "n < 32 \<Longrightarrow> reads (dir32 k) step32 0x80000000 n = kbit32 k n" for n
      using test32 [of k n] by (simp add: reads_def step32_pow dir32_def)
    ultimately show ?thesis using longest_bits len by blast
  qed
  assume "prefix32 k m \<noteq> []"
  then show "\<exists>res. ngx_radix32tree_delete t k m = Some res \<and> delete_law (rep32 P) t M (prefix32 k m) res"
    using delete_ok [OF rep cpath32 [of m k]] delete_law_bounded [OF _ len]
    unfolding ngx_radix32tree_delete_def rep32_def by blast
next
  fix k m
  show "prefix32 k m = map (kbit32 k) [0..<length (prefix32 k m)]" unfolding prefix32_def by (rule prefix_of_bits)
  show "length (prefix32 k m) \<le> 32" unfolding prefix32_def by (rule length_prefix_of)
qed

interpretation t128: prefix_table "rep128 P" "ngx_radix128tree_insert P" ngx_radix128tree_delete ngx_radix128tree_find prefix128 kbit128 128
proof
  fix t M k m v
  assume r: "rep128 P t M"
  then have rep: "radix_rep P t M" and len: "\<forall>p. M p \<noteq> None \<longrightarrow> length p \<le> 128" by (simp_all add: rep128_def)
  show "\<exists>res. ngx_radix128tree_insert P t k m v = Some res \<and> insert_law (rep128 P) t M (prefix128 k m) v res"
    using insert_ok [OF rep cpath128 [of m k], of v] insert_law_bounded [OF _ len length_prefix_of]
    unfolding ngx_radix128tree_insert_def rep128_def prefix128_def by blast
  show "\<exists>w. ngx_radix128tree_find t k = Some w \<and> longest M (kbit128 k) {..128} NGX_RADIX_NO_VALUE w"
  proof -
    obtain w where "ngx_radix128tree_find t k = Some w" "longest M (reads (dir128 k) step128 (0, 0x80)) UNIV NGX_RADIX_NO_VALUE w"
      using find_ok [OF rep, of "dir128 k" step128 "(0, 0x80)" NGX_RADIX_NO_VALUE] unfolding ngx_radix128tree_find_def by blast
    moreover have "reads (dir128 k) step128 (0, 0x80) n = kbit128 k n" for n
      using test8 [of "n mod 8" "k (n div 8)"] by (simp add: reads_def step128_pow dir128_def kbit128_def)
    ultimately show ?thesis using longest_bits len by blast
  qed
  assume "prefix128 k m \<noteq> []"
  then show "\<exists>res. ngx_radix128tree_delete t k m = Some res \<and> delete_law (rep128 P) t M (prefix128 k m) res"
    using delete_ok [OF rep cpath128 [of m k]] delete_law_bounded [OF _ len]
    unfolding ngx_radix128tree_delete_def rep128_def by blast
next
  fix k m
  show "prefix128 k m = map (kbit128 k) [0..<length (prefix128 k m)]" unfolding prefix128_def by (rule prefix_of_bits)
  show "length (prefix128 k m) \<le> 128" unfolding prefix128_def by (rule length_prefix_of)
qed


section \<open>Creation\<close>

abbreviation no_routes :: "bool list \<Rightarrow> u64 option" where
  "no_routes \<equiv> \<lambda>_. None"

lemma insert_nothing:
  assumes "radix_rep P tree no_routes"
  shows "\<exists>rc u. ngx_radix32tree_insert P tree key msk NGX_RADIX_NO_VALUE = Some (rc, u) \<and> radix_rep P u no_routes"
proof -
  obtain rc u where "ngx_radix32tree_insert P tree key msk NGX_RADIX_NO_VALUE = Some (rc, u)"
    "insert_post P tree no_routes (prefix32 key msk) NGX_RADIX_NO_VALUE (rc, u)"
    using insert_ok [OF assms cpath32 [of msk key], of NGX_RADIX_NO_VALUE] unfolding ngx_radix32tree_insert_def by auto
  then show ?thesis by (cases rc) (auto simp: insert_post_def val_def fun_upd_def)
qed

text \<open>With an increment \<open>2 ^ k\<close> the keys come back to zero after \<open>2 ^ (32 - k)\<close> steps.\<close>

lemma next_key:
  assumes "k \<le> 31" "j < 2 ^ (32 - k)"
  shows "(of_nat (j * 2 ^ k) + 2 ^ k :: u32) = of_nat (Suc j * 2 ^ k)"
    "of_nat (Suc j * 2 ^ k) \<noteq> (0 :: u32) \<longleftrightarrow> Suc j < 2 ^ (32 - k)"
proof -
  show "(of_nat (j * 2 ^ k) + 2 ^ k :: u32) = of_nat (Suc j * 2 ^ k)" by (simp add: algebra_simps)
  have p: "(2::nat) ^ (32 - k) * 2 ^ k = 2 ^ 32" using assms(1) by (simp flip: power_add)
  have le: "Suc j * 2 ^ k \<le> 2 ^ 32" using mult_le_mono1 [of "Suc j" "2 ^ (32 - k)" "2 ^ k"] assms(2) p by simp
  have "of_nat (Suc j * 2 ^ k) = (0 :: u32) \<longleftrightarrow> 2 ^ 32 dvd Suc j * 2 ^ k" unfolding word_of_nat_eq_0_iff by simp
  also have "\<dots> \<longleftrightarrow> Suc j * 2 ^ k = 2 ^ 32" using le dvd_imp_le [of "2 ^ 32" "Suc j * 2 ^ k"] by auto
  also have "\<dots> \<longleftrightarrow> Suc j = 2 ^ (32 - k)" unfolding p [symmetric] mult_cancel2 by simp
  finally show "of_nat (Suc j * 2 ^ k) \<noteq> (0 :: u32) \<longleftrightarrow> Suc j < 2 ^ (32 - k)" using assms(2) by auto
qed

lemma prealloc_keys_ok:
  assumes "k \<le> 31" "j < 2 ^ (32 - k)" "radix_rep P tree no_routes"
  shows "\<exists>res. prealloc_keys P msk (2 ^ k) (of_nat (j * 2 ^ k)) tree = Some res \<and>
    (\<forall>u. res = Some u \<longrightarrow> radix_rep P u no_routes)"
  using assms(2,3)
proof (induction "2 ^ (32 - k) - j" arbitrary: j tree)
  case (Suc d)
  obtain rc u where ins: "ngx_radix32tree_insert P tree (of_nat (j * 2 ^ k)) msk NGX_RADIX_NO_VALUE = Some (rc, u)"
    and rep: "radix_rep P u no_routes"
    using insert_nothing [OF Suc.prems(2)] by blast
  note nk = next_key [OF assms(1) Suc.prems(1)]
  have eq: "prealloc_keys P msk (2 ^ k) (of_nat (j * 2 ^ k)) tree =
      (if rc \<noteq> Radix_OK then Some None
       else if Suc j < 2 ^ (32 - k) then prealloc_keys P msk (2 ^ k) (of_nat (Suc j * 2 ^ k)) u else Some (Some u))"
    unfolding prealloc_keys.simps [of P msk "2 ^ k" "of_nat (j * 2 ^ k)"] ins Option.bind.simps prod.case Let_def nk
    by (rule refl)
  show ?case
  proof (cases "rc = Radix_OK \<and> Suc j < 2 ^ (32 - k)")
    case True
    have "d = 2 ^ (32 - k) - Suc j" using Suc.hyps(2) by simp
    then show ?thesis using Suc.hyps(1) [of "Suc j" u] True rep unfolding eq by auto
  next
    case False
    then show ?thesis using rep unfolding eq by auto
  qed
qed simp

lemma prealloc_levels_ok:
  assumes "i + n \<le> 32" "radix_rep P tree no_routes"
  shows "\<exists>res. prealloc_levels P n msk (drop_bit i 0x80000000) tree = Some res \<and>
    (\<forall>u. res = Some u \<longrightarrow> radix_rep P u no_routes)"
  using assms
proof (induction n arbitrary: i msk tree)
  case (Suc n)
  let ?m = "drop_bit 1 msk OR 0x80000000"
  have inc: "drop_bit i (0x80000000 :: u32) = 2 ^ (31 - i)"
    using Suc.prems(1) by (intro bit_word_eqI) (auto simp: bit_at32 bit_exp_iff possible_bit_word simp del: bit_drop_bit_eq)
  obtain res where res: "prealloc_keys P ?m (drop_bit i 0x80000000) 0 tree = Some res" "\<forall>u. res = Some u \<longrightarrow> radix_rep P u no_routes"
    using prealloc_keys_ok [of "31 - i" 0 P tree ?m] Suc.prems(2) by (auto simp: inc)
  show ?case
  proof (cases res)
    case None
    then show ?thesis using res(1) by (simp add: Let_def)
  next
    case (Some u)
    have "drop_bit 1 (drop_bit i (0x80000000 :: u32)) = drop_bit (Suc i) 0x80000000" by simp
    then have "prealloc_levels P (Suc n) msk (drop_bit i 0x80000000) tree = prealloc_levels P n ?m (drop_bit (Suc i) 0x80000000) u"
      using res(1) Some by (simp only: prealloc_levels.simps Let_def Option.bind.simps option.case)
    then show ?thesis using Suc.IH [of "Suc i" u ?m] Suc.prems(1) res(2) Some by simp
  qed
qed simp

lemma create_ok:
  assumes "node_bytes \<le> P" "pages_ok P pages {}" "-1 \<le> pre" "pre \<le> 32"
  shows "\<exists>res. ngx_radix_tree_create P mem pages pre = Some res \<and> (\<forall>u. res = Some u \<longrightarrow> radix_rep P u no_routes)"
proof -
  define t0 where "t0 = \<lparr>rt_mem = mem, rt_root = None, rt_free = None, rt_start = 0, rt_size = 0, rt_pages = pages\<rparr>"
  have "room P t0 ({} \<union> set [])" using assms(1,2) by (simp add: room_def t0_def avail_def span_def)
  then have al: "alloc_result P t0 {} [] (ngx_radix_alloc P t0)" by (rule alloc_ok) (simp_all add: t0_def)
  obtain p u where pu: "ngx_radix_alloc P t0 = (p, u)" by fastforce
  show ?thesis
  proof (cases p)
    case None
    then show ?thesis using pu by (simp add: ngx_radix_tree_create_def t0_def [symmetric] Let_def)
  next
    case (Some a)
    let ?w = "rt_update a (\<lambda>_. rn_fresh None) (u\<lparr>rt_root := Some a\<rparr>)"
    have r: "room P u {a}" "rt_free u = None" using al pu Some by (auto simp: alloc_result_def)
    have "radix_inv P ?w (Nd a NGX_RADIX_NO_VALUE Tip Tip) []"
      using r room_cong [OF r(1), of "u\<lparr>rt_root := Some a\<rparr>"] by (simp add: radix_inv_def rn_fresh_def)
    moreover have "abs_tree (Nd a NGX_RADIX_NO_VALUE Tip Tip) = no_routes"
      unfolding abs_new_leaf by (rule ext) simp
    ultimately have rep: "radix_rep P ?w no_routes" unfolding radix_rep_def by blast
    have n: "0 + nat (prealloc_count P pre) \<le> 32" using assms(4) by (auto simp: prealloc_count_def)
    have "ngx_radix_tree_create P mem pages pre = prealloc_levels P (nat (prealloc_count P pre)) 0 (drop_bit 0 0x80000000) ?w"
      using pu Some assms(3) by (simp add: ngx_radix_tree_create_def t0_def [symmetric] Let_def)
    then show ?thesis using prealloc_levels_ok [OF n rep] by simp
  qed
qed


text \<open>
  C18. The radix trees are tables of prefixes with look-up by the longest match, for 32-bit and for 128-bit keys. A tree in memory
  (nodes with parent pointers, none overlapping another, a list of freed nodes, pages handed out by the pool) stands for a map from bit strings to
  values. Insertion returns, and adds the value exactly when the prefix had none; when it finds one it
  reports that and changes nothing; when memory runs out the map is unchanged. Deletion returns, removes at most
  the given prefix, and fails only when there was no value; the prefix must not be empty. Look-up
  returns the value at the longest prefix of the key that has one, so a value just inserted is found by every key under its
  prefix that has no longer entry. Creation returns an empty tree for any preallocation up to 32 levels.
\<close>

theorem radix_tree_correct:
  assumes "rep32 P t M" "rep128 P t6 M6"
  shows "(\<forall>key msk v. \<exists>res. ngx_radix32tree_insert P t key msk v = Some res \<and> insert_law (rep32 P) t M (prefix32 key msk) v res) \<and>
    (\<forall>key msk. prefix32 key msk \<noteq> [] \<longrightarrow>
      (\<exists>res. ngx_radix32tree_delete t key msk = Some res \<and> delete_law (rep32 P) t M (prefix32 key msk) res)) \<and>
    (\<forall>key. \<exists>w. ngx_radix32tree_find t key = Some w \<and> longest M (kbit32 key) {..32} NGX_RADIX_NO_VALUE w) \<and>
    (\<forall>key msk key' v u. ngx_radix32tree_insert P t key msk v = Some (Radix_OK, u) \<and> v \<noteq> NGX_RADIX_NO_VALUE \<and>
      map (kbit32 key') [0..<length (prefix32 key msk)] = prefix32 key msk \<and>
      (\<forall>n\<in>{..32}. length (prefix32 key msk) < n \<longrightarrow> M (map (kbit32 key') [0..<n]) = None) \<longrightarrow>
      ngx_radix32tree_find u key' = Some v) \<and>
    (\<forall>key msk v. \<exists>res. ngx_radix128tree_insert P t6 key msk v = Some res \<and> insert_law (rep128 P) t6 M6 (prefix128 key msk) v res) \<and>
    (\<forall>key msk. prefix128 key msk \<noteq> [] \<longrightarrow>
      (\<exists>res. ngx_radix128tree_delete t6 key msk = Some res \<and> delete_law (rep128 P) t6 M6 (prefix128 key msk) res)) \<and>
    (\<forall>key. \<exists>w. ngx_radix128tree_find t6 key = Some w \<and> longest M6 (kbit128 key) {..128} NGX_RADIX_NO_VALUE w) \<and>
    (\<forall>mem pages pre. node_bytes \<le> P \<and> pages_ok P pages {} \<and> -1 \<le> pre \<and> pre \<le> 32 \<longrightarrow>
      (\<exists>res. ngx_radix_tree_create P mem pages pre = Some res \<and>
        (\<forall>u. res = Some u \<longrightarrow> rep32 P u no_routes \<and> rep128 P u no_routes)))"
proof (intro conjI allI impI, goal_cases)
  case (4 key msk key' v u)
  then show ?case using t32.find_inserted [OF assms(1)] by blast
next
  case (8 mem pages pre)
  then show ?case using create_ok [of P pages pre mem] unfolding rep32_def rep128_def by auto
qed (rule t32.ins_law [OF assms(1)] t32.del_law [OF assms(1)] t32.look_law [OF assms(1)]
      t128.ins_law [OF assms(2)] t128.del_law [OF assms(2)] t128.look_law [OF assms(2)]; assumption)+

lemma created_tree:
  "\<exists>u. ngx_radix_tree_create 4096 (\<lambda>_. rn_fresh None) [Some 4096] 0 = Some (Some u) \<and>
    rep32 4096 u no_routes \<and> rep128 4096 u no_routes"
proof -
  have "\<exists>u. ngx_radix_tree_create 4096 (\<lambda>_. rn_fresh None) [Some 4096] 0 = Some (Some u)"
    by (simp add: ngx_radix_tree_create_def ngx_radix_alloc_def prealloc_count_def)
  then show ?thesis using create_ok [of 4096 "[Some 4096]" 0 "\<lambda>_. rn_fresh None"]
    by (auto simp: rep32_def rep128_def)
qed

theorem radix_tree_correct_witness:
  "\<exists>u. ngx_radix_tree_create 4096 (\<lambda>_. rn_fresh None) [Some 4096] 0 = Some (Some u) \<and>
    ngx_radix32tree_find u 0x0A000001 = Some NGX_RADIX_NO_VALUE \<and>
    ngx_radix128tree_find u (\<lambda>i. of_nat i) = Some NGX_RADIX_NO_VALUE \<and>
    (\<exists>res. ngx_radix32tree_insert 4096 u 0x0A000000 0xFF000000 7 = Some res \<and>
      insert_law (rep32 4096) u no_routes (prefix32 0x0A000000 0xFF000000) 7 res)"
proof -
  obtain u where u: "ngx_radix_tree_create 4096 (\<lambda>_. rn_fresh None) [Some 4096] 0 = Some (Some u)"
    "rep32 4096 u no_routes" "rep128 4096 u no_routes"
    using created_tree by blast
  note ok = radix_tree_correct [OF u(2,3)]
  have "ngx_radix32tree_find u 0x0A000001 = Some NGX_RADIX_NO_VALUE"
    using ok unfolding longest_def by simp
  moreover have "ngx_radix128tree_find u (\<lambda>i. of_nat i) = Some NGX_RADIX_NO_VALUE"
    using ok unfolding longest_def by simp
  moreover have "\<exists>res. ngx_radix32tree_insert 4096 u 0x0A000000 0xFF000000 7 = Some res \<and>
      insert_law (rep32 4096) u no_routes (prefix32 0x0A000000 0xFF000000) 7 res"
    using conjunct1 [OF ok] by blast
  ultimately show ?thesis using u(1) by blast
qed

text \<open>
  Where the code does not behave like a table. Deleting the empty prefix from a tree without other entries follows
  the null parent pointer of the root; and deleting a prefix that was only preallocated, or left over by
  an insertion that ran out of memory, succeeds although it has no value, while for an inner
  node without value it fails.
\<close>

lemma radix_delete_root_undefined:
  assumes "ngx_radix_tree_create P mem pages 0 = Some (Some u)"
  shows "ngx_radix32tree_delete u key 0 = None"
  using assms
  by (auto simp: ngx_radix_tree_create_def prealloc_count_def Let_def ngx_radix32tree_delete_def radix_delete_def
      radix_seek.simps more32_def radix_prune.simps rn_fresh_def split: prod.splits option.splits)

lemma radix_delete_valueless:
  "map_option fst (Option.bind (Option.bind (ngx_radix_tree_create 96 (\<lambda>_. rn_fresh None) [Some 32] 1) id)
     (\<lambda>u. ngx_radix32tree_delete u 0 0x80000000)) = Some Radix_OK"
  by code_simp

end
