(* ===== verification/Ngx_Rbtree.thy ===== *)
theory Ngx_Rbtree
  imports Prelude "HOL-Library.Monad_Syntax"
begin

text \<open>
  nginx, \<^verbatim>\<open>src/core/ngx_rbtree.c\<close> and \<^verbatim>\<open>src/core/ngx_rbtree.h\<close>: the intrusive red-black tree that holds the timers, the zones of
  the limiting modules and the caches. Nodes are linked by left, right and parent pointers, and a black sentinel
  stands for every missing child. The tree is shown to implement a sorted list, and to stay a red-black tree.
\<close>

section \<open>The code\<close>

text \<open>
  Memory maps the addresses of nodes to nodes; following a pointer that leads nowhere is \<^const>\<open>None\<close>, as is a loop
  that does not end. Address \<open>0\<close> is the null pointer.
\<close>

record rb_node =
  rb_key :: u64
  rb_left :: nat
  rb_right :: nat
  rb_parent :: nat
  rb_red :: bool

type_synonym rb_mem = "nat \<Rightarrow> rb_node option"

text \<open>\<^verbatim>\<open>ngx_rbtree_t\<close>: the root and the memory change, the sentinel is the argument \<open>s\<close> of every operation.\<close>

type_synonym rb_state = "rb_mem \<times> nat"

definition wr :: "nat \<Rightarrow> (rb_node \<Rightarrow> rb_node) \<Rightarrow> rb_mem \<Rightarrow> rb_mem option" where
  "wr a f m = (case m a of None \<Rightarrow> None | Some n \<Rightarrow> Some (m(a \<mapsto> f n)))"

text \<open>
  The code has a left and a right version of each step that are mirror images. Here the side is an
  argument, \<^const>\<open>False\<close> for left and \<^const>\<open>True\<close> for right.
\<close>

definition rb_child :: "bool \<Rightarrow> rb_node \<Rightarrow> nat" where
  "rb_child d n = (if d then rb_right n else rb_left n)"

definition set_child :: "bool \<Rightarrow> nat \<Rightarrow> rb_node \<Rightarrow> rb_node" where
  "set_child d p n = (if d then n\<lparr>rb_right := p\<rparr> else n\<lparr>rb_left := p\<rparr>)"

definition set_parent :: "nat \<Rightarrow> rb_node \<Rightarrow> rb_node" where
  "set_parent p n = n\<lparr>rb_parent := p\<rparr>"

definition ngx_rbt_red :: "nat \<Rightarrow> rb_mem \<Rightarrow> rb_mem option" where
  "ngx_rbt_red a m = wr a (\<lambda>n. n\<lparr>rb_red := True\<rparr>) m"

definition ngx_rbt_black :: "nat \<Rightarrow> rb_mem \<Rightarrow> rb_mem option" where
  "ngx_rbt_black a m = wr a (\<lambda>n. n\<lparr>rb_red := False\<rparr>) m"

definition ngx_rbt_is_red :: "nat \<Rightarrow> rb_mem \<Rightarrow> bool option" where
  "ngx_rbt_is_red a m = map_option rb_red (m a)"

definition ngx_rbt_copy_color :: "nat \<Rightarrow> nat \<Rightarrow> rb_mem \<Rightarrow> rb_mem option" where
  "ngx_rbt_copy_color a b m = do { n \<leftarrow> m b; wr a (\<lambda>x. x\<lparr>rb_red := rb_red n\<rparr>) m }"

definition rb_rotate :: "bool \<Rightarrow> nat \<Rightarrow> nat \<Rightarrow> rb_state \<Rightarrow> rb_state option" where
  "rb_rotate d s node st = (case st of (m, root) \<Rightarrow>
     do {
       n \<leftarrow> m node;
       let temp = rb_child (\<not> d) n;
       t \<leftarrow> m temp;
       m \<leftarrow> wr node (set_child (\<not> d) (rb_child d t)) m;
       m \<leftarrow> (if rb_child d t \<noteq> s then wr (rb_child d t) (set_parent node) m else Some m);
       m \<leftarrow> wr temp (set_parent (rb_parent n)) m;
       (m, root) \<leftarrow>
         (if node = root then Some (m, temp)
          else do {
            p \<leftarrow> m (rb_parent n);
            m \<leftarrow> wr (rb_parent n) (set_child (if node = rb_child d p then d else \<not> d) temp) m;
            Some (m, root)
          });
       m \<leftarrow> wr temp (set_child d node) m;
       m \<leftarrow> wr node (set_parent temp) m;
       Some (m, root)
     })"

definition ngx_rbtree_left_rotate :: "nat \<Rightarrow> nat \<Rightarrow> rb_state \<Rightarrow> rb_state option" where
  "ngx_rbtree_left_rotate = rb_rotate False"

definition ngx_rbtree_right_rotate :: "nat \<Rightarrow> nat \<Rightarrow> rb_state \<Rightarrow> rb_state option" where
  "ngx_rbtree_right_rotate = rb_rotate True"

definition rotate_of :: "bool \<Rightarrow> nat \<Rightarrow> nat \<Rightarrow> rb_state \<Rightarrow> rb_state option" where
  "rotate_of d = (if d then ngx_rbtree_right_rotate else ngx_rbtree_left_rotate)"

text \<open>The insertion functions: \<open>lt\<close> is the comparison of the keys.\<close>

partial_function (option) insert_walk ::
  "(u64 \<Rightarrow> u64 \<Rightarrow> bool) \<Rightarrow> nat \<Rightarrow> rb_mem \<Rightarrow> u64 \<Rightarrow> nat \<Rightarrow> (nat \<times> bool) option" where
  "insert_walk lt s m k temp =
     do {
       t \<leftarrow> m temp;
       let d = (\<not> lt k (rb_key t));
       if rb_child d t = s then Some (temp, d) else insert_walk lt s m k (rb_child d t)
     }"

definition rb_insert_with :: "(u64 \<Rightarrow> u64 \<Rightarrow> bool) \<Rightarrow> nat \<Rightarrow> nat \<Rightarrow> nat \<Rightarrow> rb_mem \<Rightarrow> rb_mem option" where
  "rb_insert_with lt temp node s m =
     do {
       n \<leftarrow> m node;
       (temp, d) \<leftarrow> insert_walk lt s m (rb_key n) temp;
       m \<leftarrow> wr temp (set_child d node) m;
       wr node (\<lambda>n. n\<lparr>rb_parent := temp, rb_left := s, rb_right := s, rb_red := True\<rparr>) m
     }"

definition ngx_rbtree_insert_value :: "nat \<Rightarrow> nat \<Rightarrow> nat \<Rightarrow> rb_mem \<Rightarrow> rb_mem option" where
  "ngx_rbtree_insert_value = rb_insert_with (<)"

definition timer_less :: "u64 \<Rightarrow> u64 \<Rightarrow> bool" where
  "timer_less a b \<longleftrightarrow> sint (a - b) < 0"

definition ngx_rbtree_insert_timer_value :: "nat \<Rightarrow> nat \<Rightarrow> nat \<Rightarrow> rb_mem \<Rightarrow> rb_mem option" where
  "ngx_rbtree_insert_timer_value = rb_insert_with timer_less"

text \<open>One side of the loop that restores the colours after an insertion; \<open>p\<close> and \<open>g\<close> are parent and grandparent.\<close>

definition insert_turn ::
  "bool \<Rightarrow> nat \<Rightarrow> nat \<Rightarrow> rb_state \<Rightarrow> (rb_state \<times> nat) option" where
  "insert_turn d s node st = (case st of (m, root) \<Rightarrow>
     do {
       n \<leftarrow> m node;
       p \<leftarrow> m (rb_parent n);
       ((m, root), node) \<leftarrow>
         (if node = rb_child (\<not> d) p then do {
            st \<leftarrow> rotate_of d s (rb_parent n) (m, root);
            Some (st, rb_parent n)
          } else Some ((m, root), node));
       n \<leftarrow> m node;
       m \<leftarrow> ngx_rbt_black (rb_parent n) m;
       p \<leftarrow> m (rb_parent n);
       m \<leftarrow> ngx_rbt_red (rb_parent p) m;
       st \<leftarrow> rotate_of (\<not> d) s (rb_parent p) (m, root);
       Some (st, node)
     })"

partial_function (option) insert_fix :: "nat \<Rightarrow> nat \<Rightarrow> rb_state \<Rightarrow> rb_state option" where
  "insert_fix s node st = (case st of (m, root) \<Rightarrow>
     if node = root then Some st
     else do {
       n \<leftarrow> m node;
       red \<leftarrow> ngx_rbt_is_red (rb_parent n) m;
       if \<not> red then Some st
       else do {
         p \<leftarrow> m (rb_parent n);
         g \<leftarrow> m (rb_parent p);
         let d = (rb_parent n \<noteq> rb_left g);
         let temp = rb_child (\<not> d) g;
         red \<leftarrow> ngx_rbt_is_red temp m;
         if red then do {
           m \<leftarrow> ngx_rbt_black (rb_parent n) m;
           m \<leftarrow> ngx_rbt_black temp m;
           m \<leftarrow> ngx_rbt_red (rb_parent p) m;
           insert_fix s (rb_parent p) (m, root)
         } else do {
           (st, node) \<leftarrow> insert_turn d s node (m, root);
           insert_fix s node st
         }
       }
     })"

definition ngx_rbtree_insert ::
  "(nat \<Rightarrow> nat \<Rightarrow> nat \<Rightarrow> rb_mem \<Rightarrow> rb_mem option) \<Rightarrow> nat \<Rightarrow> nat \<Rightarrow> rb_state \<Rightarrow> rb_state option" where
  "ngx_rbtree_insert ins s node st = (case st of (m, root) \<Rightarrow>
     if root = s then do {
       m \<leftarrow> wr node (\<lambda>n. n\<lparr>rb_parent := 0, rb_left := s, rb_right := s, rb_red := False\<rparr>) m;
       Some (m, node)
     } else do {
       m \<leftarrow> ins root node s m;
       (m, root) \<leftarrow> insert_fix s node (m, root);
       m \<leftarrow> ngx_rbt_black root m;
       Some (m, root)
     })"

partial_function (option) ngx_rbtree_min :: "nat \<Rightarrow> rb_mem \<Rightarrow> nat \<Rightarrow> nat option" where
  "ngx_rbtree_min s m node =
     do { n \<leftarrow> m node; if rb_left n = s then Some node else ngx_rbtree_min s m (rb_left n) }"

text \<open>
  One pass of the loop after a deletion, on one side: first a red sibling is turned into the parent of the parent, then the
  sibling, which is black now, gives up a black node. The next node to look at comes back with the state.
\<close>

definition delete_sibling :: "bool \<Rightarrow> nat \<Rightarrow> nat \<Rightarrow> rb_state \<Rightarrow> (rb_state \<times> nat) option" where
  "delete_sibling d s parent st = (case st of (m, root) \<Rightarrow>
     do {
       p \<leftarrow> m parent;
       let w = rb_child (\<not> d) p;
       red \<leftarrow> ngx_rbt_is_red w m;
       if red then do {
         m \<leftarrow> ngx_rbt_black w m;
         m \<leftarrow> ngx_rbt_red parent m;
         (m, root) \<leftarrow> rotate_of d s parent (m, root);
         p \<leftarrow> m parent;
         Some ((m, root), rb_child (\<not> d) p)
       } else Some ((m, root), w)
     })"

definition delete_turn :: "bool \<Rightarrow> nat \<Rightarrow> nat \<Rightarrow> nat \<Rightarrow> rb_state \<Rightarrow> (nat \<times> rb_state) option" where
  "delete_turn d s parent w st = (case st of (m, root) \<Rightarrow>
     do {
       wn \<leftarrow> m w;
       lred \<leftarrow> ngx_rbt_is_red (rb_left wn) m;
       rred \<leftarrow> ngx_rbt_is_red (rb_right wn) m;
       if \<not> lred \<and> \<not> rred then do {
         m \<leftarrow> ngx_rbt_red w m;
         Some (parent, (m, root))
       } else do {
         far \<leftarrow> ngx_rbt_is_red (rb_child (\<not> d) wn) m;
         ((m, root), w) \<leftarrow>
           (if \<not> far then do {
              m \<leftarrow> ngx_rbt_black (rb_child d wn) m;
              m \<leftarrow> ngx_rbt_red w m;
              (m, root) \<leftarrow> rotate_of (\<not> d) s w (m, root);
              p \<leftarrow> m parent;
              Some ((m, root), rb_child (\<not> d) p)
            } else Some ((m, root), w));
         m \<leftarrow> ngx_rbt_copy_color w parent m;
         m \<leftarrow> ngx_rbt_black parent m;
         wn \<leftarrow> m w;
         m \<leftarrow> ngx_rbt_black (rb_child (\<not> d) wn) m;
         (m, root) \<leftarrow> rotate_of d s parent (m, root);
         Some (root, (m, root))
       }
     })"

partial_function (option) delete_fix :: "nat \<Rightarrow> nat \<Rightarrow> rb_state \<Rightarrow> (nat \<times> rb_state) option" where
  "delete_fix s temp st = (case st of (m, root) \<Rightarrow>
     if temp = root then Some (temp, st)
     else do {
       red \<leftarrow> ngx_rbt_is_red temp m;
       if red then Some (temp, st)
       else do {
         t \<leftarrow> m temp;
         p \<leftarrow> m (rb_parent t);
         let d = (temp \<noteq> rb_left p);
         (st, w) \<leftarrow> delete_sibling d s (rb_parent t) (m, root);
         (temp, st) \<leftarrow> delete_turn d s (rb_parent t) w st;
         delete_fix s temp st
       }
     })"

text \<open>Putting \<open>subst\<close> in the place of \<open>node\<close>.\<close>

definition rb_transplant :: "nat \<Rightarrow> nat \<Rightarrow> nat \<Rightarrow> rb_state \<Rightarrow> rb_state option" where
  "rb_transplant s subst node st = (case st of (m, root) \<Rightarrow>
     do {
       n \<leftarrow> m node;
       m \<leftarrow> wr subst (\<lambda>x. x\<lparr>rb_left := rb_left n, rb_right := rb_right n, rb_parent := rb_parent n\<rparr>) m;
       m \<leftarrow> ngx_rbt_copy_color subst node m;
       (m, root) \<leftarrow>
         (if node = root then Some (m, subst)
          else do {
            p \<leftarrow> m (rb_parent n);
            m \<leftarrow> wr (rb_parent n) (set_child (node \<noteq> rb_left p) subst) m;
            Some (m, root)
          });
       x \<leftarrow> m subst;
       m \<leftarrow> (if rb_left x \<noteq> s then wr (rb_left x) (set_parent subst) m else Some m);
       m \<leftarrow> (if rb_right x \<noteq> s then wr (rb_right x) (set_parent subst) m else Some m);
       Some (m, root)
     })"

definition clear_node :: "rb_node \<Rightarrow> rb_node" where
  "clear_node n = n\<lparr>rb_left := 0, rb_right := 0, rb_parent := 0, rb_key := 0\<rparr>"

definition ngx_rbtree_delete :: "nat \<Rightarrow> nat \<Rightarrow> rb_state \<Rightarrow> rb_state option" where
  "ngx_rbtree_delete s node st = (case st of (m, root) \<Rightarrow>
     do {
       n \<leftarrow> m node;
       (subst, temp) \<leftarrow>
         (if rb_left n = s then Some (node, rb_right n)
          else if rb_right n = s then Some (node, rb_left n)
          else do {
            subst \<leftarrow> ngx_rbtree_min s m (rb_right n);
            x \<leftarrow> m subst;
            Some (subst, rb_right x)
          });
       if subst = root then do {
         m \<leftarrow> ngx_rbt_black temp m;
         m \<leftarrow> wr node clear_node m;
         Some (m, temp)
       } else do {
         red \<leftarrow> ngx_rbt_is_red subst m;
         x \<leftarrow> m subst;
         p \<leftarrow> m (rb_parent x);
         m \<leftarrow> wr (rb_parent x) (set_child (subst \<noteq> rb_left p) temp) m;
         (m, root) \<leftarrow>
           (if subst = node then do {
              m \<leftarrow> wr temp (set_parent (rb_parent x)) m;
              Some (m, root)
            } else do {
              m \<leftarrow> wr temp (set_parent (if rb_parent x = node then subst else rb_parent x)) m;
              rb_transplant s subst node (m, root)
            });
         m \<leftarrow> wr node clear_node m;
         if red then Some (m, root)
         else do {
           (temp, (m, root)) \<leftarrow> delete_fix s temp (m, root);
           m \<leftarrow> ngx_rbt_black temp m;
           Some (m, root)
         }
       }
     })"

partial_function (option) next_up :: "nat \<Rightarrow> rb_mem \<Rightarrow> nat \<Rightarrow> nat option option" where
  "next_up root m node =
     do {
       n \<leftarrow> m node;
       if node = root then Some None
       else do {
         p \<leftarrow> m (rb_parent n);
         if node = rb_left p then Some (Some (rb_parent n)) else next_up root m (rb_parent n)
       }
     }"

text \<open>The outer option is an undefined access, the inner one the null pointer the function may return.\<close>

definition ngx_rbtree_next :: "nat \<Rightarrow> nat \<Rightarrow> rb_state \<Rightarrow> nat option option" where
  "ngx_rbtree_next s node st = (case st of (m, root) \<Rightarrow>
     do {
       n \<leftarrow> m node;
       if rb_right n \<noteq> s then map_option Some (ngx_rbtree_min s m (rb_right n))
       else next_up root m node
     })"

declare insert_walk.simps [code] insert_fix.simps [code] ngx_rbtree_min.simps [code] delete_fix.simps [code] next_up.simps [code]


section \<open>Trees in memory\<close>

datatype rbt = Lf | Br nat u64 bool rbt rbt

text \<open>A branch seen from a side: \<open>x\<close> is the child on side \<open>d\<close>.\<close>

definition br :: "bool \<Rightarrow> nat \<Rightarrow> u64 \<Rightarrow> bool \<Rightarrow> rbt \<Rightarrow> rbt \<Rightarrow> rbt" where
  "br d a k c x y = (if d then Br a k c y x else Br a k c x y)"

lemma br_flip: "br (\<not> d) a k c x y = br d a k c y x"
  by (simp add: br_def)

fun rb_ptr :: "nat \<Rightarrow> rbt \<Rightarrow> nat" where
  "rb_ptr s Lf = s"
| "rb_ptr s (Br a k c l r) = a"

fun rb_addrs :: "rbt \<Rightarrow> nat list" where
  "rb_addrs Lf = []"
| "rb_addrs (Br a k c l r) = a # rb_addrs l @ rb_addrs r"

fun rb_inorder :: "rbt \<Rightarrow> (nat \<times> u64) list" where
  "rb_inorder Lf = []"
| "rb_inorder (Br a k c l r) = rb_inorder l @ (a, k) # rb_inorder r"

fun is_red :: "rbt \<Rightarrow> bool" where
  "is_red Lf = False"
| "is_red (Br a k c l r) = c"

definition node_of :: "bool \<Rightarrow> u64 \<Rightarrow> bool \<Rightarrow> nat \<Rightarrow> nat \<Rightarrow> nat \<Rightarrow> rb_node" where
  "node_of d k c x y par =
     \<lparr>rb_key = k, rb_left = (if d then y else x), rb_right = (if d then x else y), rb_parent = par, rb_red = c\<rparr>"

lemma node_of_flip: "node_of (\<not> d) k c x y par = node_of d k c y x par"
  by (simp add: node_of_def)

lemma node_of_sel [simp]:
  "rb_child d (node_of d k c x y par) = x" "rb_child (\<not> d) (node_of d k c x y par) = y"
  "rb_parent (node_of d k c x y par) = par" "rb_key (node_of d k c x y par) = k" "rb_red (node_of d k c x y par) = c"
  by (simp_all add: node_of_def rb_child_def)

lemma node_of_upd [simp]:
  "set_child d p (node_of d k c x y par) = node_of d k c p y par"
  "set_child (\<not> d) p (node_of d k c x y par) = node_of d k c x p par"
  "set_parent p (node_of d k c x y par) = node_of d k c x y p"
  "(node_of d k c x y par)\<lparr>rb_red := c'\<rparr> = node_of d k c' x y par"
  by (simp_all add: node_of_def set_child_def set_parent_def)

fun rb_at :: "rb_mem \<Rightarrow> nat \<Rightarrow> nat \<Rightarrow> rbt \<Rightarrow> bool" where
  "rb_at m s par Lf = True"
| "rb_at m s par (Br a k c l r) \<longleftrightarrow>
     m a = Some (node_of False k c (rb_ptr s l) (rb_ptr s r) par) \<and> rb_at m s a l \<and> rb_at m s a r"

text \<open>A frame: address, key, colour, the side of the hole, and the subtree on the other side.\<close>

type_synonym rb_frame = "nat \<times> u64 \<times> bool \<times> bool \<times> rbt"

fun rb_plug :: "rbt \<Rightarrow> rb_frame list \<Rightarrow> rbt" where
  "rb_plug t [] = t"
| "rb_plug t ((a, k, c, d, y) # fs) = rb_plug (br d a k c t y) fs"

fun rb_up :: "nat \<Rightarrow> rb_frame list \<Rightarrow> nat" where
  "rb_up par [] = par"
| "rb_up par ((a, k, c, d, y) # fs) = a"

fun rb_ctx :: "rb_mem \<Rightarrow> nat \<Rightarrow> nat \<Rightarrow> rb_frame list \<Rightarrow> nat \<Rightarrow> bool" where
  "rb_ctx m s par [] p = True"
| "rb_ctx m s par ((a, k, c, d, y) # fs) p \<longleftrightarrow>
     m a = Some (node_of d k c p (rb_ptr s y) (rb_up par fs)) \<and> rb_at m s a y \<and> rb_ctx m s par fs a"

fun rb_ctx_addrs :: "rb_frame list \<Rightarrow> nat list" where
  "rb_ctx_addrs [] = []"
| "rb_ctx_addrs ((a, k, c, d, y) # fs) = a # rb_addrs y @ rb_ctx_addrs fs"

lemma rb_ptr_br [simp]: "rb_ptr s (br d a k c x y) = a"
  by (simp add: br_def)

lemma is_red_br [simp]: "is_red (br d a k c x y) = c"
  by (simp add: br_def)

lemma br_neq_Lf [simp]: "br d a k c x y \<noteq> Lf" "Lf \<noteq> br d a k c x y"
  by (simp_all add: br_def)

lemma rb_at_br [simp]:
  "rb_at m s par (br d a k c x y) \<longleftrightarrow>
     m a = Some (node_of d k c (rb_ptr s x) (rb_ptr s y) par) \<and> rb_at m s a x \<and> rb_at m s a y"
  by (auto simp: br_def node_of_def)

lemma set_addrs_br [simp]: "set (rb_addrs (br d a k c x y)) = insert a (set (rb_addrs x) \<union> set (rb_addrs y))"
  by (auto simp: br_def)

lemma distinct_br [simp]:
  "distinct (rb_addrs (br d a k c x y)) \<longleftrightarrow> distinct (a # rb_addrs x @ rb_addrs y)"
  by (auto simp: br_def)

lemma rb_at_plug: "rb_at m s par (rb_plug t fs) \<longleftrightarrow> rb_at m s (rb_up par fs) t \<and> rb_ctx m s par fs (rb_ptr s t)"
  by (induction t fs rule: rb_plug.induct) auto

lemma set_addrs_rb_plug: "set (rb_addrs (rb_plug t fs)) = set (rb_addrs t) \<union> set (rb_ctx_addrs fs)"
  by (induction t fs rule: rb_plug.induct) auto

lemma distinct_rb_plug: "distinct (rb_addrs (rb_plug t fs)) \<longleftrightarrow> distinct (rb_addrs t @ rb_ctx_addrs fs)"
proof (induction t fs rule: rb_plug.induct)
  case (2 t a k c d y fs)
  show ?case unfolding rb_plug.simps 2 by (auto simp: br_def)
qed simp

lemma rb_ptr_plug: "rb_ptr s t = rb_ptr s u \<or> fs \<noteq> [] \<Longrightarrow> rb_ptr s (rb_plug t fs) = rb_ptr s (rb_plug u fs)"
proof (induction fs arbitrary: t u)
  case (Cons f fs)
  obtain a k c d y where "f = (a, k, c, d, y)" by (metis prod_cases5)
  then show ?case using Cons.IH [of "br d a k c t y" "br d a k c u y"] by simp
qed simp

lemma rb_plug_neq_Lf: "t \<noteq> Lf \<Longrightarrow> rb_plug t fs \<noteq> Lf"
  by (induction t fs rule: rb_plug.induct) auto

lemma rb_ptr_mem: "t \<noteq> Lf \<Longrightarrow> rb_ptr s t \<in> set (rb_addrs t)"
  by (cases t) auto

lemma rb_ptr_plug_ctx: "fs \<noteq> [] \<Longrightarrow> rb_ptr s (rb_plug t fs) \<in> set (rb_ctx_addrs fs)"
proof (induction fs arbitrary: t)
  case (Cons f fs)
  obtain a k c d y where "f = (a, k, c, d, y)" by (metis prod_cases5)
  then show ?case using Cons.IH [of "br d a k c t y"] by (cases fs) auto
qed simp

text \<open>Writing outside a tree leaves it alone.\<close>

lemma rb_at_frame: "a \<notin> set (rb_addrs t) \<Longrightarrow> rb_at (m(a := n)) s par t = rb_at m s par t"
  by (induction t arbitrary: par) auto

lemma rb_ctx_frame: "a \<notin> set (rb_ctx_addrs fs) \<Longrightarrow> rb_ctx (m(a := n)) s par fs p = rb_ctx m s par fs p"
  by (induction m s par fs p rule: rb_ctx.induct) (auto simp: rb_at_frame)

text \<open>
  A tree with its sentinel. The parent pointer of the root is \<open>par\<close>, whatever it is: the code never follows it. \<open>sn\<close> is the
  contents of the sentinel, and \<open>B\<close> the memory around.
\<close>

definition rb_rep :: "rb_mem \<Rightarrow> nat \<Rightarrow> nat \<Rightarrow> rb_node \<Rightarrow> rb_state \<Rightarrow> rbt \<Rightarrow> bool" where
  "rb_rep B s par sn st t \<longleftrightarrow> rb_at (fst st) s par t \<and> snd st = rb_ptr s t \<and> distinct (rb_addrs t) \<and>
     s \<notin> set (rb_addrs t) \<and> fst st s = Some sn \<and> (\<forall>x. x \<notin> set (rb_addrs t) \<and> x \<noteq> s \<longrightarrow> fst st x = B x)"

lemma rep_plug:
  "rb_rep B s par sn (m, root) (rb_plug t fs) \<longleftrightarrow>
     rb_at m s (rb_up par fs) t \<and> rb_ctx m s par fs (rb_ptr s t) \<and> root = rb_ptr s (rb_plug t fs) \<and>
     distinct (rb_addrs t @ rb_ctx_addrs fs) \<and> s \<notin> set (rb_addrs t) \<and> s \<notin> set (rb_ctx_addrs fs) \<and> m s = Some sn \<and>
     (\<forall>x. x \<notin> set (rb_addrs t) \<and> x \<notin> set (rb_ctx_addrs fs) \<and> x \<noteq> s \<longrightarrow> m x = B x)"
  by (auto simp: rb_rep_def rb_at_plug set_addrs_rb_plug distinct_rb_plug)

lemma wr_Some [simp]: "m a = Some n \<Longrightarrow> wr a f m = Some (m(a \<mapsto> f n))"
  by (simp add: wr_def)

text \<open>Painting a node.\<close>

lemma rep_paint:
  assumes "rb_rep B s par sn (m, root) (rb_plug (br d a k c x y) fs)"
  shows "\<exists>m'. wr a (\<lambda>n. n\<lparr>rb_red := c'\<rparr>) m = Some m' \<and> rb_rep B s par sn (m', root) (rb_plug (br d a k c' x y) fs)"
proof -
  let ?m = "m(a \<mapsto> node_of d k c' (rb_ptr s x) (rb_ptr s y) (rb_up par fs))"
  have "wr a (\<lambda>n. n\<lparr>rb_red := c'\<rparr>) m = Some ?m"
    using assms unfolding rep_plug by (simp add: node_of_def)
  moreover have "rb_rep B s par sn (?m, root) (rb_plug (br d a k c' x y) fs)"
    using assms rb_ptr_plug [of s "br d a k c x y" "br d a k c' x y" fs]
    unfolding rep_plug by (auto simp: rb_at_frame rb_ctx_frame)
  ultimately show ?thesis by blast
qed


text \<open>Hanging a subtree below another parent, and another subtree into a hole.\<close>

fun reparent :: "nat \<Rightarrow> rbt \<Rightarrow> rb_mem \<Rightarrow> rb_mem" where
  "reparent q Lf m = m"
| "reparent q (Br a k c l r) m = m(a \<mapsto> set_parent q (the (m a)))"

fun relink :: "nat \<Rightarrow> nat \<Rightarrow> nat \<Rightarrow> rb_frame list \<Rightarrow> rb_mem \<Rightarrow> rb_mem" where
  "relink s par q [] m = m"
| "relink s par q ((a, k, c, d, y) # fs) m = m(a \<mapsto> node_of d k c q (rb_ptr s y) (rb_up par fs))"

lemma reparent_at: "rb_at m s par t \<Longrightarrow> distinct (rb_addrs t) \<Longrightarrow> rb_at (reparent q t m) s q t"
  by (cases t) (auto simp: rb_at_frame node_of_def set_parent_def)

lemma reparent_other: "x \<notin> set (rb_addrs t) \<Longrightarrow> reparent q t m x = m x"
  by (cases t) auto

lemma reparent_frame:
  "set (rb_addrs t) \<inter> set (rb_addrs u) = {} \<Longrightarrow> rb_at (reparent q u m) s par t = rb_at m s par t"
  "set (rb_ctx_addrs fs) \<inter> set (rb_addrs u) = {} \<Longrightarrow> rb_ctx (reparent q u m) s par fs p = rb_ctx m s par fs p"
  by (cases u; auto simp: rb_at_frame rb_ctx_frame)+

lemma reparent_code:
  assumes "rb_at m s par t" "s \<notin> set (rb_addrs t)"
  shows "(if rb_ptr s t \<noteq> s then wr (rb_ptr s t) (set_parent q) m else Some m) = Some (reparent q t m)"
  using assms by (cases t) auto

lemma relink_ctx:
  "rb_ctx m s par fs p \<Longrightarrow> distinct (rb_ctx_addrs fs) \<Longrightarrow> rb_ctx (relink s par q fs m) s par fs q"
  by (cases "(m, s, par, fs, p)" rule: rb_ctx.cases) (auto simp: rb_at_frame rb_ctx_frame)

lemma relink_other: "x \<notin> set (rb_ctx_addrs fs) \<Longrightarrow> relink s par q fs m x = m x"
  by (cases fs) auto

lemma relink_frame:
  "set (rb_addrs t) \<inter> set (rb_ctx_addrs fs) = {} \<Longrightarrow> rb_at (relink s par q fs m) s' par' t = rb_at m s' par' t"
  by (cases fs) (auto simp: rb_at_frame)

lemma relink_code:
  assumes ctx: "rb_ctx m s par fs p" "fs \<noteq> []" and p: "p \<notin> set (rb_ctx_addrs fs)" "p \<noteq> s"
  shows "\<exists>pn. m (rb_up par fs) = Some pn \<and>
    wr (rb_up par fs) (set_child (if p = rb_child d pn then d else \<not> d) q) m = Some (relink s par q fs m) \<and>
    wr (rb_up par fs) (set_child (p \<noteq> rb_left pn) q) m = Some (relink s par q fs m)"
proof -
  obtain a k c e y gs where fs: "fs = (a, k, c, e, y) # gs" using ctx(2) by (metis list.exhaust prod_cases5)
  have "rb_ptr s y \<noteq> p" using p rb_ptr_mem [of y s] by (cases y) (auto simp: fs)
  then show ?thesis
    using ctx by (cases d; cases e) (auto simp: fs node_of_def rb_child_def set_child_def)
qed

lemma rep_root_iff:
  assumes "rb_rep B s par sn (m, root) (rb_plug t fs)" "t \<noteq> Lf"
  shows "rb_ptr s t = root \<longleftrightarrow> fs = []"
proof (cases "fs = []")
  case False
  then have "root \<in> set (rb_ctx_addrs fs)" using assms(1) rb_ptr_plug_ctx unfolding rep_plug by blast
  moreover have "rb_ptr s t \<in> set (rb_addrs t)" using assms(2) by (rule rb_ptr_mem)
  ultimately show ?thesis using assms(1) False unfolding rep_plug by auto
qed (use assms in \<open>simp add: rb_rep_def\<close>)

text \<open>The memory after a rotation, all writes collected.\<close>

definition rotated :: "bool \<Rightarrow> nat \<Rightarrow> nat \<Rightarrow> nat \<Rightarrow> u64 \<Rightarrow> bool \<Rightarrow> rbt \<Rightarrow> nat \<Rightarrow> u64 \<Rightarrow> bool \<Rightarrow> rbt \<Rightarrow> rbt \<Rightarrow> rb_frame list \<Rightarrow> rb_mem \<Rightarrow> rb_mem" where
  "rotated d s par a k c x b k' c' y z fs m =
     (relink s par b fs (reparent a y m))
       (a \<mapsto> node_of d k c (rb_ptr s x) (rb_ptr s y) b, b \<mapsto> node_of d k' c' a (rb_ptr s z) (rb_up par fs))"

lemma rotate_code:
  assumes rep: "rb_rep B s par sn (m, root) (rb_plug (br d a k c x (br d b k' c' y z)) fs)"
  shows "rb_rotate d s a (m, root) =
    Some (rotated d s par a k c x b k' c' y z fs m, if fs = [] then b else root)"
proof -
  let ?t = "br d a k c x (br d b k' c' y z)"
  have at: "m a = Some (node_of d k c (rb_ptr s x) b (rb_up par fs))"
      "m b = Some (node_of d k' c' (rb_ptr s y) (rb_ptr s z) a)" "rb_at m s b y" "rb_ctx m s par fs a"
    and dis: "distinct (rb_addrs ?t @ rb_ctx_addrs fs)" "s \<notin> set (rb_addrs ?t)" "s \<notin> set (rb_ctx_addrs fs)"
    using rep unfolding rep_plug by auto
  have ne: "a \<noteq> b" "a \<notin> set (rb_addrs y)" "b \<notin> set (rb_addrs y)" "a \<noteq> s" "b \<noteq> s" "s \<notin> set (rb_addrs y)"
    "a \<notin> set (rb_ctx_addrs fs)" "b \<notin> set (rb_ctx_addrs fs)" "set (rb_ctx_addrs fs) \<inter> set (rb_addrs y) = {}"
    using dis by auto
  define m1 where "m1 = m(a \<mapsto> node_of d k c (rb_ptr s x) (rb_ptr s y) (rb_up par fs))"
  define m2 where "m2 = reparent a y m1"
  define m3 where "m3 = m2(b \<mapsto> node_of d k' c' (rb_ptr s y) (rb_ptr s z) (rb_up par fs))"
  have w1: "wr a (set_child (\<not> d) (rb_ptr s y)) m = Some m1"
    using at(1) by (simp add: m1_def node_of_def set_child_def)
  have w2: "(if rb_ptr s y \<noteq> s then wr (rb_ptr s y) (set_parent a) m1 else Some m1) = Some m2"
    unfolding m2_def by (rule reparent_code [of _ _ b]) (use at(3) ne in \<open>simp_all add: m1_def rb_at_frame\<close>)
  have w3: "wr b (set_parent (rb_up par fs)) m2 = Some m3"
    using at(2) ne by (simp add: m2_def m3_def m1_def reparent_other node_of_def set_parent_def)
  have ctx3: "rb_ctx m3 s par fs a"
    using at(4) ne by (simp add: m3_def m2_def m1_def rb_ctx_frame reparent_frame)
  have root: "a = root \<longleftrightarrow> fs = []" using rep_root_iff [OF rep] by simp
  define m4 where "m4 = relink s par b fs m3"
  have w4: "(if a = root then Some (m3, b)
      else do { p \<leftarrow> m3 (rb_up par fs); m \<leftarrow> wr (rb_up par fs) (set_child (if a = rb_child d p then d else \<not> d) b) m3; Some (m, root) }) =
      Some (m4, if fs = [] then b else root)"
  proof (cases "fs = []")
    case False
    then obtain pn where "m3 (rb_up par fs) = Some pn"
      "wr (rb_up par fs) (set_child (if a = rb_child d pn then d else \<not> d) b) m3 = Some m4"
      using relink_code [OF ctx3 _ ne(7,4), of d b] unfolding m4_def by blast
    then show ?thesis using False root by simp
  qed (simp add: root m4_def)
  have a4: "m4 a = Some (node_of d k c (rb_ptr s x) (rb_ptr s y) (rb_up par fs))"
    using ne by (simp add: m4_def m3_def m2_def m1_def relink_other reparent_other)
  have b4: "m4 b = Some (node_of d k' c' (rb_ptr s y) (rb_ptr s z) (rb_up par fs))"
    using ne by (simp add: m4_def m3_def relink_other)
  have fin: "m4(b \<mapsto> node_of d k' c' a (rb_ptr s z) (rb_up par fs), a \<mapsto> node_of d k c (rb_ptr s x) (rb_ptr s y) b) =
      rotated d s par a k c x b k' c' y z fs m"
    using ne unfolding rotated_def m4_def m3_def m2_def m1_def
    by (intro ext) (cases y; cases fs; auto)
  have "rb_rotate d s a (m, root) = do {
      m \<leftarrow> wr b (set_child d a) m4; m \<leftarrow> wr a (set_parent b) m; Some (m, if fs = [] then b else root) }"
    unfolding rb_rotate_def prod.case at(1) Option.bind.simps Let_def node_of_sel at(2) w1 w2 w3 w4 by (rule refl)
  also have "\<dots> = Some (rotated d s par a k c x b k' c' y z fs m, if fs = [] then b else root)"
    using a4 b4 ne(1) fin by simp
  finally show ?thesis .
qed


lemma rotate_of_eq: "rotate_of d = rb_rotate d"
  by (cases d) (simp_all add: rotate_of_def ngx_rbtree_left_rotate_def ngx_rbtree_right_rotate_def)

lemma rep_rotate:
  assumes rep: "rb_rep B s par sn (m, root) (rb_plug (br d a k c x (br d b k' c' y z)) fs)"
  shows "\<exists>st. rotate_of d s a (m, root) = Some st \<and>
    rb_rep B s par sn st (rb_plug (br d b k' c' (br d a k c x y) z) fs)"
proof -
  let ?t = "br d a k c x (br d b k' c' y z)" and ?u = "br d b k' c' (br d a k c x y) z"
  let ?m = "rotated d s par a k c x b k' c' y z fs m"
  have r: "rb_at m s a x" "rb_at m s b y" "rb_at m s b z" "rb_ctx m s par fs a" "m s = Some sn"
    "\<forall>w. w \<notin> set (rb_addrs ?t) \<and> w \<notin> set (rb_ctx_addrs fs) \<and> w \<noteq> s \<longrightarrow> m w = B w"
    and dis: "distinct (rb_addrs ?t @ rb_ctx_addrs fs)" "s \<notin> set (rb_addrs ?t)" "s \<notin> set (rb_ctx_addrs fs)"
    using rep unfolding rep_plug by auto
  have ne: "a \<noteq> b" "a \<notin> set (rb_addrs x @ rb_addrs y @ rb_addrs z @ rb_ctx_addrs fs)"
    "b \<notin> set (rb_addrs x @ rb_addrs y @ rb_addrs z @ rb_ctx_addrs fs)" "distinct (rb_addrs y)" "distinct (rb_ctx_addrs fs)"
    "set (rb_addrs x) \<inter> set (rb_addrs y) = {}" "set (rb_addrs z) \<inter> set (rb_addrs y) = {}" "set (rb_ctx_addrs fs) \<inter> set (rb_addrs y) = {}"
    "set (rb_addrs x) \<inter> set (rb_ctx_addrs fs) = {}" "set (rb_addrs y) \<inter> set (rb_ctx_addrs fs) = {}" "set (rb_addrs z) \<inter> set (rb_ctx_addrs fs) = {}"
    using dis by auto
  have "rb_at ?m s a x" "rb_at ?m s b z"
    using r(1,3) ne by (simp_all add: rotated_def rb_at_frame relink_frame reparent_frame)
  moreover have "rb_at ?m s a y"
    using reparent_at [OF r(2), of a] ne by (simp add: rotated_def rb_at_frame relink_frame)
  moreover have "rb_ctx ?m s par fs b"
    using relink_ctx [of "reparent a y m" s par fs a b] r(4) ne by (simp add: rotated_def rb_ctx_frame reparent_frame)
  moreover have "?m s = Some sn"
    using r(5) dis by (simp add: rotated_def relink_other reparent_other)
  moreover have "?m a = Some (node_of d k c (rb_ptr s x) (rb_ptr s y) b)" "?m b = Some (node_of d k' c' a (rb_ptr s z) (rb_up par fs))"
    using ne(1) by (simp_all add: rotated_def)
  moreover have "?m w = B w" if "w \<notin> set (rb_addrs ?t)" "w \<notin> set (rb_ctx_addrs fs)" "w \<noteq> s" for w
    using r(6) that by (simp add: rotated_def relink_other reparent_other)
  moreover have "distinct (rb_addrs ?u @ rb_ctx_addrs fs)" "s \<notin> set (rb_addrs ?u)" "set (rb_addrs ?u) = set (rb_addrs ?t)"
    using dis by auto
  moreover have "(if fs = [] then b else root) = rb_ptr s (rb_plug ?u fs)"
    using rep rb_ptr_plug [of s ?t ?u fs] by (auto simp: rep_plug)
  ultimately have "rb_rep B s par sn (?m, if fs = [] then b else root) (rb_plug ?u fs)"
    using dis(3) unfolding rep_plug by auto
  moreover have "rotate_of d s a (m, root) = Some (?m, if fs = [] then b else root)"
    unfolding rotate_of_eq by (rule rotate_code [OF rep])
  ultimately show ?thesis by blast
qed


section \<open>Order and balance\<close>

lemma inorder_br: "rb_inorder (br d a k c x y) =
    (if d then rb_inorder y @ (a, k) # rb_inorder x else rb_inorder x @ (a, k) # rb_inorder y)"
  by (simp add: br_def)

lemma inorder_plug_cong: "rb_inorder t = rb_inorder u \<Longrightarrow> rb_inorder (rb_plug t fs) = rb_inorder (rb_plug u fs)"
proof (induction fs arbitrary: t u)
  case (Cons f fs)
  obtain a k c d y where "f = (a, k, c, d, y)" by (metis prod_cases5)
  then show ?case using Cons.IH [of "br d a k c t y" "br d a k c u y"] Cons.prems by (simp add: inorder_br)
qed simp

text \<open>\<open>good n t\<close>: no red node has a red child, and every path passes \<open>n\<close> black nodes.\<close>

fun good :: "nat \<Rightarrow> rbt \<Rightarrow> bool" where
  "good n Lf \<longleftrightarrow> n = 0"
| "good n (Br a k c l r) \<longleftrightarrow>
     (if c then \<not> is_red l \<and> \<not> is_red r \<and> good n l \<and> good n r else 0 < n \<and> good (n - 1) l \<and> good (n - 1) r)"

lemma good_br [simp]:
  "good n (br d a k c x y) \<longleftrightarrow>
     (if c then \<not> is_red x \<and> \<not> is_red y \<and> good n x \<and> good n y else 0 < n \<and> good (n - 1) x \<and> good (n - 1) y)"
  by (auto simp: br_def)

fun top_red :: "rb_frame list \<Rightarrow> bool" where
  "top_red [] = False"
| "top_red ((a, k, c, d, y) # fs) = c"

fun ctx_good :: "nat \<Rightarrow> rb_frame list \<Rightarrow> bool" where
  "ctx_good n [] = True"
| "ctx_good n ((a, k, c, d, y) # fs) \<longleftrightarrow> good n y \<and>
     (if c then \<not> is_red y \<and> fs \<noteq> [] \<and> \<not> top_red fs \<and> ctx_good n fs else ctx_good (Suc n) fs)"

lemma good_plug:
  assumes "good n t" "ctx_good n fs" "is_red t \<longrightarrow> \<not> top_red fs"
  shows "\<exists>n'. good n' (rb_plug t fs) \<and> (fs \<noteq> [] \<longrightarrow> \<not> is_red (rb_plug t fs))"
  using assms
proof (induction fs arbitrary: t n)
  case (Cons f fs)
  obtain a k c d y where f: "f = (a, k, c, d, y)" by (metis prod_cases5)
  show ?case
  proof (cases c)
    case True
    then show ?thesis using Cons.IH [of n "br d a k c t y"] Cons.prems by (auto simp: f)
  next
    case False
    then have "\<exists>n'. good n' (rb_plug (br d a k c t y) fs) \<and> (fs \<noteq> [] \<longrightarrow> \<not> is_red (rb_plug (br d a k c t y) fs))"
      using Cons.prems by (intro Cons.IH [of "Suc n"]) (auto simp: f)
    then show ?thesis using False by (cases fs) (auto simp: f)
  qed
qed auto

text \<open>A red-black tree: the root is black.\<close>

definition rb_tree :: "rbt \<Rightarrow> bool" where
  "rb_tree t \<longleftrightarrow> \<not> is_red t \<and> (\<exists>n. good n t)"

section \<open>Insertion\<close>

lemma is_red_code:
  assumes "rb_at m s q t" "m s = Some sn" "\<not> rb_red sn"
  shows "ngx_rbt_is_red (rb_ptr s t) m = Some (is_red t)"
  using assms by (cases t) (simp_all add: ngx_rbt_is_red_def)

text \<open>The nodes around a position.\<close>

lemma rep_nodes:
  assumes "rb_rep B s par sn (m, root) (rb_plug t ((p, kp, cp, e, y) # fs))"
  shows "m p = Some (node_of e kp cp (rb_ptr s t) (rb_ptr s y) (rb_up par fs))"
    "rb_at m s p t" "rb_at m s p y" "m s = Some sn" "p \<noteq> s"
    "t \<noteq> Lf \<Longrightarrow> rb_ptr s t \<noteq> rb_ptr s y" "rb_ptr s t = rb_ptr s y \<Longrightarrow> t = Lf \<and> y = Lf"
proof -
  show "m p = Some (node_of e kp cp (rb_ptr s t) (rb_ptr s y) (rb_up par fs))"
    "rb_at m s p t" "rb_at m s p y" "m s = Some sn" "p \<noteq> s"
    using assms unfolding rep_plug by auto
  have d: "set (rb_addrs t) \<inter> set (rb_addrs y) = {}" "s \<notin> set (rb_addrs t)" "s \<notin> set (rb_addrs y)"
    using assms unfolding rep_plug by auto
  show "t \<noteq> Lf \<Longrightarrow> rb_ptr s t \<noteq> rb_ptr s y"
    using d rb_ptr_mem [of t s] rb_ptr_mem [of y s] by (cases y) auto
  show "rb_ptr s t = rb_ptr s y \<Longrightarrow> t = Lf \<and> y = Lf"
    using d by (cases t; cases y) auto
qed

lemma rb_cases:
  assumes "t \<noteq> Lf"
  obtains a k c x y where "t = br d a k c x y"
proof -
  obtain a k c l r where t: "t = Br a k c l r" using assms by (cases t) auto
  show ?thesis using that [of a k c "if d then r else l" "if d then l else r"] by (cases d) (simp_all add: t br_def)
qed

lemma rep_parent:
  assumes "rb_rep B s par sn (m, root) (rb_plug t fs)" "t \<noteq> Lf"
  shows "\<exists>n. m (rb_ptr s t) = Some n \<and> rb_parent n = rb_up par fs"
  using assms unfolding rep_plug by (cases t) auto

lemma plug_turn: "rb_plug t ((p, kp, cp, \<not> d, y) # fs) = rb_plug (br d p kp cp y t) fs"
  by (simp add: br_flip)

text \<open>The last turn: the parent is red, the uncle black.\<close>

lemma turn_outer:
  assumes rep: "rb_rep B s par sn (m, root) (rb_plug t ((p, kp, True, d, y) # (g, kg, False, d, u) # fs))"
    and t: "rb_ptr s t = node" "t \<noteq> Lf"
  shows "\<exists>st. (do { n \<leftarrow> m node; m \<leftarrow> ngx_rbt_black (rb_parent n) m; p \<leftarrow> m (rb_parent n);
      m \<leftarrow> ngx_rbt_red (rb_parent p) m; st \<leftarrow> rotate_of (\<not> d) s (rb_parent p) (m, root); Some (st, node) }) = Some (st, node) \<and>
    rb_rep B s par sn st (rb_plug t ((p, kp, False, d, br d g kg True y u) # fs))"
proof -
  obtain n where n: "m node = Some n" "rb_parent n = p" using rep_parent [OF rep t(2)] t(1) by auto
  have "rb_rep B s par sn (m, root) (rb_plug (br d p kp True t y) ((g, kg, False, d, u) # fs))" using rep by simp
  from rep_paint [OF this, of False] obtain m1 where
    m1: "ngx_rbt_black p m = Some m1" "rb_rep B s par sn (m1, root) (rb_plug (br d p kp False t y) ((g, kg, False, d, u) # fs))"
    unfolding ngx_rbt_black_def by blast
  have p: "m1 p = Some (node_of d kp False (rb_ptr s t) (rb_ptr s y) g)" using m1(2) unfolding rep_plug by simp
  have "rb_rep B s par sn (m1, root) (rb_plug (br d g kg False (br d p kp False t y) u) fs)" using m1(2) by simp
  from rep_paint [OF this, of True] obtain m2 where
    m2: "ngx_rbt_red g m1 = Some m2" "rb_rep B s par sn (m2, root) (rb_plug (br d g kg True (br d p kp False t y) u) fs)"
    unfolding ngx_rbt_red_def by blast
  have "rb_rep B s par sn (m2, root) (rb_plug (br (\<not> d) g kg True u (br (\<not> d) p kp False y t)) fs)"
    using m2(2) by (simp add: br_flip)
  from rep_rotate [OF this] obtain st where
    "rotate_of (\<not> d) s g (m2, root) = Some st" "rb_rep B s par sn st (rb_plug t ((p, kp, False, d, br d g kg True y u) # fs))"
    by (auto simp: br_flip)
  then show ?thesis using n m1(1) p m2(1) by simp
qed

lemma insert_turn_ok:
  assumes rep: "rb_rep B s par sn (m, root) (rb_plug t ((p, kp, True, e, y) # (g, kg, False, d, u) # fs))"
    and t: "t \<noteq> Lf" "is_red t" "good n t" and good: "good n y" "\<not> is_red y" "good n u" "\<not> is_red u"
  shows "\<exists>st t2 q kq v. insert_turn d s (rb_ptr s t) (m, root) = Some (st, rb_ptr s t2) \<and>
    rb_rep B s par sn st (rb_plug t2 ((q, kq, False, d, v) # fs)) \<and>
    rb_inorder (rb_plug t2 ((q, kq, False, d, v) # fs)) = rb_inorder (rb_plug t ((p, kp, True, e, y) # (g, kg, False, d, u) # fs)) \<and>
    t2 \<noteq> Lf \<and> good n t2 \<and> good n v"
proof -
  obtain nd where nd: "m (rb_ptr s t) = Some nd" "rb_parent nd = p" using rep_parent [OF rep t(1)] by auto
  note nodes = rep_nodes [OF rep]
  show ?thesis
  proof (cases "e = d")
    case True
    then have "rb_ptr s t \<noteq> rb_child (\<not> d) (node_of e kp True (rb_ptr s t) (rb_ptr s y) (rb_up par ((g, kg, False, d, u) # fs)))"
      using nodes(6) [OF t(1)] by simp
    then obtain st where st: "insert_turn d s (rb_ptr s t) (m, root) = Some (st, rb_ptr s t)"
      "rb_rep B s par sn st (rb_plug t ((p, kp, False, d, br d g kg True y u) # fs))"
      using turn_outer [OF rep [unfolded True] refl t(1)] nd nodes(1) unfolding insert_turn_def by auto
    moreover have "rb_inorder (rb_plug t ((p, kp, False, d, br d g kg True y u) # fs)) =
        rb_inorder (rb_plug t ((p, kp, True, e, y) # (g, kg, False, d, u) # fs))"
      unfolding rb_plug.simps by (rule inorder_plug_cong) (simp add: inorder_br True)
    moreover have "good n (br d g kg True y u)" using good by simp
    ultimately show ?thesis using t by blast
  next
    case False
    then have e: "e = (\<not> d)" by auto
    obtain a k c x z where tb: "t = br d a k c x z" using rb_cases t(1) by blast
    have c: "c" "good n x" "\<not> is_red x" "good n z" "\<not> is_red z" using t(2,3) tb by auto
    let ?f = "(g, kg, False, d, u) # fs"
    have "rb_rep B s par sn (m, root) (rb_plug (br d p kp True y (br d a k c x z)) ?f)"
      using rep e tb by (simp add: br_flip)
    from rep_rotate [OF this] obtain m1 root1 where
      rot: "rotate_of d s p (m, root) = Some (m1, root1)"
      and r1: "rb_rep B s par sn (m1, root1) (rb_plug (br d p kp True y x) ((a, k, c, d, z) # ?f))"
      by auto
    obtain st where st: "(do { n \<leftarrow> m1 p; m \<leftarrow> ngx_rbt_black (rb_parent n) m1; p' \<leftarrow> m (rb_parent n);
      m \<leftarrow> ngx_rbt_red (rb_parent p') m; st \<leftarrow> rotate_of (\<not> d) s (rb_parent p') (m, root1); Some (st, p) }) = Some (st, p)"
      "rb_rep B s par sn st (rb_plug (br d p kp True y x) ((a, k, False, d, br d g kg True z u) # fs))"
      using turn_outer [of B s par sn m1 root1 "br d p kp True y x" a k d z g kg u fs p] r1 c(1) by auto
    have "insert_turn d s (rb_ptr s t) (m, root) = Some (st, p)"
      using nd nodes(1) rot st(1) unfolding insert_turn_def by (simp add: e)
    moreover have "rb_inorder (rb_plug (br d p kp True y x) ((a, k, False, d, br d g kg True z u) # fs)) =
        rb_inorder (rb_plug t ((p, kp, True, e, y) # (g, kg, False, d, u) # fs))"
      unfolding rb_plug.simps by (rule inorder_plug_cong) (simp add: inorder_br tb e)
    moreover have "good n (br d g kg True z u)" "good n (br d p kp True y x)" "rb_ptr s (br d p kp True y x) = p"
      using good c by simp_all
    ultimately show ?thesis using st(2) br_neq_Lf(1) [of d p kp True y x] by metis
  qed
qed

text \<open>The loop ends at the root and below a black node.\<close>

lemma fix_stops:
  assumes rep: "rb_rep B s par sn (m, root) (rb_plug t fs)" and t: "t \<noteq> Lf" and top: "\<not> top_red fs"
  shows "insert_fix s (rb_ptr s t) (m, root) = Some (m, root)"
proof (cases fs)
  case Nil
  then show ?thesis using rep_root_iff [OF rep t] by (simp add: insert_fix.simps)
next
  case (Cons f gs)
  obtain p kp cp e y where f: "f = (p, kp, cp, e, y)" by (metis prod_cases5)
  obtain n where n: "m (rb_ptr s t) = Some n" "rb_parent n = p" using rep_parent [OF rep t] Cons f by auto
  have "ngx_rbt_is_red p m = Some False" using rep top unfolding rep_plug by (simp add: Cons f ngx_rbt_is_red_def)
  then show ?thesis using rep_root_iff [OF rep t] n Cons by (subst insert_fix.simps) simp
qed

lemma uncle_side:
  assumes "rb_rep B s par sn (m, root) (rb_plug t ((p, kp, cp, e, y) # (g, kg, cg, d, u) # fs))"
  shows "p = rb_left (node_of d kg cg p (rb_ptr s u) q) \<longleftrightarrow> \<not> d"
proof -
  have "rb_ptr s u \<noteq> p" using assms rb_ptr_mem [of u s] unfolding rep_plug by (cases u) auto
  then show ?thesis by (simp add: node_of_def)
qed

lemma insert_fix_ok:
  assumes "rb_rep B s par sn (m, root) (rb_plug t fs)" "\<not> rb_red sn" "t \<noteq> Lf" "is_red t" "good n t" "ctx_good n fs"
  shows "\<exists>st' t'. insert_fix s (rb_ptr s t) (m, root) = Some st' \<and> rb_rep B s par sn st' t' \<and>
    rb_inorder t' = rb_inorder (rb_plug t fs) \<and> t' \<noteq> Lf \<and> (\<exists>n. good n t')"
  using assms
proof (induction "length fs" arbitrary: m root t fs n rule: less_induct)
  case less
  note rep = less.prems(1) and t = less.prems(3-5) and ctx = less.prems(6)
  show ?case
  proof (cases "top_red fs")
    case False
    obtain n' where "good n' (rb_plug t fs)" using good_plug [OF t(3) ctx] False by blast
    moreover have "rb_plug t fs \<noteq> Lf" using t(1) by (rule rb_plug_neq_Lf)
    ultimately show ?thesis using fix_stops [OF rep t(1) False] rep by blast
  next
    case True
    obtain p kp e y g kg d u fs' where fs: "fs = (p, kp, True, e, y) # (g, kg, False, d, u) # fs'"
      using True ctx by (cases fs; cases "tl fs") auto
    have good: "good n y" "\<not> is_red y" "good n u" "ctx_good (Suc n) fs'" using ctx by (auto simp: fs)
    note nodes = rep_nodes [OF rep [unfolded fs]]
    obtain nd where nd: "m (rb_ptr s t) = Some nd" "rb_parent nd = p" using rep_parent [OF rep t(1)] fs by auto
    have g: "m g = Some (node_of d kg False p (rb_ptr s u) (rb_up par fs'))" "rb_at m s g u"
      using rep unfolding rep_plug fs by auto
    have ured: "ngx_rbt_is_red (rb_ptr s u) m = Some (is_red u)" using is_red_code g(2) nodes(4) less.prems(2) by blast
    have pred: "ngx_rbt_is_red p m = Some True" using nodes(1) by (simp add: ngx_rbt_is_red_def)
    have nr: "rb_ptr s t \<noteq> root" using rep_root_iff [OF rep t(1)] fs by simp
    note side = uncle_side [OF rep [unfolded fs]]
    have step: "insert_fix s (rb_ptr s t) (m, root) =
        (if is_red u then do {
           m \<leftarrow> ngx_rbt_black p m; m \<leftarrow> ngx_rbt_black (rb_ptr s u) m; m \<leftarrow> ngx_rbt_red g m; insert_fix s g (m, root) }
         else do { (st, node) \<leftarrow> insert_turn d s (rb_ptr s t) (m, root); insert_fix s node st })"
      using nr nd pred nodes(1) g(1) ured side by (subst insert_fix.simps) (simp add: Let_def)
    show ?thesis
    proof (cases "is_red u")
      case True
      then obtain b kb x z where u: "u = br d b kb True x z" using rb_cases [of u d] by (metis is_red.simps(1) is_red_br)
      have "rb_rep B s par sn (m, root) (rb_plug (br e p kp True t y) ((g, kg, False, d, u) # fs'))" using rep fs by simp
      from rep_paint [OF this, of False] obtain m1 where
        m1: "ngx_rbt_black p m = Some m1" "rb_rep B s par sn (m1, root) (rb_plug (br e p kp False t y) ((g, kg, False, d, u) # fs'))"
        unfolding ngx_rbt_black_def by blast
      have "rb_rep B s par sn (m1, root) (rb_plug (br d b kb True x z) ((g, kg, False, \<not> d, br e p kp False t y) # fs'))"
        using m1(2) u by (simp add: br_flip)
      from rep_paint [OF this, of False] obtain m2 where
        m2: "ngx_rbt_black b m1 = Some m2" "rb_rep B s par sn (m2, root) (rb_plug (br d b kb False x z) ((g, kg, False, \<not> d, br e p kp False t y) # fs'))"
        unfolding ngx_rbt_black_def by blast
      let ?g = "br d g kg True (br e p kp False t y) (br d b kb False x z)"
      have "rb_rep B s par sn (m2, root) (rb_plug (br d g kg False (br e p kp False t y) (br d b kb False x z)) fs')"
        using m2(2) by (simp add: br_flip)
      from rep_paint [OF this, of True] obtain m3 where
        m3: "ngx_rbt_red g m2 = Some m3" "rb_rep B s par sn (m3, root) (rb_plug ?g fs')"
        unfolding ngx_rbt_red_def by blast
      have "good (Suc n) ?g" using t good u by simp
      then have "\<exists>st' t'. insert_fix s (rb_ptr s ?g) (m3, root) = Some st' \<and> rb_rep B s par sn st' t' \<and>
          rb_inorder t' = rb_inorder (rb_plug ?g fs') \<and> t' \<noteq> Lf \<and> (\<exists>n. good n t')"
        by (intro less.hyps [OF _ m3(2) less.prems(2) _ _ _ good(4)]) (simp_all add: fs)
      moreover have "rb_inorder (rb_plug ?g fs') = rb_inorder (rb_plug t fs)"
        unfolding fs rb_plug.simps by (rule inorder_plug_cong) (simp add: inorder_br u)
      ultimately show ?thesis using step True m1(1) m2(1) m3(1) u by simp
    next
      case False
      obtain st t2 q kq v where turn: "insert_turn d s (rb_ptr s t) (m, root) = Some (st, rb_ptr s t2)"
        "rb_rep B s par sn st (rb_plug t2 ((q, kq, False, d, v) # fs'))"
        "rb_inorder (rb_plug t2 ((q, kq, False, d, v) # fs')) = rb_inorder (rb_plug t fs)" "t2 \<noteq> Lf" "good n t2" "good n v"
        using insert_turn_ok [OF rep [unfolded fs] t good(1-3) False] unfolding fs by blast
      obtain m' root' where st: "st = (m', root')" by fastforce
      have "insert_fix s (rb_ptr s t2) st = Some st"
        using fix_stops [OF turn(2) [unfolded st] turn(4)] st by simp
      moreover obtain n' where "good n' (rb_plug t2 ((q, kq, False, d, v) # fs'))"
        using good_plug [OF turn(5), of "(q, kq, False, d, v) # fs'"] turn(6) good(4) by auto
      moreover have "rb_plug t2 ((q, kq, False, d, v) # fs') \<noteq> Lf" using turn(4) by (rule rb_plug_neq_Lf)
      ultimately show ?thesis using step False turn(1-3) by auto
    qed
  qed
qed


text \<open>What stands before and after a hole in the order of the tree.\<close>

fun pre :: "rb_frame list \<Rightarrow> (nat \<times> u64) list" where
  "pre [] = []"
| "pre ((a, k, c, d, y) # fs) = pre fs @ (if d then rb_inorder y @ [(a, k)] else [])"

fun post :: "rb_frame list \<Rightarrow> (nat \<times> u64) list" where
  "post [] = []"
| "post ((a, k, c, d, y) # fs) = (if d then [] else (a, k) # rb_inorder y) @ post fs"

lemma inorder_plug: "rb_inorder (rb_plug t fs) = pre fs @ rb_inorder t @ post fs"
  by (induction t fs rule: rb_plug.induct) (auto simp: inorder_br)

lemma map_fst_inorder: "set (map fst (rb_inorder t)) = set (rb_addrs t)"
  by (induction t) auto

text \<open>
  Keys are compared by \<open>lt\<close>. On the keys of a tree it is an order up to equal keys, and the tree is sorted by it; equal
  keys are allowed, and a new node goes behind them.
\<close>

definition key_order :: "(u64 \<Rightarrow> u64 \<Rightarrow> bool) \<Rightarrow> u64 set \<Rightarrow> bool" where
  "key_order lt K \<longleftrightarrow> (\<forall>a\<in>K. \<forall>b\<in>K. lt a b \<longrightarrow> \<not> lt b a) \<and> (\<forall>a\<in>K. \<forall>b\<in>K. \<forall>c\<in>K. lt a b \<longrightarrow> lt a c \<or> lt c b)"

definition key_sorted :: "(u64 \<Rightarrow> u64 \<Rightarrow> bool) \<Rightarrow> (nat \<times> u64) list \<Rightarrow> bool" where
  "key_sorted lt xs \<longleftrightarrow> sorted_wrt (\<lambda>x y. \<not> lt (snd y) (snd x)) xs"

definition ins_list :: "(u64 \<Rightarrow> u64 \<Rightarrow> bool) \<Rightarrow> nat \<times> u64 \<Rightarrow> (nat \<times> u64) list \<Rightarrow> (nat \<times> u64) list" where
  "ins_list lt x xs = takeWhile (\<lambda>y. \<not> lt (snd x) (snd y)) xs @ x # dropWhile (\<lambda>y. \<not> lt (snd x) (snd y)) xs"

lemma ins_list_split:
  assumes "\<forall>y\<in>set L. \<not> lt (snd x) (snd y)" "\<forall>y\<in>set R. lt (snd x) (snd y)"
  shows "ins_list lt x (L @ R) = L @ x # R"
  using assms by (cases R) (auto simp: ins_list_def)

lemma ins_list_sorted:
  assumes "key_order lt K" "key_sorted lt xs" "snd ` set (x # xs) \<subseteq> K"
  shows "key_sorted lt (ins_list lt x xs)"
proof -
  let ?L = "takeWhile (\<lambda>y. \<not> lt (snd x) (snd y)) xs" and ?R = "dropWhile (\<lambda>y. \<not> lt (snd x) (snd y)) xs"
  have s: "key_sorted lt (?L @ ?R)" using assms(2) by simp
  have K: "snd x \<in> K" "\<And>y. y \<in> set xs \<Longrightarrow> snd y \<in> K" using assms(3) by auto
  have L: "\<not> lt (snd x) (snd y)" if "y \<in> set ?L" for y using set_takeWhileD [OF that] by simp
  have R: "\<not> lt (snd y) (snd x)" if y: "y \<in> set ?R" for y
  proof (cases ?R)
    case (Cons z zs)
    then have z: "lt (snd x) (snd z)" "z \<in> set xs" by (metis hd_dropWhile list.discI list.sel(1), metis Cons list.set_intros(1) set_dropWhileD)
    have yx: "y \<in> set xs" using y set_dropWhileD by metis
    show ?thesis
    proof (cases "y = z")
      case True
      then show ?thesis using z assms(1) K unfolding key_order_def by metis
    next
      case False
      then have "\<not> lt (snd y) (snd z)" using s y Cons by (auto simp: key_sorted_def sorted_wrt_append)
      then show ?thesis using z K yx assms(1) unfolding key_order_def by metis
    qed
  next
    case Nil
    then show ?thesis using y unfolding Nil by simp
  qed
  note parts = s [unfolded key_sorted_def sorted_wrt_append]
  show ?thesis
    using parts L R unfolding ins_list_def key_sorted_def sorted_wrt_append sorted_wrt.simps list.set by blast
qed

lemma walk_ok:
  assumes "rb_at m s q t" "t \<noteq> Lf" "s \<notin> set (rb_addrs t)" "key_order lt K" "key_sorted lt (rb_inorder (rb_plug t fs))"
    "k \<in> K" "snd ` set (rb_inorder (rb_plug t fs)) \<subseteq> K"
    "\<forall>x\<in>set (pre fs). \<not> lt k (snd x)" "\<forall>x\<in>set (post fs). lt k (snd x)"
  shows "\<exists>a ka c d y gs. insert_walk lt s m k (rb_ptr s t) = Some (a, d) \<and>
    rb_plug Lf ((a, ka, c, d, y) # gs) = rb_plug t fs \<and>
    (\<forall>x\<in>set (pre ((a, ka, c, d, y) # gs)). \<not> lt k (snd x)) \<and> (\<forall>x\<in>set (post ((a, ka, c, d, y) # gs)). lt k (snd x))"
  using assms
proof (induction t arbitrary: q fs)
  case (Br a ka c l r)
  let ?d = "\<not> lt k ka" and ?u = "if lt k ka then l else r" and ?y = "if lt k ka then r else l"
  let ?f = "(a, ka, c, ?d, ?y)"
  have m: "m a = Some (node_of False ka c (rb_ptr s l) (rb_ptr s r) q)" "rb_at m s a ?u" using Br.prems(1) by auto
  have pl: "rb_plug ?u (?f # fs) = rb_plug (Br a ka c l r) fs" by (simp add: br_def)
  have srt: "key_sorted lt (rb_inorder l @ (a, ka) # rb_inorder r)" and K: "ka \<in> K" "snd ` set (rb_inorder l) \<subseteq> K" "snd ` set (rb_inorder r) \<subseteq> K"
    using Br.prems(5,7) unfolding inorder_plug key_sorted_def by (auto simp: sorted_wrt_append)
  have l: "\<not> lt ka (snd x)" if "x \<in> set (rb_inorder l)" for x
    using that srt by (auto simp: key_sorted_def sorted_wrt_append)
  have r: "\<not> lt (snd x) ka" if "x \<in> set (rb_inorder r)" for x
    using that srt by (auto simp: key_sorted_def sorted_wrt_append)
  have pre: "\<forall>x\<in>set (pre (?f # fs)). \<not> lt k (snd x)"
  proof (cases "lt k ka")
    case False
    have "\<not> lt k (snd x)" if "x \<in> set (rb_inorder l)" for x
      using l [OF that] False that K Br.prems(4,6) unfolding key_order_def by (metis image_subset_iff)
    then show ?thesis using False Br.prems(8) by auto
  qed (use Br.prems(8) in auto)
  have post: "\<forall>x\<in>set (post (?f # fs)). lt k (snd x)"
  proof (cases "lt k ka")
    case True
    have "lt k (snd x)" if "x \<in> set (rb_inorder r)" for x
      using r [OF that] True that K Br.prems(4,6) unfolding key_order_def by (metis image_subset_iff)
    then show ?thesis using True Br.prems(9) by auto
  qed (use Br.prems(9) in auto)
  have ch: "rb_child ?d (node_of False ka c (rb_ptr s l) (rb_ptr s r) q) = rb_ptr s ?u"
    by (simp add: rb_child_def node_of_def)
  show ?case
  proof (cases "?u = Lf")
    case True
    then have "insert_walk lt s m k a = Some (a, ?d)" using m(1) ch by (subst insert_walk.simps) (simp add: Let_def)
    moreover have "rb_plug Lf (?f # fs) = rb_plug (Br a ka c l r) fs" using pl True by simp
    ultimately show ?thesis using pre post unfolding rb_ptr.simps by blast
  next
    case False
    then have "rb_ptr s ?u \<noteq> s" using Br.prems(3) rb_ptr_mem [of ?u s] by (auto split: if_splits)
    then have eq: "insert_walk lt s m k a = insert_walk lt s m k (rb_ptr s ?u)"
      using m(1) ch by (subst insert_walk.simps) (simp add: Let_def)
    have "\<exists>a' ka' c' d' y' gs. insert_walk lt s m k (rb_ptr s ?u) = Some (a', d') \<and>
      rb_plug Lf ((a', ka', c', d', y') # gs) = rb_plug ?u (?f # fs) \<and>
      (\<forall>x\<in>set (pre ((a', ka', c', d', y') # gs)). \<not> lt k (snd x)) \<and> (\<forall>x\<in>set (post ((a', ka', c', d', y') # gs)). lt k (snd x))"
    proof (cases "lt k ka")
      case True
      then show ?thesis
        using Br.IH(1) [of a "?f # fs"] m(2) False Br.prems(3-7) pre post pl by simp
    next
      case False
      then show ?thesis
        using Br.IH(2) [of a "?f # fs"] m(2) \<open>?u \<noteq> Lf\<close> Br.prems(3-7) pre post pl by simp
    qed
    then show ?thesis unfolding pl eq [symmetric] rb_ptr.simps .
  qed
qed simp


text \<open>Linking the new node.\<close>

lemma node_of_fresh:
  "rb_key nn = k \<Longrightarrow> nn\<lparr>rb_parent := a, rb_left := s, rb_right := s, rb_red := c\<rparr> = node_of False k c s s a"
  by (cases nn) (simp add: node_of_def)

lemma link_ok:
  assumes rep: "rb_rep B s par sn (m, root) (rb_plug Lf ((a, ka, c, d, y) # fs))"
    and node: "m node = Some nn" "rb_key nn = k" "node \<noteq> s" "node \<notin> set (rb_addrs (rb_plug Lf ((a, ka, c, d, y) # fs)))"
  shows "\<exists>m'. do { m \<leftarrow> wr a (set_child d node) m;
      wr node (\<lambda>n. n\<lparr>rb_parent := a, rb_left := s, rb_right := s, rb_red := True\<rparr>) m } = Some m' \<and>
    rb_rep B s par sn (m', root) (rb_plug (Br node k True Lf Lf) ((a, ka, c, d, y) # fs))"
proof -
  let ?f = "(a, ka, c, d, y)"
  let ?m = "m(a \<mapsto> node_of d ka c node (rb_ptr s y) (rb_up par fs), node \<mapsto> node_of False k True s s a)"
  have at: "m a = Some (node_of d ka c s (rb_ptr s y) (rb_up par fs))" using rep unfolding rep_plug by simp
  have ne: "node \<noteq> a" "node \<notin> set (rb_ctx_addrs (?f # fs))" using node(4) unfolding set_addrs_rb_plug by auto
  have "do { m \<leftarrow> wr a (set_child d node) m;
      wr node (\<lambda>n. n\<lparr>rb_parent := a, rb_left := s, rb_right := s, rb_red := True\<rparr>) m } = Some ?m"
    using at node(1,2) ne(1) by (simp add: node_of_fresh)
  moreover have "rb_rep B s par sn (?m, root) (rb_plug (Br node k True Lf Lf) (?f # fs))"
    using rep node(3) ne rb_ptr_plug [of s Lf "Br node k True Lf Lf" "?f # fs"]
    unfolding rep_plug by (auto simp: rb_at_frame rb_ctx_frame)
  ultimately show ?thesis by blast
qed

lemma good_split:
  assumes "good n (rb_plug t fs)" "\<not> is_red (rb_plug t fs)"
  shows "\<exists>n'. good n' t \<and> ctx_good n' fs \<and> (is_red t \<longrightarrow> \<not> top_red fs \<and> fs \<noteq> [])"
  using assms
proof (induction fs arbitrary: t)
  case (Cons f fs)
  obtain a k c d y where f: "f = (a, k, c, d, y)" by (metis prod_cases5)
  obtain n' where n': "good n' (br d a k c t y)" "ctx_good n' fs" "c \<longrightarrow> \<not> top_red fs \<and> fs \<noteq> []"
    using Cons.IH [of "br d a k c t y"] Cons.prems by (auto simp: f)
  show ?case
  proof (cases c)
    case True
    then show ?thesis using n' by (auto simp: f)
  next
    case False
    then show ?thesis using n' by (intro exI [of _ "n' - 1"]) (auto simp: f)
  qed
qed auto

text \<open>A new node in the tree: the memory outside, where it was, and the order of its key.\<close>

definition rb_new :: "rb_mem \<Rightarrow> nat \<Rightarrow> rbt \<Rightarrow> nat \<Rightarrow> u64 \<Rightarrow> bool" where
  "rb_new B s t node k \<longleftrightarrow> (\<exists>nn. B node = Some nn \<and> rb_key nn = k) \<and> node \<noteq> s \<and> node \<notin> set (rb_addrs t)"

lemma rb_tree_black_root: "good n t \<Longrightarrow> t \<noteq> Lf \<Longrightarrow> \<exists>m. good m (br d a k False x y)" if "t = br d a k c x y" for t
  using that by (cases c) (auto intro: exI [of _ "Suc n"])

lemma insert_empty_ok:
  assumes rep: "rb_rep B s par sn (m, s) Lf" and new: "rb_new B s Lf node k"
  shows "\<exists>st. ngx_rbtree_insert ins s node (m, s) = Some st \<and> rb_rep B s 0 sn st (Br node k False Lf Lf)"
proof -
  obtain nn where nn: "m node = Some nn" "rb_key nn = k" using rep new by (auto simp: rb_rep_def rb_new_def)
  then have "ngx_rbtree_insert ins s node (m, s) = Some (m(node \<mapsto> node_of False k False s s 0), node)"
    by (simp add: ngx_rbtree_insert_def node_of_fresh)
  then show ?thesis using rep new by (auto simp: rb_rep_def rb_new_def)
qed

lemma rb_insert_ok:
  assumes rep: "rb_rep B s par sn st t" and black: "\<not> rb_red sn" and rbt: "rb_tree t" and new: "rb_new B s t node k"
    and ord: "key_order lt K" "key_sorted lt (rb_inorder t)" "k \<in> K" "snd ` set (rb_inorder t) \<subseteq> K"
  shows "\<exists>st' par' t'. ngx_rbtree_insert (rb_insert_with lt) s node st = Some st' \<and> rb_rep B s par' sn st' t' \<and> rb_tree t' \<and>
    rb_inorder t' = ins_list lt (node, k) (rb_inorder t)"
proof (cases "t = Lf")
  case True
  then have st: "st = (fst st, s)" using rep by (metis prod.collapse rb_ptr.simps(1) rb_rep_def)
  obtain st' where "ngx_rbtree_insert (rb_insert_with lt) s node st = Some st'" "rb_rep B s 0 sn st' (Br node k False Lf Lf)"
    using insert_empty_ok [of B s par sn "fst st" node k] rep new True st by metis
  moreover have "rb_tree (Br node k False Lf Lf)" by (auto simp: rb_tree_def intro: exI [of _ 1])
  moreover have "rb_inorder (Br node k False Lf Lf) = ins_list lt (node, k) (rb_inorder t)" by (simp add: ins_list_def True)
  ultimately show ?thesis by blast
next
  case False
  obtain m root where st: "st = (m, root)" by fastforce
  have at: "rb_at m s par t" "root = rb_ptr s t" "s \<notin> set (rb_addrs t)" "root \<noteq> s"
    using rep False rb_ptr_mem [of t s] by (auto simp: rb_rep_def st)
  obtain nn where nn: "m node = Some nn" "rb_key nn = k" using rep new by (auto simp: rb_rep_def rb_new_def st)
  obtain a ka c d y gs where walk: "insert_walk lt s m k root = Some (a, d)"
    and pl: "rb_plug Lf ((a, ka, c, d, y) # gs) = t"
    and pp: "\<forall>x\<in>set (pre ((a, ka, c, d, y) # gs)). \<not> lt k (snd x)" "\<forall>x\<in>set (post ((a, ka, c, d, y) # gs)). lt k (snd x)"
    using walk_ok [OF at(1) False at(3) ord(1), of "[]" k] ord(2-4) at(2) by auto
  let ?fs = "(a, ka, c, d, y) # gs" and ?n = "Br node k True Lf Lf"
  obtain m1 where m1: "rb_insert_with lt root node s m = Some m1" "rb_rep B s par sn (m1, root) (rb_plug ?n ?fs)"
    using link_ok [of B s par sn m root a ka c d y gs node nn k] rep new nn pl walk
    unfolding st rb_new_def rb_insert_with_def by (auto simp: nn)
  obtain n0 where "good n0 (rb_plug Lf ?fs)" "\<not> is_red (rb_plug Lf ?fs)" using rbt pl unfolding rb_tree_def by blast
  then obtain n where n: "n = 0" "ctx_good n ?fs" using good_split by fastforce
  obtain m2 root2 t2 where fx: "insert_fix s node (m1, root) = Some (m2, root2)" "rb_rep B s par sn (m2, root2) t2"
    "rb_inorder t2 = rb_inorder (rb_plug ?n ?fs)" "t2 \<noteq> Lf" "\<exists>n. good n t2"
    using insert_fix_ok [OF m1(2) black, of n] n by auto
  obtain b kb cb x z where t2: "t2 = br False b kb cb x z" using rb_cases fx(4) by blast
  then have r2: "root2 = b" "rb_rep B s par sn (m2, root2) (rb_plug (br False b kb cb x z) [])" using fx(2) by (simp_all add: rb_rep_def)
  obtain m3 where m3: "ngx_rbt_black root2 m2 = Some m3" "rb_rep B s par sn (m3, root2) (br False b kb False x z)"
    using rep_paint [OF r2(2), of False] r2(1) unfolding ngx_rbt_black_def by auto
  have "ngx_rbtree_insert (rb_insert_with lt) s node st = Some (m3, root2)"
    using at(4) m1(1) fx(1) m3(1) by (simp add: ngx_rbtree_insert_def st)
  moreover have "rb_tree (br False b kb False x z)"
    using fx(5) rb_tree_black_root [OF t2] fx(4) by (auto simp: rb_tree_def)
  moreover have "rb_inorder (br False b kb False x z) = ins_list lt (node, k) (rb_inorder t)"
  proof -
    have "rb_inorder (br False b kb False x z) = pre ?fs @ (node, k) # post ?fs"
      using fx(3) unfolding t2 inorder_plug by (simp add: inorder_br)
    also have "\<dots> = ins_list lt (node, k) (pre ?fs @ post ?fs)"
      using ins_list_split [of "pre ?fs" lt "(node, k)" "post ?fs"] pp by simp
    also have "pre ?fs @ post ?fs = rb_inorder t" using inorder_plug [of Lf ?fs] pl by simp
    finally show ?thesis .
  qed
  ultimately show ?thesis using m3(2) by blast
qed

end
