(* ===== verification/Ngx_Rbtree_Delete.thy ===== *)
theory Ngx_Rbtree_Delete
  imports Ngx_Rbtree
begin

text \<open>
  nginx, \<^verbatim>\<open>src/core/ngx_rbtree.c\<close>: removing a node from the red-black tree, the walk to the smallest node and the walk to
  the next one. At the end the operations are put together: the tree implements a sorted list of nodes.
\<close>

section \<open>Deletion\<close>

text \<open>Painting in terms of the code's macros.\<close>

lemma rep_black:
  assumes "rb_rep B s par sn (m, root) (rb_plug (br d a k c x y) fs)"
  obtains m' where "ngx_rbt_black a m = Some m'" "rb_rep B s par sn (m', root) (rb_plug (br d a k False x y) fs)"
  using rep_paint [OF assms, of False] that unfolding ngx_rbt_black_def by blast

lemma rep_red:
  assumes "rb_rep B s par sn (m, root) (rb_plug (br d a k c x y) fs)"
  obtains m' where "ngx_rbt_red a m = Some m'" "rb_rep B s par sn (m', root) (rb_plug (br d a k True x y) fs)"
  using rep_paint [OF assms, of True] that unfolding ngx_rbt_red_def by blast

lemma rep_turn:
  assumes "rb_rep B s par sn (m, root) (rb_plug (br d a k c x (br d b k' c' y z)) fs)"
  obtains m' root' where "rotate_of d s a (m, root) = Some (m', root')"
    "rb_rep B s par sn (m', root') (rb_plug (br d b k' c' (br d a k c x y) z) fs)"
  using rep_rotate [OF assms] that by (metis prod.collapse)

text \<open>The sibling of a node that lacks a black node exists.\<close>

lemma sibling_ok:
  assumes rep: "rb_rep B s par sn (m, root) (rb_plug t ((p, kp, cp, d, w) # fs))" and black: "\<not> rb_red sn"
    and ctx: "ctx_good (Suc n) ((p, kp, cp, d, w) # fs)"
  shows "\<exists>st b kb x z cp' fs'. delete_sibling d s p (m, root) = Some (st, b) \<and>
    rb_rep B s par sn st (rb_plug t ((p, kp, cp', d, br d b kb False x z) # fs')) \<and>
    rb_inorder (rb_plug t ((p, kp, cp', d, br d b kb False x z) # fs')) = rb_inorder (rb_plug t ((p, kp, cp, d, w) # fs)) \<and>
    ctx_good (Suc n) ((p, kp, cp', d, br d b kb False x z) # fs') \<and> (cp' \<or> fs' = fs)"
proof -
  have "w \<noteq> Lf" using ctx by auto
  then obtain b kb cb x z where w: "w = br d b kb cb x z" using rb_cases by blast
  note nodes = rep_nodes [OF rep]
  have wred: "ngx_rbt_is_red b m = Some cb" using is_red_code [OF nodes(3,4) black] w by simp
  show ?thesis
  proof (cases cb)
    case False
    then have "delete_sibling d s p (m, root) = Some ((m, root), b)"
      using nodes(1) wred w by (simp add: delete_sibling_def Let_def)
    moreover have "w = br d b kb False x z" using w False by simp
    ultimately show ?thesis using rep ctx by blast
  next
    case True
    have c: "\<not> cp" "good (Suc n) x" "good (Suc n) z" "\<not> is_red x" "\<not> is_red z" "ctx_good (Suc (Suc n)) fs"
      using ctx w True by (auto split: if_splits)
    have "rb_rep B s par sn (m, root) (rb_plug (br d b kb cb x z) ((p, kp, cp, \<not> d, t) # fs))"
      using rep w by (simp add: br_flip)
    from rep_black [OF this] obtain m1 where
      m1: "ngx_rbt_black b m = Some m1" "rb_rep B s par sn (m1, root) (rb_plug (br d p kp cp t (br d b kb False x z)) fs)"
      by (auto simp: br_flip)
    from rep_red [OF m1(2)] obtain m2 where
      m2: "ngx_rbt_red p m1 = Some m2" "rb_rep B s par sn (m2, root) (rb_plug (br d p kp True t (br d b kb False x z)) fs)" .
    from rep_turn [OF m2(2)] obtain m3 root3 where
      m3: "rotate_of d s p (m2, root) = Some (m3, root3)"
      "rb_rep B s par sn (m3, root3) (rb_plug t ((p, kp, True, d, x) # (b, kb, False, d, z) # fs))" by auto
    have "m3 p = Some (node_of d kp True (rb_ptr s t) (rb_ptr s x) b)" using rep_nodes(1) [OF m3(2)] by simp
    then have sib: "delete_sibling d s p (m, root) = Some ((m3, root3), rb_ptr s x)"
      using nodes(1) wred w True m1(1) m2(1) m3(1) by (simp add: delete_sibling_def Let_def)
    have "x \<noteq> Lf" using c(2) by auto
    then obtain b' kb' x' z' where x: "x = br d b' kb' False x' z'" using rb_cases [of x d] c(4) by (metis is_red_br)
    let ?fs = "(b, kb, False, d, z) # fs"
    have "rb_inorder (rb_plug t ((p, kp, True, d, x) # ?fs)) = rb_inorder (rb_plug t ((p, kp, cp, d, w) # fs))"
      unfolding rb_plug.simps by (rule inorder_plug_cong) (simp add: inorder_br w)
    moreover have "ctx_good (Suc n) ((p, kp, True, d, x) # ?fs)" using c by simp
    ultimately show ?thesis
      using sib m3(2) unfolding x rb_ptr_br
      by (intro exI [of _ "(m3, root3)"] exI [of _ b'] exI [of _ kb'] exI [of _ x'] exI [of _ z'] exI [of _ True] exI [of _ ?fs]) simp
  qed
qed


text \<open>The sibling gives a black node up: all of it moves up, or a rotation ends the loop.\<close>

lemma final_turn:
  assumes rep: "rb_rep B s par sn (m, root) (rb_plug t ((p, kp, cp, d, br d b kb False x z) # fs))"
    and good: "good n t" "ctx_good (Suc n) ((p, kp, cp, d, br d b kb cb x z) # fs)" "good n x" "z = br d e ke True z1 z2" "good n z1" "good n z2"
      "\<not> cb"
  shows "\<exists>st T. do { m \<leftarrow> ngx_rbt_copy_color b p m; m \<leftarrow> ngx_rbt_black p m; wn \<leftarrow> m b; m \<leftarrow> ngx_rbt_black (rb_child (\<not> d) wn) m;
      (m, root) \<leftarrow> rotate_of d s p (m, root); Some (root, (m, root)) } = Some (snd st, st) \<and>
    rb_rep B s par sn st T \<and> rb_tree T \<and> rb_inorder T = rb_inorder (rb_plug t ((p, kp, cp, d, br d b kb False x z) # fs))"
proof -
  note nodes = rep_nodes [OF rep]
  have r0: "rb_rep B s par sn (m, root) (rb_plug (br d b kb False x z) ((p, kp, cp, \<not> d, t) # fs))"
    using rep by (simp add: br_flip)
  from rep_paint [OF r0, of cp] obtain m1 where
    m1: "ngx_rbt_copy_color b p m = Some m1" "rb_rep B s par sn (m1, root) (rb_plug (br d p kp cp t (br d b kb cp x z)) fs)"
    using nodes(1) by (auto simp: ngx_rbt_copy_color_def br_flip)
  from rep_black [OF m1(2)] obtain m2 where
    m2: "ngx_rbt_black p m1 = Some m2" "rb_rep B s par sn (m2, root) (rb_plug (br d p kp False t (br d b kb cp x z)) fs)" .
  have b2: "m2 b = Some (node_of d kb cp (rb_ptr s x) e p)"
    using m2(2) good(4) unfolding rep_plug by simp
  have "rb_rep B s par sn (m2, root) (rb_plug (br d e ke True z1 z2) ((b, kb, cp, \<not> d, x) # (p, kp, False, \<not> d, t) # fs))"
    using m2(2) good(4) by (simp add: br_flip)
  from rep_black [OF this] obtain m3 where
    m3: "ngx_rbt_black e m2 = Some m3" "rb_rep B s par sn (m3, root) (rb_plug (br d p kp False t (br d b kb cp x (br d e ke False z1 z2))) fs)"
    by (auto simp: br_flip)
  let ?u = "br d b kb cp (br d p kp False t x) (br d e ke False z1 z2)"
  from rep_turn [OF m3(2)] obtain m4 root4 where
    m4: "rotate_of d s p (m3, root) = Some (m4, root4)" "rb_rep B s par sn (m4, root4) (rb_plug ?u fs)" .
  have u: "good (if cp then Suc n else Suc (Suc n)) ?u" using good by simp
  have c: "ctx_good (if cp then Suc n else Suc (Suc n)) fs" "cp \<longrightarrow> fs \<noteq> [] \<and> \<not> top_red fs" using good(2) by (auto split: if_splits)
  have "rb_tree (rb_plug ?u fs)"
    using good_plug [OF u c(1)] c(2) by (cases fs) (auto simp: rb_tree_def simp del: rb_plug.simps(2) intro: exI [of _ "Suc (Suc n)"])
  moreover have "rb_inorder (rb_plug ?u fs) = rb_inorder (rb_plug t ((p, kp, cp, d, br d b kb False x z) # fs))"
    unfolding rb_plug.simps by (rule inorder_plug_cong) (simp add: inorder_br good(4))
  ultimately show ?thesis
    using m1(1) m2(1) b2 m3(1) m4 by (intro exI [of _ "(m4, root4)"] exI [of _ "rb_plug ?u fs"]) simp
qed

lemma delete_turn_ok:
  assumes rep: "rb_rep B s par sn (m, root) (rb_plug t ((p, kp, cp, d, br d b kb False x z) # fs))" and black: "\<not> rb_red sn"
    and good: "good n t" "ctx_good (Suc n) ((p, kp, cp, d, br d b kb False x z) # fs)"
  shows "(\<exists>st. delete_turn d s p b (m, root) = Some (p, st) \<and> good n x \<and> good n z \<and> \<not> is_red x \<and> \<not> is_red z \<and>
       rb_rep B s par sn st (rb_plug (br d p kp cp t (br d b kb True x z)) fs)) \<or>
    (\<exists>st T. delete_turn d s p b (m, root) = Some (snd st, st) \<and> rb_rep B s par sn st T \<and> rb_tree T \<and>
       rb_inorder T = rb_inorder (rb_plug t ((p, kp, cp, d, br d b kb False x z) # fs)))"
proof -
  note nodes = rep_nodes [OF rep]
  have g: "good n x" "good n z" using good(2) by auto
  have wn: "m b = Some (node_of d kb False (rb_ptr s x) (rb_ptr s z) p)" "rb_at m s b x" "rb_at m s b z" using nodes(3) by auto
  have reds: "ngx_rbt_is_red (rb_ptr s x) m = Some (is_red x)" "ngx_rbt_is_red (rb_ptr s z) m = Some (is_red z)"
    using is_red_code wn(2,3) nodes(4) black by blast+
  have lr: "do { l \<leftarrow> ngx_rbt_is_red (rb_left (node_of d kb False (rb_ptr s x) (rb_ptr s z) p)) m;
      r \<leftarrow> ngx_rbt_is_red (rb_right (node_of d kb False (rb_ptr s x) (rb_ptr s z) p)) m; f l r } =
      (if d then f (is_red z) (is_red x) else f (is_red x) (is_red z))" for f :: "bool \<Rightarrow> bool \<Rightarrow> (nat \<times> rb_state) option"
    using reds by (cases d) (simp_all add: node_of_def)
  have turn: "delete_turn d s p b (m, root) =
      (if \<not> is_red x \<and> \<not> is_red z then do { m \<leftarrow> ngx_rbt_red b m; Some (p, (m, root)) }
       else do {
         ((m, root), w) \<leftarrow>
           (if \<not> is_red z then do {
              m \<leftarrow> ngx_rbt_black (rb_ptr s x) m; m \<leftarrow> ngx_rbt_red b m; (m, root) \<leftarrow> rotate_of (\<not> d) s b (m, root);
              p \<leftarrow> m p; Some ((m, root), rb_child (\<not> d) p) }
            else Some ((m, root), b));
         m \<leftarrow> ngx_rbt_copy_color w p m; m \<leftarrow> ngx_rbt_black p m; wn \<leftarrow> m w; m \<leftarrow> ngx_rbt_black (rb_child (\<not> d) wn) m;
         (m, root) \<leftarrow> rotate_of d s p (m, root); Some (root, (m, root)) })"
    unfolding delete_turn_def prod.case wn(1) Option.bind.simps lr node_of_sel reds
    by (simp only: conj_commute [of "\<not> is_red z"] if_cancel)
  have r0: "rb_rep B s par sn (m, root) (rb_plug (br d b kb False x z) ((p, kp, cp, \<not> d, t) # fs))"
    using rep by (simp add: br_flip)
  show ?thesis
  proof (cases "is_red x \<or> is_red z")
    case False
    obtain m1 where m1: "ngx_rbt_red b m = Some m1" "rb_rep B s par sn (m1, root) (rb_plug (br d p kp cp t (br d b kb True x z)) fs)"
      using rep_red [OF r0] by (auto simp: br_flip)
    have "delete_turn d s p b (m, root) = Some (p, (m1, root))"
      using False m1(1) by (simp add: turn)
    then show ?thesis using m1(2) g False by blast
  next
    case red: True
    show ?thesis
    proof (cases "is_red z")
      case True
      then obtain e ke z1 z2 where z: "z = br d e ke True z1 z2" using rb_cases [of z d] by (metis is_red.simps(1) is_red_br)
      obtain st T where fin: "do { m \<leftarrow> ngx_rbt_copy_color b p m; m \<leftarrow> ngx_rbt_black p m; wn \<leftarrow> m b; m \<leftarrow> ngx_rbt_black (rb_child (\<not> d) wn) m;
          (m, root) \<leftarrow> rotate_of d s p (m, root); Some (root, (m, root)) } = Some (snd st, st)"
        "rb_rep B s par sn st T" "rb_tree T" "rb_inorder T = rb_inorder (rb_plug t ((p, kp, cp, d, br d b kb False x z) # fs))"
        using final_turn [OF rep good g(1) z] g(2) z by auto
      have "delete_turn d s p b (m, root) = Some (snd st, st)"
        using True fin(1) by (simp add: turn)
      then show ?thesis using fin(2-4) by blast
    next
      case False
      then have "is_red x" using red by simp
      then obtain e ke x1 x2 where x: "x = br d e ke True x1 x2" using rb_cases [of x d] by (metis is_red.simps(1) is_red_br)
      have gx: "good n x1" "good n x2" "\<not> is_red x1" "\<not> is_red x2" using g(1) x by auto
      have "rb_rep B s par sn (m, root) (rb_plug (br d e ke True x1 x2) ((b, kb, False, d, z) # (p, kp, cp, \<not> d, t) # fs))"
        using r0 x by simp
      from rep_black [OF this] obtain m1 where
        m1: "ngx_rbt_black e m = Some m1" "rb_rep B s par sn (m1, root) (rb_plug (br d b kb False (br d e ke False x1 x2) z) ((p, kp, cp, \<not> d, t) # fs))"
        by auto
      from rep_red [OF m1(2)] obtain m2 where
        m2: "ngx_rbt_red b m1 = Some m2" "rb_rep B s par sn (m2, root) (rb_plug (br (\<not> d) b kb True z (br (\<not> d) e ke False x2 x1)) ((p, kp, cp, \<not> d, t) # fs))"
        by (auto simp: br_flip)
      let ?z = "br d b kb True x2 z"
      from rep_turn [OF m2(2)] obtain m3 root3 where
        m3: "rotate_of (\<not> d) s b (m2, root) = Some (m3, root3)"
        "rb_rep B s par sn (m3, root3) (rb_plug t ((p, kp, cp, d, br d e ke False x1 ?z) # fs))"
        by (auto simp: br_flip)
      have p3: "m3 p = Some (node_of d kp cp (rb_ptr s t) e (rb_up par fs))" using rep_nodes(1) [OF m3(2)] by simp
      have ctx: "ctx_good (Suc n) ((p, kp, cp, d, br d e ke False x1 ?z) # fs)" using good(2) g gx False by (auto split: if_splits)
      obtain st T where fin: "do { m \<leftarrow> ngx_rbt_copy_color e p m3; m \<leftarrow> ngx_rbt_black p m; wn \<leftarrow> m e; m \<leftarrow> ngx_rbt_black (rb_child (\<not> d) wn) m;
          (m, root) \<leftarrow> rotate_of d s p (m, root3); Some (root, (m, root)) } = Some (snd st, st)"
        "rb_rep B s par sn st T" "rb_tree T" "rb_inorder T = rb_inorder (rb_plug t ((p, kp, cp, d, br d e ke False x1 ?z) # fs))"
        using final_turn [OF m3(2) good(1) ctx gx(1) refl gx(2) g(2)] by auto
      have "delete_turn d s p b (m, root) = Some (snd st, st)"
        using False m1(1) m2(1) m3(1) p3 fin(1) by (simp add: turn x)
      moreover have "rb_inorder T = rb_inorder (rb_plug t ((p, kp, cp, d, br d b kb False x z) # fs))"
        unfolding fin(4) rb_plug.simps by (rule inorder_plug_cong) (simp add: inorder_br x)
      ultimately show ?thesis using fin(2,3) by blast
    qed
  qed
qed


text \<open>The loop runs on a tree that lacks a black node at one place; a red node there may have red children.\<close>

definition weak :: "nat \<Rightarrow> rbt \<Rightarrow> bool" where
  "weak n t = (case t of Lf \<Rightarrow> n = 0 | Br a k c l r \<Rightarrow> if c then good n l \<and> good n r else good n t)"

lemma weak_br: "weak n (br d a k c x y) \<longleftrightarrow> (if c then good n x \<and> good n y else good n (br d a k c x y))"
  by (cases d) (auto simp: weak_def br_def)

lemma weak_black: "\<not> is_red t \<Longrightarrow> weak n t \<longleftrightarrow> good n t"
  by (cases t) (auto simp: weak_def)

definition paint_last :: "(nat \<times> rb_state) option \<Rightarrow> rb_state option" where
  "paint_last res = do { (temp, (m, root)) \<leftarrow> res; m \<leftarrow> ngx_rbt_black temp m; Some (m, root) }"

lemma paint_root:
  assumes rep: "rb_rep B s par sn (m, root) T" and black: "\<not> rb_red sn" "\<not> is_red T"
  shows "\<exists>st. paint_last (Some (root, (m, root))) = Some st \<and> rb_rep B s par sn st T"
proof (cases T)
  case Lf
  then have "root = s" "m s = Some sn" using rep by (simp_all add: rb_rep_def)
  moreover have "sn\<lparr>rb_red := False\<rparr> = sn" using black(1) by (cases sn) simp
  ultimately have "paint_last (Some (root, (m, root))) = Some (m, root)"
    by (simp add: paint_last_def ngx_rbt_black_def fun_upd_idem)
  then show ?thesis using rep by blast
next
  case (Br a k c l r)
  then have T: "T = rb_plug (br False a k False l r) []" "root = a" using black(2) rep by (simp_all add: br_def rb_rep_def)
  obtain m' where "ngx_rbt_black a m = Some m'" "rb_rep B s par sn (m', root) (rb_plug (br False a k False l r) [])"
    using rep_black rep unfolding T(1) by blast
  then show ?thesis using T by (auto simp: paint_last_def)
qed

lemma delete_fix_red:
  assumes rep: "rb_rep B s par sn (m, root) (rb_plug t fs)" and red: "is_red t" "weak n t" and ctx: "ctx_good (Suc n) fs"
  shows "\<exists>st T. paint_last (delete_fix s (rb_ptr s t) (m, root)) = Some st \<and> rb_rep B s par sn st T \<and> rb_tree T \<and>
    rb_inorder T = rb_inorder (rb_plug t fs)"
proof -
  obtain a k c x y where t: "t = br False a k True x y" using red(1) rb_cases [of t False] by (metis is_red.simps(1) is_red_br)
  have g: "good n x" "good n y" using red(2) t by (simp_all add: weak_br)
  have "m a = Some (node_of False k True (rb_ptr s x) (rb_ptr s y) (rb_up par fs))" using rep unfolding rep_plug t by simp
  then have "delete_fix s a (m, root) = Some (a, (m, root))" by (subst delete_fix.simps) (simp add: ngx_rbt_is_red_def)
  moreover obtain m' where "ngx_rbt_black a m = Some m'" "rb_rep B s par sn (m', root) (rb_plug (br False a k False x y) fs)"
    using rep_black rep unfolding t by blast
  moreover have "rb_tree (rb_plug (br False a k False x y) fs)"
    using good_plug [of "Suc n" "br False a k False x y" fs] g ctx
    by (cases "fs = []") (auto simp: rb_tree_def intro: exI [of _ "Suc n"])
  moreover have "rb_inorder (rb_plug (br False a k False x y) fs) = rb_inorder (rb_plug t fs)"
    by (rule inorder_plug_cong) (simp add: inorder_br t)
  ultimately show ?thesis by (auto simp: paint_last_def t)
qed

lemma delete_fix_ok:
  assumes "rb_rep B s par sn (m, root) (rb_plug t fs)" "\<not> rb_red sn" "weak n t" "ctx_good (Suc n) fs"
    "t = Lf \<Longrightarrow> fs \<noteq> [] \<Longrightarrow> rb_parent sn = rb_up par fs"
  shows "\<exists>st T. paint_last (delete_fix s (rb_ptr s t) (m, root)) = Some st \<and> rb_rep B s par sn st T \<and> rb_tree T \<and>
    rb_inorder T = rb_inorder (rb_plug t fs)"
  using assms
proof (induction fs arbitrary: m root t n)
  case Nil
  then have root: "rb_ptr s t = root" by (simp add: rb_rep_def)
  show ?case
  proof (cases "is_red t")
    case True
    then show ?thesis using delete_fix_red [OF Nil.prems(1)] Nil.prems by blast
  next
    case False
    have "delete_fix s (rb_ptr s t) (m, root) = Some (root, (m, root))" using root by (subst delete_fix.simps) simp
    moreover have "rb_tree t" using Nil.prems(3) False weak_black by (auto simp: rb_tree_def)
    ultimately show ?thesis using paint_root [of B s par sn m root t] Nil.prems(1,2) False by auto
  qed
next
  case (Cons f fs)
  show ?case
  proof (cases "is_red t")
    case True
    then show ?thesis using delete_fix_red [OF Cons.prems(1)] Cons.prems by blast
  next
    case False
    obtain p kp cp d w where f: "f = (p, kp, cp, d, w)" by (metis prod_cases5)
    note rep = Cons.prems(1) [unfolded f] and black = Cons.prems(2) and ctx = Cons.prems(4) [unfolded f]
    have g: "good n t" using Cons.prems(3) False weak_black by blast
    note nodes = rep_nodes [OF rep]
    have wn: "w \<noteq> Lf" using ctx by auto
    have side: "rb_ptr s t = rb_left (node_of d kp cp (rb_ptr s t) (rb_ptr s w) (rb_up par fs)) \<longleftrightarrow> \<not> d"
      using nodes(7) wn by (auto simp: node_of_def)
    have tred: "ngx_rbt_is_red (rb_ptr s t) m = Some False" using is_red_code [OF nodes(2,4) black] False by simp
    have nr: "rb_ptr s t \<noteq> root"
    proof (cases "t = Lf")
      case True
      have "root \<in> set (rb_ctx_addrs (f # fs))" using rb_ptr_plug_ctx [of "f # fs" s t] Cons.prems(1) unfolding rep_plug by auto
      moreover have "s \<notin> set (rb_ctx_addrs (f # fs))" using Cons.prems(1) unfolding rep_plug by auto
      ultimately show ?thesis using True by auto
    qed (use rep_root_iff [OF Cons.prems(1)] in simp)
    obtain tn where tn: "m (rb_ptr s t) = Some tn" "rb_parent tn = p"
      using nodes(2,4) Cons.prems(5) f by (cases t) auto
    obtain st b kb x z cp' fs' where sib: "delete_sibling d s p (m, root) = Some (st, b)"
      "rb_rep B s par sn st (rb_plug t ((p, kp, cp', d, br d b kb False x z) # fs'))"
      "rb_inorder (rb_plug t ((p, kp, cp', d, br d b kb False x z) # fs')) = rb_inorder (rb_plug t (f # fs))"
      "ctx_good (Suc n) ((p, kp, cp', d, br d b kb False x z) # fs')" "cp' \<or> fs' = fs"
      using sibling_ok [OF rep black ctx] unfolding f by blast
    obtain m1 root1 where st: "st = (m1, root1)" by fastforce
    have step: "delete_fix s (rb_ptr s t) (m, root) = do { (temp, st) \<leftarrow> delete_turn d s p b st; delete_fix s temp st }"
      using nr tred tn nodes(1) side sib(1) by (subst delete_fix.simps) (simp add: Let_def)
    consider (up) st2 where "delete_turn d s p b st = Some (p, st2)" "good n x" "good n z" "\<not> is_red x" "\<not> is_red z"
        "rb_rep B s par sn st2 (rb_plug (br d p kp cp' t (br d b kb True x z)) fs')"
      | (fin) st2 T where "delete_turn d s p b st = Some (snd st2, st2)" "rb_rep B s par sn st2 T" "rb_tree T"
        "rb_inorder T = rb_inorder (rb_plug t (f # fs))"
      using delete_turn_ok [OF sib(2) [unfolded st] black g sib(4)] unfolding st sib(3) by blast
    then show ?thesis
    proof cases
      case up
      let ?t = "br d p kp cp' t (br d b kb True x z)"
      obtain m2 root2 where st2: "st2 = (m2, root2)" by fastforce
      have io: "rb_inorder (rb_plug ?t fs') = rb_inorder (rb_plug t (f # fs))"
        unfolding sib(3) [symmetric] rb_plug.simps by (rule inorder_plug_cong) (simp add: inorder_br)
      have wk: "weak (if cp' then n else Suc n) ?t" using g up(2-5) by (simp add: weak_br)
      have "\<exists>st T. paint_last (delete_fix s (rb_ptr s ?t) (m2, root2)) = Some st \<and> rb_rep B s par sn st T \<and> rb_tree T \<and>
          rb_inorder T = rb_inorder (rb_plug ?t fs')"
      proof (cases cp')
        case True
        then show ?thesis
          using delete_fix_red [OF up(6) [unfolded st2], of n] wk sib(4) by simp
      next
        case False
        then have "fs' = fs" "ctx_good (Suc (Suc n)) fs" using sib(4,5) by auto
        then show ?thesis using Cons.IH [of m2 root2 ?t "Suc n"] up(6) st2 black wk False by simp
      qed
      then show ?thesis using step up(1) st2 io by simp
    next
      case fin
      obtain m2 root2 where st2: "st2 = (m2, root2)" by fastforce
      have "delete_fix s root2 st2 = Some (root2, st2)" by (subst delete_fix.simps) (simp add: st2)
      then have "delete_fix s (rb_ptr s t) (m, root) = Some (root2, st2)" using step fin(1) st2 by simp
      then show ?thesis
        using paint_root [of B s par sn m2 root2 T] fin(2-4) black st2 by (auto simp: rb_tree_def)
    qed
  qed
qed


section \<open>Taking a node out\<close>

lemma plug_append: "rb_plug t (gs @ fs) = rb_plug (rb_plug t gs) fs"
  by (induction t gs rule: rb_plug.induct) simp_all

lemma up_append: "rb_up par (gs @ fs) = rb_up (rb_up par fs) gs"
  by (cases gs) auto

lemma ctx_append:
  "rb_ctx m s par (gs @ f # fs) p \<longleftrightarrow>
     rb_ctx m s (rb_up par (f # fs)) gs p \<and> rb_ctx m s par (f # fs) (if gs = [] then p else rb_ptr s (rb_plug Lf gs))"
proof (induction gs arbitrary: p)
  case (Cons g gs)
  obtain a k c d y where "g = (a, k, c, d, y)" by (metis prod_cases5)
  then show ?case using Cons.IH [of a] rb_ptr_plug [of s Lf "br d a k c Lf y" gs]
    by (cases gs) (auto simp: up_append)
qed simp

lemma ctx_addrs_append: "rb_ctx_addrs (gs @ fs) = rb_ctx_addrs gs @ rb_ctx_addrs fs"
  by (induction gs rule: rb_ctx_addrs.induct) simp_all

lemma pre_append: "pre (gs @ fs) = pre fs @ pre gs"
  by (induction gs rule: pre.induct) simp_all

lemma post_append: "post (gs @ fs) = post gs @ post fs"
  by (induction gs rule: post.induct) simp_all

lemma ctx_good_rename: "ctx_good n (gs @ (a, k, c, d, y) # fs) \<longleftrightarrow> ctx_good n (gs @ (b, k', c, d, y) # fs)"
proof (induction gs arbitrary: n)
  case (Cons g gs)
  obtain e ke ce de ye where "g = (e, ke, ce, de, ye)" by (metis prod_cases5)
  then show ?case using Cons.IH by (cases gs) auto
qed simp

lemma top_red_rename: "top_red (gs @ (a, k, c, d, y) # fs) = top_red (gs @ (b, k', c, d, y) # fs)"
  by (cases gs) auto

text \<open>Setting the parent of a child writes the sentinel when the child is missing.\<close>

definition adopt :: "nat \<Rightarrow> nat \<Rightarrow> rbt \<Rightarrow> rb_mem \<Rightarrow> rb_mem" where
  "adopt s q x m = m(rb_ptr s x \<mapsto> set_parent q (the (m (rb_ptr s x))))"

lemma adopt_facts:
  assumes "rb_at m s p x" "m s = Some sn" "s \<notin> set (rb_addrs x)" "distinct (rb_addrs x)"
  shows "wr (rb_ptr s x) (set_parent q) m = Some (adopt s q x m)" "rb_at (adopt s q x m) s q x"
    "adopt s q x m s = Some (if x = Lf then set_parent q sn else sn)"
    "z \<notin> set (rb_addrs x) \<Longrightarrow> z \<noteq> s \<Longrightarrow> adopt s q x m z = m z"
  using assms by (cases x; auto simp: adopt_def rb_at_frame node_of_def set_parent_def)+

lemma adopt_frame:
  "s \<notin> set (rb_ctx_addrs fs) \<Longrightarrow> set (rb_addrs x) \<inter> set (rb_ctx_addrs fs) = {} \<Longrightarrow>
     rb_ctx (adopt s q x m) s par fs p = rb_ctx m s par fs p"
  by (cases x) (auto simp: adopt_def rb_ctx_frame)

text \<open>The node below \<open>fs\<close>, which has one child \<open>x\<close> at most, is cut out and \<open>x\<close> takes its place.\<close>

lemma splice:
  assumes rep: "rb_rep B s par sn (m, root) (rb_plug (br d a k c Lf x) fs)" and fs: "fs \<noteq> []"
  shows "\<exists>pn m1 m2. m (rb_up par fs) = Some pn \<and>
    wr (rb_up par fs) (set_child (a \<noteq> rb_left pn) (rb_ptr s x)) m = Some m1 \<and>
    wr (rb_ptr s x) (set_parent q) m1 = Some m2 \<and> rb_at m2 s q x \<and> rb_ctx m2 s par fs (rb_ptr s x) \<and>
    m2 s = Some (if x = Lf then set_parent q sn else sn) \<and>
    (\<forall>z. z \<notin> set (rb_addrs x) \<and> z \<notin> set (rb_ctx_addrs fs) \<and> z \<noteq> s \<longrightarrow> m2 z = m z)"
proof -
  have r: "rb_at m s a x" "rb_ctx m s par fs a" "m s = Some sn" "s \<notin> set (rb_addrs x)" "s \<notin> set (rb_ctx_addrs fs)"
    "distinct (rb_addrs x)" "distinct (rb_ctx_addrs fs)" "set (rb_addrs x) \<inter> set (rb_ctx_addrs fs) = {}" "a \<notin> set (rb_ctx_addrs fs)" "a \<noteq> s"
    using rep unfolding rep_plug by auto
  let ?m1 = "relink s par (rb_ptr s x) fs m"
  obtain pn where pn: "m (rb_up par fs) = Some pn" "wr (rb_up par fs) (set_child (a \<noteq> rb_left pn) (rb_ptr s x)) m = Some ?m1"
    using relink_code [OF r(2) fs r(9,10)] by blast
  have m1: "rb_at ?m1 s a x" "?m1 s = Some sn" "rb_ctx ?m1 s par fs (rb_ptr s x)"
    using r relink_ctx [OF r(2,7)] by (simp_all add: relink_frame relink_other)
  note ad = adopt_facts [OF m1(1,2) r(4,6)]
  have "rb_ctx (adopt s q x ?m1) s par fs (rb_ptr s x)" using m1(3) r(5,8) by (simp add: adopt_frame)
  moreover have "\<forall>z. z \<notin> set (rb_addrs x) \<and> z \<notin> set (rb_ctx_addrs fs) \<and> z \<noteq> s \<longrightarrow> adopt s q x ?m1 z = m z"
    using ad(4) relink_other by metis
  ultimately show ?thesis using pn ad(1) [of q] ad(2) [of q] ad(3) [of q] by blast
qed

text \<open>The node \<open>b\<close>, which is outside the tree, takes the place and the colour of \<open>n\<close>.\<close>

lemma transplant_ok:
  assumes n: "m n = Some (node_of False kn cn (rb_ptr s l) (rb_ptr s r) (rb_up par fs))"
    and at: "rb_at m s ql l" "rb_at m s qr r" "rb_ctx m s par fs n" "m b = Some bn" "rb_key bn = kb" "m s = Some sn"
    and dis: "distinct (b # n # rb_addrs l @ rb_addrs r @ rb_ctx_addrs fs)" "s \<notin> set (b # n # rb_addrs l @ rb_addrs r @ rb_ctx_addrs fs)"
    and root: "root = rb_ptr s (rb_plug (Br n kn cn l r) fs)"
  shows "\<exists>st. rb_transplant s b n (m, root) = Some st \<and> rb_rep m s par sn st (rb_plug (Br b kb cn l r) fs)"
proof -
  let ?b = "node_of False kb cn (rb_ptr s l) (rb_ptr s r) (rb_up par fs)"
  define m1 where "m1 = m(b \<mapsto> ?b)"
  define m2 where "m2 = relink s par b fs m1"
  define m3 where "m3 = reparent b l m2"
  define m4 where "m4 = reparent b r m3"
  have ds: "set (rb_addrs l) \<inter> set (rb_addrs r) = {}" "set (rb_addrs r) \<inter> set (rb_addrs l) = {}"
    "set (rb_addrs l) \<inter> set (rb_ctx_addrs fs) = {}" "set (rb_addrs r) \<inter> set (rb_ctx_addrs fs) = {}"
    "set (rb_ctx_addrs fs) \<inter> set (rb_addrs l) = {}" "set (rb_ctx_addrs fs) \<inter> set (rb_addrs r) = {}"
    using dis(1) by auto
  have w0: "wr b (\<lambda>x. x\<lparr>rb_left := rb_left (node_of False kn cn (rb_ptr s l) (rb_ptr s r) (rb_up par fs)),
      rb_right := rb_right (node_of False kn cn (rb_ptr s l) (rb_ptr s r) (rb_up par fs)),
      rb_parent := rb_up par fs\<rparr>) m = Some (m(b \<mapsto> node_of False kb (rb_red bn) (rb_ptr s l) (rb_ptr s r) (rb_up par fs)))"
    using at(4,5) by (simp add: node_of_def) (cases bn; simp)
  have w1: "ngx_rbt_copy_color b n (m(b \<mapsto> node_of False kb (rb_red bn) (rb_ptr s l) (rb_ptr s r) (rb_up par fs))) = Some m1"
    using n dis by (simp add: ngx_rbt_copy_color_def m1_def)
  have ctx1: "rb_ctx m1 s par fs n" using at(3) dis by (simp add: m1_def rb_ctx_frame)
  have ri: "n = root \<longleftrightarrow> fs = []"
    using root rb_ptr_plug_ctx [of fs s "Br n kn cn l r"] dis by (cases "fs = []") auto
  have w2: "(if n = root then Some (m1, b)
      else do { p \<leftarrow> m1 (rb_up par fs); m \<leftarrow> wr (rb_up par fs) (set_child (n \<noteq> rb_left p) b) m1; Some (m, root) }) =
      Some (m2, if fs = [] then b else root)"
  proof (cases "fs = []")
    case False
    then obtain pn where "m1 (rb_up par fs) = Some pn" "wr (rb_up par fs) (set_child (n \<noteq> rb_left pn) b) m1 = Some m2"
      using relink_code [OF ctx1, of undefined b] dis unfolding m2_def by auto
    then show ?thesis using False ri by simp
  qed (simp add: ri m2_def)
  have b2: "m2 b = Some ?b" using dis by (simp add: m2_def m1_def relink_other)
  have at2: "rb_at m2 s ql l" "rb_at m2 s qr r"
    using at(1,2) dis ds by (simp_all add: m2_def m1_def relink_frame rb_at_frame)
  have w3: "(if rb_ptr s l \<noteq> s then wr (rb_ptr s l) (set_parent b) m2 else Some m2) = Some m3"
    unfolding m3_def by (rule reparent_code [OF at2(1)]) (use dis in auto)
  have at3: "rb_at m3 s b l" "rb_at m3 s qr r"
    using at2 reparent_at [OF at2(1)] dis ds by (simp_all add: m3_def reparent_frame)
  have w4: "(if rb_ptr s r \<noteq> s then wr (rb_ptr s r) (set_parent b) m3 else Some m3) = Some m4"
    unfolding m4_def by (rule reparent_code [OF at3(2)]) (use dis in auto)
  have at4: "rb_at m4 s b l" "rb_at m4 s b r"
    using at3 reparent_at [OF at3(2)] dis ds by (simp_all add: m4_def reparent_frame)
  have "rb_ctx m2 s par fs b" using relink_ctx [OF ctx1] dis by (simp add: m2_def)
  then have ctx4: "rb_ctx m4 s par fs b" using ds by (simp add: m4_def m3_def reparent_frame)
  have b4: "m4 b = Some ?b" using b2 dis by (simp add: m4_def m3_def reparent_other)
  have out: "m4 z = m z" if "z \<notin> set (b # rb_addrs l @ rb_addrs r @ rb_ctx_addrs fs)" for z
    using that by (simp add: m4_def m3_def m2_def m1_def reparent_other relink_other)
  have lr: "rb_left ?b = rb_ptr s l" "rb_right ?b = rb_ptr s r" by (simp_all add: node_of_def)
  have code: "rb_transplant s b n (m, root) = Some (m4, if fs = [] then b else root)"
    unfolding rb_transplant_def prod.case n Option.bind.simps node_of_sel w0 w1 w2 b2 lr w3 w4 by (rule refl)
  have "(if fs = [] then b else root) = rb_ptr s (rb_plug (Br b kb cn l r) fs)"
    using root rb_ptr_plug [of s "Br n kn cn l r" "Br b kb cn l r" fs] by simp
  then have "rb_rep m s par sn (m4, if fs = [] then b else root) (rb_plug (Br b kb cn l r) fs)"
    using at4 ctx4 b4 out [of s] at(6) dis out unfolding rep_plug by auto
  then show ?thesis using code by blast
qed

text \<open>What remains of a deletion once a node of colour \<open>c\<close> with the one child \<open>x\<close> has left the place below \<open>fs\<close>.\<close>

lemma delete_finish:
  assumes rep: "rb_rep B s par sn (m, root) (rb_plug x fs)" and fs: "fs \<noteq> []" and black: "\<not> rb_red sn"
    and sn: "x = Lf \<Longrightarrow> rb_parent sn = rb_up par fs"
    and good: "good n (br d a k c Lf x)" "ctx_good n fs" "c \<Longrightarrow> \<not> top_red fs"
  shows "\<exists>st T. (if c then Some (m, root) else paint_last (delete_fix s (rb_ptr s x) (m, root))) = Some st \<and>
    rb_rep B s par sn st T \<and> rb_tree T \<and> rb_inorder T = rb_inorder (rb_plug x fs)"
proof (cases c)
  case True
  then have "good n x" "is_red x \<longrightarrow> \<not> top_red fs" using good by auto
  from good_plug [OF this(1) good(2) this(2)] have "rb_tree (rb_plug x fs)" using fs by (auto simp: rb_tree_def)
  then show ?thesis using rep True by auto
next
  case False
  then obtain j where j: "n = Suc j" "good j x" using good(1) by (cases n) auto
  have "weak j x" using j(2) by (cases x) (auto simp: weak_def)
  then show ?thesis using delete_fix_ok [OF rep black _ _ sn] j(1) good(2) False by simp
qed

lemma delete_code:
  assumes n: "m node = Some n"
    and pick: "(if rb_left n = s then Some (node, rb_right n) else if rb_right n = s then Some (node, rb_left n)
      else do { subst \<leftarrow> ngx_rbtree_min s m (rb_right n); x \<leftarrow> m subst; Some (subst, rb_right x) }) = Some (subst, temp)"
    and root: "(subst = root) = False" and red: "ngx_rbt_is_red subst m = Some red" and x: "m subst = Some x" and p: "m (rb_parent x) = Some p"
    and m1: "wr (rb_parent x) (set_child (subst \<noteq> rb_left p) temp) m = Some m1"
    and m2: "(if subst = node then do { m \<leftarrow> wr temp (set_parent (rb_parent x)) m1; Some (m, root) }
      else do { m \<leftarrow> wr temp (set_parent (if rb_parent x = node then subst else rb_parent x)) m1; rb_transplant s subst node (m, root) }) = Some (m2, root2)"
    and n2: "m2 node = Some n2"
  shows "ngx_rbtree_delete s node (m, root) =
    (if red then Some (m2(node \<mapsto> clear_node n2), root2) else paint_last (delete_fix s temp (m2(node \<mapsto> clear_node n2), root2)))"
  unfolding ngx_rbtree_delete_def prod.case n Option.bind.simps pick root if_False red x p m1 m2 wr_Some [of m2 node n2, OF n2] paint_last_def
  by (rule refl)

lemma rep_outside:
  "rb_rep B s par sn (m, root) t \<Longrightarrow> a \<notin> set (rb_addrs t) \<Longrightarrow> a \<noteq> s \<Longrightarrow> rb_rep (B(a := v)) s par sn (m(a := v), root) t"
  by (auto simp: rb_rep_def rb_at_frame)

lemma rep_around:
  "rb_rep C s par sn st t \<Longrightarrow> (\<And>z. z \<notin> set (rb_addrs t) \<Longrightarrow> z \<noteq> s \<Longrightarrow> C z = B z) \<Longrightarrow> rb_rep B s par sn st t"
  by (simp add: rb_rep_def)

text \<open>The node to delete has one child at most.\<close>

lemma delete_one_ok:
  assumes rep: "rb_rep B s par sn (m, root) (rb_plug (br d a k c Lf x) fs)" and fs: "fs \<noteq> []" and black: "\<not> rb_red sn"
    and good: "good n (br d a k c Lf x)" "ctx_good n fs" "c \<Longrightarrow> \<not> top_red fs"
  shows "\<exists>st sn' T. ngx_rbtree_delete s a (m, root) = Some st \<and> \<not> rb_red sn' \<and>
    rb_rep (B(a := map_option clear_node (m a))) s par sn' st T \<and> rb_tree T \<and> rb_inorder T = rb_inorder (rb_plug x fs)"
proof -
  let ?sn = "if x = Lf then set_parent (rb_up par fs) sn else sn"
  let ?an = "node_of d k c s (rb_ptr s x) (rb_up par fs)"
  have r: "m a = Some ?an" "distinct (rb_addrs (br d a k c Lf x) @ rb_ctx_addrs fs)"
    "s \<notin> set (rb_addrs (br d a k c Lf x))" "s \<notin> set (rb_ctx_addrs fs)"
    "root = rb_ptr s (rb_plug (br d a k c Lf x) fs)"
    "\<forall>z. z \<notin> set (rb_addrs (br d a k c Lf x)) \<and> z \<notin> set (rb_ctx_addrs fs) \<and> z \<noteq> s \<longrightarrow> m z = B z"
    using rep unfolding rep_plug by simp_all
  obtain pn m1 m2 where sp: "m (rb_up par fs) = Some pn"
    "wr (rb_up par fs) (set_child (a \<noteq> rb_left pn) (rb_ptr s x)) m = Some m1"
    "wr (rb_ptr s x) (set_parent (rb_up par fs)) m1 = Some m2" "rb_at m2 s (rb_up par fs) x" "rb_ctx m2 s par fs (rb_ptr s x)"
    "m2 s = Some ?sn" "\<forall>z. z \<notin> set (rb_addrs x) \<and> z \<notin> set (rb_ctx_addrs fs) \<and> z \<noteq> s \<longrightarrow> m2 z = m z"
    using splice [OF rep fs, of "rb_up par fs"] by blast
  have a2: "m2 a = Some ?an" "a \<notin> set (rb_addrs (rb_plug x fs))" "a \<noteq> s"
    using sp(7) r by (auto simp: set_addrs_rb_plug)
  have "root = rb_ptr s (rb_plug x fs)" unfolding r(5) by (rule rb_ptr_plug) (use fs in simp)
  moreover have "distinct (rb_addrs x @ rb_ctx_addrs fs)" "s \<notin> set (rb_addrs x)" using r(2,3) by simp_all
  moreover have "\<forall>z. z \<notin> set (rb_addrs x) \<and> z \<notin> set (rb_ctx_addrs fs) \<and> z \<noteq> s \<longrightarrow> m2 z = (B(a := m a)) z"
    using sp(7) r(6) by simp
  ultimately have "rb_rep (B(a := m a)) s par ?sn (m2, root) (rb_plug x fs)"
    using sp(4-6) r(4) unfolding rep_plug by blast
  then have rep2: "rb_rep (B(a := map_option clear_node (m a))) s par ?sn (m2(a \<mapsto> clear_node ?an), root) (rb_plug x fs)"
    using rep_outside [of "B(a := m a)" s par ?sn m2 root _ a "Some (clear_node ?an)"] a2 r(1) by simp
  have sn: "\<not> rb_red ?sn" "x = Lf \<Longrightarrow> rb_parent ?sn = rb_up par fs" using black by (simp_all add: set_parent_def)
  obtain st T where fin: "(if c then Some (m2(a \<mapsto> clear_node ?an), root)
      else paint_last (delete_fix s (rb_ptr s x) (m2(a \<mapsto> clear_node ?an), root))) = Some st"
    "rb_rep (B(a := map_option clear_node (m a))) s par ?sn st T" "rb_tree T" "rb_inorder T = rb_inorder (rb_plug x fs)"
    using delete_finish [OF rep2 fs sn good] by blast
  have "a \<noteq> root" using rep_root_iff [OF rep] fs by simp
  moreover have pick: "(if rb_left ?an = s then Some (a, rb_right ?an) else if rb_right ?an = s then Some (a, rb_left ?an)
      else do { subst \<leftarrow> ngx_rbtree_min s m (rb_right ?an); x \<leftarrow> m subst; Some (subst, rb_right x) }) = Some (a, rb_ptr s x)"
    by (auto simp: node_of_def)
  moreover have "ngx_rbt_is_red a m = Some c" using r(1) by (simp add: ngx_rbt_is_red_def)
  ultimately have "ngx_rbtree_delete s a (m, root) = Some st"
    using delete_code [OF r(1) pick _ _ r(1), of root c pn m1 m2 root ?an] sp(1-3) a2(1) fin(1)
    by (simp only: node_of_sel simp_thms if_True Option.bind.simps)
  then show ?thesis using fin(2-4) sn(1) by blast
qed

text \<open>The root has one child at most: the child becomes the root, and its parent pointer keeps the old root.\<close>

lemma delete_root_ok:
  assumes rep: "rb_rep B s par sn (m, root) (br d a k c Lf x)" and black: "\<not> rb_red sn" and good: "good n (br d a k c Lf x)"
  shows "\<exists>st T. ngx_rbtree_delete s a (m, root) = Some st \<and>
    rb_rep (B(a := map_option clear_node (m a))) s a sn st T \<and> rb_tree T \<and> rb_inorder T = rb_inorder x"
proof -
  let ?an = "node_of d k c s (rb_ptr s x) par"
  have r: "m a = Some ?an" "rb_at m s a x" "m s = Some sn" "a \<notin> set (rb_addrs x)" "distinct (rb_addrs x)" "s \<notin> set (rb_addrs x)" "a \<noteq> s"
    "root = a" "\<forall>z. z \<notin> set (rb_addrs (br d a k c Lf x)) \<and> z \<noteq> s \<longrightarrow> m z = B z"
    using rep by (auto simp: rb_rep_def)
  have pick: "(if rb_left ?an = s then Some (a, rb_right ?an) else if rb_right ?an = s then Some (a, rb_left ?an)
      else do { subst \<leftarrow> ngx_rbtree_min s m (rb_right ?an); x \<leftarrow> m subst; Some (subst, rb_right x) }) = Some (a, rb_ptr s x)"
    by (auto simp: node_of_def)
  have code: "ngx_rbtree_delete s a (m, root) = Some (m1(a \<mapsto> clear_node ?an), rb_ptr s x)"
    if "ngx_rbt_black (rb_ptr s x) m = Some m1" "m1 a = Some ?an" for m1
    unfolding ngx_rbtree_delete_def prod.case r(1) Option.bind.simps pick using that r(8) by simp
  have "rb_rep (B(a := m a)) s a sn (m, rb_ptr s x) (rb_plug x [])" using r by (auto simp: rb_rep_def)
  then have rep1: "rb_rep (B(a := m a)) s a sn (m, rb_ptr s x) x" by simp
  show ?thesis
  proof (cases "x = Lf")
    case True
    have "sn\<lparr>rb_red := False\<rparr> = sn" using black by (cases sn) simp
    then have "ngx_rbt_black (rb_ptr s x) m = Some m" using True r(3) by (simp add: ngx_rbt_black_def fun_upd_idem)
    then show ?thesis
      using code [of m] r(1) rep_outside [OF rep1 r(4,7), of "Some (clear_node ?an)"] True by (auto simp: rb_tree_def)
  next
    case False
    then obtain b kb cb l y where x: "x = br False b kb cb l y" using rb_cases by blast
    let ?T = "br False b kb False l y"
    from rep1 have "rb_rep (B(a := m a)) s a sn (m, rb_ptr s x) (rb_plug (br False b kb cb l y) [])" by (simp add: x)
    from rep_black [OF this] obtain m1 where
      m1: "ngx_rbt_black b m = Some m1" "rb_rep (B(a := m a)) s a sn (m1, rb_ptr s x) ?T" by auto
    have a1: "a \<notin> set (rb_addrs ?T)" using r(4) x by simp
    then have "m1 a = Some ?an" using m1(2) r(1,7) by (simp add: rb_rep_def)
    then have "ngx_rbtree_delete s a (m, root) = Some (m1(a \<mapsto> clear_node ?an), rb_ptr s x)" using code m1(1) x by simp
    moreover have "rb_rep (B(a := map_option clear_node (m a))) s a sn (m1(a \<mapsto> clear_node ?an), rb_ptr s x) ?T"
      using rep_outside [OF m1(2) a1 r(7), of "Some (clear_node ?an)"] r(1) by simp
    moreover obtain j where "good j x" using good by (auto split: if_splits)
    then have "rb_tree ?T" using rb_tree_black_root [OF x] False by (auto simp: rb_tree_def)
    ultimately show ?thesis using x by (auto simp: inorder_br)
  qed
qed

text \<open>The smallest node of a subtree.\<close>

lemma min_ok:
  assumes "rb_at m s q t" "t \<noteq> Lf" "s \<notin> set (rb_addrs t)"
  shows "\<exists>a k c y gs. ngx_rbtree_min s m (rb_ptr s t) = Some a \<and> t = rb_plug (Br a k c Lf y) gs \<and> pre gs = []"
  using assms
proof (induction t arbitrary: q)
  case (Br a k c l r)
  have m: "m a = Some (node_of False k c (rb_ptr s l) (rb_ptr s r) q)" "rb_at m s a l" using Br.prems(1) by auto
  show ?case
  proof (cases "l = Lf")
    case True
    then have "ngx_rbtree_min s m a = Some a" using m(1) by (subst ngx_rbtree_min.simps) (simp add: node_of_def)
    then show ?thesis using True by (intro exI [of _ a] exI [of _ k] exI [of _ c] exI [of _ r] exI [of _ "[]"]) simp
  next
    case False
    then have "rb_ptr s l \<noteq> s" using Br.prems(3) rb_ptr_mem [of l s] by auto
    then have "ngx_rbtree_min s m a = ngx_rbtree_min s m (rb_ptr s l)"
      using m(1) by (subst ngx_rbtree_min.simps) (simp add: node_of_def)
    moreover obtain b kb cb y gs where "ngx_rbtree_min s m (rb_ptr s l) = Some b" "l = rb_plug (Br b kb cb Lf y) gs" "pre gs = []"
      using Br.IH(1) [OF m(2) False] Br.prems(3) by auto
    ultimately have "ngx_rbtree_min s m a = Some b \<and> Br a k c l r = rb_plug (Br b kb cb Lf y) (gs @ [(a, k, c, False, r)]) \<and>
        pre (gs @ [(a, k, c, False, r)]) = []"
      by (simp add: plug_append pre_append br_def)
    then show ?thesis unfolding rb_ptr.simps by blast
  qed
qed simp

text \<open>The node to delete has two children: the next node takes its place.\<close>

lemma delete_two_ok:
  assumes rep: "rb_rep B s par sn (m, root) (rb_plug (Br n kn cn l (rb_plug (Br b kb cb Lf x) gs)) fs)" and black: "\<not> rb_red sn"
    and l: "l \<noteq> Lf" and min: "ngx_rbtree_min s m (rb_ptr s (rb_plug (Br b kb cb Lf x) gs)) = Some b"
    and good: "good j (Br b kb cb Lf x)" "ctx_good j (gs @ (n, kn, cn, True, l) # fs)" "cb \<Longrightarrow> \<not> top_red (gs @ (n, kn, cn, True, l) # fs)"
  shows "\<exists>st sn' T. ngx_rbtree_delete s n (m, root) = Some st \<and> \<not> rb_red sn' \<and>
    rb_rep (B(n := map_option clear_node (m n))) s par sn' st T \<and> rb_tree T \<and>
    rb_inorder T = rb_inorder (rb_plug x (gs @ (b, kb, cn, True, l) # fs))"
proof -
  let ?r = "rb_plug (Br b kb cb Lf x) gs" and ?r' = "rb_plug x gs"
  let ?hs = "gs @ (n, kn, cn, True, l) # fs" and ?hs' = "gs @ (b, kb, cn, True, l) # fs"
  define up where "up = rb_up par ?hs"
  define q where "q = (if up = n then b else up)"
  let ?nn = "node_of False kn cn (rb_ptr s l) (rb_ptr s ?r) (rb_up par fs)"
  let ?sn = "if x = Lf then set_parent q sn else sn"
  have whole: "rb_plug (Br n kn cn l ?r) fs = rb_plug (br False b kb cb Lf x) ?hs" by (simp add: plug_append br_def)
  note rep' = rep [unfolded whole]
  have r: "m n = Some ?nn" "rb_at m s n l" "distinct (n # rb_addrs l @ rb_addrs ?r @ rb_ctx_addrs fs)"
    "s \<notin> set (n # rb_addrs l @ rb_addrs ?r @ rb_ctx_addrs fs)" "root = rb_ptr s (rb_plug (Br n kn cn l ?r) fs)"
    "\<forall>z. z \<notin> set (n # rb_addrs l @ rb_addrs ?r @ rb_ctx_addrs fs) \<and> z \<noteq> s \<longrightarrow> m z = B z"
    using rep unfolding rep_plug by auto
  have bm: "m b = Some (node_of False kb cb s (rb_ptr s x) up)" using rep' unfolding rep_plug up_def by simp
  have dis: "distinct (b # n # rb_addrs l @ rb_addrs ?r' @ rb_ctx_addrs fs)" "s \<notin> set (b # n # rb_addrs l @ rb_addrs ?r' @ rb_ctx_addrs fs)"
    using r(3,4) by (auto simp: set_addrs_rb_plug distinct_rb_plug)
  have upn: "up = n \<longleftrightarrow> gs = []"
    using dis(1) unfolding up_def by (cases gs rule: rb_ctx_addrs.cases) (auto simp: set_addrs_rb_plug)
  have up': "q = rb_up par ?hs'" using upn unfolding q_def by (cases gs) (auto simp: up_def)
  obtain pn m1 m2 where sp: "m up = Some pn" "wr up (set_child (b \<noteq> rb_left pn) (rb_ptr s x)) m = Some m1"
    "wr (rb_ptr s x) (set_parent q) m1 = Some m2" "rb_at m2 s q x" "rb_ctx m2 s par ?hs (rb_ptr s x)" "m2 s = Some ?sn"
    "\<forall>z. z \<notin> set (rb_addrs x) \<and> z \<notin> set (rb_ctx_addrs ?hs) \<and> z \<noteq> s \<longrightarrow> m2 z = m z"
    using splice [OF rep', of q] unfolding up_def by blast
  have b2: "m2 b = Some (node_of False kb cb s (rb_ptr s x) up)"
    using sp(7) dis bm by (auto simp: ctx_addrs_append set_addrs_rb_plug)
  have pr: "(if gs = [] then rb_ptr s x else rb_ptr s (rb_plug Lf gs)) = rb_ptr s ?r'"
    using rb_ptr_plug [of s Lf x gs] by auto
  have c2: "rb_ctx m2 s n gs (rb_ptr s x)" "m2 n = Some (node_of False kn cn (rb_ptr s l) (rb_ptr s ?r') (rb_up par fs))"
    "rb_at m2 s n l" "rb_ctx m2 s par fs n"
    using sp(5) unfolding ctx_append pr by (auto simp: node_of_def)
  have at2: "rb_at m2 s (if gs = [] then q else n) ?r'"
    using sp(4) c2(1) upn by (cases gs rule: rb_ctx_addrs.cases) (auto simp: rb_at_plug q_def up_def simp del: rb_plug.simps(2))
  have root: "root = rb_ptr s (rb_plug (Br n kn cn l ?r') fs)"
    unfolding r(5) by (rule rb_ptr_plug) simp
  obtain m3 root3 where tr: "rb_transplant s b n (m2, root) = Some (m3, root3)"
    "rb_rep m2 s par ?sn (m3, root3) (rb_plug (Br b kb cn l ?r') fs)"
    using transplant_ok [OF c2(2,3) at2 c2(4) b2 _ sp(6) dis root] by (metis node_of_sel(4) prod.collapse)
  let ?T = "rb_plug (Br b kb cn l ?r') fs" and ?n2 = "node_of False kn cn (rb_ptr s l) (rb_ptr s ?r') (rb_up par fs)"
  let ?B = "B(n := map_option clear_node (m n))"
  have out: "n \<notin> set (rb_addrs ?T)" "n \<noteq> s" using dis by (auto simp: set_addrs_rb_plug)
  have n3: "m3 n = Some ?n2" using tr(2) out c2(2) by (simp add: rb_rep_def)
  have clear: "clear_node ?n2 = clear_node ?nn" by (simp add: clear_node_def node_of_def)
  have "rb_rep (m2(n \<mapsto> clear_node ?n2)) s par ?sn (m3(n \<mapsto> clear_node ?n2), root3) ?T"
    by (rule rep_outside [OF tr(2) out])
  then have "rb_rep ?B s par ?sn (m3(n \<mapsto> clear_node ?n2), root3) ?T"
  proof (rule rep_around)
    fix z assume "z \<notin> set (rb_addrs ?T)" "z \<noteq> s"
    then show "(m2(n \<mapsto> clear_node ?n2)) z = ?B z"
      using sp(7) r(1,6) clear by (auto simp: set_addrs_rb_plug ctx_addrs_append)
  qed
  then have rep3: "rb_rep ?B s par ?sn (m3(n \<mapsto> clear_node ?n2), root3) (rb_plug x ?hs')"
    by (simp add: plug_append br_def)
  have sn: "\<not> rb_red ?sn" "x = Lf \<Longrightarrow> rb_parent ?sn = rb_up par ?hs'" using black up' by (simp_all add: set_parent_def)
  have g: "good j (br False b kb cb Lf x)" "ctx_good j ?hs'" "cb \<Longrightarrow> \<not> top_red ?hs'"
    using good ctx_good_rename [of j gs n kn cn True l fs b kb] top_red_rename [of gs n kn cn True l fs b kb] unfolding br_def by simp_all
  obtain st T where fin: "(if cb then Some (m3(n \<mapsto> clear_node ?n2), root3)
      else paint_last (delete_fix s (rb_ptr s x) (m3(n \<mapsto> clear_node ?n2), root3))) = Some st"
    "rb_rep ?B s par ?sn st T" "rb_tree T" "rb_inorder T = rb_inorder (rb_plug x ?hs')"
    using delete_finish [OF rep3 _ sn g] by blast
  have "?r \<noteq> Lf" by (rule rb_plug_neq_Lf) simp
  then have "rb_ptr s l \<noteq> s" "rb_ptr s ?r \<noteq> s" using rb_ptr_mem [of l s] rb_ptr_mem [of ?r s] l r(4) by auto
  then have pick: "(if rb_left ?nn = s then Some (n, rb_right ?nn) else if rb_right ?nn = s then Some (n, rb_left ?nn)
      else do { subst \<leftarrow> ngx_rbtree_min s m (rb_right ?nn); x \<leftarrow> m subst; Some (subst, rb_right x) }) = Some (b, rb_ptr s x)"
    using min bm by (simp add: node_of_def)
  have bn: "(b = root) = False" "(b = n) = False" using rep_root_iff [OF rep'] dis(1) by auto
  have red: "ngx_rbt_is_red b m = Some cb" using bm by (simp add: ngx_rbt_is_red_def)
  have step: "(if b = n then do { m \<leftarrow> wr (rb_ptr s x) (set_parent up) m1; Some (m, root) }
      else do { m \<leftarrow> wr (rb_ptr s x) (set_parent (if up = n then b else up)) m1; rb_transplant s b n (m, root) }) = Some (m3, root3)"
    unfolding bn(2) if_False q_def [symmetric] sp(3) Option.bind.simps tr(1) by (rule refl)
  have "ngx_rbtree_delete s n (m, root) = Some st"
    using delete_code [OF r(1) pick bn(1) red bm, unfolded node_of_sel, OF sp(1,2) step n3] fin(1) by simp
  then show ?thesis using fin(2-4) sn(1) by blast
qed

text \<open>Every node of a tree is at a place of it.\<close>

lemma inorder_zip:
  assumes "(a, k) \<in> set (rb_inorder t)"
  shows "\<exists>c l r fs. t = rb_plug (Br a k c l r) fs"
  using assms
proof (induction t)
  case (Br b kb cb u v)
  consider "(a, k) \<in> set (rb_inorder u)" | "a = b" "k = kb" | "(a, k) \<in> set (rb_inorder v)" using Br.prems by auto
  then show ?case
  proof cases
    case 1
    then obtain c l r fs where "u = rb_plug (Br a k c l r) fs" using Br.IH(1) by blast
    then have "Br b kb cb u v = rb_plug (Br a k c l r) (fs @ [(b, kb, cb, False, v)])" by (simp add: plug_append br_def)
    then show ?thesis by blast
  next
    case 2
    then have "Br b kb cb u v = rb_plug (Br a k cb u v) []" by simp
    then show ?thesis by blast
  next
    case 3
    then obtain c l r fs where "v = rb_plug (Br a k c l r) fs" using Br.IH(2) by blast
    then have "Br b kb cb u v = rb_plug (Br a k c l r) (fs @ [(b, kb, cb, True, u)])" by (simp add: plug_append br_def)
    then show ?thesis by blast
  qed
qed simp

lemma filter_out_all: "a \<notin> set (map fst xs) \<Longrightarrow> filter (\<lambda>x. fst x \<noteq> a) xs = xs"
  by (induction xs) auto

lemma inorder_remove:
  assumes "distinct (rb_addrs (rb_plug (Br a k c l r) fs))"
  shows "filter (\<lambda>x. fst x \<noteq> a) (rb_inorder (rb_plug (Br a k c l r) fs)) = pre fs @ rb_inorder l @ rb_inorder r @ post fs"
proof -
  have ctx: "set (map fst (pre gs)) \<union> set (map fst (post gs)) = set (rb_ctx_addrs gs)" for gs
  proof (induction gs rule: pre.induct)
    case (2 a k c d y fs)
    then show ?case using map_fst_inorder [of y] by (cases d) auto
  qed simp
  have "a \<notin> set (map fst (pre fs))" "a \<notin> set (map fst (post fs))" "a \<notin> set (map fst (rb_inorder l))" "a \<notin> set (map fst (rb_inorder r))"
    using assms ctx [of fs] unfolding distinct_rb_plug map_fst_inorder by auto
  then show ?thesis unfolding inorder_plug by (simp add: filter_out_all)
qed

lemma rb_delete_ok:
  assumes rep: "rb_rep B s par sn (m, root) t" and black: "\<not> rb_red sn" and rbt: "rb_tree t" and a: "a \<in> set (rb_addrs t)"
  shows "\<exists>st par' sn' t'. ngx_rbtree_delete s a (m, root) = Some st \<and> \<not> rb_red sn' \<and>
    rb_rep (B(a := map_option clear_node (m a))) s par' sn' st t' \<and> rb_tree t' \<and>
    rb_inorder t' = filter (\<lambda>x. fst x \<noteq> a) (rb_inorder t)"
proof -
  obtain k where "(a, k) \<in> set (rb_inorder t)" using a unfolding map_fst_inorder [symmetric] by auto
  then obtain c l r fs where t: "t = rb_plug (Br a k c l r) fs" using inorder_zip by blast
  have io: "filter (\<lambda>x. fst x \<noteq> a) (rb_inorder t) = pre fs @ rb_inorder l @ rb_inorder r @ post fs"
    using inorder_remove rep unfolding t rb_rep_def by blast
  obtain n0 where n0: "good n0 t" "\<not> is_red t" using rbt by (auto simp: rb_tree_def)
  show ?thesis
  proof (cases "l = Lf \<or> r = Lf")
    case True
    then obtain d x where b: "Br a k c l r = br d a k c Lf x" "rb_inorder x = rb_inorder l @ rb_inorder r"
    proof
      assume "l = Lf" then show ?thesis using that [of False r] by (simp add: br_def)
    next
      assume "r = Lf" then show ?thesis using that [of True l] by (simp add: br_def)
    qed
    obtain n where n: "good n (br d a k c Lf x)" "ctx_good n fs" "c \<longrightarrow> \<not> top_red fs \<and> fs \<noteq> []"
      using good_split [of n0 "br d a k c Lf x" fs] n0 unfolding t b(1) is_red_br by blast
    show ?thesis
    proof (cases "fs = []")
      case True
      then have "rb_rep B s par sn (m, root) (br d a k c Lf x)" using rep by (simp add: t b)
      then show ?thesis using delete_root_ok [OF _ black n(1)] io b(2) black True by fastforce
    next
      case False
      have "rb_inorder (rb_plug x fs) = filter (\<lambda>x. fst x \<noteq> a) (rb_inorder t)" by (simp add: io b(2) inorder_plug)
      then show ?thesis using delete_one_ok [OF rep [unfolded t b] False black n(1,2)] n(3) by metis
    qed
  next
    case False
    then have lr: "l \<noteq> Lf" "r \<noteq> Lf" by auto
    have at: "rb_at m s a r" "s \<notin> set (rb_addrs r)" using rep unfolding t rep_plug by auto
    obtain b kb cb x gs where mn: "ngx_rbtree_min s m (rb_ptr s r) = Some b" "r = rb_plug (Br b kb cb Lf x) gs" "pre gs = []"
      using min_ok [OF at(1) lr(2) at(2)] by blast
    let ?hs = "gs @ (a, k, c, True, l) # fs"
    have "t = rb_plug (Br b kb cb Lf x) ?hs" by (simp add: t mn(2) plug_append br_def)
    then obtain j where j: "good j (Br b kb cb Lf x)" "ctx_good j ?hs" "cb \<longrightarrow> \<not> top_red ?hs"
      using good_split n0 by (metis is_red.simps(2))
    have "rb_inorder (rb_plug x (gs @ (b, kb, c, True, l) # fs)) = filter (\<lambda>x. fst x \<noteq> a) (rb_inorder t)"
      by (simp add: io inorder_plug pre_append post_append mn(2,3))
    then show ?thesis
      using delete_two_ok [OF rep [unfolded t mn(2)] black lr(1) mn(1) [unfolded mn(2)] j(1,2)] j(3) by metis
  qed
qed

section \<open>The smallest node and the next node\<close>

definition first_addr :: "(nat \<times> u64) list \<Rightarrow> nat option" where
  "first_addr xs = (case xs of [] \<Rightarrow> None | x # ys \<Rightarrow> Some (fst x))"

lemma min_first:
  assumes "rb_at m s q t" "t \<noteq> Lf" "s \<notin> set (rb_addrs t)"
  shows "ngx_rbtree_min s m (rb_ptr s t) = first_addr (rb_inorder t) \<and> first_addr (rb_inorder t) \<noteq> None"
proof -
  obtain a k c y gs where a: "ngx_rbtree_min s m (rb_ptr s t) = Some a" and t: "t = rb_plug (Br a k c Lf y) gs" "pre gs = []"
    using min_ok [OF assms] by blast
  have "first_addr (rb_inorder t) = Some a" unfolding t(1) inorder_plug by (simp add: t(2) first_addr_def)
  then show ?thesis using a by simp
qed

lemma next_up_ok:
  assumes "rb_rep B s par sn (m, root) (rb_plug t fs)" "t \<noteq> Lf"
  shows "next_up root m (rb_ptr s t) = Some (first_addr (post fs))"
  using assms
proof (induction fs arbitrary: t)
  case Nil
  obtain n where "m (rb_ptr s t) = Some n" using rep_parent [OF Nil] by blast
  then show ?case using rep_root_iff [OF Nil] by (subst next_up.simps) (simp add: first_addr_def)
next
  case (Cons f fs)
  obtain p kp cp d w where f: "f = (p, kp, cp, d, w)" by (metis prod_cases5)
  note rep = Cons.prems(1) [unfolded f]
  note nodes = rep_nodes [OF rep]
  obtain n where n: "m (rb_ptr s t) = Some n" "rb_parent n = p" using rep_parent [OF rep Cons.prems(2)] by auto
  have side: "rb_ptr s t = rb_left (node_of d kp cp (rb_ptr s t) (rb_ptr s w) (rb_up par fs)) \<longleftrightarrow> \<not> d"
    using nodes(6) [OF Cons.prems(2)] by (auto simp: node_of_def)
  have up: "next_up root m p = Some (first_addr (post fs))"
    using Cons.IH [of "br d p kp cp t w"] rep by simp
  show ?case using rep_root_iff [OF Cons.prems] n nodes(1) side up
    by (subst next_up.simps) (simp add: f first_addr_def)
qed

lemma next_ok:
  assumes rep: "rb_rep B s par sn (m, root) (rb_plug (Br a k c l r) fs)"
  shows "ngx_rbtree_next s a (m, root) = Some (first_addr (rb_inorder r @ post fs))"
proof -
  have at: "m a = Some (node_of False k c (rb_ptr s l) (rb_ptr s r) (rb_up par fs))" "rb_at m s a r" "s \<notin> set (rb_addrs r)"
    using rep unfolding rep_plug by auto
  have rp: "rb_right (node_of False k c (rb_ptr s l) (rb_ptr s r) (rb_up par fs)) = rb_ptr s r" by (simp add: node_of_def)
  show ?thesis
  proof (cases "r = Lf")
    case True
    then show ?thesis using next_up_ok [OF rep] at(1) rp by (simp add: ngx_rbtree_next_def)
  next
    case False
    then have "rb_ptr s r \<noteq> s" "rb_inorder r \<noteq> []" using rb_ptr_mem [of r s] at(3) by (auto, cases r) auto
    then show ?thesis using min_first [OF at(2) False at(3)] at(1) rp
      by (cases "rb_inorder r") (auto simp: ngx_rbtree_next_def first_addr_def)
  qed
qed

text \<open>A tree of \<open>n\<close> nodes is at most \<open>2 log2 (n + 1)\<close> high, so the walks are short.\<close>

fun rb_height :: "rbt \<Rightarrow> nat" where
  "rb_height Lf = 0"
| "rb_height (Br a k c l r) = Suc (max (rb_height l) (rb_height r))"

lemma good_height: "good n t \<Longrightarrow> rb_height t \<le> 2 * n + (if is_red t then 1 else 0)"
proof (induction t arbitrary: n)
  case (Br a k c l r)
  show ?case
  proof (cases c)
    case True
    then show ?thesis using Br.IH(1,2) [of n] Br.prems by simp
  next
    case False
    then obtain j where "n = Suc j" "good j l" "good j r" using Br.prems by (cases n) auto
    then show ?thesis using Br.IH(1) [of j] Br.IH(2) [of j] False by (auto split: if_splits)
  qed
qed simp

lemma good_size: "good n t \<Longrightarrow> 2 ^ n \<le> length (rb_inorder t) + 1"
proof (induction t arbitrary: n)
  case (Br a k c l r)
  show ?case
  proof (cases c)
    case True
    then show ?thesis using Br.IH(1) [of n] Br.prems by simp
  next
    case False
    then obtain j where "n = Suc j" "good j l" "good j r" using Br.prems by (cases n) auto
    then show ?thesis using Br.IH(1) [of j] Br.IH(2) [of j] by simp
  qed
qed simp

lemma rb_tree_height: "rb_tree t \<Longrightarrow> 2 ^ (rb_height t div 2) \<le> length (rb_inorder t) + 1"
proof -
  assume "rb_tree t"
  then obtain n where n: "good n t" "\<not> is_red t" by (auto simp: rb_tree_def)
  then have "rb_height t div 2 \<le> n" using good_height [OF n(1)] by simp
  then have "(2::nat) ^ (rb_height t div 2) \<le> 2 ^ n" by (simp add: power_increasing)
  then show ?thesis using good_size [OF n(1)] by linarith
qed

end
