(* ===== verification/Ngx_Sorted_Nodes.thy ===== *)
theory Ngx_Sorted_Nodes
  imports Ngx_Rbtree_Delete
begin

text \<open>
  nginx, \<^verbatim>\<open>src/core/ngx_rbtree.c\<close> and \<^verbatim>\<open>src/core/ngx_rbtree.h\<close>: what the users of the red-black tree rely on. The interface is a list
  of nodes sorted by their keys; nodes are added with a key and removed. The tree provides it for both ways to compare keys, the plain order
  of numbers and the order of points in time, which wraps around.
\<close>

section \<open>Setting up and filling a tree\<close>

text \<open>\<^verbatim>\<open>ngx_rbtree_init\<close> paints the sentinel black and makes it the root.\<close>

definition ngx_rbtree_sentinel_init :: "nat \<Rightarrow> rb_mem \<Rightarrow> rb_mem option" where
  "ngx_rbtree_sentinel_init s m = ngx_rbt_black s m"

definition ngx_rbtree_init :: "nat \<Rightarrow> rb_mem \<Rightarrow> rb_state option" where
  "ngx_rbtree_init s m = do { m \<leftarrow> ngx_rbtree_sentinel_init s m; Some (m, s) }"

text \<open>The users of the tree write the key of a node and insert it.\<close>

definition rb_add :: "(nat \<Rightarrow> nat \<Rightarrow> nat \<Rightarrow> rb_mem \<Rightarrow> rb_mem option) \<Rightarrow> nat \<Rightarrow> nat \<Rightarrow> u64 \<Rightarrow> rb_state \<Rightarrow> rb_state option" where
  "rb_add ins s a k st = (case st of (m, root) \<Rightarrow>
     do { m \<leftarrow> wr a (\<lambda>n. n\<lparr>rb_key := k\<rparr>) m; ngx_rbtree_insert ins s a (m, root) })"

datatype node_op = Add nat u64 | Remove nat

fun run_ops :: "(nat \<Rightarrow> u64 \<Rightarrow> 's \<Rightarrow> 's option) \<Rightarrow> (nat \<Rightarrow> 's \<Rightarrow> 's option) \<Rightarrow> node_op list \<Rightarrow> 's \<Rightarrow> 's option" where
  "run_ops add rem [] st = Some st"
| "run_ops add rem (Add a k # ops) st = do { st \<leftarrow> add a k st; run_ops add rem ops st }"
| "run_ops add rem (Remove a # ops) st = do { st \<leftarrow> rem a st; run_ops add rem ops st }"

text \<open>The same operations on the list, and which of them a user may ask for.\<close>

definition drop_node :: "nat \<Rightarrow> (nat \<times> u64) list \<Rightarrow> (nat \<times> u64) list" where
  "drop_node a xs = filter (\<lambda>x. fst x \<noteq> a) xs"

fun list_ops :: "(u64 \<Rightarrow> u64 \<Rightarrow> bool) \<Rightarrow> node_op list \<Rightarrow> (nat \<times> u64) list \<Rightarrow> (nat \<times> u64) list" where
  "list_ops lt [] xs = xs"
| "list_ops lt (Add a k # ops) xs = list_ops lt ops (ins_list lt (a, k) xs)"
| "list_ops lt (Remove a # ops) xs = list_ops lt ops (drop_node a xs)"

fun ops_ok :: "(u64 \<Rightarrow> u64 \<Rightarrow> bool) \<Rightarrow> nat set \<Rightarrow> u64 set \<Rightarrow> node_op list \<Rightarrow> (nat \<times> u64) list \<Rightarrow> bool" where
  "ops_ok lt E K [] xs = True"
| "ops_ok lt E K (Add a k # ops) xs \<longleftrightarrow> a \<in> E \<and> a \<notin> fst ` set xs \<and> k \<in> K \<and> ops_ok lt E K ops (ins_list lt (a, k) xs)"
| "ops_ok lt E K (Remove a # ops) xs \<longleftrightarrow> a \<in> fst ` set xs \<and> ops_ok lt E K ops (drop_node a xs)"

section \<open>The interface\<close>

locale sorted_nodes =
  fixes holds :: "'s \<Rightarrow> (nat \<times> u64) list \<Rightarrow> bool"
    and add :: "nat \<Rightarrow> u64 \<Rightarrow> 's \<Rightarrow> 's option"
    and rem :: "nat \<Rightarrow> 's \<Rightarrow> 's option"
    and lt :: "u64 \<Rightarrow> u64 \<Rightarrow> bool"
    and E :: "nat set"
    and K :: "u64 set"
  assumes order: "key_order lt K"
    and sorted: "holds st xs \<Longrightarrow> key_sorted lt xs"
    and unique: "holds st xs \<Longrightarrow> distinct (map fst xs)"
    and keys: "holds st xs \<Longrightarrow> snd ` set xs \<subseteq> K"
    and add_holds: "holds st xs \<Longrightarrow> a \<in> E \<Longrightarrow> a \<notin> fst ` set xs \<Longrightarrow> k \<in> K \<Longrightarrow>
      \<exists>st'. add a k st = Some st' \<and> holds st' (ins_list lt (a, k) xs)"
    and rem_holds: "holds st xs \<Longrightarrow> a \<in> fst ` set xs \<Longrightarrow> \<exists>st'. rem a st = Some st' \<and> holds st' (drop_node a xs)"
begin

lemma run_holds:
  assumes "holds st xs" "ops_ok lt E K ops xs"
  shows "\<exists>st'. run_ops add rem ops st = Some st' \<and> holds st' (list_ops lt ops xs)"
  using assms
proof (induction ops arbitrary: st xs)
  case (Cons op ops)
  show ?case
  proof (cases op)
    case (Add a k)
    then obtain st1 where "add a k st = Some st1" "holds st1 (ins_list lt (a, k) xs)"
      using add_holds [of st xs a k] Cons.prems by auto
    then show ?thesis using Cons.IH [of st1 "ins_list lt (a, k) xs"] Cons.prems(2) by (simp add: Add)
  next
    case (Remove a)
    then obtain st1 where "rem a st = Some st1" "holds st1 (drop_node a xs)"
      using rem_holds [of st xs a] Cons.prems by auto
    then show ?thesis using Cons.IH [of st1 "drop_node a xs"] Cons.prems(2) by (simp add: Remove)
  qed
qed simp

text \<open>The first node has the smallest key, so the nodes below a bound are a prefix.\<close>

lemma first_least:
  assumes "holds st (x # xs)" "y \<in> set (x # xs)"
  shows "\<not> lt (snd y) (snd x)"
proof (cases "y = x")
  case True
  then show ?thesis using order keys [OF assms(1)] by (auto simp: key_order_def)
next
  case False
  then show ?thesis using sorted [OF assms(1)] assms(2) by (auto simp: key_sorted_def)
qed

text \<open>Replacing the key of a node.\<close>

lemma move_holds:
  assumes "holds st xs" "a \<in> fst ` set xs" "a \<in> E" "k \<in> K"
  shows "\<exists>st'. do { st \<leftarrow> rem a st; add a k st } = Some st' \<and> holds st' (ins_list lt (a, k) (drop_node a xs))"
proof -
  obtain st1 where st1: "rem a st = Some st1" "holds st1 (drop_node a xs)" using rem_holds assms(1,2) by blast
  moreover have "a \<notin> fst ` set (drop_node a xs)" by (auto simp: drop_node_def)
  ultimately show ?thesis using add_holds [OF st1(2) assms(3)] assms(4) by auto
qed

end

section \<open>The tree provides the interface\<close>

text \<open>Memory with the list \<open>xs\<close> of nodes in a tree; the nodes of \<open>E\<close> are allocated, in the tree or not.\<close>

definition rb_holds :: "(u64 \<Rightarrow> u64 \<Rightarrow> bool) \<Rightarrow> nat set \<Rightarrow> u64 set \<Rightarrow> nat \<Rightarrow> rb_state \<Rightarrow> (nat \<times> u64) list \<Rightarrow> bool" where
  "rb_holds lt E K s st xs \<longleftrightarrow> (\<exists>B par sn t. rb_rep B s par sn st t \<and> \<not> rb_red sn \<and> rb_tree t \<and> rb_inorder t = xs) \<and>
     key_sorted lt xs \<and> snd ` set xs \<subseteq> K \<and> (\<forall>a\<in>E. a \<noteq> s \<longrightarrow> fst st a \<noteq> None)"

lemma rb_holdsE:
  assumes "rb_holds lt E K s st xs"
  obtains par sn t where "rb_rep (fst st) s par sn st t" "\<not> rb_red sn" "rb_tree t" "rb_inorder t = xs"
    "key_sorted lt xs" "snd ` set xs \<subseteq> K" "\<forall>a\<in>E. a \<noteq> s \<longrightarrow> fst st a \<noteq> None"
  using assms unfolding rb_holds_def rb_rep_def by blast

lemma rep_defined: "rb_rep B s par sn st t \<Longrightarrow> fst st z \<noteq> None \<longleftrightarrow> z \<in> set (rb_addrs t) \<or> z = s \<or> B z \<noteq> None"
proof -
  have "rb_at m s q t \<Longrightarrow> z \<in> set (rb_addrs t) \<Longrightarrow> m z \<noteq> None" for m q by (induction t arbitrary: q) auto
  then show "rb_rep B s par sn st t \<Longrightarrow> ?thesis"
    by (cases "z \<in> set (rb_addrs t)"; cases "z = s") (auto simp: rb_rep_def)
qed

lemma addrs_inorder: "set (rb_addrs t) = fst ` set (rb_inorder t)"
  using map_fst_inorder [of t] by simp

lemma distinct_inorder: "distinct (rb_addrs t) \<Longrightarrow> distinct (map fst (rb_inorder t))"
  by (induction t) (auto simp: addrs_inorder)

lemma set_ins_list: "set (ins_list lt x xs) = insert x (set xs)"
proof -
  let ?P = "\<lambda>y. \<not> lt (snd x) (snd y)"
  have "set (takeWhile ?P xs) \<union> set (dropWhile ?P xs) = set xs"
    by (metis set_append takeWhile_dropWhile_id)
  then show ?thesis by (auto simp: ins_list_def)
qed

lemma rb_add_holds:
  assumes ord: "key_order lt K" and h: "rb_holds lt E K s st xs" and a: "a \<in> E" "a \<noteq> s" "a \<notin> fst ` set xs" and k: "k \<in> K"
  shows "\<exists>st'. rb_add (rb_insert_with lt) s a k st = Some st' \<and> rb_holds lt E K s st' (ins_list lt (a, k) xs)"
proof -
  obtain m root where st: "st = (m, root)" by fastforce
  obtain par sn t where t: "rb_rep m s par sn (m, root) t" "\<not> rb_red sn" "rb_tree t" "rb_inorder t = xs"
    "key_sorted lt xs" "snd ` set xs \<subseteq> K" "\<forall>a\<in>E. a \<noteq> s \<longrightarrow> m a \<noteq> None"
    using rb_holdsE [OF h] by (metis fst_conv st)
  obtain n where n: "m a = Some n" using t(7) a by blast
  let ?m = "m(a \<mapsto> n\<lparr>rb_key := k\<rparr>)"
  have out: "a \<notin> set (rb_addrs t)" using a(3) t(4) by (simp add: addrs_inorder)
  have rep: "rb_rep ?m s par sn (?m, root) t" by (rule rep_outside [OF t(1) out a(2)])
  have new: "rb_new ?m s t a k" using out a(2) by (simp add: rb_new_def)
  obtain st' par' t' where i: "ngx_rbtree_insert (rb_insert_with lt) s a (?m, root) = Some st'" "rb_rep ?m s par' sn st' t'" "rb_tree t'"
    "rb_inorder t' = ins_list lt (a, k) xs"
    using rb_insert_ok [OF rep t(2,3) new ord] t(4-6) k by auto
  have "key_sorted lt (ins_list lt (a, k) xs)" using ins_list_sorted [OF ord t(5)] t(6) k by simp
  moreover have "snd ` set (ins_list lt (a, k) xs) \<subseteq> K" using t(6) k by (auto simp: set_ins_list)
  moreover have "\<forall>b\<in>E. b \<noteq> s \<longrightarrow> fst st' b \<noteq> None" using t(7) unfolding rep_defined [OF i(2)] by auto
  ultimately have "rb_holds lt E K s st' (ins_list lt (a, k) xs)" using i(2-4) t(2) unfolding rb_holds_def by blast
  moreover have "rb_add (rb_insert_with lt) s a k st = Some st'" using n i(1) by (simp add: rb_add_def st)
  ultimately show ?thesis by blast
qed

lemma rb_delete_holds:
  assumes h: "rb_holds lt E K s st xs" and a: "a \<in> fst ` set xs"
  shows "\<exists>st'. ngx_rbtree_delete s a st = Some st' \<and> rb_holds lt E K s st' (drop_node a xs)"
proof -
  obtain m root where st: "st = (m, root)" by fastforce
  obtain par sn t where t: "rb_rep m s par sn (m, root) t" "\<not> rb_red sn" "rb_tree t" "rb_inorder t = xs"
    "key_sorted lt xs" "snd ` set xs \<subseteq> K" "\<forall>a\<in>E. a \<noteq> s \<longrightarrow> m a \<noteq> None"
    using rb_holdsE [OF h] by (metis fst_conv st)
  let ?B = "m(a := map_option clear_node (m a))"
  have "a \<in> set (rb_addrs t)" using a t(4) by (simp add: addrs_inorder)
  then obtain st' par' sn' t' where d: "ngx_rbtree_delete s a (m, root) = Some st'" "\<not> rb_red sn'" "rb_rep ?B s par' sn' st' t'" "rb_tree t'"
    "rb_inorder t' = drop_node a xs"
    using rb_delete_ok [OF t(1-3)] t(4) unfolding drop_node_def by blast
  have "key_sorted lt (drop_node a xs)" using t(5) by (simp add: key_sorted_def drop_node_def sorted_wrt_filter)
  moreover have "snd ` set (drop_node a xs) \<subseteq> K" using t(6) by (auto simp: drop_node_def)
  moreover have "\<forall>b\<in>E. b \<noteq> s \<longrightarrow> fst st' b \<noteq> None" using t(7) unfolding rep_defined [OF d(3)] by auto
  ultimately have "rb_holds lt E K s st' (drop_node a xs)" using d(2-5) unfolding rb_holds_def by blast
  then show ?thesis using d(1) st by blast
qed

lemma rb_sorted_nodes:
  assumes "key_order lt K" "s \<notin> E"
  shows "sorted_nodes (rb_holds lt E K s) (rb_add (rb_insert_with lt) s) (ngx_rbtree_delete s) lt E K"
proof
  show "key_order lt K" by fact
  show "key_sorted lt xs" if "rb_holds lt E K s st xs" for st xs using that by (simp add: rb_holds_def)
  show "distinct (map fst xs)" if "rb_holds lt E K s st xs" for st xs
    using that distinct_inorder by (auto simp: rb_holds_def rb_rep_def)
  show "snd ` set xs \<subseteq> K" if "rb_holds lt E K s st xs" for st xs using that by (simp add: rb_holds_def)
  show "\<exists>st'. rb_add (rb_insert_with lt) s a k st = Some st' \<and> rb_holds lt E K s st' (ins_list lt (a, k) xs)"
    if "rb_holds lt E K s st xs" "a \<in> E" "a \<notin> fst ` set xs" "k \<in> K" for st xs a k
    using rb_add_holds [OF assms(1) that(1,2)] that(2-4) assms(2) by blast
  show "\<exists>st'. ngx_rbtree_delete s a st = Some st' \<and> rb_holds lt E K s st' (drop_node a xs)"
    if "rb_holds lt E K s st xs" "a \<in> fst ` set xs" for st xs a
    using rb_delete_holds that by blast
qed

interpretation rbv: sorted_nodes "rb_holds (<) (E - {s}) UNIV s" "rb_add ngx_rbtree_insert_value s" "ngx_rbtree_delete s" "(<)" "E - {s}" UNIV for E s
  unfolding ngx_rbtree_insert_value_def by (rule rb_sorted_nodes) (auto simp: key_order_def)

text \<open>
  Points in time are compared by the sign of their difference. That is an order on the times less than \<open>2 ^ 62\<close> milliseconds
  from a base.
\<close>

definition time_window :: "u64 \<Rightarrow> u64 set" where
  "time_window base = {k. - (2 ^ 62) \<le> sint (k - base) \<and> sint (k - base) < 2 ^ 62}"

lemma sint_minus:
  fixes a b :: u64
  assumes "- (2 ^ 63) \<le> sint a - sint b" "sint a - sint b < 2 ^ 63"
  shows "sint (a - b) = sint a - sint b"
  using assms by (simp add: sint_word_ariths signed_take_bit_int_eq_self)

lemma timer_less_window:
  assumes "a \<in> time_window base" "b \<in> time_window base"
  shows "timer_less a b \<longleftrightarrow> sint (a - base) < sint (b - base)"
proof -
  have "sint ((a - base) - (b - base)) = sint (a - base) - sint (b - base)"
    using assms by (intro sint_minus) (auto simp: time_window_def)
  then show ?thesis by (simp add: timer_less_def)
qed

lemma timer_order: "key_order timer_less (time_window base)"
  unfolding key_order_def by (auto simp: timer_less_window)

interpretation rbt: sorted_nodes "rb_holds timer_less (E - {s}) (time_window base) s" "rb_add ngx_rbtree_insert_timer_value s"
  "ngx_rbtree_delete s" timer_less "E - {s}" "time_window base" for E s base
  unfolding ngx_rbtree_insert_timer_value_def by (rule rb_sorted_nodes) (auto simp: timer_order)

text \<open>A new tree is empty, the first node is the one \<^const>\<open>ngx_rbtree_min\<close> finds, and \<^const>\<open>ngx_rbtree_next\<close> goes through the list.\<close>

lemma init_holds:
  assumes "m s \<noteq> None" "\<forall>a\<in>E. m a \<noteq> None"
  shows "\<exists>st. ngx_rbtree_init s m = Some st \<and> rb_holds lt E K s st []"
proof -
  obtain n where n: "m s = Some n" using assms(1) by blast
  let ?n = "n\<lparr>rb_red := False\<rparr>"
  have "ngx_rbtree_init s m = Some (m(s \<mapsto> ?n), s)"
    using n by (simp add: ngx_rbtree_init_def ngx_rbtree_sentinel_init_def ngx_rbt_black_def)
  moreover have "rb_rep m s 0 ?n (m(s \<mapsto> ?n), s) Lf" "rb_tree Lf" by (simp_all add: rb_rep_def rb_tree_def)
  then have "rb_holds lt E K s (m(s \<mapsto> ?n), s) []"
    using assms(2) by (auto simp: rb_holds_def key_sorted_def intro!: exI [of _ m] exI [of _ 0] exI [of _ ?n] exI [of _ Lf])
  ultimately show ?thesis by blast
qed

lemma root_holds: "rb_holds lt E K s (m, root) xs \<Longrightarrow> root = s \<longleftrightarrow> xs = []"
proof -
  assume "rb_holds lt E K s (m, root) xs"
  then obtain B par sn t where t: "rb_rep B s par sn (m, root) t" "rb_inorder t = xs" by (auto simp: rb_holds_def)
  then show ?thesis using rb_ptr_mem [of t s] by (cases t) (auto simp: rb_rep_def)
qed

lemma min_holds:
  assumes "rb_holds lt E K s (m, root) (x # xs)"
  shows "ngx_rbtree_min s m root = Some (fst x)" "\<exists>n. m (fst x) = Some n \<and> rb_key n = snd x"
proof -
  obtain B par sn t where t: "rb_rep B s par sn (m, root) t" "rb_inorder t = x # xs" using assms by (auto simp: rb_holds_def)
  moreover have "t \<noteq> Lf" using t(2) by auto
  ultimately show "ngx_rbtree_min s m root = Some (fst x)"
    using min_first [of m s par t] by (auto simp: rb_rep_def first_addr_def)
  obtain c l r fs where z: "t = rb_plug (Br (fst x) (snd x) c l r) fs"
    using inorder_zip [of "fst x" "snd x" t] t(2) by (metis list.set_intros(1) prod.collapse)
  show "\<exists>n. m (fst x) = Some n \<and> rb_key n = snd x" using t(1) unfolding z rep_plug by simp
qed

lemma node_holds:
  assumes "rb_holds lt E K s (m, root) xs" "(a, k) \<in> set xs"
  shows "\<exists>n. m a = Some n \<and> rb_key n = k"
proof -
  obtain B par sn t where t: "rb_rep B s par sn (m, root) t" "rb_inorder t = xs" using assms(1) by (auto simp: rb_holds_def)
  obtain c l r fs where z: "t = rb_plug (Br a k c l r) fs" using inorder_zip [of a k t] t(2) assms(2) by blast
  show ?thesis using t(1) unfolding z rep_plug by simp
qed

lemma next_holds:
  assumes h: "rb_holds lt E K s st (xs @ (a, k) # ys)"
  shows "ngx_rbtree_next s a st = Some (first_addr ys)"
proof -
  obtain m root where st: "st = (m, root)" by fastforce
  obtain B par sn t where t: "rb_rep B s par sn (m, root) t" "rb_inorder t = xs @ (a, k) # ys"
    using h by (auto simp: rb_holds_def st)
  obtain c l r fs where z: "t = rb_plug (Br a k c l r) fs" using inorder_zip [of a k t] t(2) by auto
  have "distinct (map fst (xs @ (a, k) # ys))" using t distinct_inorder [of t] by (simp add: rb_rep_def)
  then have "(a, k) \<notin> set xs" "(a, k) \<notin> set ys" by (auto intro: rev_image_eqI)
  moreover have "xs @ (a, k) # ys = (pre fs @ rb_inorder l) @ (a, k) # rb_inorder r @ post fs"
    using t(2) unfolding z inorder_plug by simp
  ultimately have "ys = rb_inorder r @ post fs" by (metis append_Cons_eq_iff)
  then show ?thesis using next_ok [OF t(1) [unfolded z]] st by simp
qed

text \<open>
  C13. A red-black tree, filled and emptied in any order, is a sorted list. Let nodes be added to a new tree and removed from it, each added
  with a key while it is outside and removed while it is inside. Then every operation returns; the nodes in the tree and their order
  are those of the same operations on a list, where a new node goes behind the nodes with keys not greater; the tree is a red-black tree, of height at most twice the
  logarithm of the number of nodes plus one; the walk to the smallest node finds the first, and the walk from a node
  to the next one finds its successor, or the null pointer at the end. This holds for plain keys, and for points in time as long as they are
  less than \<open>2 ^ 62\<close> milliseconds from some base.
\<close>

theorem rbtree_sorted_list:
  assumes kind: "(ins, lt, K) \<in> {(ngx_rbtree_insert_value, (<), UNIV), (ngx_rbtree_insert_timer_value, timer_less, time_window base)}"
    and mem: "s \<notin> E" "m s \<noteq> None" "\<forall>a\<in>E. m a \<noteq> None" and ops: "ops_ok lt E K ops []"
  shows "\<exists>m' root par t. do { st \<leftarrow> ngx_rbtree_init s m; run_ops (rb_add ins s) (ngx_rbtree_delete s) ops st } = Some (m', root) \<and>
    rb_at m' s par t \<and> root = rb_ptr s t \<and> rb_inorder t = list_ops lt ops [] \<and> key_sorted lt (rb_inorder t) \<and>
    rb_tree t \<and> 2 ^ (rb_height t div 2) \<le> length (rb_inorder t) + 1 \<and>
    (root \<noteq> s \<longrightarrow> ngx_rbtree_min s m' root = first_addr (rb_inorder t)) \<and>
    (\<forall>i < length (rb_inorder t). ngx_rbtree_next s (fst (rb_inorder t ! i)) (m', root) = Some (first_addr (drop (Suc i) (rb_inorder t))))"
proof -
  have E: "E - {s} = E" using mem(1) by auto
  obtain st0 where st0: "ngx_rbtree_init s m = Some st0" "rb_holds lt E K s st0 []" using init_holds [OF mem(2,3)] by blast
  have "\<exists>st. run_ops (rb_add ins s) (ngx_rbtree_delete s) ops st0 = Some st \<and> rb_holds lt E K s st (list_ops lt ops [])"
    using kind rbv.run_holds [of E s st0 "[]" ops] rbt.run_holds [of E s base st0 "[]" ops] st0(2) ops unfolding E by auto
  then obtain m' root where run: "run_ops (rb_add ins s) (ngx_rbtree_delete s) ops st0 = Some (m', root)"
    "rb_holds lt E K s (m', root) (list_ops lt ops [])" by auto
  obtain B par sn t where t: "rb_rep B s par sn (m', root) t" "rb_tree t" "rb_inorder t = list_ops lt ops []" "key_sorted lt (rb_inorder t)"
    using run(2) by (auto simp: rb_holds_def)
  have h: "rb_holds lt E K s (m', root) (rb_inorder t)" using run(2) t(3) by simp
  have "ngx_rbtree_min s m' root = first_addr (rb_inorder t)" if "root \<noteq> s"
    using that root_holds [OF h] min_holds(1) [of lt E K s m' root] h by (cases "rb_inorder t") (auto simp: first_addr_def)
  moreover have "ngx_rbtree_next s (fst (rb_inorder t ! i)) (m', root) = Some (first_addr (drop (Suc i) (rb_inorder t)))"
    if "i < length (rb_inorder t)" for i
    using next_holds [of lt E K s "(m', root)" "take i (rb_inorder t)" "fst (rb_inorder t ! i)" "snd (rb_inorder t ! i)"] h
    by (simp add: id_take_nth_drop [OF that, symmetric])
  moreover have "rb_at m' s par t" "root = rb_ptr s t" using t(1) by (simp_all add: rb_rep_def)
  moreover have "do { st \<leftarrow> ngx_rbtree_init s m; run_ops (rb_add ins s) (ngx_rbtree_delete s) ops st } = Some (m', root)"
    using st0(1) run(1) by simp
  ultimately show ?thesis using t(2-4) rb_tree_height [OF t(2)] by blast
qed

text \<open>Six nodes with the sentinel at \<open>9\<close>; two are taken out again, one of them the root.\<close>

definition six_nodes :: rb_mem where
  "six_nodes a = (if a \<in> {1, 2, 3, 4, 5, 6, 9} then Some \<lparr>rb_key = 0, rb_left = 0, rb_right = 0, rb_parent = 0, rb_red = False\<rparr> else None)"

definition six_ops :: "node_op list" where
  "six_ops = [Add 1 50, Add 2 30, Add 3 70, Add 4 30, Add 5 80, Add 6 10, Remove 1, Remove 4]"

theorem rbtree_sorted_list_witness:
  "\<exists>m root. do { st \<leftarrow> ngx_rbtree_init 9 six_nodes; run_ops (rb_add ngx_rbtree_insert_value 9) (ngx_rbtree_delete 9) six_ops st } = Some (m, root) \<and>
    ngx_rbtree_min 9 m root = Some 6 \<and> ngx_rbtree_next 9 2 (m, root) = Some (Some 3) \<and> ngx_rbtree_next 9 5 (m, root) = Some None"
proof -
  have ops: "ops_ok (<) {1, 2, 3, 4, 5, 6} UNIV six_ops []" "list_ops (<) six_ops [] = [(6, 10), (2, 30), (3, 70), (5, 80)]"
    by (simp_all add: six_ops_def ins_list_def drop_node_def)
  obtain m root par t where r: "do { st \<leftarrow> ngx_rbtree_init 9 six_nodes; run_ops (rb_add ngx_rbtree_insert_value 9) (ngx_rbtree_delete 9) six_ops st } = Some (m, root)"
    "root = rb_ptr 9 t" "rb_inorder t = list_ops (<) six_ops []" "rb_at m 9 par t"
    "root \<noteq> 9 \<longrightarrow> ngx_rbtree_min 9 m root = first_addr (rb_inorder t)"
    "\<forall>i < length (rb_inorder t). ngx_rbtree_next 9 (fst (rb_inorder t ! i)) (m, root) = Some (first_addr (drop (Suc i) (rb_inorder t)))"
    using rbtree_sorted_list [of ngx_rbtree_insert_value "(<)" UNIV 0 9 "{1, 2, 3, 4, 5, 6}" six_nodes six_ops] ops(1)
    by (auto simp: six_nodes_def)
  have "t \<noteq> Lf" using r(3) ops(2) by auto
  then have "rb_ptr 9 t \<in> fst ` set (rb_inorder t)" unfolding addrs_inorder [symmetric] by (rule rb_ptr_mem)
  then have "root \<noteq> 9" using r(2,3) ops(2) by auto
  moreover have "ngx_rbtree_next 9 2 (m, root) = Some (Some 3)"
    using r(6) [rule_format, of 1] by (simp add: r(3) ops(2) first_addr_def)
  moreover have "ngx_rbtree_next 9 5 (m, root) = Some None"
    using r(6) [rule_format, of 3] by (simp add: r(3) ops(2) first_addr_def)
  ultimately show ?thesis using r(1,5) by (auto simp: r(3) ops(2) first_addr_def)
qed

end
