(* ===== verification/Ngx_Timer.thy ===== *)
theory Ngx_Timer
  imports Ngx_Sorted_Nodes "HOL-Library.Sublist"
begin

text \<open>
  nginx, \<^verbatim>\<open>src/event/ngx_event_timer.c\<close> and \<^verbatim>\<open>src/event/ngx_event_timer.h\<close>: the timers of events, kept in a red-black tree by
  the time they are due. Adding and deleting timers, the time to wait for the first, and the loop that fires the timers that are
  due and calls the handlers of their events.
\<close>

section \<open>The code\<close>

text \<open>The flags of an event the timers use. An event is known by the address of its tree node, \<^verbatim>\<open>ev->timer\<close>.\<close>

record ngx_event =
  ev_timer_set :: bool
  ev_timedout :: bool
  ev_cancelable :: bool

text \<open>The tree \<^verbatim>\<open>ngx_event_timer_rbtree\<close>, the events, and everything else a handler may change.\<close>

record 'w timers =
  tm_tree :: rb_state
  tm_ev :: "nat \<Rightarrow> ngx_event"
  tm_world :: 'w

definition set_ev :: "nat \<Rightarrow> (ngx_event \<Rightarrow> ngx_event) \<Rightarrow> 'w timers \<Rightarrow> 'w timers" where
  "set_ev ev f st = st\<lparr>tm_ev := (tm_ev st)(ev := f (tm_ev st ev))\<rparr>"

definition NGX_TIMER_INFINITE :: u64 where
  "NGX_TIMER_INFINITE = -1"

definition NGX_TIMER_LAZY_DELAY :: int where
  "NGX_TIMER_LAZY_DELAY = 300"

definition ngx_abs :: "u64 \<Rightarrow> u64" where
  "ngx_abs v = (if sint v \<ge> 0 then v else - v)"

definition ngx_event_timer_init :: "nat \<Rightarrow> rb_mem \<Rightarrow> 'w timers \<Rightarrow> 'w timers option" where
  "ngx_event_timer_init s m st = do { tree \<leftarrow> ngx_rbtree_init s m; Some (st\<lparr>tm_tree := tree\<rparr>) }"

text \<open>The argument \<open>now\<close> is \<^verbatim>\<open>ngx_current_msec\<close>, the time the event loop has read last.\<close>

definition ngx_event_find_timer :: "nat \<Rightarrow> u64 \<Rightarrow> 'w timers \<Rightarrow> u64 option" where
  "ngx_event_find_timer s now st = (case tm_tree st of (m, root) \<Rightarrow>
     if root = s then Some NGX_TIMER_INFINITE
     else do {
       node \<leftarrow> ngx_rbtree_min s m root;
       n \<leftarrow> m node;
       let timer = rb_key n - now;
       Some (if sint timer > 0 then timer else 0)
     })"

definition ngx_event_del_timer :: "nat \<Rightarrow> nat \<Rightarrow> 'w timers \<Rightarrow> 'w timers option" where
  "ngx_event_del_timer s ev st =
     do {
       tree \<leftarrow> ngx_rbtree_delete s ev (tm_tree st);
       Some (set_ev ev (\<lambda>e. e\<lparr>ev_timer_set := False\<rparr>) (st\<lparr>tm_tree := tree\<rparr>))
     }"

definition ngx_event_add_timer :: "nat \<Rightarrow> u64 \<Rightarrow> nat \<Rightarrow> u64 \<Rightarrow> 'w timers \<Rightarrow> 'w timers option" where
  "ngx_event_add_timer s now ev timer st =
     do {
       n \<leftarrow> fst (tm_tree st) ev;
       let key = now + timer;
       if ev_timer_set (tm_ev st ev) \<and> sint (ngx_abs (key - rb_key n)) < NGX_TIMER_LAZY_DELAY then Some st
       else do {
         st \<leftarrow> (if ev_timer_set (tm_ev st ev) then ngx_event_del_timer s ev st else Some st);
         tree \<leftarrow> rb_add ngx_rbtree_insert_timer_value s ev key (tm_tree st);
         Some (set_ev ev (\<lambda>e. e\<lparr>ev_timer_set := True\<rparr>) (st\<lparr>tm_tree := tree\<rparr>))
       }
     }"

text \<open>
  The loop of \<^verbatim>\<open>ngx_event_expire_timers\<close>. The handler of an event, \<^verbatim>\<open>ev->handler\<close>, is an argument; it may add and delete timers. With the state comes
  the list of the events that were fired, in their order.
\<close>

partial_function (option) ngx_event_expire_timers ::
  "nat \<Rightarrow> u64 \<Rightarrow> (nat \<Rightarrow> 'w timers \<Rightarrow> 'w timers option) \<Rightarrow> 'w timers \<Rightarrow> (nat list \<times> 'w timers) option" where
  "ngx_event_expire_timers s now handler st = (case tm_tree st of (m, root) \<Rightarrow>
     if root = s then Some ([], st)
     else do {
       node \<leftarrow> ngx_rbtree_min s m root;
       n \<leftarrow> m node;
       if sint (rb_key n - now) > 0 then Some ([], st)
       else do {
         tree \<leftarrow> ngx_rbtree_delete s node (m, root);
         st \<leftarrow> handler node (set_ev node (\<lambda>e. e\<lparr>ev_timer_set := False, ev_timedout := True\<rparr>) (st\<lparr>tm_tree := tree\<rparr>));
         (fired, st) \<leftarrow> ngx_event_expire_timers s now handler st;
         Some (node # fired, st)
       }
     })"

text \<open>The loop over the timers left; the result is \<^const>\<open>True\<close> for \<^verbatim>\<open>NGX_OK\<close> and \<^const>\<open>False\<close> for \<^verbatim>\<open>NGX_AGAIN\<close>.\<close>

partial_function (option) timers_left_loop :: "nat \<Rightarrow> 'w timers \<Rightarrow> nat \<Rightarrow> bool option" where
  "timers_left_loop s st node =
     (if \<not> ev_cancelable (tm_ev st node) then Some False
      else do {
        nxt \<leftarrow> ngx_rbtree_next s node (tm_tree st);
        case nxt of None \<Rightarrow> Some True | Some node \<Rightarrow> timers_left_loop s st node
      })"

definition ngx_event_no_timers_left :: "nat \<Rightarrow> 'w timers \<Rightarrow> bool option" where
  "ngx_event_no_timers_left s st = (case tm_tree st of (m, root) \<Rightarrow>
     if root = s then Some True
     else do { node \<leftarrow> ngx_rbtree_min s m root; timers_left_loop s st node })"

declare ngx_event_expire_timers.simps [code] timers_left_loop.simps [code]

section \<open>The timers as a list\<close>

text \<open>
  The timers \<open>xs\<close>, events with the times they are due, the first one first. All are less than \<open>2 ^ 62\<close> milliseconds away, before or after \<open>now\<close>. \<open>E\<close> are
  the events there are; an event has its flag set while its timer is in the list.
\<close>

definition tm_ok :: "nat set \<Rightarrow> nat \<Rightarrow> u64 \<Rightarrow> 'w timers \<Rightarrow> (nat \<times> u64) list \<Rightarrow> bool" where
  "tm_ok E s now st xs \<longleftrightarrow> rb_holds timer_less (E - {s}) (time_window now) s (tm_tree st) xs \<and>
     fst ` set xs \<subseteq> E - {s} \<and> (\<forall>ev. ev_timer_set (tm_ev st ev) \<longleftrightarrow> ev \<in> fst ` set xs)"

definition due :: "u64 \<Rightarrow> nat \<times> u64 \<Rightarrow> bool" where
  "due now x \<longleftrightarrow> sint (snd x - now) \<le> 0"

lemma tm_sorted:
  assumes "tm_ok E s now st xs"
  shows "sorted_wrt (\<lambda>x y. sint (snd x - now) \<le> sint (snd y - now)) xs"
proof -
  have h: "rb_holds timer_less (E - {s}) (time_window now) s (tm_tree st) xs" using assms by (simp add: tm_ok_def)
  have K: "snd x \<in> time_window now" if "x \<in> set xs" for x using rbt.keys [OF h] that by auto
  have "sint (snd x - now) \<le> sint (snd y - now)" if "x \<in> set xs" "y \<in> set xs" "\<not> timer_less (snd y) (snd x)" for x y
    using timer_less_window [OF K [OF that(2)] K [OF that(1)]] that(3) by simp
  then show ?thesis by (rule sorted_wrt_mono_rel [OF _ rbt.sorted [OF h, unfolded key_sorted_def]])
qed

lemma due_prefix:
  assumes "tm_ok E s now st (x # xs)" "\<not> due now x"
  shows "filter (due now) (x # xs) = []"
  using tm_sorted [OF assms(1)] assms(2) by (auto simp: due_def filter_empty_conv)

lemma fst_drop_node: "fst ` set (drop_node a xs) = fst ` set xs - {a}"
  by (auto simp: drop_node_def)

lemma fst_ins_list: "fst ` set (ins_list lt x xs) = insert (fst x) (fst ` set xs)"
  by (simp add: set_ins_list)

lemma del_timer_ok:
  assumes "tm_ok E s now st xs" "ev \<in> fst ` set xs"
  shows "\<exists>st'. ngx_event_del_timer s ev st = Some st' \<and> tm_ok E s now st' (drop_node ev xs)"
proof -
  obtain tree where "ngx_rbtree_delete s ev (tm_tree st) = Some tree"
    "rb_holds timer_less (E - {s}) (time_window now) s tree (drop_node ev xs)"
    using rbt.rem_holds [of E s now "tm_tree st" xs ev] assms unfolding tm_ok_def by blast
  then show ?thesis using assms(1) by (auto simp: ngx_event_del_timer_def tm_ok_def set_ev_def fst_drop_node)
qed

lemma add_set_ok:
  assumes st: "tm_ok E s now st xs" and ev: "ev \<in> E - {s}" "ev \<notin> fst ` set xs" and k: "k \<in> time_window now"
  shows "\<exists>tree. rb_add ngx_rbtree_insert_timer_value s ev k (tm_tree st) = Some tree \<and>
    tm_ok E s now (set_ev ev (\<lambda>e. e\<lparr>ev_timer_set := True\<rparr>) (st\<lparr>tm_tree := tree\<rparr>)) (ins_list timer_less (ev, k) xs)"
proof -
  obtain tree where "rb_add ngx_rbtree_insert_timer_value s ev k (tm_tree st) = Some tree"
    "rb_holds timer_less (E - {s}) (time_window now) s tree (ins_list timer_less (ev, k) xs)"
    using rbt.add_holds [of E s now "tm_tree st" xs ev k] assms unfolding tm_ok_def by blast
  then show ?thesis using st ev(1) by (auto simp: tm_ok_def set_ev_def fst_ins_list)
qed

text \<open>The list after adding a timer: an event whose timer is set already keeps it when the new time is close.\<close>

definition timer_close :: "u64 \<Rightarrow> u64 \<Rightarrow> bool" where
  "timer_close key old \<longleftrightarrow> sint (ngx_abs (key - old)) < NGX_TIMER_LAZY_DELAY"

definition add_list :: "u64 \<Rightarrow> nat \<Rightarrow> u64 \<Rightarrow> (nat \<times> u64) list \<Rightarrow> (nat \<times> u64) list" where
  "add_list now ev timer xs =
     (if \<exists>old. (ev, old) \<in> set xs \<and> timer_close (now + timer) old then xs
      else ins_list timer_less (ev, now + timer) (drop_node ev xs))"

lemma add_timer_ok:
  assumes st: "tm_ok E s now st xs" and ev: "ev \<in> E - {s}" and timer: "0 \<le> sint timer" "sint timer < 2 ^ 62"
  shows "\<exists>st'. ngx_event_add_timer s now ev timer st = Some st' \<and> tm_ok E s now st' (add_list now ev timer xs)"
proof -
  have k: "now + timer \<in> time_window now" using timer by (simp add: time_window_def)
  have h: "rb_holds timer_less (E - {s}) (time_window now) s (tm_tree st) xs" using st by (simp add: tm_ok_def)
  have d: "distinct (map fst xs)" using rbt.unique [OF h] .
  show ?thesis
  proof (cases "ev \<in> fst ` set xs")
    case True
    then obtain old where old: "(ev, old) \<in> set xs" by auto
    have one: "(ev, o2) \<in> set xs \<longleftrightarrow> o2 = old" for o2 using d old by (auto intro: eq_key_imp_eq_value)
    obtain n where n: "fst (tm_tree st) ev = Some n" "rb_key n = old"
      using node_holds [of _ _ _ s "fst (tm_tree st)" "snd (tm_tree st)"] h old by fastforce
    have set: "ev_timer_set (tm_ev st ev)" using st True by (simp add: tm_ok_def)
    show ?thesis
    proof (cases "timer_close (now + timer) old")
      case close: True
      then have "ngx_event_add_timer s now ev timer st = Some st" "add_list now ev timer xs = xs"
        using n set one by (auto simp: ngx_event_add_timer_def timer_close_def add_list_def Let_def)
      then show ?thesis using st by simp
    next
      case False
      obtain st1 where st1: "ngx_event_del_timer s ev st = Some st1" "tm_ok E s now st1 (drop_node ev xs)"
        using del_timer_ok [OF st True] by blast
      have "ev \<notin> fst ` set (drop_node ev xs)" by (simp add: fst_drop_node)
      then show ?thesis
        using add_set_ok [OF st1(2) ev _ k] st1(1) False n set one
        by (auto simp: ngx_event_add_timer_def timer_close_def add_list_def Let_def)
    qed
  next
    case False
    then have "drop_node ev xs = xs" by (auto simp: drop_node_def filter_id_conv)
    moreover have "\<not> ev_timer_set (tm_ev st ev)" using st False by (simp add: tm_ok_def)
    moreover obtain n where "fst (tm_tree st) ev = Some n" using h ev unfolding rb_holds_def by blast
    moreover have "(ev, old) \<notin> set xs" for old using False by (auto intro: rev_image_eqI)
    ultimately show ?thesis using add_set_ok [OF st ev False k]
      by (auto simp: ngx_event_add_timer_def add_list_def Let_def)
  qed
qed

section \<open>Firing timers\<close>

text \<open>
  What a handler may do: it ends, leaves the timers well formed, and sets no timer that is due at once; the timers that are due
  after it were due before, in the same order.
\<close>

definition handler_ok :: "nat set \<Rightarrow> nat \<Rightarrow> u64 \<Rightarrow> (nat \<Rightarrow> 'w timers \<Rightarrow> 'w timers option) \<Rightarrow> bool" where
  "handler_ok E s now handler \<longleftrightarrow> (\<forall>ev st xs. ev \<in> E \<and> tm_ok E s now st xs \<longrightarrow>
     (\<exists>st' xs'. handler ev st = Some st' \<and> tm_ok E s now st' xs' \<and> subseq (filter (due now) xs') (filter (due now) xs)))"

text \<open>The handlers cancel no timer that is due.\<close>

definition handler_keeps :: "nat set \<Rightarrow> nat \<Rightarrow> u64 \<Rightarrow> (nat \<Rightarrow> 'w timers \<Rightarrow> 'w timers option) \<Rightarrow> bool" where
  "handler_keeps E s now handler \<longleftrightarrow> (\<forall>ev st xs st' xs'. ev \<in> E \<and> tm_ok E s now st xs \<and> handler ev st = Some st' \<and> tm_ok E s now st' xs' \<longrightarrow>
     filter (due now) xs' = filter (due now) xs)"

lemma drop_first:
  assumes "distinct (map fst (x # xs))"
  shows "drop_node (fst x) (x # xs) = xs"
proof -
  have "\<forall>y\<in>set xs. fst y \<noteq> fst x" using assms by (metis distinct.simps(2) image_eqI list.simps(9) list.set_map)
  then show ?thesis by (simp add: drop_node_def filter_id_conv)
qed

lemma expire_first:
  assumes st: "tm_ok E s now st (x # xs)" and d: "due now x"
  shows "\<exists>tree. ngx_event_expire_timers s now handler st =
      do { st \<leftarrow> handler (fst x) (set_ev (fst x) (\<lambda>e. e\<lparr>ev_timer_set := False, ev_timedout := True\<rparr>) (st\<lparr>tm_tree := tree\<rparr>));
           (fired, st) \<leftarrow> ngx_event_expire_timers s now handler st; Some (fst x # fired, st) } \<and>
    tm_ok E s now (set_ev (fst x) (\<lambda>e. e\<lparr>ev_timer_set := False, ev_timedout := True\<rparr>) (st\<lparr>tm_tree := tree\<rparr>)) xs"
proof -
  obtain m root where t: "tm_tree st = (m, root)" by fastforce
  have h: "rb_holds timer_less (E - {s}) (time_window now) s (m, root) (x # xs)" using st t by (simp add: tm_ok_def)
  have dist: "distinct (map fst (x # xs))" using rbt.unique [OF h] .
  obtain n where n: "ngx_rbtree_min s m root = Some (fst x)" "m (fst x) = Some n" "rb_key n = snd x"
    using min_holds [OF h] by blast
  obtain tree where tree: "ngx_rbtree_delete s (fst x) (m, root) = Some tree"
    "rb_holds timer_less (E - {s}) (time_window now) s tree (drop_node (fst x) (x # xs))"
    using rbt.rem_holds [OF h, of "fst x"] by auto
  have "root \<noteq> s" using root_holds [OF h] by simp
  moreover have "\<not> sint (rb_key n - now) > 0" using d n(3) by (simp add: due_def)
  ultimately have "ngx_event_expire_timers s now handler st =
      do { st \<leftarrow> handler (fst x) (set_ev (fst x) (\<lambda>e. e\<lparr>ev_timer_set := False, ev_timedout := True\<rparr>) (st\<lparr>tm_tree := tree\<rparr>));
           (fired, st) \<leftarrow> ngx_event_expire_timers s now handler st; Some (fst x # fired, st) }"
    using n tree(1) by (subst ngx_event_expire_timers.simps) (simp add: t)
  moreover have "tm_ok E s now (set_ev (fst x) (\<lambda>e. e\<lparr>ev_timer_set := False, ev_timedout := True\<rparr>) (st\<lparr>tm_tree := tree\<rparr>)) xs"
    using st tree(2) drop_first [OF dist] dist by (auto simp: tm_ok_def set_ev_def)
  ultimately show ?thesis by blast
qed

lemma expire_stops:
  assumes st: "tm_ok E s now st xs" and d: "filter (due now) xs = []"
  shows "ngx_event_expire_timers s now handler st = Some ([], st)"
proof -
  obtain m root where t: "tm_tree st = (m, root)" by fastforce
  have h: "rb_holds timer_less (E - {s}) (time_window now) s (m, root) xs" using st t by (simp add: tm_ok_def)
  show ?thesis
  proof (cases xs)
    case Nil
    then show ?thesis using root_holds [OF h] t by (subst ngx_event_expire_timers.simps) simp
  next
    case (Cons x ys)
    then obtain n where n: "ngx_rbtree_min s m root = Some (fst x)" "m (fst x) = Some n" "rb_key n = snd x"
      using min_holds h by blast
    moreover have "sint (rb_key n - now) > 0" using d Cons n(3) by (auto simp: due_def split: if_splits)
    ultimately show ?thesis using t by (subst ngx_event_expire_timers.simps) simp
  qed
qed

lemma expire_ok:
  assumes "tm_ok E s now st xs" "handler_ok E s now handler"
  shows "\<exists>fired st' xs'. ngx_event_expire_timers s now handler st = Some (fired, st') \<and> tm_ok E s now st' xs' \<and>
    filter (due now) xs' = [] \<and> subseq fired (map fst (filter (due now) xs)) \<and>
    (filter (due now) xs \<noteq> [] \<longrightarrow> fired \<noteq> [] \<and> hd fired = fst (hd xs)) \<and>
    (handler_keeps E s now handler \<longrightarrow> fired = map fst (filter (due now) xs))"
  using assms(1)
proof (induction "length (filter (due now) xs)" arbitrary: st xs rule: less_induct)
  case less
  show ?case
  proof (cases "filter (due now) xs = []")
    case True
    then show ?thesis using expire_stops [OF less.prems True] less.prems by (intro exI [of _ "[]"] exI [of _ st] exI [of _ xs]) simp
  next
    case False
    then obtain x ys where x: "xs = x # ys" "due now x" using due_prefix less.prems by (metis filter.simps(1) neq_Nil_conv)
    obtain tree where e: "ngx_event_expire_timers s now handler st =
      do { st \<leftarrow> handler (fst x) (set_ev (fst x) (\<lambda>e. e\<lparr>ev_timer_set := False, ev_timedout := True\<rparr>) (st\<lparr>tm_tree := tree\<rparr>));
           (fired, st) \<leftarrow> ngx_event_expire_timers s now handler st; Some (fst x # fired, st) }"
      "tm_ok E s now (set_ev (fst x) (\<lambda>e. e\<lparr>ev_timer_set := False, ev_timedout := True\<rparr>) (st\<lparr>tm_tree := tree\<rparr>)) ys"
      using expire_first [OF less.prems [unfolded x(1)] x(2)] by blast
    have xe: "fst x \<in> E" using less.prems x(1) by (auto simp: tm_ok_def)
    let ?st = "set_ev (fst x) (\<lambda>e. e\<lparr>ev_timer_set := False, ev_timedout := True\<rparr>) (st\<lparr>tm_tree := tree\<rparr>)"
    obtain st1 xs1 where h: "handler (fst x) ?st = Some st1" "tm_ok E s now st1 xs1" "subseq (filter (due now) xs1) (filter (due now) ys)"
      using assms(2) e(2) xe unfolding handler_ok_def by blast
    have "length (filter (due now) xs1) < length (filter (due now) xs)"
      using list_emb_length [OF h(3)] x by simp
    from less.hyps [OF this h(2)] obtain fired st2 xs2 where r: "ngx_event_expire_timers s now handler st1 = Some (fired, st2)"
      "tm_ok E s now st2 xs2" "filter (due now) xs2 = []" "subseq fired (map fst (filter (due now) xs1))"
      "handler_keeps E s now handler \<longrightarrow> fired = map fst (filter (due now) xs1)" by blast
    have "ngx_event_expire_timers s now handler st = Some (fst x # fired, st2)" using e(1) h(1) r(1) by simp
    moreover have "subseq fired (map fst (filter (due now) ys))"
      using r(4) h(3) subseq_map subseq_order.trans by blast
    then have "subseq (fst x # fired) (map fst (filter (due now) xs))" using x by simp
    moreover have "fst x # fired = map fst (filter (due now) xs)" if "handler_keeps E s now handler"
    proof -
      have "filter (due now) xs1 = filter (due now) ys" using that xe e(2) h(1,2) unfolding handler_keeps_def by blast
      then show ?thesis using r(5) that x by simp
    qed
    ultimately show ?thesis using r(2,3) x(1) by (intro exI [of _ "fst x # fired"] exI [of _ st2] exI [of _ xs2]) simp
  qed
qed

section \<open>Waiting, and the timers left\<close>

lemma find_timer_ok:
  assumes st: "tm_ok E s now st xs"
  shows "ngx_event_find_timer s now st =
    Some (case xs of [] \<Rightarrow> NGX_TIMER_INFINITE | x # _ \<Rightarrow> if sint (snd x - now) > 0 then snd x - now else 0)"
proof -
  obtain m root where t: "tm_tree st = (m, root)" by fastforce
  have h: "rb_holds timer_less (E - {s}) (time_window now) s (m, root) xs" using st t by (simp add: tm_ok_def)
  show ?thesis
  proof (cases xs)
    case Nil
    then show ?thesis using root_holds [OF h] t by (simp add: ngx_event_find_timer_def)
  next
    case (Cons x ys)
    then obtain n where "ngx_rbtree_min s m root = Some (fst x)" "m (fst x) = Some n" "rb_key n = snd x"
      using min_holds h by blast
    then show ?thesis using root_holds [OF h] t Cons by (simp add: ngx_event_find_timer_def Let_def)
  qed
qed

lemma left_loop_ok:
  assumes st: "tm_ok E s now st (xs @ x # ys)"
  shows "timers_left_loop s st (fst x) = Some (\<forall>y\<in>set (x # ys). ev_cancelable (tm_ev st (fst y)))"
  using assms
proof (induction ys arbitrary: xs x)
  case Nil
  have "ngx_rbtree_next s (fst x) (tm_tree st) = Some None"
    using next_holds [of timer_less "E - {s}" "time_window now" s "tm_tree st" xs "fst x" "snd x" "[]"] Nil by (simp add: tm_ok_def first_addr_def)
  then show ?case by (subst timers_left_loop.simps) simp
next
  case (Cons y ys)
  have "ngx_rbtree_next s (fst x) (tm_tree st) = Some (Some (fst y))"
    using next_holds [of timer_less "E - {s}" "time_window now" s "tm_tree st" xs "fst x" "snd x" "y # ys"] Cons.prems
    by (simp add: tm_ok_def first_addr_def)
  moreover have "timers_left_loop s st (fst y) = Some (\<forall>z\<in>set (y # ys). ev_cancelable (tm_ev st (fst z)))"
    using Cons.IH [of "xs @ [x]" y] Cons.prems by simp
  ultimately show ?case by (subst timers_left_loop.simps) simp
qed

lemma no_timers_left_ok:
  assumes st: "tm_ok E s now st xs"
  shows "ngx_event_no_timers_left s st = Some (\<forall>x\<in>set xs. ev_cancelable (tm_ev st (fst x)))"
proof -
  obtain m root where t: "tm_tree st = (m, root)" by fastforce
  have h: "rb_holds timer_less (E - {s}) (time_window now) s (m, root) xs" using st t by (simp add: tm_ok_def)
  show ?thesis
  proof (cases xs)
    case Nil
    then show ?thesis using root_holds [OF h] t by (simp add: ngx_event_no_timers_left_def)
  next
    case (Cons x ys)
    then have "ngx_event_no_timers_left s st = timers_left_loop s st (fst x)"
      using min_holds(1) h root_holds [OF h] t by (auto simp: ngx_event_no_timers_left_def)
    then show ?thesis using left_loop_ok [of E s now st "[]" x ys] st Cons by simp
  qed
qed

lemma drop_ins_list: "drop_node ev (ins_list lt (ev, k) (drop_node ev xs)) = drop_node ev xs"
proof -
  let ?ys = "drop_node ev xs" and ?P = "\<lambda>y. \<not> lt k (snd y)"
  have "drop_node ev (ins_list lt (ev, k) ?ys) = drop_node ev (takeWhile ?P ?ys @ dropWhile ?P ?ys)"
    by (simp add: ins_list_def drop_node_def del: takeWhile_dropWhile_id)
  then show ?thesis unfolding takeWhile_dropWhile_id by (simp add: drop_node_def)
qed

lemma close_bound:
  assumes key: "now + timer \<in> time_window now" "0 \<le> sint timer" and old: "old \<in> time_window now" and close: "timer_close (now + timer) old"
  shows "\<bar>sint (old - (now + timer))\<bar> < 300"
proof -
  have r: "sint (old - now) - sint timer = sint ((old - now) - timer)" "sint (timer - (old - now)) = sint timer - sint (old - now)"
    using key old sint_minus [of "old - now" timer] sint_minus [of timer "old - now"] by (simp_all add: time_window_def)
  have e: "(old - now) - timer = old - (now + timer)" "timer - (old - now) = now + timer - old" by (simp_all add: algebra_simps)
  have "sint (now + timer - old) = - sint (old - (now + timer))" using r unfolding e by linarith
  then show ?thesis using close e unfolding timer_close_def ngx_abs_def NGX_TIMER_LAZY_DELAY_def
    by (auto split: if_splits)
qed

text \<open>Time passes.\<close>

lemma tm_later: "tm_ok E s now st xs \<Longrightarrow> snd ` set xs \<subseteq> time_window later \<Longrightarrow> tm_ok E s later st xs"
  by (auto simp: tm_ok_def rb_holds_def)

lemma timer_init_ok:
  assumes "m s \<noteq> None" "\<forall>a\<in>E. m a \<noteq> None" "\<forall>ev. \<not> ev_timer_set (tm_ev st ev)"
  shows "\<exists>st'. ngx_event_timer_init s m st = Some st' \<and> tm_ok E s now st' []"
proof -
  obtain tree where "ngx_rbtree_init s m = Some tree" "rb_holds timer_less (E - {s}) (time_window now) s tree []"
    using init_holds [of m s "E - {s}"] assms(1,2) by blast
  then show ?thesis using assms(3) by (auto simp: ngx_event_timer_init_def tm_ok_def)
qed

text \<open>A handler that sets the timer of its event again, with a delay above zero, does what a handler may do.\<close>

lemma filter_ins_list: "\<not> P x \<Longrightarrow> filter P (ins_list lt x xs) = filter P xs"
proof -
  let ?Q = "\<lambda>y. \<not> lt (snd x) (snd y)"
  assume "\<not> P x"
  then have "filter P (ins_list lt x xs) = filter P (takeWhile ?Q xs @ dropWhile ?Q xs)"
    by (simp add: ins_list_def del: takeWhile_dropWhile_id)
  then show ?thesis unfolding takeWhile_dropWhile_id .
qed

lemma rearm_ok:
  assumes "s \<notin> E" "0 < sint timer" "sint timer < 2 ^ 62"
  shows "handler_ok E s now (\<lambda>ev. ngx_event_add_timer s now ev timer)"
proof -
  have sub: "subseq (filter (due now) (add_list now ev timer xs)) (filter (due now) xs)" for ev xs
  proof (cases "\<exists>old. (ev, old) \<in> set xs \<and> timer_close (now + timer) old")
    case False
    have "\<not> due now (ev, now + timer)" using assms(2) by (simp add: due_def)
    then have "filter (due now) (add_list now ev timer xs) = filter (\<lambda>x. fst x \<noteq> ev) (filter (due now) xs)"
      unfolding add_list_def if_not_P [OF False] by (simp add: filter_ins_list drop_node_def conj_commute)
    then show ?thesis by (simp only: subseq_filter_left)
  qed (simp add: add_list_def)
  show ?thesis unfolding handler_ok_def
  proof (intro allI impI)
    fix ev and st :: "'a timers" and xs assume "ev \<in> E \<and> tm_ok E s now st xs"
    then show "\<exists>st' xs'. ngx_event_add_timer s now ev timer st = Some st' \<and> tm_ok E s now st' xs' \<and> subseq (filter (due now) xs') (filter (due now) xs)"
      using add_timer_ok [of E s now st xs ev timer] assms sub [of ev xs] by auto
  qed
qed

section \<open>Properties\<close>

text \<open>
  C12. The loop that fires timers ends and leaves no timer that is due. Let the handlers end, keep the timers well formed and set no timer that is due at once.
  Then the events it fires are among those whose timers were due, each once, in the order of their times, the first one for certain; when the
  handlers cancel no timer that is due, they are all of them.
\<close>

theorem timers_expire:
  assumes "tm_ok E s now st xs" "handler_ok E s now handler"
  shows "\<exists>fired st' xs'. ngx_event_expire_timers s now handler st = Some (fired, st') \<and> tm_ok E s now st' xs' \<and>
    (\<forall>x\<in>set xs'. sint (snd x - now) > 0) \<and> distinct fired \<and> subseq fired (map fst (filter (due now) xs)) \<and>
    sorted_wrt (\<lambda>x y. sint (snd x - now) \<le> sint (snd y - now)) (filter (due now) xs) \<and>
    (filter (due now) xs \<noteq> [] \<longrightarrow> fired \<noteq> [] \<and> hd fired = fst (hd xs)) \<and>
    (handler_keeps E s now handler \<longrightarrow> fired = map fst (filter (due now) xs))"
proof -
  obtain fired st' xs' where e: "ngx_event_expire_timers s now handler st = Some (fired, st')" "tm_ok E s now st' xs'"
    "filter (due now) xs' = []" "subseq fired (map fst (filter (due now) xs))"
    "filter (due now) xs \<noteq> [] \<longrightarrow> fired \<noteq> [] \<and> hd fired = fst (hd xs)"
    "handler_keeps E s now handler \<longrightarrow> fired = map fst (filter (due now) xs)"
    using expire_ok [OF assms] by blast
  have "distinct (map fst xs)" using rbt.unique [of E s now "tm_tree st" xs] assms(1) unfolding tm_ok_def by blast
  then have "distinct (map fst (filter (due now) xs))" by (rule distinct_map_filter)
  then have "distinct fired" using e(4) unfolding subseq_conv_nths by (auto simp: distinct_nthsI)
  moreover have "\<forall>x\<in>set xs'. sint (snd x - now) > 0" using e(3) by (auto simp: filter_empty_conv due_def)
  moreover have "sorted_wrt (\<lambda>x y. sint (snd x - now) \<le> sint (snd y - now)) (filter (due now) xs)"
    using tm_sorted [OF assms(1)] by (rule sorted_wrt_filter)
  ultimately show ?thesis using e by blast
qed

text \<open>Three events, their timers set at time \<open>100\<close>; at \<open>160\<close> two are due. Every handler sets its timer again.\<close>

definition no_event :: ngx_event where
  "no_event = \<lparr>ev_timer_set = False, ev_timedout = False, ev_cancelable = False\<rparr>"

definition no_timers :: "unit timers" where
  "no_timers = \<lparr>tm_tree = (six_nodes, 9), tm_ev = (\<lambda>_. no_event), tm_world = ()\<rparr>"

lemma three_timers:
  "\<exists>st. do { st \<leftarrow> ngx_event_timer_init 9 six_nodes no_timers; st \<leftarrow> ngx_event_add_timer 9 100 1 50 st;
      st \<leftarrow> ngx_event_add_timer 9 100 2 20 st; ngx_event_add_timer 9 100 3 500 st } = Some st \<and>
    tm_ok {1, 2, 3} 9 100 st [(2, 120), (1, 150), (3, 600)]"
proof -
  have E: "(1::nat) \<in> {1, 2, 3} - {9}" "(2::nat) \<in> {1, 2, 3} - {9}" "(3::nat) \<in> {1, 2, 3} - {9}" by auto
  obtain st0 where st0: "ngx_event_timer_init 9 six_nodes no_timers = Some st0" "tm_ok {1, 2, 3} 9 100 st0 []"
    using timer_init_ok [of six_nodes 9 "{1, 2, 3}" no_timers 100] by (auto simp: six_nodes_def no_timers_def no_event_def)
  obtain st1 where st1: "ngx_event_add_timer 9 100 1 50 st0 = Some st1" "tm_ok {1, 2, 3} 9 100 st1 [(1, 150)]"
    using add_timer_ok [OF st0(2) E(1), of 50] by (auto simp: add_list_def ins_list_def drop_node_def)
  obtain st2 where st2: "ngx_event_add_timer 9 100 2 20 st1 = Some st2" "tm_ok {1, 2, 3} 9 100 st2 [(2, 120), (1, 150)]"
    using add_timer_ok [OF st1(2) E(2), of 20] by (auto simp: add_list_def ins_list_def drop_node_def timer_less_def)
  obtain st3 where st3: "ngx_event_add_timer 9 100 3 500 st2 = Some st3" "tm_ok {1, 2, 3} 9 100 st3 [(2, 120), (1, 150), (3, 600)]"
    using add_timer_ok [OF st2(2) E(3), of 500] by (auto simp: add_list_def ins_list_def drop_node_def timer_less_def)
  show ?thesis using st0(1) st1(1) st2(1) st3 by simp
qed

theorem timers_expire_witness:
  "\<exists>st fired st' xs'. do { st \<leftarrow> ngx_event_timer_init 9 six_nodes no_timers; st \<leftarrow> ngx_event_add_timer 9 100 1 50 st;
      st \<leftarrow> ngx_event_add_timer 9 100 2 20 st; ngx_event_add_timer 9 100 3 500 st } = Some st \<and>
    ngx_event_expire_timers 9 160 (\<lambda>ev. ngx_event_add_timer 9 160 ev 1000) st = Some (fired, st') \<and>
    tm_ok {1, 2, 3} 9 160 st' xs' \<and> subseq fired [2, 1] \<and> hd fired = 2"
proof -
  obtain st where st: "do { st \<leftarrow> ngx_event_timer_init 9 six_nodes no_timers; st \<leftarrow> ngx_event_add_timer 9 100 1 50 st;
      st \<leftarrow> ngx_event_add_timer 9 100 2 20 st; ngx_event_add_timer 9 100 3 500 st } = Some st"
    "tm_ok {1, 2, 3} 9 100 st [(2, 120), (1, 150), (3, 600)]" using three_timers by blast
  have ok: "tm_ok {1, 2, 3} 9 160 st [(2, 120), (1, 150), (3, 600)]"
    by (rule tm_later [OF st(2)]) (simp add: time_window_def)
  have h: "handler_ok {1, 2, 3} 9 160 (\<lambda>ev (st::unit timers). ngx_event_add_timer 9 160 ev 1000 st)"
    by (rule rearm_ok) simp_all
  have d: "filter (due 160) [(2, 120), (1, 150), (3, 600)] = [(2, 120), (1::nat, 150)]" by (simp add: due_def)
  show ?thesis using timers_expire [OF ok h] st(1) unfolding d by auto
qed



end
