(* ===== verification/Spec2Isabelle.thy ===== *)
theory Spec2Isabelle
  imports Gm_Base64 Gm_Kdf Gm_Sm4_Stream Ngx_Shmtx Ngx_Rwlock Ngx_Upstream_Rr Ngx_Complex_Uri
    Ngx_Chunked Ngx_Keepalive Ngx_Request_Read Ngx_Limit_Req Ngx_Radix Ngx_Timer
begin

text \<open>
  \<^bold>\<open>Verification of GmSSL 3.1.1 and nginx 1.24.0.\<close>

  The repository collects C systems. Two are present as source: the cryptographic library
  GmSSL (\<^verbatim>\<open>src/gmssl/GmSSL-3.1.1\<close>) and the web server nginx (\<^verbatim>\<open>src/nginx/nginx-1.24.0\<close>). This library models
  the symmetric core of GmSSL and the parts of nginx that decide what a request means, who
  serves it, and how worker processes share memory. Theories whose names start with \<open>Gm\<close> are
  about the first, with \<open>Ngx\<close> about the second. File names below are relative to the \<^verbatim>\<open>src\<close>
  directory of each system.

  \<^bold>\<open>Conventions.\<close> Bytes and fixed-width integers are words (\<open>u8\<close>, \<open>u32\<close>, \<open>u64\<close>), so wrap-around is the
  machine's. Signed \<^verbatim>\<open>ngx_int_t\<close>, \<^verbatim>\<open>off_t\<close> and \<^verbatim>\<open>ssize_t\<close> values are integers, and an operation that leaves 64
  bits is \<^const>\<open>None\<close>, since it is undefined in C. A C buffer is a list; \<^const>\<open>mem_write\<close> lengthens it when a
  write runs past its end, so that an invariant about its length says that no write does. A
  function that returns an error code returns \<open>Inl\<close> of it. Loops are structural recursions or have a
  termination proof; a loop whose end depends on an invariant is a \<^theory_text>\<open>partial_function\<close> in the option
  monad, and its theorems state that it returns. No definition uses fuel. Names follow the source.

  \<^bold>\<open>Shared theories.\<close>
  \<^item> \<^verbatim>\<open>Prelude\<close>: machine types, buffers, block decomposition, lemma collections.
  \<^item> \<^verbatim>\<open>Ngx_Steps\<close>: the locale of an invariant of a transition system and counting of program counters,
    interpreted by every lock model.

  \<^bold>\<open>GmSSL.\<close>
  \<^item> \<^verbatim>\<open>Gm_Endian\<close> (\<^verbatim>\<open>include/gmssl/endian.h\<close>): loads, stores, rotations.
  \<^item> \<^verbatim>\<open>Gm_Md\<close>: a locale for hashes that buffer blocks, with the streaming lemma proved once: any
    sequence of updates hashes the concatenation. Interpreted by \<^verbatim>\<open>Gm_Sm3\<close> (\<^verbatim>\<open>sm3.c\<close>), \<^verbatim>\<open>Gm_Sha1\<close>, \<^verbatim>\<open>Gm_Sha256\<close>,
    \<^verbatim>\<open>Gm_Sha512\<close> and \<^verbatim>\<open>Gm_Md5\<close>. SM3's unrolled compression is shown equal to the standard's loop.
  \<^item> \<^verbatim>\<open>Gm_Digest\<close> (\<^verbatim>\<open>digest.c\<close>): the method tables and the dispatch through them, the names.
  \<^item> \<^verbatim>\<open>Gm_Hmac\<close> (\<^verbatim>\<open>hmac.c\<close>, \<^verbatim>\<open>sm3_hmac.c\<close>) refines the definition of HMAC over any digest of the table;
    verification accepts exactly the right code.
  \<^item> \<^verbatim>\<open>Gm_Kdf\<close> (\<^verbatim>\<open>sm3_kdf.c\<close>, \<^verbatim>\<open>pbkdf2.c\<close>, \<^verbatim>\<open>hkdf.c\<close>): key derivation against the standards, with the cases
    where the code refuses what they define.
  \<^item> \<^verbatim>\<open>Gm_Mem\<close> (\<^verbatim>\<open>hex.c\<close>): hexadecimal decoding and the memory helpers.
  \<^item> \<^verbatim>\<open>Gm_Base64\<close> (\<^verbatim>\<open>base64.c\<close>): the streaming encoder and decoder, their buffer bounds and round trip.
  \<^item> \<^verbatim>\<open>Gm_Sm4\<close> (\<^verbatim>\<open>sm4_common.c\<close>, \<^verbatim>\<open>sm4_enc.c\<close>, \<^verbatim>\<open>sm4_setkey.c\<close>): table rounds equal S-box rounds, decryption inverts.
  \<^item> \<^verbatim>\<open>Gm_Gcm\<close> (\<^verbatim>\<open>gf128.c\<close>, \<^verbatim>\<open>gcm.c\<close>): multiplication is that of a commutative ring, GHASH and its streamed form.
  \<^item> \<^verbatim>\<open>Gm_Sm4_Modes\<close>, \<^verbatim>\<open>Gm_Sm4_Stream\<close> (\<^verbatim>\<open>sm4_modes.c\<close>, \<^verbatim>\<open>sm4_cbc_mac.c\<close>): CBC, CTR and GCM in one call and
    streamed; round trips, agreement of the two forms for every split, and GCM's tag check.

  \<^bold>\<open>nginx.\<close>
  \<^item> \<^verbatim>\<open>Ngx_Shmtx\<close> (\<^verbatim>\<open>core/ngx_shmtx.c\<close>): the shared-memory mutex, one step per access of shared memory, any
    number of processes, crashes and forced unlocks. Mutual exclusion and absence of lost wakeups
    hold in every reachable state.
  \<^item> \<^verbatim>\<open>Ngx_Rwlock\<close> (\<^verbatim>\<open>core/ngx_rwlock.c\<close>, \<^verbatim>\<open>core/ngx_spinlock.c\<close>): exclusion and exact counting of readers.
  \<^item> \<^verbatim>\<open>Ngx_Upstream_Rr\<close> (\<^verbatim>\<open>http/ngx_http_upstream_round_robin.c\<close>): selection of a server. A request gets a
    peer exactly when one is usable, from the first group that has one; the shares of healthy peers
    are exact over whole rounds and never more than one ahead within a round.
  \<^item> \<^verbatim>\<open>Ngx_Complex_Uri\<close> (\<^verbatim>\<open>ngx_http_parse_complex_uri\<close> of \<^verbatim>\<open>http/ngx_http_parse.c\<close>): the state machine refines
    decoding followed by resolution of segments; accepted paths stay below the root.
  \<^item> \<^verbatim>\<open>Ngx_Parse\<close> (\<^verbatim>\<open>core/ngx_string.c\<close>, \<^verbatim>\<open>core/ngx_parse.c\<close>): numbers, sizes, offsets and times; the guards
    against overflow are exact. The readers share a locale of loops that append a digit under a guard.
  \<^item> \<^verbatim>\<open>Ngx_Chunked\<close> (\<^verbatim>\<open>ngx_http_parse_chunked\<close>, and the body filters of \<^verbatim>\<open>http/ngx_http_request_body.c\<close>): bodies
    that arrive in pieces, with the buffer as memory. The filters refine a bytewise decoder for
    every split of the input, and accept exactly the grammar of chunked bodies.
  \<^item> \<^verbatim>\<open>Ngx_Request\<close> (\<^verbatim>\<open>ngx_http_parse_request_line\<close> of \<^verbatim>\<open>http/ngx_http_parse.c\<close>): the machine that reads a request line,
    state by state. The lines it accepts, with the method, version and the ranges it stores for the URI and its
    parts, are exactly those of a grammar; every pointer it keeps stays inside what it has read.
  \<^item> \<^verbatim>\<open>Ngx_Request_Uri\<close> (\<^verbatim>\<open>ngx_http_process_request_uri\<close> of \<^verbatim>\<open>http/ngx_http_request.c\<close>): from the request line to path, arguments and
    extension. Both ways to the path, with and without the URI machine, give the resolved path of the target.
  \<^item> \<^verbatim>\<open>Ngx_Request_Read\<close> (\<^verbatim>\<open>ngx_http_process_request_line\<close>, \<^verbatim>\<open>ngx_http_alloc_large_header_buffer\<close>): the request line
    arrives in pieces and may move to larger buffers, with its pointers relocated. The outcome is that of parsing the whole
    line at once, or the refusal of a line longer than the buffers.
  \<^item> \<^verbatim>\<open>Ngx_Queue\<close> (\<^verbatim>\<open>core/ngx_queue.c\<close>, \<^verbatim>\<open>core/ngx_queue.h\<close>): intrusive lists on a heap of links, refined to lists; the sort is stable.
  \<^item> \<^verbatim>\<open>Ngx_Keepalive\<close> (\<^verbatim>\<open>http/modules/ngx_http_upstream_keepalive_module.c\<close>): the cache of idle upstream connections over two queues
    refines a bounded cache that drops the connection used longest ago.
  \<^item> \<^verbatim>\<open>Ngx_Limit_Req\<close> (\<^verbatim>\<open>http/modules/ngx_http_limit_req_module.c\<close>): the leaky bucket with several zones. No more requests pass in
    an interval than rate and burst allow, and a request that one zone refuses leaves the others uncharged and unlocked.
  \<^item> \<^verbatim>\<open>Ngx_Radix\<close> (\<^verbatim>\<open>core/ngx_radix_tree.c\<close>): radix trees over 32-bit and 128-bit keys, on a heap with page allocation, refine a table of
    prefixes with longest-prefix look-up. The contract is a locale, interpreted for both widths.
  \<^item> \<^verbatim>\<open>Ngx_Rbtree\<close>, \<^verbatim>\<open>Ngx_Rbtree_Delete\<close>, \<^verbatim>\<open>Ngx_Sorted_Nodes\<close> (\<^verbatim>\<open>core/ngx_rbtree.c\<close>, \<^verbatim>\<open>core/ngx_rbtree.h\<close>): the red-black tree on a heap of nodes with a
    sentinel. The first holds the code, the representation by a zipper, and insertion; the second deletion and the walks; the third the
    contract of a sorted list of nodes as a locale, interpreted for plain keys and for points in time.
  \<^item> \<^verbatim>\<open>Ngx_Timer\<close> (\<^verbatim>\<open>event/ngx_event_timer.c\<close>, \<^verbatim>\<open>event/ngx_event_timer.h\<close>): timers of events as a client of that contract. The loop over
    expired timers ends and fires what is due in the order of time; setting a timer is exact up to the lazy delay.

  \<^bold>\<open>How the parts meet.\<close> HMAC calls digests through the table, the key derivations call HMAC, the SM4
  modes call the block cipher and GHASH: each layer's theorems use the theorems of the layer
  below, not its code. In nginx, a request line goes through its machine, then
  through the URI machine, to a path below the root: the theorems about \<^verbatim>\<open>ngx_http_process_request_uri\<close> compose the two, and those about reading put the
  pieces of the line in front. The size guard of the chunk parser is the one proved exact
  for the hexadecimal reader. The round-robin peers are protected by the reader-writer lock
  when they live in a shared zone; the keepalive cache is a client of the queue, and the timers are a client of the red-black tree, each
  through the laws proved there.

  \<^bold>\<open>Bounds and assumptions.\<close> Messages are shorter than the hash length counters allow; where a
  theorem needs it, it is a hypothesis and its witness meets it. The locks are modelled for
  sequentially consistent accesses, as the atomic operations of the source give them. The body
  filters assume that chain links can be allocated and that fewer than \<open>2 ^ 63\<close> bytes arrive. The path of a request is
  copied to memory that can be allocated, relocation leaves null pointers alone, and reading sees the bytes in the pieces in which they arrive. The rate limit
  holds while the clock does not go back and products of times and rates stay below \<open>2 ^ 63\<close>; a run of the handler reads the time once, and
  a zone's tree is represented by its queue of nodes. Timers are less than \<open>2 ^ 62\<close> milliseconds away, where the
  wrapping comparison is an order; the handlers of events are a parameter with a stated contract. Models on a heap return \<^const>\<open>None\<close> for an
  access outside of it and for a loop that does not end, so a theorem that they return \<open>Some\<close> excludes both.

  \<^bold>\<open>Not modelled.\<close> Vector-instruction variants of modelled functions; public-key algorithms (SM2, SM9,
  RSA), whose correctness needs curve and pairing algebra; random number generation; ASN.1, X.509,
  CMS and TLS; sockets and devices. Of nginx: pools, slabs and hashes, the event modules of the operating systems, the
  request phases and the upstream exchange, HTTP/2, most modules, the stream and mail proxies,
  and the operating system layer. Demonstrations, tests and build scripts are left out. The next
  candidates are the slab allocator, the header line machine, HPACK, and GmSSL's AES, ChaCha20 and ZUC.
\<close>

end
